(* ===== verification/CZ_Prelude.thy ===== *)
theory CZ_Prelude
  imports Main "HOL-Library.Word"
begin

text \<open>
  Shared vocabulary of the CoreZ OS development: names for the C integer types, the compiler
  builtins the kernel uses on words (count trailing zeros, population count), little-endian loads
  of a byte array, and the generic lemmas on lists and words that the component theories use.
\<close>

unbundle bit_operations_syntax

type_synonym u8 = "8 word"
type_synonym u16 = "16 word"
type_synonym u32 = "32 word"
type_synonym u64 = "64 word"

named_theorems cz_defs \<open>definitions of the model that proofs unfold together\<close>
named_theorems cz_bits \<open>bit-level characterisations of the word operations of the model\<close>

section \<open>Compiler builtins\<close>

text \<open>\<open>ctz w\<close> is \<open>__builtin_ctz\<close>/\<open>__builtin_ctzll\<close>: the index of the lowest set bit. The
  builtin is undefined at 0; every call of the kernel guards against it.\<close>

definition ctz :: "'a::len word \<Rightarrow> nat" where
  "ctz w = length (takeWhile (\<lambda>i. \<not> bit w i) [0..<LENGTH('a)])"

text \<open>\<open>popcount w\<close> is \<open>__builtin_popcount\<close>/\<open>__builtin_popcountll\<close>.\<close>

definition popcount :: "'a::len word \<Rightarrow> nat" where
  "popcount w = length (filter (bit w) [0..<LENGTH('a)])"

text \<open>\<open>load_le bs\<close> reads a byte sequence as a little-endian integer, the way x86 reads a
  \<open>uint32_t\<close> or a \<open>uint64_t\<close> through a pointer into a byte array.\<close>

primrec load_le :: "u8 list \<Rightarrow> 'a::len word" where
  "load_le [] = 0"
| "load_le (b # bs) = ucast b OR push_bit 8 (load_le bs)"

section \<open>Generic lemmas\<close>

lemma ctz_le: "ctz (w :: 'a::len word) \<le> LENGTH('a)"
  unfolding ctz_def by (metis length_takeWhile_le length_upt diff_zero)

lemma takeWhile_upt_nth:
  "i < length (takeWhile P [0..<n]) \<Longrightarrow> P i"
proof -
  assume i: "i < length (takeWhile P [0..<n])"
  moreover have "length (takeWhile P [0..<n]) \<le> n"
    by (metis length_takeWhile_le length_upt diff_zero)
  ultimately have "takeWhile P [0..<n] ! i = i"
    by (simp add: takeWhile_nth)
  with i show "P i" by (metis nth_mem set_takeWhileD)
qed

lemma not_bit_below_ctz: "i < ctz (w :: 'a::len word) \<Longrightarrow> \<not> bit w i"
  unfolding ctz_def by (rule takeWhile_upt_nth)

lemma ctz_less: "(w :: 'a::len word) \<noteq> 0 \<Longrightarrow> ctz w < LENGTH('a)"
proof -
  assume "w \<noteq> 0"
  then obtain i where i: "bit w i" by (auto simp: bit_eq_iff)
  then have "i < LENGTH('a)" by (rule bit_imp_le_length)
  moreover from i have "\<not> i < ctz w" using not_bit_below_ctz by blast
  ultimately show ?thesis by simp
qed

lemma bit_ctz: "(w :: 'a::len word) \<noteq> 0 \<Longrightarrow> bit w (ctz w)"
proof -
  assume w: "w \<noteq> 0"
  let ?xs = "[0..<LENGTH('a)]"
  have l: "ctz w < length ?xs" using ctz_less [OF w] by simp
  have "\<not> (\<lambda>i. \<not> bit w i) (?xs ! length (takeWhile (\<lambda>i. \<not> bit w i) ?xs))"
    using l unfolding ctz_def by (rule nth_length_takeWhile)
  then show ?thesis using ctz_less [OF w] by (simp add: ctz_def)
qed

lemma ctz_eqI: "bit (w :: 'a::len word) n \<Longrightarrow> (\<And>i. i < n \<Longrightarrow> \<not> bit w i) \<Longrightarrow> ctz w = n"
  by (metis bit_ctz bit_0_eq linorder_neqE_nat not_bit_below_ctz bot_apply bot_bool_def)

lemma ctz_le_bit: "bit (w :: 'a::len word) n \<Longrightarrow> ctz w \<le> n"
  using not_bit_below_ctz [of n w] by (meson not_le)

lemma bit_load_le:
  "bit (load_le bs :: 'a::len word) n \<longleftrightarrow>
     n < LENGTH('a) \<and> n < 8 * length bs \<and> bit (bs ! (n div 8)) (n mod 8)"
proof (induction bs arbitrary: n)
  case Nil
  then show ?case by simp
next
  case (Cons b bs)
  show ?case
  proof (cases "n < 8")
    case True
    then show ?thesis
      by (auto simp: bit_simps)
  next
    case False
    then have "n div 8 = Suc ((n - 8) div 8)" and "n mod 8 = (n - 8) mod 8"
      by (simp_all add: div_if mod_if)
    with False show ?thesis
      by (auto simp: bit_simps Cons.IH dest: bit_imp_le_length)
  qed
qed

lemma load_le_Cons_add: "load_le (b # bs) = ucast b + 256 * (load_le bs :: 'a::len word)"
proof -
  have "\<not> (bit (ucast b :: 'a word) n \<and> bit (push_bit 8 (load_le bs) :: 'a word) n)" for n
    by (auto simp: bit_simps dest: bit_imp_le_length)
  then have "ucast b OR push_bit 8 (load_le bs) = ucast b + push_bit 8 (load_le bs :: 'a word)"
    by (intro disjunctive_add_eq_or [symmetric] bit_word_eqI) (auto simp: bit_and_iff)
  then show ?thesis by (simp add: push_bit_eq_mult mult.commute)
qed

end
