(* ===== verification/Bitmap.thy ===== *)
theory Bitmap
  imports CZ_Prelude
begin

text \<open>
  The free/used bitmaps of \<open>kernel/mm/bitmap/bitmap.c\<close>: bit \<open>i\<close> of a map is bit
  \<open>7 - i mod 8\<close> (most significant first) of byte \<open>i div 8\<close>, set when the unit is used.
  Counters and indices of the source are \<open>uint32_t\<close>; they are bounded by the number of bits of
  the map, so they are modelled as \<open>nat\<close>, and the bytes and the 64-bit words are machine words.
\<close>

section \<open>Model\<close>

record mm_bitmap =
  btmp_bytes_len :: nat
  bits :: "u8 list"

definition BITMAP_MASK :: u8 where
  "BITMAP_MASK = 0x80"

definition bitmap_wf :: "mm_bitmap \<Rightarrow> bool" where
  "bitmap_wf btmp \<longleftrightarrow> length (bits btmp) = btmp_bytes_len btmp"

definition bitmap_init :: "mm_bitmap \<Rightarrow> mm_bitmap" where
  "bitmap_init btmp = btmp\<lparr>bits := replicate (btmp_bytes_len btmp) 0\<rparr>"

definition bitmap_scan_test :: "mm_bitmap \<Rightarrow> nat \<Rightarrow> int" where
  "bitmap_scan_test btmp bit_idx =
     (let byte = bit_idx div 8 in
      if byte \<ge> btmp_bytes_len btmp then -1
      else if bits btmp ! byte AND drop_bit (bit_idx mod 8) BITMAP_MASK \<noteq> 0 then 1 else 0)"

definition bitmap_set :: "mm_bitmap \<Rightarrow> nat \<Rightarrow> int \<Rightarrow> mm_bitmap" where
  "bitmap_set btmp bit_idx value =
     (let byte = bit_idx div 8 in
      if byte \<ge> btmp_bytes_len btmp then btmp
      else
        (let mask = drop_bit (bit_idx mod 8) BITMAP_MASK; b = bits btmp ! byte in
         btmp\<lparr>bits := (bits btmp)[byte := if value \<noteq> 0 then b OR mask else b AND NOT mask]\<rparr>))"

text \<open>The word view of the scan: the bits of each byte are reversed, so that bit \<open>i\<close> of word
  \<open>w\<close> is bit \<open>64 * w + i\<close> of the map.\<close>

definition bitmap_word :: "u8 list \<Rightarrow> nat \<Rightarrow> u64" where
  "bitmap_word bs w =
     (let x = load_le (take 8 (drop (8 * w) bs));
          x = push_bit 1 (x AND 0x5555555555555555) OR (drop_bit 1 x AND 0x5555555555555555);
          x = push_bit 2 (x AND 0x3333333333333333) OR (drop_bit 2 x AND 0x3333333333333333)
      in push_bit 4 (x AND 0x0f0f0f0f0f0f0f0f) OR (drop_bit 4 x AND 0x0f0f0f0f0f0f0f0f))"

text \<open>The loop over the runs of one mixed word: \<open>Inl i\<close> is the return of index \<open>i\<close>,
  \<open>Inr run\<close> falls through to the next word with the pending run.\<close>

lemma ctz_not_pos: "bit (rest :: u64) 0 \<Longrightarrow> rest \<noteq> - 1 \<Longrightarrow> 0 < ctz (NOT rest)"
proof -
  assume "bit rest 0" and "rest \<noteq> - 1"
  then have "NOT rest \<noteq> 0" by (metis bit.double_compl bit.compl_zero)
  then have "bit (NOT rest) (ctz (NOT rest))" by (rule bit_ctz)
  with \<open>bit rest 0\<close> show ?thesis by (cases "ctz (NOT rest) = 0") (auto simp: bit_simps)
qed

lemma bit_drop_ctz: "(w :: u64) \<noteq> 0 \<Longrightarrow> bit (drop_bit (ctz w) w) 0"
  by (simp add: bit_drop_bit_eq bit_ctz)

lemma run_progress:
  assumes "(rest :: u64) \<noteq> 0" and "drop_bit (ctz rest) rest \<noteq> - 1"
  shows "0 < ctz (NOT (drop_bit (ctz rest) rest))"
  using assms by (intro ctz_not_pos bit_drop_ctz)

function bitmap_word_runs :: "u64 \<Rightarrow> nat \<Rightarrow> nat \<Rightarrow> nat \<Rightarrow> nat \<Rightarrow> nat + nat" where
  "bitmap_word_runs v base cnt pos run =
     (if pos < 64 then
        (let rest = drop_bit pos v in
         if rest = 0 then Inr (run + (64 - pos))
         else
           (let tz = ctz rest in
            if run + tz \<ge> cnt then Inl (base + pos - run)
            else
              (let pos = pos + tz; rest = drop_bit tz rest in
               if rest = - 1 then Inr 0
               else bitmap_word_runs v base cnt (pos + ctz (NOT rest)) 0)))
      else Inr run)"
  by pat_completeness auto
termination
proof (relation "measure (\<lambda>(v, base, cnt, pos, run). 64 - pos)", goal_cases)
  case (2 v base cnt pos run rest tz)
  then show ?case using run_progress [of rest] by simp
qed simp

declare bitmap_word_runs.simps [simp del]

function bitmap_scan_words :: "u8 list \<Rightarrow> nat \<Rightarrow> nat \<Rightarrow> nat \<Rightarrow> nat \<Rightarrow> nat + nat" where
  "bitmap_scan_words bs nwords cnt w run =
     (if w < nwords then
        (let v = bitmap_word bs w in
         if v = 0 then
           (let run = run + 64 in
            if run \<ge> cnt then Inl (64 * w + 64 - run)
            else bitmap_scan_words bs nwords cnt (w + 1) run)
         else if v = - 1 then bitmap_scan_words bs nwords cnt (w + 1) 0
         else
           (case bitmap_word_runs v (64 * w) cnt 0 run of
              Inl i \<Rightarrow> Inl i
            | Inr run \<Rightarrow> bitmap_scan_words bs nwords cnt (w + 1) run))
      else Inr run)"
  by pat_completeness auto
termination
  by (relation "measure (\<lambda>(bs, nwords, cnt, w, run). nwords - w)") auto

declare bitmap_scan_words.simps [simp del]

text \<open>The bit loop over one of the bytes after the last whole word.\<close>

function bitmap_scan_byte :: "u8 \<Rightarrow> nat \<Rightarrow> nat \<Rightarrow> nat \<Rightarrow> nat \<Rightarrow> nat + nat" where
  "bitmap_scan_byte b byte cnt j run =
     (if j < 8 then
        (if b AND 0x80 \<noteq> 0 then bitmap_scan_byte (push_bit 1 b) byte cnt (j + 1) 0
         else
           (let run = run + 1 in
            if run \<ge> cnt then Inl (8 * byte + j + 1 - cnt)
            else bitmap_scan_byte (push_bit 1 b) byte cnt (j + 1) run))
      else Inr run)"
  by pat_completeness auto
termination
  by (relation "measure (\<lambda>(b, byte, cnt, j, run). 8 - j)") auto

declare bitmap_scan_byte.simps [simp del]

function bitmap_scan_bytes :: "u8 list \<Rightarrow> nat \<Rightarrow> nat \<Rightarrow> nat \<Rightarrow> nat \<Rightarrow> nat + nat" where
  "bitmap_scan_bytes bs len cnt byte run =
     (if byte < len then
        (case bitmap_scan_byte (bs ! byte) byte cnt 0 run of
           Inl i \<Rightarrow> Inl i
         | Inr run \<Rightarrow> bitmap_scan_bytes bs len cnt (byte + 1) run)
      else Inr run)"
  by pat_completeness auto
termination
  by (relation "measure (\<lambda>(bs, len, cnt, byte, run). len - byte)") auto

declare bitmap_scan_bytes.simps [simp del]

definition bitmap_scan :: "mm_bitmap \<Rightarrow> nat \<Rightarrow> int" where
  "bitmap_scan btmp cnt =
     (if cnt = 0 \<or> btmp_bytes_len btmp = 0 then -1
      else
        (let nwords = btmp_bytes_len btmp div 8 in
         case bitmap_scan_words (bits btmp) nwords cnt 0 0 of
           Inl i \<Rightarrow> int i
         | Inr run \<Rightarrow>
             (case bitmap_scan_bytes (bits btmp) (btmp_bytes_len btmp) cnt (8 * nwords) run of
                Inl i \<Rightarrow> int i
              | Inr _ \<Rightarrow> -1)))"

section \<open>Bits of a map\<close>

definition bm_used :: "u8 list \<Rightarrow> nat \<Rightarrow> bool" where
  "bm_used bs i \<longleftrightarrow> bit (bs ! (i div 8)) (7 - i mod 8)"

lemma bit_BITMAP_MASK: "bit BITMAP_MASK m \<longleftrightarrow> m = 7"
proof -
  have "\<forall>m \<in> set [0..<8]. bit BITMAP_MASK m \<longleftrightarrow> m = 7" by code_simp
  then show ?thesis by (cases "m < 8") (auto dest: bit_imp_le_length)
qed

lemma bit_mask_iff: "k < 8 \<Longrightarrow> bit (drop_bit k BITMAP_MASK) n \<longleftrightarrow> n = 7 - k"
  by (auto simp: bit_drop_bit_eq bit_BITMAP_MASK)

lemma and_mask_zero_iff: "k < 8 \<Longrightarrow> b AND drop_bit k BITMAP_MASK = 0 \<longleftrightarrow> \<not> bit b (7 - k)"
proof
  assume k: "k < 8" and "b AND drop_bit k BITMAP_MASK = 0"
  then have "\<not> bit (b AND drop_bit k BITMAP_MASK) (7 - k)" by simp
  with k show "\<not> bit b (7 - k)" by (simp add: bit_and_iff bit_mask_iff)
next
  assume "k < 8" and "\<not> bit b (7 - k)"
  then show "b AND drop_bit k BITMAP_MASK = 0"
    by (intro bit_word_eqI) (auto simp: bit_and_iff bit_mask_iff)
qed

lemma bitmap_scan_test_in:
  "i < 8 * btmp_bytes_len b \<Longrightarrow> bitmap_scan_test b i = (if bm_used (bits b) i then 1 else 0)"
  by (simp add: bitmap_scan_test_def bm_used_def Let_def and_mask_zero_iff not_le
      less_mult_imp_div_less mult.commute)

lemma bitmap_scan_test_out: "8 * btmp_bytes_len b \<le> i \<Longrightarrow> bitmap_scan_test b i = -1"
  by (simp add: bitmap_scan_test_def Let_def) linarith

lemma bitmap_set_len [simp]: "btmp_bytes_len (bitmap_set b i v) = btmp_bytes_len b"
  by (simp add: bitmap_set_def Let_def)

lemma bitmap_set_wf [simp]: "bitmap_wf (bitmap_set b i v) = bitmap_wf b"
  by (simp add: bitmap_set_def bitmap_wf_def Let_def)

lemma mod_eq_of_sub7: "i mod 8 = j mod 8" if "7 - i mod 8 = 7 - j mod (8::nat)"
proof -
  have "i mod 8 < 8" and "j mod 8 < 8" by simp_all
  with that show ?thesis by linarith
qed

lemma eq_of_div_mod: "i div 8 = j div 8 \<Longrightarrow> i mod 8 = j mod 8 \<Longrightarrow> i = (j::nat)"
  by (metis div_mult_mod_eq)

lemma bitmap_set_used:
  assumes "bitmap_wf b" and "i < 8 * btmp_bytes_len b" and "j < 8 * btmp_bytes_len b"
  shows "bm_used (bits (bitmap_set b i v)) j \<longleftrightarrow> (if i = j then v \<noteq> 0 else bm_used (bits b) j)"
proof -
  have i: "i div 8 < btmp_bytes_len b" and j: "j div 8 < btmp_bytes_len b"
    using assms by (auto simp: less_mult_imp_div_less mult.commute)
  have mask: "bit (drop_bit (i mod 8) BITMAP_MASK) (7 - j mod 8) \<longleftrightarrow> i mod 8 = j mod 8"
    using mod_eq_of_sub7 [of i j] by (auto simp: bit_mask_iff)
  show ?thesis
  proof (cases "i div 8 = j div 8")
    case True
    then have "i = j \<longleftrightarrow> i mod 8 = j mod 8" using eq_of_div_mod [of i j] by blast
    with True i assms(1) show ?thesis
      by (simp add: bm_used_def bitmap_set_def bitmap_wf_def Let_def bit_or_iff bit_and_iff
          bit_not_iff mask bit_mask_iff) (auto dest: bit_imp_le_length)
  next
    case False
    with i show ?thesis by (auto simp: bm_used_def bitmap_set_def Let_def)
  qed
qed

lemma bitmap_init_free: "i < 8 * btmp_bytes_len b \<Longrightarrow> \<not> bm_used (bits (bitmap_init b)) i"
  by (simp add: bm_used_def bitmap_init_def less_mult_imp_div_less mult.commute)

subsection \<open>The word view\<close>

text \<open>Each of the three lines of \<^const>\<open>bitmap_word\<close> swaps neighbouring groups of \<open>k\<close> bits;
  \<open>swap_mask m k\<close> says that \<open>m\<close> selects the lower group of each pair.\<close>

definition swap_mask :: "u64 \<Rightarrow> nat \<Rightarrow> bool" where
  "swap_mask m k \<longleftrightarrow> 0 < k \<and> (\<forall>n < 64. bit m n \<longleftrightarrow> n mod (2 * k) < k)"

lemma mod_swap:
  assumes "0 < (k :: nat)" and "k \<le> n"
  shows "(n - k) mod (2 * k) < k \<longleftrightarrow> \<not> n mod (2 * k) < k"
proof -
  have "(n - k) mod (2 * k) = (n - k + 2 * k) mod (2 * k)" by (simp only: mod_add_self2)
  also have "n - k + 2 * k = n + k" using assms(2) by simp
  also have "(n + k) mod (2 * k) = (n mod (2 * k) + k) mod (2 * k)" by (rule mod_add_left_eq [symmetric])
  finally have eq: "(n - k) mod (2 * k) = (n mod (2 * k) + k) mod (2 * k)" .
  define r where "r = n mod (2 * k)"
  have r: "r < 2 * k" using assms(1) by (simp add: r_def)
  have "(r + k) mod (2 * k) < k \<longleftrightarrow> \<not> r < k"
  proof (cases "r < k")
    case True
    then have "(r + k) mod (2 * k) = r + k" by (intro mod_less) linarith
    with True show ?thesis by simp
  next
    case False
    then have "r + k = r - k + 2 * k" by linarith
    then have "(r + k) mod (2 * k) = (r - k) mod (2 * k)" by (simp only: mod_add_self2)
    also have "\<dots> = r - k" using r by (intro mod_less) linarith
    finally show ?thesis using False r by linarith
  qed
  then show ?thesis unfolding eq r_def .
qed

text \<open>The three masks repeat one byte, so eight bits of it decide them.\<close>

lemma swap_mask_rep:
  assumes "m = load_le (replicate 8 c)" and "2 * k dvd 8" and "\<forall>r \<in> set [0..<8]. bit c r \<longleftrightarrow> r mod (2 * k) < k"
  shows "swap_mask m k"
proof -
  have "bit m n \<longleftrightarrow> n mod (2 * k) < k" if "n < 64" for n
  proof -
    have "n div 8 < 8" and "n mod 8 < 8" using that by (simp_all add: less_mult_imp_div_less)
    then have "bit m n \<longleftrightarrow> bit c (n mod 8)" using that unfolding assms(1) bit_load_le by simp
    also have "\<dots> \<longleftrightarrow> n mod 8 mod (2 * k) < k" using assms(3) by simp
    finally show ?thesis using assms(2) by (simp add: mod_mod_cancel)
  qed
  moreover have "0 < k" using assms(2) by (cases k) auto
  ultimately show ?thesis by (simp add: swap_mask_def)
qed

lemma swap_masks:
  "swap_mask 0x5555555555555555 1" "swap_mask 0x3333333333333333 2" "swap_mask 0x0f0f0f0f0f0f0f0f 4"
  by (rule swap_mask_rep [where c = "0x55"], code_simp, simp, code_simp)
     (rule swap_mask_rep [where c = "0x33"], code_simp, simp, code_simp,
      rule swap_mask_rep [where c = "0x0f"], code_simp, simp, code_simp)

lemma bit_swap:
  assumes "swap_mask m k" and n: "n < 64"
  shows "bit (push_bit k (x AND m) OR (drop_bit k x AND m) :: u64) n
      \<longleftrightarrow> bit x (if n mod (2 * k) < k then n + k else n - k)"
proof -
  have k: "0 < k" and m: "bit m i \<longleftrightarrow> i mod (2 * k) < k" if "i < 64" for i
    using assms(1) that by (simp_all add: swap_mask_def)
  have mk: "bit m (n - k) \<longleftrightarrow> (n - k) mod (2 * k) < k" using n by (intro m) simp
  have le: "\<not> n mod (2 * k) < k \<Longrightarrow> k \<le> n" using mod_less_eq_dividend [of n "2 * k"] by linarith
  show ?thesis
    using n le mod_swap [OF k, of n]
    by (auto simp: bit_push_bit_iff bit_drop_bit_eq bit_or_iff bit_and_iff m mk add.commute)
qed

definition swap_ix :: "nat \<Rightarrow> nat \<Rightarrow> nat" where
  "swap_ix k n = (if n mod (2 * k) < k then n + k else n - k)"

lemma swap_ix_block: "2 * k dvd 8 \<Longrightarrow> swap_ix k (8 * q + r) = 8 * q + swap_ix k r"
proof -
  assume "2 * k dvd 8"
  then obtain c where "8 = 2 * k * c" ..
  then have "8 * q + r = r + 2 * k * (c * q)" by (simp only: mult.assoc add.commute)
  then have "(8 * q + r) mod (2 * k) = r mod (2 * k)" by (simp only: mod_mult_self2)
  moreover have "\<not> r mod (2 * k) < k \<Longrightarrow> k \<le> r" using mod_less_eq_dividend [of r "2 * k"] by linarith
  ultimately show ?thesis by (auto simp: swap_ix_def)
qed

lemma swap_ix_byte:
  "\<forall>r \<in> set [0..<8]. swap_ix 4 r < 8 \<and> swap_ix 2 (swap_ix 4 r) < 8 \<and> swap_ix 1 (swap_ix 2 (swap_ix 4 r)) = 7 - r"
  by code_simp

lemma bit_bitmap_word_load:
  assumes "n < 64"
  shows "bit (bitmap_word bs w) n \<longleftrightarrow>
    bit (load_le (take 8 (drop (8 * w) bs)) :: u64) (8 * (n div 8) + (7 - n mod 8))"
proof -
  define q r where "q = n div 8" and "r = n mod 8"
  have n: "n = 8 * q + r" and r: "r < 8" and q: "q < 8"
    using assms by (simp_all add: q_def r_def less_mult_imp_div_less)
  have s: "swap_ix 4 r < 8" "swap_ix 2 (swap_ix 4 r) < 8" "swap_ix 1 (swap_ix 2 (swap_ix 4 r)) = 7 - r"
    using swap_ix_byte r unfolding set_upt by simp_all
  have i4: "swap_ix 4 n = 8 * q + swap_ix 4 r" unfolding n by (rule swap_ix_block) simp
  have i2: "swap_ix 2 (swap_ix 4 n) = 8 * q + swap_ix 2 (swap_ix 4 r)" unfolding i4 by (rule swap_ix_block) simp
  have i1: "swap_ix 1 (swap_ix 2 (swap_ix 4 n)) = 8 * q + (7 - r)" unfolding i2 s(3) [symmetric]
    by (rule swap_ix_block) simp
  have b: "swap_ix 4 n < 64" "swap_ix 2 (swap_ix 4 n) < 64" using i4 i2 s(1,2) q by linarith+
  show ?thesis
    unfolding bitmap_word_def Let_def
    by (simp only: bit_swap [OF swap_masks(3) assms, folded swap_ix_def] bit_swap [OF swap_masks(2) b(1), folded swap_ix_def]
        bit_swap [OF swap_masks(1) b(2), folded swap_ix_def] i1 q_def r_def)
qed

lemma bit_bitmap_word:
  assumes "n < 64" and "8 * w + 8 \<le> length bs"
  shows "bit (bitmap_word bs w) n \<longleftrightarrow> bm_used bs (64 * w + n)"
proof -
  have d: "(64 * w + n) div 8 = 8 * w + n div 8" and m: "(64 * w + n) mod 8 = n mod 8"
    using div_mult_self2 [of 8 n "8 * w"] mod_mult_self2 [of n 8 "8 * w"] by (simp_all add: add.commute)
  have q: "n div 8 < 8" using assms(1) by (simp add: less_mult_imp_div_less)
  have r: "7 - n mod 8 < 8" by simp
  have b: "8 * (n div 8) + (7 - n mod 8) < 64" using q r by linarith
  have l64: "8 * (n div 8) + (7 - n mod 8) < LENGTH(64)" using b by simp
  have bd: "(8 * (n div 8) + (7 - n mod 8)) div 8 = n div 8"
    and bm: "(8 * (n div 8) + (7 - n mod 8)) mod 8 = 7 - n mod 8"
    using r by (simp_all only: div_mult_self4 mod_mult_self4 div_less mod_less)
  have l: "8 * (n div 8) + (7 - n mod 8) < 8 * length (take 8 (drop (8 * w) bs))"
    using b assms(2) by simp
  have nth: "take 8 (drop (8 * w) bs) ! (n div 8) = bs ! (8 * w + n div 8)"
    using q assms(2) by simp
  show ?thesis
    by (simp only: bit_bitmap_word_load [OF assms(1)] bit_load_le bd bm bm_used_def d m nth l l64)
       simp
qed

end
