(* ===== verification/Bitmap_Scan.thy ===== *)
theory Bitmap_Scan
  imports Bitmap
begin

text \<open>
  Correctness of \<open>bitmap_scan\<close>: every index it returns starts a free run of the requested
  length inside the map, and it finds every free run except those that end exactly on a 64-bit
  boundary, which the word loop drops without comparing them with the request.
\<close>

section \<open>Correctness of the scan\<close>

text \<open>\<open>all_free bs i j\<close>: the units \<open>i, ..., j - 1\<close> are free. \<open>pending bs p run\<close>: \<open>run\<close> is
  the length of the maximal free run that ends just before \<open>p\<close>, which is what the local
  variable of the same name holds. \<open>hit\<close> describes a returned index. \<open>no_run bs cnt p q\<close>: no
  free run of \<open>cnt\<close> units is closed by a used unit in \<open>[p, q)\<close>, apart from the runs that are
  closed exactly on a 64-bit boundary.\<close>

definition all_free :: "u8 list \<Rightarrow> nat \<Rightarrow> nat \<Rightarrow> bool" where
  "all_free bs i j \<longleftrightarrow> (\<forall>k. i \<le> k \<longrightarrow> k < j \<longrightarrow> \<not> bm_used bs k)"

definition pending :: "u8 list \<Rightarrow> nat \<Rightarrow> nat \<Rightarrow> bool" where
  "pending bs p run \<longleftrightarrow>
     run \<le> p \<and> all_free bs (p - run) p \<and> (run < p \<longrightarrow> bm_used bs (p - run - 1))"

definition hit :: "u8 list \<Rightarrow> nat \<Rightarrow> nat \<Rightarrow> nat \<Rightarrow> bool" where
  "hit bs cnt q i \<longleftrightarrow> i + cnt \<le> q \<and> all_free bs i (i + cnt)"

definition no_run :: "u8 list \<Rightarrow> nat \<Rightarrow> nat \<Rightarrow> nat \<Rightarrow> bool" where
  "no_run bs cnt p q \<longleftrightarrow>
     (\<forall>i e. i \<le> e \<longrightarrow> p \<le> e \<longrightarrow> e < q \<longrightarrow> e mod 64 \<noteq> 0 \<longrightarrow> bm_used bs e \<longrightarrow> all_free bs i e \<longrightarrow> e - i < cnt)"

lemmas scan_defs = all_free_def pending_def hit_def no_run_def

lemma all_free_mono: "all_free bs i j \<Longrightarrow> i \<le> i' \<Longrightarrow> j' \<le> j \<Longrightarrow> all_free bs i' j'"
  unfolding all_free_def by simp

lemma all_free_split: "all_free bs i j \<Longrightarrow> all_free bs j k \<Longrightarrow> all_free bs i k"
  unfolding all_free_def by (meson not_le)

lemma pending_extend:
  assumes "pending bs p run" and "all_free bs p q" and "p \<le> q"
  shows "pending bs q (run + (q - p))"
proof -
  have "q - (run + (q - p)) = p - run" using assms(3) by simp
  with assms show ?thesis
    unfolding pending_def by (auto intro: all_free_split)
qed

lemma pending_0: "0 < p \<Longrightarrow> bm_used bs (p - 1) \<Longrightarrow> pending bs p 0"
  by (simp add: scan_defs)

lemma pending_hit:
  assumes "pending bs p run" and "all_free bs p q" and "p \<le> q" and "cnt \<le> run + (q - p)"
  shows "hit bs cnt q (p - run)"
proof -
  have "all_free bs (p - run) q"
    using assms(1,2) unfolding pending_def by (blast intro: all_free_split)
  moreover have "p - run + cnt \<le> q" using assms unfolding pending_def by linarith
  ultimately show ?thesis unfolding hit_def by (blast intro: all_free_mono)
qed

lemma pending_max: "pending bs p run \<Longrightarrow> all_free bs i p \<Longrightarrow> p - i \<le> run"
  unfolding pending_def all_free_def by (rule ccontr) force

lemma no_run_join: "no_run bs cnt p q \<Longrightarrow> no_run bs cnt q r \<Longrightarrow> no_run bs cnt p r"
  unfolding no_run_def by (meson not_le)

lemma no_run_free: "all_free bs p q \<Longrightarrow> no_run bs cnt p q"
  unfolding no_run_def all_free_def by blast

lemma no_run_used:
  assumes "\<And>e. p \<le> e \<Longrightarrow> e < q \<Longrightarrow> e mod 64 \<noteq> 0 \<Longrightarrow> bm_used bs (e - 1)" and "0 < cnt"
  shows "no_run bs cnt p q"
  unfolding no_run_def
proof (intro allI impI)
  fix i e assume e: "i \<le> e" "p \<le> e" "e < q" "e mod 64 \<noteq> 0" and "all_free bs i e"
  moreover from e assms(1) have "bm_used bs (e - 1)" by blast
  ultimately have "\<not> i \<le> e - 1 \<or> \<not> e - 1 < e" unfolding all_free_def by blast
  with e have "i = e" by (cases e) auto
  with assms(2) show "e - i < cnt" by simp
qed

lemma no_run_close:
  assumes "pending bs p run" and "all_free bs p e" and "run + (e - p) < cnt" and "p \<le> e"
  shows "no_run bs cnt p (Suc e)"
  unfolding no_run_def
proof (intro allI impI)
  fix i e' assume e': "i \<le> e'" "p \<le> e'" "e' < Suc e" "bm_used bs e'" and f: "all_free bs i e'"
  have "e' = e" using e' assms(2) unfolding all_free_def by (metis less_Suc_eq)
  with f pending_max [OF pending_extend [OF assms(1,2,4)]] assms(3) show "e' - i < cnt" by fastforce
qed

subsection \<open>The loop over the runs of a word\<close>

text \<open>\<open>word_of bs base v\<close>: the word \<open>v\<close> shows the 64 units from \<open>base\<close> on.\<close>

definition word_of :: "u8 list \<Rightarrow> nat \<Rightarrow> u64 \<Rightarrow> bool" where
  "word_of bs base v \<longleftrightarrow> (\<forall>n < 64. bit v n \<longleftrightarrow> bm_used bs (base + n))"

lemma word_of_free:
  assumes "word_of bs base v" and "p + k \<le> 64" and "\<And>i. i < k \<Longrightarrow> \<not> bit (drop_bit p v) i"
  shows "all_free bs (base + p) (base + (p + k))"
  unfolding all_free_def
proof (intro allI impI)
  fix j assume j: "base + p \<le> j" "j < base + (p + k)"
  then obtain i where i: "j = base + (p + i)" "i < k" by (metis add.assoc le_Suc_ex nat_add_left_cancel_less)
  with assms(3) have "\<not> bit v (p + i)" by (simp add: bit_drop_bit_eq)
  with assms(1,2) i show "\<not> bm_used bs j" unfolding word_of_def by (simp add: add.assoc)
qed

definition all_used :: "u8 list \<Rightarrow> nat \<Rightarrow> nat \<Rightarrow> bool" where
  "all_used bs i j \<longleftrightarrow> (\<forall>k. i \<le> k \<longrightarrow> k < j \<longrightarrow> bm_used bs k)"

lemma all_used_pending: "all_used bs p q \<Longrightarrow> p < q \<Longrightarrow> pending bs q 0"
  by (rule pending_0) (auto simp: all_used_def)

lemma all_used_no_run: "all_used bs p q \<Longrightarrow> 0 < cnt \<Longrightarrow> no_run bs cnt (Suc p) q"
  by (rule no_run_used) (auto simp: all_used_def)

lemma word_of_used:
  assumes "word_of bs base v" and "p + k \<le> 64" and "\<And>i. i < k \<Longrightarrow> bit (drop_bit p v) i"
  shows "all_used bs (base + p) (base + (p + k))"
  unfolding all_used_def
proof (intro allI impI)
  fix j assume j: "base + p \<le> j" "j < base + (p + k)"
  then obtain i where i: "j = base + (p + i)" "i < k" by (metis add.assoc le_Suc_ex nat_add_left_cancel_less)
  with assms(3) have "bit v (p + i)" by (simp add: bit_drop_bit_eq)
  with assms(1,2) i show "bm_used bs j" unfolding word_of_def by (simp add: add.assoc)
qed

lemma word_ones_len:
  assumes "0 < p" and "p < 64"
  shows "p + ctz (NOT (drop_bit p (v :: u64))) \<le> 64"
proof -
  have "bit (NOT (drop_bit p v)) (64 - p)"
    using assms by (simp add: bit_not_iff bit_drop_bit_eq) (auto dest: bit_imp_le_length)
  then have "ctz (NOT (drop_bit p v)) \<le> 64 - p" by (rule ctz_le_bit)
  with assms show ?thesis by simp
qed

lemma below_ctz_not: "i < ctz (NOT (w :: u64)) \<Longrightarrow> bit w i"
  using not_bit_below_ctz [of i "NOT w"] ctz_le [of "NOT w"] by (simp add: bit_not_iff)

lemma word_runs_spec:
  assumes "word_of bs base v" and "pending bs (base + pos) run" and "pos \<le> 64" and "0 < cnt"
  shows "case bitmap_word_runs v base cnt pos run of
           Inl i \<Rightarrow> hit bs cnt (base + 64) i
         | Inr r \<Rightarrow> pending bs (base + 64) r \<and> no_run bs cnt (base + pos) (base + 64)"
  using assms
proof (induction v base cnt pos run rule: bitmap_word_runs.induct)
  case (1 v base cnt pos run)
  define rest tz w where "rest = drop_bit pos v" and "tz = ctz rest" and "w = drop_bit tz rest"
  define p q where "p = pos + tz" and "q = p + ctz (NOT w)"
  note defs = rest_def tz_def w_def p_def q_def
  have w: "w = drop_bit p v" by (simp add: rest_def w_def p_def add.commute)
  have unf: "bitmap_word_runs v base cnt pos run =
     (if pos < 64 then if rest = 0 then Inr (run + (64 - pos))
        else if cnt \<le> run + tz then Inl (base + pos - run)
        else if w = - 1 then Inr 0 else bitmap_word_runs v base cnt q 0
      else Inr run)"
    by (simp only: bitmap_word_runs.simps [of v base cnt pos run] defs Let_def)
  have IH: "\<lbrakk>pos < 64; rest \<noteq> 0; run + tz < cnt; w \<noteq> - 1; pending bs (base + q) 0; q \<le> 64\<rbrakk> \<Longrightarrow>
     case bitmap_word_runs v base cnt q 0 of Inl i \<Rightarrow> hit bs cnt (base + 64) i
     | Inr r \<Rightarrow> pending bs (base + 64) r \<and> no_run bs cnt (base + q) (base + 64)"
    unfolding defs using "1.IH" [OF _ refl _ refl _ refl refl] "1.prems" by (auto simp only: not_le)
  have tz: "p < 64" "bit rest tz" "all_free bs (base + pos) (base + p)" if "rest \<noteq> 0"
  proof -
    show b: "bit rest tz" unfolding tz_def using that by (rule bit_ctz)
    then show p: "p < 64" unfolding rest_def p_def bit_drop_bit_eq by (auto dest: bit_imp_le_length)
    show "all_free bs (base + pos) (base + p)"
      unfolding p_def by (rule word_of_free [OF "1.prems"(1)])
        (use p in \<open>auto simp: p_def tz_def rest_def dest: not_bit_below_ctz\<close>)
  qed
  consider (full) "pos = 64" | (zero) "pos < 64" "rest = 0"
    | (found) "pos < 64" "rest \<noteq> 0" "cnt \<le> run + tz"
    | (short) "pos < 64" "rest \<noteq> 0" "run + tz < cnt"
    using "1.prems"(3) by fastforce
  then show ?case
  proof cases
    case full
    with "1.prems" show ?thesis unfolding unf by (simp add: no_run_def)
  next
    case zero
    then have "all_free bs (base + pos) (base + 64)"
      using word_of_free [OF "1.prems"(1), of pos "64 - pos"] by (simp add: rest_def)
    with zero "1.prems"(2) pending_extend [of bs "base + pos" run "base + 64"] show ?thesis
      by (simp add: unf no_run_free)
  next
    case found
    have "hit bs cnt (base + p) (base + pos - run)"
      by (rule pending_hit [OF "1.prems"(2) tz(3) [OF found(2)]]) (use found in \<open>simp_all add: p_def\<close>)
    with tz(1) found show ?thesis by (simp add: unf hit_def)
  next
    case short
    have n1: "no_run bs cnt (base + pos) (Suc (base + p))"
      by (rule no_run_close [OF "1.prems"(2) tz(3) [OF short(2)]]) (use short in \<open>simp_all add: p_def\<close>)
    have seg: "pending bs (base + e) 0" "no_run bs cnt (base + pos) (base + e)"
      if "all_used bs (base + p) (base + e)" "p < e" for e
      using that n1 all_used_pending all_used_no_run [OF _ "1.prems"(4)]
      by (auto intro: no_run_join)
    show ?thesis
    proof (cases "w = - 1")
      case True
      have "all_used bs (base + p) (base + (p + (64 - p)))"
        by (rule word_of_used [OF "1.prems"(1)])
          (use True tz(1) short in \<open>simp_all flip: w\<close>)
      with True short seg [of 64] tz(1) show ?thesis by (simp add: unf)
    next
      case False
      have "0 < ctz (NOT w)"
        using run_progress [of rest] short(2) False unfolding w_def tz_def by blast
      moreover have "p + ctz (NOT w) \<le> 64"
        using word_ones_len [of p v] tz(1) [OF short(2)] ctz_le [of "NOT w"]
        by (cases "p = 0") (simp_all add: w)
      ultimately have q: "p < q" "q \<le> 64" by (simp_all add: q_def)
      have "all_used bs (base + p) (base + q)"
        unfolding q_def
        by (rule word_of_used [OF "1.prems"(1)])
          (use q(2) below_ctz_not in \<open>auto simp: q_def simp flip: w\<close>)
      from seg [OF this q(1)] IH short False q(2) show ?thesis
        by (auto simp: unf split: sum.splits intro: no_run_join)
    qed
  qed
qed

subsection \<open>The loop over the words\<close>

lemma word_of_bitmap_word: "8 * w + 8 \<le> length bs \<Longrightarrow> word_of bs (64 * w) (bitmap_word bs w)"
  by (simp add: word_of_def bit_bitmap_word)

lemma hit_mono: "hit bs cnt q i \<Longrightarrow> q \<le> q' \<Longrightarrow> hit bs cnt q' i"
  by (simp add: hit_def)

lemma aligned_no_run:
  assumes "all_used bs (64 * w) (64 * w + 64)" and "0 < cnt"
  shows "no_run bs cnt (64 * w) (64 * w + 64)"
proof (rule no_run_used [OF _ assms(2)])
  fix e assume e: "64 * w \<le> e" "e < 64 * w + 64" "e mod 64 \<noteq> 0"
  then have "64 * w \<noteq> e" by auto
  with e have "64 * w \<le> e - 1" and "e - 1 < 64 * w + 64" by linarith+
  with assms(1) show "bm_used bs (e - 1)" by (simp add: all_used_def)
qed

lemma scan_words_spec:
  assumes "8 * nwords \<le> length bs" and "pending bs (64 * w) run" and "w \<le> nwords" and "0 < cnt"
  shows "case bitmap_scan_words bs nwords cnt w run of
           Inl i \<Rightarrow> hit bs cnt (64 * nwords) i
         | Inr r \<Rightarrow> pending bs (64 * nwords) r \<and> no_run bs cnt (64 * w) (64 * nwords)"
  using assms
proof (induction bs nwords cnt w run rule: bitmap_scan_words.induct)
  case (1 bs nwords cnt w run)
  let ?v = "bitmap_word bs w"
  note unf = bitmap_scan_words.simps [of bs nwords cnt w run]
  show ?case
  proof (cases "w < nwords")
    case False
    with "1.prems" show ?thesis unfolding unf by (simp add: no_run_def)
  next
    case w: True
    with "1.prems"(1) have wo: "word_of bs (64 * w) ?v" by (intro word_of_bitmap_word) simp
    have le: "64 * w + 64 \<le> 64 * nwords" using w by simp
    have cont: "?thesis" if "pending bs (64 * w + 64) r" "no_run bs cnt (64 * w) (64 * w + 64)"
      and "bitmap_scan_words bs nwords cnt w run = bitmap_scan_words bs nwords cnt (w + 1) r"
      and "pending bs (64 * (w + 1)) r \<Longrightarrow> case bitmap_scan_words bs nwords cnt (w + 1) r of
           Inl i \<Rightarrow> hit bs cnt (64 * nwords) i
         | Inr r \<Rightarrow> pending bs (64 * nwords) r \<and> no_run bs cnt (64 * (w + 1)) (64 * nwords)" for r
      using that by (auto simp: algebra_simps split: sum.splits intro: no_run_join)
    consider (zero) "?v = 0" | (ones) "?v = - 1" | (mixed) "?v \<noteq> 0" "?v \<noteq> - 1" by blast
    then show ?thesis
    proof cases
      case zero
      have f: "all_free bs (64 * w) (64 * w + 64)"
        using word_of_free [OF wo, of 0 64] zero by simp
      show ?thesis
      proof (cases "cnt \<le> run + 64")
        case True
        have "hit bs cnt (64 * w + 64) (64 * w - run)"
          by (rule pending_hit [OF "1.prems"(2) f]) (use True in simp_all)
        with True w zero le show ?thesis by (simp add: unf hit_mono)
      next
        case False
        show ?thesis
          by (rule cont [of "run + 64"])
            (use False w zero f pending_extend [OF "1.prems"(2) f] "1.IH"(1) [OF w refl zero refl] "1.prems"
              in \<open>simp_all add: unf no_run_free\<close>)
      qed
    next
      case ones
      have u: "all_used bs (64 * w) (64 * w + 64)"
        using word_of_used [OF wo, of 0 64] ones by simp
      show ?thesis
        by (rule cont [of 0])
          (use w ones all_used_pending [OF u] aligned_no_run [OF u] "1.IH"(2) [OF w refl] "1.prems"
            in \<open>simp_all add: unf\<close>)
    next
      case mixed
      have "case bitmap_word_runs ?v (64 * w) cnt 0 run of Inl i \<Rightarrow> hit bs cnt (64 * w + 64) i
         | Inr r \<Rightarrow> pending bs (64 * w + 64) r \<and> no_run bs cnt (64 * w + 0) (64 * w + 64)"
        by (rule word_runs_spec [OF wo]) (use "1.prems" in simp_all)
      moreover note "1.IH"(3) [OF w refl mixed]
      ultimately show ?thesis
        using w mixed "1.prems" le cont
        by (cases "bitmap_word_runs ?v (64 * w) cnt 0 run") (simp_all add: unf hit_mono)
    qed
  qed
qed

subsection \<open>The loop over the remaining bytes\<close>

text \<open>\<open>short_run cnt q0 p run\<close>: past the first unit \<open>q0\<close> of the byte part the pending run is
  shorter than the request.\<close>

definition short_run :: "nat \<Rightarrow> nat \<Rightarrow> nat \<Rightarrow> nat \<Rightarrow> bool" where
  "short_run cnt q0 p run \<longleftrightarrow> q0 \<le> p \<and> (q0 < p \<longrightarrow> run < cnt)"

lemma and_0x80: "b AND 0x80 \<noteq> 0 \<longleftrightarrow> bit (b :: u8) 7"
  using and_mask_zero_iff [of 0 b] by (simp add: BITMAP_MASK_def)

lemma no_run_step:
  assumes "pending bs p run" and "short_run cnt q0 p run" and "q0 mod 64 = 0" and "0 < cnt"
  shows "no_run bs cnt p (Suc p)"
proof (cases "p = q0")
  case True
  with assms(3) show ?thesis unfolding no_run_def by (metis le_less_Suc_eq)
next
  case False
  with assms(2) have "run < cnt" by (simp add: short_run_def)
  then show ?thesis by (intro no_run_close [OF assms(1)]) (simp_all add: all_free_def)
qed

lemma scan_byte_spec:
  assumes "j \<le> 8" and "pending bs (8 * byte + j) run" and "short_run cnt q0 (8 * byte + j) run"
    and "q0 mod 64 = 0" and "0 < cnt"
  shows "case bitmap_scan_byte (push_bit j (bs ! byte)) byte cnt j run of
           Inl i \<Rightarrow> hit bs cnt (8 * byte + 8) i
         | Inr r \<Rightarrow> pending bs (8 * byte + 8) r \<and> short_run cnt q0 (8 * byte + 8) r \<and>
             no_run bs cnt (8 * byte + j) (8 * byte + 8)"
  using assms
proof (induction "8 - j" arbitrary: j run)
  case 0
  then show ?case by (simp add: bitmap_scan_byte.simps no_run_def)
next
  case (Suc k)
  let ?p = "8 * byte + j"
  have j: "j < 8" using Suc.hyps(2) by simp
  have used: "push_bit j (bs ! byte) AND 0x80 \<noteq> 0 \<longleftrightarrow> bm_used bs ?p"
    unfolding and_0x80 using j by (simp add: bit_push_bit_iff bm_used_def)
  have n1: "no_run bs cnt ?p (Suc ?p)" by (rule no_run_step) (use Suc.prems in auto)
  have IH: "case bitmap_scan_byte (push_bit (Suc j) (bs ! byte)) byte cnt (Suc j) r of
           Inl i \<Rightarrow> hit bs cnt (8 * byte + 8) i
         | Inr r \<Rightarrow> pending bs (8 * byte + 8) r \<and> short_run cnt q0 (8 * byte + 8) r \<and>
             no_run bs cnt ?p (8 * byte + 8)" if "pending bs (Suc ?p) r" "r < cnt" for r
    using Suc.hyps(1) [of "Suc j" r] Suc.hyps(2) Suc.prems that n1 j
    by (auto simp: short_run_def split: sum.splits intro: no_run_join)
  note unf = bitmap_scan_byte.simps [of "push_bit j (bs ! byte)" byte cnt j run]
  have sh: "push_bit (Suc 0) (push_bit j (bs ! byte)) = push_bit (Suc j) (bs ! byte)"
    by (simp add: push_bit_push_bit)
  show ?case
  proof (cases "bm_used bs ?p")
    case True
    then have "pending bs (Suc ?p) 0" by (intro pending_0) simp_all
    with IH True used j Suc.prems(5) show ?thesis by (simp add: unf sh)
  next
    case False
    then have f: "all_free bs ?p (Suc ?p)" unfolding all_free_def by (metis le_less_Suc_eq)
    have pend: "pending bs (Suc ?p) (run + 1)"
      using pending_extend [OF Suc.prems(2) f] by simp
    show ?thesis
    proof (cases "cnt \<le> run + 1")
      case True
      have "hit bs cnt (Suc ?p) (Suc ?p - cnt)"
        using pend True unfolding hit_def pending_def
        by (auto intro: all_free_mono)
      with True False used j show ?thesis by (simp add: unf) (erule hit_mono, simp)
    next
      case F: False
      with IH [OF pend] False used j show ?thesis by (simp add: unf sh)
    qed
  qed
qed

lemma scan_bytes_spec:
  assumes "byte \<le> len" and "pending bs (8 * byte) run" and "short_run cnt q0 (8 * byte) run"
    and "q0 mod 64 = 0" and "0 < cnt"
  shows "case bitmap_scan_bytes bs len cnt byte run of
           Inl i \<Rightarrow> hit bs cnt (8 * len) i
         | Inr r \<Rightarrow> pending bs (8 * len) r \<and> short_run cnt q0 (8 * len) r \<and>
             no_run bs cnt (8 * byte) (8 * len)"
  using assms
proof (induction bs len cnt byte run rule: bitmap_scan_bytes.induct)
  case (1 bs len cnt byte run)
  note unf = bitmap_scan_bytes.simps [of bs len cnt byte run]
  show ?case
  proof (cases "byte < len")
    case False
    with "1.prems" show ?thesis unfolding unf by (simp add: no_run_def)
  next
    case True
    have b: "case bitmap_scan_byte (bs ! byte) byte cnt 0 run of
           Inl i \<Rightarrow> hit bs cnt (8 * byte + 8) i
         | Inr r \<Rightarrow> pending bs (8 * byte + 8) r \<and> short_run cnt q0 (8 * byte + 8) r \<and>
             no_run bs cnt (8 * byte) (8 * byte + 8)"
      using scan_byte_spec [of 0 bs byte run cnt q0] "1.prems" by (simp split: sum.splits)
    show ?thesis
    proof (cases "bitmap_scan_byte (bs ! byte) byte cnt 0 run")
      case (Inl i)
      with b True show ?thesis by (simp add: unf) (erule hit_mono, simp)
    next
      case (Inr r)
      have "case bitmap_scan_bytes bs len cnt (byte + 1) r of
           Inl i \<Rightarrow> hit bs cnt (8 * len) i
         | Inr r \<Rightarrow> pending bs (8 * len) r \<and> short_run cnt q0 (8 * len) r \<and>
             no_run bs cnt (8 * (byte + 1)) (8 * len)"
        using "1.IH" [OF True Inr] b Inr True "1.prems" by (simp add: algebra_simps)
      with b Inr True show ?thesis
        by (auto simp: unf algebra_simps split: sum.splits intro: no_run_join)
    qed
  qed
qed

section \<open>The scan\<close>

lemma bitmap_scan_cases:
  assumes "bitmap_wf b" and "0 < cnt" and "0 < btmp_bytes_len b"
  obtains i where "bitmap_scan b cnt = int i" and "hit (bits b) cnt (8 * btmp_bytes_len b) i"
  | r where "bitmap_scan b cnt = -1" and "pending (bits b) (8 * btmp_bytes_len b) r"
      and "short_run cnt (64 * (btmp_bytes_len b div 8)) (8 * btmp_bytes_len b) r"
      and "no_run (bits b) cnt 0 (8 * btmp_bytes_len b)"
proof -
  let ?n = "btmp_bytes_len b div 8"
  have w: "case bitmap_scan_words (bits b) ?n cnt 0 0 of
           Inl i \<Rightarrow> hit (bits b) cnt (64 * ?n) i
         | Inr r \<Rightarrow> pending (bits b) (64 * ?n) r \<and> no_run (bits b) cnt (64 * 0) (64 * ?n)"
    by (rule scan_words_spec)
      (use assms in \<open>auto simp: bitmap_wf_def pending_def all_free_def\<close>)
  show thesis
  proof (cases "bitmap_scan_words (bits b) ?n cnt 0 0")
    case (Inl i)
    with w assms show thesis
      by (intro that(1) [of i]) (auto simp: bitmap_scan_def intro: hit_mono)
  next
    case (Inr r)
    have s: "case bitmap_scan_bytes (bits b) (btmp_bytes_len b) cnt (8 * ?n) r of
           Inl i \<Rightarrow> hit (bits b) cnt (8 * btmp_bytes_len b) i
         | Inr r \<Rightarrow> pending (bits b) (8 * btmp_bytes_len b) r \<and>
             short_run cnt (64 * ?n) (8 * btmp_bytes_len b) r \<and>
             no_run (bits b) cnt (8 * (8 * ?n)) (8 * btmp_bytes_len b)"
      by (rule scan_bytes_spec) (use w Inr assms in \<open>auto simp: short_run_def\<close>)
    show thesis
    proof (cases "bitmap_scan_bytes (bits b) (btmp_bytes_len b) cnt (8 * ?n) r")
      case (Inl i)
      with s Inr assms show thesis by (intro that(1) [of i]) (auto simp: bitmap_scan_def)
    next
      case r: (Inr r')
      with s w Inr assms show thesis
        by (intro that(2) [of r']) (auto simp: bitmap_scan_def intro: no_run_join)
    qed
  qed
qed

text \<open>
  C23. An index that \<open>bitmap_scan\<close> returns starts a run of \<open>cnt\<close> free units that lies inside
  the map, so marking the run used never touches a unit that is in use.
\<close>

theorem bitmap_scan_sound:
  assumes "bitmap_wf b" and "bitmap_scan b cnt = int i"
  shows "0 < cnt \<and> i + cnt \<le> 8 * btmp_bytes_len b \<and> (\<forall>k. i \<le> k \<and> k < i + cnt \<longrightarrow> bitmap_scan_test b k = 0)"
proof -
  have pos: "0 < cnt" "0 < btmp_bytes_len b"
    using assms(2) by (auto simp: bitmap_scan_def split: if_splits)
  have "hit (bits b) cnt (8 * btmp_bytes_len b) i"
    by (rule bitmap_scan_cases [OF assms(1) pos]) (use assms(2) in simp_all)
  with pos show ?thesis by (auto simp: hit_def all_free_def bitmap_scan_test_in)
qed

theorem bitmap_scan_sound_witness:
  "bitmap_scan \<lparr>btmp_bytes_len = 2, bits = [0xF0, 0x3F]\<rparr> 5 = int 4 \<and>
   bitmap_scan_test \<lparr>btmp_bytes_len = 2, bits = [0xF0, 0x3F]\<rparr> 8 = 0"
proof -
  let ?b = "\<lparr>btmp_bytes_len = 2, bits = [0xF0, 0x3F]\<rparr>"
  have w: "bitmap_wf ?b" by (simp add: bitmap_wf_def)
  have s: "bitmap_scan ?b 5 = int 4" by code_simp
  from bitmap_scan_sound [OF w s] have "bitmap_scan_test ?b 8 = 0" by simp
  with s show ?thesis by blast
qed

text \<open>
  C30. The scan misses nothing but runs that stop at a 64-bit boundary: when a free run of at least
  \<open>cnt\<close> units is closed by a used unit, or by the end of the map, at a position that is not a
  multiple of 64, the scan succeeds.
\<close>

theorem bitmap_scan_complete:
  assumes "bitmap_wf b" and "0 < cnt" and "cnt \<le> n" and "i + n \<le> 8 * btmp_bytes_len b"
    and "\<forall>k. i \<le> k \<and> k < i + n \<longrightarrow> bitmap_scan_test b k = 0"
    and "i + n = 8 * btmp_bytes_len b \<or> bitmap_scan_test b (i + n) = 1"
    and "(i + n) mod 64 \<noteq> 0"
  shows "0 \<le> bitmap_scan b cnt"
proof -
  let ?L = "8 * btmp_bytes_len b"
  have len: "0 < btmp_bytes_len b" using assms(2-4) by simp
  have f: "all_free (bits b) i (i + n)"
    using assms(4,5) by (auto simp: all_free_def bitmap_scan_test_in split: if_splits)
  show ?thesis
  proof (rule bitmap_scan_cases [OF assms(1,2) len])
    fix r assume p: "pending (bits b) ?L r" and s: "short_run cnt (64 * (btmp_bytes_len b div 8)) ?L r"
      and nr: "no_run (bits b) cnt 0 ?L"
    show ?thesis
    proof (cases "i + n = ?L")
      case True
      have "64 * (btmp_bytes_len b div 8) \<noteq> ?L"
      proof
        assume "64 * (btmp_bytes_len b div 8) = ?L"
        with True have "i + n = 64 * (btmp_bytes_len b div 8)" by simp
        with assms(7) show False by simp
      qed
      with s have "r < cnt" unfolding short_run_def by linarith
      with pending_max [OF p, of i] f True assms(3) show ?thesis by simp
    next
      case False
      with assms(4,6) have "i + n < ?L" and "bm_used (bits b) (i + n)"
        by (auto simp: bitmap_scan_test_in split: if_splits)
      then have "i + n - i < cnt"
        using nr [unfolded no_run_def, rule_format, of i "i + n"] f assms(7) by simp
      with assms(3) show ?thesis by simp
    qed
  qed simp
qed

theorem bitmap_scan_complete_witness:
  "0 \<le> bitmap_scan \<lparr>btmp_bytes_len = 2, bits = [0xF0, 0x3F]\<rparr> 5"
proof (rule bitmap_scan_complete [where i = 4 and n = 6])
  let ?b = "\<lparr>btmp_bytes_len = 2, bits = [0xF0, 0x3F]\<rparr>"
  have "\<forall>k \<in> set [4..<10]. bitmap_scan_test ?b k = 0" by code_simp
  then show "\<forall>k. 4 \<le> k \<and> k < 4 + 6 \<longrightarrow> bitmap_scan_test ?b k = 0" unfolding set_upt by simp
  have "bitmap_scan_test ?b 10 = 1" by code_simp
  then show "4 + 6 = 8 * btmp_bytes_len ?b \<or> bitmap_scan_test ?b (4 + 6) = 1" by simp
qed (simp_all add: bitmap_wf_def)


end
