(* ===== verification/Str.thy ===== *)
theory Str
  imports CZ_Prelude
begin

text \<open>
  The string and memory routines of \<open>lib/str/str.c\<close> over a flat byte memory. An address is a
  natural number (the routines never wrap an address around), a pointer comparison is the
  comparison of addresses, and an aligned 64-bit access is a little-endian access to eight bytes.
  Loops that run to a terminating NUL are partial functions: they return \<open>None\<close> when no NUL
  follows, and the lemmas show the value they return on every C string.
\<close>

type_synonym mem = "nat \<Rightarrow> u8"

section \<open>Model\<close>

definition load64 :: "mem \<Rightarrow> nat \<Rightarrow> u64" where
  "load64 m a = load_le (map (\<lambda>i. m (a + i)) [0..<8])"

definition store64 :: "mem \<Rightarrow> nat \<Rightarrow> u64 \<Rightarrow> mem" where
  "store64 m a w = (\<lambda>x. if a \<le> x \<and> x < a + 8 then ucast (drop_bit (8 * (x - a)) w) else m x)"

subsection \<open>Strings\<close>

partial_function (option) str_end :: "mem \<Rightarrow> nat \<Rightarrow> nat option" where
  "str_end m p = (if m p \<noteq> 0 then str_end m (p + 1) else Some p)"

definition strlen :: "mem \<Rightarrow> nat \<Rightarrow> nat option" where
  "strlen m s = (case str_end m s of None \<Rightarrow> None | Some p \<Rightarrow> Some (p - s))"

partial_function (option) strcpy_loop :: "mem \<Rightarrow> nat \<Rightarrow> nat \<Rightarrow> mem option" where
  "strcpy_loop m d s =
     (let c = m s; m = m(d := c) in
      if c \<noteq> 0 then strcpy_loop m (d + 1) (s + 1) else Some m)"

definition strcpy :: "mem \<Rightarrow> nat \<Rightarrow> nat \<Rightarrow> (mem \<times> nat) option" where
  "strcpy m dst src = (case strcpy_loop m dst src of None \<Rightarrow> None | Some m \<Rightarrow> Some (m, dst))"

function strncpy_copy :: "mem \<Rightarrow> nat \<Rightarrow> nat \<Rightarrow> nat \<Rightarrow> nat \<Rightarrow> mem \<times> nat" where
  "strncpy_copy m dst src n i =
     (if i < n \<and> m (src + i) \<noteq> 0 then strncpy_copy (m(dst + i := m (src + i))) dst src n (i + 1)
      else (m, i))"
  by pat_completeness auto
termination by (relation "measure (\<lambda>(m, dst, src, n, i). n - i)") auto

function strncpy_pad :: "mem \<Rightarrow> nat \<Rightarrow> nat \<Rightarrow> nat \<Rightarrow> mem" where
  "strncpy_pad m dst n i =
     (if i < n then strncpy_pad (m(dst + i := 0)) dst n (i + 1) else m)"
  by pat_completeness auto
termination by (relation "measure (\<lambda>(m, dst, n, i). n - i)") auto

definition strncpy :: "mem \<Rightarrow> nat \<Rightarrow> nat \<Rightarrow> nat \<Rightarrow> mem \<times> nat" where
  "strncpy m dst src n = (let (m, i) = strncpy_copy m dst src n 0 in (strncpy_pad m dst n i, dst))"

partial_function (option) strcmp :: "mem \<Rightarrow> nat \<Rightarrow> nat \<Rightarrow> int option" where
  "strcmp m a b =
     (if m a \<noteq> 0 \<and> m a = m b then strcmp m (a + 1) (b + 1)
      else Some (uint (m a) - uint (m b)))"

function strncmp_loop :: "mem \<Rightarrow> nat \<Rightarrow> nat \<Rightarrow> nat \<Rightarrow> nat \<Rightarrow> nat" where
  "strncmp_loop m a b n i =
     (if i < n \<and> m (a + i) \<noteq> 0 \<and> m (a + i) = m (b + i) then strncmp_loop m a b n (i + 1) else i)"
  by pat_completeness auto
termination by (relation "measure (\<lambda>(m, a, b, n, i). n - i)") auto

definition strncmp :: "mem \<Rightarrow> nat \<Rightarrow> nat \<Rightarrow> nat \<Rightarrow> int" where
  "strncmp m a b n =
     (let i = strncmp_loop m a b n 0 in
      if i = n then 0 else uint (m (a + i)) - uint (m (b + i)))"

definition strcat :: "mem \<Rightarrow> nat \<Rightarrow> nat \<Rightarrow> (mem \<times> nat) option" where
  "strcat m dst src =
     (case str_end m dst of None \<Rightarrow> None
      | Some d \<Rightarrow> (case strcpy_loop m d src of None \<Rightarrow> None | Some m \<Rightarrow> Some (m, dst)))"

text \<open>The result of \<open>strchr\<close> and \<open>strrchr\<close> is a pointer: inside the outer \<open>Some\<close>, \<open>None\<close> is
  the null pointer.\<close>

partial_function (option) strchr_loop :: "mem \<Rightarrow> nat \<Rightarrow> u8 \<Rightarrow> nat option option" where
  "strchr_loop m s ch =
     (if m s \<noteq> 0 then (if m s = ch then Some (Some s) else strchr_loop m (s + 1) ch)
      else Some (if ch = 0 then Some s else None))"

definition strchr :: "mem \<Rightarrow> nat \<Rightarrow> u32 \<Rightarrow> nat option option" where
  "strchr m s c = strchr_loop m s (ucast c)"

partial_function (option) strrchr_loop :: "mem \<Rightarrow> nat \<Rightarrow> u8 \<Rightarrow> nat option \<Rightarrow> nat option option" where
  "strrchr_loop m s ch lst =
     (if m s \<noteq> 0 then strrchr_loop m (s + 1) ch (if m s = ch then Some s else lst)
      else Some (if ch = 0 then Some s else lst))"

definition strrchr :: "mem \<Rightarrow> nat \<Rightarrow> u32 \<Rightarrow> nat option option" where
  "strrchr m s c = strrchr_loop m s (ucast c) None"

subsection \<open>Decimal printing\<close>

function u32_dec_loop :: "u32 \<Rightarrow> u8 list \<Rightarrow> u8 list" where
  "u32_dec_loop v tmp =
     (let tmp = tmp @ [48 + ucast (v mod 10)]; v = v div 10 in
      if v \<noteq> 0 then u32_dec_loop v tmp else tmp)"
  by pat_completeness auto
termination
proof (relation "measure (\<lambda>(v, tmp). unat v)", goal_cases)
  case (2 v tmp tmp' v')
  then have "unat v div 10 \<noteq> 0" by (simp add: unat_div flip: unat_eq_zero)
  then have "unat v div 10 < unat v" by (intro div_less_dividend) auto
  with 2 show ?case by (simp add: unat_div)
qed simp

function u32_dec_copy :: "mem \<Rightarrow> nat \<Rightarrow> u8 list \<Rightarrow> nat \<Rightarrow> nat \<Rightarrow> mem" where
  "u32_dec_copy m buf tmp n i =
     (if i < n then u32_dec_copy (m(buf + i := tmp ! (n - 1 - i))) buf tmp n (i + 1) else m)"
  by pat_completeness auto
termination by (relation "measure (\<lambda>(m, buf, tmp, n, i). n - i)") auto

definition u32_to_dec :: "mem \<Rightarrow> u32 \<Rightarrow> nat \<Rightarrow> mem \<times> nat" where
  "u32_to_dec m v buf =
     (let tmp = u32_dec_loop v []; n = length tmp; m = u32_dec_copy m buf tmp n 0
      in (m(buf + n := 0), buf + n))"

subsection \<open>Memory blocks\<close>

function memcpy_align :: "mem \<Rightarrow> nat \<Rightarrow> nat \<Rightarrow> nat \<Rightarrow> mem \<times> nat \<times> nat \<times> nat" where
  "memcpy_align m d s n =
     (if n \<noteq> 0 \<and> d mod 8 \<noteq> 0 then memcpy_align (m(d := m s)) (d + 1) (s + 1) (n - 1)
      else (m, d, s, n))"
  by pat_completeness auto
termination by (relation "measure (\<lambda>(m, d, s, n). n)") auto

function memcpy_words :: "mem \<Rightarrow> nat \<Rightarrow> nat \<Rightarrow> nat \<Rightarrow> mem \<times> nat \<times> nat \<times> nat" where
  "memcpy_words m d s n =
     (if n \<ge> 8 then memcpy_words (store64 m d (load64 m s)) (d + 8) (s + 8) (n - 8)
      else (m, d, s, n))"
  by pat_completeness auto
termination by (relation "measure (\<lambda>(m, d, s, n). n)") auto

primrec memcpy_bytes :: "mem \<Rightarrow> nat \<Rightarrow> nat \<Rightarrow> nat \<Rightarrow> mem" where
  "memcpy_bytes m d s 0 = m"
| "memcpy_bytes m d s (Suc n) = memcpy_bytes (m(d := m s)) (d + 1) (s + 1) n"

definition memcpy :: "mem \<Rightarrow> nat \<Rightarrow> nat \<Rightarrow> nat \<Rightarrow> mem" where
  "memcpy m dst src n =
     (let (m, d, s, n) = memcpy_align m dst src n;
          (m, d, s, n) = memcpy_words m d s n
      in memcpy_bytes m d s n)"

function memmove_align :: "mem \<Rightarrow> nat \<Rightarrow> nat \<Rightarrow> nat \<Rightarrow> mem \<times> nat \<times> nat \<times> nat" where
  "memmove_align m d s n =
     (if n \<noteq> 0 \<and> d mod 8 \<noteq> 0 then memmove_align (m(d - 1 := m (s - 1))) (d - 1) (s - 1) (n - 1)
      else (m, d, s, n))"
  by pat_completeness auto
termination by (relation "measure (\<lambda>(m, d, s, n). n)") auto

function memmove_words :: "mem \<Rightarrow> nat \<Rightarrow> nat \<Rightarrow> nat \<Rightarrow> mem \<times> nat \<times> nat \<times> nat" where
  "memmove_words m d s n =
     (if n \<ge> 8 then memmove_words (store64 m (d - 8) (load64 m (s - 8))) (d - 8) (s - 8) (n - 8)
      else (m, d, s, n))"
  by pat_completeness auto
termination by (relation "measure (\<lambda>(m, d, s, n). n)") auto

primrec memmove_bytes :: "mem \<Rightarrow> nat \<Rightarrow> nat \<Rightarrow> nat \<Rightarrow> mem" where
  "memmove_bytes m d s 0 = m"
| "memmove_bytes m d s (Suc n) = memmove_bytes (m(d - 1 := m (s - 1))) (d - 1) (s - 1) n"

definition memmove :: "mem \<Rightarrow> nat \<Rightarrow> nat \<Rightarrow> nat \<Rightarrow> mem" where
  "memmove m dst src n =
     (if dst < src then memcpy m dst src n
      else if dst > src then
        (let (m, d, s, n) = memmove_align m (dst + n) (src + n) n;
             (m, d, s, n) = memmove_words m d s n
         in memmove_bytes m d s n)
      else m)"

function memset_align :: "mem \<Rightarrow> nat \<Rightarrow> u8 \<Rightarrow> nat \<Rightarrow> mem \<times> nat \<times> nat" where
  "memset_align m p c n =
     (if n \<noteq> 0 \<and> p mod 8 \<noteq> 0 then memset_align (m(p := c)) (p + 1) c (n - 1) else (m, p, n))"
  by pat_completeness auto
termination by (relation "measure (\<lambda>(m, p, c, n). n)") auto

function memset_words :: "mem \<Rightarrow> nat \<Rightarrow> u64 \<Rightarrow> nat \<Rightarrow> mem \<times> nat \<times> nat" where
  "memset_words m q w n =
     (if n \<ge> 8 then memset_words (store64 m q w) (q + 8) w (n - 8) else (m, q, n))"
  by pat_completeness auto
termination by (relation "measure (\<lambda>(m, q, w, n). n)") auto

primrec memset_bytes :: "mem \<Rightarrow> nat \<Rightarrow> u8 \<Rightarrow> nat \<Rightarrow> mem" where
  "memset_bytes m p c 0 = m"
| "memset_bytes m p c (Suc n) = memset_bytes (m(p := c)) (p + 1) c n"

definition memset :: "mem \<Rightarrow> nat \<Rightarrow> u32 \<Rightarrow> nat \<Rightarrow> mem" where
  "memset m s c n =
     (let w = ucast (ucast c :: u8) * 0x0101010101010101 :: u64;
          (m, p, n) = memset_align m s (ucast c) n;
          (m, p, n) = memset_words m p w n
      in memset_bytes m p (ucast c) n)"

primrec memcmp :: "mem \<Rightarrow> nat \<Rightarrow> nat \<Rightarrow> nat \<Rightarrow> int" where
  "memcmp m x y 0 = 0"
| "memcmp m x y (Suc n) =
     (if m x \<noteq> m y then uint (m x) - uint (m y) else memcmp m (x + 1) (y + 1) n)"

declare strncpy_copy.simps [simp del] strncpy_pad.simps [simp del] strncmp_loop.simps [simp del]
  u32_dec_loop.simps [simp del] u32_dec_copy.simps [simp del] memcpy_align.simps [simp del]
  memcpy_words.simps [simp del] memmove_align.simps [simp del] memmove_words.simps [simp del]
  memset_align.simps [simp del] memset_words.simps [simp del]

section \<open>Block copies\<close>

text \<open>The specification of a copy: the bytes of the source as they were before the copy.\<close>

definition copied :: "mem \<Rightarrow> nat \<Rightarrow> nat \<Rightarrow> nat \<Rightarrow> mem" where
  "copied m d s n = (\<lambda>a. if d \<le> a \<and> a < d + n then m (s + (a - d)) else m a)"

lemma copied_0 [simp]: "copied m d s 0 = m"
  by (auto simp: copied_def fun_eq_iff)

lemma copied_1: "m(d := m s) = copied m d s 1"
  by (auto simp: copied_def fun_eq_iff)

lemma copied_up:
  "d \<le> s \<or> s + k + j \<le> d \<Longrightarrow> copied (copied m d s k) (d + k) (s + k) j = copied m d s (k + j)"
  by (auto simp: copied_def fun_eq_iff)

lemma copied_down: "s \<le> d \<Longrightarrow> copied (copied m (d + j) (s + j) k) d s j = copied m d s (j + k)"
  by (auto simp: copied_def fun_eq_iff)

lemma byte_load64: "i < 8 \<Longrightarrow> ucast (drop_bit (8 * i) (load64 m a)) = m (a + i)"
proof (rule bit_word_eqI)
  fix n assume i: "i < 8" and n: "n < LENGTH(8)"
  have d: "(8 * i + n) div 8 = i" and md: "(8 * i + n) mod 8 = n" using n by simp_all
  from i n have "8 * i + n < 64" by simp
  then show "bit (ucast (drop_bit (8 * i) (load64 m a)) :: u8) n \<longleftrightarrow> bit (m (a + i)) n"
    using i n by (simp add: bit_simps bit_drop_bit_eq load64_def bit_load_le d md del: upt_rec_numeral)
qed

lemma store_load64: "store64 m d (load64 m s) = copied m d s 8"
  by (auto simp: store64_def copied_def fun_eq_iff byte_load64)

lemma memcpy_align_spec:
  "d \<le> s \<or> s + n \<le> d \<Longrightarrow> \<exists>k \<le> n. memcpy_align m d s n = (copied m d s k, d + k, s + k, n - k)"
proof (induction m d s n rule: memcpy_align.induct)
  case (1 m d s n)
  show ?case
  proof (cases "n \<noteq> 0 \<and> d mod 8 \<noteq> 0")
    case True
    then obtain k where k: "k \<le> n - 1"
      "memcpy_align (m(d := m s)) (d + 1) (s + 1) (n - 1) =
       (copied (m(d := m s)) (d + 1) (s + 1) k, d + 1 + k, s + 1 + k, n - 1 - k)"
      using 1 by fastforce
    have "copied (m(d := m s)) (d + 1) (s + 1) k = copied m d s (1 + k)"
      unfolding copied_1 using 1(2) k(1) True by (intro copied_up) auto
    with True k show ?thesis by (intro exI [of _ "1 + k"]) (auto simp: memcpy_align.simps [of m d])
  next
    case False
    then show ?thesis by (intro exI [of _ 0]) (auto simp: memcpy_align.simps [of m d])
  qed
qed

lemma memcpy_words_spec:
  "d \<le> s \<or> s + n \<le> d \<Longrightarrow> \<exists>k \<le> n. memcpy_words m d s n = (copied m d s k, d + k, s + k, n - k)"
proof (induction m d s n rule: memcpy_words.induct)
  case (1 m d s n)
  show ?case
  proof (cases "n \<ge> 8")
    case True
    then obtain k where k: "k \<le> n - 8"
      "memcpy_words (copied m d s 8) (d + 8) (s + 8) (n - 8) =
       (copied (copied m d s 8) (d + 8) (s + 8) k, d + 8 + k, s + 8 + k, n - 8 - k)"
      using 1 unfolding store_load64 by fastforce
    have "copied (copied m d s 8) (d + 8) (s + 8) k = copied m d s (8 + k)"
      using 1(2) k(1) True by (intro copied_up) auto
    with True k show ?thesis
      by (intro exI [of _ "8 + k"]) (simp add: memcpy_words.simps [of m d] store_load64)
  next
    case False
    then show ?thesis by (intro exI [of _ 0]) (simp add: memcpy_words.simps [of m d])
  qed
qed

lemma memcpy_bytes_spec: "d \<le> s \<or> s + n \<le> d \<Longrightarrow> memcpy_bytes m d s n = copied m d s n"
proof (induction n arbitrary: m d s)
  case (Suc n)
  then have "memcpy_bytes m d s (Suc n) = copied (copied m d s 1) (d + 1) (s + 1) n"
    by (auto simp: copied_1)
  also have "\<dots> = copied m d s (1 + n)" using Suc(2) by (intro copied_up) auto
  finally show ?case by simp
qed simp

lemma memcpy_copied:
  assumes "d \<le> s \<or> s + n \<le> d"
  shows "memcpy m d s n = copied m d s n"
proof -
  obtain k where k: "k \<le> n" "memcpy_align m d s n = (copied m d s k, d + k, s + k, n - k)"
    using memcpy_align_spec [OF assms] by blast
  have c: "d + k \<le> s + k \<or> s + k + (n - k) \<le> d + k" using assms k(1) by auto
  obtain j where j: "j \<le> n - k"
    "memcpy_words (copied m d s k) (d + k) (s + k) (n - k) =
     (copied (copied m d s k) (d + k) (s + k) j, d + k + j, s + k + j, n - k - j)"
    using memcpy_words_spec [OF c] by blast
  have e: "copied (copied m d s k) (d + k) (s + k) j = copied m d s (k + j)"
    using assms j(1) k(1) by (intro copied_up) auto
  have "memcpy m d s n = memcpy_bytes (copied m d s (k + j)) (d + (k + j)) (s + (k + j)) (n - (k + j))"
    by (simp add: memcpy_def k j e add.assoc)
  also have "\<dots> = copied (copied m d s (k + j)) (d + (k + j)) (s + (k + j)) (n - (k + j))"
    using assms k(1) j(1) by (intro memcpy_bytes_spec) auto
  also have "\<dots> = copied m d s (k + j + (n - (k + j)))"
    using assms k(1) j(1) by (intro copied_up) auto
  finally show ?thesis using k(1) j(1) by simp
qed

lemma memmove_align_spec:
  "s \<le> d \<Longrightarrow> \<exists>k \<le> n. memmove_align m (d + n) (s + n) n =
     (copied m (d + k) (s + k) (n - k), d + k, s + k, k)"
proof (induction n arbitrary: m)
  case 0
  then show ?case by (simp add: memmove_align.simps)
next
  case (Suc n)
  show ?case
  proof (cases "(d + Suc n) mod 8 = 0")
    case True
    then show ?thesis by (intro exI [of _ "Suc n"]) (simp add: memmove_align.simps)
  next
    case False
    let ?m = "copied m (d + n) (s + n) 1"
    obtain k where k: "k \<le> n" "memmove_align ?m (d + n) (s + n) n =
      (copied ?m (d + k) (s + k) (n - k), d + k, s + k, k)"
      using Suc by blast
    have "copied ?m (d + k) (s + k) (n - k) = copied m (d + k) (s + k) (Suc n - k)"
      using copied_down [of "s + k" "d + k" m "n - k" 1] Suc(2) k(1) by (simp add: Suc_diff_le)
    moreover have "memmove_align m (d + Suc n) (s + Suc n) (Suc n) = memmove_align ?m (d + n) (s + n) n"
      using False by (subst memmove_align.simps) (simp add: copied_1)
    ultimately show ?thesis using k by (intro exI [of _ k]) auto
  qed
qed

lemma memmove_words_spec:
  "s \<le> d \<Longrightarrow> \<exists>k \<le> n. memmove_words m (d + n) (s + n) n =
     (copied m (d + k) (s + k) (n - k), d + k, s + k, k)"
proof (induction n arbitrary: m rule: less_induct)
  case (less n)
  show ?case
  proof (cases "n \<ge> 8")
    case False
    then show ?thesis by (intro exI [of _ n]) (simp add: memmove_words.simps)
  next
    case True
    let ?n = "n - 8"
    let ?m = "copied m (d + ?n) (s + ?n) 8"
    obtain k where k: "k \<le> ?n" "memmove_words ?m (d + ?n) (s + ?n) ?n =
      (copied ?m (d + k) (s + k) (?n - k), d + k, s + k, k)"
      using less(1) [of ?n ?m] less(2) True by auto
    have "copied ?m (d + k) (s + k) (?n - k) = copied m (d + k) (s + k) (n - k)"
      using copied_down [of "s + k" "d + k" m "?n - k" 8] less(2) k(1) True by simp
    moreover have "memmove_words m (d + n) (s + n) n = memmove_words ?m (d + ?n) (s + ?n) ?n"
      using True by (subst memmove_words.simps) (simp add: store_load64)
    ultimately show ?thesis using k by (intro exI [of _ k]) auto
  qed
qed

lemma memmove_bytes_spec: "s \<le> d \<Longrightarrow> memmove_bytes m (d + n) (s + n) n = copied m d s n"
proof (induction n arbitrary: m)
  case (Suc n)
  then have "memmove_bytes m (d + Suc n) (s + Suc n) (Suc n) = copied (copied m (d + n) (s + n) 1) d s n"
    by (simp add: copied_1)
  also have "\<dots> = copied m d s (n + 1)" using Suc(2) by (rule copied_down)
  finally show ?case by simp
qed simp

text \<open>
  C22. \<open>memmove\<close> copies correctly for every placement of the two blocks, overlapping ones and
  unaligned ones included: the destination receives the bytes the source held before the call and
  no other byte changes. The routine works with an alignment prologue, 64-bit moves and a byte
  tail, upwards when the destination is below the source and downwards when it is above.
\<close>

theorem memmove_correct:
  "memmove m dst src n = (\<lambda>a. if dst \<le> a \<and> a < dst + n then m (src + (a - dst)) else m a)"
proof -
  consider "dst < src" | "dst > src" | "dst = src" by linarith
  then have "memmove m dst src n = copied m dst src n"
  proof cases
    case 1
    then show ?thesis by (simp add: memmove_def memcpy_copied)
  next
    case 2
    then have le: "src \<le> dst" by simp
    obtain k where k: "k \<le> n" "memmove_align m (dst + n) (src + n) n =
      (copied m (dst + k) (src + k) (n - k), dst + k, src + k, k)"
      using memmove_align_spec [OF le] by blast
    let ?m = "copied m (dst + k) (src + k) (n - k)"
    obtain j where j: "j \<le> k" "memmove_words ?m (dst + k) (src + k) k =
      (copied ?m (dst + j) (src + j) (k - j), dst + j, src + j, j)"
      using memmove_words_spec [OF le] by blast
    have "copied ?m (dst + j) (src + j) (k - j) = copied m (dst + j) (src + j) (n - j)"
      using copied_down [of "src + j" "dst + j" m "k - j" "n - k"] le k(1) j(1) by simp
    moreover have "copied (copied m (dst + j) (src + j) (n - j)) dst src j = copied m dst src n"
      using copied_down [OF le, of m j "n - j"] k(1) j(1) by simp
    ultimately show ?thesis using 2 by (simp add: memmove_def k j memmove_bytes_spec [OF le])
  next
    case 3
    then show ?thesis by (auto simp: memmove_def copied_def fun_eq_iff)
  qed
  then show ?thesis by (simp add: copied_def)
qed

section \<open>Filling and comparing blocks\<close>

definition filled :: "mem \<Rightarrow> nat \<Rightarrow> u8 \<Rightarrow> nat \<Rightarrow> mem" where
  "filled m p c n = (\<lambda>a. if p \<le> a \<and> a < p + n then c else m a)"

lemma filled_0 [simp]: "filled m p c 0 = m"
  by (auto simp: filled_def fun_eq_iff)

lemma filled_1: "m(p := c) = filled m p c 1"
  by (auto simp: filled_def fun_eq_iff)

lemma filled_up: "filled (filled m p c k) (p + k) c j = filled m p c (k + j)"
  by (auto simp: filled_def fun_eq_iff)

lemma filled_Suc [simp]: "filled (filled m p c (Suc 0)) (Suc p) c k = filled m p c (Suc k)"
  using filled_up [of m p c 1 k] by simp

lemma splat_load: "ucast (c :: u8) * 0x0101010101010101 = load64 (\<lambda>_. c) 0"
proof -
  have "load_le (replicate 8 c) = (ucast c * 0x0101010101010101 :: u64)"
    by (simp add: numeral_eq_Suc load_le_Cons_add del: load_le.simps(2))
  then show ?thesis by (simp add: load64_def numeral_eq_Suc)
qed

lemma store_splat: "store64 m p (ucast (c :: u8) * 0x0101010101010101) = filled m p c 8"
  unfolding splat_load by (auto simp: store64_def filled_def fun_eq_iff byte_load64)

lemma memset_align_spec: "\<exists>k \<le> n. memset_align m p c n = (filled m p c k, p + k, n - k)"
proof (induction m p c n rule: memset_align.induct)
  case (1 m p c n)
  show ?case
  proof (cases "n \<noteq> 0 \<and> p mod 8 \<noteq> 0")
    case True
    then obtain k where "k \<le> n - 1" "memset_align (m(p := c)) (p + 1) c (n - 1) =
      (filled (filled m p c 1) (p + 1) c k, p + 1 + k, n - 1 - k)"
      using 1 by (auto simp: filled_1)
    with True show ?thesis
      by (intro exI [of _ "1 + k"]) (auto simp: memset_align.simps [of m p] filled_up)
  next
    case False
    then show ?thesis by (intro exI [of _ 0]) (auto simp: memset_align.simps [of m p])
  qed
qed

lemma memset_words_spec:
  "\<exists>k \<le> n. memset_words m p (ucast (c :: u8) * 0x0101010101010101) n = (filled m p c k, p + k, n - k)"
proof (induction n arbitrary: m p rule: less_induct)
  case (less n)
  show ?case
  proof (cases "n \<ge> 8")
    case True
    then obtain k where "k \<le> n - 8"
      "memset_words (filled m p c 8) (p + 8) (ucast c * 0x0101010101010101) (n - 8) =
       (filled (filled m p c 8) (p + 8) c k, p + 8 + k, n - 8 - k)"
      using less [of "n - 8" "filled m p c 8" "p + 8"] by auto
    with True show ?thesis
      by (intro exI [of _ "8 + k"]) (auto simp: memset_words.simps [of m p] filled_up store_splat)
  next
    case False
    then show ?thesis by (intro exI [of _ 0]) (auto simp: memset_words.simps [of m p])
  qed
qed

lemma memset_bytes_spec: "memset_bytes m p c n = filled m p c n"
  by (induction n arbitrary: m p) (auto simp: filled_1)

lemma memset_filled: "memset m s c n = filled m s (ucast c) n"
proof -
  obtain k where k: "k \<le> n" "memset_align m s (ucast c) n = (filled m s (ucast c) k, s + k, n - k)"
    using memset_align_spec by blast
  obtain j where j: "j \<le> n - k" "memset_words (filled m s (ucast c) k) (s + k)
      (ucast (ucast c :: u8) * 0x0101010101010101) (n - k) =
    (filled (filled m s (ucast c) k) (s + k) (ucast c) j, s + k + j, n - k - j)"
    using memset_words_spec by blast
  show ?thesis
    using k(1) j(1)
    by (simp add: memset_def k(2) j(2) memset_bytes_spec filled_up add.assoc
        filled_up [of _ _ _ "k + j", simplified add.assoc])
qed

lemma memcmp_eq_0: "memcmp m x y n = 0 \<longleftrightarrow> (\<forall>i < n. m (x + i) = m (y + i))"
proof (induction n arbitrary: x y)
  case (Suc n)
  show ?case by (auto simp: Suc.IH All_less_Suc2 simp flip: word_uint_eq_iff)
qed simp

section \<open>C strings\<close>

primrec cstr :: "mem \<Rightarrow> nat \<Rightarrow> u8 list \<Rightarrow> bool" where
  "cstr m s [] \<longleftrightarrow> m s = 0"
| "cstr m s (x # xs) \<longleftrightarrow> x \<noteq> 0 \<and> m s = x \<and> cstr m (s + 1) xs"

lemma str_end_cstr: "cstr m s xs \<Longrightarrow> str_end m s = Some (s + length xs)"
  by (induction xs arbitrary: s) (subst str_end.simps, simp)+

lemma strlen_cstr: "cstr m s xs \<Longrightarrow> strlen m s = Some (length xs)"
  by (simp add: strlen_def str_end_cstr)

lemma cstr_cong: "(\<And>a. s \<le> a \<Longrightarrow> a \<le> s + length xs \<Longrightarrow> m' a = m a) \<Longrightarrow> cstr m' s xs = cstr m s xs"
proof (induction xs arbitrary: s)
  case (Cons x xs)
  then show ?case by auto
qed simp

text \<open>\<open>strcpy\<close> copies the string and its NUL when the two areas do not overlap.\<close>

lemma strcpy_loop_cstr:
  "cstr m s xs \<Longrightarrow> d + length xs < s \<or> s + length xs < d \<Longrightarrow>
   strcpy_loop m d s = Some (copied m d s (length xs + 1))"
proof (induction xs arbitrary: m d s)
  case Nil
  then show ?case by (subst strcpy_loop.simps) (auto simp: copied_def fun_eq_iff)
next
  case (Cons x xs)
  define m' where "m' = m(d := m s)"
  have "cstr m' (s + 1) xs = cstr m (s + 1) xs"
    using Cons.prems by (intro cstr_cong) (auto simp: m'_def)
  then have "strcpy_loop m' (d + 1) (s + 1) = Some (copied m' (d + 1) (s + 1) (length xs + 1))"
    using Cons.prems by (intro Cons.IH) auto
  moreover have "copied m' (d + 1) (s + 1) (length xs + 1) = copied m d s (1 + (length xs + 1))"
    unfolding m'_def copied_1 using Cons.prems by (intro copied_up) auto
  ultimately show ?case
    using Cons.prems by (subst strcpy_loop.simps) (auto simp: m'_def)
qed

lemma strcpy_cstr:
  "cstr m src xs \<Longrightarrow> dst + length xs < src \<or> src + length xs < dst \<Longrightarrow>
   strcpy m dst src = Some (copied m dst src (length xs + 1), dst)"
  by (simp add: strcpy_def strcpy_loop_cstr)

lemma strcmp_cstr: "cstr m a xs \<Longrightarrow> cstr m b ys \<Longrightarrow> \<exists>c. strcmp m a b = Some c \<and> (c = 0 \<longleftrightarrow> xs = ys)"
proof (induction xs arbitrary: a b ys)
  case Nil
  then show ?case by (subst strcmp.simps) (cases ys; auto simp flip: word_uint_eq_iff simp: uint_0_iff)
next
  case (Cons x xs)
  then show ?case by (subst strcmp.simps) (cases ys; auto simp flip: word_uint_eq_iff simp: uint_0_iff)
qed

lemma strncpy_copy_spec:
  assumes "k = n \<or> k < n \<and> m (src + k) = 0" and "\<forall>j < k. m (src + j) \<noteq> 0" and "i \<le> k"
    and "dst + n \<le> src \<or> src + k < dst"
  shows "strncpy_copy (copied m dst src i) dst src n i = (copied m dst src k, k)"
  using \<open>i \<le> k\<close>
proof (induction i rule: inc_induct)
  case base
  have "copied m dst src k (src + k) = m (src + k)"
    using assms(1,4) by (auto simp: copied_def)
  then show ?case using assms(1) by (subst strncpy_copy.simps) auto
next
  case (step i)
  have "copied m dst src i (src + i) = m (src + i)"
    using step(2) assms(1,4) by (auto simp: copied_def)
  moreover have "(copied m dst src i)(dst + i := m (src + i)) = copied m dst src (Suc i)"
    by (auto simp: copied_def fun_eq_iff)
  moreover have "m (src + i) \<noteq> 0" and "i < n" using step(2) assms(1,2) by auto
  ultimately show ?case using step.IH by (subst strncpy_copy.simps) simp
qed

lemma strncpy_pad_spec:
  assumes "i \<le> n" and "k \<le> i"
  shows "strncpy_pad (filled m (dst + k) 0 (i - k)) dst n i = filled m (dst + k) 0 (n - k)"
  using assms
proof (induction i rule: inc_induct)
  case base
  show ?case by (subst strncpy_pad.simps) simp
next
  case (step i)
  have "(filled m (dst + k) 0 (i - k))(dst + i := 0) = filled m (dst + k) 0 (Suc i - k)"
    using step(4) by (auto simp: filled_def fun_eq_iff)
  moreover have "strncpy_pad (filled m (dst + k) 0 (Suc i - k)) dst n (Suc i) = filled m (dst + k) 0 (n - k)"
    using step(3,4) by (simp only: le_SucI)
  ultimately show ?case using step(2) by (subst strncpy_pad.simps) simp
qed

lemma cstr_nth: "cstr m s xs \<Longrightarrow> i < length xs \<Longrightarrow> m (s + i) = xs ! i \<and> xs ! i \<noteq> 0"
proof (induction xs arbitrary: s i)
  case (Cons x xs)
  then show ?case using Cons.IH [of "s + 1"] by (cases i) auto
qed simp

lemma cstr_nul: "cstr m s xs \<Longrightarrow> m (s + length xs) = 0"
proof (induction xs arbitrary: s)
  case (Cons x xs)
  then show ?case using Cons.IH [of "s + 1"] by auto
qed simp

text \<open>\<open>strncpy\<close> writes exactly \<open>n\<close> bytes: the string cut at \<open>n\<close>, then zeros.\<close>

lemma strncpy_cstr:
  assumes "cstr m src xs" and "dst + n \<le> src \<or> src + length xs < dst"
  shows "strncpy m dst src n =
    (\<lambda>a. if dst \<le> a \<and> a < dst + n then (if a - dst < length xs then xs ! (a - dst) else 0) else m a, dst)"
proof -
  define k where "k = min n (length xs)"
  have "strncpy_copy (copied m dst src 0) dst src n 0 = (copied m dst src k, k)"
    using assms cstr_nth [OF assms(1)] cstr_nul [OF assms(1)]
    by (intro strncpy_copy_spec) (auto simp: k_def min_def)
  then have "strncpy m dst src n = (filled (copied m dst src k) (dst + k) 0 (n - k), dst)"
    using strncpy_pad_spec [of k n k "copied m dst src k" dst] by (simp add: strncpy_def k_def)
  moreover have "m (src + (a - dst)) = xs ! (a - dst)" if "a - dst < length xs" for a
    using cstr_nth [OF assms(1) that] by simp
  ultimately show ?thesis by (auto simp: fun_eq_iff filled_def copied_def k_def simp del: Nat.add_diff_assoc)
qed

lemma strchr_loop_cstr:
  "cstr m s xs \<Longrightarrow> strchr_loop m s ch = Some
     (if ch \<in> set xs then Some (s + length (takeWhile (\<lambda>x. x \<noteq> ch) xs))
      else if ch = 0 then Some (s + length xs) else None)"
proof (induction xs arbitrary: s)
  case (Cons x xs)
  then show ?case by (subst strchr_loop.simps) auto
qed (subst strchr_loop.simps, simp)

lemma strrchr_loop_cstr:
  "cstr m s xs \<Longrightarrow> strrchr_loop m s ch lst = Some
     (if ch = 0 then Some (s + length xs)
      else if ch \<in> set xs then Some (s + length xs - 1 - length (takeWhile (\<lambda>x. x \<noteq> ch) (rev xs))) else lst)"
proof (induction xs arbitrary: s lst)
  case (Cons x xs)
  then have "strrchr_loop m s ch lst = strrchr_loop m (s + 1) ch (if x = ch then Some s else lst)"
    by (subst strrchr_loop.simps) auto
  with Cons show ?case by (auto simp: takeWhile_append)
qed (subst strrchr_loop.simps, simp)

section \<open>Decimal printing\<close>

definition dec_value :: "u8 list \<Rightarrow> nat" where
  "dec_value ds = foldl (\<lambda>a c. a * 10 + (unat c - 48)) 0 ds"

lemma dec_value_snoc: "dec_value (ds @ [c]) = dec_value ds * 10 + (unat c - 48)"
  by (simp add: dec_value_def)

lemma digit_char: "unat (48 + ucast (v mod 10) :: u8) = 48 + unat (v :: u32) mod 10"
proof -
  have "unat (ucast (v mod 10) :: u8) = unat v mod 10"
    by (simp add: unsigned_ucast_eq unat_mod take_bit_eq_mod)
  then show ?thesis by (simp add: unat_word_ariths)
qed

lemma u32_div_less: "(v :: u32) div 10 \<noteq> 0 \<Longrightarrow> unat (v div 10) < unat v"
proof -
  assume "v div 10 \<noteq> 0"
  then have "v \<noteq> 0" by auto
  then have "0 < unat v" by (simp add: unat_gt_0)
  then show ?thesis by (simp add: unat_div)
qed

lemma u32_dec_loop_acc: "u32_dec_loop v tmp = tmp @ u32_dec_loop v []"
proof (induction "unat v" arbitrary: v tmp rule: less_induct)
  case less
  show ?case
  proof (cases "v div 10 = 0")
    case True
    then show ?thesis by (simp add: u32_dec_loop.simps [of v])
  next
    case False
    note IH = less [OF u32_div_less [OF False]]
    show ?thesis
      using False IH [of "tmp @ [48 + ucast (v mod 10)]"] IH [of "[48 + ucast (v mod 10)]"]
      by (simp add: u32_dec_loop.simps [of v] Let_def)
  qed
qed

lemma u32_dec_loop_Nil:
  "u32_dec_loop v [] = (48 + ucast (v mod 10)) # (if v div 10 = 0 then [] else u32_dec_loop (v div 10) [])"
  using u32_dec_loop_acc [of "v div 10" "[48 + ucast (v mod 10)]"]
  by (simp add: u32_dec_loop.simps [of v] Let_def)

lemma unat_div10: "unat (v div 10 :: u32) = unat v div 10"
  by (simp add: unat_div)

lemma u32_dec_loop_spec:
  "dec_value (rev (u32_dec_loop v [])) = unat v \<and>
   list_all (\<lambda>c. 48 \<le> unat c \<and> unat c < 58) (u32_dec_loop v []) \<and> u32_dec_loop v [] \<noteq> []"
proof (induction "unat v" arbitrary: v rule: less_induct)
  case less
  define c :: u8 where "c = 48 + ucast (v mod 10)"
  have c: "unat c = 48 + unat v mod 10" unfolding c_def by (rule digit_char)
  then have digit: "48 \<le> unat c" "unat c < 58" by simp_all
  have eq: "u32_dec_loop v [] = c # (if v div 10 = 0 then [] else u32_dec_loop (v div 10) [])"
    unfolding c_def by (rule u32_dec_loop_Nil)
  have v: "unat v div 10 * 10 + unat v mod 10 = unat v" by (rule div_mult_mod_eq)
  show ?case
  proof (cases "v div 10 = 0")
    case True
    then have "unat v div 10 = 0" using unat_div10 [of v] by simp
    with v have "unat v mod 10 = unat v" by simp
    with True digit c show ?thesis unfolding eq by (simp add: dec_value_def)
  next
    case False
    let ?r = "u32_dec_loop (v div 10) []"
    have IH: "dec_value (rev ?r) = unat v div 10"
      "list_all (\<lambda>c. 48 \<le> unat c \<and> unat c < 58) ?r"
      using less [OF u32_div_less [OF False]] unfolding unat_div10 by blast+
    have "u32_dec_loop v [] = c # ?r" using False eq by simp
    then show ?thesis using IH digit c v by (simp add: dec_value_snoc)
  qed
qed

lemma u32_dec_loop_length: "unat v < 10 ^ k \<Longrightarrow> 0 < k \<Longrightarrow> length (u32_dec_loop v []) \<le> k"
proof (induction k arbitrary: v)
  case (Suc k)
  show ?case
  proof (cases "v div 10 = 0")
    case True
    then show ?thesis by (simp add: u32_dec_loop_Nil [of v])
  next
    case False
    have d: "unat (v div 10) = unat v div 10" by (simp add: unat_div)
    with Suc.prems have l: "unat (v div 10) < 10 ^ k" by (simp add: less_mult_imp_div_less mult.commute)
    have "0 < unat (v div 10)" using False by (simp add: unat_gt_0)
    with l have "0 < k" by (cases k) auto
    with l False Suc.IH [of "v div 10"] show ?thesis by (simp add: u32_dec_loop_Nil [of v])
  qed
qed simp

lemma u32_dec_copy_spec:
  assumes "length tmp = n" and "i \<le> n"
  shows "u32_dec_copy m buf tmp n i =
    (\<lambda>a. if buf + i \<le> a \<and> a < buf + n then rev tmp ! (a - buf) else m a)"
  using \<open>i \<le> n\<close>
proof (induction i arbitrary: m rule: inc_induct)
  case base
  show ?case by (subst u32_dec_copy.simps) (auto simp: fun_eq_iff)
next
  case (step i)
  have "tmp ! (n - 1 - i) = rev tmp ! i" using step(2) assms(1) by (simp add: rev_nth)
  then have "u32_dec_copy m buf tmp n i = u32_dec_copy (m(buf + i := rev tmp ! i)) buf tmp n (Suc i)"
    using step(2) by (subst u32_dec_copy.simps) simp
  then show ?case using step(2) by (auto simp: step.IH fun_eq_iff)
qed

text \<open>
  \<open>u32_to_dec\<close> prints the decimal digits of its argument: the bytes up to the returned pointer
  are decimal digits whose value is \<open>v\<close>, a NUL follows them, nothing else is written, and the
  number of digits never exceeds the ten bytes of the scratch array on its stack.
\<close>

theorem u32_to_dec_correct:
  assumes "u32_to_dec m v buf = (m', e)"
  shows "buf < e \<and> e \<le> buf + 10 \<and> dec_value (map m' [buf..<e]) = unat v \<and>
    list_all (\<lambda>c. 48 \<le> unat c \<and> unat c < 58) (map m' [buf..<e]) \<and> m' e = 0 \<and>
    (\<forall>a. a < buf \<or> e < a \<longrightarrow> m' a = m a)"
proof -
  define tmp where "tmp = u32_dec_loop v []"
  note sp = u32_dec_loop_spec [of v, folded tmp_def]
  have "unat v < 2 ^ LENGTH(32)" by (rule unsigned_less)
  then have l: "length tmp \<le> 10" unfolding tmp_def by (intro u32_dec_loop_length) simp_all
  have e: "e = buf + length tmp"
    and m': "m' = (\<lambda>a. if buf \<le> a \<and> a < buf + length tmp then rev tmp ! (a - buf) else m a)(e := 0)"
    using assms by (auto simp: u32_to_dec_def Let_def u32_dec_copy_spec simp flip: tmp_def)
  have "map m' [buf..<e] = rev tmp"
    by (rule nth_equalityI) (auto simp: m' e)
  then show ?thesis using sp l e m' by auto
qed

theorem u32_to_dec_correct_witness:
  "snd (u32_to_dec (\<lambda>_. 7) 4096 100) = 104 \<and>
   dec_value (map (fst (u32_to_dec (\<lambda>_. 7) 4096 100)) [100..<104]) = 4096"
proof -
  have e: "snd (u32_to_dec (\<lambda>_. 7) 4096 100) = 104" by code_simp
  show ?thesis using u32_to_dec_correct [of "\<lambda>_. 7" 4096 100, OF prod.collapse [symmetric]] by (simp add: e)
qed

end
