(* ===== verification/Fifo_Spec.thy ===== *)
theory Fifo_Spec
  imports CZ_Prelude
begin

text \<open>
  The contract of a first-in first-out container, shared by the intrusive lists of wait queues, the
  ring buffer of the terminal queues and pipes: \<open>put\<close> appends an item that \<open>ok\<close> admits, \<open>get\<close>
  takes the oldest one. The lemma of the locale is the simulation: any sequence of admitted
  operations returns what the same sequence returns on a list.
\<close>

datatype 'a fifo_op = Put 'a | Get

primrec fifo_run :: "('a \<Rightarrow> 's \<Rightarrow> 's) \<Rightarrow> ('s \<Rightarrow> 'a option \<times> 's) \<Rightarrow> 'a fifo_op list \<Rightarrow> 's \<Rightarrow> 'a option list \<times> 's" where
  "fifo_run put get [] s = ([], s)"
| "fifo_run put get (c # cs) s =
     (case c of
        Put x \<Rightarrow> fifo_run put get cs (put x s)
      | Get \<Rightarrow> (let (r, s) = get s; (rs, s) = fifo_run put get cs s in (r # rs, s)))"

definition list_get :: "'a list \<Rightarrow> 'a option \<times> 'a list" where
  "list_get xs = (case xs of [] \<Rightarrow> (None, []) | x # xs \<Rightarrow> (Some x, xs))"

definition list_put :: "'a \<Rightarrow> 'a list \<Rightarrow> 'a list" where
  "list_put x xs = xs @ [x]"

text \<open>A sequence is legal when every item it puts is admitted by the items queued at that point.\<close>

primrec fifo_legal :: "('a list \<Rightarrow> 'a \<Rightarrow> bool) \<Rightarrow> 'a fifo_op list \<Rightarrow> 'a list \<Rightarrow> bool" where
  "fifo_legal ok [] xs \<longleftrightarrow> True"
| "fifo_legal ok (c # cs) xs \<longleftrightarrow>
     (case c of
        Put x \<Rightarrow> ok xs x \<and> fifo_legal ok cs (list_put x xs)
      | Get \<Rightarrow> fifo_legal ok cs (snd (list_get xs)))"

locale fifo =
  fixes rep :: "'s \<Rightarrow> 'a list \<Rightarrow> bool" and ok :: "'a list \<Rightarrow> 'a \<Rightarrow> bool"
    and put :: "'a \<Rightarrow> 's \<Rightarrow> 's" and get :: "'s \<Rightarrow> 'a option \<times> 's"
  assumes put_rep: "rep s xs \<Longrightarrow> ok xs x \<Longrightarrow> rep (put x s) (list_put x xs)"
    and get_rep: "rep s xs \<Longrightarrow> rep (snd (get s)) (snd (list_get xs))"
    and get_result: "rep s xs \<Longrightarrow> fst (get s) = fst (list_get xs)"
begin

lemma run_refines:
  "rep s xs \<Longrightarrow> fifo_legal ok cs xs \<Longrightarrow> fifo_run put get cs s = (rs, s') \<Longrightarrow>
   \<exists>ys. rep s' ys \<and> fifo_run list_put list_get cs xs = (rs, ys)"
proof (induction cs arbitrary: s xs rs)
  case (Cons c cs)
  show ?case
  proof (cases c)
    case (Put x)
    with Cons.prems Cons.IH [of "put x s" "list_put x xs" rs] show ?thesis
      by (simp add: put_rep)
  next
    case Get
    obtain r t where g: "get s = (r, t)" by fastforce
    obtain rs' where r: "fifo_run put get cs t = (rs', s')" "rs = r # rs'"
      using Cons.prems(3) Get g by (auto split: prod.splits)
    have t: "rep t (snd (list_get xs))" "r = fst (list_get xs)"
      using get_rep [OF Cons.prems(1)] get_result [OF Cons.prems(1)] g by simp_all
    then obtain ys where "rep s' ys" "fifo_run list_put list_get cs (snd (list_get xs)) = (rs', ys)"
      using Cons.IH [OF t(1) _ r(1)] Cons.prems(2) Get by auto
    with Get r(2) t(2) show ?thesis by (auto simp: split_beta)
  qed
qed simp

end

end
