(* ===== verification/Klist.thy ===== *)
theory Klist
  imports Fifo_Spec
begin

text \<open>
  The intrusive doubly linked lists of \<open>lib/list/list.c\<close>. A list element is an address; the two
  fields of \<open>struct LIST_ELEM\<close> are two maps on addresses, so that one heap holds the elements of
  every list, and a \<open>struct LIST\<close> is the pair of the addresses of its two sentinels. Address 0 is
  the null pointer. The predicate \<open>klist\<close> relates a heap to the sequence of elements on the list.
\<close>

type_synonym ptr = nat

section \<open>Model\<close>

record heap =
  prev :: "ptr \<Rightarrow> ptr"
  nxt :: "ptr \<Rightarrow> ptr"

record list_hdr =
  head :: ptr
  tail :: ptr

definition set_prev :: "ptr \<Rightarrow> ptr \<Rightarrow> heap \<Rightarrow> heap" where
  "set_prev p v h = h\<lparr>prev := (prev h)(p := v)\<rparr>"

definition set_next :: "ptr \<Rightarrow> ptr \<Rightarrow> heap \<Rightarrow> heap" where
  "set_next p v h = h\<lparr>nxt := (nxt h)(p := v)\<rparr>"

definition list_init :: "list_hdr \<Rightarrow> heap \<Rightarrow> heap" where
  "list_init l h =
     (let h = set_prev (head l) 0 h;
          h = set_next (head l) (tail l) h;
          h = set_prev (tail l) (head l) h
      in set_next (tail l) 0 h)"

definition list_append :: "list_hdr \<Rightarrow> ptr \<Rightarrow> heap \<Rightarrow> heap" where
  "list_append l elem h =
     (let h = set_next elem (tail l) h;
          h = set_prev elem (prev h (tail l)) h;
          h = set_next (prev h (tail l)) elem h
      in set_prev (tail l) elem h)"

definition list_remove :: "ptr \<Rightarrow> heap \<Rightarrow> heap" where
  "list_remove elem h =
     (let h = set_next (prev h elem) (nxt h elem) h
      in set_prev (nxt h elem) (prev h elem) h)"

definition list_unlink :: "ptr \<Rightarrow> heap \<Rightarrow> heap" where
  "list_unlink elem h =
     (if nxt h elem \<noteq> 0 then set_prev elem 0 (set_next elem 0 (list_remove elem h)) else h)"

definition list_empty :: "list_hdr \<Rightarrow> heap \<Rightarrow> bool" where
  "list_empty l h \<longleftrightarrow> nxt h (head l) = tail l"

definition list_pop_front :: "list_hdr \<Rightarrow> heap \<Rightarrow> ptr \<times> heap" where
  "list_pop_front l h =
     (let first = nxt h (head l) in
      if first = tail l then (0, h) else (first, list_remove first h))"

text \<open>The walk of \<open>elem_find\<close> ends on every well-formed list; it is a partial function because the
  code has no other bound.\<close>

partial_function (option) elem_find_loop :: "list_hdr \<Rightarrow> heap \<Rightarrow> ptr \<Rightarrow> ptr \<Rightarrow> ptr option" where
  "elem_find_loop l h elem e =
     (if e \<noteq> tail l then (if e = elem then Some e else elem_find_loop l h elem (nxt h e))
      else Some 0)"

definition elem_find :: "list_hdr \<Rightarrow> heap \<Rightarrow> ptr \<Rightarrow> ptr option" where
  "elem_find l h elem = elem_find_loop l h elem (nxt h (head l))"

section \<open>Chains\<close>

text \<open>\<open>linked h ps\<close>: consecutive addresses of \<open>ps\<close> point at each other.\<close>

fun linked :: "heap \<Rightarrow> ptr list \<Rightarrow> bool" where
  "linked h [] \<longleftrightarrow> True"
| "linked h [p] \<longleftrightarrow> True"
| "linked h (p # q # ps) \<longleftrightarrow> nxt h p = q \<and> prev h q = p \<and> linked h (q # ps)"

definition klist :: "list_hdr \<Rightarrow> heap \<Rightarrow> ptr list \<Rightarrow> bool" where
  "klist l h xs \<longleftrightarrow>
     distinct (head l # xs @ [tail l]) \<and> 0 \<notin> set (head l # xs @ [tail l]) \<and>
     linked h (head l # xs @ [tail l]) \<and> prev h (head l) = 0 \<and> nxt h (tail l) = 0"

lemmas heap_defs = set_prev_def set_next_def

lemma linked_append:
  "linked h (xs @ y # ys) \<longleftrightarrow> linked h (xs @ [y]) \<and> linked h (y # ys)"
  by (induction h xs rule: linked.induct) (auto simp: neq_Nil_conv)

lemma linked_cong:
  "linked h ps \<Longrightarrow> (\<And>p. p \<in> set (butlast ps) \<Longrightarrow> nxt h' p = nxt h p) \<Longrightarrow>
   (\<And>p. p \<in> set (tl ps) \<Longrightarrow> prev h' p = prev h p) \<Longrightarrow> linked h' ps"
proof (induction h ps rule: linked.induct)
  case (3 h p q ps)
  have "linked h' (q # ps)"
  proof (rule "3.IH")
    show "nxt h' x = nxt h x" if "x \<in> set (butlast (q # ps))" for x
      using 3(3) [of x] that by simp
    show "prev h' x = prev h x" if "x \<in> set (tl (q # ps))" for x
      using 3(4) [of x] that by simp
  qed (use 3 in simp)
  with 3 show ?case by simp
qed simp_all

lemma in_set_tlD: "x \<in> set (tl xs) \<Longrightarrow> x \<in> set xs"
  by (cases xs) auto

lemma klist_cong:
  assumes "klist l h xs" and "\<And>p. p \<in> set (head l # xs @ [tail l]) \<Longrightarrow> nxt h' p = nxt h p \<and> prev h' p = prev h p"
  shows "klist l h' xs"
proof -
  have "linked h (head l # xs @ [tail l])" using assms(1) by (simp add: klist_def)
  then have "linked h' (head l # xs @ [tail l])"
    by (rule linked_cong) (use assms(2) in \<open>blast dest: in_set_butlastD in_set_tlD\<close>)+
  then show ?thesis using assms by (simp add: klist_def)
qed

lemma linked_snoc2: "linked h (xs @ [p, q]) \<longleftrightarrow> linked h (xs @ [p]) \<and> nxt h p = q \<and> prev h q = p"
  using linked_append [of h xs p "[q]"] by simp

lemma klist_first: "klist l h xs \<Longrightarrow> nxt h (head l) = hd (xs @ [tail l])"
  by (cases xs) (auto simp: klist_def)

lemma klist_last: "klist l h xs \<Longrightarrow> prev h (tail l) = last (head l # xs)"
proof -
  assume "klist l h xs"
  then have "linked h (head l # xs @ [tail l])" by (simp add: klist_def)
  moreover have "head l # xs @ [tail l] = butlast (head l # xs) @ [last (head l # xs), tail l]"
    by (metis append_butlast_last_id append_Cons append_assoc list.distinct(1) append_Nil)
  ultimately show ?thesis by (metis linked_snoc2)
qed

lemma list_empty_klist: "klist l h xs \<Longrightarrow> list_empty l h \<longleftrightarrow> xs = []"
  using klist_first [of l h xs] by (cases xs) (auto simp: list_empty_def klist_def)

lemma list_init_klist:
  "head l \<noteq> tail l \<Longrightarrow> head l \<noteq> 0 \<Longrightarrow> tail l \<noteq> 0 \<Longrightarrow> klist l (list_init l h) []"
  by (auto simp: klist_def list_init_def heap_defs Let_def)

lemma list_append_eq:
  assumes "e \<noteq> tail l"
  shows "list_append l e h =
    \<lparr>prev = (prev h)(e := prev h (tail l), tail l := e), nxt = (nxt h)(e := tail l, prev h (tail l) := e)\<rparr>"
  using assms by (auto simp: list_append_def heap_defs Let_def)

lemma list_append_klist:
  assumes k: "klist l h xs" and e: "e \<notin> set (head l # xs @ [tail l])" "e \<noteq> 0"
  shows "klist l (list_append l e h) (xs @ [e])"
proof -
  obtain ys p where ys: "head l # xs = ys @ [p]" by (metis rev_exhaust list.distinct(1))
  then have p: "prev h (tail l) = p" using klist_last [OF k] by simp
  have all: "head l # xs @ [tail l] = ys @ [p, tail l]" using ys by (metis append_Cons append_assoc append_Nil)
  have all': "head l # (xs @ [e]) @ [tail l] = ys @ [p, e, tail l]"
    using ys by (metis append_Cons append_assoc append_Nil)
  have d: "distinct (ys @ [p, tail l])" and z: "0 \<notin> set (ys @ [p, tail l])" and lk: "linked h (ys @ [p, tail l])"
    and hd: "prev h (head l) = 0" and tl: "nxt h (tail l) = 0"
    using k unfolding klist_def all by blast+
  have en: "e \<notin> set (ys @ [p, tail l])" using e(1) unfolding all .
  let ?h = "list_append l e h"
  have h: "?h = \<lparr>prev = (prev h)(e := p, tail l := e), nxt = (nxt h)(e := tail l, p := e)\<rparr>"
    using en by (simp add: list_append_eq p)
  have "linked ?h (ys @ [p])"
    by (rule linked_cong [of h]) (use lk d en in \<open>auto simp: linked_snoc2 h dest!: in_set_butlastD in_set_tlD\<close>)
  then have "linked ?h (ys @ [p, e, tail l])"
    using d en unfolding linked_append [of _ ys p "[e, tail l]"] by (simp add: h)
  moreover have "head l \<noteq> e" "head l \<noteq> tail l" "p \<noteq> tail l"
    using d e k by (auto simp: klist_def)
  ultimately show ?thesis
    using d z e(2) en hd tl unfolding klist_def all' by (auto simp: h)
qed

lemma list_remove_klist:
  assumes k: "klist l h (xs @ e # ys)"
  shows "klist l (list_remove e h) (xs @ ys)"
proof -
  obtain us p where us: "head l # xs = us @ [p]" by (metis rev_exhaust list.distinct(1))
  obtain q vs where vs: "ys @ [tail l] = q # vs" by (cases "ys @ [tail l]") auto
  have all: "head l # (xs @ e # ys) @ [tail l] = us @ p # e # q # vs"
    using us vs by (metis append_Cons append_assoc append_Nil)
  have all': "head l # (xs @ ys) @ [tail l] = us @ p # q # vs"
    using us vs by (metis append_Cons append_assoc append_Nil)
  have d: "distinct (us @ p # e # q # vs)" and z: "0 \<notin> set (us @ p # e # q # vs)"
    and lk: "linked h (us @ p # e # q # vs)" and hd: "prev h (head l) = 0" and tl: "nxt h (tail l) = 0"
    using k unfolding klist_def all by blast+
  have lks: "linked h (us @ [p])" "nxt h e = q" "prev h e = p" "linked h (q # vs)"
    using lk linked_append [of h us p "e # q # vs"] by simp_all
  have h: "list_remove e h = \<lparr>prev = (prev h)(q := p), nxt = (nxt h)(p := q)\<rparr>"
    using d lks(2,3) by (simp add: list_remove_def heap_defs)
  have "linked (list_remove e h) (us @ [p])"
    by (rule linked_cong [OF lks(1)]) (use d in \<open>auto simp: h dest!: in_set_butlastD in_set_tlD\<close>)
  moreover have "linked (list_remove e h) (q # vs)"
    by (rule linked_cong [OF lks(4)]) (use d in \<open>auto simp: h dest!: in_set_butlastD in_set_tlD split: if_splits\<close>)
  ultimately have "linked (list_remove e h) (us @ p # q # vs)"
    unfolding linked_append [of _ us p "q # vs"] by (simp add: h)
  moreover have "head l \<in> set (us @ [p])" "tail l \<in> set (q # vs)"
    using us vs by (metis list.set_intros(1), metis in_set_conv_decomp)
  then have "head l \<noteq> q" "p \<noteq> tail l" using d by auto
  ultimately show ?thesis
    using d z hd tl unfolding klist_def all' by (simp add: h)
qed

lemma list_unlink_klist: "klist l h (xs @ e # ys) \<Longrightarrow> klist l (list_unlink e h) (xs @ ys)"
proof -
  assume k: "klist l h (xs @ e # ys)"
  have "e \<noteq> 0" and e: "e \<notin> set (head l # (xs @ ys) @ [tail l])" using k by (auto simp: klist_def)
  have "linked h ((head l # xs) @ e # ys @ [tail l])" using k by (simp add: klist_def)
  then have "linked h (e # ys @ [tail l])" using linked_append [of h "head l # xs" e] by blast
  then have "nxt h e = hd (ys @ [tail l])" by (cases ys) auto
  then have "nxt h e \<noteq> 0" using k by (cases ys) (auto simp: klist_def)
  with e show ?thesis
    by (intro klist_cong [OF list_remove_klist [OF k]]) (auto simp: list_unlink_def heap_defs)
qed

text \<open>An element that is on no list has a null \<open>next\<close> after \<open>list_unlink\<close>, so a second call
  changes nothing.\<close>

lemma list_unlink_idem: "list_unlink e (list_unlink e h) = list_unlink e h"
  by (simp add: list_unlink_def heap_defs)

lemma list_pop_front_klist:
  "klist l h (x # xs) \<Longrightarrow> list_pop_front l h = (x, list_remove x h) \<and> klist l (list_remove x h) xs"
  using list_remove_klist [of l h "[]" x xs] klist_first [of l h "x # xs"]
  by (auto simp: list_pop_front_def klist_def)

lemma list_pop_front_Nil: "klist l h [] \<Longrightarrow> list_pop_front l h = (0, h)"
  using klist_first [of l h "[]"] by (simp add: list_pop_front_def)

lemma elem_find_loop_linked:
  "linked h (xs @ [tail l]) \<Longrightarrow> tail l \<notin> set xs \<Longrightarrow>
   elem_find_loop l h e (hd (xs @ [tail l])) = Some (if e \<in> set xs then e else 0)"
proof (induction xs)
  case Nil
  then show ?case by (subst elem_find_loop.simps) simp
next
  case (Cons x xs)
  then have "linked h (xs @ [tail l])" and "nxt h x = hd (xs @ [tail l])"
    by (cases xs; simp)+
  with Cons show ?case by (subst elem_find_loop.simps) auto
qed

lemma elem_find_klist: "klist l h xs \<Longrightarrow> elem_find l h e = Some (if e \<in> set xs then e else 0)"
proof -
  assume k: "klist l h xs"
  then have "linked h (xs @ [tail l])" by (cases xs) (auto simp: klist_def)
  then show ?thesis
    using elem_find_loop_linked [of h xs l e] k unfolding elem_find_def klist_first [OF k]
    by (auto simp: klist_def)
qed


section \<open>The queue contract\<close>

definition klist_ok :: "list_hdr \<Rightarrow> ptr list \<Rightarrow> ptr \<Rightarrow> bool" where
  "klist_ok l xs e \<longleftrightarrow> e \<noteq> 0 \<and> e \<notin> set (head l # xs @ [tail l])"

definition klist_get :: "list_hdr \<Rightarrow> heap \<Rightarrow> ptr option \<times> heap" where
  "klist_get l h = (let (e, h) = list_pop_front l h in (if e = 0 then None else Some e, h))"

lemma klist_get_Nil: "klist l h [] \<Longrightarrow> klist_get l h = (None, h)"
  by (simp add: klist_get_def list_pop_front_Nil)

lemma klist_get_Cons: "klist l h (x # xs) \<Longrightarrow> klist_get l h = (Some x, list_remove x h)"
  using list_pop_front_klist [of l h x xs] by (simp add: klist_get_def klist_def)

interpretation kl: fifo "klist l" "klist_ok l" "list_append l" "klist_get l" for l
proof unfold_locales
  fix h xs x assume "klist l h xs" and "klist_ok l xs x"
  then show "klist l (list_append l x h) (list_put x xs)"
    unfolding list_put_def klist_ok_def by (intro list_append_klist) auto
next
  fix h xs assume k: "klist l h xs"
  show "klist l (snd (klist_get l h)) (snd (list_get xs))"
    using k list_pop_front_klist [of l h "hd xs" "tl xs"]
    by (cases xs) (simp_all add: klist_get_Nil klist_get_Cons list_get_def)
  show "fst (klist_get l h) = fst (list_get xs)"
    using k by (cases xs) (simp_all add: klist_get_Nil klist_get_Cons list_get_def)
qed

text \<open>
  The pointer lists are queues. On a well-formed list, any sequence of appends of elements that
  are on no list and of removals from the front returns exactly what the same sequence returns on
  a sequence of elements, and leaves a well-formed list of the elements that remain.
\<close>

lemma list_append_pop_fifo:
  assumes "klist l h xs" and "fifo_legal (klist_ok l) cs xs"
    and "fifo_run (list_append l) (klist_get l) cs h = (rs, h')"
  shows "\<exists>ys. klist l h' ys \<and> fifo_run list_put list_get cs xs = (rs, ys)"
  using assms by (rule kl.run_refines)

end
