(* ===== verification/Task.thy ===== *)
theory Task
  imports CZ_Prelude
begin

text \<open>
  The task record of \<open>includes/kernel/sched/thread.h\<close> that the scheduler, the file descriptors,
  and the futexes share. A task is named by its slot in \<open>task_table\<close>; a pointer to a
  task is such a slot. The record has the fields those components read and write, in the order of
  \<open>struct TASK\<close>; the machine contexts (kernel stack, thread-local storage, floating point state),
  the address space and the links of the intrusive lists are left out.
\<close>

section \<open>Status\<close>

datatype task_status =
    TASK_RUNNING | TASK_READY | TASK_BLOCKED | TASK_WAITING | TASK_HANGING | TASK_DIED | TASK_STOPPED

primrec status_bit :: "task_status \<Rightarrow> u32" where
  "status_bit TASK_RUNNING = push_bit 0 1"
| "status_bit TASK_READY = push_bit 1 1"
| "status_bit TASK_BLOCKED = push_bit 2 1"
| "status_bit TASK_WAITING = push_bit 3 1"
| "status_bit TASK_HANGING = push_bit 4 1"
| "status_bit TASK_DIED = push_bit 5 1"
| "status_bit TASK_STOPPED = push_bit 6 1"

definition TASK_WAKE_MASK :: u32 where
  "TASK_WAKE_MASK = status_bit TASK_BLOCKED OR status_bit TASK_WAITING OR status_bit TASK_HANGING"

definition TASK_DEAD_MASK :: u32 where
  "TASK_DEAD_MASK = status_bit TASK_DIED OR status_bit TASK_HANGING"

definition MAX_TASKS :: nat where
  "MAX_TASKS = 64"

definition MAX_FILES_OPEN_PER_PROC :: nat where
  "MAX_FILES_OPEN_PER_PROC = 64"

section \<open>The record\<close>

record task =
  status :: task_status
  pid :: u32
  priority :: u8
  elapsed_ticks :: u32
  vruntime :: u64
  deadline :: u64
  weight :: u32
  slice :: u32
  futex_ready :: u32
  futex_uaddr :: u32
  futex_pml4 :: u32
  futex_bitset :: u32
  futex_timed :: u32
  sleep_intr :: u32
  sleep_eintr :: u32
  sleep_left :: u32
  parent_pid :: "32 word"
  exit_status :: "32 word"
  pml4_phys :: u32
  user_brk :: u32
  signal_pending :: u32
  signal_mask :: u32
  fd_table :: "u32 list"
  pipe_wr_mask :: u64
  fd_cloexec :: u64
  fd_owner_pid :: "32 word"
  slot_used :: bool
  rq_cpu :: u8
  cpu_aff :: u8
  on_cpu :: u32

lemma wake_mask_iff:
  "status_bit s AND TASK_WAKE_MASK \<noteq> 0 \<longleftrightarrow> s = TASK_BLOCKED \<or> s = TASK_WAITING \<or> s = TASK_HANGING"
  by (cases s) (simp_all add: TASK_WAKE_MASK_def)

lemma dead_mask_iff: "status_bit s AND TASK_DEAD_MASK \<noteq> 0 \<longleftrightarrow> s = TASK_DIED \<or> s = TASK_HANGING"
  by (cases s) (simp_all add: TASK_DEAD_MASK_def)

text \<open>A free slot of the task table, as the zeroed table has it.\<close>

definition task_zero :: task where
  "task_zero = \<lparr>status = TASK_DIED, pid = 0, priority = 0, elapsed_ticks = 0, vruntime = 0, deadline = 0,
     weight = 0, slice = 0, futex_ready = 0, futex_uaddr = 0, futex_pml4 = 0, futex_bitset = 0, futex_timed = 0,
     sleep_intr = 0, sleep_eintr = 0, sleep_left = 0, parent_pid = 0, exit_status = 0, pml4_phys = 0, user_brk = 0,
     signal_pending = 0, signal_mask = 0, fd_table = replicate MAX_FILES_OPEN_PER_PROC (- 1), pipe_wr_mask = 0,
     fd_cloexec = 0, fd_owner_pid = 0, slot_used = False, rq_cpu = 0, cpu_aff = 0, on_cpu = 0\<rparr>"

end
