(* ===== verification/FileTable.thy ===== *)
theory FileTable
  imports Task
begin

text \<open>
  The open-file table and the descriptor tables of \<open>kernel/fs/file.c\<close>. The table of 256 open files
  has a bitmap of used slots in eight 32-bit words, which \<open>file_table_alloc_slot\<close> and
  \<open>file_table_free_slot\<close> update with compare-and-swap and no lock. This theory models the
  operations as they run alone; \<open>FileSlots\<close> is the step relation of any number of callers.
\<close>

section \<open>Model\<close>

definition MAX_FILE_OPEN :: nat where
  "MAX_FILE_OPEN = 256"

text \<open>Pointers are addresses; 0 is the null pointer.\<close>

definition FILE_SLOT_RESERVED :: nat where
  "FILE_SLOT_RESERVED = 1"

record kfile =
  fd_pos :: u32
  fd_flag :: u32
  fd_inode :: nat
  proc_id :: u32
  proc_aux :: u32
  ref_cnt :: u32
  fd_nonblock :: u32
  dev_priv :: nat

record files =
  file_table :: "kfile list"
  file_slot_used :: "u32 list"
  task_table :: "task list"
  current :: nat

definition upd_file :: "nat \<Rightarrow> (kfile \<Rightarrow> kfile) \<Rightarrow> files \<Rightarrow> files" where
  "upd_file i f s = s\<lparr>file_table := (file_table s)[i := f (file_table s ! i)]\<rparr>"

definition upd_task :: "nat \<Rightarrow> (task \<Rightarrow> task) \<Rightarrow> files \<Rightarrow> files" where
  "upd_task i f s = s\<lparr>task_table := (task_table s)[i := f (task_table s ! i)]\<rparr>"

definition file_table_init :: "files \<Rightarrow> files" where
  "file_table_init s =
     fold (\<lambda>i. upd_file i (\<lambda>f. f\<lparr>fd_inode := FILE_SLOT_RESERVED, ref_cnt := 1\<rparr>)) [0..<3]
       (s\<lparr>file_slot_used := (replicate (MAX_FILE_OPEN div 32) 0)[0 := 0x7]\<rparr>)"

subsection \<open>Slots\<close>

function slot_scan :: "u32 list \<Rightarrow> nat \<Rightarrow> (nat \<times> u32) option" where
  "slot_scan used k =
     (if k < MAX_FILE_OPEN div 32 then
        (let cur = used ! k in if NOT cur \<noteq> 0 then Some (k, cur) else slot_scan used (k + 1))
      else None)"
  by pat_completeness auto
termination by (relation "measure (\<lambda>(used, k). MAX_FILE_OPEN div 32 - k)") auto

definition slot_bit :: "u32 \<Rightarrow> nat" where
  "slot_bit b = ctz (NOT b)"

definition slot_take :: "u32 list \<Rightarrow> nat \<Rightarrow> u32 \<Rightarrow> u32 list" where
  "slot_take used w b = used[w := b OR push_bit (slot_bit b) 1]"

definition slot_drop :: "u32 list \<Rightarrow> nat \<Rightarrow> u32 \<Rightarrow> u32 list" where
  "slot_drop used idx b = used[idx div 32 := b AND NOT (push_bit (idx mod 32) 1)]"

definition slot_clear :: "kfile \<Rightarrow> kfile" where
  "slot_clear f = f\<lparr>fd_pos := 0, fd_flag := 0, fd_nonblock := 0, fd_inode := FILE_SLOT_RESERVED,
     proc_id := 0, proc_aux := 0, ref_cnt := 0, dev_priv := 0\<rparr>"

definition file_table_alloc_slot :: "files \<Rightarrow> int \<times> files" where
  "file_table_alloc_slot s =
     (case slot_scan (file_slot_used s) 0 of
        None \<Rightarrow> (-1, s)
      | Some (w, b) \<Rightarrow>
          (let idx = w * 32 + slot_bit b
           in (int idx, upd_file idx slot_clear (s\<lparr>file_slot_used := slot_take (file_slot_used s) w b\<rparr>))))"

definition file_table_free_slot :: "int \<Rightarrow> files \<Rightarrow> files" where
  "file_table_free_slot i s =
     (if i < 0 \<or> i \<ge> int MAX_FILE_OPEN then s
      else
        (let idx = nat i;
             s = upd_file idx (\<lambda>f. f\<lparr>fd_inode := 0, fd_pos := 0, fd_flag := 0, proc_id := 0, proc_aux := 0,
                   ref_cnt := 0\<rparr>) s;
             b = file_slot_used s ! (idx div 32)
         in if bit b (idx mod 32) then s\<lparr>file_slot_used := slot_drop (file_slot_used s) idx b\<rparr> else s))"

definition file_get :: "u32 \<Rightarrow> files \<Rightarrow> nat option" where
  "file_get gfd s = (if unat gfd \<ge> MAX_FILE_OPEN then None else Some (unat gfd))"

definition file_table_ref :: "u32 \<Rightarrow> files \<Rightarrow> files" where
  "file_table_ref gfd s =
     (if unat gfd \<ge> MAX_FILE_OPEN then s else upd_file (unat gfd) (\<lambda>f. f\<lparr>ref_cnt := ref_cnt f + 1\<rparr>) s)"

definition file_table_unref :: "u32 \<Rightarrow> files \<Rightarrow> u32 \<times> files" where
  "file_table_unref gfd s =
     (if unat gfd \<ge> MAX_FILE_OPEN then (0, s)
      else
        (let old = ref_cnt (file_table s ! unat gfd);
             s = upd_file (unat gfd) (\<lambda>f. f\<lparr>ref_cnt := ref_cnt f + (- 1)\<rparr>) s
         in if old = 0 then (0, upd_file (unat gfd) (\<lambda>f. f\<lparr>ref_cnt := 0\<rparr>) s) else (old - 1, s)))"

subsection \<open>Descriptors\<close>

text \<open>The descriptor table of a thread group lives in its owner: the live task whose pid is
  \<open>fd_owner_pid\<close>.\<close>

function fd_owner_scan :: "task list \<Rightarrow> u32 \<Rightarrow> nat \<Rightarrow> nat option" where
  "fd_owner_scan ts owner i =
     (if i < MAX_TASKS then
        (let t = ts ! i in
         if slot_used t \<and> status t \<noteq> TASK_DIED \<and> pid t = owner then Some i
         else fd_owner_scan ts owner (i + 1))
      else None)"
  by pat_completeness auto
termination by (relation "measure (\<lambda>(ts, owner, i). MAX_TASKS - i)") auto

definition fd_owner_task :: "files \<Rightarrow> nat" where
  "fd_owner_task s =
     (let owner = fd_owner_pid (task_table s ! current s) in
      if sint owner \<le> 0 \<or> owner = pid (task_table s ! current s) then current s
      else (case fd_owner_scan (task_table s) owner 0 of Some i \<Rightarrow> i | None \<Rightarrow> current s))"

function fd_free_scan :: "u32 list \<Rightarrow> nat \<Rightarrow> nat option" where
  "fd_free_scan fds local_fd =
     (if local_fd < MAX_FILES_OPEN_PER_PROC then
        (if fds ! local_fd = - 1 then Some local_fd else fd_free_scan fds (local_fd + 1))
      else None)"
  by pat_completeness auto
termination by (relation "measure (\<lambda>(fds, local_fd). MAX_FILES_OPEN_PER_PROC - local_fd)") auto

definition fd_put :: "nat \<Rightarrow> u32 \<Rightarrow> task \<Rightarrow> task" where
  "fd_put local_fd g t = t\<lparr>fd_table := (fd_table t)[local_fd := g],
     pipe_wr_mask := pipe_wr_mask t AND NOT (push_bit local_fd 1),
     fd_cloexec := fd_cloexec t AND NOT (push_bit local_fd 1)\<rparr>"

definition fd_install_from :: "u32 \<Rightarrow> nat \<Rightarrow> files \<Rightarrow> int \<times> files" where
  "fd_install_from global_fd_idx min_local s =
     (let owner = fd_owner_task s; local_fd = (if min_local < 3 then 3 else min_local) in
      case fd_free_scan (fd_table (task_table s ! owner)) local_fd of
        Some fd \<Rightarrow> (int fd, upd_task owner (fd_put fd global_fd_idx) s)
      | None \<Rightarrow> (-1, s))"

definition fd_install :: "u32 \<Rightarrow> files \<Rightarrow> int \<times> files" where
  "fd_install global_fd_idx s = fd_install_from global_fd_idx 3 s"

definition fd_release :: "nat \<Rightarrow> files \<Rightarrow> int \<times> files" where
  "fd_release local_fd s =
     (if local_fd \<ge> MAX_FILES_OPEN_PER_PROC then (-1, s)
      else (0, upd_task (fd_owner_task s) (fd_put local_fd (- 1)) s))"

definition fd_local2global :: "nat \<Rightarrow> files \<Rightarrow> u32" where
  "fd_local2global local_fd s =
     (if local_fd \<ge> MAX_FILES_OPEN_PER_PROC then - 1
      else fd_table (task_table s ! fd_owner_task s) ! local_fd)"

declare slot_scan.simps [simp del] fd_owner_scan.simps [simp del] fd_free_scan.simps [simp del]

section \<open>Slots, one caller\<close>

definition files_wf :: "files \<Rightarrow> bool" where
  "files_wf s \<longleftrightarrow>
     length (file_table s) = MAX_FILE_OPEN \<and> length (file_slot_used s) = MAX_FILE_OPEN div 32 \<and>
     length (task_table s) = MAX_TASKS \<and> current s < MAX_TASKS \<and>
     (\<forall>t \<in> set (task_table s). length (fd_table t) = MAX_FILES_OPEN_PER_PROC)"

definition slot_in_use :: "u32 list \<Rightarrow> nat \<Rightarrow> bool" where
  "slot_in_use used idx \<longleftrightarrow> bit (used ! (idx div 32)) (idx mod 32)"

lemma not_zero_bit: "NOT (b :: u32) \<noteq> 0 \<Longrightarrow> slot_bit b < 32 \<and> \<not> bit b (slot_bit b) \<and> (\<forall>j < slot_bit b. bit b j)"
proof (intro conjI allI impI)
  assume n: "NOT b \<noteq> 0"
  show l: "slot_bit b < 32" using ctz_less [OF n] by (simp add: slot_bit_def)
  show "\<not> bit b (slot_bit b)" using bit_ctz [OF n] by (simp add: slot_bit_def bit_not_iff)
  fix j assume j: "j < slot_bit b"
  then have "\<not> bit (NOT b) j" using not_bit_below_ctz [of j "NOT b"] by (simp add: slot_bit_def)
  then show "bit b j" using j l by (simp add: bit_not_iff)
qed

lemma not_zero_full: "NOT (b :: u32) = 0 \<Longrightarrow> j < 32 \<Longrightarrow> bit b j"
  using bit_not_iff [of b j] by simp

lemma slot_scan_Some:
  "slot_scan used k = Some (w, b) \<Longrightarrow>
   k \<le> w \<and> w < MAX_FILE_OPEN div 32 \<and> b = used ! w \<and> NOT b \<noteq> 0 \<and> (\<forall>j. k \<le> j \<and> j < w \<longrightarrow> NOT (used ! j) = 0)"
proof (induction used k rule: slot_scan.induct)
  case (1 used k)
  show ?case
  proof (cases "k < MAX_FILE_OPEN div 32 \<and> NOT (used ! k) = 0")
    case True
    then have "slot_scan used (k + 1) = Some (w, b)" using 1(2) by (subst (asm) slot_scan.simps) simp
    with 1(1) True have "k + 1 \<le> w \<and> w < MAX_FILE_OPEN div 32 \<and> b = used ! w \<and> NOT b \<noteq> 0 \<and>
      (\<forall>j. k + 1 \<le> j \<and> j < w \<longrightarrow> NOT (used ! j) = 0)" by blast
    with True show ?thesis by (metis Suc_eq_plus1 Suc_leD le_antisym not_less_eq_eq)
  next
    case False
    then show ?thesis using 1(2) by (subst (asm) slot_scan.simps) (auto simp: Let_def split: if_splits)
  qed
qed

lemma slot_scan_None:
  "slot_scan used k = None \<Longrightarrow> k \<le> j \<Longrightarrow> j < MAX_FILE_OPEN div 32 \<Longrightarrow> NOT (used ! j) = 0"
proof (induction used k rule: slot_scan.induct)
  case (1 used k)
  then have f: "NOT (used ! k) = 0" and "slot_scan used (k + 1) = None"
    by (subst (asm) (2) slot_scan.simps; auto simp: Let_def split: if_splits)+
  with 1 show ?case by (cases "j = k") (auto simp: Let_def)
qed

lemma slot_take_in_use:
  assumes "w < length used" and "NOT b \<noteq> 0" and "b = used ! w"
  shows "slot_in_use (slot_take used w b) j \<longleftrightarrow> j = w * 32 + slot_bit b \<or> slot_in_use used j"
proof -
  have l: "slot_bit b < 32" using not_zero_bit [OF assms(2)] by blast
  then have eq: "j = w * 32 + slot_bit b \<longleftrightarrow> j div 32 = w \<and> j mod 32 = slot_bit b"
    by (metis add.commute div_mult_mod_eq div_mult_self3 div_less mod_mult_self3 mod_less add_0 zero_neq_numeral mod_mult_self2 mult.commute)
  have "j mod 32 < 32" by simp
  then show ?thesis
    using assms unfolding eq slot_in_use_def slot_take_def
    by (auto simp: nth_list_update bit_or_iff bit_exp_iff not_zero_bit)
qed

lemma slot_drop_in_use:
  assumes "idx div 32 < length used" and "b = used ! (idx div 32)"
  shows "slot_in_use (slot_drop used idx b) j \<longleftrightarrow> j \<noteq> idx \<and> slot_in_use used j"
proof -
  have eq: "j = idx \<longleftrightarrow> j div 32 = idx div 32 \<and> j mod 32 = idx mod 32"
    by (metis div_mult_mod_eq)
  have "j mod 32 < 32" by simp
  then show ?thesis
    using assms unfolding eq slot_in_use_def slot_drop_def
    by (auto simp: nth_list_update bit_and_iff bit_not_iff bit_exp_iff)
qed

lemma slot_in_use_scan:
  assumes "slot_scan used 0 = Some (w, b)"
  shows "\<not> slot_in_use used (w * 32 + slot_bit b) \<and> (\<forall>j < w * 32 + slot_bit b. slot_in_use used j)"
proof -
  have s: "b = used ! w" "NOT b \<noteq> 0" "\<forall>j < w. NOT (used ! j) = 0"
    using slot_scan_Some [OF assms] by auto
  note b = not_zero_bit [OF s(2)]
  have "slot_in_use used j" if "j < w * 32 + slot_bit b" for j
  proof (cases "j div 32 = w")
    case True
    then have "j mod 32 < slot_bit b" using that div_mult_mod_eq [of j 32] by simp
    then show ?thesis using True b s(1) by (simp add: slot_in_use_def)
  next
    case False
    have "j < (w + 1) * 32" using that b by simp
    then have "j div 32 < w + 1" by (simp add: less_mult_imp_div_less)
    with False have "j div 32 < w" by simp
    then show ?thesis using s(3) by (simp add: slot_in_use_def not_zero_full)
  qed
  moreover have "\<not> slot_in_use used (w * 32 + slot_bit b)"
    using b s(1) by (simp add: slot_in_use_def)
  ultimately show ?thesis by blast
qed

lemma alloc_slot_cases:
  assumes "files_wf s" and "file_table_alloc_slot s = (r, s')"
  obtains (full) "r = -1" "s' = s" "\<And>j. j < MAX_FILE_OPEN \<Longrightarrow> slot_in_use (file_slot_used s) j"
  | (slot) idx where "idx < MAX_FILE_OPEN" "r = int idx" "\<not> slot_in_use (file_slot_used s) idx"
      "\<And>j. j < idx \<Longrightarrow> slot_in_use (file_slot_used s) j"
      "\<And>j. slot_in_use (file_slot_used s') j \<longleftrightarrow> j = idx \<or> slot_in_use (file_slot_used s) j"
      "file_table s' = (file_table s)[idx := slot_clear (file_table s ! idx)]"
      "task_table s' = task_table s" "current s' = current s" "files_wf s'"
proof (cases "slot_scan (file_slot_used s) 0")
  case None
  have "slot_in_use (file_slot_used s) j" if "j < MAX_FILE_OPEN" for j
  proof -
    have "j div 32 < MAX_FILE_OPEN div 32" using that by (simp add: MAX_FILE_OPEN_def less_mult_imp_div_less)
    then show ?thesis using slot_scan_None [OF None, of "j div 32"] by (simp add: slot_in_use_def not_zero_full)
  qed
  with None assms(2) show ?thesis by (intro full) (auto simp: file_table_alloc_slot_def)
next
  case (Some wb)
  obtain w b where wb: "wb = (w, b)" by fastforce
  define idx where "idx = w * 32 + slot_bit b"
  have sc: "slot_scan (file_slot_used s) 0 = Some (w, b)" using Some wb by simp
  note sp = slot_scan_Some [OF sc] and us = slot_in_use_scan [OF sc, folded idx_def]
  have wl: "w < length (file_slot_used s)" using sp assms(1) by (simp add: files_wf_def)
  have il: "idx < MAX_FILE_OPEN"
    using sp not_zero_bit [of b] by (auto simp: idx_def MAX_FILE_OPEN_def)
  have r: "r = int idx" and s': "s' = upd_file idx slot_clear (s\<lparr>file_slot_used := slot_take (file_slot_used s) w b\<rparr>)"
    using assms(2) sc by (simp_all add: file_table_alloc_slot_def idx_def Let_def)
  have tk: "slot_in_use (slot_take (file_slot_used s) w b) j \<longleftrightarrow> j = idx \<or> slot_in_use (file_slot_used s) j" for j
    using slot_take_in_use [OF wl] sp unfolding idx_def by blast
  have "files_wf s'" using assms(1) by (simp add: s' files_wf_def upd_file_def slot_take_def)
  with il r us show ?thesis by (intro slot) (auto simp: s' upd_file_def tk)
qed

text \<open>
  \<open>file_table_alloc_slot\<close> reserves the lowest free slot: it fails only when all 256 slots are
  in use and then changes nothing; otherwise the slot it returns was free, every lower slot was in
  use, exactly that slot becomes used, its record is cleared and marked reserved, and no other
  record changes.
\<close>

theorem file_table_alloc_slot_correct:
  assumes "files_wf s" and "file_table_alloc_slot s = (r, s')"
  shows "r = -1 \<and> s' = s \<and> (\<forall>j < MAX_FILE_OPEN. slot_in_use (file_slot_used s) j) \<or>
    (\<exists>idx < MAX_FILE_OPEN. r = int idx \<and> \<not> slot_in_use (file_slot_used s) idx \<and>
       (\<forall>j < idx. slot_in_use (file_slot_used s) j) \<and>
       (\<forall>j. slot_in_use (file_slot_used s') j \<longleftrightarrow> j = idx \<or> slot_in_use (file_slot_used s) j) \<and>
       file_table s' ! idx = \<lparr>fd_pos = 0, fd_flag = 0, fd_inode = FILE_SLOT_RESERVED, proc_id = 0, proc_aux = 0,
         ref_cnt = 0, fd_nonblock = 0, dev_priv = 0\<rparr> \<and>
       (\<forall>j. j \<noteq> idx \<longrightarrow> file_table s' ! j = file_table s ! j) \<and> files_wf s')"
proof -
  have l: "length (file_table s) = MAX_FILE_OPEN" using assms(1) by (simp add: files_wf_def)
  show ?thesis
    using assms
  proof (cases rule: alloc_slot_cases)
    case full
    then show ?thesis by blast
  next
    case (slot idx)
    then have "file_table s' ! idx = slot_clear (file_table s ! idx)" and "\<And>j. j \<noteq> idx \<Longrightarrow> file_table s' ! j = file_table s ! j"
      using l by simp_all
    with slot show ?thesis by (intro disjI2 exI [of _ idx]) (simp add: slot_clear_def)
  qed
qed

text \<open>The state after start-up, used as the concrete instance of the theorems.\<close>

definition files_boot :: files where
  "files_boot = file_table_init
     \<lparr>file_table = replicate MAX_FILE_OPEN \<lparr>fd_pos = 0, fd_flag = 0, fd_inode = 0, proc_id = 0, proc_aux = 0,
        ref_cnt = 0, fd_nonblock = 0, dev_priv = 0\<rparr>,
      file_slot_used = replicate (MAX_FILE_OPEN div 32) 0, task_table = replicate MAX_TASKS task_zero, current = 0\<rparr>"

lemma files_wf_upd_file [simp]: "files_wf (upd_file i f s) = files_wf s"
  by (simp add: files_wf_def upd_file_def)

lemma files_wf_fold [simp]: "files_wf (fold (\<lambda>i. upd_file i f) is s) = files_wf s"
  by (induction "is" arbitrary: s) auto

lemma fold_upd_file [simp]:
  "file_slot_used (fold (\<lambda>i. upd_file i f) is s) = file_slot_used s"
  "task_table (fold (\<lambda>i. upd_file i f) is s) = task_table s"
  "current (fold (\<lambda>i. upd_file i f) is s) = current s"
  by (induction "is" arbitrary: s) (auto simp: upd_file_def)

lemma files_boot_wf: "files_wf files_boot"
  by (simp add: files_boot_def file_table_init_def del: upt_rec_numeral)
     (simp add: files_wf_def MAX_FILE_OPEN_def MAX_TASKS_def task_zero_def)

lemma files_boot_used: "file_slot_used files_boot = [7, 0, 0, 0, 0, 0, 0, 0]"
proof -
  have "(replicate (MAX_FILE_OPEN div 32) 0)[0 := 0x7] = [7, 0, 0, 0, 0, 0, 0, 0 :: u32]" by code_simp
  then show ?thesis by (simp add: files_boot_def file_table_init_def del: upt_rec_numeral)
qed

lemma files_boot_alloc: "fst (file_table_alloc_slot files_boot) = 3"
proof -
  have "slot_scan [7, 0, 0, 0, 0, 0, 0, 0] 0 = Some (0, 7)" "slot_bit 7 = 3" by code_simp+
  then show ?thesis by (simp add: file_table_alloc_slot_def files_boot_used Let_def)
qed

theorem file_table_alloc_slot_correct_witness:
  "fst (file_table_alloc_slot files_boot) = 3 \<and>
   slot_in_use (file_slot_used (snd (file_table_alloc_slot files_boot))) 3 \<and>
   \<not> slot_in_use (file_slot_used files_boot) 3"
  using file_table_alloc_slot_correct [OF files_boot_wf prod.collapse [symmetric]] files_boot_alloc
  by auto

lemma file_table_free_slot_in_use:
  assumes "files_wf s" and "0 \<le> i" and "i < int MAX_FILE_OPEN"
  shows "slot_in_use (file_slot_used (file_table_free_slot i s)) j \<longleftrightarrow> j \<noteq> nat i \<and> slot_in_use (file_slot_used s) j"
proof -
  have w: "nat i div 32 < length (file_slot_used s)"
    using assms by (simp add: files_wf_def MAX_FILE_OPEN_def less_mult_imp_div_less nat_less_iff)
  have "\<not> bit (file_slot_used s ! (nat i div 32)) (nat i mod 32) \<Longrightarrow> \<not> slot_in_use (file_slot_used s) (nat i)"
    by (simp add: slot_in_use_def)
  then show ?thesis
    using assms slot_drop_in_use [OF w refl, of j]
    by (auto simp: file_table_free_slot_def upd_file_def Let_def)
qed

text \<open>Taking a reference and dropping it leaves the table as it was; dropping one reference too
  many leaves the count at 0 instead of wrapping it around.\<close>

lemma file_table_ref_unref:
  "files_wf s \<Longrightarrow> file_table_unref g (file_table_ref g s) =
     (if unat g \<ge> MAX_FILE_OPEN then (0, s)
      else if ref_cnt (file_table s ! unat g) = - 1 then (0, upd_file (unat g) (\<lambda>f. f\<lparr>ref_cnt := 0\<rparr>) s)
      else (ref_cnt (file_table s ! unat g), s))"
  by (auto simp: file_table_ref_def file_table_unref_def upd_file_def files_wf_def Let_def
      eq_neg_iff_add_eq_0 list_update_same_conv)

lemma file_table_unref_zero:
  "files_wf s \<Longrightarrow> ref_cnt (file_table s ! unat g) = 0 \<Longrightarrow> unat g < MAX_FILE_OPEN \<Longrightarrow>
   file_table_unref g s = (0, s)"
proof -
  assume wf: "files_wf s" and z: "ref_cnt (file_table s ! unat g) = 0" and l: "unat g < MAX_FILE_OPEN"
  have same: "(file_table s ! unat g)\<lparr>ref_cnt := 0\<rparr> = file_table s ! unat g"
    using z by (cases "file_table s ! unat g") simp
  have "upd_file (unat g) (\<lambda>f. f\<lparr>ref_cnt := 0\<rparr>) s = s"
    unfolding upd_file_def same by simp
  then show ?thesis using z l wf by (simp add: file_table_unref_def upd_file_def files_wf_def Let_def)
qed

section \<open>Descriptors\<close>

lemma fd_owner_scan_Some:
  "fd_owner_scan ts owner i = Some j \<Longrightarrow>
   i \<le> j \<and> j < MAX_TASKS \<and> slot_used (ts ! j) \<and> status (ts ! j) \<noteq> TASK_DIED \<and> pid (ts ! j) = owner"
proof (induction ts owner i rule: fd_owner_scan.induct)
  case (1 ts owner i)
  show ?case
    using 1 by (subst (asm) (2) fd_owner_scan.simps) (auto simp: Let_def split: if_splits)
qed

lemma fd_owner_task_less: "files_wf s \<Longrightarrow> fd_owner_task s < MAX_TASKS"
  using fd_owner_scan_Some [of "task_table s"]
  by (auto simp: fd_owner_task_def files_wf_def Let_def split: option.splits)

lemma fd_free_scan_Some:
  "fd_free_scan fds l = Some j \<Longrightarrow>
   l \<le> j \<and> j < MAX_FILES_OPEN_PER_PROC \<and> fds ! j = - 1 \<and> (\<forall>i. l \<le> i \<and> i < j \<longrightarrow> fds ! i \<noteq> - 1)"
proof (induction fds l rule: fd_free_scan.induct)
  case (1 fds l)
  show ?case
  proof (cases "l < MAX_FILES_OPEN_PER_PROC \<and> fds ! l \<noteq> - 1")
    case True
    then have "fd_free_scan fds (l + 1) = Some j" using 1(2) by (subst (asm) fd_free_scan.simps) simp
    then have "l + 1 \<le> j \<and> j < MAX_FILES_OPEN_PER_PROC \<and> fds ! j = - 1 \<and>
      (\<forall>i. l + 1 \<le> i \<and> i < j \<longrightarrow> fds ! i \<noteq> - 1)" using 1(1) True by blast
    with True show ?thesis by (metis Suc_eq_plus1 Suc_leD le_antisym not_less_eq_eq)
  next
    case False
    then show ?thesis using 1(2) by (subst (asm) fd_free_scan.simps) (auto split: if_splits)
  qed
qed

lemma fd_free_scan_None:
  "fd_free_scan fds l = None \<Longrightarrow> l \<le> i \<Longrightarrow> i < MAX_FILES_OPEN_PER_PROC \<Longrightarrow> fds ! i \<noteq> - 1"
proof (induction fds l rule: fd_free_scan.induct)
  case (1 fds l)
  then have "fds ! l \<noteq> - 1" and "fd_free_scan fds (l + 1) = None"
    by (subst (asm) (2) fd_free_scan.simps; auto split: if_splits)+
  with 1 show ?case by (cases "i = l") auto
qed


text \<open>The owner of the descriptors is the same task before and after a table update.\<close>

lemma fd_owner_scan_cong:
  "(\<And>j. i \<le> j \<Longrightarrow> j < MAX_TASKS \<Longrightarrow> slot_used (ts' ! j) = slot_used (ts ! j) \<and> status (ts' ! j) = status (ts ! j) \<and>
      pid (ts' ! j) = pid (ts ! j)) \<Longrightarrow> fd_owner_scan ts' owner i = fd_owner_scan ts owner i"
proof (induction ts owner i rule: fd_owner_scan.induct)
  case (1 ts owner i)
  show ?case
  proof (cases "i < MAX_TASKS")
    case True
    then have "fd_owner_scan ts' owner (i + 1) = fd_owner_scan ts owner (i + 1)"
      if "\<not> (slot_used (ts ! i) \<and> status (ts ! i) \<noteq> TASK_DIED \<and> pid (ts ! i) = owner)"
      using 1 that by simp
    with True 1(2) [of i] show ?thesis
      by (subst (1 2) fd_owner_scan.simps) (auto simp: Let_def)
  next
    case False
    then show ?thesis by (subst (1 2) fd_owner_scan.simps) simp
  qed
qed

lemma fd_owner_task_put:
  assumes "files_wf s" and "ow < MAX_TASKS"
  shows "fd_owner_task (upd_task ow (fd_put fd g) s) = fd_owner_task s"
proof -
  let ?ts = "task_table (upd_task ow (fd_put fd g) s)"
  have t: "slot_used (?ts ! j) = slot_used (task_table s ! j) \<and> status (?ts ! j) = status (task_table s ! j) \<and>
      pid (?ts ! j) = pid (task_table s ! j) \<and> fd_owner_pid (?ts ! j) = fd_owner_pid (task_table s ! j)" for j
    by (cases "j = ow") (use assms in \<open>auto simp: upd_task_def fd_put_def files_wf_def\<close>)
  then have "fd_owner_scan ?ts w 0 = fd_owner_scan (task_table s) w 0" for w
    by (intro fd_owner_scan_cong) blast
  moreover have "current (upd_task ow (fd_put fd g) s) = current s" by (simp add: upd_task_def)
  ultimately show ?thesis unfolding fd_owner_task_def Let_def by (simp only: t)
qed

lemma fd_local2global_owner:
  "i < MAX_FILES_OPEN_PER_PROC \<Longrightarrow> fd_local2global i s = fd_table (task_table s ! fd_owner_task s) ! i"
  by (simp add: fd_local2global_def)

lemma fd_local2global_put:
  assumes "files_wf s" and "fd < MAX_FILES_OPEN_PER_PROC"
  shows "fd_local2global i (upd_task (fd_owner_task s) (fd_put fd g) s) = (if i = fd then g else fd_local2global i s)"
proof -
  have ow: "fd_owner_task s < MAX_TASKS" by (rule fd_owner_task_less [OF assms(1)])
  then have l: "length (task_table s) = MAX_TASKS"
    "length (fd_table (task_table s ! fd_owner_task s)) = MAX_FILES_OPEN_PER_PROC"
    using assms(1) by (auto simp: files_wf_def)
  show ?thesis
    using l ow assms(2) unfolding fd_local2global_def fd_owner_task_put [OF assms(1) ow]
    by (simp add: upd_task_def fd_put_def nth_list_update)
qed

lemma files_wf_fd_put: "files_wf s \<Longrightarrow> files_wf (upd_task t (fd_put fd g) s)"
proof -
  assume wf: "files_wf s"
  have "length (fd_table ((task_table s)[t := fd_put fd g (task_table s ! t)] ! i)) = MAX_FILES_OPEN_PER_PROC"
    if "i < length (task_table s)" for i
    using wf that by (cases "t = i") (auto simp: files_wf_def fd_put_def)
  with wf show ?thesis by (auto simp: files_wf_def upd_task_def in_set_conv_nth)
qed

lemma fd_install_cases:
  assumes "files_wf s" and "fd_install_from g m s = (r, s')"
  obtains (full) "r = -1" "s' = s"
      "\<And>i. max 3 m \<le> i \<Longrightarrow> i < MAX_FILES_OPEN_PER_PROC \<Longrightarrow> fd_local2global i s \<noteq> - 1"
  | (slot) fd where "fd < MAX_FILES_OPEN_PER_PROC" "r = int fd" "max 3 m \<le> fd" "fd_local2global fd s = - 1"
      "\<And>i. max 3 m \<le> i \<Longrightarrow> i < fd \<Longrightarrow> fd_local2global i s \<noteq> - 1"
      "s' = upd_task (fd_owner_task s) (fd_put fd g) s"
      "\<And>i. fd_local2global i s' = (if i = fd then g else fd_local2global i s)" "files_wf s'"
proof -
  have mx: "(if m < 3 then 3 else m) = max 3 m" by auto
  show thesis
  proof (cases "fd_free_scan (fd_table (task_table s ! fd_owner_task s)) (max 3 m)")
    case None
    then show thesis
      using assms(2) fd_free_scan_None [OF None]
      by (intro full) (simp_all add: fd_install_from_def mx Let_def fd_local2global_owner)
  next
    case (Some fd)
    note f = fd_free_scan_Some [OF Some]
    then have fd: "fd < MAX_FILES_OPEN_PER_PROC" by blast
    have r: "r = int fd" and s': "s' = upd_task (fd_owner_task s) (fd_put fd g) s"
      using assms(2) Some by (simp_all add: fd_install_from_def mx Let_def)
    show thesis
      using f fd r s' fd_local2global_put [OF assms(1) fd] files_wf_fd_put [OF assms(1)]
      by (intro slot [of fd]) (auto simp: fd_local2global_owner)
  qed
qed

text \<open>
  \<open>fd_install_from\<close> gives the caller the lowest free descriptor that is at least \<open>min_local\<close> and
  at least 3; reading the descriptor back yields the open file it was installed for, every other
  descriptor of the owner keeps its file, and no other task changes. It fails, changing nothing,
  only when the owner has no free descriptor there.
\<close>

lemma fd_install_from_correct:
  assumes "files_wf s" and "fd_install_from g m s = (r, s')"
  shows "r = -1 \<and> s' = s \<and> (\<forall>i. max 3 m \<le> i \<and> i < MAX_FILES_OPEN_PER_PROC \<longrightarrow> fd_local2global i s \<noteq> - 1) \<or>
    (\<exists>fd < MAX_FILES_OPEN_PER_PROC. r = int fd \<and> max 3 m \<le> fd \<and> fd_local2global fd s = - 1 \<and>
       (\<forall>i. max 3 m \<le> i \<and> i < fd \<longrightarrow> fd_local2global i s \<noteq> - 1) \<and> fd_local2global fd s' = g \<and>
       (\<forall>i. i \<noteq> fd \<longrightarrow> fd_local2global i s' = fd_local2global i s) \<and>
       (\<forall>t. t \<noteq> fd_owner_task s \<longrightarrow> task_table s' ! t = task_table s ! t))"
  using assms
proof (cases rule: fd_install_cases)
  case full
  then show ?thesis by blast
next
  case (slot fd)
  moreover from slot have "\<forall>t. t \<noteq> fd_owner_task s \<longrightarrow> task_table s' ! t = task_table s ! t"
    by (simp add: upd_task_def)
  ultimately show ?thesis by (intro disjI2 exI [of _ fd]) auto
qed

section \<open>Frame rules\<close>

lemma fd_owner_task_cong:
  "task_table s' = task_table s \<Longrightarrow> current s' = current s \<Longrightarrow> fd_owner_task s' = fd_owner_task s"
  unfolding fd_owner_task_def Let_def by (simp only:)

lemma fd_local2global_cong:
  "task_table s' = task_table s \<Longrightarrow> current s' = current s \<Longrightarrow> fd_local2global i s' = fd_local2global i s"
  using fd_owner_task_cong [of s' s] by (simp add: fd_local2global_def)

lemma upd_frame [simp]:
  "task_table (upd_file i f s) = task_table s" "current (upd_file i f s) = current s"
  "file_slot_used (upd_file i f s) = file_slot_used s"
  "file_table (upd_task t h s) = file_table s" "file_slot_used (upd_task t h s) = file_slot_used s"
  "current (upd_task t h s) = current s"
  by (simp_all add: upd_file_def upd_task_def)

lemma fd_local2global_upd_file [simp]: "fd_local2global i (upd_file j f s) = fd_local2global i s"
  by (rule fd_local2global_cong) simp_all

lemma free_slot_frame [simp]:
  "task_table (file_table_free_slot i s) = task_table s" "current (file_table_free_slot i s) = current s"
  by (simp_all add: file_table_free_slot_def Let_def)

lemma fd_local2global_free_slot [simp]: "fd_local2global i (file_table_free_slot j s) = fd_local2global i s"
  by (rule fd_local2global_cong) simp_all

lemma files_wf_free_slot [simp]: "files_wf s \<Longrightarrow> files_wf (file_table_free_slot i s)"
  by (simp add: file_table_free_slot_def Let_def) (auto simp: files_wf_def slot_drop_def upd_file_def)

lemma fd_release_spec:
  assumes "files_wf s" and "fd < MAX_FILES_OPEN_PER_PROC"
  shows "fd_local2global i (snd (fd_release fd s)) = (if i = fd then - 1 else fd_local2global i s)"
    and "files_wf (snd (fd_release fd s))"
    and "file_slot_used (snd (fd_release fd s)) = file_slot_used s"
  using assms fd_local2global_put [OF assms] files_wf_fd_put [OF assms(1)] by (simp_all add: fd_release_def)

end
