(* ===== verification/FileSlots.thy ===== *)
theory FileSlots
  imports FileTable
begin

text \<open>
  Concurrent use of the open-file slots of \<open>kernel/fs/file.c\<close>. Any number of callers run
  \<open>file_table_alloc_slot\<close> and \<open>file_table_free_slot\<close> at the same time on several processors; the only
  shared accesses are the atomic loads and the compare-and-swaps of \<open>file_slot_used\<close>. Each caller
  has a program point, and one step of the relation is one access. \<open>owned\<close> records the slots that a
  caller has received and not given back.
\<close>

section \<open>Steps\<close>

datatype slot_pc =
    Idle
  | Scan nat          \<comment> \<open>about to load word \<open>k\<close>\<close>
  | Swap nat u32      \<comment> \<open>about to compare-and-swap word \<open>w\<close>, which read \<open>b\<close>\<close>
  | Drop nat          \<comment> \<open>freeing slot \<open>idx\<close>: about to load its word\<close>
  | Drop_swap nat u32 \<comment> \<open>freeing slot \<open>idx\<close>: about to compare-and-swap its word\<close>

record slots =
  used :: "u32 list"
  pc :: "nat \<Rightarrow> slot_pc"
  owned :: "nat \<Rightarrow> nat set"

inductive slot_step :: "slots \<Rightarrow> slots \<Rightarrow> bool" where
  call_alloc: "pc s t = Idle \<Longrightarrow> slot_step s (s\<lparr>pc := (pc s)(t := Scan 0)\<rparr>)"
| load_full: "pc s t = Scan k \<Longrightarrow> k < MAX_FILE_OPEN div 32 \<Longrightarrow> NOT (used s ! k) = 0 \<Longrightarrow>
    slot_step s (s\<lparr>pc := (pc s)(t := Scan (k + 1))\<rparr>)"
| load_free: "pc s t = Scan k \<Longrightarrow> k < MAX_FILE_OPEN div 32 \<Longrightarrow> NOT (used s ! k) \<noteq> 0 \<Longrightarrow>
    slot_step s (s\<lparr>pc := (pc s)(t := Swap k (used s ! k))\<rparr>)"
| none_free: "pc s t = Scan k \<Longrightarrow> \<not> k < MAX_FILE_OPEN div 32 \<Longrightarrow>
    slot_step s (s\<lparr>pc := (pc s)(t := Idle)\<rparr>)"
| swap_ok: "pc s t = Swap w b \<Longrightarrow> used s ! w = b \<Longrightarrow>
    slot_step s (s\<lparr>used := slot_take (used s) w b, pc := (pc s)(t := Idle),
                   owned := (owned s)(t := insert (w * 32 + slot_bit b) (owned s t))\<rparr>)"
| swap_retry: "pc s t = Swap w b \<Longrightarrow> used s ! w \<noteq> b \<Longrightarrow>
    slot_step s (s\<lparr>pc := (pc s)(t := Scan 0)\<rparr>)"
| call_free: "pc s t = Idle \<Longrightarrow> idx \<in> owned s t \<Longrightarrow>
    slot_step s (s\<lparr>pc := (pc s)(t := Drop idx), owned := (owned s)(t := owned s t - {idx})\<rparr>)"
| drop_gone: "pc s t = Drop idx \<Longrightarrow> \<not> slot_in_use (used s) idx \<Longrightarrow>
    slot_step s (s\<lparr>pc := (pc s)(t := Idle)\<rparr>)"
| drop_load: "pc s t = Drop idx \<Longrightarrow> slot_in_use (used s) idx \<Longrightarrow>
    slot_step s (s\<lparr>pc := (pc s)(t := Drop_swap idx (used s ! (idx div 32)))\<rparr>)"
| drop_ok: "pc s t = Drop_swap idx b \<Longrightarrow> used s ! (idx div 32) = b \<Longrightarrow>
    slot_step s (s\<lparr>used := slot_drop (used s) idx b, pc := (pc s)(t := Idle)\<rparr>)"
| drop_retry: "pc s t = Drop_swap idx b \<Longrightarrow> used s ! (idx div 32) \<noteq> b \<Longrightarrow>
    slot_step s (s\<lparr>pc := (pc s)(t := Drop idx)\<rparr>)"

definition slots_boot :: slots where
  "slots_boot = \<lparr>used = (replicate (MAX_FILE_OPEN div 32) 0)[0 := 0x7], pc = (\<lambda>_. Idle), owned = (\<lambda>_. {})\<rparr>"

section \<open>Invariant\<close>

text \<open>A caller holds the slots it owns and the one it is giving back.\<close>

definition dropping :: "slot_pc \<Rightarrow> nat set" where
  "dropping p = (case p of Drop idx \<Rightarrow> {idx} | Drop_swap idx b \<Rightarrow> {idx} | _ \<Rightarrow> {})"

definition holds :: "slots \<Rightarrow> nat \<Rightarrow> nat set" where
  "holds s t = owned s t \<union> dropping (pc s t)"

definition pc_ok :: "slot_pc \<Rightarrow> bool" where
  "pc_ok p = (case p of Swap w b \<Rightarrow> w < MAX_FILE_OPEN div 32 \<and> NOT b \<noteq> 0 | _ \<Rightarrow> True)"

definition slots_inv :: "slots \<Rightarrow> bool" where
  "slots_inv s \<longleftrightarrow>
     length (used s) = MAX_FILE_OPEN div 32 \<and> (\<forall>j < 3. slot_in_use (used s) j) \<and>
     (\<forall>t. pc_ok (pc s t) \<and> owned s t \<inter> dropping (pc s t) = {}) \<and>
     (\<forall>t idx. idx \<in> holds s t \<longrightarrow> 3 \<le> idx \<and> idx < MAX_FILE_OPEN \<and> slot_in_use (used s) idx) \<and>
     (\<forall>t t' idx. idx \<in> holds s t \<and> idx \<in> holds s t' \<longrightarrow> t = t')"

lemmas dropping_simps [simp] = dropping_def [of Idle, simplified] dropping_def [of "Scan k" for k, simplified]
  dropping_def [of "Swap w b" for w b, simplified] dropping_def [of "Drop idx" for idx, simplified]
  dropping_def [of "Drop_swap idx b" for idx b, simplified]

lemma slots_invD:
  assumes "slots_inv s"
  shows "length (used s) = MAX_FILE_OPEN div 32" "j < 3 \<Longrightarrow> slot_in_use (used s) j" "pc_ok (pc s t)"
    "idx \<in> owned s t \<Longrightarrow> idx \<notin> dropping (pc s t)"
    "idx \<in> holds s t \<Longrightarrow> 3 \<le> idx \<and> idx < MAX_FILE_OPEN \<and> slot_in_use (used s) idx"
    "idx \<in> holds s t \<Longrightarrow> idx \<in> holds s t' \<Longrightarrow> t = t'"
  using assms unfolding slots_inv_def by blast+

lemma slots_invI:
  assumes "length (used s) = MAX_FILE_OPEN div 32" and "\<And>j. j < 3 \<Longrightarrow> slot_in_use (used s) j"
    and "\<And>t. pc_ok (pc s t)" and "\<And>t idx. idx \<in> owned s t \<Longrightarrow> idx \<notin> dropping (pc s t)"
    and "\<And>t idx. idx \<in> holds s t \<Longrightarrow> 3 \<le> idx \<and> idx < MAX_FILE_OPEN \<and> slot_in_use (used s) idx"
    and "\<And>t t' idx. idx \<in> holds s t \<Longrightarrow> idx \<in> holds s t' \<Longrightarrow> t = t'"
  shows "slots_inv s"
  using assms unfolding slots_inv_def by blast

lemma length_slot_updates [simp]:
  "length (slot_take us w b) = length us" "length (slot_drop us idx b) = length us"
  by (simp_all add: slot_take_def slot_drop_def)

lemma slots_inv_boot: "slots_inv slots_boot"
proof -
  have "\<forall>j \<in> set [0..<3]. slot_in_use ((replicate (MAX_FILE_OPEN div 32) 0)[0 := 0x7]) j" by code_simp
  then have "\<forall>j < 3. slot_in_use ((replicate (MAX_FILE_OPEN div 32) 0)[0 := 0x7]) j" unfolding set_upt by simp
  then show ?thesis by (simp add: slots_inv_def slots_boot_def holds_def pc_ok_def)
qed

text \<open>A step that only moves the program point of one caller, without changing what it drops.\<close>

lemma slots_inv_pc:
  assumes "slots_inv s" and "dropping p = dropping (pc s t)" and "pc_ok p"
  shows "slots_inv (s\<lparr>pc := (pc s)(t := p)\<rparr>)"
proof -
  have "holds (s\<lparr>pc := (pc s)(t := p)\<rparr>) u = holds s u" for u using assms(2) by (simp add: holds_def)
  with assms slots_invD [OF assms(1)] show ?thesis by (intro slots_invI) (auto split: if_splits)
qed

lemma slots_inv_release:
  assumes "slots_inv s" and "pc s t = Drop idx \<or> pc s t = Drop_swap idx b" and "dropping p = {}" and "pc_ok p"
  shows "slots_inv (s\<lparr>pc := (pc s)(t := p)\<rparr>)"
proof -
  have "holds (s\<lparr>pc := (pc s)(t := p)\<rparr>) u \<subseteq> holds s u" for u using assms(3) by (auto simp: holds_def)
  then have sub: "j \<in> holds (s\<lparr>pc := (pc s)(t := p)\<rparr>) u \<Longrightarrow> j \<in> holds s u" for j u by blast
  show ?thesis
  proof (rule slots_invI)
    show "u = v" if "j \<in> holds (s\<lparr>pc := (pc s)(t := p)\<rparr>) u" "j \<in> holds (s\<lparr>pc := (pc s)(t := p)\<rparr>) v" for j u v
      using slots_invD(6) [OF assms(1) sub [OF that(1)] sub [OF that(2)]] .
    show "3 \<le> j \<and> j < MAX_FILE_OPEN \<and> slot_in_use (used (s\<lparr>pc := (pc s)(t := p)\<rparr>)) j"
      if "j \<in> holds (s\<lparr>pc := (pc s)(t := p)\<rparr>) u" for j u
      using slots_invD(5) [OF assms(1) sub [OF that]] by simp
  qed (use assms(3,4) slots_invD(1-4) [OF assms(1)] in auto)
qed

lemma slot_step_inv:
  assumes "slot_step s s'" and inv: "slots_inv s"
  shows "slots_inv s'"
  using assms(1)
proof cases
  case (call_alloc t)
  with inv show ?thesis by (simp add: slots_inv_pc pc_ok_def)
next
  case (load_full t k)
  with inv show ?thesis by (simp add: slots_inv_pc pc_ok_def)
next
  case (load_free t k)
  with inv show ?thesis by (simp add: slots_inv_pc pc_ok_def)
next
  case (none_free t k)
  with inv show ?thesis by (simp add: slots_inv_pc pc_ok_def)
next
  case (swap_ok t w b)
  let ?i = "w * 32 + slot_bit b"
  have w: "w < MAX_FILE_OPEN div 32" "NOT b \<noteq> 0" "w < length (used s)"
    using slots_invD(1) [OF inv] slots_invD(3) [OF inv, of t] swap_ok by (simp_all add: pc_ok_def)
  note b = not_zero_bit [OF w(2)]
  have iu: "slot_in_use (slot_take (used s) w b) j \<longleftrightarrow> j = ?i \<or> slot_in_use (used s) j" for j
    using swap_ok by (intro slot_take_in_use w) simp
  have fresh: "\<not> slot_in_use (used s) ?i" using b swap_ok by (simp add: slot_in_use_def)
  then have nh: "?i \<notin> holds s u" for u using slots_invD(5) [OF inv] by blast
  have i3: "3 \<le> ?i" using fresh slots_invD(2) [OF inv] by (meson not_le)
  have il: "?i < MAX_FILE_OPEN" using w b by (auto simp: MAX_FILE_OPEN_def)
  have h: "holds s' u = (if u = t then insert ?i (holds s t) else holds s u)" for u
    using swap_ok by (simp add: holds_def)
  show ?thesis
  proof (rule slots_invI)
    show "pc_ok (pc s' u)" for u using slots_invD(3) [OF inv, of u] by (auto simp: swap_ok pc_ok_def)
    show "j \<notin> dropping (pc s' u)" if "j \<in> owned s' u" for j u
      using slots_invD(4) [OF inv, of j u] nh that by (auto simp: swap_ok split: if_splits)
    show "3 \<le> j \<and> j < MAX_FILE_OPEN \<and> slot_in_use (used s') j" if "j \<in> holds s' u" for j u
      using slots_invD(5) [OF inv, of j] that i3 il unfolding h by (auto simp: swap_ok iu split: if_splits)
    show "u = v" if "j \<in> holds s' u" "j \<in> holds s' v" for j u v
      using slots_invD(6) [OF inv, of j] that nh unfolding h by (auto split: if_splits)
  qed (use slots_invD(1,2) [OF inv] in \<open>auto simp: swap_ok iu\<close>)
next
  case (swap_retry t w b)
  with inv show ?thesis by (simp add: slots_inv_pc pc_ok_def)
next
  case (call_free t idx)
  have "holds s' u = holds s u" for u using call_free by (auto simp: holds_def)
  with call_free slots_invD [OF inv] show ?thesis
    by (intro slots_invI) (auto simp: pc_ok_def split: if_splits)
next
  case (drop_gone t idx)
  with inv show ?thesis by (simp add: slots_inv_release pc_ok_def)
next
  case (drop_load t idx)
  with inv show ?thesis by (simp add: slots_inv_pc pc_ok_def)
next
  case (drop_ok t idx b)
  have "idx \<in> holds s t" using drop_ok by (simp add: holds_def)
  then have i: "3 \<le> idx" "idx < MAX_FILE_OPEN" "\<And>u. u \<noteq> t \<Longrightarrow> idx \<notin> holds s u" "idx \<notin> owned s t"
    using slots_invD(5,6) [OF inv] slots_invD(4) [OF inv, of idx t] drop_ok by auto
  have iu: "slot_in_use (slot_drop (used s) idx b) j \<longleftrightarrow> j \<noteq> idx \<and> slot_in_use (used s) j" for j
    using i(2) slots_invD(1) [OF inv] drop_ok
    by (intro slot_drop_in_use) (auto simp: MAX_FILE_OPEN_def less_mult_imp_div_less)
  have h: "holds s' u = (if u = t then holds s t - {idx} else holds s u)" for u
    using drop_ok i(4) by (auto simp: holds_def)
  show ?thesis
  proof (rule slots_invI)
    show "pc_ok (pc s' u)" for u using slots_invD(3) [OF inv, of u] by (auto simp: drop_ok pc_ok_def)
    show "j \<notin> dropping (pc s' u)" if "j \<in> owned s' u" for j u
      using slots_invD(4) [OF inv, of j u] that by (auto simp: drop_ok split: if_splits)
    show "3 \<le> j \<and> j < MAX_FILE_OPEN \<and> slot_in_use (used s') j" if "j \<in> holds s' u" for j u
      using slots_invD(5) [OF inv, of j] that i(3) unfolding h by (auto simp: drop_ok iu split: if_splits)
    show "u = v" if "j \<in> holds s' u" "j \<in> holds s' v" for j u v
      using slots_invD(6) [OF inv, of j] that unfolding h by (auto split: if_splits)
  qed (use slots_invD(1,2) [OF inv] i(1) in \<open>auto simp: drop_ok iu\<close>)
next
  case (drop_retry t idx b)
  with inv show ?thesis by (simp add: slots_inv_pc pc_ok_def)
qed

text \<open>
  C7. The lock-free slot allocator never gives one slot to two callers. In every state that any
  interleaving of allocations and releases reaches from start-up, the slots owned by two different
  callers are disjoint, every owned slot is marked used in the bitmap, lies inside the table, and
  is none of the three slots reserved for the standard streams.
\<close>

theorem slots_exclusive:
  assumes "slot_step\<^sup>*\<^sup>* slots_boot s"
  shows "(\<forall>t t'. t \<noteq> t' \<longrightarrow> owned s t \<inter> owned s t' = {}) \<and>
    (\<forall>t. \<forall>idx \<in> owned s t. 3 \<le> idx \<and> idx < MAX_FILE_OPEN \<and> slot_in_use (used s) idx)"
proof -
  have "slots_inv s"
    using assms by (induction rule: rtranclp_induct) (auto intro: slots_inv_boot slot_step_inv)
  then show ?thesis using slots_invD(5,6) [of s] by (auto simp: holds_def) blast
qed

text \<open>Two callers that interleave: both read word 0 as \<open>0x7\<close>, the first swap gives slot 3, the
  second one fails, retries and gives slot 4.\<close>

lemma slots_race:
  "\<exists>s. slot_step\<^sup>*\<^sup>* slots_boot s \<and> owned s 4 = {3} \<and> owned s 5 = {4}"
proof -
  define s1 where "s1 = slots_boot\<lparr>pc := (pc slots_boot)(4 := Scan 0)\<rparr>"
  define s2 where "s2 = s1\<lparr>pc := (pc s1)(5 := Scan 0)\<rparr>"
  define s3 where "s3 = s2\<lparr>pc := (pc s2)(4 := Swap 0 (used s2 ! 0))\<rparr>"
  define s4 where "s4 = s3\<lparr>pc := (pc s3)(5 := Swap 0 (used s3 ! 0))\<rparr>"
  define s5 where "s5 = s4\<lparr>used := slot_take (used s4) 0 7, pc := (pc s4)(4 := Idle),
    owned := (owned s4)(4 := insert (0 * 32 + slot_bit 7) (owned s4 4))\<rparr>"
  define s6 where "s6 = s5\<lparr>pc := (pc s5)(5 := Scan 0)\<rparr>"
  define s7 where "s7 = s6\<lparr>pc := (pc s6)(5 := Swap 0 (used s6 ! 0))\<rparr>"
  define s8 where "s8 = s7\<lparr>used := slot_take (used s7) 0 15, pc := (pc s7)(5 := Idle),
    owned := (owned s7)(5 := insert (0 * 32 + slot_bit 15) (owned s7 5))\<rparr>"
  note into = rtranclp.rtrancl_into_rtrancl [of slot_step slots_boot]
  have tk: "slot_take [7, 0, 0, 0, 0, 0, 0, 0] 0 7 = [15, 0, 0, 0, 0, 0, 0, 0]"
    and sb: "slot_bit 7 = 3" "slot_bit 15 = 4" by code_simp+
  have f0: "used slots_boot = [7, 0, 0, 0, 0, 0, 0, 0]" "pc slots_boot = (\<lambda>_. Idle)" "owned slots_boot = (\<lambda>_. {})"
    by (code_simp, simp_all add: slots_boot_def)
  have f1: "used s1 = used slots_boot" "pc s1 4 = Scan 0" "pc s1 5 = Idle" "owned s1 = (\<lambda>_. {})"
    by (simp_all add: s1_def f0)
  have f2: "used s2 = used slots_boot" "pc s2 4 = Scan 0" "pc s2 5 = Scan 0" "owned s2 = (\<lambda>_. {})"
    by (simp_all add: s2_def f1)
  have f3: "used s3 = used slots_boot" "pc s3 4 = Swap 0 7" "pc s3 5 = Scan 0" "owned s3 = (\<lambda>_. {})"
    by (simp_all add: s3_def f2 f0)
  have f4: "used s4 = used slots_boot" "pc s4 4 = Swap 0 7" "pc s4 5 = Swap 0 7" "owned s4 = (\<lambda>_. {})"
    by (simp_all add: s4_def f3 f0)
  have f5: "used s5 = [15, 0, 0, 0, 0, 0, 0, 0]" "pc s5 5 = Swap 0 7" "owned s5 4 = {3}" "owned s5 5 = {}"
    by (simp_all add: s5_def f4 f0 tk sb)
  have f6: "used s6 = [15, 0, 0, 0, 0, 0, 0, 0]" "pc s6 5 = Scan 0" "owned s6 4 = {3}" "owned s6 5 = {}"
    by (simp_all add: s6_def f5)
  have f7: "used s7 = [15, 0, 0, 0, 0, 0, 0, 0]" "pc s7 5 = Swap 0 15" "owned s7 4 = {3}" "owned s7 5 = {}"
    by (simp_all add: s7_def f6)
  have "slot_step slots_boot s1" unfolding s1_def by (rule call_alloc) (simp add: f0)
  note r1 = into [OF rtranclp.rtrancl_refl this]
  have "slot_step s1 s2" unfolding s2_def by (rule call_alloc) (simp add: f1)
  note r2 = into [OF r1 this]
  have "slot_step s2 s3" unfolding s3_def by (rule load_free) (simp_all add: f2 f0 MAX_FILE_OPEN_def)
  note r3 = into [OF r2 this]
  have "slot_step s3 s4" unfolding s4_def by (rule load_free) (simp_all add: f3 f0 MAX_FILE_OPEN_def)
  note r4 = into [OF r3 this]
  have "slot_step s4 s5" unfolding s5_def by (rule swap_ok) (simp_all add: f4 f0)
  note r5 = into [OF r4 this]
  have "slot_step s5 s6" unfolding s6_def by (rule swap_retry [of _ _ 0 7]) (simp_all add: f5)
  note r6 = into [OF r5 this]
  have "slot_step s6 s7" unfolding s7_def by (rule load_free) (simp_all add: f6 MAX_FILE_OPEN_def)
  note r7 = into [OF r6 this]
  have "slot_step s7 s8" unfolding s8_def by (rule swap_ok) (simp_all add: f7)
  then have "slot_step\<^sup>*\<^sup>* slots_boot s8" by (rule into [OF r7])
  moreover have "owned s8 4 = {3}" "owned s8 5 = {4}" by (simp_all add: s8_def f7 sb)
  ultimately show ?thesis by blast
qed

theorem slots_exclusive_witness:
  "\<exists>s. slot_step\<^sup>*\<^sup>* slots_boot s \<and> owned s 4 = {3} \<and> slot_in_use (used s) 3 \<and> owned s 4 \<inter> owned s 5 = {}"
proof -
  obtain s where s: "slot_step\<^sup>*\<^sup>* slots_boot s" "owned s 4 = {3}" using slots_race by blast
  note e = slots_exclusive [OF s(1)]
  have "owned s 4 \<inter> owned s 5 = {}" using conjunct1 [OF e, rule_format, of 4 5] by simp
  moreover have "slot_in_use (used s) 3" using conjunct2 [OF e, rule_format, of 3 4] s(2) by simp
  ultimately show ?thesis using s by blast
qed

end
