(* ===== verification/Ioqueue.thy ===== *)
theory Ioqueue
  imports Fifo_Spec
begin

text \<open>
  The ring buffer of \<open>drivers/char/ioqueue.c\<close>, used by the terminals and by the pipes. A task is
  named by its slot in the task table; the null pointer of \<open>producer\<close> and \<open>consumer\<close> is \<open>None\<close>.
  The body of \<open>ioq_putchar\<close> and \<open>ioq_getchar\<close> runs with interrupts disabled under the lock of the
  queue; the lock is given up only while the caller sleeps. One pass of the waiting loop is
  therefore one atomic step: it either registers the caller as the waiter and goes to sleep
  (\<open>Sleep\<close>), or completes with a result and the task it wakes (\<open>Done\<close>).
\<close>

section \<open>Model\<close>

definition BUFSIZE :: nat where
  "BUFSIZE = 1024"

record tty_ioqueue =
  producer :: "nat option"
  consumer :: "nat option"
  ends :: u32
  buf :: "u8 list"
  head :: nat
  tail :: nat

datatype 'a pass = Sleep | Done 'a "nat option"

definition ioq_init :: "tty_ioqueue \<Rightarrow> tty_ioqueue" where
  "ioq_init ioq = ioq\<lparr>producer := None, consumer := None, head := 0, tail := 0\<rparr>"

definition next_pos :: "nat \<Rightarrow> nat" where
  "next_pos pos = (pos + 1) mod BUFSIZE"

definition ioq_full :: "tty_ioqueue \<Rightarrow> bool" where
  "ioq_full ioq \<longleftrightarrow> next_pos (head ioq) = tail ioq"

definition ioq_empty :: "tty_ioqueue \<Rightarrow> bool" where
  "ioq_empty ioq \<longleftrightarrow> head ioq = tail ioq"

definition ioq_length :: "tty_ioqueue \<Rightarrow> nat" where
  "ioq_length ioq =
     (if head ioq \<ge> tail ioq then head ioq - tail ioq else BUFSIZE - (tail ioq - head ioq))"

definition ioq_putchar :: "nat \<Rightarrow> u8 \<Rightarrow> tty_ioqueue \<Rightarrow> unit pass \<times> tty_ioqueue" where
  "ioq_putchar cur byte ioq =
     (if ioq_full ioq then (Sleep, ioq\<lparr>producer := Some cur\<rparr>)
      else
        (let ioq = ioq\<lparr>buf := (buf ioq)[head ioq := byte]\<rparr>;
             ioq = ioq\<lparr>head := next_pos (head ioq)\<rparr>
         in (Done () (consumer ioq), ioq\<lparr>consumer := None\<rparr>)))"

definition ioq_getchar :: "nat \<Rightarrow> tty_ioqueue \<Rightarrow> u8 pass \<times> tty_ioqueue" where
  "ioq_getchar cur ioq =
     (if ioq_empty ioq then (Sleep, ioq\<lparr>consumer := Some cur\<rparr>)
      else
        (let byte = buf ioq ! tail ioq;
             ioq = ioq\<lparr>tail := next_pos (tail ioq)\<rparr>
         in (Done byte (producer ioq), ioq\<lparr>producer := None\<rparr>)))"

section \<open>The ring holds a sequence\<close>

definition ioq_rep :: "tty_ioqueue \<Rightarrow> u8 list \<Rightarrow> bool" where
  "ioq_rep q xs \<longleftrightarrow>
     length (buf q) = BUFSIZE \<and> tail q < BUFSIZE \<and> length xs < BUFSIZE \<and>
     head q = (tail q + length xs) mod BUFSIZE \<and>
     (\<forall>i < length xs. buf q ! ((tail q + i) mod BUFSIZE) = xs ! i)"

lemma BUFSIZE_pos [simp]: "0 < BUFSIZE"
  by (simp add: BUFSIZE_def)

lemma mod_ring_inj:
  assumes "(t + i) mod n = (t + j) mod (n :: nat)" and "i < n" and "j < n"
  shows "i = j"
proof -
  have "(int t + int i) mod int n = (int t + int j) mod int n"
    using assms(1) by (metis of_nat_add of_nat_mod)
  then have "int n dvd (int t + int i) - (int t + int j)" by (simp add: mod_eq_dvd_iff)
  then have "int n dvd int i - int j" by simp
  then show ?thesis using assms(2,3) by (metis mod_eq_dvd_iff mod_less of_nat_eq_iff of_nat_mod)
qed

lemma ioq_length_rep: "ioq_rep q xs \<Longrightarrow> ioq_length q = length xs"
proof -
  assume r: "ioq_rep q xs"
  then have t: "tail q < BUFSIZE" and l: "length xs < BUFSIZE" and h: "head q = (tail q + length xs) mod BUFSIZE"
    by (auto simp: ioq_rep_def)
  show ?thesis
  proof (cases "tail q + length xs < BUFSIZE")
    case True
    then show ?thesis using h by (simp add: ioq_length_def)
  next
    case False
    then have "head q = tail q + length xs - BUFSIZE"
      using t l h by (simp add: mod_if)
    then show ?thesis using False t l by (auto simp: ioq_length_def)
  qed
qed

lemma ioq_empty_rep: "ioq_rep q xs \<Longrightarrow> ioq_empty q \<longleftrightarrow> xs = []"
  using mod_ring_inj [of "tail q" "length xs" BUFSIZE 0] by (auto simp: ioq_empty_def ioq_rep_def)

lemma ioq_full_rep: "ioq_rep q xs \<Longrightarrow> ioq_full q \<longleftrightarrow> length xs = BUFSIZE - 1"
proof -
  assume r: "ioq_rep q xs"
  then have "next_pos (head q) = (tail q + Suc (length xs)) mod BUFSIZE"
    by (simp add: ioq_rep_def next_pos_def mod_Suc_eq)
  moreover have "tail q = (tail q + 0) mod BUFSIZE" using r by (simp add: ioq_rep_def)
  ultimately show ?thesis
    using r mod_ring_inj [of "tail q" "Suc (length xs)" BUFSIZE 0]
    by (cases "Suc (length xs) = BUFSIZE") (auto simp: ioq_full_def ioq_rep_def)
qed

lemma ioq_init_rep: "length (buf q) = BUFSIZE \<Longrightarrow> ioq_rep (ioq_init q) []"
  by (simp add: ioq_rep_def ioq_init_def)

lemma ioq_rep_waiters [simp]:
  "ioq_rep (q\<lparr>producer := p\<rparr>) xs = ioq_rep q xs" "ioq_rep (q\<lparr>consumer := c\<rparr>) xs = ioq_rep q xs"
  "ioq_rep (q\<lparr>ends := e\<rparr>) xs = ioq_rep q xs"
  by (simp_all add: ioq_rep_def)

lemma ioq_putchar_rep:
  assumes r: "ioq_rep q xs" and room: "length xs < BUFSIZE - 1"
  shows "\<exists>q'. ioq_putchar cur b q = (Done () (consumer q), q') \<and> ioq_rep q' (xs @ [b]) \<and> consumer q' = None"
proof -
  let ?h = "(tail q + length xs) mod BUFSIZE"
  have h: "head q = ?h" "?h < length (buf q)" using r by (auto simp: ioq_rep_def)
  have l: "length xs < BUFSIZE" using r by (simp add: ioq_rep_def)
  have other: "(buf q)[?h := b] ! ((tail q + i) mod BUFSIZE) = buf q ! ((tail q + i) mod BUFSIZE)"
    if "i < length xs" for i
    using mod_ring_inj [of "tail q" i BUFSIZE "length xs"] that l by (intro nth_list_update_neq) auto
  have "ioq_rep (q\<lparr>buf := (buf q)[?h := b], head := next_pos ?h\<rparr>) (xs @ [b])"
    using r room h other unfolding ioq_rep_def
    by (auto simp: next_pos_def mod_Suc_eq nth_append less_Suc_eq)
  with r room h(1) show ?thesis by (simp add: ioq_putchar_def ioq_full_rep)
qed

lemma ioq_putchar_full:
  "ioq_rep q xs \<Longrightarrow> length xs = BUFSIZE - 1 \<Longrightarrow> ioq_putchar cur b q = (Sleep, q\<lparr>producer := Some cur\<rparr>)"
  by (simp add: ioq_putchar_def ioq_full_rep)

lemma ioq_getchar_rep:
  assumes r: "ioq_rep q (x # xs)"
  shows "\<exists>q'. ioq_getchar cur q = (Done x (producer q), q') \<and> ioq_rep q' xs \<and> producer q' = None"
proof -
  have "buf q ! ((tail q + 0) mod BUFSIZE) = (x # xs) ! 0" using r unfolding ioq_rep_def by blast
  then have x: "buf q ! tail q = x" using r by (simp add: ioq_rep_def)
  have nth: "buf q ! ((tail q + Suc i) mod BUFSIZE) = xs ! i" if "i < length xs" for i
    using r that unfolding ioq_rep_def by (metis length_Cons nth_Cons_Suc Suc_less_eq)
  have "ioq_rep (q\<lparr>tail := next_pos (tail q)\<rparr>) xs"
    using r nth unfolding ioq_rep_def by (auto simp: next_pos_def mod_simps)
  with r x show ?thesis by (simp add: ioq_getchar_def ioq_empty_rep)
qed

lemma ioq_getchar_empty: "ioq_rep q [] \<Longrightarrow> ioq_getchar cur q = (Sleep, q\<lparr>consumer := Some cur\<rparr>)"
  by (simp add: ioq_getchar_def ioq_empty_rep)

section \<open>The queue contract\<close>

definition ioq_ok :: "u8 list \<Rightarrow> u8 \<Rightarrow> bool" where
  "ioq_ok xs b \<longleftrightarrow> length xs < BUFSIZE - 1"

definition ioq_put :: "nat \<Rightarrow> u8 \<Rightarrow> tty_ioqueue \<Rightarrow> tty_ioqueue" where
  "ioq_put cur b q = snd (ioq_putchar cur b q)"

definition ioq_get :: "nat \<Rightarrow> tty_ioqueue \<Rightarrow> u8 option \<times> tty_ioqueue" where
  "ioq_get cur q =
     (case ioq_getchar cur q of (Sleep, q) \<Rightarrow> (None, q) | (Done b w, q) \<Rightarrow> (Some b, q))"

interpretation ioq: fifo ioq_rep ioq_ok "ioq_put cur" "ioq_get cur" for cur
proof unfold_locales
  fix q xs b assume "ioq_rep q xs" and "ioq_ok xs b"
  then show "ioq_rep (ioq_put cur b q) (list_put b xs)"
    using ioq_putchar_rep [of q xs cur b] by (auto simp: ioq_put_def ioq_ok_def list_put_def)
next
  fix q xs assume r: "ioq_rep q xs"
  then show "ioq_rep (snd (ioq_get cur q)) (snd (list_get xs))"
    using ioq_getchar_rep [of q _ _ cur] ioq_getchar_empty [of q cur]
    by (cases xs) (fastforce simp: ioq_get_def list_get_def)+
  show "fst (ioq_get cur q) = fst (list_get xs)"
    using r ioq_getchar_rep [of q _ _ cur] ioq_getchar_empty [of q cur]
    by (cases xs) (fastforce simp: ioq_get_def list_get_def)+
qed

text \<open>
  C31. The ring buffer is a queue of at most 1023 bytes: any sequence of puts, none of which meets a
  full queue, and of gets returns the bytes in the order in which they were put, across every
  wrap-around of the two indices.
\<close>

theorem ioq_fifo:
  assumes "ioq_rep q xs" and "fifo_legal ioq_ok cs xs"
    and "fifo_run (ioq_put cur) (ioq_get cur) cs q = (rs, q')"
  shows "\<exists>ys. ioq_rep q' ys \<and> fifo_run list_put list_get cs xs = (rs, ys)"
  using assms by (rule ioq.run_refines)

theorem ioq_fifo_witness:
  "\<exists>ys. ioq_rep (snd (fifo_run (ioq_put 1) (ioq_get 1) [Put 65, Put 66, Get, Put 67, Get]
      (ioq_init \<lparr>producer = None, consumer = None, ends = 2, buf = replicate BUFSIZE 0, head = 5, tail = 9\<rparr>))) ys \<and>
     ([Some 65, Some 66], [67]) =
       (fst (fifo_run (ioq_put 1) (ioq_get 1) [Put 65, Put 66, Get, Put 67, Get]
          (ioq_init \<lparr>producer = None, consumer = None, ends = 2, buf = replicate BUFSIZE 0, head = 5, tail = 9\<rparr>)), ys)"
proof -
  let ?q = "ioq_init \<lparr>producer = None, consumer = None, ends = 2, buf = replicate BUFSIZE 0, head = 5, tail = 9\<rparr>"
  have "ioq_rep ?q []" by (rule ioq_init_rep) simp
  moreover have "fifo_legal ioq_ok [Put 65, Put 66, Get, Put 67, Get] []"
    by (simp add: ioq_ok_def list_put_def list_get_def BUFSIZE_def)
  ultimately obtain ys where
    "ioq_rep (snd (fifo_run (ioq_put 1) (ioq_get 1) [Put 65, Put 66, Get, Put 67, Get] ?q)) ys"
    "fifo_run list_put list_get [Put 65, Put 66, Get, Put 67, Get] [] =
      (fst (fifo_run (ioq_put 1) (ioq_get 1) [Put 65, Put 66, Get, Put 67, Get] ?q), ys)"
    using ioq_fifo [OF _ _ prod.collapse [symmetric]] by blast
  moreover have "fifo_run list_put list_get [Put 65, Put 66, Get, Put 67, Get] [] = ([Some 65, Some 66], [67 :: u8])"
    by (simp add: list_put_def list_get_def)
  ultimately show ?thesis by auto
qed

end
