(* ===== verification/Pipe.thy ===== *)
theory Pipe
  imports FileTable Ioqueue
begin

text \<open>
  Pipes, \<open>kernel/shell/pipe.c\<close>. A pipe is a page that holds a \<open>struct TTY_IOQUEUE\<close>, shared by two
  entries of the open-file table: \<open>fd_inode\<close> of both is the address of the page, and \<open>fd_flag\<close> tells
  the reading end from the writing end. The page that \<open>get_kernel_pages\<close> hands out is an argument of
  \<open>sys_pipe\<close> (0 when there is none), and \<open>kpages\<close> is the set of pages the pipes hold.
\<close>

section \<open>Model\<close>

definition PIPE_FLAG :: u32 where
  "PIPE_FLAG = 0xFFFF"

definition PIPE_RD_FLAG :: u32 where
  "PIPE_RD_FLAG = 0xFFFD"

record pipes =
  fs :: files
  ioqs :: "nat \<Rightarrow> tty_ioqueue"
  kpages :: "nat set"

definition pipe_file :: "nat \<Rightarrow> pipes \<Rightarrow> kfile option" where
  "pipe_file local_fd p =
     (case file_get (fd_local2global local_fd (fs p)) (fs p) of
        None \<Rightarrow> None
      | Some i \<Rightarrow>
          (let file = file_table (fs p) ! i in
           if fd_inode file = 0 then None
           else if fd_flag file \<noteq> PIPE_FLAG \<and> fd_flag file \<noteq> PIPE_RD_FLAG then None
           else Some file))"

definition is_pipe :: "nat \<Rightarrow> pipes \<Rightarrow> bool" where
  "is_pipe local_fd p \<longleftrightarrow> pipe_file local_fd p \<noteq> None"

definition pipe_is_read_end :: "nat \<Rightarrow> pipes \<Rightarrow> bool" where
  "pipe_is_read_end local_fd p \<longleftrightarrow>
     (case pipe_file local_fd p of None \<Rightarrow> False | Some file \<Rightarrow> fd_flag file = PIPE_RD_FLAG)"

definition pipe_buffered :: "nat \<Rightarrow> pipes \<Rightarrow> nat" where
  "pipe_buffered local_fd p =
     (case pipe_file local_fd p of None \<Rightarrow> 0 | Some file \<Rightarrow> ioq_length (ioqs p (fd_inode file)))"

definition pipe_end :: "u32 \<Rightarrow> nat \<Rightarrow> int \<Rightarrow> kfile \<Rightarrow> kfile" where
  "pipe_end flag page peer f =
     f\<lparr>fd_flag := flag, ref_cnt := 1, fd_inode := page, fd_pos := 0, proc_aux := word_of_int peer\<rparr>"

text \<open>\<open>sys_pipe page p\<close> returns the status, the two entries of \<open>pipefd\<close> when they were written, and the
  new state.\<close>

definition sys_pipe :: "nat \<Rightarrow> pipes \<Rightarrow> int \<times> (int \<times> int) option \<times> pipes" where
  "sys_pipe page p =
     (let (rd_g, f) = file_table_alloc_slot (fs p) in
      if rd_g = -1 then (-1, None, p\<lparr>fs := f\<rparr>)
      else
        (let (wr_g, f) = file_table_alloc_slot f in
         if wr_g = -1 then (-1, None, p\<lparr>fs := file_table_free_slot rd_g f\<rparr>)
         else if page = 0 then
           (-1, None, p\<lparr>fs := file_table_free_slot wr_g (file_table_free_slot rd_g f)\<rparr>)
         else
           (let q = (ioq_init (ioqs p page))\<lparr>ends := 2\<rparr>;
                f = upd_file (nat rd_g) (pipe_end PIPE_RD_FLAG page wr_g) f;
                f = upd_file (nat wr_g) (pipe_end PIPE_FLAG page rd_g) f;
                (fd0, f) = fd_install (word_of_int rd_g) f;
                (fd1, f) = fd_install (word_of_int wr_g) f;
                p = p\<lparr>ioqs := (ioqs p)(page := q), kpages := insert page (kpages p)\<rparr>
            in if fd0 = -1 \<or> fd1 = -1 then
                 (let f = (if fd0 \<noteq> -1 then snd (fd_release (nat fd0) f) else f);
                      f = (if fd1 \<noteq> -1 then snd (fd_release (nat fd1) f) else f);
                      f = file_table_free_slot wr_g (file_table_free_slot rd_g f)
                  in (-1, Some (fd0, fd1), p\<lparr>fs := f, kpages := kpages p - {page}\<rparr>))
               else (0, Some (fd0, fd1), p\<lparr>fs := f\<rparr>))))"

definition pipe_task_live :: "task \<Rightarrow> bool" where
  "pipe_task_live t \<longleftrightarrow> slot_used t \<and> \<not> (status t = TASK_DIED \<or> status t = TASK_HANGING)"

definition pipe_end_alive :: "u32 \<Rightarrow> files \<Rightarrow> bool" where
  "pipe_end_alive global_fd f \<longleftrightarrow>
     list_ex (\<lambda>t. pipe_task_live t \<and> list_ex (\<lambda>g. g = global_fd) (fd_table t)) (task_table f)"

text \<open>The loop of \<open>pipe_read\<close>. \<open>None\<close> means that a byte was missing and the caller blocks; the list
  of the tasks woken by the reads is returned with the bytes.\<close>

primrec pipe_read_loop :: "nat \<Rightarrow> nat \<Rightarrow> tty_ioqueue \<Rightarrow> (u8 list \<times> nat list \<times> tty_ioqueue) option" where
  "pipe_read_loop cur 0 ioq = Some ([], [], ioq)"
| "pipe_read_loop cur (Suc n) ioq =
     (case ioq_getchar cur ioq of
        (Sleep, ioq) \<Rightarrow> None
      | (Done b w, ioq) \<Rightarrow>
          (case pipe_read_loop cur n ioq of
             None \<Rightarrow> None
           | Some (bs, ws, ioq) \<Rightarrow> Some (b # bs, (case w of None \<Rightarrow> ws | Some t \<Rightarrow> t # ws), ioq)))"

definition pipe_read_queue :: "nat \<Rightarrow> nat \<Rightarrow> tty_ioqueue \<Rightarrow> (u8 list \<times> nat list \<times> tty_ioqueue) option" where
  "pipe_read_queue cur count ioq =
     (let ioq_len = ioq_length ioq; size = (if ioq_len > count then count else ioq_len)
      in pipe_read_loop cur size ioq)"

datatype 'a io_result = IO_error | IO_block | IO_ok 'a

definition pipe_read :: "nat \<Rightarrow> nat \<Rightarrow> pipes \<Rightarrow> (u8 list) io_result \<times> nat list \<times> pipes" where
  "pipe_read fd count p =
     (case pipe_file fd p of
        None \<Rightarrow> (IO_error, [], p)
      | Some file \<Rightarrow>
          if fd_flag file \<noteq> PIPE_RD_FLAG then (IO_error, [], p)
          else
            (case pipe_read_queue (current (fs p)) count (ioqs p (fd_inode file)) of
               None \<Rightarrow> (IO_block, [], p)
             | Some (bs, ws, q) \<Rightarrow> (IO_ok bs, ws, p\<lparr>ioqs := (ioqs p)(fd_inode file := q)\<rparr>)))"

text \<open>One pass of the loop of \<open>pipe_write\<close>: the call returns, sleeps for a tick, or goes on after
  writing a byte.\<close>

datatype write_pass = W_return "nat option" | W_sleep | W_again nat

definition pipe_write_pass :: "nat \<Rightarrow> bool \<Rightarrow> u8 list \<Rightarrow> nat \<Rightarrow> tty_ioqueue \<Rightarrow> write_pass \<times> tty_ioqueue" where
  "pipe_write_pass cur peer_alive buffer bytes_write ioq =
     (if bytes_write < length buffer then
        (if ioq_length ioq \<ge> BUFSIZE - 1 then
           (if \<not> peer_alive then (W_return (if bytes_write \<noteq> 0 then Some bytes_write else None), ioq)
            else (W_sleep, ioq))
         else
           (case ioq_putchar cur (buffer ! bytes_write) ioq of
              (Sleep, ioq) \<Rightarrow> (W_sleep, ioq)
            | (Done u w, ioq) \<Rightarrow> (W_again (bytes_write + 1), ioq)))
      else (W_return (Some bytes_write), ioq))"

text \<open>The passes of \<open>pipe_write\<close> up to the first one that sleeps or returns.\<close>

function pipe_write_burst :: "nat \<Rightarrow> bool \<Rightarrow> u8 list \<Rightarrow> nat \<Rightarrow> tty_ioqueue \<Rightarrow> (nat option + nat) \<times> tty_ioqueue" where
  "pipe_write_burst cur alive buffer bw ioq =
     (case pipe_write_pass cur alive buffer bw ioq of
        (W_return r, ioq) \<Rightarrow> (Inl r, ioq)
      | (W_sleep, ioq) \<Rightarrow> (Inr bw, ioq)
      | (W_again bw', ioq) \<Rightarrow> pipe_write_burst cur alive buffer bw' ioq)"
  by pat_completeness auto
termination
  by (relation "measure (\<lambda>(cur, alive, buffer, bw, ioq). length buffer - bw)")
     (auto simp: pipe_write_pass_def split: if_splits prod.splits pass.splits)

declare pipe_write_burst.simps [simp del]

definition pipe_write :: "nat \<Rightarrow> u8 list \<Rightarrow> nat \<Rightarrow> pipes \<Rightarrow> (nat option + nat) \<times> pipes" where
  "pipe_write fd buffer bw p =
     (case pipe_file fd p of
        None \<Rightarrow> (Inl None, p)
      | Some file \<Rightarrow>
          if fd_flag file \<noteq> PIPE_FLAG then (Inl None, p)
          else
            (let (r, q) = pipe_write_burst (current (fs p)) (pipe_end_alive (proc_aux file) (fs p)) buffer bw
                            (ioqs p (fd_inode file))
             in (r, p\<lparr>ioqs := (ioqs p)(fd_inode file := q)\<rparr>)))"

definition sys_fd_redirect :: "nat \<Rightarrow> nat \<Rightarrow> files \<Rightarrow> files" where
  "sys_fd_redirect old_local_fd new_local_fd f =
     (if new_local_fd < 3 then
        upd_task (current f) (\<lambda>t. t\<lparr>fd_table := (fd_table t)[old_local_fd := of_nat new_local_fd]\<rparr>) f
      else
        (let new_global_fd = fd_table (task_table f ! current f) ! new_local_fd
         in upd_task (current f) (\<lambda>t. t\<lparr>fd_table := (fd_table t)[old_local_fd := new_global_fd]\<rparr>) f))"

section \<open>Reading and writing\<close>

lemma pipe_read_loop_rep:
  "ioq_rep q (bs @ rest) \<Longrightarrow>
   \<exists>ws q'. pipe_read_loop cur (length bs) q = Some (bs, ws, q') \<and> ioq_rep q' rest"
proof (induction bs arbitrary: q)
  case (Cons b bs)
  then obtain q1 where g: "ioq_getchar cur q = (Done b (producer q), q1)" and r: "ioq_rep q1 (bs @ rest)"
    using ioq_getchar_rep [of q b "bs @ rest" cur] by auto
  from Cons.IH [OF r] obtain ws q' where "pipe_read_loop cur (length bs) q1 = Some (bs, ws, q')" "ioq_rep q' rest"
    by blast
  with g show ?case by simp
qed simp

lemma pipe_read_queue_rep:
  "ioq_rep q xs \<Longrightarrow>
   \<exists>ws q'. pipe_read_queue cur count q = Some (take count xs, ws, q') \<and> ioq_rep q' (drop count xs)"
proof -
  assume r: "ioq_rep q xs"
  have "(if ioq_length q > count then count else ioq_length q) = length (take count xs)"
    using ioq_length_rep [OF r] by auto
  then show ?thesis
    using pipe_read_loop_rep [of q "take count xs" "drop count xs" cur] r
    by (simp add: pipe_read_queue_def del: length_take)
qed

lemma pipe_write_pass_rep:
  assumes "ioq_rep q xs" and "pipe_write_pass cur alive data bw q = (r, q')"
  shows "(\<exists>v. r = W_return v) \<and> q' = q \<or> r = W_sleep \<and> q' = q \<or>
    bw < length data \<and> r = W_again (bw + 1) \<and> ioq_rep q' (xs @ [data ! bw])"
proof -
  consider "\<not> bw < length data \<or> length xs \<ge> BUFSIZE - 1" | "bw < length data" "length xs < BUFSIZE - 1"
    by linarith
  then show ?thesis
  proof cases
    case 1
    with assms show ?thesis by (auto simp: pipe_write_pass_def ioq_length_rep split: if_splits)
  next
    case 2
    with assms ioq_putchar_rep [OF assms(1) 2(2), of cur "data ! bw"] show ?thesis
      by (auto simp: pipe_write_pass_def ioq_length_rep)
  qed
qed

text \<open>One writer and any readers on one pipe: the writer makes its passes, the readers call
  \<open>pipe_read\<close> with any count at any time. \<open>sent\<close> counts the bytes the writer has put, \<open>got\<close>
  collects the bytes the readers received.\<close>

record pipe_run =
  queue :: tty_ioqueue
  sent :: nat
  got :: "u8 list"

inductive pipe_step :: "u8 list \<Rightarrow> pipe_run \<Rightarrow> pipe_run \<Rightarrow> bool" for data where
  w_put: "pipe_write_pass cur alive data (sent s) (queue s) = (W_again n, q) \<Longrightarrow>
    pipe_step data s (s\<lparr>queue := q, sent := n\<rparr>)"
| w_wait: "pipe_write_pass cur alive data (sent s) (queue s) = (W_sleep, q) \<Longrightarrow>
    pipe_step data s (s\<lparr>queue := q\<rparr>)"
| r_take: "pipe_read_queue cur count (queue s) = Some (bs, ws, q) \<Longrightarrow>
    pipe_step data s (s\<lparr>queue := q, got := got s @ bs\<rparr>)"

definition pipe_stream :: "u8 list \<Rightarrow> pipe_run \<Rightarrow> bool" where
  "pipe_stream data s \<longleftrightarrow>
     sent s \<le> length data \<and> (\<exists>ys. ioq_rep (queue s) ys \<and> got s @ ys = take (sent s) data)"

lemma pipe_step_stream:
  assumes "pipe_step data s s'" and "pipe_stream data s"
  shows "pipe_stream data s'"
proof -
  obtain ys where ys: "ioq_rep (queue s) ys" "got s @ ys = take (sent s) data" "sent s \<le> length data"
    using assms(2) by (auto simp: pipe_stream_def)
  show ?thesis
    using assms(1)
  proof cases
    case (w_put cur alive n q)
    with pipe_write_pass_rep [OF ys(1), of cur alive data "sent s"]
    have "sent s < length data" "n = sent s + 1" "ioq_rep q (ys @ [data ! sent s])" by auto
    with ys w_put(1) show ?thesis
      by (auto simp: pipe_stream_def take_Suc_conv_app_nth simp flip: append_assoc
          intro!: exI [of _ "ys @ [data ! sent s]"])
  next
    case (w_wait cur alive q)
    with pipe_write_pass_rep [OF ys(1), of cur alive data "sent s"] ys show ?thesis
      by (auto simp: pipe_stream_def)
  next
    case (r_take cur count bs ws q)
    with pipe_read_queue_rep [OF ys(1), of cur count]
    have "bs = take count ys" "ioq_rep q (drop count ys)" by auto
    with ys r_take(1) show ?thesis
      by (auto simp: pipe_stream_def intro!: exI [of _ "drop count ys"])
  qed
qed

text \<open>
  C8. A pipe delivers the bytes of the writer unchanged and in order. In every state that the passes
  of \<open>pipe_write\<close> and any calls of \<open>pipe_read\<close> reach from an empty pipe, the bytes received by the
  readers followed by the bytes still in the ring are exactly the first \<open>sent\<close> bytes of the data.
\<close>

theorem pipe_delivers:
  assumes "(pipe_step data)\<^sup>*\<^sup>* \<lparr>queue = q, sent = 0, got = []\<rparr> s" and "ioq_rep q []"
  shows "sent s \<le> length data \<and> (\<exists>ys. ioq_rep (queue s) ys \<and> got s @ ys = take (sent s) data)"
proof -
  have "pipe_stream data s"
    using assms(1)
  proof (induction rule: rtranclp_induct)
    case base
    then show ?case using assms(2) by (simp add: pipe_stream_def)
  qed (rule pipe_step_stream)
  then show ?thesis by (simp add: pipe_stream_def)
qed


definition pipe_queue0 :: tty_ioqueue where
  "pipe_queue0 = \<lparr>producer = None, consumer = None, ends = 2, buf = replicate BUFSIZE 0, head = 0, tail = 0\<rparr>"

lemma pipe_queue0_rep: "ioq_rep pipe_queue0 []"
  by (simp add: pipe_queue0_def ioq_rep_def)

lemma pipe_step_write:
  assumes "ioq_rep (queue s) xs" and "sent s < length data" and "length xs < BUFSIZE - 1"
  shows "\<exists>q. pipe_step data s (s\<lparr>queue := q, sent := sent s + 1\<rparr>) \<and> ioq_rep q (xs @ [data ! sent s])"
proof -
  obtain q where "ioq_putchar 1 (data ! sent s) (queue s) = (Done () (consumer (queue s)), q)" "ioq_rep q (xs @ [data ! sent s])"
    using ioq_putchar_rep [OF assms(1,3)] by blast
  moreover from this have "pipe_write_pass 1 True data (sent s) (queue s) = (W_again (sent s + 1), q)"
    using assms by (simp add: pipe_write_pass_def ioq_length_rep)
  ultimately show ?thesis using w_put by blast
qed

theorem pipe_delivers_witness:
  "\<exists>s. (pipe_step [104, 105])\<^sup>*\<^sup>* \<lparr>queue = pipe_queue0, sent = 0, got = []\<rparr> s \<and> sent s = 2 \<and> got s = [104] \<and>
     (\<exists>ys. ioq_rep (queue s) ys \<and> [104] @ ys = take 2 [104, 105])"
proof -
  let ?s0 = "\<lparr>queue = pipe_queue0, sent = 0, got = []\<rparr>" and ?d = "[104, 105] :: u8 list"
  have B: "0 < BUFSIZE - 1" "1 < BUFSIZE - 1" "Suc 0 < BUFSIZE" by (simp_all add: BUFSIZE_def)
  obtain q1 where q1: "pipe_step ?d ?s0 (?s0\<lparr>queue := q1, sent := 1\<rparr>)" "ioq_rep q1 [104]"
    using pipe_step_write [of ?s0 "[]" ?d] B pipe_queue0_rep by auto
  obtain q2 where q2: "pipe_step ?d (?s0\<lparr>queue := q1, sent := 1\<rparr>) (?s0\<lparr>queue := q2, sent := 2\<rparr>)" "ioq_rep q2 [104, 105]"
    using pipe_step_write [of "?s0\<lparr>queue := q1, sent := 1\<rparr>" "[104]" ?d] B q1(2) by (auto simp: numeral_2_eq_2)
  obtain ws q3 where q3: "pipe_read_queue 2 1 q2 = Some ([104], ws, q3)"
    using pipe_read_queue_rep [OF q2(2), of 2 1] by auto
  have "pipe_step ?d (?s0\<lparr>queue := q2, sent := 2\<rparr>) (?s0\<lparr>queue := q3, sent := 2, got := [104]\<rparr>)"
    using r_take [of 2 1 "?s0\<lparr>queue := q2, sent := 2\<rparr>" "[104]" ws q3 ?d] q3 by simp
  with q1(1) q2(1) have "(pipe_step ?d)\<^sup>*\<^sup>* ?s0 (?s0\<lparr>queue := q3, sent := 2, got := [104]\<rparr>)"
    by (meson converse_rtranclp_into_rtranclp r_into_rtranclp)
  from this pipe_delivers [OF this pipe_queue0_rep] show ?thesis
    by (intro exI [of _ "?s0\<lparr>queue := q3, sent := 2, got := [104]\<rparr>"]) simp
qed

section \<open>Creating a pipe\<close>

lemma unat_word_of_slot [simp]: "idx < MAX_FILE_OPEN \<Longrightarrow> unat (word_of_nat idx :: u32) = idx"
  by (simp add: MAX_FILE_OPEN_def unat_of_nat take_bit_nat_eq_self)

lemma free_two_slots:
  assumes "files_wf s" and "r < MAX_FILE_OPEN" and "w < MAX_FILE_OPEN"
  shows "slot_in_use (file_slot_used (file_table_free_slot (int w) (file_table_free_slot (int r) s))) j \<longleftrightarrow>
    j \<noteq> w \<and> j \<noteq> r \<and> slot_in_use (file_slot_used s) j"
  using assms by (simp add: file_table_free_slot_in_use)

text \<open>What a failed call leaves: the slots in use, the descriptors of the caller and the pages held
  by pipes are those of the state before.\<close>

definition pipe_same :: "pipes \<Rightarrow> pipes \<Rightarrow> bool" where
  "pipe_same p p' \<longleftrightarrow>
     (\<forall>j. slot_in_use (file_slot_used (fs p')) j = slot_in_use (file_slot_used (fs p)) j) \<and>
     (\<forall>i. fd_local2global i (fs p') = fd_local2global i (fs p)) \<and> kpages p' = kpages p"

definition pipe_made :: "nat \<Rightarrow> nat \<Rightarrow> nat \<Rightarrow> pipes \<Rightarrow> pipes \<Rightarrow> bool" where
  "pipe_made page a b p p' \<longleftrightarrow>
     3 \<le> a \<and> a < b \<and> b < MAX_FILES_OPEN_PER_PROC \<and> fd_local2global a (fs p) = - 1 \<and> fd_local2global b (fs p) = - 1 \<and>
     (\<exists>rf wf. pipe_file a p' = Some rf \<and> fd_flag rf = PIPE_RD_FLAG \<and> fd_inode rf = page \<and>
        proc_aux rf = fd_local2global b (fs p') \<and> pipe_file b p' = Some wf \<and> fd_flag wf = PIPE_FLAG \<and>
        fd_inode wf = page \<and> proc_aux wf = fd_local2global a (fs p')) \<and>
     (\<forall>i. i \<noteq> a \<and> i \<noteq> b \<longrightarrow> fd_local2global i (fs p') = fd_local2global i (fs p)) \<and>
     ioq_rep (ioqs p' page) [] \<and> page \<in> kpages p'"


text \<open>An installed descriptor that is released again: the descriptors and slots are as before.\<close>

definition fd_undo :: "int \<Rightarrow> files \<Rightarrow> files" where
  "fd_undo r s = (if r \<noteq> -1 then snd (fd_release (nat r) s) else s)"

lemma install_cases:
  assumes "files_wf s" and "fd_install g s = (r, s')" and "g \<noteq> - 1"
  shows "files_wf s' \<and> file_table s' = file_table s \<and> file_slot_used s' = file_slot_used s \<and>
    (r = -1 \<and> s' = s \<and> (\<forall>i. 3 \<le> i \<and> i < MAX_FILES_OPEN_PER_PROC \<longrightarrow> fd_local2global i s \<noteq> - 1) \<or>
     (\<exists>fd. r = int fd \<and> 3 \<le> fd \<and> fd < MAX_FILES_OPEN_PER_PROC \<and> fd_local2global fd s = - 1 \<and>
       (\<forall>i. 3 \<le> i \<and> i < fd \<longrightarrow> fd_local2global i s \<noteq> - 1) \<and>
       (\<forall>i. fd_local2global i s' = (if i = fd then g else fd_local2global i s))))"
proof -
  have i: "fd_install_from g 3 s = (r, s')" using assms(2) by (simp add: fd_install_def)
  show ?thesis
    using assms(1) i
  proof (cases rule: fd_install_cases)
    case full
    with assms(1) show ?thesis by auto
  next
    case (slot fd)
    then have "file_table s' = file_table s" "file_slot_used s' = file_slot_used s" by simp_all
    with slot show ?thesis by auto
  qed
qed

lemma fd_undo_spec:
  assumes "files_wf s" and "r = -1 \<or> (\<exists>fd < MAX_FILES_OPEN_PER_PROC. r = int fd)"
  shows "fd_local2global i (fd_undo r s) = (if int i = r then - 1 else fd_local2global i s) \<and>
    files_wf (fd_undo r s) \<and> file_slot_used (fd_undo r s) = file_slot_used s"
  using assms fd_release_spec [OF assms(1)] by (auto simp: fd_undo_def)

lemma install_two:
  assumes wf: "files_wf s" and i0: "fd_install g0 s = (fd0, s1)" and i1: "fd_install g1 s1 = (fd1, s2)"
    and g: "g0 \<noteq> - 1" "g1 \<noteq> - 1"
  shows "files_wf s2 \<and> file_table s2 = file_table s \<and> file_slot_used s2 = file_slot_used s"
    and "fd0 = -1 \<or> fd1 = -1 \<Longrightarrow> files_wf (fd_undo fd1 (fd_undo fd0 s2)) \<and>
      file_slot_used (fd_undo fd1 (fd_undo fd0 s2)) = file_slot_used s \<and>
      fd_local2global i (fd_undo fd1 (fd_undo fd0 s2)) = fd_local2global i s"
    and "fd0 \<noteq> -1 \<Longrightarrow> fd1 \<noteq> -1 \<Longrightarrow> \<exists>a b. fd0 = int a \<and> fd1 = int b \<and> 3 \<le> a \<and> a < b \<and> b < MAX_FILES_OPEN_PER_PROC \<and>
      fd_local2global a s = - 1 \<and> fd_local2global b s = - 1 \<and>
      (\<forall>i. fd_local2global i s2 = (if i = a then g0 else if i = b then g1 else fd_local2global i s))"
proof -
  note c0 = install_cases [OF wf i0 g(1)]
  then have wf1: "files_wf s1" by blast
  note c1 = install_cases [OF wf1 i1 g(2)]
  show w2: "files_wf s2 \<and> file_table s2 = file_table s \<and> file_slot_used s2 = file_slot_used s"
    using c0 c1 by auto
  have r0: "fd0 = -1 \<or> (\<exists>fd < MAX_FILES_OPEN_PER_PROC. fd0 = int fd)"
    and r1: "fd1 = -1 \<or> (\<exists>fd < MAX_FILES_OPEN_PER_PROC. fd1 = int fd)" using c0 c1 by auto
  have u0: "files_wf (fd_undo fd0 s2)" and u: "file_slot_used (fd_undo fd1 (fd_undo fd0 s2)) = file_slot_used s"
    "files_wf (fd_undo fd1 (fd_undo fd0 s2))"
    "fd_local2global i (fd_undo fd1 (fd_undo fd0 s2)) =
     (if int i = fd1 then - 1 else if int i = fd0 then - 1 else fd_local2global i s2)" for i
    using fd_undo_spec [OF _ r0, of s2] fd_undo_spec [OF _ r1, of "fd_undo fd0 s2"] w2 by auto
  show "fd0 = -1 \<or> fd1 = -1 \<Longrightarrow> files_wf (fd_undo fd1 (fd_undo fd0 s2)) \<and>
      file_slot_used (fd_undo fd1 (fd_undo fd0 s2)) = file_slot_used s \<and>
      fd_local2global i (fd_undo fd1 (fd_undo fd0 s2)) = fd_local2global i s"
    using c0 c1 u by auto
  show "fd0 \<noteq> -1 \<Longrightarrow> fd1 \<noteq> -1 \<Longrightarrow> \<exists>a b. fd0 = int a \<and> fd1 = int b \<and> 3 \<le> a \<and> a < b \<and> b < MAX_FILES_OPEN_PER_PROC \<and>
      fd_local2global a s = - 1 \<and> fd_local2global b s = - 1 \<and>
      (\<forall>i. fd_local2global i s2 = (if i = a then g0 else if i = b then g1 else fd_local2global i s))"
  proof -
    assume n: "fd0 \<noteq> -1" "fd1 \<noteq> -1"
    obtain a where a: "fd0 = int a" "3 \<le> a" "fd_local2global a s = - 1"
      "\<And>i. 3 \<le> i \<Longrightarrow> i < a \<Longrightarrow> fd_local2global i s \<noteq> - 1"
      "\<And>i. fd_local2global i s1 = (if i = a then g0 else fd_local2global i s)" using c0 n by auto
    obtain b where b: "fd1 = int b" "3 \<le> b" "b < MAX_FILES_OPEN_PER_PROC" "fd_local2global b s1 = - 1"
      "\<And>i. fd_local2global i s2 = (if i = b then g1 else fd_local2global i s1)" using c1 n by auto
    have "b \<noteq> a" using b(4) a(5) g(1) by auto
    then have "fd_local2global b s = - 1" using b(4) a(5) by simp
    with a(4) [of b] b(2) \<open>b \<noteq> a\<close> have "a < b" by (meson linorder_neqE_nat)
    with a b \<open>fd_local2global b s = - 1\<close> \<open>b \<noteq> a\<close> show ?thesis by (intro exI [of _ a] exI [of _ b]) auto
  qed
qed


lemma slot_word_neq: "idx < MAX_FILE_OPEN \<Longrightarrow> (word_of_int (int idx) :: u32) \<noteq> - 1"
proof
  assume "idx < MAX_FILE_OPEN" and "(word_of_int (int idx) :: u32) = - 1"
  then have "idx = unat (- 1 :: u32)" using unat_word_of_slot [of idx] by simp
  with \<open>idx < MAX_FILE_OPEN\<close> show False by (simp add: MAX_FILE_OPEN_def unsigned_minus_1_eq_mask mask_eq_exp_minus_1)
qed

text \<open>The second half of \<open>sys_pipe\<close>, once both slots and the page are there.\<close>

definition pipe_connect :: "nat \<Rightarrow> nat \<Rightarrow> nat \<Rightarrow> files \<Rightarrow> files" where
  "pipe_connect r w page f =
     upd_file w (pipe_end PIPE_FLAG page (int r)) (upd_file r (pipe_end PIPE_RD_FLAG page (int w)) f)"

lemma sys_pipe_eq:
  assumes "file_table_alloc_slot (fs p) = (int r, f1)" and "file_table_alloc_slot f1 = (int w, f2)" and "page \<noteq> 0"
    and "fd_install (word_of_int (int r)) (pipe_connect r w page f2) = (fd0, f5)"
    and "fd_install (word_of_int (int w)) f5 = (fd1, f6)"
  shows "sys_pipe page p =
    (let p' = p\<lparr>ioqs := (ioqs p)(page := (ioq_init (ioqs p page))\<lparr>ends := 2\<rparr>), kpages := insert page (kpages p)\<rparr> in
     if fd0 = -1 \<or> fd1 = -1 then
       (-1, Some (fd0, fd1), p'\<lparr>fs := file_table_free_slot (int w) (file_table_free_slot (int r) (fd_undo fd1 (fd_undo fd0 f6))),
         kpages := kpages p' - {page}\<rparr>)
     else (0, Some (fd0, fd1), p'\<lparr>fs := f6\<rparr>))"
  using assms by (simp add: sys_pipe_def pipe_connect_def fd_undo_def Let_def)

lemma pipe_connect_files:
  assumes "files_wf f" and "r < MAX_FILE_OPEN" and "w < MAX_FILE_OPEN" and "r \<noteq> w"
  shows "file_table (pipe_connect r w page f) ! r = pipe_end PIPE_RD_FLAG page (int w) (file_table f ! r)"
    and "file_table (pipe_connect r w page f) ! w = pipe_end PIPE_FLAG page (int r) (file_table f ! w)"
  using assms by (simp_all add: pipe_connect_def upd_file_def files_wf_def)

lemma pipe_made_intro:
  assumes wf: "files_wf f" and rw: "r < MAX_FILE_OPEN" "w < MAX_FILE_OPEN" "r \<noteq> w" and page: "page \<noteq> 0"
    and ab: "3 \<le> a" "a < b" "b < MAX_FILES_OPEN_PER_PROC" "fd_local2global a (fs p) = - 1" "fd_local2global b (fs p) = - 1"
    and l: "\<And>i. fd_local2global i (fs p') = (if i = a then word_of_int (int r) else if i = b then word_of_int (int w)
               else fd_local2global i (fs p))"
    and ft: "file_table (fs p') = file_table (pipe_connect r w page f)"
    and q: "ioq_rep (ioqs p' page) []" "page \<in> kpages p'"
  shows "pipe_made page a b p p'"
proof -
  note c = pipe_connect_files [OF wf rw, of page]
  have "pipe_file a p' = Some (pipe_end PIPE_RD_FLAG page (int w) (file_table f ! r))"
    using rw(1) page by (simp add: pipe_file_def file_get_def l ft Let_def c(1)) (simp add: pipe_end_def)
  moreover have "pipe_file b p' = Some (pipe_end PIPE_FLAG page (int r) (file_table f ! w))"
    using rw(2) page ab(2) by (simp add: pipe_file_def file_get_def l ft Let_def c(2)) (simp add: pipe_end_def)
  ultimately show ?thesis
    using ab q by (simp add: pipe_made_def l) (simp add: pipe_end_def)
qed

text \<open>Both slots are reserved and the page is there: the installation of the descriptors decides.\<close>

lemma sys_pipe_connected:
  assumes al: "file_table_alloc_slot (fs p) = (int r, f1)" "file_table_alloc_slot f1 = (int w, f2)"
    and page: "page \<noteq> 0" "length (buf (ioqs p page)) = BUFSIZE" "page \<notin> kpages p"
    and wf: "files_wf f2" and rw: "r < MAX_FILE_OPEN" "w < MAX_FILE_OPEN" "r \<noteq> w"
    and l2: "\<And>i. fd_local2global i f2 = fd_local2global i (fs p)"
    and free2: "\<And>f j. files_wf f \<Longrightarrow> file_slot_used f = file_slot_used f2 \<Longrightarrow>
      slot_in_use (file_slot_used (file_table_free_slot (int w) (file_table_free_slot (int r) f))) j =
      slot_in_use (file_slot_used (fs p)) j"
    and run: "sys_pipe page p = (res, pf, p')"
  shows "res = -1 \<and> pipe_same p p' \<or> (\<exists>a b. res = 0 \<and> pf = Some (int a, int b) \<and> pipe_made page a b p p')"
proof -
  let ?c = "pipe_connect r w page f2"
  obtain fd0 f5 where i0: "fd_install (word_of_int (int r)) ?c = (fd0, f5)" by fastforce
  obtain fd1 f6 where i1: "fd_install (word_of_int (int w)) f5 = (fd1, f6)" by fastforce
  have cwf: "files_wf ?c" and cu: "file_slot_used ?c = file_slot_used f2"
    and cl: "fd_local2global i ?c = fd_local2global i (fs p)" for i
    using wf l2 by (simp_all add: pipe_connect_def)
  note two = install_two [OF cwf i0 i1 slot_word_neq [OF rw(1)] slot_word_neq [OF rw(2)]]
  note eq = sys_pipe_eq [OF al page(1) i0 i1]
  show ?thesis
  proof (cases "fd0 = -1 \<or> fd1 = -1")
    case True
    let ?f = "fd_undo fd1 (fd_undo fd0 f6)"
    have u: "files_wf ?f" "file_slot_used ?f = file_slot_used f2" "fd_local2global i ?f = fd_local2global i (fs p)" for i
      using two(2) [OF True] cu cl by simp_all
    from True eq run have "res = -1" "fs p' = file_table_free_slot (int w) (file_table_free_slot (int r) ?f)"
      "kpages p' = insert page (kpages p) - {page}" by (auto simp: Let_def)
    with free2 [OF u(1,2)] u(3) page(3) show ?thesis by (auto simp: pipe_same_def)
  next
    case False
    with two(3) obtain a b where ab: "fd0 = int a" "fd1 = int b" "3 \<le> a" "a < b" "b < MAX_FILES_OPEN_PER_PROC"
      "fd_local2global a ?c = - 1" "fd_local2global b ?c = - 1"
      "\<And>i. fd_local2global i f6 = (if i = a then word_of_int (int r) else if i = b then word_of_int (int w)
         else fd_local2global i ?c)" by blast
    from False eq run have res: "res = 0" "pf = Some (int a, int b)" "fs p' = f6"
      "ioqs p' page = (ioq_init (ioqs p page))\<lparr>ends := 2\<rparr>" "page \<in> kpages p'" by (auto simp: Let_def ab)
    have "pipe_made page a b p p'"
      by (rule pipe_made_intro [OF wf rw page(1)])
         (use ab cl two(1) res ioq_init_rep [OF page(2)] in simp_all)
    with res show ?thesis by blast
  qed
qed

text \<open>
  C29. \<open>sys_pipe\<close> either makes a pipe or changes nothing that matters. On success the caller has two new
  descriptors, the reading end below the writing end; both refer to the page of the new pipe, each
  records the other as its peer, the pipe is empty, and no other descriptor changes. On failure,
  whichever resource ran out, the slots in use, all descriptors of the caller and the pages held by
  pipes are those before the call.
\<close>

theorem sys_pipe_correct:
  assumes wf: "files_wf (fs p)" and page: "length (buf (ioqs p page)) = BUFSIZE" "page \<notin> kpages p"
    and run: "sys_pipe page p = (res, pf, p')"
  shows "res = -1 \<and> pipe_same p p' \<or> (\<exists>a b. res = 0 \<and> pf = Some (int a, int b) \<and> pipe_made page a b p p')"
proof -
  obtain rd f1 where al1: "file_table_alloc_slot (fs p) = (rd, f1)" by fastforce
  obtain wr f2 where al2: "file_table_alloc_slot f1 = (wr, f2)" by fastforce
  show ?thesis
    using wf al1
  proof (cases rule: alloc_slot_cases)
    case full
    with al1 run show ?thesis by (auto simp: sys_pipe_def pipe_same_def)
  next
    case r: (slot r)
    have l1: "fd_local2global i f1 = fd_local2global i (fs p)" for i using r by (intro fd_local2global_cong)
    show ?thesis
      using r(9) al2
    proof (cases rule: alloc_slot_cases)
      case full
      with al1 al2 run r have "res = -1 \<and> p' = p\<lparr>fs := file_table_free_slot (int r) f1\<rparr>" by (simp add: sys_pipe_def)
      with r l1 file_table_free_slot_in_use [OF r(9), of "int r"] show ?thesis by (auto simp: pipe_same_def)
    next
      case w: (slot w)
      have l2: "fd_local2global i f2 = fd_local2global i (fs p)" for i
        using w l1 by (metis fd_local2global_cong)
      have free2: "slot_in_use (file_slot_used (file_table_free_slot (int w) (file_table_free_slot (int r) f))) j =
          slot_in_use (file_slot_used (fs p)) j" if "files_wf f" "file_slot_used f = file_slot_used f2" for f j
        using free_two_slots [OF that(1) r(1) w(1)] that(2) r(3,5) w(3,5) by auto
      show ?thesis
      proof (cases "page = 0")
        case True
        with al1 al2 run r w have "res = -1 \<and> p' = p\<lparr>fs := file_table_free_slot (int w) (file_table_free_slot (int r) f2)\<rparr>"
          by (simp add: sys_pipe_def)
        with free2 [OF w(9) refl] l2 show ?thesis by (auto simp: pipe_same_def)
      next
        case False
        have "r \<noteq> w" using r(5) w(3) by auto
        then show ?thesis
          by (rule sys_pipe_connected [OF al1 [unfolded r(2)] al2 [unfolded w(2)] False page w(9) r(1) w(1) _ l2 free2 run])
      qed
    qed
  qed
qed

definition pipes_boot :: pipes where
  "pipes_boot = \<lparr>fs = files_boot, ioqs = (\<lambda>_. pipe_queue0), kpages = {}\<rparr>"

theorem sys_pipe_correct_witness:
  "fst (sys_pipe 0 pipes_boot) = -1 \<and> pipe_same pipes_boot (snd (snd (sys_pipe 0 pipes_boot)))"
proof -
  have "fst (sys_pipe 0 pipes_boot) = -1"
    by (simp add: sys_pipe_def split: prod.splits)
  moreover have "length (buf (ioqs pipes_boot 0)) = BUFSIZE" "files_wf (fs pipes_boot)" "0 \<notin> kpages pipes_boot"
    by (simp_all add: pipes_boot_def pipe_queue0_def files_boot_wf)
  moreover have "sys_pipe 0 pipes_boot =
      (fst (sys_pipe 0 pipes_boot), fst (snd (sys_pipe 0 pipes_boot)), snd (snd (sys_pipe 0 pipes_boot)))" by simp
  ultimately show ?thesis using sys_pipe_correct [of pipes_boot 0] by fastforce
qed

end
