(* ===== verification/Sync.thy ===== *)
theory Sync
  imports CZ_Prelude
begin

text \<open>
  The sleeping synchronisation primitives of \<open>kernel/sched/sync.c\<close>. A task is named by its slot. Every
  access to a semaphore is made with interrupts disabled and under its spinlock, which is given up
  only while the task sleeps; one pass of the loop of \<open>sema_down\<close> or \<open>lock_acquire\<close> is therefore one
  atomic step that either gets the semaphore or queues the caller and puts it to sleep. The queue of
  waiters is the sequence that the intrusive list represents. \<open>current = 0\<close> (no task yet, during
  start-up) is \<open>None\<close>.
\<close>

section \<open>Spinlocks\<close>

text \<open>\<open>spinlock_acquire\<close> leaves its loop when the exchange reads 0. One exchange is one step; \<open>True\<close>
  means that the lock was taken.\<close>

record spinlock =
  locked :: u32

definition spinlock_init :: "spinlock \<Rightarrow> spinlock" where
  "spinlock_init s = s\<lparr>locked := 0\<rparr>"

definition asm_xchg :: "u32 \<Rightarrow> spinlock \<Rightarrow> u32 \<times> spinlock" where
  "asm_xchg v s = (locked s, s\<lparr>locked := v\<rparr>)"

definition spinlock_try :: "spinlock \<Rightarrow> bool \<times> spinlock" where
  "spinlock_try s = (let (old, s) = asm_xchg 1 s in (old = 0, s))"

definition spinlock_release :: "spinlock \<Rightarrow> spinlock" where
  "spinlock_release s = s\<lparr>locked := 0\<rparr>"

section \<open>Semaphores\<close>

record semaphore =
  val :: u8
  waiters :: "nat list"

definition sema_init :: "u8 \<Rightarrow> semaphore" where
  "sema_init v = \<lparr>val = v, waiters = []\<rparr>"

text \<open>One pass of \<open>sema_down\<close>: \<open>True\<close> when the semaphore was decremented, \<open>False\<close> when the caller
  sleeps on it.\<close>

definition sema_down :: "nat \<Rightarrow> semaphore \<Rightarrow> bool \<times> semaphore" where
  "sema_down cur s =
     (if val s = 0 then (False, s\<lparr>waiters := waiters s @ [cur]\<rparr>)
      else (True, s\<lparr>val := val s - 1\<rparr>))"

text \<open>\<open>sema_up\<close> returns the task it unblocks.\<close>

definition sema_up :: "semaphore \<Rightarrow> nat option \<times> semaphore" where
  "sema_up s =
     (case waiters s of
        [] \<Rightarrow> (None, s\<lparr>val := val s + 1\<rparr>)
      | w # ws \<Rightarrow> (Some w, s\<lparr>waiters := ws, val := val s + 1\<rparr>))"

section \<open>Recursive locks\<close>

record sched_lock =
  holder :: "nat option"
  sema :: semaphore
  holder_repeat_nr :: u32

text \<open>A failed \<open>ASSERT\<close> stops the kernel.\<close>

datatype 'a run = Panic | Run 'a

definition lock_init :: sched_lock where
  "lock_init = \<lparr>holder = None, sema = sema_init 1, holder_repeat_nr = 0\<rparr>"

definition lock_acquire :: "nat option \<Rightarrow> sched_lock \<Rightarrow> (bool \<times> sched_lock) run" where
  "lock_acquire current l =
     (case current of
        None \<Rightarrow> Run (True, l)
      | Some cur \<Rightarrow>
          if holder l = Some cur then Run (True, l\<lparr>holder_repeat_nr := holder_repeat_nr l + 1\<rparr>)
          else
            (let (got, s) = sema_down cur (sema l); l = l\<lparr>sema := s\<rparr> in
             if \<not> got then Run (False, l)
             else if holder l \<noteq> None \<or> holder_repeat_nr l \<noteq> 0 then Panic
             else Run (True, l\<lparr>holder := Some cur, holder_repeat_nr := 1\<rparr>)))"

definition lock_release :: "nat option \<Rightarrow> sched_lock \<Rightarrow> (nat option \<times> sched_lock) run" where
  "lock_release current l =
     (case current of
        None \<Rightarrow> Run (None, l)
      | Some cur \<Rightarrow>
          if holder l \<noteq> Some cur then Panic
          else if holder_repeat_nr l > 1 then Run (None, l\<lparr>holder_repeat_nr := holder_repeat_nr l - 1\<rparr>)
          else
            (let (woken, s) = sema_up (sema l)
             in Run (woken, l\<lparr>holder := None, holder_repeat_nr := 0, sema := s\<rparr>)))"

section \<open>Reader-writer locks\<close>

datatype sem_name = Gate | Rmutex | Wlock

record rwlock =
  sems :: "sem_name \<Rightarrow> semaphore"
  readers :: nat

definition rwlock_init :: rwlock where
  "rwlock_init = \<lparr>sems = (\<lambda>_. sema_init 1), readers = 0\<rparr>"

text \<open>The program points of the four operations; each name tells what the task does next.\<close>

datatype rw_pc =
    Out
  | R_gate | R_rmutex | R_count | R_wlock | R_up_rmutex | R_up_gate | Reading
  | Q_rmutex | Q_count | Q_up_wlock | Q_up_rmutex
  | W_gate | W_wlock | Writing | W_up_wlock | W_up_gate

text \<open>The semaphore that a point downs or ups, and the point that follows.\<close>

fun rw_down :: "rw_pc \<Rightarrow> (sem_name \<times> rw_pc) option" where
  "rw_down R_gate = Some (Gate, R_rmutex)"
| "rw_down R_rmutex = Some (Rmutex, R_count)"
| "rw_down R_wlock = Some (Wlock, R_up_rmutex)"
| "rw_down Q_rmutex = Some (Rmutex, Q_count)"
| "rw_down W_gate = Some (Gate, W_wlock)"
| "rw_down W_wlock = Some (Wlock, Writing)"
| "rw_down _ = None"

fun rw_up :: "rw_pc \<Rightarrow> (sem_name \<times> rw_pc) option" where
  "rw_up R_up_rmutex = Some (Rmutex, R_up_gate)"
| "rw_up R_up_gate = Some (Gate, Reading)"
| "rw_up Q_up_wlock = Some (Wlock, Q_up_rmutex)"
| "rw_up Q_up_rmutex = Some (Rmutex, Out)"
| "rw_up W_up_wlock = Some (Wlock, W_up_gate)"
| "rw_up W_up_gate = Some (Gate, Out)"
| "rw_up _ = None"

text \<open>The counting steps of readers that enter and leave.\<close>

definition rw_enter :: "nat \<Rightarrow> nat \<times> rw_pc" where
  "rw_enter n = (n + 1, if n + 1 = 1 then R_wlock else R_up_rmutex)"

definition rw_leave :: "nat \<Rightarrow> nat \<times> rw_pc" where
  "rw_leave n = (n - 1, if n - 1 = 0 then Q_up_wlock else Q_up_rmutex)"

record rw_sys =
  rw :: rwlock
  pc :: "nat \<Rightarrow> rw_pc"

definition asleep :: "rwlock \<Rightarrow> nat \<Rightarrow> bool" where
  "asleep r t \<longleftrightarrow> (\<exists>n. t \<in> set (waiters (sems r n)))"

inductive rw_step :: "rw_sys \<Rightarrow> rw_sys \<Rightarrow> bool" where
  call: "pc s t = Out \<Longrightarrow> p \<in> {R_gate, W_gate} \<Longrightarrow> rw_step s (s\<lparr>pc := (pc s)(t := p)\<rparr>)"
| release: "pc s t = Reading \<and> p = Q_rmutex \<or> pc s t = Writing \<and> p = W_up_wlock \<Longrightarrow>
    rw_step s (s\<lparr>pc := (pc s)(t := p)\<rparr>)"
| down: "rw_down (pc s t) = Some (n, p) \<Longrightarrow> \<not> asleep (rw s) t \<Longrightarrow> sema_down t (sems (rw s) n) = (got, m) \<Longrightarrow>
    rw_step s (s\<lparr>rw := (rw s)\<lparr>sems := (sems (rw s))(n := m)\<rparr>, pc := (pc s)(t := if got then p else pc s t)\<rparr>)"
| up: "rw_up (pc s t) = Some (n, p) \<Longrightarrow> sema_up (sems (rw s) n) = (woken, m) \<Longrightarrow>
    rw_step s (s\<lparr>rw := (rw s)\<lparr>sems := (sems (rw s))(n := m)\<rparr>, pc := (pc s)(t := p)\<rparr>)"
| enter: "pc s t = R_count \<Longrightarrow> rw_enter (readers (rw s)) = (n, p) \<Longrightarrow>
    rw_step s (s\<lparr>rw := (rw s)\<lparr>readers := n\<rparr>, pc := (pc s)(t := p)\<rparr>)"
| leave: "pc s t = Q_count \<Longrightarrow> rw_leave (readers (rw s)) = (n, p) \<Longrightarrow>
    rw_step s (s\<lparr>rw := (rw s)\<lparr>readers := n\<rparr>, pc := (pc s)(t := p)\<rparr>)"

definition rw_boot :: rw_sys where
  "rw_boot = \<lparr>rw = rwlock_init, pc = (\<lambda>_. Out)\<rparr>"

section \<open>Reader-writer exclusion\<close>

text \<open>The number of tasks at a program point other than \<open>Out\<close>.\<close>

definition cnt :: "rw_sys \<Rightarrow> rw_pc \<Rightarrow> int" where
  "cnt s p = (if p = Out then 0 else int (card {t. pc s t = p}))"

definition rw_fin :: "rw_sys \<Rightarrow> bool" where
  "rw_fin s \<longleftrightarrow> finite {t. pc s t \<noteq> Out}"

abbreviation vl :: "rw_sys \<Rightarrow> sem_name \<Rightarrow> int" where
  "vl s n \<equiv> uint (val (sems (rw s) n))"

text \<open>The invariant speaks of the three values, the number of readers and the counts: each semaphore
  has one unit, which is in its value or with the one task that is between its down and its up; the
  unit of \<open>wlock\<close> is with the writer, or with the readers as a group.\<close>

definition rw_balance :: "int \<Rightarrow> int \<Rightarrow> int \<Rightarrow> int \<Rightarrow> (rw_pc \<Rightarrow> int) \<Rightarrow> bool" where
  "rw_balance g m w n c \<longleftrightarrow>
     g + c R_rmutex + c R_count + c R_wlock + c R_up_rmutex + c R_up_gate + c W_wlock + c Writing + c W_up_wlock +
       c W_up_gate = 1 \<and>
     m + c R_count + c R_wlock + c R_up_rmutex + c Q_count + c Q_up_wlock + c Q_up_rmutex = 1 \<and>
     n = c R_wlock + c R_up_rmutex + c R_up_gate + c Reading + c Q_rmutex + c Q_count \<and>
     w + c Writing + c W_up_wlock + c Q_up_wlock + (if 0 < n \<and> c R_wlock = 0 then 1 else 0) = 1 \<and>
     (0 < c R_wlock \<longrightarrow> n = 1) \<and> (0 < c Q_up_wlock \<longrightarrow> n = 0)"

definition rw_inv :: "rw_sys \<Rightarrow> bool" where
  "rw_inv s \<longleftrightarrow> rw_fin s \<and> rw_balance (vl s Gate) (vl s Rmutex) (vl s Wlock) (int (readers (rw s))) (cnt s)"

definition moved :: "rw_pc \<Rightarrow> rw_pc \<Rightarrow> (rw_pc \<Rightarrow> int) \<Rightarrow> rw_pc \<Rightarrow> int" where
  "moved p q c = (let c = (if p = Out then c else c(p := c p - 1)) in if q = Out then c else c(q := c q + 1))"

lemma cnt_nonneg: "0 \<le> cnt s p"
  by (simp add: cnt_def)

lemma cnt_pos: "rw_fin s \<Longrightarrow> pc s t \<noteq> Out \<Longrightarrow> 1 \<le> cnt s (pc s t)"
proof -
  assume "rw_fin s" and o: "pc s t \<noteq> Out"
  then have "finite {u. pc s u = pc s t}" "t \<in> {u. pc s u = pc s t}"
    by (auto simp: rw_fin_def elim: rev_finite_subset)
  then have "0 < card {u. pc s u = pc s t}" using card_gt_0_iff by blast
  with o show ?thesis by (simp add: cnt_def)
qed

lemma cnt_moved:
  assumes fin: "rw_fin s" and pc: "pc s' = (pc s)(t := q)" and pq: "pc s t \<noteq> q"
  shows "cnt s' = moved (pc s t) q (cnt s)"
proof
  fix r
  have f: "r \<noteq> Out \<Longrightarrow> finite {u. pc s u = r}" using fin by (auto simp: rw_fin_def elim: rev_finite_subset)
  have st: "{u. pc s' u = r} = (if r = q then insert t {u. pc s u = r} else {u. pc s u = r} - {t})"
    by (auto simp: pc split: if_splits)
  consider "r = Out" | "r \<noteq> Out" "r = q" | "r \<noteq> Out" "r \<noteq> q" "r = pc s t" | "r \<noteq> Out" "r \<noteq> q" "r \<noteq> pc s t" by blast
  then show "cnt s' r = moved (pc s t) q (cnt s) r"
  proof cases
    case 3
    then have "1 \<le> card {u. pc s u = r}" using cnt_pos [OF fin, of t] by (simp add: cnt_def)
    with 3 f show ?thesis using st by (simp add: cnt_def moved_def Let_def card_Diff_singleton_if of_nat_diff)
  qed (use f pq st in \<open>auto simp: cnt_def moved_def Let_def\<close>)
qed

lemma rw_fin_move: "rw_fin s \<Longrightarrow> pc s' = (pc s)(t := q) \<Longrightarrow> rw_fin s'"
  unfolding rw_fin_def by (rule finite_subset [of _ "insert t {u. pc s u \<noteq> Out}"]) (auto split: if_splits)

lemma balance_down:
  assumes "rw_balance g m w n c" and "1 \<le> c p" and "rw_down p = Some (k, q)" and "\<And>r. 0 \<le> c r" and "0 \<le> m"
  shows "rw_balance (if k = Gate then g - 1 else g) (if k = Rmutex then m - 1 else m)
    (if k = Wlock then w - 1 else w) n (moved p q c)"
  using assms(1-3) assms(5) assms(4) [of R_count] assms(4) [of R_up_rmutex] assms(4) [of Q_count]
    assms(4) [of Q_up_wlock] assms(4) [of Q_up_rmutex]
  by (cases p) (auto simp: rw_balance_def moved_def split: if_splits)

lemma balance_up:
  assumes "rw_balance g m w n c" and "1 \<le> c p" and "rw_up p = Some (k, q)"
  shows "rw_balance (if k = Gate then g + 1 else g) (if k = Rmutex then m + 1 else m)
    (if k = Wlock then w + 1 else w) n (moved p q c)"
  using assms by (cases p) (auto simp: rw_balance_def moved_def split: if_splits)

lemma balance_call:
  "rw_balance g m w n c \<Longrightarrow> p \<in> {R_gate, W_gate} \<Longrightarrow> rw_balance g m w n (moved Out p c)"
  by (auto simp: rw_balance_def moved_def)

lemma balance_release_read:
  "rw_balance g m w n c \<Longrightarrow> rw_balance g m w n (moved Reading Q_rmutex c)"
  by (auto simp: rw_balance_def moved_def)

lemma balance_release_write:
  "rw_balance g m w n c \<Longrightarrow> rw_balance g m w n (moved Writing W_up_wlock c)"
  by (auto simp: rw_balance_def moved_def)


lemma balance_enter:
  assumes "rw_balance g m w n c" and "1 \<le> c R_count" and "rw_enter (nat n) = (n', p)"
    and "\<And>r. 0 \<le> c r" and "0 \<le> m" and "0 \<le> w"
  shows "rw_balance g m w (int n') (moved R_count p c)"
proof -
  have "c R_count = 1 \<and> c R_wlock = 0 \<and> c Q_up_wlock = 0 \<and> 0 \<le> n"
    using assms(1,2,5) assms(4) [of R_wlock] assms(4) [of R_up_rmutex] assms(4) [of Q_count] assms(4) [of R_up_gate]
      assms(4) [of Q_up_wlock] assms(4) [of Q_up_rmutex] assms(4) [of Reading] assms(4) [of Q_rmutex]
    unfolding rw_balance_def by linarith
  with assms(1,3) show ?thesis by (auto simp: rw_balance_def moved_def rw_enter_def split: if_splits)
qed

lemma balance_leave:
  assumes "rw_balance g m w n c" and "1 \<le> c Q_count" and "rw_leave (nat n) = (n', p)"
    and "\<And>r. 0 \<le> c r" and "0 \<le> m" and "0 \<le> w"
  shows "rw_balance g m w (int n') (moved Q_count p c)"
proof -
  have "c Q_count = 1 \<and> c R_wlock = 0 \<and> c Q_up_wlock = 0 \<and> 1 \<le> n"
    using assms(1,2,5) assms(4) [of R_wlock] assms(4) [of R_up_rmutex] assms(4) [of R_count] assms(4) [of R_up_gate]
      assms(4) [of Q_up_wlock] assms(4) [of Q_up_rmutex] assms(4) [of Reading] assms(4) [of Q_rmutex]
    unfolding rw_balance_def by linarith
  with assms(1,3) show ?thesis by (auto simp: rw_balance_def moved_def rw_leave_def split: if_splits)
qed


lemma sema_down_val:
  assumes "sema_down t m = (got, m')"
  shows "if got then uint (val m') = uint (val m) - 1 else val m' = val m"
proof -
  have "uint (v - 1) = uint v - 1" if "v \<noteq> 0" for v :: u8
  proof -
    have "uint v \<noteq> 0" using that by (simp add: uint_0_iff)
    then have "0 \<le> uint v - 1" "uint v - 1 < 2 ^ LENGTH(8)"
      using uint_ge_0 [of v] uint_lt2p [of v] by linarith+
    then show ?thesis by (simp add: uint_word_ariths)
  qed
  then show ?thesis using assms by (auto simp: sema_down_def split: if_splits)
qed

lemma sema_up_val: "sema_up m = (w, m') \<Longrightarrow> uint (val m) < 255 \<Longrightarrow> uint (val m') = uint (val m) + 1"
  by (auto simp: sema_up_def uint_word_ariths split: list.splits)

lemma rw_down_neq: "rw_down p = Some (n, q) \<Longrightarrow> p \<noteq> Out \<and> p \<noteq> q"
  by (cases p) auto

lemma rw_up_neq: "rw_up p = Some (n, q) \<Longrightarrow> p \<noteq> Out \<and> p \<noteq> q"
  by (cases p) auto

text \<open>What the balance says about the values and about the two kinds of holders.\<close>

lemma balance_bounds:
  assumes "rw_balance g m w n c" and nn: "\<And>r. 0 \<le> c r" and "0 \<le> g" "0 \<le> m" "0 \<le> w"
  shows "g \<le> 1 \<and> m \<le> 1 \<and> w \<le> 1" and "1 \<le> c Writing \<Longrightarrow> c Writing = 1 \<and> c Reading = 0"
    and "1 \<le> c R_wlock \<Longrightarrow> w = 1"
  using assms(1,3-5) nn [of R_rmutex] nn [of R_count] nn [of R_wlock] nn [of R_up_rmutex] nn [of R_up_gate]
    nn [of W_wlock] nn [of Writing] nn [of W_up_wlock] nn [of W_up_gate] nn [of Q_count] nn [of Q_up_wlock]
    nn [of Q_up_rmutex] nn [of Reading] nn [of Q_rmutex]
  unfolding rw_balance_def by (force split: if_splits)+

lemma rw_inv_bounds:
  assumes "rw_inv s"
  shows "vl s n \<le> 1" and "1 \<le> cnt s Writing \<Longrightarrow> cnt s Writing = 1 \<and> cnt s Reading = 0"
    and "1 \<le> cnt s R_wlock \<Longrightarrow> vl s Wlock = 1"
proof -
  have "rw_balance (vl s Gate) (vl s Rmutex) (vl s Wlock) (int (readers (rw s))) (cnt s)"
    using assms by (simp add: rw_inv_def)
  note b = balance_bounds [OF this cnt_nonneg uint_ge_0 uint_ge_0 uint_ge_0]
  show "vl s n \<le> 1" using b(1) by (cases n) simp_all
  show "1 \<le> cnt s Writing \<Longrightarrow> cnt s Writing = 1 \<and> cnt s Reading = 0" by (rule b(2))
  show "1 \<le> cnt s R_wlock \<Longrightarrow> vl s Wlock = 1" by (rule b(3))
qed

lemma rw_step_inv:
  assumes "rw_step s s'" and inv: "rw_inv s"
  shows "rw_inv s'"
proof -
  have fin: "rw_fin s" and bal: "rw_balance (vl s Gate) (vl s Rmutex) (vl s Wlock) (int (readers (rw s))) (cnt s)"
    using inv by (simp_all add: rw_inv_def)
  show ?thesis
    using assms(1)
  proof cases
    case (call t p)
    then show ?thesis
      using rw_fin_move [OF fin, of s' t p] cnt_moved [OF fin, of s' t p] balance_call [OF bal, of p]
      by (auto simp: rw_inv_def)
  next
    case (release t p)
    then show ?thesis
      using rw_fin_move [OF fin, of s' t p] cnt_moved [OF fin, of s' t p]
        balance_release_read [OF bal] balance_release_write [OF bal]
      by (auto simp: rw_inv_def)
  next
    case (down t n p got m)
    show ?thesis
    proof (cases got)
      case True
      have "pc s' = (pc s)(t := p)" using down(1) True by simp
      note mv = rw_fin_move [OF fin this] cnt_moved [OF fin this]
      have "vl s' k = (if n = k then vl s k - 1 else vl s k)" for k
        using sema_down_val [OF down(4)] True down(1) by simp
      moreover have "readers (rw s') = readers (rw s)" using down(1) by simp
      ultimately show ?thesis
        using mv rw_down_neq [OF down(2)] cnt_pos [OF fin, of t] balance_down [OF bal _ down(2) cnt_nonneg]
        by (simp add: rw_inv_def)
    next
      case False
      have "pc s' = pc s" using down(1) False by simp
      moreover from this have "rw_fin s' = rw_fin s" "cnt s' = cnt s" by (simp_all add: rw_fin_def cnt_def fun_eq_iff)
      moreover have "vl s' k = vl s k" for k using sema_down_val [OF down(4)] False down(1) by simp
      moreover have "readers (rw s') = readers (rw s)" using down(1) by simp
      ultimately show ?thesis using fin bal by (simp add: rw_inv_def)
    qed
  next
    case (up t n p woken m)
    have "pc s' = (pc s)(t := p)" using up(1) by simp
    note mv = rw_fin_move [OF fin this] cnt_moved [OF fin this]
    have "vl s' k = (if n = k then vl s k + 1 else vl s k)" for k
      using sema_up_val [OF up(3)] rw_inv_bounds(1) [OF inv, of n] up(1) by simp
    moreover have "readers (rw s') = readers (rw s)" using up(1) by simp
    ultimately show ?thesis
      using mv rw_up_neq [OF up(2)] cnt_pos [OF fin, of t] balance_up [OF bal _ up(2)]
      by (simp add: rw_inv_def)
  next
    case (enter t n p)
    have "pc s' = (pc s)(t := p)" "p \<noteq> R_count" using enter by (auto simp: rw_enter_def split: if_splits)
    note mv = rw_fin_move [OF fin this(1)] cnt_moved [OF fin this(1)] this(2)
    then show ?thesis
      using enter cnt_pos [OF fin, of t] balance_enter [OF bal _ _ cnt_nonneg, of n p]
      by (simp add: rw_inv_def)
  next
    case (leave t n p)
    have "pc s' = (pc s)(t := p)" "p \<noteq> Q_count" using leave by (auto simp: rw_leave_def split: if_splits)
    note mv = rw_fin_move [OF fin this(1)] cnt_moved [OF fin this(1)] this(2)
    then show ?thesis
      using leave cnt_pos [OF fin, of t] balance_leave [OF bal _ _ cnt_nonneg, of n p]
      by (simp add: rw_inv_def)
  qed
qed

lemma rw_inv_boot: "rw_inv rw_boot"
  by (simp add: rw_inv_def rw_boot_def rw_fin_def cnt_def rw_balance_def rwlock_init_def sema_init_def)

lemma rw_reachable_inv: "rw_step\<^sup>*\<^sup>* rw_boot s \<Longrightarrow> rw_inv s"
  by (induction rule: rtranclp_induct) (auto intro: rw_inv_boot rw_step_inv)

lemma cnt_two: "rw_fin s \<Longrightarrow> pc s t = p \<Longrightarrow> pc s u = p \<Longrightarrow> t \<noteq> u \<Longrightarrow> p \<noteq> Out \<Longrightarrow> 2 \<le> cnt s p"
proof -
  assume a: "rw_fin s" "pc s t = p" "pc s u = p" "t \<noteq> u" "p \<noteq> Out"
  then have "finite {v. pc s v = p}" by (auto simp: rw_fin_def elim: rev_finite_subset)
  then have "card {t, u} \<le> card {v. pc s v = p}" using a by (intro card_mono) auto
  with a show ?thesis by (simp add: cnt_def)
qed

text \<open>
  C25. The reader-writer lock excludes: in every state that any interleaving of readers and writers
  reaches, while a task is writing no other task is writing and no task is reading.
\<close>

theorem rwlock_exclusion:
  assumes "rw_step\<^sup>*\<^sup>* rw_boot s" and "pc s t = Writing" and "u \<noteq> t"
  shows "pc s u \<noteq> Writing \<and> pc s u \<noteq> Reading"
proof -
  have inv: "rw_inv s" using assms(1) by (rule rw_reachable_inv)
  then have fin: "rw_fin s" by (simp add: rw_inv_def)
  have "1 \<le> cnt s Writing" using cnt_pos [OF fin, of t] assms(2) by simp
  then have "cnt s Writing = 1 \<and> cnt s Reading = 0" by (rule rw_inv_bounds(2) [OF inv])
  then show ?thesis
    using cnt_two [OF fin assms(2), of u] cnt_pos [OF fin, of u] assms(3) by fastforce
qed

text \<open>
  The first reader never sleeps on \<open>wlock\<close> while it holds the mutex of the reader count: whenever
  a task is about to take \<open>wlock\<close> on behalf of the readers, its value is 1 and the task obtains it in
  one pass.
\<close>

lemma rwlock_first_reader_no_wait:
  assumes "rw_step\<^sup>*\<^sup>* rw_boot s" and "pc s t = R_wlock"
  shows "fst (sema_down t (sems (rw s) Wlock))"
proof -
  have inv: "rw_inv s" using assms(1) by (rule rw_reachable_inv)
  then have "1 \<le> cnt s R_wlock" using cnt_pos [of s t] assms(2) by (simp add: rw_inv_def)
  then have "vl s Wlock = 1" by (rule rw_inv_bounds(3) [OF inv])
  then have "val (sems (rw s) Wlock) \<noteq> 0" by auto
  then show ?thesis by (simp add: sema_down_def)
qed


lemma rw_writer_run: "\<exists>s. rw_step\<^sup>*\<^sup>* rw_boot s \<and> pc s 4 = Writing"
proof -
  define s1 where "s1 = rw_boot\<lparr>pc := (pc rw_boot)(4 := W_gate)\<rparr>"
  define m :: semaphore where "m = \<lparr>val = 0, waiters = []\<rparr>"
  define s2 where "s2 = s1\<lparr>rw := (rw s1)\<lparr>sems := (sems (rw s1))(Gate := m)\<rparr>, pc := (pc s1)(4 := if True then W_wlock else pc s1 4)\<rparr>"
  define s3 where "s3 = s2\<lparr>rw := (rw s2)\<lparr>sems := (sems (rw s2))(Wlock := m)\<rparr>, pc := (pc s2)(4 := if True then Writing else pc s2 4)\<rparr>"
  have f0: "pc rw_boot t = Out" "sems (rw rw_boot) n = sema_init 1" for t n
    by (simp_all add: rw_boot_def rwlock_init_def)
  have f1: "pc s1 4 = W_gate" "sems (rw s1) n = sema_init 1" for n by (simp_all add: s1_def f0)
  have f2: "pc s2 4 = W_wlock" "sems (rw s2) Gate = m" "n \<noteq> Gate \<Longrightarrow> sems (rw s2) n = sema_init 1" for n
    by (simp_all add: s2_def f1)
  have a: "\<not> asleep (rw s1) 4" by (simp add: asleep_def f1 sema_init_def)
  have "waiters (sems (rw s2) n) = []" for n by (cases n) (simp_all add: f2 m_def sema_init_def)
  then have b: "\<not> asleep (rw s2) 4" by (simp add: asleep_def)
  have "rw_step rw_boot s1" unfolding s1_def by (rule call) (simp_all add: f0)
  moreover have "rw_step s1 s2" unfolding s2_def
    by (rule down [OF _ a]) (simp_all add: f1 sema_down_def sema_init_def m_def)
  moreover have "rw_step s2 s3" unfolding s3_def
    by (rule down [OF _ b]) (simp_all add: f2 sema_down_def sema_init_def m_def)
  moreover have "pc s3 4 = Writing" by (simp add: s3_def)
  ultimately show ?thesis by (meson converse_rtranclp_into_rtranclp r_into_rtranclp)
qed

theorem rwlock_exclusion_witness:
  "\<exists>s. rw_step\<^sup>*\<^sup>* rw_boot s \<and> pc s 4 = Writing \<and> pc s 5 \<noteq> Writing \<and> pc s 5 \<noteq> Reading"
proof -
  obtain s where s: "rw_step\<^sup>*\<^sup>* rw_boot s" "pc s 4 = Writing" using rw_writer_run by blast
  show ?thesis using rwlock_exclusion [OF s, of 5] s by auto
qed

end
