(* ===== verification/Locks.thy ===== *)
theory Locks
  imports Sync
begin

text \<open>
  Any number of tasks that acquire and release one recursive lock of \<open>kernel/sched/sync.c\<close>. A task is
  running, at the test of the loop of \<open>lock_acquire\<close>, or asleep in the queue of the lock; \<open>depth\<close> counts
  the acquisitions of a task that it has not released. Nesting is bounded by the 32-bit counter of
  the lock.
\<close>

section \<open>Steps\<close>

datatype lock_st = Running | Trying | Asleep

record lock_sys =
  lk :: sched_lock
  st :: "nat \<Rightarrow> lock_st"
  depth :: "nat \<Rightarrow> nat"

definition wake :: "nat option \<Rightarrow> (nat \<Rightarrow> lock_st) \<Rightarrow> nat \<Rightarrow> lock_st" where
  "wake w f = (case w of None \<Rightarrow> f | Some t \<Rightarrow> f(t := Trying))"

inductive lock_step :: "lock_sys \<Rightarrow> lock_sys \<Rightarrow> bool" where
  attempt: "st s t = Running \<Longrightarrow> depth s t + 1 < 2 ^ 32 \<Longrightarrow> lock_step s (s\<lparr>st := (st s)(t := Trying)\<rparr>)"
| got: "st s t = Trying \<Longrightarrow> lock_acquire (Some t) (lk s) = Run (True, l) \<Longrightarrow>
    lock_step s (s\<lparr>lk := l, st := (st s)(t := Running), depth := (depth s)(t := depth s t + 1)\<rparr>)"
| sleep: "st s t = Trying \<Longrightarrow> lock_acquire (Some t) (lk s) = Run (False, l) \<Longrightarrow>
    lock_step s (s\<lparr>lk := l, st := (st s)(t := Asleep)\<rparr>)"
| release: "st s t = Running \<Longrightarrow> 0 < depth s t \<Longrightarrow> lock_release (Some t) (lk s) = Run (w, l) \<Longrightarrow>
    lock_step s (s\<lparr>lk := l, st := wake w (st s), depth := (depth s)(t := depth s t - 1)\<rparr>)"

definition lock_boot :: lock_sys where
  "lock_boot = \<lparr>lk = lock_init, st = (\<lambda>_. Running), depth = (\<lambda>_. 0)\<rparr>"

section \<open>Invariant\<close>

definition lock_held :: "lock_sys \<Rightarrow> bool" where
  "lock_held s \<longleftrightarrow>
     (case holder (lk s) of
        None \<Rightarrow> val (sema (lk s)) = 1 \<and> holder_repeat_nr (lk s) = 0 \<and> (\<forall>u. depth s u = 0)
      | Some t \<Rightarrow> val (sema (lk s)) = 0 \<and> holder_repeat_nr (lk s) = of_nat (depth s t) \<and> 0 < depth s t \<and>
          (\<forall>u. u \<noteq> t \<longrightarrow> depth s u = 0))"

definition lock_queue :: "lock_sys \<Rightarrow> bool" where
  "lock_queue s \<longleftrightarrow>
     distinct (waiters (sema (lk s))) \<and> set (waiters (sema (lk s))) = {t. st s t = Asleep} \<and>
     (waiters (sema (lk s)) \<noteq> [] \<and> val (sema (lk s)) \<noteq> 0 \<longrightarrow> (\<exists>u. st s u = Trying))"

definition lock_depths :: "lock_sys \<Rightarrow> bool" where
  "lock_depths s \<longleftrightarrow>
     (\<forall>t. depth s t < 2 ^ 32 \<and> (st s t = Trying \<or> st s t = Asleep \<longrightarrow> depth s t + 1 < 2 ^ 32)) \<and>
     (\<forall>t. st s t = Asleep \<longrightarrow> depth s t = 0)"

definition lock_inv :: "lock_sys \<Rightarrow> bool" where
  "lock_inv s \<longleftrightarrow> lock_held s \<and> lock_queue s \<and> lock_depths s"

lemmas lock_inv_defs = lock_inv_def lock_held_def lock_queue_def lock_depths_def

lemma lock_inv_boot: "lock_inv lock_boot"
  by (simp add: lock_inv_defs lock_boot_def lock_init_def sema_init_def)

lemma of_nat_u32_gt1: "n < 2 ^ 32 \<Longrightarrow> (1 < (of_nat n :: u32)) = (1 < n)"
  by (simp add: word_less_nat_alt unat_of_nat take_bit_nat_eq_self)

lemma acquire_nested:
  assumes "holder l = Some t"
  shows "lock_acquire (Some t) l = Run (True, l\<lparr>holder_repeat_nr := holder_repeat_nr l + 1\<rparr>)"
  using assms by (simp add: lock_acquire_def)

lemma acquire_busy:
  assumes "holder l \<noteq> Some t" and "val (sema l) = 0"
  shows "lock_acquire (Some t) l = Run (False, l\<lparr>sema := (sema l)\<lparr>waiters := waiters (sema l) @ [t]\<rparr>\<rparr>)"
  using assms by (simp add: lock_acquire_def sema_down_def)

lemma acquire_free:
  assumes "holder l = None" and "val (sema l) = 1" and "holder_repeat_nr l = 0"
  shows "lock_acquire (Some t) l =
    Run (True, l\<lparr>sema := (sema l)\<lparr>val := 0\<rparr>, holder := Some t, holder_repeat_nr := 1\<rparr>)"
  using assms by (simp add: lock_acquire_def sema_down_def)

text \<open>Under the invariant an acquisition takes one of these three branches.\<close>

lemma acquire_cases:
  assumes "lock_inv s"
  obtains (nested) "holder (lk s) = Some t"
      "lock_acquire (Some t) (lk s) = Run (True, (lk s)\<lparr>holder_repeat_nr := holder_repeat_nr (lk s) + 1\<rparr>)"
  | (busy) h where "holder (lk s) = Some h" "h \<noteq> t" "val (sema (lk s)) = 0" "depth s t = 0"
      "lock_acquire (Some t) (lk s) = Run (False, (lk s)\<lparr>sema := (sema (lk s))\<lparr>waiters := waiters (sema (lk s)) @ [t]\<rparr>\<rparr>)"
  | (free) "holder (lk s) = None" "val (sema (lk s)) = 1" "holder_repeat_nr (lk s) = 0" "depth s t = 0"
      "lock_acquire (Some t) (lk s) = Run (True, (lk s)\<lparr>sema := (sema (lk s))\<lparr>val := 0\<rparr>, holder := Some t, holder_repeat_nr := 1\<rparr>)"
proof (cases "holder (lk s)")
  case None
  with assms show thesis by (intro free) (auto simp: lock_inv_defs intro!: acquire_free)
next
  case (Some h)
  then have v: "val (sema (lk s)) = 0" "h \<noteq> t \<Longrightarrow> depth s t = 0" using assms by (simp_all add: lock_inv_defs)
  show thesis
  proof (cases "h = t")
    case True
    with Some show thesis by (intro nested acquire_nested) simp_all
  next
    case False
    with Some v show thesis by (intro busy [of h] acquire_busy) simp_all
  qed
qed

lemma release_cases:
  assumes "lock_inv s" and "0 < depth s t"
  obtains (nested) "holder (lk s) = Some t" "1 < depth s t"
      "lock_release (Some t) (lk s) = Run (None, (lk s)\<lparr>holder_repeat_nr := holder_repeat_nr (lk s) - 1\<rparr>)"
  | (last) w m where "holder (lk s) = Some t" "depth s t = 1" "sema_up (sema (lk s)) = (w, m)"
      "lock_release (Some t) (lk s) = Run (w, (lk s)\<lparr>holder := None, holder_repeat_nr := 0, sema := m\<rparr>)"
proof -
  have h: "holder (lk s) = Some t" "holder_repeat_nr (lk s) = of_nat (depth s t)" "depth s t < 2 ^ 32"
    using assms by (auto simp: lock_inv_defs split: option.splits) (metis not_gr0)+
  obtain w m where m: "sema_up (sema (lk s)) = (w, m)" by fastforce
  show thesis
  proof (cases "1 < depth s t")
    case True
    with h of_nat_u32_gt1 [OF h(3)] show thesis by (intro nested) (simp_all add: lock_release_def)
  next
    case False
    with h m assms(2) of_nat_u32_gt1 [OF h(3)] show thesis
      by (intro last [of w m]) (simp_all add: lock_release_def)
  qed
qed


lemma lock_held_acquire:
  assumes "lock_inv s" and "lock_acquire (Some t) (lk s) = Run (True, l)"
  shows "lock_held (s\<lparr>lk := l, st := f, depth := (depth s)(t := depth s t + 1)\<rparr>)"
  using assms(1)
proof (cases rule: acquire_cases [where t = t])
  case nested
  with assms show ?thesis by (auto simp: lock_inv_defs)
next
  case (busy h)
  with assms show ?thesis by simp
next
  case free
  with assms show ?thesis by (auto simp: lock_inv_defs)
qed

lemma acquire_queue:
  assumes "lock_inv s" and "lock_acquire (Some t) (lk s) = Run (g, l)"
  shows "waiters (sema l) = waiters (sema (lk s)) @ (if g then [] else [t])" and "val (sema l) = 0"
  using assms(1)
  by (cases rule: acquire_cases [where t = t]; use assms in \<open>auto simp: lock_inv_defs\<close>)+

lemma lock_step_inv:
  assumes "lock_step s s'" and inv: "lock_inv s"
  shows "lock_inv s'"
  using assms(1)
proof cases
  case (attempt t)
  with inv show ?thesis by (auto simp: lock_inv_defs split: option.splits)
next
  case (got t l)
  have "lock_held s'" unfolding got(1) by (rule lock_held_acquire [OF inv got(3)])
  moreover have "lock_queue s'"
    using inv got acquire_queue [OF inv got(3)] by (auto simp: lock_inv_def lock_queue_def)
  moreover have "lock_depths s'" using inv got by (auto simp: lock_inv_def lock_depths_def)
  ultimately show ?thesis by (simp add: lock_inv_def)
next
  case (sleep t l)
  from inv have "lock_held s' \<and> depth s t = 0"
    by (cases rule: acquire_cases [where t = t]) (use sleep inv in \<open>auto simp: lock_inv_defs\<close>)
  moreover have "lock_queue s'"
    using inv sleep acquire_queue [OF inv sleep(3)] by (auto simp: lock_inv_def lock_queue_def)
  ultimately show ?thesis using inv sleep by (auto simp: lock_inv_def lock_depths_def)
next
  case (release t w l)
  have "depth s t < 2 ^ 32" using inv by (simp add: lock_inv_defs)
  then have dt: "depth s t - 1 < 2 ^ 32" by linarith
  show ?thesis
    using inv release(3)
  proof (cases rule: release_cases)
    case nested
    with release inv dt show ?thesis by (auto simp: lock_inv_defs wake_def of_nat_diff)
  next
    case (last v m)
    then have l: "l = (lk s)\<lparr>holder := None, holder_repeat_nr := 0, sema := m\<rparr>" "v = w" using release by auto
    have v: "val (sema (lk s)) = 0" and d: "\<And>u. u \<noteq> t \<Longrightarrow> depth s u = 0" using inv last by (auto simp: lock_inv_defs)
    then have m: "val m = 1" "waiters (sema (lk s)) = (case w of None \<Rightarrow> [] | Some u \<Rightarrow> [u]) @ waiters m"
      "w = None \<Longrightarrow> waiters (sema (lk s)) = []"
      using last(3) l(2) by (auto simp: sema_up_def split: list.splits)
    have w0: "w = Some u \<Longrightarrow> depth s u = 0" for u
      using inv m(2) by (auto simp: lock_inv_def lock_queue_def lock_depths_def)
    have "lock_held s'" using last d m by (auto simp: release(1) l lock_held_def)
    moreover have "lock_queue s'"
      using inv m by (cases w) (auto simp: release(1) l lock_inv_def lock_queue_def wake_def)
    moreover have "lock_depths s'" using inv m last dt w0 by (cases w) (auto simp: release(1) l lock_inv_def lock_depths_def wake_def)
    ultimately show ?thesis by (simp add: lock_inv_def)
  qed
qed

lemma lock_reachable_inv: "lock_step\<^sup>*\<^sup>* lock_boot s \<Longrightarrow> lock_inv s"
  by (induction rule: rtranclp_induct) (auto intro: lock_inv_boot lock_step_inv)



text \<open>
  C26. No wake-up is lost: whenever the lock is free and tasks sleep in its queue, some task is awake and
  about to test the lock, and such a test takes the lock.
\<close>

theorem lock_no_lost_wakeup:
  assumes "lock_step\<^sup>*\<^sup>* lock_boot s" and "holder (lk s) = None" and "st s t = Asleep"
  shows "\<exists>u l. st s u = Trying \<and> lock_acquire (Some u) (lk s) = Run (True, l)"
proof -
  have inv: "lock_inv s" using assms(1) by (rule lock_reachable_inv)
  then have "waiters (sema (lk s)) \<noteq> []" "val (sema (lk s)) = 1"
    using assms(2,3) by (auto simp: lock_inv_defs)
  with inv obtain u where "st s u = Trying" by (auto simp: lock_inv_def lock_queue_def)
  moreover have "\<exists>l. lock_acquire (Some u) (lk s) = Run (True, l)"
    using inv by (cases rule: acquire_cases [where t = u]) (use assms(2) in auto)
  ultimately show ?thesis by blast
qed


text \<open>A run in which task 4 takes the lock, tasks 5 and 6 go to sleep on it, and task 4 releases it.\<close>

lemma lock_contended_run:
  "\<exists>s. lock_step\<^sup>*\<^sup>* lock_boot s \<and> holder (lk s) = None \<and> st s 6 = Asleep"
proof -
  define l1 where "l1 = \<lparr>holder = Some 4, sema = \<lparr>val = 0, waiters = []\<rparr>, holder_repeat_nr = 1\<rparr>"
  define l2 where "l2 = l1\<lparr>sema := \<lparr>val = 0, waiters = [5]\<rparr>\<rparr>"
  define l3 where "l3 = l1\<lparr>sema := \<lparr>val = 0, waiters = [5, 6]\<rparr>\<rparr>"
  define l4 where "l4 = \<lparr>holder = None, sema = \<lparr>val = 1, waiters = [6]\<rparr>, holder_repeat_nr = 0\<rparr>"
  define d where "d = (\<lambda>_ :: nat. 0 :: nat)(4 := 1)"
  define r where "r = (\<lambda>_ :: nat. Running)"
  note lds = l1_def l2_def l3_def l4_def
  have "lock_step lock_boot \<lparr>lk = lock_init, st = r(4 := Trying), depth = \<lambda>_. 0\<rparr>"
    using attempt [of lock_boot 4] by (simp add: lock_boot_def r_def)
  moreover have "lock_step \<lparr>lk = lock_init, st = r(4 := Trying), depth = \<lambda>_. 0\<rparr> \<lparr>lk = l1, st = r, depth = d\<rparr>"
    using got [of "\<lparr>lk = lock_init, st = r(4 := Trying), depth = \<lambda>_. 0\<rparr>" 4 l1]
    by (simp add: d_def r_def lds lock_acquire_def lock_init_def sema_init_def sema_down_def fun_upd_idem)
  moreover have "lock_step \<lparr>lk = l1, st = r, depth = d\<rparr> \<lparr>lk = l1, st = r(5 := Trying), depth = d\<rparr>"
    using attempt [of "\<lparr>lk = l1, st = r, depth = d\<rparr>" 5] by (simp add: d_def r_def)
  moreover have "lock_step \<lparr>lk = l1, st = r(5 := Trying), depth = d\<rparr> \<lparr>lk = l2, st = r(5 := Asleep), depth = d\<rparr>"
    using sleep [of "\<lparr>lk = l1, st = r(5 := Trying), depth = d\<rparr>" 5 l2]
    by (simp add: lds lock_acquire_def sema_down_def)
  moreover have "lock_step \<lparr>lk = l2, st = r(5 := Asleep), depth = d\<rparr> \<lparr>lk = l2, st = r(5 := Asleep, 6 := Trying), depth = d\<rparr>"
    using attempt [of "\<lparr>lk = l2, st = r(5 := Asleep), depth = d\<rparr>" 6] by (simp add: d_def r_def)
  moreover have "lock_step \<lparr>lk = l2, st = r(5 := Asleep, 6 := Trying), depth = d\<rparr> \<lparr>lk = l3, st = r(5 := Asleep, 6 := Asleep), depth = d\<rparr>"
    using sleep [of "\<lparr>lk = l2, st = r(5 := Asleep, 6 := Trying), depth = d\<rparr>" 6 l3]
    by (simp add: lds lock_acquire_def sema_down_def)
  moreover have "lock_step \<lparr>lk = l3, st = r(5 := Asleep, 6 := Asleep), depth = d\<rparr>
      \<lparr>lk = l4, st = wake (Some 5) (r(5 := Asleep, 6 := Asleep)), depth = d(4 := d 4 - 1)\<rparr>"
    using release [of "\<lparr>lk = l3, st = r(5 := Asleep, 6 := Asleep), depth = d\<rparr>" 4 "Some 5" l4]
    by (simp add: d_def r_def lds lock_release_def sema_up_def)
  ultimately have "lock_step\<^sup>*\<^sup>* lock_boot
      \<lparr>lk = l4, st = wake (Some 5) (r(5 := Asleep, 6 := Asleep)), depth = d(4 := d 4 - 1)\<rparr>"
    by (meson converse_rtranclp_into_rtranclp rtranclp.rtrancl_refl)
  then show ?thesis by (intro exI conjI, assumption) (simp_all add: l4_def wake_def)
qed


theorem lock_no_lost_wakeup_witness:
  "\<exists>s. lock_step\<^sup>*\<^sup>* lock_boot s \<and> st s 6 = Asleep \<and> (\<exists>u l. st s u = Trying \<and> lock_acquire (Some u) (lk s) = Run (True, l))"
proof -
  obtain s where s: "lock_step\<^sup>*\<^sup>* lock_boot s" "holder (lk s) = None" "st s 6 = Asleep"
    using lock_contended_run by blast
  show ?thesis using lock_no_lost_wakeup [OF s] s by blast
qed

end
