(* ===== verification/Sha256.thy ===== *)
theory Sha256
  imports CZ_Prelude "HOL-Library.Monad_Syntax"
begin

text \<open>
  SHA-256, HMAC and HKDF of \<open>lib/crypto/sha256.c\<close>. Buffers are byte lists; the length argument of a
  call is the length of the list, below \<open>2 ^ 32\<close> as the parameter type has it. The padding loop of
  \<open>sha256_final\<close> runs until the buffer holds 56 bytes, which no test bounds: it is a partial function,
  and the lemmas show that it returns for every context the interface can produce. The table of round
  constants is the argument \<open>kt\<close> of the definitions: the values themselves are not checked, and the
  theorems hold for every table.
\<close>

section \<open>Model\<close>

definition ROTR :: "u32 \<Rightarrow> nat \<Rightarrow> u32" where
  "ROTR x n = drop_bit n x OR push_bit (32 - n) x"

record sha256_ctx =
  h :: "u32 list"
  len :: u64
  buf :: "u8 list"
  buf_len :: nat

definition copy_mem :: "u8 list \<Rightarrow> nat \<Rightarrow> u8 list \<Rightarrow> nat \<Rightarrow> u8 list" where
  "copy_mem dst off src n = fold (\<lambda>i d. d[off + i := src ! i]) [0..<n] dst"

definition set_mem :: "u8 list \<Rightarrow> nat \<Rightarrow> u8 \<Rightarrow> nat \<Rightarrow> u8 list" where
  "set_mem dst off v n = fold (\<lambda>i d. d[off + i := v]) [0..<n] dst"

text \<open>The message schedule: the first loop reads big-endian words, the second one extends them.\<close>

definition sha256_word :: "u8 list \<Rightarrow> nat \<Rightarrow> u32" where
  "sha256_word block i =
     push_bit 24 (ucast (block ! (i * 4))) OR push_bit 16 (ucast (block ! (i * 4 + 1))) OR
     push_bit 8 (ucast (block ! (i * 4 + 2))) OR ucast (block ! (i * 4 + 3))"

definition sha256_extend :: "nat \<Rightarrow> u32 list \<Rightarrow> u32 list" where
  "sha256_extend i w =
     (let s0 = ROTR (w ! (i - 15)) 7 XOR ROTR (w ! (i - 15)) 18 XOR drop_bit 3 (w ! (i - 15));
          s1 = ROTR (w ! (i - 2)) 17 XOR ROTR (w ! (i - 2)) 19 XOR drop_bit 10 (w ! (i - 2))
      in w[i := w ! (i - 16) + s0 + w ! (i - 7) + s1])"

definition sha256_schedule :: "u8 list \<Rightarrow> u32 list" where
  "sha256_schedule block =
     fold sha256_extend [16..<64] (fold (\<lambda>i w. w[i := sha256_word block i]) [0..<16] (replicate 64 0))"

type_synonym regs = "u32 \<times> u32 \<times> u32 \<times> u32 \<times> u32 \<times> u32 \<times> u32 \<times> u32"

fun sha256_round :: "u32 list \<Rightarrow> u32 list \<Rightarrow> nat \<Rightarrow> regs \<Rightarrow> regs" where
  "sha256_round kt w i (a, b, c, d, e, f, g, hh) =
     (let big_s1 = ROTR e 6 XOR ROTR e 11 XOR ROTR e 25;
          ch = (e AND f) XOR (NOT e AND g);
          t1 = hh + big_s1 + ch + kt ! i + w ! i;
          big_s0 = ROTR a 2 XOR ROTR a 13 XOR ROTR a 22;
          maj = (a AND b) XOR (a AND c) XOR (b AND c);
          t2 = big_s0 + maj
      in (t1 + t2, a, b, c, d + t1, e, f, g))"

definition sha256_transform :: "u32 list \<Rightarrow> u32 list \<Rightarrow> u8 list \<Rightarrow> u32 list" where
  "sha256_transform kt hs block =
     (let w = sha256_schedule block;
          (a, b, c, d, e, f, g, hh) = fold (sha256_round kt w) [0..<64]
            (hs ! 0, hs ! 1, hs ! 2, hs ! 3, hs ! 4, hs ! 5, hs ! 6, hs ! 7)
      in [hs ! 0 + a, hs ! 1 + b, hs ! 2 + c, hs ! 3 + d, hs ! 4 + e, hs ! 5 + f, hs ! 6 + g, hs ! 7 + hh])"

definition sha256_h0 :: "u32 list" where
  "sha256_h0 = [0x6a09e667, 0xbb67ae85, 0x3c6ef372, 0xa54ff53a, 0x510e527f, 0x9b05688c, 0x1f83d9ab, 0x5be0cd19]"

definition sha256_init :: "sha256_ctx \<Rightarrow> sha256_ctx" where
  "sha256_init c = c\<lparr>h := sha256_h0, len := 0, buf_len := 0\<rparr>"

text \<open>The loop over the whole blocks of the input.\<close>

function sha256_blocks :: "u32 list \<Rightarrow> u32 list \<Rightarrow> u8 list \<Rightarrow> u32 list \<times> u8 list" where
  "sha256_blocks kt hs p =
     (if length p \<ge> 64 then sha256_blocks kt (sha256_transform kt hs (take 64 p)) (drop 64 p) else (hs, p))"
  by pat_completeness auto
termination by (relation "measure (\<lambda>(kt, hs, p). length p)") auto

declare sha256_blocks.simps [simp del]

definition sha256_update :: "u32 list \<Rightarrow> u8 list \<Rightarrow> sha256_ctx \<Rightarrow> sha256_ctx" where
  "sha256_update kt data c =
     (let c = c\<lparr>len := len c + of_nat (length data)\<rparr>;
          (c, p) =
            (if buf_len c \<noteq> 0 then
               (let need = 64 - buf_len c;
                    tk = (if length data < need then length data else need);
                    c = c\<lparr>buf := copy_mem (buf c) (buf_len c) data tk, buf_len := buf_len c + tk\<rparr>;
                    p = drop tk data
                in if buf_len c = 64 then (c\<lparr>h := sha256_transform kt (h c) (buf c), buf_len := 0\<rparr>, p) else (c, p))
             else (c, data));
          (hs, p) = sha256_blocks kt (h c) p;
          c = c\<lparr>h := hs\<rparr>
      in if length p \<noteq> 0 then c\<lparr>buf := copy_mem (buf c) 0 p (length p), buf_len := length p\<rparr> else c)"

partial_function (option) sha256_pad :: "u32 list \<Rightarrow> sha256_ctx \<Rightarrow> sha256_ctx option" where
  "sha256_pad kt c = (if buf_len c \<noteq> 56 then sha256_pad kt (sha256_update kt [0] c) else Some c)"

definition be32 :: "u32 \<Rightarrow> u8 list" where
  "be32 x = [ucast (drop_bit 24 x), ucast (drop_bit 16 x), ucast (drop_bit 8 x), ucast x]"

definition be64 :: "u64 \<Rightarrow> u8 list" where
  "be64 bits = map (\<lambda>i. ucast (drop_bit (56 - 8 * i) bits)) [0..<8]"

definition sha256_final :: "u32 list \<Rightarrow> sha256_ctx \<Rightarrow> (u8 list \<times> sha256_ctx) option" where
  "sha256_final kt c =
     (let bits = len c * 8; c = sha256_update kt [0x80] c in
      do { c \<leftarrow> sha256_pad kt c;
           let c = sha256_update kt (be64 bits) c;
           Some (concat (map (\<lambda>i. be32 (h c ! i)) [0..<8]), c) })"

definition sha256 :: "u32 list \<Rightarrow> sha256_ctx \<Rightarrow> u8 list \<Rightarrow> u8 list option" where
  "sha256 kt c data = map_option fst (sha256_final kt (sha256_update kt data (sha256_init c)))"

section \<open>The specification\<close>

text \<open>FIPS 180-4, over a table of round constants: the padded message is cut into blocks, and the
  compression function of the model is folded over them.\<close>

definition sha256_padding :: "u8 list \<Rightarrow> u8 list" where
  "sha256_padding msg = 0x80 # replicate ((119 - length msg mod 64) mod 64) 0 @ be64 (of_nat (8 * length msg))"

definition sha256_spec :: "u32 list \<Rightarrow> u8 list \<Rightarrow> u8 list" where
  "sha256_spec kt msg = concat (map be32 (fst (sha256_blocks kt sha256_h0 (msg @ sha256_padding msg))))"

section \<open>Streaming\<close>

lemma length_fold_update [simp]: "length (fold (\<lambda>i d. d[f i := g i]) is xs) = length xs"
  by (induction "is" arbitrary: xs) auto

lemma copy_mem_eq:
  assumes "off + n \<le> length dst" and "n \<le> length src"
  shows "copy_mem dst off src n = take off dst @ take n src @ drop (off + n) dst"
  using assms
proof (induction n)
  case (Suc n)
  have "copy_mem dst off src (Suc n) = (copy_mem dst off src n)[off + n := src ! n]"
    by (simp add: copy_mem_def)
  also have "\<dots> = (take off dst @ take n src @ drop (off + n) dst)[off + n := src ! n]"
    using Suc by simp
  also have "drop (off + n) dst = dst ! (off + n) # drop (off + Suc n) dst"
    using Suc.prems by (simp add: Cons_nth_drop_Suc)
  also have "(take off dst @ take n src @ dst ! (off + n) # drop (off + Suc n) dst)[off + n := src ! n] =
      take off dst @ take n src @ src ! n # drop (off + Suc n) dst"
    using Suc.prems by (simp add: list_update_append)
  finally show ?case using Suc.prems by (simp add: take_Suc_conv_app_nth)
qed (simp add: copy_mem_def)

lemma length_copy_mem [simp]: "length (copy_mem dst off src n) = length dst"
  by (simp add: copy_mem_def)

lemma sha256_blocks_short: "length p < 64 \<Longrightarrow> sha256_blocks kt hs p = (hs, p)"
  by (subst sha256_blocks.simps) simp

lemma sha256_blocks_rest: "length (snd (sha256_blocks kt hs p)) = length p mod 64"
proof (induction kt hs p rule: sha256_blocks.induct)
  case (1 kt hs p)
  show ?case
  proof (cases "length p \<ge> 64")
    case True
    then show ?thesis using 1 by (subst sha256_blocks.simps) (simp add: le_mod_geq)
  qed (simp add: sha256_blocks_short)
qed

lemma sha256_blocks_append:
  "sha256_blocks kt hs p = (hs', r) \<Longrightarrow> sha256_blocks kt hs (p @ q) = sha256_blocks kt hs' (r @ q)"
proof (induction kt hs p rule: sha256_blocks.induct)
  case (1 kt hs p)
  show ?case
  proof (cases "length p \<ge> 64")
    case True
    then have "sha256_blocks kt (sha256_transform kt hs (take 64 p)) (drop 64 p) = (hs', r)"
      using 1(2) by (subst (asm) sha256_blocks.simps) simp
    then have "sha256_blocks kt (sha256_transform kt hs (take 64 p)) (drop 64 p @ q) = sha256_blocks kt hs' (r @ q)"
      using 1(1) True by simp
    then show ?thesis using True by (subst sha256_blocks.simps) simp
  next
    case False
    then show ?thesis using 1(2) by (simp add: sha256_blocks_short)
  qed
qed

lemma sha256_blocks_one:
  "length p = 64 \<Longrightarrow> sha256_blocks kt hs (p @ q) = sha256_blocks kt (sha256_transform kt hs p) q"
  by (subst sha256_blocks.simps) simp

text \<open>A context that has absorbed \<open>msg\<close>.\<close>

definition absorbed :: "u32 list \<Rightarrow> u8 list \<Rightarrow> sha256_ctx \<Rightarrow> bool" where
  "absorbed kt msg c \<longleftrightarrow>
     length (buf c) = 64 \<and> buf_len c < 64 \<and> len c = of_nat (length msg) \<and>
     sha256_blocks kt sha256_h0 msg = (h c, take (buf_len c) (buf c))"

lemma absorbed_init: "length (buf c) = 64 \<Longrightarrow> absorbed kt [] (sha256_init c)"
  by (simp add: absorbed_def sha256_init_def sha256_blocks_short)

lemma absorbed_buf_len: "absorbed kt msg c \<Longrightarrow> buf_len c = length msg mod 64"
  using sha256_blocks_rest [of kt sha256_h0 msg] by (simp add: absorbed_def)

text \<open>The end of \<open>sha256_update\<close>: whole blocks, then the rest into the empty buffer.\<close>

definition sha256_tail :: "u32 list \<Rightarrow> u8 list \<Rightarrow> sha256_ctx \<Rightarrow> sha256_ctx" where
  "sha256_tail kt p c =
     (let (hs, p) = sha256_blocks kt (h c) p; c = c\<lparr>h := hs\<rparr>
      in if length p \<noteq> 0 then c\<lparr>buf := copy_mem (buf c) 0 p (length p), buf_len := length p\<rparr> else c)"

lemma sha256_tail_spec:
  assumes "length (buf c) = 64" and "buf_len c = 0"
  shows "length (buf (sha256_tail kt p c)) = 64 \<and> buf_len (sha256_tail kt p c) < 64 \<and> len (sha256_tail kt p c) = len c \<and>
    sha256_blocks kt (h c) p = (h (sha256_tail kt p c), take (buf_len (sha256_tail kt p c)) (buf (sha256_tail kt p c)))"
proof -
  obtain hs q where q: "sha256_blocks kt (h c) p = (hs, q)" by fastforce
  have "length q < 64" using sha256_blocks_rest [of kt "h c" p] q by simp
  with q assms show ?thesis by (simp add: sha256_tail_def Let_def copy_mem_eq)
qed

lemma sha256_update_eq:
  "sha256_update kt data c =
     (let c = c\<lparr>len := len c + of_nat (length data)\<rparr> in
      if buf_len c = 0 then sha256_tail kt data c
      else
        (let need = 64 - buf_len c; tk = (if length data < need then length data else need);
             c = c\<lparr>buf := copy_mem (buf c) (buf_len c) data tk, buf_len := buf_len c + tk\<rparr>
         in if buf_len c = 64 then sha256_tail kt (drop tk data) (c\<lparr>h := sha256_transform kt (h c) (buf c), buf_len := 0\<rparr>)
            else sha256_tail kt (drop tk data) c))"
  by (simp add: sha256_update_def sha256_tail_def Let_def split: prod.split)

lemma absorbed_update:
  assumes a: "absorbed kt msg c"
  shows "absorbed kt (msg @ data) (sha256_update kt data c)"
proof -
  note r = a [unfolded absorbed_def]
  let ?b = "take (buf_len c) (buf c)" and ?c = "c\<lparr>len := len c + of_nat (length data)\<rparr>"
  have blk: "sha256_blocks kt sha256_h0 (msg @ data) = sha256_blocks kt (h c) (?b @ data)"
    using r by (intro sha256_blocks_append) simp
  consider "buf_len c = 0" | "buf_len c \<noteq> 0" "length data < 64 - buf_len c"
    | "buf_len c \<noteq> 0" "\<not> length data < 64 - buf_len c" by blast
  then show ?thesis
  proof cases
    case 1
    then show ?thesis using r blk sha256_tail_spec [of ?c kt data] by (simp add: absorbed_def sha256_update_eq Let_def)
  next
    case 2
    then have "sha256_blocks kt (h c) (?b @ data) = (h c, ?b @ data)" using r by (intro sha256_blocks_short) simp
    with 2 r blk show ?thesis
      by (auto simp: absorbed_def sha256_update_eq sha256_tail_def Let_def copy_mem_eq sha256_blocks_short)
  next
    case 3
    define need where "need = 64 - buf_len c"
    define p where "p = drop need data"
    let ?d = "?c\<lparr>buf := ?b @ take need data, h := sha256_transform kt (h c) (?b @ take need data), buf_len := 0\<rparr>"
    have e: "?b @ data = (?b @ take need data) @ p" by (simp add: p_def)
    have l: "length (?b @ take need data) = 64" using r 3 by (simp add: need_def)
    then have blk2: "sha256_blocks kt sha256_h0 (msg @ data) = sha256_blocks kt (h ?d) p"
      unfolding blk e by (simp add: sha256_blocks_one del: append_assoc)
    have cm: "copy_mem (buf c) (buf_len c) data need = ?b @ take need data"
      using r 3 by (simp add: copy_mem_eq need_def)
    have "sha256_update kt data c = sha256_tail kt p ?d"
      using 3 r cm by (simp add: sha256_update_eq Let_def p_def flip: need_def)
        (simp add: need_def)
    then show ?thesis using sha256_tail_spec [of ?d kt p] l r blk2 by (simp add: absorbed_def)
  qed
qed

text \<open>The padding loop ends after the zeros that bring the length to 56 modulo 64.\<close>

lemma mod_add_ne: "0 < k \<Longrightarrow> k < (n :: nat) \<Longrightarrow> (m + k) mod n \<noteq> m mod n"
  by (metis add_cancel_left_right mod_add_cong mod_less mod_mod_trivial nat_dvd_not_less mod_eq_dvd_iff_nat
      diff_add_inverse le_add1)

lemma sha256_pad_absorbed:
  "absorbed kt msg c \<Longrightarrow> (length msg + k) mod 64 = 56 \<Longrightarrow> k < 64 \<Longrightarrow>
   \<exists>c'. sha256_pad kt c = Some c' \<and> absorbed kt (msg @ replicate k 0) c'"
proof (induction k arbitrary: msg c)
  case 0
  then have "buf_len c = 56" by (simp only: absorbed_buf_len add_0_right)
  then have "sha256_pad kt c = Some c" by (subst sha256_pad.simps) simp
  with 0 show ?case by simp
next
  case (Suc k)
  have "buf_len c \<noteq> 56"
    using mod_add_ne [of "Suc k" 64 "length msg"] Suc.prems(2,3) absorbed_buf_len [OF Suc.prems(1)] by linarith
  then have e: "sha256_pad kt c = sha256_pad kt (sha256_update kt [0] c)" by (subst sha256_pad.simps) simp
  have a: "absorbed kt (msg @ [0]) (sha256_update kt [0] c)" by (rule absorbed_update) (rule Suc.prems)
  have "(length (msg @ [0]) + k) mod 64 = 56" using Suc.prems(2) by (simp only: length_append list.size add_Suc_right add_Suc add_0_right)
  from Suc.IH [OF a this] Suc.prems(3) obtain c' where
    "sha256_pad kt (sha256_update kt [0] c) = Some c'" "absorbed kt ((msg @ [0]) @ replicate k 0) c'" by auto
  with e show ?case by auto
qed


lemma length_sha256_blocks: "length hs = 8 \<Longrightarrow> length (fst (sha256_blocks kt hs p)) = 8"
proof (induction kt hs p rule: sha256_blocks.induct)
  case (1 kt hs p)
  have "length (sha256_transform kt hs b) = 8" for b
    by (simp add: sha256_transform_def Let_def split: prod.split)
  with 1 show ?case by (cases "length p \<ge> 64") (subst sha256_blocks.simps, simp)+
qed

lemma length_be64 [simp]: "length (be64 x) = 8"
  by (simp add: be64_def)

lemma sha256_final_absorbed:
  assumes a: "absorbed kt msg c"
  shows "\<exists>c'. sha256_final kt c = Some (sha256_spec kt msg, c')"
proof -
  define k where "k = (119 - length msg mod 64) mod 64"
  have k: "(length (msg @ [0x80]) + k) mod 64 = 56" "k < 64"
  proof -
    obtain b where b: "b = 119 - length msg mod 64" by blast
    have "length msg mod 64 < 64" by simp
    then have "length msg mod 64 + 1 + b = 120" using b by linarith
    moreover have "(length msg + 1 + b mod 64) mod 64 = (length msg mod 64 + 1 + b) mod 64"
      by (metis (no_types, opaque_lifting) add.assoc mod_add_left_eq mod_add_right_eq)
    ultimately show "(length (msg @ [0x80]) + k) mod 64 = 56" by (simp add: k_def flip: b)
  qed (simp add: k_def)
  have "absorbed kt (msg @ [0x80]) (sha256_update kt [0x80] c)" using a by (rule absorbed_update)
  from sha256_pad_absorbed [OF this k] obtain d where
    d: "sha256_pad kt (sha256_update kt [0x80] c) = Some d" "absorbed kt ((msg @ [0x80]) @ replicate k 0) d" by blast
  have bits: "len c * 8 = of_nat (8 * length msg)" using a by (simp add: absorbed_def)
  let ?e = "sha256_update kt (be64 (len c * 8)) d" and ?m = "msg @ sha256_padding msg"
  have "absorbed kt (((msg @ [0x80]) @ replicate k 0) @ be64 (len c * 8)) ?e" using d(2) by (rule absorbed_update)
  moreover have "((msg @ [0x80]) @ replicate k 0) @ be64 (len c * 8) = ?m"
    by (simp add: sha256_padding_def bits k_def)
  ultimately have "h ?e = fst (sha256_blocks kt sha256_h0 ?m)" by (simp add: absorbed_def)
  moreover have "length (fst (sha256_blocks kt sha256_h0 ?m)) = 8"
    by (rule length_sha256_blocks) (simp add: sha256_h0_def)
  ultimately have "concat (map (\<lambda>i. be32 (h ?e ! i)) [0..<8]) = sha256_spec kt msg"
    unfolding sha256_spec_def by (metis map_map [unfolded comp_def] map_nth)
  then show ?thesis using d(1) by (simp add: sha256_final_def Let_def)
qed

lemma absorbed_fold: "absorbed kt msg c \<Longrightarrow> absorbed kt (msg @ concat ds) (fold (sha256_update kt) ds c)"
proof (induction ds arbitrary: msg c)
  case (Cons d ds)
  then show ?case using absorbed_update [OF Cons.prems, of d] by fastforce
qed simp

text \<open>
  C27. For every table of round constants, streaming SHA-256 computes the padded block hash of
  FIPS 180-4 over that table: whatever the sequence of chunks passed to
  \<open>sha256_update\<close>, \<open>sha256_final\<close> returns (its padding loop ends) the digest that the specification
  gives for their concatenation; the digest does not depend on how the input was cut.
\<close>

theorem sha256_stream:
  assumes "length (buf c) = 64"
  shows "map_option fst (sha256_final kt (fold (sha256_update kt) ds (sha256_init c))) = Some (sha256_spec kt (concat ds))"
proof -
  have "absorbed kt ([] @ concat ds) (fold (sha256_update kt) ds (sha256_init c))"
    by (rule absorbed_fold) (rule absorbed_init [OF assms])
  from sha256_final_absorbed [OF this] show ?thesis by auto
qed




theorem sha256_stream_witness:
  "length (buf \<lparr>h = [], len = 0, buf = replicate 64 9, buf_len = 3\<rparr>) = 64 \<and>
   map_option fst (sha256_final (replicate 64 5) (fold (sha256_update (replicate 64 5)) [[0x61], [0x62, 0x63]]
     (sha256_init \<lparr>h = [], len = 0, buf = replicate 64 9, buf_len = 3\<rparr>))) =
   Some (sha256_spec (replicate 64 5) [0x61, 0x62, 0x63])"
proof -
  have l: "length (buf \<lparr>h = [], len = 0, buf = replicate 64 9, buf_len = 3\<rparr>) = 64" by simp
  show ?thesis
    using sha256_stream [OF l, of "replicate 64 5" "[[0x61], [0x62, 0x63]]"] l
    by (simp only: concat.simps append.simps append_Nil2 simp_thms)
qed

section \<open>HMAC\<close>

record hmac_sha256_ctx =
  inner :: sha256_ctx
  outer :: sha256_ctx

text \<open>
  The uninitialised locals are parameters: the array \<open>k\<close> starts with contents \<open>k0\<close>, and the context
  of the nested call of \<open>sha256\<close> with contents \<open>s0\<close>.
\<close>

definition hmac_sha256_init :: "u32 list \<Rightarrow> u8 list \<Rightarrow> sha256_ctx \<Rightarrow> u8 list \<Rightarrow> hmac_sha256_ctx \<Rightarrow> hmac_sha256_ctx option" where
  "hmac_sha256_init kt k0 s0 key c =
     (let n = length key in
      do { k \<leftarrow> (if n > 64 then
                  do { d \<leftarrow> sha256 kt s0 key; Some (set_mem (copy_mem k0 0 d 32) 32 0 32) }
                else Some (set_mem (copy_mem k0 0 key n) n 0 (64 - n)));
           let ipad = map (\<lambda>i. k ! i XOR 0x36) [0..<64];
           let opad = map (\<lambda>i. k ! i XOR 0x5c) [0..<64];
           Some (c\<lparr>inner := sha256_update kt ipad (sha256_init (inner c)),
                   outer := sha256_update kt opad (sha256_init (outer c))\<rparr>) })"

definition hmac_sha256_update :: "u32 list \<Rightarrow> u8 list \<Rightarrow> hmac_sha256_ctx \<Rightarrow> hmac_sha256_ctx" where
  "hmac_sha256_update kt data c = c\<lparr>inner := sha256_update kt data (inner c)\<rparr>"

definition hmac_sha256_final :: "u32 list \<Rightarrow> hmac_sha256_ctx \<Rightarrow> (u8 list \<times> hmac_sha256_ctx) option" where
  "hmac_sha256_final kt c =
     do { (inner_hash, i) \<leftarrow> sha256_final kt (inner c);
          (out, o') \<leftarrow> sha256_final kt (sha256_update kt inner_hash (outer c));
          Some (out, c\<lparr>inner := i, outer := o'\<rparr>) }"

definition hmac_sha256 :: "u32 list \<Rightarrow> u8 list \<Rightarrow> sha256_ctx \<Rightarrow> hmac_sha256_ctx \<Rightarrow> u8 list \<Rightarrow> u8 list \<Rightarrow> u8 list option" where
  "hmac_sha256 kt k0 s0 c key msg =
     do { c \<leftarrow> hmac_sha256_init kt k0 s0 key c;
          let c = hmac_sha256_update kt msg c;
          (out, c) \<leftarrow> hmac_sha256_final kt c;
          Some out }"

text \<open>RFC 2104.\<close>

definition hmac_key :: "u32 list \<Rightarrow> u8 list \<Rightarrow> u8 list" where
  "hmac_key kt key = (let k = (if length key > 64 then sha256_spec kt key else key) in k @ replicate (64 - length k) 0)"

definition hmac_spec :: "u32 list \<Rightarrow> u8 list \<Rightarrow> u8 list \<Rightarrow> u8 list" where
  "hmac_spec kt key msg =
     sha256_spec kt (map (\<lambda>b. b XOR 0x5c) (hmac_key kt key) @ sha256_spec kt (map (\<lambda>b. b XOR 0x36) (hmac_key kt key) @ msg))"

lemma set_mem_eq:
  assumes "off + n \<le> length dst"
  shows "set_mem dst off v n = take off dst @ replicate n v @ drop (off + n) dst"
proof -
  have "set_mem dst off v n = copy_mem dst off (replicate n v) n"
    unfolding set_mem_def copy_mem_def by (intro fold_cong) auto
  then show ?thesis using assms by (simp add: copy_mem_eq)
qed

lemma length_sha256_spec [simp]: "length (sha256_spec kt msg) = 32"
proof -
  have "length (concat (map be32 xs)) = 4 * length xs" for xs by (induction xs) (simp_all add: be32_def)
  then show ?thesis
    using length_sha256_blocks [of sha256_h0 kt "msg @ sha256_padding msg"] by (simp add: sha256_spec_def sha256_h0_def)
qed

lemma sha256_correct: "length (buf c) = 64 \<Longrightarrow> sha256 kt c data = Some (sha256_spec kt data)"
  using sha256_final_absorbed [OF absorbed_update [OF absorbed_init, of c kt data]] by (auto simp: sha256_def)

text \<open>An HMAC context keyed with \<open>key\<close> that has absorbed \<open>msg\<close>.\<close>

definition hmac_rep :: "u32 list \<Rightarrow> u8 list \<Rightarrow> u8 list \<Rightarrow> hmac_sha256_ctx \<Rightarrow> bool" where
  "hmac_rep kt key msg c \<longleftrightarrow>
     absorbed kt (map (\<lambda>b. b XOR 0x36) (hmac_key kt key) @ msg) (inner c) \<and>
     absorbed kt (map (\<lambda>b. b XOR 0x5c) (hmac_key kt key)) (outer c)"

definition hmac_space :: "u8 list \<Rightarrow> sha256_ctx \<Rightarrow> hmac_sha256_ctx \<Rightarrow> bool" where
  "hmac_space k0 s0 c \<longleftrightarrow> length k0 = 64 \<and> length (buf s0) = 64 \<and> length (buf (inner c)) = 64 \<and> length (buf (outer c)) = 64"

lemma map_nth_upto: "length k = n \<Longrightarrow> map (\<lambda>i. f (k ! i)) [0..<n] = map f k"
  by (metis map_map [unfolded comp_def] map_nth)

lemma hmac_init_rep:
  assumes s: "hmac_space k0 s0 c"
  shows "\<exists>c'. hmac_sha256_init kt k0 s0 key c = Some c' \<and> hmac_rep kt key [] c'"
proof -
  define k where "k = (if length key > 64 then set_mem (copy_mem k0 0 (sha256_spec kt key) 32) 32 0 32
      else set_mem (copy_mem k0 0 key (length key)) (length key) 0 (64 - length key))"
  have k: "k = hmac_key kt key"
    using s by (auto simp: k_def hmac_key_def hmac_space_def set_mem_eq copy_mem_eq min_def Let_def)
  have l: "length (hmac_key kt key) = 64" by (simp add: hmac_key_def Let_def)
  have "hmac_sha256_init kt k0 s0 key c = Some (c\<lparr>
      inner := sha256_update kt (map (\<lambda>b. b XOR 0x36) (hmac_key kt key)) (sha256_init (inner c)),
      outer := sha256_update kt (map (\<lambda>b. b XOR 0x5c) (hmac_key kt key)) (sha256_init (outer c))\<rparr>)"
    using s sha256_correct [of s0 kt key] map_nth_upto [OF l, of "\<lambda>b. b XOR 0x36"]
      map_nth_upto [OF l, of "\<lambda>b. b XOR 0x5c"] k [unfolded k_def]
    by (cases "length key > 64") (simp_all add: hmac_sha256_init_def Let_def hmac_space_def)
  moreover have "absorbed kt ([] @ d) (sha256_update kt d (sha256_init x))" if "length (buf x) = 64" for d x
    by (rule absorbed_update) (rule absorbed_init [OF that])
  ultimately show ?thesis using s by (auto simp: hmac_rep_def hmac_space_def)
qed

lemma hmac_update_rep: "hmac_rep kt key msg c \<Longrightarrow> hmac_rep kt key (msg @ data) (hmac_sha256_update kt data c)"
  using absorbed_update [of kt "map (\<lambda>b. b XOR 0x36) (hmac_key kt key) @ msg" "inner c" data]
  by (simp add: hmac_rep_def hmac_sha256_update_def)

lemma hmac_final_rep:
  assumes "hmac_rep kt key msg c"
  shows "\<exists>c'. hmac_sha256_final kt c = Some (hmac_spec kt key msg, c')"
proof -
  let ?ih = "sha256_spec kt (map (\<lambda>b. b XOR 0x36) (hmac_key kt key) @ msg)"
  obtain i where i: "sha256_final kt (inner c) = Some (?ih, i)"
    using assms sha256_final_absorbed [of kt "map (\<lambda>b. b XOR 0x36) (hmac_key kt key) @ msg"] by (auto simp: hmac_rep_def)
  have "absorbed kt (map (\<lambda>b. b XOR 0x5c) (hmac_key kt key) @ ?ih) (sha256_update kt ?ih (outer c))"
    using assms by (intro absorbed_update) (simp add: hmac_rep_def)
  from sha256_final_absorbed [OF this] i show ?thesis
    by (auto simp: hmac_sha256_final_def hmac_spec_def)
qed

lemma hmac_sha256_correct: "hmac_space k0 s0 c \<Longrightarrow> hmac_sha256 kt k0 s0 c key msg = Some (hmac_spec kt key msg)"
  using hmac_init_rep [of k0 s0 c kt key] hmac_final_rep hmac_update_rep [of kt key "[]" _ msg]
  by (fastforce simp: hmac_sha256_def)

section \<open>HKDF\<close>

definition hkdf_extract :: "u32 list \<Rightarrow> u8 list \<Rightarrow> sha256_ctx \<Rightarrow> hmac_sha256_ctx \<Rightarrow> u8 list \<Rightarrow> u8 list \<Rightarrow> u8 list option" where
  "hkdf_extract kt k0 s0 c salt ikm =
     (if length salt = 0 then hmac_sha256 kt k0 s0 c (replicate 32 0) ikm
      else hmac_sha256 kt k0 s0 c salt ikm)"

text \<open>One pass of the loop body up to the call of \<open>hmac_sha256_final\<close>: the next block \<open>t\<close>.\<close>

definition hkdf_block :: "u32 list \<Rightarrow> u8 list \<Rightarrow> sha256_ctx \<Rightarrow> hmac_sha256_ctx \<Rightarrow> u8 list \<Rightarrow> u8 list \<Rightarrow> u8 list \<Rightarrow> u8 \<Rightarrow>
    u8 list option" where
  "hkdf_block kt k0 s0 c prk info t counter =
     do { c \<leftarrow> hmac_sha256_init kt k0 s0 (take 32 prk) c;
          let c = (if counter > 1 then hmac_sha256_update kt t c else c);
          let c = (if length info \<noteq> 0 then hmac_sha256_update kt info c else c);
          let c = hmac_sha256_update kt [counter] c;
          (t, c) \<leftarrow> hmac_sha256_final kt c;
          Some t }"

function hkdf_loop :: "(u8 list \<Rightarrow> u8 \<Rightarrow> u8 list option) \<Rightarrow> nat \<Rightarrow> u8 list \<Rightarrow> u8 \<Rightarrow> nat \<Rightarrow> u8 list \<Rightarrow>
    u8 list option" where
  "hkdf_loop block out_len t counter off out =
     (if off < out_len then
        (case block t counter of
           None \<Rightarrow> None
         | Some t \<Rightarrow>
             (let n = out_len - off; n = (if n > 32 then 32 else n) in
              hkdf_loop block out_len t (counter + 1) (off + n) (copy_mem out off t n)))
      else Some out)"
  by pat_completeness auto
termination by (relation "measure (\<lambda>(_, out_len, _, _, off, _). out_len - off)") auto

declare hkdf_loop.simps [simp del]

definition hkdf_expand :: "u32 list \<Rightarrow> u8 list \<Rightarrow> sha256_ctx \<Rightarrow> hmac_sha256_ctx \<Rightarrow> u8 list \<Rightarrow> u8 list \<Rightarrow> u8 list \<Rightarrow> nat \<Rightarrow>
    u8 list option" where
  "hkdf_expand kt k0 s0 c prk info out out_len =
     (let out_len = (if out_len > 255 * 32 then 255 * 32 else out_len) in
      hkdf_loop (hkdf_block kt k0 s0 c prk info) out_len [] 1 0 out)"

text \<open>\<open>label\<close> is the C string without its terminator; \<open>label_len\<close> stops at 249.\<close>

definition hkdf_label :: "u8 list \<Rightarrow> u8 list \<Rightarrow> u32 \<Rightarrow> u8 list" where
  "hkdf_label label ctxt out_len =
     (let label_len = length (takeWhile (\<lambda>b. b \<noteq> 0) (take 249 label));
          context_len = (if length ctxt > 255 then 255 else length ctxt) in
      [ucast (drop_bit 8 out_len), ucast out_len, of_nat (6 + label_len)] @
      [0x74, 0x6c, 0x73, 0x31, 0x33, 0x20] @ take label_len label @
      [of_nat context_len] @ take context_len ctxt)"

definition hkdf_expand_label :: "u32 list \<Rightarrow> u8 list \<Rightarrow> sha256_ctx \<Rightarrow> hmac_sha256_ctx \<Rightarrow> u8 list \<Rightarrow> u8 list \<Rightarrow> u8 list \<Rightarrow>
    u8 list \<Rightarrow> u32 \<Rightarrow> u8 list option" where
  "hkdf_expand_label kt k0 s0 c secret label ctxt out out_len =
     hkdf_expand kt k0 s0 c secret (hkdf_label label ctxt out_len) out (unat out_len)"

text \<open>RFC 5869: \<open>T(0)\<close> is empty, and block \<open>i\<close> is the HMAC of the previous block, the info and \<open>i\<close>.\<close>

fun hkdf_T :: "u32 list \<Rightarrow> u8 list \<Rightarrow> u8 list \<Rightarrow> nat \<Rightarrow> u8 list" where
  "hkdf_T kt prk info 0 = []"
| "hkdf_T kt prk info (Suc i) = hmac_spec kt prk (hkdf_T kt prk info i @ info @ [of_nat (Suc i)])"

definition hkdf_spec :: "u32 list \<Rightarrow> u8 list \<Rightarrow> u8 list \<Rightarrow> nat \<Rightarrow> u8 list" where
  "hkdf_spec kt prk info L = take L (concat (map (\<lambda>i. hkdf_T kt prk info (Suc i)) [0..<(L + 31) div 32]))"

lemma length_hmac_spec [simp]: "length (hmac_spec kt key msg) = 32"
  by (simp add: hmac_spec_def)

lemma hkdf_block_correct:
  assumes "hmac_space k0 s0 c" "length prk = 32" "i < 255"
  shows "hkdf_block kt k0 s0 c prk info (hkdf_T kt prk info i) (of_nat (Suc i)) = Some (hkdf_T kt prk info (Suc i))"
proof -
  obtain c1 where c1: "hmac_sha256_init kt k0 s0 prk c = Some c1" "hmac_rep kt prk [] c1"
    using hmac_init_rep assms(1) by blast
  define c2 where "c2 = (if (of_nat (Suc i) :: u8) > 1 then hmac_sha256_update kt (hkdf_T kt prk info i) c1 else c1)"
  define c3 where "c3 = (if length info \<noteq> 0 then hmac_sha256_update kt info c2 else c2)"
  have cnt: "(of_nat (Suc i) :: u8) > 1 \<longleftrightarrow> i > 0"
    using assms(3) by (simp add: word_less_nat_alt unat_of_nat del: of_nat_Suc)
  have "hmac_rep kt prk (hkdf_T kt prk info i) c2"
    using c1 hmac_update_rep [OF c1(2), of "hkdf_T kt prk info i"] cnt by (cases i) (simp_all add: c2_def del: hkdf_T.simps(2) of_nat_Suc)
  then have "hmac_rep kt prk (hkdf_T kt prk info i @ info) c3"
    using hmac_update_rep by (auto simp: c3_def)
  from hmac_final_rep [OF hmac_update_rep [OF this, of "[of_nat (Suc i)]"]] c1 assms(2) show ?thesis
    by (auto simp: hkdf_block_def Let_def c2_def c3_def simp del: of_nat_Suc)
qed


lemma hkdf_loop_correct:
  assumes blk: "\<And>i. i < 255 \<Longrightarrow> block (T i) (of_nat (Suc i)) = Some (T (Suc i))"
    and len: "\<And>i. length (T (Suc i)) = 32"
    and L: "L \<le> 255 * 32" "L \<le> length out"
  shows "hkdf_loop block L (T i) (of_nat (Suc i)) (min L (32 * i)) out =
    Some (take (32 * i) (take L out) @ take (L - 32 * i) (concat (map (\<lambda>i. T (Suc i)) [i..<(L + 31) div 32])) @ drop L out)"
  using L(2)
proof (induction "L - 32 * i" arbitrary: i out rule: less_induct)
  case less
  show ?case
  proof (cases "32 * i < L")
    case False
    then show ?thesis by (simp add: hkdf_loop.simps [of _ L])
  next
    case True
    define n where "n = min 32 (L - 32 * i)"
    have i: "i < 255" "i < (L + 31) div 32" using True L(1) by simp_all
    have nxt: "32 * i + n = min L (32 * Suc i)" using True by (simp add: n_def)
    have cnt: "of_nat (Suc i) + 1 = (of_nat (Suc (Suc i)) :: u8)" by simp
    have out': "copy_mem out (32 * i) (T (Suc i)) n = take (32 * i) out @ take n (T (Suc i)) @ drop (32 * i + n) out"
      using less.prems True by (intro copy_mem_eq) (simp_all add: n_def len)
    have n_if: "(if L - 32 * i > 32 then 32 else L - 32 * i) = n" by (simp add: n_def)
    have "hkdf_loop block L (T i) (of_nat (Suc i)) (min L (32 * i)) out =
      hkdf_loop block L (T (Suc i)) (of_nat (Suc (Suc i))) (min L (32 * Suc i)) (copy_mem out (32 * i) (T (Suc i)) n)"
      using True blk [OF i(1)] nxt cnt n_if
      by (subst hkdf_loop.simps) (simp add: min_absorb2 Let_def del: of_nat_Suc)
    also have "\<dots> = Some (take (32 * Suc i) (take L (copy_mem out (32 * i) (T (Suc i)) n)) @
        take (L - 32 * Suc i) (concat (map (\<lambda>i. T (Suc i)) [Suc i..<(L + 31) div 32])) @
        drop L (copy_mem out (32 * i) (T (Suc i)) n))"
      using True less.prems by (intro less.hyps) (simp_all add: out' n_def len)
    also have "\<dots> = Some (take (32 * i) (take L out) @ (take n (T (Suc i)) @
        take (L - 32 * Suc i) (concat (map (\<lambda>i. T (Suc i)) [Suc i..<(L + 31) div 32]))) @ drop L out)"
      using True less.prems unfolding out'
      by (cases "32 * Suc i \<le> L") (simp_all add: n_def len min_absorb1 min_absorb2)
    also have "take n (T (Suc i)) @ take (L - 32 * Suc i) (concat (map (\<lambda>i. T (Suc i)) [Suc i..<(L + 31) div 32])) =
      take (L - 32 * i) (concat (map (\<lambda>i. T (Suc i)) [i..<(L + 31) div 32]))"
      using i(2) len [of i] by (simp add: upt_conv_Cons n_def min_def algebra_simps)
    finally show ?thesis by simp
  qed
qed

lemma hkdf_expand_eq:
  assumes "hmac_space k0 s0 c" "length prk = 32" "min out_len (255 * 32) \<le> length out"
  shows "hkdf_expand kt k0 s0 c prk info out out_len =
    Some (hkdf_spec kt prk info (min out_len (255 * 32)) @ drop (min out_len (255 * 32)) out)"
proof -
  let ?L = "min out_len (255 * 32)"
  have "(if out_len > 255 * 32 then 255 * 32 else out_len) = ?L" by simp
  moreover have "hkdf_loop (hkdf_block kt k0 s0 c prk info) ?L (hkdf_T kt prk info 0) (of_nat (Suc 0)) (min ?L (32 * 0)) out =
    Some (hkdf_spec kt prk info ?L @ drop ?L out)"
    using hkdf_loop_correct [of "hkdf_block kt k0 s0 c prk info" "hkdf_T kt prk info" ?L out 0]
      hkdf_block_correct [OF assms(1,2)] assms(3)
    by (simp add: hkdf_spec_def del: of_nat_Suc)
  ultimately show ?thesis by (simp add: hkdf_expand_def Let_def)
qed

lemma hkdf_label_length: "length (hkdf_label label ctxt out_len) \<le> 2 + 1 + 255 + 1 + 255"
proof -
  have "length (takeWhile (\<lambda>b. b \<noteq> 0) (take 249 label)) \<le> 249"
    by (rule order_trans [OF length_takeWhile_le]) simp
  then show ?thesis by (auto simp: hkdf_label_def Let_def)
qed

text \<open>
  C28. The HKDF code computes RFC 5869 over the digest, for every table of round constants: whatever the uninitialised locals
  held, \<open>hkdf_extract\<close> is the HMAC of the input keying material (an empty salt standing for 32 zero
  bytes), and \<open>hkdf_expand_label\<close> fills exactly the first \<open>out_len\<close> bytes of its output (cut off at
  255 blocks) with the key stream of the label, leaving the rest untouched; the label never overruns
  its 514-byte buffer.
\<close>
theorem hkdf_correct:
  assumes "hmac_space k0 s0 c" "length prk = 32" "min (unat out_len) (255 * 32) \<le> length out"
  shows "hkdf_extract kt k0 s0 c salt ikm = Some (hmac_spec kt (if salt = [] then replicate 32 0 else salt) ikm) \<and>
    hkdf_expand_label kt k0 s0 c prk label ctxt out out_len =
      Some (hkdf_spec kt prk (hkdf_label label ctxt out_len) (min (unat out_len) (255 * 32)) @
            drop (min (unat out_len) (255 * 32)) out) \<and>
    length (hkdf_label label ctxt out_len) \<le> 514"
  using hmac_sha256_correct [OF assms(1)] hkdf_expand_eq [OF assms] hkdf_label_length [of label ctxt out_len]
  by (simp add: hkdf_extract_def hkdf_expand_label_def)

theorem hkdf_correct_witness:
  "hmac_space (replicate 64 7) \<lparr>h = [], len = 3, buf = replicate 64 1, buf_len = 9\<rparr>
     \<lparr>inner = \<lparr>h = [], len = 0, buf = replicate 64 0, buf_len = 0\<rparr>,
      outer = \<lparr>h = [], len = 5, buf = replicate 64 2, buf_len = 0\<rparr>\<rparr> \<and>
   hkdf_expand_label (replicate 64 5) (replicate 64 7) \<lparr>h = [], len = 3, buf = replicate 64 1, buf_len = 9\<rparr>
     \<lparr>inner = \<lparr>h = [], len = 0, buf = replicate 64 0, buf_len = 0\<rparr>,
      outer = \<lparr>h = [], len = 5, buf = replicate 64 2, buf_len = 0\<rparr>\<rparr>
     (replicate 32 4) [0x69, 0x76] [] (replicate 16 0) 12 =
   Some (take 12 (hmac_spec (replicate 64 5) (replicate 32 4) [0, 12, 8, 0x74, 0x6c, 0x73, 0x31, 0x33, 0x20, 0x69, 0x76, 0, 1]) @
         replicate 4 0)"
proof -
  let ?s = "\<lparr>h = [], len = 3, buf = replicate 64 1, buf_len = 9\<rparr>"
  let ?c = "\<lparr>inner = \<lparr>h = [], len = 0, buf = replicate 64 0, buf_len = 0\<rparr>,
      outer = \<lparr>h = [], len = 5, buf = replicate 64 2, buf_len = 0\<rparr>\<rparr>"
  have sp: "hmac_space (replicate 64 7) ?s ?c" by (simp add: hmac_space_def)
  have l: "length (replicate 32 4 :: u8 list) = 32" "min (unat (12 :: u32)) (255 * 32) \<le> length (replicate 16 0 :: u8 list)"
    by simp_all
  have lab: "hkdf_label [0x69, 0x76] [] 12 = [0, 12, 8, 0x74, 0x6c, 0x73, 0x31, 0x33, 0x20, 0x69, 0x76, 0]"
    by code_simp
  have sp2: "hkdf_spec (replicate 64 5) (replicate 32 4) info 12 = take 12 (hmac_spec (replicate 64 5) (replicate 32 4) (info @ [1]))" for info
    by (simp add: hkdf_spec_def)
  show ?thesis
    using hkdf_correct [OF sp l, of "replicate 64 5" "[]" "[]" "[0x69, 0x76]" "[]"] sp by (simp add: lab sp2 drop_replicate)
qed

end
