(* ===== verification/Obj_Spec.thy ===== *)
theory Obj_Spec
  imports Main
begin

text \<open>
  The interface of a component that promises the behaviour of an abstract object: a concrete
  operation, on every state that satisfies the invariant, answers and moves as the specification does
  on the abstraction of that state. Whole sequences of operations then give the answers of the
  specification.
\<close>

fun obj_run :: "('op \<Rightarrow> 's \<Rightarrow> ('r \<times> 's) option) \<Rightarrow> 'op list \<Rightarrow> 's \<Rightarrow> ('r list \<times> 's) option" where
  "obj_run step [] s = Some ([], s)"
| "obj_run step (p # ps) s =
     (case step p s of
        None \<Rightarrow> None
      | Some (r, s) \<Rightarrow> (case obj_run step ps s of None \<Rightarrow> None | Some (rs, s) \<Rightarrow> Some (r # rs, s)))"

fun spec_run :: "('op \<Rightarrow> 'a \<Rightarrow> 'r \<times> 'a) \<Rightarrow> 'op list \<Rightarrow> 'a \<Rightarrow> 'r list \<times> 'a" where
  "spec_run spec [] a = ([], a)"
| "spec_run spec (p # ps) a = (let (r, a) = spec p a; (rs, a) = spec_run spec ps a in (r # rs, a))"

locale obj =
  fixes inv :: "'s \<Rightarrow> bool" and abs :: "'s \<Rightarrow> 'a" and legal :: "'op \<Rightarrow> bool"
    and step :: "'op \<Rightarrow> 's \<Rightarrow> ('r \<times> 's) option" and spec :: "'op \<Rightarrow> 'a \<Rightarrow> 'r \<times> 'a"
  assumes step_ok: "inv s \<Longrightarrow> legal p \<Longrightarrow>
    \<exists>s'. step p s = Some (fst (spec p (abs s)), s') \<and> inv s' \<and> abs s' = snd (spec p (abs s))"
begin

lemma run_ok:
  assumes "inv s" and "list_all legal ps"
  shows "\<exists>s'. obj_run step ps s = Some (fst (spec_run spec ps (abs s)), s') \<and> inv s' \<and>
    abs s' = snd (spec_run spec ps (abs s))"
  using assms
proof (induction ps arbitrary: s)
  case (Cons p ps)
  obtain s1 where s1: "step p s = Some (fst (spec p (abs s)), s1)" "inv s1" "abs s1 = snd (spec p (abs s))"
    using step_ok Cons.prems by force
  obtain s2 where "obj_run step ps s1 = Some (fst (spec_run spec ps (abs s1)), s2)" "inv s2"
    "abs s2 = snd (spec_run spec ps (abs s1))"
    using Cons.IH [OF s1(2)] Cons.prems by auto
  then show ?case using s1 by (auto simp: split_beta Let_def)
qed simp

end

end
