(* ===== verification/Pbcache.thy ===== *)
theory Pbcache
  imports CZ_Prelude Obj_Spec
begin

text \<open>
  The block cache of \<open>kernel/fs/pbcache.c\<close>. The slots in use are a list, a device is the record of
  \<open>pbcache.h\<close>, and the block driver behind \<open>BLOCK\<close> is a store of 512-byte sectors per disk, where disk 0
  is the null pointer. The cache lock is taken in short sections; between them a slot that is being
  filled or written back is marked \<open>busy\<close>. Each operation is split at those points, and its
  sequential reading is the composition of the parts.
\<close>

section \<open>State\<close>

record pbc_slot =
  valid :: bool
  dirty :: bool
  busy :: bool
  sdev :: u32
  sblk :: u32
  last_used :: u32
  sdata :: "u8 list"

record pbc_dev =
  dev_id :: u32
  disk :: nat
  start :: u32
  spb :: u32
  bs :: u32

record pbc =
  slots :: "pbc_slot list"
  pool_ready :: bool
  devs :: "pbc_dev list"
  seq :: u32
  bounce_blocks :: u32
  sectors :: "nat \<Rightarrow> u32 \<Rightarrow> u8 list"

datatype 'a deref = Null | Ret 'a

definition upd_slot :: "nat \<Rightarrow> (pbc_slot \<Rightarrow> pbc_slot) \<Rightarrow> pbc \<Rightarrow> pbc" where
  "upd_slot i f s = s\<lparr>slots := (slots s)[i := f (slots s ! i)]\<rparr>"

section \<open>Devices and sectors\<close>

definition dev_of :: "pbc_dev list \<Rightarrow> u32 \<Rightarrow> pbc_dev option" where
  "dev_of ds i = find (\<lambda>d. dev_id d = i) ds"

definition read_sectors :: "(nat \<Rightarrow> u32 \<Rightarrow> u8 list) \<Rightarrow> nat \<Rightarrow> u32 \<Rightarrow> nat \<Rightarrow> u8 list" where
  "read_sectors f d lba n = concat (map (\<lambda>k. f d (lba + of_nat k)) [0..<n])"

definition write_sectors :: "(nat \<Rightarrow> u32 \<Rightarrow> u8 list) \<Rightarrow> nat \<Rightarrow> u32 \<Rightarrow> u8 list \<Rightarrow> nat \<Rightarrow> nat \<Rightarrow> u32 \<Rightarrow> u8 list" where
  "write_sectors f d lba data n =
     fold (\<lambda>k f. f(d := (f d)(lba + of_nat k := take 512 (drop (512 * k) data)))) [0..<n] f"

definition pbc_fill_from_disk :: "pbc \<Rightarrow> pbc_dev option \<Rightarrow> u32 \<Rightarrow> u8 list \<Rightarrow> int \<times> u8 list" where
  "pbc_fill_from_disk s d blk dst =
     (case d of
        None \<Rightarrow> (- 1, dst)
      | Some d \<Rightarrow>
          if disk d = 0 then (- 1, dst)
          else (0, read_sectors (sectors s) (disk d) (start d + blk * spb d) (unat (spb d)) @
                   drop (512 * unat (spb d)) dst))"

definition pbc_write_to_disk :: "pbc_dev option \<Rightarrow> u32 \<Rightarrow> u8 list \<Rightarrow> pbc \<Rightarrow> pbc" where
  "pbc_write_to_disk d blk src s =
     (case d of
        None \<Rightarrow> s
      | Some d \<Rightarrow>
          if disk d = 0 then s
          else s\<lparr>sectors := write_sectors (sectors s) (disk d) (start d + blk * spb d) src (unat (spb d))\<rparr>)"

text \<open>
  Registration. \<open>mem n\<close> is the answer of the page allocator to a request for \<open>n\<close> pages: nothing, or the
  bytes of the pages.
\<close>

function pbc_pool :: "(nat \<Rightarrow> u8 list option) \<Rightarrow> nat \<Rightarrow> (nat \<times> u8 list) option" where
  "pbc_pool mem want =
     (if want \<ge> 64 then
        (case mem (want * 4096 div 4096) of
           Some base \<Rightarrow> Some (want, base)
         | None \<Rightarrow> pbc_pool mem (want div 2))
      else None)"
  by pat_completeness auto
termination by (relation "measure snd") auto

declare pbc_pool.simps [simp del]

definition pbc_dev_register :: "(nat \<Rightarrow> u8 list option) \<Rightarrow> pbc_dev \<Rightarrow> pbc \<Rightarrow> int \<times> pbc" where
  "pbc_dev_register mem dv s =
     (if dev_of (devs s) (dev_id dv) \<noteq> None then (0, s)
      else if length (devs s) \<ge> 4 then (- 1, s)
      else
        let s = (if pool_ready s then s
                 else case pbc_pool mem 512 of
                        None \<Rightarrow> s\<lparr>slots := [], pool_ready := True\<rparr>
                      | Some (want, base) \<Rightarrow>
                          s\<lparr>slots := map (\<lambda>i. \<lparr>valid = False, dirty = False, busy = False, sdev = 0, sblk = 0,
                               last_used = 0, sdata = take 4096 (drop (i * 4096) base)\<rparr>) [0..<want],
                            pool_ready := True\<rparr>)
        in (0, s\<lparr>devs := devs s @ [dv]\<rparr>))"

section \<open>Lookup and replacement\<close>

definition pbc_hit :: "u32 \<Rightarrow> u32 \<Rightarrow> pbc_slot \<Rightarrow> bool" where
  "pbc_hit d blk x \<longleftrightarrow> valid x \<and> \<not> busy x \<and> sdev x = d \<and> sblk x = blk"

definition pbc_find :: "pbc \<Rightarrow> u32 \<Rightarrow> u32 \<Rightarrow> nat option" where
  "pbc_find s d blk = find (\<lambda>i. pbc_hit d blk (slots s ! i)) [0..<length (slots s)]"

definition pbc_lru :: "pbc_slot list \<Rightarrow> nat option" where
  "pbc_lru xs =
     fold (\<lambda>i best. if busy (xs ! i) then best
                    else case best of
                           None \<Rightarrow> Some i
                         | Some b \<Rightarrow> if last_used (xs ! i) < last_used (xs ! b) then Some i else best)
       [0..<length xs] None"

text \<open>The victim, what it asks to write back (device, block and dirty flag), and the new state.\<close>

definition pbc_alloc :: "u32 \<Rightarrow> u32 \<Rightarrow> pbc \<Rightarrow> (nat \<times> (u32 \<times> u32 \<times> bool) \<times> pbc) option" where
  "pbc_alloc d blk s =
     (let claim = (\<lambda>x. x\<lparr>busy := True, sdev := d, sblk := blk, valid := False\<rparr>) in
      case find (\<lambda>i. \<not> valid (slots s ! i) \<and> \<not> busy (slots s ! i)) [0..<length (slots s)] of
        Some i \<Rightarrow> Some (i, (0, 0, False), upd_slot i claim s)
      | None \<Rightarrow>
          (case pbc_lru (slots s) of
             None \<Rightarrow> None
           | Some i \<Rightarrow> Some (i, (sdev (slots s ! i), sblk (slots s ! i), dirty (slots s ! i)), upd_slot i claim s)))"

section \<open>Reading a block\<close>

text \<open>
  The locked section that opens \<open>pbc_read\<close>: a hit on a slot, a miss that owns a victim with its
  pending write-back, or no slot at all. \<open>dev_of(dev)->bs\<close> of an unregistered device is a null
  dereference.
\<close>

datatype pbc_plan =
  Hit nat nat
| Miss nat pbc_dev "(pbc_dev option \<times> u32) option"
| Full

definition write_back :: "pbc \<Rightarrow> u32 \<times> u32 \<times> bool \<Rightarrow> (pbc_dev option \<times> u32) option" where
  "write_back s wb = (case wb of (od, ob, dt) \<Rightarrow> if dt then Some (dev_of (devs s) od, ob) else None)"

definition pbc_read_begin :: "u32 \<Rightarrow> u32 \<Rightarrow> pbc \<Rightarrow> (pbc_plan \<times> pbc) deref" where
  "pbc_read_begin d blk s =
     (case pbc_find s d blk of
        Some i \<Rightarrow>
          (case dev_of (devs s) d of
             None \<Rightarrow> Null
           | Some dv \<Rightarrow> Ret (Hit i (unat (bs dv)),
               (upd_slot i (\<lambda>x. x\<lparr>busy := True, last_used := seq s + 1\<rparr>) s)\<lparr>seq := seq s + 1\<rparr>))
      | None \<Rightarrow>
          (case pbc_alloc d blk s of
             None \<Rightarrow> Ret (Full, s)
           | Some (i, wb, s) \<Rightarrow>
               (case dev_of (devs s) d of
                  None \<Rightarrow> Null
                | Some dv \<Rightarrow> Ret (Miss i dv (write_back s wb), s))))"

definition do_write_back :: "nat \<Rightarrow> (pbc_dev option \<times> u32) option \<Rightarrow> pbc \<Rightarrow> pbc" where
  "do_write_back i wb s =
     (case wb of None \<Rightarrow> s | Some (od, ob) \<Rightarrow> pbc_write_to_disk od ob (sdata (slots s ! i)) s)"

text \<open>The part outside the lock: the result, what the caller's buffer receives, and the new state.\<close>

definition pbc_read_io :: "u32 \<Rightarrow> pbc_plan \<Rightarrow> pbc \<Rightarrow> int \<times> u8 list \<times> pbc" where
  "pbc_read_io blk p s =
     (case p of
        Hit i n \<Rightarrow> (0, take n (sdata (slots s ! i)), s)
      | Full \<Rightarrow> (- 1, [], s)
      | Miss i dv wb \<Rightarrow>
          (let s = do_write_back i wb s;
               (rc, bytes) = pbc_fill_from_disk s (Some dv) blk (sdata (slots s ! i));
               s = upd_slot i (\<lambda>x. x\<lparr>sdata := bytes\<rparr>) s
           in if rc \<noteq> 0 then (rc, [], s) else (0, take (unat (bs dv)) bytes, s)))"

definition slot_filled :: "bool \<Rightarrow> nat \<Rightarrow> pbc \<Rightarrow> pbc" where
  "slot_filled dt i s =
     (upd_slot i (\<lambda>x. x\<lparr>valid := True, dirty := dt, last_used := seq s + 1, busy := False\<rparr>) s)\<lparr>seq := seq s + 1\<rparr>"

definition pbc_read_end :: "pbc_plan \<Rightarrow> int \<Rightarrow> pbc \<Rightarrow> pbc" where
  "pbc_read_end p rc s =
     (case p of
        Hit i n \<Rightarrow> upd_slot i (\<lambda>x. x\<lparr>busy := False\<rparr>) s
      | Full \<Rightarrow> s
      | Miss i dv wb \<Rightarrow> if rc \<noteq> 0 then upd_slot i (\<lambda>x. x\<lparr>busy := False\<rparr>) s else slot_filled False i s)"

definition pbc_read :: "u32 \<Rightarrow> u32 \<Rightarrow> pbc \<Rightarrow> (int \<times> u8 list \<times> pbc) deref" where
  "pbc_read d blk s =
     (if slots s = [] then
        (case pbc_fill_from_disk s (dev_of (devs s) d) blk [] of (rc, bytes) \<Rightarrow> Ret (rc, bytes, s))
      else
        (case pbc_read_begin d blk s of
           Null \<Rightarrow> Null
         | Ret (p, s) \<Rightarrow> (case pbc_read_io blk p s of (rc, bytes, s) \<Rightarrow> Ret (rc, bytes, pbc_read_end p rc s))))"

section \<open>Reading a run of blocks\<close>

text \<open>\<open>pages n\<close> tells whether the page allocator has \<open>n\<close> pages for the bounce buffer.\<close>

definition pbc_bounce_get :: "(nat \<Rightarrow> bool) \<Rightarrow> u32 \<Rightarrow> pbc \<Rightarrow> bool \<times> pbc" where
  "pbc_bounce_get pages blocks s =
     (if bounce_blocks s < blocks then
        (if pages (unat ((blocks * 4096 + 4096 - 1) div 4096)) then (True, s\<lparr>bounce_blocks := blocks\<rparr>) else (False, s))
      else (True, s))"

definition pbc_load_slot :: "u32 \<Rightarrow> u32 \<Rightarrow> u8 list \<Rightarrow> pbc \<Rightarrow> (int \<times> pbc) deref" where
  "pbc_load_slot d blk src s =
     (if pbc_find s d blk \<noteq> None then Ret (1, s)
      else
        (case pbc_alloc d blk s of
           None \<Rightarrow> Ret (- 1, s)
         | Some (i, wb, s) \<Rightarrow>
             (case dev_of (devs s) d of
                None \<Rightarrow> Null
              | Some dv \<Rightarrow>
                  (let s = do_write_back i (write_back s wb) s;
                       s = upd_slot i (\<lambda>x. x\<lparr>sdata := take (unat (bs dv)) src @ drop (unat (bs dv)) (sdata x)\<rparr>) s
                   in Ret (0, slot_filled False i s)))))"

text \<open>The length of the gap of blocks that are not cached, from \<open>run\<close> on.\<close>

function pbc_run_len :: "pbc \<Rightarrow> u32 \<Rightarrow> u32 \<Rightarrow> nat \<Rightarrow> nat \<Rightarrow> nat \<Rightarrow> nat" where
  "pbc_run_len s d blk i cnt run =
     (if run < 32 \<and> i + run < cnt \<and> pbc_find s d (blk + of_nat i + of_nat run) = None
      then pbc_run_len s d blk i cnt (run + 1) else run)"
  by pat_completeness auto
termination by (relation "measure (\<lambda>(_, _, _, _, _, run). 32 - run)") auto

declare pbc_run_len.simps [simp del]

fun pbc_read_each :: "u32 \<Rightarrow> u32 \<Rightarrow> nat \<Rightarrow> pbc \<Rightarrow> (int \<times> u8 list \<times> pbc) deref" where
  "pbc_read_each d blk 0 s = Ret (0, [], s)"
| "pbc_read_each d blk (Suc n) s =
     (case pbc_read d blk s of
        Null \<Rightarrow> Null
      | Ret (rc, bytes, s) \<Rightarrow>
          if rc \<noteq> 0 then Ret (- 1, bytes, s)
          else (case pbc_read_each d (blk + 1) n s of
                  Null \<Rightarrow> Null
                | Ret (rc, rest, s) \<Rightarrow> Ret (rc, bytes @ rest, s)))"

fun pbc_load_each :: "u32 \<Rightarrow> u32 \<Rightarrow> nat \<Rightarrow> nat \<Rightarrow> u8 list \<Rightarrow> pbc \<Rightarrow> (u8 list \<times> pbc) deref" where
  "pbc_load_each d blk n 0 src s = Ret ([], s)"
| "pbc_load_each d blk n (Suc k) src s =
     (case pbc_load_slot d blk src s of
        Null \<Rightarrow> Null
      | Ret (rc, s) \<Rightarrow>
          (case pbc_load_each d (blk + 1) n k (drop n src) s of
             Null \<Rightarrow> Null
           | Ret (rest, s) \<Rightarrow> Ret (take n src @ rest, s)))"

lemma pbc_run_len_ge: "run \<le> pbc_run_len s d blk i cnt run"
  by (induction s d blk i cnt run rule: pbc_run_len.induct) (subst pbc_run_len.simps, auto)

text \<open>
  One pass of the loop of \<open>pbc_read_run\<close> at block \<open>i\<close>: how many blocks it delivered, the bytes, and the
  new state.
\<close>

definition pbc_run_pass :: "(nat \<Rightarrow> bool) \<Rightarrow> pbc_dev \<Rightarrow> u32 \<Rightarrow> u32 \<Rightarrow> nat \<Rightarrow> nat \<Rightarrow> pbc \<Rightarrow>
    (int \<times> nat \<times> u8 list \<times> pbc) deref" where
  "pbc_run_pass pages dv d blk cnt i s =
     (case pbc_find s d (blk + of_nat i) of
        Some j \<Rightarrow>
          (let s = (upd_slot j (\<lambda>x. x\<lparr>busy := True, last_used := seq s + 1\<rparr>) s)\<lparr>seq := seq s + 1\<rparr>;
               bytes = take (unat (bs dv)) (sdata (slots s ! j));
               s = upd_slot j (\<lambda>x. x\<lparr>busy := False\<rparr>) s
           in Ret (0, 1, bytes, s))
      | None \<Rightarrow>
          (let run = pbc_run_len s d blk i cnt 1 in
           case pbc_bounce_get pages (of_nat run) s of
             (False, s) \<Rightarrow>
               (case pbc_read_each d (blk + of_nat i) run s of
                  Null \<Rightarrow> Null
                | Ret (rc, bytes, s) \<Rightarrow> Ret (rc, run, bytes, s))
           | (True, s) \<Rightarrow>
               (let bounce = read_sectors (sectors s) (disk dv) (start dv + (blk + of_nat i) * spb dv) (run * unat (spb dv)) in
                case pbc_load_each d (blk + of_nat i) (unat (bs dv)) run bounce s of
                  Null \<Rightarrow> Null
                | Ret (bytes, s) \<Rightarrow> Ret (0, run, bytes, s))))"

lemma pbc_run_pass_progress: "pbc_run_pass pages dv d blk cnt i s = Ret (rc, n, bytes, s') \<Longrightarrow> 0 < n"
  using pbc_run_len_ge [of 1 s d blk i cnt]
  by (auto simp: pbc_run_pass_def Let_def split: option.splits deref.splits prod.splits bool.splits)

function pbc_run_loop :: "(nat \<Rightarrow> bool) \<Rightarrow> pbc_dev \<Rightarrow> u32 \<Rightarrow> u32 \<Rightarrow> nat \<Rightarrow> nat \<Rightarrow> pbc \<Rightarrow>
    (int \<times> u8 list \<times> pbc) deref" where
  "pbc_run_loop pages dv d blk cnt i s =
     (if i < cnt then
        (case pbc_run_pass pages dv d blk cnt i s of
           Null \<Rightarrow> Null
         | Ret (rc, n, bytes, s) \<Rightarrow>
             if rc \<noteq> 0 then Ret (- 1, bytes, s)
             else (case pbc_run_loop pages dv d blk cnt (i + n) s of
                     Null \<Rightarrow> Null
                   | Ret (rc, rest, s) \<Rightarrow> Ret (rc, bytes @ rest, s)))
      else Ret (0, [], s))"
  by pat_completeness auto
termination
  by (relation "measure (\<lambda>(_, _, _, _, cnt, i, _). cnt - i)") (auto dest: pbc_run_pass_progress)

declare pbc_run_loop.simps [simp del]

definition pbc_read_run :: "(nat \<Rightarrow> bool) \<Rightarrow> u32 \<Rightarrow> u32 \<Rightarrow> u32 \<Rightarrow> pbc \<Rightarrow> (int \<times> u8 list \<times> pbc) deref" where
  "pbc_read_run pages d blk cnt s =
     (if cnt = 0 then Ret (0, [], s)
      else
        (case dev_of (devs s) d of
           None \<Rightarrow> Ret (- 1, [], s)
         | Some dv \<Rightarrow>
             if disk dv = 0 then Ret (- 1, [], s)
             else if slots s = [] then
               Ret (0, read_sectors (sectors s) (disk dv) (start dv + blk * spb dv) (unat (cnt * spb dv)), s)
             else pbc_run_loop pages dv d blk (unat cnt) 0 s))"

section \<open>Writing and flushing\<close>

definition pbc_write :: "u32 \<Rightarrow> u32 \<Rightarrow> u8 list \<Rightarrow> pbc \<Rightarrow> (int \<times> pbc) deref" where
  "pbc_write d blk src s =
     (if slots s = [] then
        (case dev_of (devs s) d of
           None \<Rightarrow> Ret (- 1, s)
         | Some dv \<Rightarrow> if disk dv = 0 then Ret (- 1, s) else Ret (0, pbc_write_to_disk (Some dv) blk src s))
      else
        (case dev_of (devs s) d of
           None \<Rightarrow> Null
         | Some dv \<Rightarrow>
             (let put = (\<lambda>x. x\<lparr>sdata := take (unat (bs dv)) src @ drop (unat (bs dv)) (sdata x)\<rparr>) in
              case pbc_find s d blk of
                None \<Rightarrow>
                  (case pbc_alloc d blk s of
                     None \<Rightarrow> Ret (- 1, s)
                   | Some (i, wb, s) \<Rightarrow>
                       (let s = do_write_back i (write_back s wb) s;
                            s = upd_slot i put s
                        in Ret (0, slot_filled True i s)))
              | Some i \<Rightarrow>
                  (let s = (upd_slot i (\<lambda>x. x\<lparr>busy := True, last_used := seq s + 1\<rparr>) s)\<lparr>seq := seq s + 1\<rparr>;
                       s = upd_slot i put s
                   in Ret (0, upd_slot i (\<lambda>x. x\<lparr>valid := True, dirty := True, busy := False\<rparr>) s)))))"

definition pbc_flush_slot :: "nat \<Rightarrow> pbc \<Rightarrow> pbc" where
  "pbc_flush_slot i s =
     (let x = slots s ! i in
      if \<not> valid x \<or> \<not> dirty x \<or> busy x then s
      else case dev_of (devs s) (sdev x) of
             None \<Rightarrow> upd_slot i (\<lambda>x. x\<lparr>dirty := False\<rparr>) s
           | Some d \<Rightarrow>
               (let s = upd_slot i (\<lambda>x. x\<lparr>busy := True\<rparr>) s;
                    s = pbc_write_to_disk (Some d) (sblk x) (sdata x) s
                in upd_slot i (\<lambda>x. x\<lparr>dirty := False, busy := False\<rparr>) s))"

definition pbc_flush_all :: "pbc \<Rightarrow> pbc" where
  "pbc_flush_all s = (if slots s = [] then s else fold pbc_flush_slot [0..<length (slots s)] s)"

text \<open>\<open>pbc_flush_tick\<close> keeps the tick of its last flush in a static variable.\<close>

definition pbc_flush_tick :: "u32 \<Rightarrow> u32 \<times> pbc \<Rightarrow> u32 \<times> pbc" where
  "pbc_flush_tick now = (\<lambda>(last_flush, s). if now - last_flush < 500 then (last_flush, s) else (now, pbc_flush_all s))"

definition pbc_dirty_count :: "pbc \<Rightarrow> nat" where
  "pbc_dirty_count s = length (filter (\<lambda>x. valid x \<and> dirty x) (slots s))"

end
