(* ===== verification/Pbcache_Spec.thy ===== *)
theory Pbcache_Spec
  imports Pbcache
begin

text \<open>
  The block cache refines the disk. The view of a block is the content of its slot if it is cached and
  of its sectors otherwise; reads return the view, writes change it at one block, and write-back,
  eviction, read-ahead and flushing keep it.
\<close>

section \<open>Sectors\<close>

lemma length_read_sectors: "(\<And>d l. length (f d l) = 512) \<Longrightarrow> length (read_sectors f d lba n) = 512 * n"
  by (simp add: read_sectors_def length_concat comp_def sum_list_triv)

lemma read_sectors_add: "read_sectors f d lba (a + b) = read_sectors f d lba a @ read_sectors f d (lba + of_nat a) b"
proof -
  have "[0..<a + b] = [0..<a] @ map (\<lambda>k. k + a) [0..<b]"
    by (simp add: map_add_upt upt_add_eq_append [of 0 a b, simplified] add.commute)
  then show ?thesis by (simp add: read_sectors_def comp_def ac_simps)
qed

lemma of_nat_u32_inj: "a < 2 ^ 32 \<Longrightarrow> b < 2 ^ 32 \<Longrightarrow> of_nat a = (of_nat b :: u32) \<longleftrightarrow> a = b"
  by (simp add: word_unat_eq_iff unat_of_nat)

lemma write_sectors_other:
  assumes "d' = d \<Longrightarrow> l \<notin> {lba + of_nat k |k. k < n}"
  shows "write_sectors f d lba data n d' l = f d' l"
  using assms
proof (induction n)
  case (Suc n)
  then have "write_sectors f d lba data n d' l = f d' l" using less_Suc_eq by blast
  moreover have "\<not> (d' = d \<and> l = lba + of_nat n)" using Suc.prems by blast
  ultimately show ?case by (auto simp: write_sectors_def)
qed (simp add: write_sectors_def)

lemma write_sectors_at:
  assumes "k < n" "n \<le> 2 ^ 32"
  shows "write_sectors f d lba data n d (lba + of_nat k) = take 512 (drop (512 * k) data)"
  using assms
proof (induction n)
  case (Suc n)
  show ?case
  proof (cases "k = n")
    case False
    then have "k < n" "of_nat k \<noteq> (of_nat n :: u32)" using Suc.prems of_nat_u32_inj [of k n] by auto
    then show ?thesis using Suc by (simp add: write_sectors_def)
  qed (simp add: write_sectors_def)
qed simp

lemma take_chunks: "concat (map (\<lambda>k. take 512 (drop (512 * k) xs)) [0..<n]) = take (512 * n) xs"
proof (induction n)
  case (Suc n)
  have "512 * Suc n = 512 * n + 512" by simp
  then show ?case unfolding upt_Suc map_append concat_append using Suc by (simp only: take_add) simp
qed simp

lemma read_write_same:
  assumes "n \<le> 2 ^ 32"
  shows "read_sectors (write_sectors f d lba data n) d lba n = take (512 * n) data"
proof -
  have "map (\<lambda>k. write_sectors f d lba data n d (lba + of_nat k)) [0..<n] = map (\<lambda>k. take 512 (drop (512 * k) data)) [0..<n]"
    using assms by (simp add: write_sectors_at)
  then show ?thesis unfolding read_sectors_def by (simp only: take_chunks)
qed

lemma read_write_other:
  assumes "{(d, lba + of_nat k) |k. k < n} \<inter> {(d', lba' + of_nat k) |k. k < m} = {}"
  shows "read_sectors (write_sectors f d lba data n) d' lba' m = read_sectors f d' lba' m"
proof -
  have "write_sectors f d lba data n d' (lba' + of_nat k) = f d' (lba' + of_nat k)" if "k < m" for k
    using assms that by (intro write_sectors_other) blast
  then have "map (\<lambda>k. write_sectors f d lba data n d' (lba' + of_nat k)) [0..<m] = map (\<lambda>k. f d' (lba' + of_nat k)) [0..<m]"
    by simp
  then show ?thesis unfolding read_sectors_def by (rule arg_cong)
qed

lemma write_sectors_length:
  assumes "\<And>d l. length (f d l) = 512" "512 * n \<le> length data"
  shows "length (write_sectors f d lba data n d' l) = 512"
  using assms(2)
proof (induction n)
  case (Suc n)
  then show ?case using assms(1) by (auto simp: write_sectors_def)
qed (simp add: write_sectors_def assms(1))

section \<open>View and invariant\<close>

type_synonym key = "u32 \<times> u32"

definition blk_sectors :: "pbc_dev list \<Rightarrow> key \<Rightarrow> (nat \<times> u32) set" where
  "blk_sectors ds k =
     (case dev_of ds (fst k) of
        None \<Rightarrow> {}
      | Some dv \<Rightarrow> {(disk dv, start dv + snd k * spb dv + of_nat j) |j. j < unat (spb dv)})"

text \<open>
  A layout: every registered device has a disk, whole sectors per block and blocks that fit a slot, and
  the blocks of \<open>K\<close> belong to registered devices and share no sector.
\<close>

definition pbc_layout :: "pbc_dev list \<Rightarrow> key set \<Rightarrow> bool" where
  "pbc_layout ds K \<longleftrightarrow>
     (\<forall>dv\<in>set ds. disk dv \<noteq> 0 \<and> unat (bs dv) = 512 * unat (spb dv) \<and> unat (bs dv) \<le> 4096) \<and>
     (\<forall>k\<in>K. dev_of ds (fst k) \<noteq> None) \<and>
     (\<forall>k\<in>K. \<forall>l\<in>K. k \<noteq> l \<longrightarrow> blk_sectors ds k \<inter> blk_sectors ds l = {})"

definition blk_size :: "pbc_dev list \<Rightarrow> key \<Rightarrow> nat" where
  "blk_size ds k = (case dev_of ds (fst k) of None \<Rightarrow> 0 | Some dv \<Rightarrow> unat (bs dv))"

definition on_disk :: "pbc_dev list \<Rightarrow> (nat \<Rightarrow> u32 \<Rightarrow> u8 list) \<Rightarrow> key \<Rightarrow> u8 list" where
  "on_disk ds f k =
     (case dev_of ds (fst k) of
        None \<Rightarrow> []
      | Some dv \<Rightarrow> read_sectors f (disk dv) (start dv + snd k * spb dv) (unat (spb dv)))"

definition skey :: "pbc_slot \<Rightarrow> key" where
  "skey x = (sdev x, sblk x)"

definition pbc_view :: "pbc \<Rightarrow> key \<Rightarrow> u8 list" where
  "pbc_view s k =
     (case pbc_find s (fst k) (snd k) of
        None \<Rightarrow> on_disk (devs s) (sectors s) k
      | Some i \<Rightarrow> take (blk_size (devs s) k) (sdata (slots s ! i)))"

definition slot_ok :: "key set \<Rightarrow> pbc \<Rightarrow> pbc_slot \<Rightarrow> bool" where
  "slot_ok K s x \<longleftrightarrow> \<not> busy x \<and> length (sdata x) = 4096 \<and>
     (valid x \<longrightarrow> skey x \<in> K \<and>
        (\<not> dirty x \<longrightarrow> take (blk_size (devs s) (skey x)) (sdata x) = on_disk (devs s) (sectors s) (skey x)))"

definition pbc_inv :: "key set \<Rightarrow> pbc \<Rightarrow> bool" where
  "pbc_inv K s \<longleftrightarrow>
     pbc_layout (devs s) K \<and> (\<forall>d l. length (sectors s d l) = 512) \<and>
     (\<forall>x\<in>set (slots s). slot_ok K s x) \<and>
     (\<forall>i<length (slots s). \<forall>j<length (slots s). valid (slots s ! i) \<longrightarrow> valid (slots s ! j) \<longrightarrow>
        skey (slots s ! i) = skey (slots s ! j) \<longrightarrow> i = j)"

lemma layout_dev:
  assumes "pbc_layout ds K" "dev_of ds d = Some dv"
  shows "disk dv \<noteq> 0" "unat (bs dv) = 512 * unat (spb dv)" "unat (bs dv) \<le> 4096"
proof -
  have "dv \<in> set ds" using assms(2) by (auto simp: dev_of_def find_Some_iff)
  then show "disk dv \<noteq> 0" "unat (bs dv) = 512 * unat (spb dv)" "unat (bs dv) \<le> 4096"
    using assms(1) by (auto simp: pbc_layout_def)
qed

lemma layout_key: "pbc_layout ds K \<Longrightarrow> k \<in> K \<Longrightarrow> \<exists>dv. dev_of ds (fst k) = Some dv"
  by (auto simp: pbc_layout_def)

lemma pbc_inv_slot: "pbc_inv K s \<Longrightarrow> i < length (slots s) \<Longrightarrow> slot_ok K s (slots s ! i)"
  by (simp add: pbc_inv_def)

lemma pbc_find_None_iff:
  assumes "pbc_inv K s"
  shows "pbc_find s d blk = None \<longleftrightarrow> (\<forall>i<length (slots s). valid (slots s ! i) \<longrightarrow> skey (slots s ! i) \<noteq> (d, blk))"
proof -
  have "\<not> busy (slots s ! i)" if "i < length (slots s)" for i
    using pbc_inv_slot [OF assms that] by (simp add: slot_ok_def)
  then show ?thesis by (auto simp: pbc_find_def find_None_iff pbc_hit_def skey_def)
qed

lemma pbc_find_Some_iff:
  assumes "pbc_inv K s"
  shows "pbc_find s d blk = Some i \<longleftrightarrow> i < length (slots s) \<and> valid (slots s ! i) \<and> skey (slots s ! i) = (d, blk)"
proof
  assume "pbc_find s d blk = Some i"
  then show "i < length (slots s) \<and> valid (slots s ! i) \<and> skey (slots s ! i) = (d, blk)"
    by (auto simp: pbc_find_def find_Some_iff pbc_hit_def skey_def)
next
  assume i: "i < length (slots s) \<and> valid (slots s ! i) \<and> skey (slots s ! i) = (d, blk)"
  then obtain j where j: "pbc_find s d blk = Some j"
    using pbc_find_None_iff [OF assms, of d blk] by (metis option.exhaust)
  then have "j < length (slots s) \<and> valid (slots s ! j) \<and> skey (slots s ! j) = (d, blk)"
    by (auto simp: pbc_find_def find_Some_iff pbc_hit_def skey_def)
  then show "pbc_find s d blk = Some i" using i j assms by (auto simp: pbc_inv_def)
qed

lemma view_cached:
  assumes "pbc_inv K s" "i < length (slots s)" "valid (slots s ! i)"
  shows "pbc_view s (skey (slots s ! i)) = take (blk_size (devs s) (skey (slots s ! i))) (sdata (slots s ! i))"
proof -
  have "pbc_find s (fst (skey (slots s ! i))) (snd (skey (slots s ! i))) = Some i"
    using pbc_find_Some_iff [OF assms(1)] assms(2,3) by simp
  then show ?thesis by (simp add: pbc_view_def)
qed

lemma view_uncached:
  "pbc_find s (fst k) (snd k) = None \<Longrightarrow> pbc_view s k = on_disk (devs s) (sectors s) k"
  by (simp add: pbc_view_def)

lemma length_on_disk:
  assumes "pbc_inv K s" "k \<in> K"
  shows "length (on_disk (devs s) (sectors s) k) = blk_size (devs s) k"
proof -
  obtain dv where dv: "dev_of (devs s) (fst k) = Some dv" using assms layout_key [of "devs s" K k] by (auto simp: pbc_inv_def)
  then show ?thesis using assms layout_dev [of "devs s" K, OF _ dv]
    by (simp add: on_disk_def blk_size_def length_read_sectors pbc_inv_def)
qed

section \<open>Write-back\<close>

text \<open>The sectors after the write-back that the eviction of slot \<open>i\<close> asks for.\<close>

definition evicted :: "pbc \<Rightarrow> nat \<Rightarrow> nat \<Rightarrow> u32 \<Rightarrow> u8 list" where
  "evicted s i =
     (if valid (slots s ! i) \<and> dirty (slots s ! i)
      then sectors (pbc_write_to_disk (dev_of (devs s) (sdev (slots s ! i))) (sblk (slots s ! i)) (sdata (slots s ! i)) s)
      else sectors s)"

lemma on_disk_write:
  assumes lay: "pbc_layout (devs s) K" and k: "k \<in> K" "l \<in> K"
  shows "on_disk (devs s) (sectors (pbc_write_to_disk (dev_of (devs s) (fst k)) (snd k) src s)) l =
    (if l = k then take (blk_size (devs s) k) src else on_disk (devs s) (sectors s) l)"
proof -
  obtain dk where dk: "dev_of (devs s) (fst k) = Some dk" using layout_key lay k by blast
  obtain dl where dl: "dev_of (devs s) (fst l) = Some dl" using layout_key lay k by blast
  note ok = layout_dev [OF lay dk]
  show ?thesis
  proof (cases "l = k")
    case True
    have "unat (spb dk) \<le> 2 ^ 32" using ok by simp
    then show ?thesis using True dk ok
      by (simp add: on_disk_def pbc_write_to_disk_def blk_size_def read_write_same)
  next
    case False
    then have "blk_sectors (devs s) k \<inter> blk_sectors (devs s) l = {}" using lay k by (auto simp: pbc_layout_def)
    then show ?thesis using False dk dl ok
      by (simp add: on_disk_def pbc_write_to_disk_def blk_sectors_def read_write_other)
  qed
qed

lemma write_length:
  assumes lay: "pbc_layout (devs s) K" and "\<And>d l. length (sectors s d l) = 512"
    and len: "\<And>dv. dev_of (devs s) d = Some dv \<Longrightarrow> unat (bs dv) \<le> length src"
  shows "length (sectors (pbc_write_to_disk (dev_of (devs s) d) blk src s) d' l) = 512"
proof (cases "dev_of (devs s) d")
  case (Some dv)
  then show ?thesis using layout_dev [OF lay Some] assms(2) len [OF Some]
    by (simp add: pbc_write_to_disk_def write_sectors_length)
qed (simp add: pbc_write_to_disk_def assms(2))

lemma evicted_sectors:
  assumes inv: "pbc_inv K s" and i: "i < length (slots s)"
  shows "length (evicted s i d l) = 512"
    and "k \<in> K \<Longrightarrow> on_disk (devs s) (evicted s i) k =
      (if valid (slots s ! i) \<and> skey (slots s ! i) = k then take (blk_size (devs s) k) (sdata (slots s ! i))
       else on_disk (devs s) (sectors s) k)"
proof -
  note ok = pbc_inv_slot [OF inv i, unfolded slot_ok_def]
  have lay: "pbc_layout (devs s) K" and len: "\<And>d l. length (sectors s d l) = 512" using inv by (auto simp: pbc_inv_def)
  show "length (evicted s i d l) = 512"
    using write_length [OF lay len] layout_dev(3) [OF lay] ok len by (simp add: evicted_def)
  assume k: "k \<in> K"
  show "on_disk (devs s) (evicted s i) k =
      (if valid (slots s ! i) \<and> skey (slots s ! i) = k then take (blk_size (devs s) k) (sdata (slots s ! i))
       else on_disk (devs s) (sectors s) k)"
    using on_disk_write [OF lay _ k, of "skey (slots s ! i)" "sdata (slots s ! i)"] ok
    by (auto simp: evicted_def skey_def)
qed

section \<open>Changing one slot\<close>

text \<open>
  Slot \<open>i\<close> receives \<open>x\<close>: the same key with the sectors as they were or written back, or a key that was not
  cached after the old content was written back.
\<close>

definition slot_change :: "key set \<Rightarrow> pbc \<Rightarrow> nat \<Rightarrow> pbc_slot \<Rightarrow> pbc \<Rightarrow> bool" where
  "slot_change K s i x s' \<longleftrightarrow>
     pbc_inv K s \<and> i < length (slots s) \<and> valid x \<and> slot_ok K s' x \<and>
     (sectors s' = evicted s i \<or> sectors s' = sectors s \<and> valid (slots s ! i) \<and> skey x = skey (slots s ! i)) \<and>
     (valid (slots s ! i) \<and> skey x = skey (slots s ! i) \<or> pbc_find s (sdev x) (sblk x) = None) \<and>
     devs s' = devs s \<and> slots s' = (slots s)[i := x]"

lemma slot_change_disk:
  assumes "slot_change K s i x s'" "l \<in> K" "\<not> (valid (slots s ! i) \<and> skey (slots s ! i) = l)"
  shows "on_disk (devs s) (sectors s') l = on_disk (devs s) (sectors s) l"
  using assms evicted_sectors(2) [of K s i l] by (auto simp: slot_change_def)

lemma slot_change_other:
  assumes "slot_change K s i x s'" "j < length (slots s)" "j \<noteq> i" "valid (slots s ! j)"
  shows "skey (slots s ! j) \<noteq> skey x" and "valid (slots s ! i) \<Longrightarrow> skey (slots s ! j) \<noteq> skey (slots s ! i)"
proof -
  have inv: "pbc_inv K s" and i: "i < length (slots s)" using assms(1) by (auto simp: slot_change_def)
  show o: "skey (slots s ! j) \<noteq> skey (slots s ! i)" if "valid (slots s ! i)"
    using inv assms(2-) that i by (auto simp: pbc_inv_def)
  show "skey (slots s ! j) \<noteq> skey x"
    using assms(1) o pbc_find_None_iff [OF inv] assms(2-) by (auto simp: slot_change_def skey_def)
qed

lemma slot_change_inv:
  assumes ch: "slot_change K s i x s'"
  shows "pbc_inv K s'"
proof -
  have inv: "pbc_inv K s" and i: "i < length (slots s)" and x: "valid x" "slot_ok K s' x"
    and s': "devs s' = devs s" "slots s' = (slots s)[i := x]"
    using ch by (auto simp: slot_change_def)
  have ok: "slot_ok K s' (slots s' ! j)" if j: "j < length (slots s)" for j
  proof (cases "j = i")
    case False
    have "slot_ok K s (slots s ! j)" using pbc_inv_slot [OF inv j] .
    moreover have "on_disk (devs s) (sectors s') (skey (slots s ! j)) = on_disk (devs s) (sectors s) (skey (slots s ! j))"
      if "valid (slots s ! j)"
      by (rule slot_change_disk [OF ch]) (use slot_change_other(2) [OF ch j False that] calculation that in \<open>auto simp: slot_ok_def\<close>)
    ultimately show ?thesis using s' False by (auto simp: slot_ok_def)
  qed (use x i s' in simp)
  have inj: "a = b" if "a < length (slots s)" "b < length (slots s)" "valid (slots s' ! a)" "valid (slots s' ! b)"
      "skey (slots s' ! a) = skey (slots s' ! b)" for a b
  proof -
    consider "a = b" | "a = i" "b \<noteq> i" | "a \<noteq> i" "b = i" | "a \<noteq> i" "b \<noteq> i" by blast
    then show ?thesis
      using that slot_change_other(1) [OF ch that(1)] slot_change_other(1) [OF ch that(2)] inv s'
      by cases (auto simp: pbc_inv_def)
  qed
  show ?thesis
    unfolding pbc_inv_def
  proof (intro conjI allI impI ballI)
    show "pbc_layout (devs s') K" using inv s' by (simp add: pbc_inv_def)
    show "length (sectors s' d l) = 512" for d l
      using inv ch evicted_sectors(1) [OF inv i] by (auto simp: pbc_inv_def slot_change_def)
    show "slot_ok K s' y" if "y \<in> set (slots s')" for y using that ok s' by (auto simp: in_set_conv_nth)
  qed (use inj s' in auto)
qed

lemma slot_change_view:
  assumes ch: "slot_change K s i x s'" and l: "l \<in> K"
  shows "pbc_view s' l = (if l = skey x then take (blk_size (devs s) l) (sdata x) else pbc_view s l)"
proof -
  have inv: "pbc_inv K s" and i: "i < length (slots s)" and x: "valid x"
    and s': "devs s' = devs s" "slots s' = (slots s)[i := x]"
    using ch by (auto simp: slot_change_def)
  note inv' = slot_change_inv [OF ch]
  consider "l = skey x" | j where "pbc_find s' (fst l) (snd l) = Some j" "l \<noteq> skey x"
    | "pbc_find s' (fst l) (snd l) = None" "l \<noteq> skey x" "valid (slots s ! i) \<and> skey (slots s ! i) = l"
    | "pbc_find s' (fst l) (snd l) = None" "l \<noteq> skey x" "\<not> (valid (slots s ! i) \<and> skey (slots s ! i) = l)"
    by (cases "pbc_find s' (fst l) (snd l)") auto
  then show ?thesis
  proof cases
    case 1
    then show ?thesis using view_cached [OF inv', of i] i x s' by simp
  next
    case (2 j)
    then have j: "j < length (slots s')" "valid (slots s' ! j)" "skey (slots s' ! j) = l"
      using pbc_find_Some_iff [OF inv'] by auto
    then have "j \<noteq> i" using 2 s' i by auto
    then show ?thesis using view_cached [OF inv' j(1,2)] view_cached [OF inv, of j] j s' 2 by auto
  next
    case 3
    then have "sectors s' = evicted s i" using ch by (auto simp: slot_change_def)
    then show ?thesis
      using evicted_sectors(2) [OF inv i l] view_cached [OF inv i] view_uncached [OF 3(1)] 3 s' by auto
  next
    case 4
    have "skey (slots s ! j) \<noteq> l" if "j < length (slots s)" "valid (slots s ! j)" for j
      using 4 pbc_find_None_iff [OF inv', of "fst l" "snd l"] that s' by (cases "j = i") auto
    then have "pbc_find s (fst l) (snd l) = None" using pbc_find_None_iff [OF inv] by simp
    then show ?thesis using slot_change_disk [OF ch l 4(3)] view_uncached [OF 4(1)] view_uncached 4 s' by auto
  qed
qed

section \<open>Operations\<close>

lemma pbc_lru_Some:
  assumes "\<And>i. i < length xs \<Longrightarrow> \<not> busy (xs ! i)" "xs \<noteq> []"
  shows "\<exists>i<length xs. pbc_lru xs = Some i"
proof -
  let ?f = "\<lambda>i best. if busy (xs ! i) then best
                    else case best of
                           None \<Rightarrow> Some i
                         | Some b \<Rightarrow> if last_used (xs ! i) < last_used (xs ! b) then Some i else best"
  have "\<exists>i<Suc m. fold ?f [0..<Suc m] None = Some i" if "Suc m \<le> length xs" for m
    using that
  proof (induction m)
    case (Suc m)
    then obtain i where "i < Suc m" "fold ?f [0..<Suc m] None = Some i" by auto
    then show ?case using assms(1) [of "Suc m"] Suc.prems by (auto intro: less_SucI)
  qed (use assms(1) [of 0] assms(2) in simp)
  from this [of "length xs - 1"] show ?thesis using assms(2) by (simp add: pbc_lru_def)
qed

definition claim :: "key \<Rightarrow> pbc_slot \<Rightarrow> pbc_slot" where
  "claim k x = x\<lparr>busy := True, sdev := fst k, sblk := snd k, valid := False\<rparr>"

lemma pbc_alloc_ok:
  assumes inv: "pbc_inv K s" and ne: "slots s \<noteq> []"
  obtains i wb where "i < length (slots s)" "pbc_alloc d blk s = Some (i, wb, upd_slot i (claim (d, blk)) s)"
    "do_write_back i (write_back (upd_slot i (claim (d, blk)) s) wb) (upd_slot i (claim (d, blk)) s) =
     (upd_slot i (claim (d, blk)) s)\<lparr>sectors := evicted s i\<rparr>"
proof -
  have nb: "\<not> busy (slots s ! i)" if "i < length (slots s)" for i
    using pbc_inv_slot [OF inv that] by (simp add: slot_ok_def)
  have cl: "(\<lambda>x. x\<lparr>busy := True, sdev := d, sblk := blk, valid := False\<rparr>) = claim (d, blk)"
    by (simp add: claim_def fun_eq_iff)
  show thesis
  proof (cases "find (\<lambda>i. \<not> valid (slots s ! i) \<and> \<not> busy (slots s ! i)) [0..<length (slots s)]")
    case (Some i)
    then have i: "i < length (slots s)" "\<not> valid (slots s ! i)" by (auto simp: find_Some_iff)
    show thesis
      by (rule that [OF i(1), of "(0, 0, False)"])
        (use Some i in \<open>simp_all add: pbc_alloc_def cl do_write_back_def write_back_def evicted_def upd_slot_def\<close>)
  next
    case None
    obtain i where i: "i < length (slots s)" "pbc_lru (slots s) = Some i" using pbc_lru_Some [of "slots s"] nb ne by auto
    have v: "valid (slots s ! i)" using None i nb by (auto simp: find_None_iff)
    show thesis
      by (rule that [OF i(1), of "(sdev (slots s ! i), sblk (slots s ! i), dirty (slots s ! i))"])
        (use None i v in \<open>auto simp: pbc_alloc_def cl do_write_back_def write_back_def evicted_def upd_slot_def claim_def
           pbc_write_to_disk_def split: option.splits\<close>)
  qed
qed

text \<open>Filling a victim: the composition shared by a read miss, a write miss and read-ahead.\<close>

definition filled :: "pbc \<Rightarrow> nat \<Rightarrow> key \<Rightarrow> u8 list \<Rightarrow> bool \<Rightarrow> pbc" where
  "filled s i k bytes dt =
     slot_filled dt i (upd_slot i (\<lambda>x. x\<lparr>sdata := bytes\<rparr>) ((upd_slot i (claim k) s)\<lparr>sectors := evicted s i\<rparr>))"

lemma filled_ok:
  assumes inv: "pbc_inv K s" and i: "i < length (slots s)" and k: "k \<in> K" "pbc_find s (fst k) (snd k) = None"
    and len: "length bytes = 4096"
    and clean: "\<not> dt \<Longrightarrow> take (blk_size (devs s) k) bytes = on_disk (devs s) (sectors s) k"
  shows "pbc_inv K (filled s i k bytes dt) \<and> devs (filled s i k bytes dt) = devs s \<and>
    length (slots (filled s i k bytes dt)) = length (slots s) \<and>
    (\<forall>l\<in>K. pbc_view (filled s i k bytes dt) l = (if l = k then take (blk_size (devs s) k) bytes else pbc_view s l))"
proof -
  let ?s = "filled s i k bytes dt"
  define x where "x = slots ?s ! i"
  have ss: "slots ?s = (slots s)[i := x]" "devs ?s = devs s" "sectors ?s = evicted s i"
    using i by (simp_all add: x_def filled_def slot_filled_def upd_slot_def)
  have x: "valid x" "skey x = k" "\<not> busy x" "dirty x = dt" "sdata x = bytes"
    using i by (simp_all add: x_def filled_def slot_filled_def upd_slot_def claim_def skey_def)
  have "\<not> (valid (slots s ! i) \<and> skey (slots s ! i) = k)" using k(2) pbc_find_None_iff [OF inv] i by auto
  then have "on_disk (devs s) (evicted s i) k = on_disk (devs s) (sectors s) k"
    using evicted_sectors(2) [OF inv i k(1)] by auto
  then have "slot_ok K ?s x" using x ss k len clean by (auto simp: slot_ok_def)
  moreover have "pbc_find s (sdev x) (sblk x) = None" using k(2) x(2) by (auto simp: skey_def)
  ultimately have ch: "slot_change K s i x ?s" using inv i x ss by (simp add: slot_change_def)
  show ?thesis using slot_change_inv [OF ch] slot_change_view [OF ch] x ss by auto
qed

text \<open>What every operation keeps: the invariant, the devices and the number of slots.\<close>

definition kept :: "key set \<Rightarrow> pbc \<Rightarrow> pbc \<Rightarrow> bool" where
  "kept K s s' \<longleftrightarrow> pbc_inv K s' \<and> devs s' = devs s \<and> length (slots s') = length (slots s)"

lemma kept_trans: "kept K s s' \<Longrightarrow> kept K s' s'' \<Longrightarrow> kept K s s''"
  by (simp add: kept_def)

lemma kept_inv: "kept K s s' \<Longrightarrow> pbc_inv K s'"
  by (simp add: kept_def)

text \<open>A hit only moves the time of last use.\<close>

definition touched :: "pbc \<Rightarrow> nat \<Rightarrow> pbc" where
  "touched s i = upd_slot i (\<lambda>x. x\<lparr>busy := False\<rparr>)
     ((upd_slot i (\<lambda>x. x\<lparr>busy := True, last_used := seq s + 1\<rparr>) s)\<lparr>seq := seq s + 1\<rparr>)"

lemma touched_ok:
  assumes inv: "pbc_inv K s" and i: "i < length (slots s)" and v: "valid (slots s ! i)"
  shows "kept K s (touched s i) \<and> (\<forall>l\<in>K. pbc_view (touched s i) l = pbc_view s l)"
proof -
  let ?s = "touched s i"
  define x where "x = slots ?s ! i"
  have ss: "slots ?s = (slots s)[i := x]" "devs ?s = devs s" "sectors ?s = sectors s"
    using i by (simp_all add: x_def touched_def upd_slot_def)
  have x: "valid x" "skey x = skey (slots s ! i)" "\<not> busy x" "dirty x = dirty (slots s ! i)" "sdata x = sdata (slots s ! i)"
    using i v by (simp_all add: x_def touched_def upd_slot_def skey_def)
  have "slot_ok K ?s x" using pbc_inv_slot [OF inv i] x ss v by (simp add: slot_ok_def)
  then have ch: "slot_change K s i x ?s" using inv i x ss v by (simp add: slot_change_def)
  show ?thesis
    using slot_change_inv [OF ch] slot_change_view [OF ch] view_cached [OF inv i v] x ss by (auto simp: kept_def)
qed

lemma pbc_dev_key:
  assumes "pbc_inv K s" "k \<in> K"
  obtains dv where "dev_of (devs s) (fst k) = Some dv" "disk dv \<noteq> 0" "unat (bs dv) = 512 * unat (spb dv)"
    "unat (bs dv) \<le> 4096" "blk_size (devs s) k = unat (bs dv)"
    "\<And>f. on_disk (devs s) f k = read_sectors f (disk dv) (start dv + snd k * spb dv) (unat (spb dv))"
proof -
  have lay: "pbc_layout (devs s) K" using assms by (simp add: pbc_inv_def)
  obtain dv where dv: "dev_of (devs s) (fst k) = Some dv" using layout_key lay assms(2) by blast
  show thesis by (rule that [OF dv layout_dev [OF lay dv]]) (simp_all add: blk_size_def on_disk_def dv)
qed

lemma pbc_read_miss:
  assumes inv: "pbc_inv K s" and k: "(d, blk) \<in> K" and miss: "slots s \<noteq> []" "pbc_find s d blk = None"
  shows "\<exists>s'. pbc_read d blk s = Ret (0, pbc_view s (d, blk), s') \<and> kept K s s' \<and> (\<forall>l\<in>K. pbc_view s' l = pbc_view s l)"
proof -
  obtain dv where dv: "dev_of (devs s) d = Some dv" "disk dv \<noteq> 0" "unat (bs dv) = 512 * unat (spb dv)"
    "unat (bs dv) \<le> 4096" "blk_size (devs s) (d, blk) = unat (bs dv)"
    "\<And>f. on_disk (devs s) f (d, blk) = read_sectors f (disk dv) (start dv + blk * spb dv) (unat (spb dv))"
    using pbc_dev_key [OF inv k] by auto
  obtain i wb where al: "i < length (slots s)" "pbc_alloc d blk s = Some (i, wb, upd_slot i (claim (d, blk)) s)"
    "do_write_back i (write_back (upd_slot i (claim (d, blk)) s) wb) (upd_slot i (claim (d, blk)) s) =
     (upd_slot i (claim (d, blk)) s)\<lparr>sectors := evicted s i\<rparr>"
    using pbc_alloc_ok [OF inv miss(1)] by metis
  define bytes where "bytes = on_disk (devs s) (evicted s i) (d, blk) @ drop (unat (bs dv)) (sdata (slots s ! i))"
  have nk: "\<not> (valid (slots s ! i) \<and> skey (slots s ! i) = (d, blk))" using miss(2) pbc_find_None_iff [OF inv] al(1) by auto
  have od: "on_disk (devs s) (evicted s i) (d, blk) = on_disk (devs s) (sectors s) (d, blk)"
    using evicted_sectors(2) [OF inv al(1) k] nk by auto
  have lb: "length (on_disk (devs s) (evicted s i) (d, blk)) = unat (bs dv)"
    using od length_on_disk [OF inv k] dv(5) by simp
  have len: "length bytes = 4096"
    using lb dv(4) pbc_inv_slot [OF inv al(1)] by (simp add: bytes_def slot_ok_def)
  have v: "pbc_view s (d, blk) = on_disk (devs s) (sectors s) (d, blk)" using view_uncached miss(2) by simp
  have tk: "take (unat (bs dv)) bytes = pbc_view s (d, blk)" using lb od v by (simp add: bytes_def)
  have fill: "pbc_fill_from_disk ((upd_slot i (claim (d, blk)) s)\<lparr>sectors := evicted s i\<rparr>) (Some dv) blk (sdata (slots s ! i)) = (0, bytes)"
    using dv by (simp add: pbc_fill_from_disk_def bytes_def)
  have "slots (upd_slot i (claim (d, blk)) s) ! i = claim (d, blk) (slots s ! i)" "devs (upd_slot i (claim (d, blk)) s) = devs s"
    using al(1) by (simp_all add: upd_slot_def)
  then have "pbc_read d blk s = Ret (0, pbc_view s (d, blk), filled s i (d, blk) bytes False)"
    using miss al dv(1) fill tk
    by (simp add: pbc_read_def pbc_read_begin_def pbc_read_io_def pbc_read_end_def filled_def claim_def Let_def)
  moreover have "kept K s (filled s i (d, blk) bytes False) \<and> (\<forall>l\<in>K. pbc_view (filled s i (d, blk) bytes False) l = pbc_view s l)"
    using filled_ok [OF inv al(1) k _ len, of False] miss(2) tk v dv(5) by (auto simp: kept_def)
  ultimately show ?thesis by blast
qed

lemma pbc_read_ok:
  assumes inv: "pbc_inv K s" and k: "(d, blk) \<in> K"
  shows "\<exists>s'. pbc_read d blk s = Ret (0, pbc_view s (d, blk), s') \<and> kept K s s' \<and> (\<forall>l\<in>K. pbc_view s' l = pbc_view s l)"
proof -
  obtain dv where dv: "dev_of (devs s) d = Some dv" "disk dv \<noteq> 0" "unat (bs dv) = 512 * unat (spb dv)"
    "unat (bs dv) \<le> 4096" "blk_size (devs s) (d, blk) = unat (bs dv)"
    "\<And>f. on_disk (devs s) f (d, blk) = read_sectors f (disk dv) (start dv + blk * spb dv) (unat (spb dv))"
    using pbc_dev_key [OF inv k] by auto
  consider (off) "slots s = []" | (hit) i where "slots s \<noteq> []" "pbc_find s d blk = Some i"
    | (miss) "slots s \<noteq> []" "pbc_find s d blk = None" by fastforce
  then show ?thesis
  proof cases
    case off
    then show ?thesis using dv inv
      by (auto simp: pbc_read_def pbc_fill_from_disk_def pbc_view_def pbc_find_def kept_def)
  next
    case (hit i)
    then have i: "i < length (slots s)" "valid (slots s ! i)" "skey (slots s ! i) = (d, blk)"
      using pbc_find_Some_iff [OF inv] by auto
    have "pbc_read d blk s = Ret (0, pbc_view s (d, blk), touched s i)"
      using hit i dv by (simp add: pbc_read_def pbc_read_begin_def pbc_read_io_def pbc_read_end_def pbc_view_def touched_def upd_slot_def)
    then show ?thesis using touched_ok [OF inv i(1,2)] by blast
  next
    case miss
    then show ?thesis by (rule pbc_read_miss [OF inv k])
  qed
qed

lemma pbc_write_ok:
  assumes inv: "pbc_inv K s" and k: "(d, blk) \<in> K" and len: "length src = blk_size (devs s) (d, blk)"
  shows "\<exists>s'. pbc_write d blk src s = Ret (0, s') \<and> kept K s s' \<and>
    (\<forall>l\<in>K. pbc_view s' l = (if l = (d, blk) then src else pbc_view s l))"
proof -
  obtain dv where dv: "dev_of (devs s) d = Some dv" "disk dv \<noteq> 0" "unat (bs dv) \<le> 4096" "blk_size (devs s) (d, blk) = unat (bs dv)"
    using pbc_dev_key [OF inv k, unfolded fst_conv snd_conv] by metis
  have lay: "pbc_layout (devs s) K" "\<And>d l. length (sectors s d l) = 512" using inv by (auto simp: pbc_inv_def)
  consider (off) "slots s = []" | (hit) i where "slots s \<noteq> []" "pbc_find s d blk = Some i"
    | (miss) "slots s \<noteq> []" "pbc_find s d blk = None" by fastforce
  then show ?thesis
  proof cases
    case off
    let ?s = "pbc_write_to_disk (Some dv) blk src s"
    have sd: "slots ?s = []" "devs ?s = devs s" using off by (auto simp: pbc_write_to_disk_def)
    have "length (sectors ?s d' l) = 512" for d' l
      using write_length [OF lay, of d src blk d' l] dv len by auto
    then have "kept K s ?s" using off sd lay by (auto simp: kept_def pbc_inv_def)
    moreover have "pbc_view ?s l = (if l = (d, blk) then src else pbc_view s l)" if "l \<in> K" for l
      using on_disk_write [OF lay(1) k that, of src] off sd dv len by (auto simp: pbc_view_def pbc_find_def)
    ultimately show ?thesis using off dv by (auto simp: pbc_write_def)
  next
    case (hit i)
    then have i: "i < length (slots s)" "valid (slots s ! i)" "skey (slots s ! i) = (d, blk)"
      using pbc_find_Some_iff [OF inv] by auto
    obtain s' where s': "pbc_write d blk src s = Ret (0, s')" using hit dv by (simp add: pbc_write_def Let_def)
    define x where "x = slots s' ! i"
    have ss: "slots s' = (slots s)[i := x]" "devs s' = devs s" "sectors s' = sectors s"
      using s' hit i dv by (auto simp: x_def pbc_write_def Let_def upd_slot_def)
    have x: "valid x" "skey x = (d, blk)" "\<not> busy x" "dirty x" "sdata x = take (unat (bs dv)) src @ drop (unat (bs dv)) (sdata (slots s ! i))"
      using s' hit i dv by (auto simp: x_def pbc_write_def Let_def upd_slot_def skey_def)
    have "slot_ok K s' x" using pbc_inv_slot [OF inv i(1)] x k dv len by (simp add: slot_ok_def)
    then have ch: "slot_change K s i x s'" using inv i x ss by (simp add: slot_change_def)
    show ?thesis
      using slot_change_inv [OF ch] slot_change_view [OF ch] s' x ss dv len by (auto simp: kept_def)
  next
    case miss
    obtain i wb where al: "i < length (slots s)" "pbc_alloc d blk s = Some (i, wb, upd_slot i (claim (d, blk)) s)"
      "do_write_back i (write_back (upd_slot i (claim (d, blk)) s) wb) (upd_slot i (claim (d, blk)) s) =
       (upd_slot i (claim (d, blk)) s)\<lparr>sectors := evicted s i\<rparr>"
      using pbc_alloc_ok [OF inv miss(1)] by metis
    define bytes where "bytes = src @ drop (unat (bs dv)) (sdata (slots s ! i))"
    have len': "length bytes = 4096" using pbc_inv_slot [OF inv al(1)] dv len by (simp add: bytes_def slot_ok_def)
    have "upd_slot i (\<lambda>x. x\<lparr>sdata := take (unat (bs dv)) src @ drop (unat (bs dv)) (sdata x)\<rparr>) ((upd_slot i (claim (d, blk)) s)\<lparr>sectors := evicted s i\<rparr>)
      = upd_slot i (\<lambda>x. x\<lparr>sdata := bytes\<rparr>) ((upd_slot i (claim (d, blk)) s)\<lparr>sectors := evicted s i\<rparr>)"
      using al(1) len dv by (simp add: upd_slot_def claim_def bytes_def)
    then have "pbc_write d blk src s = Ret (0, filled s i (d, blk) bytes True)"
      using miss al dv by (simp add: pbc_write_def Let_def filled_def)
    then show ?thesis using filled_ok [OF inv al(1) k _ len', of True] miss(2) dv len by (auto simp: kept_def bytes_def)
  qed
qed

lemma pbc_load_slot_ok:
  assumes inv: "pbc_inv K s" and k: "(d, blk) \<in> K" and ne: "slots s \<noteq> []"
    and src: "take (blk_size (devs s) (d, blk)) src = pbc_view s (d, blk)" "blk_size (devs s) (d, blk) \<le> length src"
  shows "\<exists>rc s'. pbc_load_slot d blk src s = Ret (rc, s') \<and> kept K s s' \<and> (\<forall>l\<in>K. pbc_view s' l = pbc_view s l)"
proof (cases "pbc_find s d blk")
  case None
  obtain dv where dv: "dev_of (devs s) d = Some dv" "unat (bs dv) \<le> 4096" "blk_size (devs s) (d, blk) = unat (bs dv)"
    using pbc_dev_key [OF inv k, unfolded fst_conv snd_conv] by metis
  obtain i wb where al: "i < length (slots s)" "pbc_alloc d blk s = Some (i, wb, upd_slot i (claim (d, blk)) s)"
    "do_write_back i (write_back (upd_slot i (claim (d, blk)) s) wb) (upd_slot i (claim (d, blk)) s) =
     (upd_slot i (claim (d, blk)) s)\<lparr>sectors := evicted s i\<rparr>"
    using pbc_alloc_ok [OF inv ne] by metis
  define bytes where "bytes = take (unat (bs dv)) src @ drop (unat (bs dv)) (sdata (slots s ! i))"
  have len: "length bytes = 4096" using pbc_inv_slot [OF inv al(1)] dv src(2) by (simp add: bytes_def slot_ok_def)
  have tk: "take (unat (bs dv)) bytes = pbc_view s (d, blk)" using src(2) dv unfolding bytes_def src(1) [symmetric] by simp
  have v: "pbc_view s (d, blk) = on_disk (devs s) (sectors s) (d, blk)" using view_uncached None by simp
  have "upd_slot i (\<lambda>x. x\<lparr>sdata := take (unat (bs dv)) src @ drop (unat (bs dv)) (sdata x)\<rparr>) ((upd_slot i (claim (d, blk)) s)\<lparr>sectors := evicted s i\<rparr>)
    = upd_slot i (\<lambda>x. x\<lparr>sdata := bytes\<rparr>) ((upd_slot i (claim (d, blk)) s)\<lparr>sectors := evicted s i\<rparr>)"
    using al(1) by (simp add: upd_slot_def claim_def bytes_def)
  moreover have "devs (upd_slot i (claim (d, blk)) s) = devs s" by (simp add: upd_slot_def)
  ultimately have "pbc_load_slot d blk src s = Ret (0, filled s i (d, blk) bytes False)"
    using None al dv by (simp add: pbc_load_slot_def Let_def filled_def)
  then show ?thesis using filled_ok [OF inv al(1) k _ len, of False] None dv tk v by (auto simp: kept_def)
qed (use inv in \<open>simp add: pbc_load_slot_def kept_def\<close>)

lemma pbc_flush_slot_ok:
  assumes inv: "pbc_inv K s" and i: "i < length (slots s)"
  shows "kept K s (pbc_flush_slot i s) \<and> (\<forall>l\<in>K. pbc_view (pbc_flush_slot i s) l = pbc_view s l) \<and>
    (\<forall>j<length (slots s). valid (slots (pbc_flush_slot i s) ! j) \<and> dirty (slots (pbc_flush_slot i s) ! j) \<longrightarrow>
       j \<noteq> i \<and> valid (slots s ! j) \<and> dirty (slots s ! j))"
proof (cases "valid (slots s ! i) \<and> dirty (slots s ! i)")
  case True
  let ?s = "pbc_flush_slot i s"
  have ok: "slot_ok K s (slots s ! i)" by (rule pbc_inv_slot [OF inv i])
  then have k: "skey (slots s ! i) \<in> K" using True by (simp add: slot_ok_def)
  obtain dv where dv: "dev_of (devs s) (sdev (slots s ! i)) = Some dv"
    using pbc_dev_key [OF inv k] by (auto simp: skey_def)
  define x where "x = slots ?s ! i"
  have ss: "slots ?s = (slots s)[i := x]" "devs ?s = devs s" "sectors ?s = evicted s i"
    using i True dv ok
    by (auto simp: x_def pbc_flush_slot_def Let_def upd_slot_def evicted_def pbc_write_to_disk_def slot_ok_def)
  have x: "valid x" "skey x = skey (slots s ! i)" "\<not> busy x" "\<not> dirty x" "sdata x = sdata (slots s ! i)"
    using i True dv ok by (auto simp: x_def pbc_flush_slot_def Let_def upd_slot_def pbc_write_to_disk_def skey_def slot_ok_def)
  have "slot_ok K ?s x" using ok x ss k evicted_sectors(2) [OF inv i k] True by (simp add: slot_ok_def)
  then have ch: "slot_change K s i x ?s" using inv i x ss True by (simp add: slot_change_def)
  show ?thesis
    using slot_change_inv [OF ch] slot_change_view [OF ch] view_cached [OF inv i] x ss True i
    by (auto simp: kept_def nth_list_update)
qed (use inv i in \<open>auto simp: pbc_flush_slot_def kept_def Let_def\<close>)

lemma pbc_flush_fold:
  assumes "pbc_inv K s" "n \<le> length (slots s)"
  shows "kept K s (fold pbc_flush_slot [0..<n] s) \<and> (\<forall>l\<in>K. pbc_view (fold pbc_flush_slot [0..<n] s) l = pbc_view s l) \<and>
    (\<forall>j<n. \<not> (valid (slots (fold pbc_flush_slot [0..<n] s) ! j) \<and> dirty (slots (fold pbc_flush_slot [0..<n] s) ! j)))"
  using assms(2)
proof (induction n)
  case 0
  then show ?case using assms(1) by (simp add: kept_def)
next
  case (Suc n)
  let ?s = "fold pbc_flush_slot [0..<n] s"
  have IH: "kept K s ?s" "\<forall>l\<in>K. pbc_view ?s l = pbc_view s l" "\<forall>j<n. \<not> (valid (slots ?s ! j) \<and> dirty (slots ?s ! j))"
    using Suc by auto
  then have n: "n < length (slots ?s)" using Suc.prems by (simp add: kept_def)
  note st = pbc_flush_slot_ok [OF kept_inv [OF IH(1)] n]
  show ?case using st IH kept_trans [OF IH(1)] n by (auto simp: less_Suc_eq)
qed

lemma pbc_flush_all_ok:
  assumes inv: "pbc_inv K s"
  shows "kept K s (pbc_flush_all s) \<and> (\<forall>l\<in>K. pbc_view (pbc_flush_all s) l = pbc_view s l) \<and>
    pbc_dirty_count (pbc_flush_all s) = 0 \<and> (\<forall>l\<in>K. on_disk (devs s) (sectors (pbc_flush_all s)) l = pbc_view s l)"
proof -
  let ?s = "pbc_flush_all s"
  have k: "kept K s ?s" and v: "\<And>l. l \<in> K \<Longrightarrow> pbc_view ?s l = pbc_view s l"
    and c: "\<And>j. j < length (slots ?s) \<Longrightarrow> \<not> (valid (slots ?s ! j) \<and> dirty (slots ?s ! j))"
    using pbc_flush_fold [OF inv order_refl] inv by (auto simp: pbc_flush_all_def kept_def)
  have "pbc_view ?s l = on_disk (devs s) (sectors ?s) l" if l: "l \<in> K" for l
  proof (cases "pbc_find ?s (fst l) (snd l)")
    case None
    then show ?thesis using view_uncached k by (simp add: kept_def)
  next
    case (Some j)
    then have j: "j < length (slots ?s)" "valid (slots ?s ! j)" "skey (slots ?s ! j) = l"
      using pbc_find_Some_iff [OF kept_inv [OF k]] by auto
    then show ?thesis
      using pbc_inv_slot [OF kept_inv [OF k] j(1)] view_cached [OF kept_inv [OF k] j(1,2)] c [OF j(1)] k
      by (simp add: slot_ok_def kept_def)
  qed
  then show ?thesis using k v c by (auto simp: pbc_dirty_count_def filter_empty_conv in_set_conv_nth)
qed

section \<open>Runs of blocks\<close>

text \<open>The bytes of \<open>n\<close> consecutive blocks.\<close>

definition run_view :: "(key \<Rightarrow> u8 list) \<Rightarrow> u32 \<Rightarrow> u32 \<Rightarrow> nat \<Rightarrow> u8 list" where
  "run_view v d blk n = concat (map (\<lambda>j. v (d, blk + of_nat j)) [0..<n])"

definition run_keys :: "u32 \<Rightarrow> u32 \<Rightarrow> nat \<Rightarrow> key set" where
  "run_keys d blk n = (\<lambda>j. (d, blk + of_nat j)) ` {..<n}"

lemma run_view_Suc: "run_view v d blk (Suc n) = v (d, blk) @ run_view v d (blk + 1) n"
proof -
  have "[0..<Suc n] = 0 # map Suc [0..<n]" by (simp add: upt_conv_Cons map_Suc_upt)
  then show ?thesis unfolding run_view_def by (simp add: comp_def ac_simps)
qed

lemma run_view_add: "run_view v d blk (a + b) = run_view v d blk a @ run_view v d (blk + of_nat a) b"
  by (induction a arbitrary: blk) (simp_all add: run_view_Suc ac_simps, simp add: run_view_def)

lemma run_view_cong: "(\<And>l. l \<in> run_keys d blk n \<Longrightarrow> v l = w l) \<Longrightarrow> run_view v d blk n = run_view w d blk n"
  by (auto simp: run_view_def run_keys_def intro!: arg_cong [where f = concat])

lemma run_keys_Suc: "run_keys d blk (Suc n) \<subseteq> K \<longleftrightarrow> (d, blk) \<in> K \<and> run_keys d (blk + 1) n \<subseteq> K"
proof -
  have "run_keys d blk (Suc n) = insert (d, blk) (run_keys d (blk + 1) n)"
    by (simp add: run_keys_def lessThan_Suc_eq_insert_0 image_image ac_simps)
  then show ?thesis by simp
qed

lemma pbc_read_each_ok:
  assumes "pbc_inv K s" "run_keys d blk n \<subseteq> K"
  shows "\<exists>s'. pbc_read_each d blk n s = Ret (0, run_view (pbc_view s) d blk n, s') \<and> kept K s s' \<and>
    (\<forall>l\<in>K. pbc_view s' l = pbc_view s l)"
  using assms
proof (induction n arbitrary: s blk)
  case (Suc n)
  then have K: "(d, blk) \<in> K" "run_keys d (blk + 1) n \<subseteq> K" by (simp_all add: run_keys_Suc)
  obtain s1 where s1: "pbc_read d blk s = Ret (0, pbc_view s (d, blk), s1)" "kept K s s1" "\<forall>l\<in>K. pbc_view s1 l = pbc_view s l"
    using pbc_read_ok [OF Suc.prems(1) K(1)] by blast
  obtain s2 where s2: "pbc_read_each d (blk + 1) n s1 = Ret (0, run_view (pbc_view s1) d (blk + 1) n, s2)" "kept K s1 s2"
    "\<forall>l\<in>K. pbc_view s2 l = pbc_view s1 l"
    using Suc.IH [OF kept_inv [OF s1(2)] K(2)] by blast
  have "run_view (pbc_view s1) d (blk + 1) n = run_view (pbc_view s) d (blk + 1) n"
    using s1(3) K(2) by (intro run_view_cong) blast
  then show ?case using s1 s2 kept_trans [OF s1(2) s2(2)] by (auto simp: run_view_Suc)
qed (simp add: kept_def run_view_def)

lemma pbc_load_each_ok:
  assumes "pbc_inv K s" "run_keys d blk n \<subseteq> K" "slots s \<noteq> []" "\<And>b. (d, b) \<in> K \<Longrightarrow> blk_size (devs s) (d, b) = m"
    and "run_view (pbc_view s) d blk n = src" "\<And>b. (d, b) \<in> K \<Longrightarrow> length (pbc_view s (d, b)) = m"
  shows "\<exists>s'. pbc_load_each d blk m n src s = Ret (src, s') \<and> kept K s s' \<and> (\<forall>l\<in>K. pbc_view s' l = pbc_view s l)"
  using assms
proof (induction n arbitrary: s blk src)
  case (Suc n)
  then have K: "(d, blk) \<in> K" "run_keys d (blk + 1) n \<subseteq> K" by (simp_all add: run_keys_Suc)
  have src: "src = pbc_view s (d, blk) @ run_view (pbc_view s) d (blk + 1) n"
    using Suc.prems(5) by (simp add: run_view_Suc)
  have sz: "take m src = pbc_view s (d, blk)" "drop m src = run_view (pbc_view s) d (blk + 1) n" "m \<le> length src"
    using src Suc.prems(6) [OF K(1)] by auto
  obtain rc s1 where s1: "pbc_load_slot d blk src s = Ret (rc, s1)" "kept K s s1" "\<forall>l\<in>K. pbc_view s1 l = pbc_view s l"
    using pbc_load_slot_ok [OF Suc.prems(1) K(1) Suc.prems(3), of src] sz Suc.prems(4) [OF K(1)] by auto
  have rv: "run_view (pbc_view s1) d (blk + 1) n = drop m src"
    unfolding sz(2) using s1(3) K(2) by (intro run_view_cong) blast
  have "\<exists>s'. pbc_load_each d (blk + 1) m n (drop m src) s1 = Ret (drop m src, s') \<and> kept K s1 s' \<and>
      (\<forall>l\<in>K. pbc_view s' l = pbc_view s1 l)"
    using s1 Suc.prems rv by (intro Suc.IH K(2)) (auto simp: kept_def)
  then obtain s2 where s2: "pbc_load_each d (blk + 1) m n (drop m src) s1 = Ret (drop m src, s2)" "kept K s1 s2"
      "\<forall>l\<in>K. pbc_view s2 l = pbc_view s1 l" by blast
  show ?case using s1 s2 kept_trans [OF s1(2) s2(2)] by auto
qed (simp add: kept_def run_view_def)

lemma pbc_run_len_free:
  assumes "\<And>j. j < run \<Longrightarrow> pbc_find s d (blk + of_nat i + of_nat j) = None" "i + run \<le> cnt"
  shows "i + pbc_run_len s d blk i cnt run \<le> cnt \<and>
    (\<forall>j<pbc_run_len s d blk i cnt run. pbc_find s d (blk + of_nat i + of_nat j) = None)"
  using assms
proof (induction s d blk i cnt run rule: pbc_run_len.induct)
  case (1 s d blk i cnt run)
  show ?case
  proof (cases "run < 32 \<and> i + run < cnt \<and> pbc_find s d (blk + of_nat i + of_nat run) = None")
    case True
    then have "i + pbc_run_len s d blk i cnt (run + 1) \<le> cnt \<and>
      (\<forall>j<pbc_run_len s d blk i cnt (run + 1). pbc_find s d (blk + of_nat i + of_nat j) = None)"
      using 1 by (intro "1.IH") (auto simp: less_Suc_eq)
    moreover have "pbc_run_len s d blk i cnt run = pbc_run_len s d blk i cnt (run + 1)"
      by (subst pbc_run_len.simps) (simp only: True simp_thms if_True)
    ultimately show ?thesis by simp
  next
    case False
    then have "pbc_run_len s d blk i cnt run = run" by (subst pbc_run_len.simps) (simp only: if_False)
    then show ?thesis using "1.prems" by simp
  qed
qed

lemma read_sectors_run:
  "read_sectors f d (st + blk * n) (k * unat n) =
     concat (map (\<lambda>j. read_sectors f d (st + (blk + of_nat j) * n) (unat n)) [0..<k])"
proof (induction k)
  case (Suc k)
  have "read_sectors f d (st + blk * n) (Suc k * unat n) =
    read_sectors f d (st + blk * n) (k * unat n) @ read_sectors f d (st + blk * n + of_nat (k * unat n)) (unat n)"
    using read_sectors_add [of f d "st + blk * n" "k * unat n" "unat n"] by (simp add: add.commute)
  moreover have "st + blk * n + of_nat (k * unat n) = st + (blk + of_nat k) * n" by (simp add: algebra_simps)
  ultimately show ?case unfolding upt_Suc map_append concat_append using Suc by (simp add: add.assoc del: mult_Suc)
qed (simp add: read_sectors_def)

text \<open>Reading the sectors of blocks that are not cached gives their view.\<close>

lemma read_run_view:
  assumes "dev_of (devs s) d = Some dv" "\<And>j. j < n \<Longrightarrow> pbc_find s d (blk + of_nat j) = None"
  shows "read_sectors (sectors s) (disk dv) (start dv + blk * spb dv) (n * unat (spb dv)) = run_view (pbc_view s) d blk n"
  unfolding read_sectors_run run_view_def
  using assms by (auto simp: pbc_view_def on_disk_def intro!: arg_cong [where f = concat])

lemma length_view:
  assumes "pbc_inv K s" "k \<in> K"
  shows "length (pbc_view s k) = blk_size (devs s) k"
proof (cases "pbc_find s (fst k) (snd k)")
  case (Some i)
  then have "i < length (slots s)" using pbc_find_Some_iff [OF assms(1)] by auto
  then have "length (sdata (slots s ! i)) = 4096" using pbc_inv_slot [OF assms(1)] by (simp add: slot_ok_def)
  moreover obtain dv :: pbc_dev where "unat (bs dv) \<le> 4096" "blk_size (devs s) k = unat (bs dv)"
    by (rule pbc_dev_key [OF assms]) blast
  ultimately show ?thesis using Some by (simp add: pbc_view_def)
qed (simp add: pbc_view_def length_on_disk [OF assms])

lemma run_keys_sub: "i + n \<le> m \<Longrightarrow> run_keys d (blk + of_nat i) n \<subseteq> run_keys d blk m"
proof
  fix k assume "i + n \<le> m" "k \<in> run_keys d (blk + of_nat i) n"
  then obtain j where "j < n" "k = (d, blk + of_nat (i + j))" by (auto simp: run_keys_def ac_simps)
  then show "k \<in> run_keys d blk m" using \<open>i + n \<le> m\<close> by (auto simp: run_keys_def simp del: of_nat_add)
qed

lemma pbc_inv_bounce: "pbc_inv K (s\<lparr>bounce_blocks := b\<rparr>) = pbc_inv K s"
  "pbc_view (s\<lparr>bounce_blocks := b\<rparr>) = pbc_view s"
  by (auto simp: pbc_inv_def slot_ok_def pbc_view_def pbc_find_def fun_eq_iff split: option.splits)

lemma pbc_bounce_get_ok:
  assumes "pbc_inv K s" "pbc_bounce_get pages n s = (b, s')"
  shows "kept K s s' \<and> pbc_view s' = pbc_view s \<and> pbc_find s' = pbc_find s"
  using assms by (auto simp: pbc_bounce_get_def kept_def pbc_inv_bounce pbc_find_def fun_eq_iff split: if_splits)

lemma pbc_run_pass_ok:
  assumes inv: "pbc_inv K s" and K: "run_keys d blk cnt \<subseteq> K" and i: "i < cnt" and ne: "slots s \<noteq> []"
    and dv: "dev_of (devs s) d = Some dv"
  shows "\<exists>n s'. pbc_run_pass pages dv d blk cnt i s = Ret (0, n, run_view (pbc_view s) d (blk + of_nat i) n, s') \<and>
    0 < n \<and> i + n \<le> cnt \<and> kept K s s' \<and> (\<forall>l\<in>K. pbc_view s' l = pbc_view s l)"
proof (cases "pbc_find s d (blk + of_nat i)")
  case (Some j)
  then have j: "j < length (slots s)" "valid (slots s ! j)" using pbc_find_Some_iff [OF inv] by auto
  have "pbc_run_pass pages dv d blk cnt i s = Ret (0, 1, run_view (pbc_view s) d (blk + of_nat i) 1, touched s j)"
    using Some j dv
    by (simp add: pbc_run_pass_def run_view_def pbc_view_def blk_size_def touched_def upd_slot_def Let_def)
  then show ?thesis using touched_ok [OF inv j] i by fastforce
next
  case None
  define n where "n = pbc_run_len s d blk i cnt 1"
  have n: "0 < n" "i + n \<le> cnt" "\<And>j. j < n \<Longrightarrow> pbc_find s d (blk + of_nat i + of_nat j) = None"
    using pbc_run_len_free [of 1 s d blk i cnt] pbc_run_len_ge [of 1 s d blk i cnt] None i by (auto simp: n_def)
  have n_eq: "pbc_run_len s d blk i cnt (Suc 0) = n" by (simp add: n_def)
  have Kn: "run_keys d (blk + of_nat i) n \<subseteq> K" using K run_keys_sub [OF n(2)] by blast
  obtain b s1 where b: "pbc_bounce_get pages (of_nat n) s = (b, s1)" by force
  note s1 = pbc_bounce_get_ok [OF inv b]
  have inv1: "pbc_inv K s1" and dv1: "dev_of (devs s1) d = Some dv" and ne1: "slots s1 \<noteq> []"
    using s1 dv ne by (auto simp: kept_def)
  have "\<exists>s'. pbc_run_pass pages dv d blk cnt i s = Ret (0, n, run_view (pbc_view s1) d (blk + of_nat i) n, s') \<and>
    kept K s1 s' \<and> (\<forall>l\<in>K. pbc_view s' l = pbc_view s1 l)"
  proof (cases b)
    case False
    then show ?thesis using None b pbc_read_each_ok [OF inv1 Kn] by (auto simp: pbc_run_pass_def Let_def n_eq)
  next
    case True
    have src: "read_sectors (sectors s1) (disk dv) (start dv + (blk + of_nat i) * spb dv) (n * unat (spb dv)) =
      run_view (pbc_view s1) d (blk + of_nat i) n"
      by (rule read_run_view [OF dv1]) (use n(3) s1 in simp)
    have sz: "blk_size (devs s1) (d, b) = unat (bs dv)" for b by (simp add: blk_size_def dv1)
    show ?thesis
      using None b True src pbc_load_each_ok [OF inv1 Kn ne1 sz refl] length_view [OF inv1] sz
      by (auto simp: pbc_run_pass_def Let_def n_eq)
  qed
  then show ?thesis using s1 n kept_trans [of K s s1] by auto
qed

lemma pbc_run_loop_ok:
  assumes "pbc_inv K s" "run_keys d blk cnt \<subseteq> K" "i \<le> cnt" "slots s \<noteq> []" "dev_of (devs s) d = Some dv"
  shows "\<exists>s'. pbc_run_loop pages dv d blk cnt i s = Ret (0, run_view (pbc_view s) d (blk + of_nat i) (cnt - i), s') \<and>
    kept K s s' \<and> (\<forall>l\<in>K. pbc_view s' l = pbc_view s l)"
  using assms
proof (induction "cnt - i" arbitrary: i s rule: less_induct)
  case less
  show ?case
  proof (cases "i < cnt")
    case True
    obtain n s1 where p: "pbc_run_pass pages dv d blk cnt i s = Ret (0, n, run_view (pbc_view s) d (blk + of_nat i) n, s1)"
      "0 < n" "i + n \<le> cnt" "kept K s s1" "\<forall>l\<in>K. pbc_view s1 l = pbc_view s l"
      using pbc_run_pass_ok [OF less.prems(1,2) True less.prems(4,5)] by blast
    have s1: "pbc_inv K s1" "slots s1 \<noteq> []" "dev_of (devs s1) d = Some dv" using p(4) less.prems by (auto simp: kept_def)
    have lt: "cnt - (i + n) < cnt - i" using p(2,3) by linarith
    obtain s2 where r: "pbc_run_loop pages dv d blk cnt (i + n) s1 =
        Ret (0, run_view (pbc_view s1) d (blk + of_nat (i + n)) (cnt - (i + n)), s2)"
      "kept K s1 s2" "\<forall>l\<in>K. pbc_view s2 l = pbc_view s1 l"
      using less.hyps [OF lt s1(1) less.prems(2) p(3) s1(2,3)] by blast
    have "run_view (pbc_view s1) d (blk + of_nat (i + n)) (cnt - (i + n)) = run_view (pbc_view s) d (blk + of_nat (i + n)) (cnt - (i + n))"
      using p(3,5) less.prems(2) run_keys_sub [of "i + n" "cnt - (i + n)" cnt d blk] by (intro run_view_cong) auto
    moreover have "run_view (pbc_view s) d (blk + of_nat i) (cnt - i) =
      run_view (pbc_view s) d (blk + of_nat i) n @ run_view (pbc_view s) d (blk + of_nat (i + n)) (cnt - (i + n))"
      using run_view_add [of "pbc_view s" d "blk + of_nat i" n "cnt - (i + n)"] p(3) by (simp add: add.assoc)
    ultimately show ?thesis
      using p r True kept_trans [OF p(4) r(2)] by (subst pbc_run_loop.simps) simp
  qed (use less.prems in \<open>simp add: pbc_run_loop.simps [of _ _ _ _ cnt] run_view_def kept_def\<close>)
qed

lemma pbc_read_run_ok:
  assumes inv: "pbc_inv K s" and K: "run_keys d blk (unat cnt) \<subseteq> K"
    and small: "\<And>dv. dev_of (devs s) d = Some dv \<Longrightarrow> unat cnt * unat (spb dv) < 2 ^ 32"
  shows "\<exists>s'. pbc_read_run pages d blk cnt s = Ret (0, run_view (pbc_view s) d blk (unat cnt), s') \<and>
    kept K s s' \<and> (\<forall>l\<in>K. pbc_view s' l = pbc_view s l)"
proof (cases "cnt = 0")
  case False
  then have "0 < unat cnt" by (simp add: unat_gt_0)
  then have "(d, blk + of_nat 0) \<in> run_keys d blk (unat cnt)" unfolding run_keys_def by blast
  then have "(d, blk) \<in> K" using K by auto
  then obtain dv where dv: "dev_of (devs s) d = Some dv" "disk dv \<noteq> 0"
    using pbc_dev_key [OF inv, of "(d, blk)", unfolded fst_conv snd_conv] by metis
  show ?thesis
  proof (cases "slots s = []")
    case True
    have "unat (cnt * spb dv) = unat cnt * unat (spb dv)" using small [OF dv(1)] by (subst unat_mult_lem [symmetric]) simp
    moreover have "pbc_find s d b = None" for b using True by (simp add: pbc_find_def)
    ultimately show ?thesis using read_run_view [OF dv(1), of "unat cnt" blk] dv False True inv
      by (simp add: pbc_read_run_def kept_def)
  next
    case ne: False
    then show ?thesis using pbc_run_loop_ok [OF inv K _ ne dv(1), of 0] dv False by (simp add: pbc_read_run_def)
  qed
qed (use inv in \<open>simp add: pbc_read_run_def run_view_def kept_def\<close>)

section \<open>The cache is the disk\<close>

datatype pbc_op = P_read u32 u32 | P_run u32 u32 u32 | P_write u32 u32 "u8 list" | P_flush

text \<open>An operation as a caller sees it: the bytes it delivers, and nothing if it fails or faults.\<close>

fun pbc_exec :: "(nat \<Rightarrow> bool) \<Rightarrow> pbc_op \<Rightarrow> pbc \<Rightarrow> (u8 list \<times> pbc) option" where
  "pbc_exec pages (P_read d blk) s =
     (case pbc_read d blk s of Ret (rc, bytes, s) \<Rightarrow> if rc = 0 then Some (bytes, s) else None | Null \<Rightarrow> None)"
| "pbc_exec pages (P_run d blk cnt) s =
     (case pbc_read_run pages d blk cnt s of Ret (rc, bytes, s) \<Rightarrow> if rc = 0 then Some (bytes, s) else None | Null \<Rightarrow> None)"
| "pbc_exec pages (P_write d blk src) s =
     (case pbc_write d blk src s of Ret (rc, s) \<Rightarrow> if rc = 0 then Some ([], s) else None | Null \<Rightarrow> None)"
| "pbc_exec pages P_flush s = Some ([], pbc_flush_all s)"

text \<open>The same operations on a plain array of blocks.\<close>

fun blocks_exec :: "pbc_op \<Rightarrow> (key \<Rightarrow> u8 list) \<Rightarrow> u8 list \<times> (key \<Rightarrow> u8 list)" where
  "blocks_exec (P_read d blk) v = (v (d, blk), v)"
| "blocks_exec (P_run d blk cnt) v = (run_view v d blk (unat cnt), v)"
| "blocks_exec (P_write d blk src) v = ([], v((d, blk) := src))"
| "blocks_exec P_flush v = ([], v)"

fun pbc_legal :: "pbc_dev list \<Rightarrow> key set \<Rightarrow> pbc_op \<Rightarrow> bool" where
  "pbc_legal ds K (P_read d blk) \<longleftrightarrow> (d, blk) \<in> K"
| "pbc_legal ds K (P_run d blk cnt) \<longleftrightarrow> run_keys d blk (unat cnt) \<subseteq> K \<and>
     (\<forall>dv. dev_of ds d = Some dv \<longrightarrow> unat cnt * unat (spb dv) < 2 ^ 32)"
| "pbc_legal ds K (P_write d blk src) \<longleftrightarrow> (d, blk) \<in> K \<and> length src = blk_size ds (d, blk)"
| "pbc_legal ds K P_flush \<longleftrightarrow> True"

definition pbc_abs :: "key set \<Rightarrow> pbc \<Rightarrow> key \<Rightarrow> u8 list" where
  "pbc_abs K s k = (if k \<in> K then pbc_view s k else [])"

lemma pbc_abs_eq: "(\<And>l. l \<in> K \<Longrightarrow> pbc_view s' l = pbc_view s l) \<Longrightarrow> pbc_abs K s' = pbc_abs K s"
  by (auto simp: pbc_abs_def)

lemma pbc_exec_ok:
  assumes "pbc_inv K s \<and> devs s = ds" and "pbc_legal ds K p"
  shows "\<exists>s'. pbc_exec pages p s = Some (fst (blocks_exec p (pbc_abs K s)), s') \<and> (pbc_inv K s' \<and> devs s' = ds) \<and>
    pbc_abs K s' = snd (blocks_exec p (pbc_abs K s))"
proof (cases p)
  case (P_read d blk)
  then obtain s' where "pbc_read d blk s = Ret (0, pbc_view s (d, blk), s')" "kept K s s'" "\<forall>l\<in>K. pbc_view s' l = pbc_view s l"
    using pbc_read_ok [of K s d blk] assms by auto
  then show ?thesis using P_read assms pbc_abs_eq [of K s' s] by (auto simp: kept_def pbc_abs_def)
next
  case (P_run d blk cnt)
  then obtain s' where "pbc_read_run pages d blk cnt s = Ret (0, run_view (pbc_view s) d blk (unat cnt), s')" "kept K s s'"
      "\<forall>l\<in>K. pbc_view s' l = pbc_view s l"
    using pbc_read_run_ok [of K s d blk cnt pages] assms by auto
  moreover have "run_view (pbc_view s) d blk (unat cnt) = run_view (pbc_abs K s) d blk (unat cnt)"
    using P_run assms by (intro run_view_cong) (auto simp: pbc_abs_def)
  ultimately show ?thesis using P_run assms pbc_abs_eq [of K s' s] by (auto simp: kept_def)
next
  case (P_write d blk src)
  then obtain s' where "pbc_write d blk src s = Ret (0, s')" "kept K s s'"
      "\<forall>l\<in>K. pbc_view s' l = (if l = (d, blk) then src else pbc_view s l)"
    using pbc_write_ok [of K s d blk src] assms by auto
  then show ?thesis using P_write assms by (auto simp: kept_def pbc_abs_def fun_eq_iff)
next
  case P_flush
  then show ?thesis using pbc_flush_all_ok [of K s] assms pbc_abs_eq [of K "pbc_flush_all s" s] by (auto simp: kept_def)
qed

interpretation pbc: obj "\<lambda>s. pbc_inv K s \<and> devs s = ds" "pbc_abs K" "pbc_legal ds K" "pbc_exec pages" blocks_exec
  for K ds pages
  by unfold_locales (rule pbc_exec_ok)

end
