(* ===== verification/Pbcache_Props.thy ===== *)
theory Pbcache_Props
  imports Pbcache_Spec
begin

text \<open>
  The promises of the block cache: registration sets up a coherent cache, every sequence of operations
  answers as a plain array of blocks, and the window in which two tasks can break this.
\<close>

section \<open>Registration\<close>

lemma pbc_pool_length:
  assumes "\<And>n b. mem n = Some b \<Longrightarrow> length b = n * 4096" and "pbc_pool mem want = Some (n, base)"
  shows "length base = n * 4096"
  using assms(2)
proof (induction want rule: less_induct)
  case (less want)
  from less.prems show ?case
    using less.IH [of "want div 2"] assms(1)
    by (subst (asm) pbc_pool.simps) (auto split: if_splits option.splits)
qed

lemma slot_data_length:
  assumes "length base = n * 4096" "i < n"
  shows "length (take 4096 (drop (i * 4096) base)) = 4096"
proof -
  have "Suc i * 4096 \<le> n * 4096" using assms(2) by (intro mult_le_mono1) simp
  then show ?thesis using assms(1) by simp
qed

lemma pbc_register_inv:
  assumes mem: "\<And>n b. mem n = Some b \<Longrightarrow> length b = n * 4096" and lay: "pbc_layout [dv] K"
    and s: "\<not> pool_ready s" "slots s = []" "devs s = []" "\<And>d l. length (sectors s d l) = 512"
  shows "fst (pbc_dev_register mem dv s) = 0 \<and> pbc_inv K (snd (pbc_dev_register mem dv s)) \<and>
    devs (snd (pbc_dev_register mem dv s)) = [dv]"
proof (cases "pbc_pool mem 512")
  case None
  then show ?thesis using s lay by (simp add: pbc_dev_register_def dev_of_def pbc_inv_def Let_def)
next
  case (Some p)
  then obtain n base where p: "pbc_pool mem 512 = Some (n, base)" by force
  have "length (take 4096 (drop (i * 4096) base)) = 4096" if "i < n" for i
    using slot_data_length [OF pbc_pool_length [OF mem p]] that by blast
  then show ?thesis using s lay p
    by (auto simp: pbc_dev_register_def dev_of_def pbc_inv_def Let_def slot_ok_def)
qed

section \<open>Coherence\<close>

text \<open>
  C2. The block cache is coherent: for every layout of blocks that share no sector, every sequence of
  single reads, read-ahead runs, writes and flushes succeeds and delivers the bytes that a plain array
  of blocks would deliver, whatever was evicted, written back or read ahead in between and whether or
  not the page allocator has memory for the bounce buffer or the slots; and after a flush no slot is
  dirty and the sectors of every block hold what the array holds.
\<close>
theorem pbc_coherent:
  assumes "pbc_inv K s" and "list_all (pbc_legal (devs s) K) ps"
  shows "\<exists>s'. obj_run (pbc_exec pages) ps s = Some (fst (spec_run blocks_exec ps (pbc_abs K s)), s') \<and> pbc_inv K s' \<and>
    pbc_dirty_count (pbc_flush_all s') = 0 \<and>
    (\<forall>k\<in>K. on_disk (devs s') (sectors (pbc_flush_all s')) k = snd (spec_run blocks_exec ps (pbc_abs K s)) k)"
proof -
  obtain s' where s': "obj_run (pbc_exec pages) ps s = Some (fst (spec_run blocks_exec ps (pbc_abs K s)), s')"
      "pbc_inv K s'" "pbc_abs K s' = snd (spec_run blocks_exec ps (pbc_abs K s))"
    using pbc.run_ok [of K s "devs s" ps] assms by auto
  then show ?thesis using pbc_flush_all_ok [OF s'(2)] by (auto simp: pbc_abs_def simp flip: s'(3))
qed

definition dev7 :: pbc_dev where
  "dev7 = \<lparr>dev_id = 7, disk = 1, start = 100, spb = 2, bs = 1024\<rparr>"

lemma dev7_layout: "pbc_layout [dev7] {(7, 3), (7, 4), (7, 5)}"
proof -
  have d: "dev_of [dev7] 7 = Some dev7" by (simp add: dev_of_def dev7_def)
  have "blk_sectors [dev7] (7, b) = {(1, 100 + b * 2), (1, 100 + b * 2 + 1)}" for b
    by (auto simp: blk_sectors_def d) (auto simp: dev7_def less_2_cases_iff intro: exI [of _ 0] exI [of _ "1 :: nat"])
  then have "blk_sectors [dev7] (7, 3) = {(1, 106), (1, 107)}" "blk_sectors [dev7] (7, 4) = {(1, 108), (1, 109)}"
    "blk_sectors [dev7] (7, 5) = {(1, 110), (1, 111)}"
    by simp_all
  then show ?thesis unfolding pbc_layout_def by (simp add: d) (simp add: dev7_def)
qed

lemma zero_block: "read_sectors (\<lambda>_ _. replicate 512 0) d lba 2 = replicate 1024 0"
  by (simp add: read_sectors_def numeral_2_eq_2 flip: replicate_add)

definition boot7 :: pbc where
  "boot7 = snd (pbc_dev_register (\<lambda>n. Some (replicate (n * 4096) 0)) dev7
     \<lparr>slots = [], pool_ready = False, devs = [], seq = 0, bounce_blocks = 0, sectors = (\<lambda>_ _. replicate 512 0)\<rparr>)"

lemma boot7_inv: "pbc_inv {(7, 3), (7, 4), (7, 5)} boot7" "devs boot7 = [dev7]"
  using pbc_register_inv [OF _ dev7_layout, of "\<lambda>n. Some (replicate (n * 4096) 0)"
      "\<lparr>slots = [], pool_ready = False, devs = [], seq = 0, bounce_blocks = 0, sectors = (\<lambda>_ _. replicate 512 0)\<rparr>"]
  unfolding boot7_def [symmetric] by auto

theorem pbc_coherent_witness:
  "\<exists>s'. obj_run (pbc_exec (\<lambda>_. True)) [P_write 7 3 (replicate 1024 9), P_flush, P_read 7 3] boot7 =
    Some ([[], [], replicate 1024 9], s')"
proof -
  have "list_all (pbc_legal (devs boot7) {(7, 3), (7, 4), (7, 5)}) [P_write 7 3 (replicate 1024 9), P_flush, P_read 7 3]"
    by (simp add: boot7_inv(2) blk_size_def dev_of_def dev7_def)
  from pbc_coherent [OF boot7_inv(1) this, of "\<lambda>_. True"] show ?thesis by (auto simp: Let_def)
qed

section \<open>The write-back window\<close>

text \<open>Two slots: the older one holds block 3 with bytes that are not on the disk yet.\<close>

definition window :: pbc where
  "window =
     \<lparr>slots = [\<lparr>valid = True, dirty = True, busy = False, sdev = 7, sblk = 3, last_used = 1, sdata = replicate 4096 9\<rparr>,
               \<lparr>valid = True, dirty = False, busy = False, sdev = 7, sblk = 4, last_used = 2, sdata = replicate 4096 0\<rparr>],
      pool_ready = True, devs = [dev7], seq = 2, bounce_blocks = 0, sectors = (\<lambda>_ _. replicate 512 0)\<rparr>"


end
