(* ===== verification/Limbs.thy ===== *)
theory Limbs
  imports CZ_Prelude
begin

text \<open>
  Machine words read as natural numbers: the operations that multi-word arithmetic uses, each with the
  bound under which it does not wrap. Little-endian byte strings have the value \<open>le_val\<close>.
\<close>

lemma unat_bound: "unat (x :: 'a::len word) < 2 ^ LENGTH('a)"
  by (rule unsigned_less)

lemma unat_add_ok: "unat (x :: 'a::len word) + unat y < 2 ^ LENGTH('a) \<Longrightarrow> unat (x + y) = unat x + unat y"
  by (simp add: unat_add_lem)

lemma unat_mult_ok: "unat (x :: 'a::len word) * unat y < 2 ^ LENGTH('a) \<Longrightarrow> unat (x * y) = unat x * unat y"
  by (simp add: unat_mult_lem)

lemma unat_and_mask [simp]: "unat (x AND mask n :: 'a::len word) = unat x mod 2 ^ n"
proof -
  have "unat (take_bit n x) = take_bit n (unat x)" by (rule unsigned_take_bit_eq)
  then show ?thesis by (simp only: take_bit_eq_mask [of n x] take_bit_eq_mod [of n "unat x"])
qed

lemma unat_drop [simp]: "unat (drop_bit n x :: 'a::len word) = unat x div 2 ^ n"
proof -
  have "unat (drop_bit n x) = drop_bit n (unat x)" by (rule unat_drop_bit_eq)
  then show ?thesis by (simp only: drop_bit_eq_div [of n "unat x"])
qed

lemma unat_ucast_mod: "unat (ucast (x :: 'a::len word) :: 'b::len word) = unat x mod 2 ^ LENGTH('b)"
  by (simp add: unsigned_ucast_eq take_bit_eq_mod)

lemma unat_push: "unat (push_bit n x :: 'a::len word) = unat x * 2 ^ n mod 2 ^ LENGTH('a)"
proof -
  have "unat (push_bit n x) = take_bit LENGTH('a) (push_bit n (unat x))"
    using unsigned_push_bit_eq [of n x, where ?'a = nat] by simp
  then show ?thesis by (simp only: take_bit_eq_mod push_bit_eq_mult [of n "unat x"])
qed

lemma or_push:
  assumes "unat (a :: 'a::len word) < 2 ^ n"
  shows "a OR push_bit n b = a + push_bit n b"
proof -
  have "a = take_bit n a"
    using assms unat_and_mask [of a n] by (simp add: word_unat_eq_iff take_bit_eq_mask)
  then have "\<not> bit a k" if "k \<ge> n" for k using that by (metis bit_take_bit_iff not_le)
  then have "a AND push_bit n b = 0" by (intro bit_word_eqI) (auto simp: bit_simps)
  then show ?thesis by (simp add: disjunctive_add_eq_or)
qed

lemma unat_or_push:
  assumes a: "unat (a :: 'a::len word) < 2 ^ n" and n: "n \<le> LENGTH('a)"
  shows "unat (a OR push_bit n b) = unat a + (unat b mod 2 ^ (LENGTH('a) - n)) * 2 ^ n"
proof -
  have "unat (push_bit n b :: 'a word) = (unat b mod 2 ^ (LENGTH('a) - n)) * 2 ^ n"
    using n by (simp add: unat_push mult_mod_left flip: power_add)
  moreover have "unat b mod 2 ^ (LENGTH('a) - n) * 2 ^ n + unat a < 2 ^ LENGTH('a)"
  proof -
    have "Suc (unat b mod 2 ^ (LENGTH('a) - n)) * 2 ^ n \<le> 2 ^ (LENGTH('a) - n) * 2 ^ n"
      by (intro mult_le_mono1) (simp add: Suc_le_eq)
    also have "\<dots> = 2 ^ LENGTH('a)" using n by (simp flip: power_add)
    finally show ?thesis using a by simp
  qed
  ultimately show ?thesis using or_push [OF a, of b] by (simp add: unat_add_ok add.commute)
qed

lemma unat_ucast_up: "LENGTH('a) \<le> LENGTH('b) \<Longrightarrow> unat (ucast (x :: 'a::len word) :: 'b::len word) = unat x"
proof -
  assume "LENGTH('a) \<le> LENGTH('b)"
  then have "(2 :: nat) ^ LENGTH('a) \<le> 2 ^ LENGTH('b)" by (rule power_increasing) simp
  then have "unat x < 2 ^ LENGTH('b)" using unat_bound [of x] by (rule less_le_trans [rotated])
  then show ?thesis by (simp only: unat_ucast_mod mod_less)
qed

section \<open>Little-endian values\<close>

primrec le_val :: "u8 list \<Rightarrow> nat" where
  "le_val [] = 0"
| "le_val (b # bs) = unat b + 256 * le_val bs"

lemma le_val_less: "le_val bs < 2 ^ (8 * length bs)"
proof (induction bs)
  case (Cons b bs)
  have "unat b < 256" using unsigned_less [of b] by simp
  then show ?case using Cons by (simp add: power_add)
qed simp

lemma le_val_append: "le_val (xs @ ys) = le_val xs + 2 ^ (8 * length xs) * le_val ys"
  by (induction xs) (simp_all add: algebra_simps power_add)

lemma le_val_zeros [simp]: "le_val (replicate n 0) = 0"
  by (induction n) auto

lemma unat_load_le: "8 * length bs \<le> LENGTH('a) \<Longrightarrow> unat (load_le bs :: 'a::len word) = le_val bs"
proof (induction bs)
  case (Cons b bs)
  have "8 \<le> LENGTH('a)" using Cons.prems by simp
  then have b: "unat (ucast b :: 'a word) = unat b"
    by (simp add: unat_ucast_up)
  have IH: "unat (load_le bs :: 'a word) = le_val bs" using Cons by simp
  have small: "unat (ucast b :: 'a word) < 2 ^ 8" using b unat_bound [of b] by simp
  have "le_val bs < 2 ^ (LENGTH('a) - 8)"
    using le_val_less [of bs] power_increasing [of "8 * length bs" "LENGTH('a) - 8" "2 :: nat"] Cons.prems
    by (simp add: le_diff_conv2 del: power_increasing_iff)
  then show ?case
    using unat_or_push [OF small \<open>8 \<le> LENGTH('a)\<close>, of "load_le bs"] IH b by (simp del: unat_drop)
qed simp

text \<open>The bytes of a number, lowest first.\<close>

fun le_bytes :: "nat \<Rightarrow> nat \<Rightarrow> u8 list" where
  "le_bytes 0 v = []"
| "le_bytes (Suc n) v = of_nat v # le_bytes n (v div 256)"

lemma length_le_bytes [simp]: "length (le_bytes n v) = n"
  by (induction n arbitrary: v) auto

lemma le_bytes_add: "le_bytes (n + m) v = le_bytes n v @ le_bytes m (v div 256 ^ n)"
  by (induction n arbitrary: v) (simp_all add: div_mult2_eq)

lemma le_bytes_mod: "m \<ge> n \<Longrightarrow> le_bytes n (v mod 256 ^ m) = le_bytes n v"
proof (induction n arbitrary: m v)
  case (Suc n)
  then obtain k where m: "m = Suc k" "k \<ge> n" by (cases m) auto
  have "v mod 256 ^ m div 256 = v div 256 mod 256 ^ k" by (simp add: m mod_mult2_eq)
  moreover have "(of_nat (v mod 256 ^ m) :: u8) = of_nat v"
  proof -
    have "256 dvd (256 ^ m :: nat)" by (simp add: m)
    then have "unat (of_nat (v mod 256 ^ m) :: u8) = unat (of_nat v :: u8)"
      by (simp add: unat_of_nat mod_mod_cancel)
    then show ?thesis by (simp only: word_unat_eq_iff)
  qed
  ultimately show ?case using Suc.IH [OF m(2)] by simp
qed simp

end
