(* ===== verification/Chacha20.thy ===== *)
theory Chacha20
  imports Limbs
begin

text \<open>
  ChaCha20, Poly1305 and the AEAD of \<open>lib/crypto/chacha20.c\<close>. Pointers into buffers are byte lists that
  start at the pointer, and the length argument of a call is the length of its list. Uninitialised
  locals (the Poly1305 buffer) are parameters.
\<close>

type_synonym u128 = "128 word"

section \<open>Loads and stores\<close>

definition CHACHA_MASK44 :: u64 where "CHACHA_MASK44 = 0xfffffffffff"

definition CHACHA_MASK42 :: u64 where "CHACHA_MASK42 = 0x3ffffffffff"

definition rotl32 :: "u32 \<Rightarrow> nat \<Rightarrow> u32" where
  "rotl32 v n = push_bit n v OR drop_bit (32 - n) v"

definition ld32 :: "u8 list \<Rightarrow> u32" where
  "ld32 p = ucast (p ! 0) OR push_bit 8 (ucast (p ! 1)) OR push_bit 16 (ucast (p ! 2)) OR push_bit 24 (ucast (p ! 3))"

definition st32 :: "u32 \<Rightarrow> u8 list" where
  "st32 v = [ucast v, ucast (drop_bit 8 v), ucast (drop_bit 16 v), ucast (drop_bit 24 v)]"

definition ld64 :: "u8 list \<Rightarrow> u64" where
  "ld64 p = ucast (ld32 p) OR push_bit 32 (ucast (ld32 (drop 4 p)))"

definition st64 :: "u64 \<Rightarrow> u8 list" where
  "st64 v = st32 (ucast v) @ st32 (ucast (drop_bit 32 v))"

section \<open>ChaCha20\<close>

definition CHACHA_QR :: "nat \<Rightarrow> nat \<Rightarrow> nat \<Rightarrow> nat \<Rightarrow> u32 list \<Rightarrow> u32 list" where
  "CHACHA_QR a b c d x =
     (let x = x[a := x ! a + x ! b];
          x = x[d := x ! d XOR x ! a];
          x = x[d := rotl32 (x ! d) 16];
          x = x[c := x ! c + x ! d];
          x = x[b := x ! b XOR x ! c];
          x = x[b := rotl32 (x ! b) 12];
          x = x[a := x ! a + x ! b];
          x = x[d := x ! d XOR x ! a];
          x = x[d := rotl32 (x ! d) 8];
          x = x[c := x ! c + x ! d];
          x = x[b := x ! b XOR x ! c]
      in x[b := rotl32 (x ! b) 7])"

definition chacha20_rounds :: "u32 list \<Rightarrow> u32 list" where
  "chacha20_rounds x =
     (let x = CHACHA_QR 0 4 8 12 x;
          x = CHACHA_QR 1 5 9 13 x;
          x = CHACHA_QR 2 6 10 14 x;
          x = CHACHA_QR 3 7 11 15 x;
          x = CHACHA_QR 0 5 10 15 x;
          x = CHACHA_QR 1 6 11 12 x;
          x = CHACHA_QR 2 7 8 13 x
      in CHACHA_QR 3 4 9 14 x)"

definition chacha20_block :: "u32 list \<Rightarrow> u32 \<Rightarrow> u8 list \<Rightarrow> u8 list" where
  "chacha20_block key counter nonce =
     (let s = [0x61707865, 0x3320646e, 0x79622d32, 0x6b206574] @ map (\<lambda>i. key ! i) [0..<8] @
            [counter, ld32 nonce, ld32 (drop 4 nonce), ld32 (drop 8 nonce)];
          x = (chacha20_rounds ^^ 10) s
      in concat (map (\<lambda>i. st32 (x ! i + s ! i)) [0..<16]))"

definition chacha20_key :: "u8 list \<Rightarrow> u32 list" where
  "chacha20_key key = map (\<lambda>i. ld32 (drop (4 * i) key)) [0..<8]"

function chacha20_loop :: "(u32 \<Rightarrow> u8 list) \<Rightarrow> u32 \<Rightarrow> u8 list \<Rightarrow> u8 list" where
  "chacha20_loop block counter inp =
     (if inp \<noteq> [] then
        (let ks = block counter in
         map (\<lambda>i. inp ! i XOR ks ! i) [0..<min 64 (length inp)] @ chacha20_loop block (counter + 1) (drop 64 inp))
      else [])"
  by pat_completeness auto
termination by (relation "measure (\<lambda>(_, _, inp). length inp)") auto

declare chacha20_loop.simps [simp del]

definition chacha20_xor :: "u8 list \<Rightarrow> u8 list \<Rightarrow> u32 \<Rightarrow> u8 list \<Rightarrow> u8 list" where
  "chacha20_xor key nonce counter inp = chacha20_loop (\<lambda>c. chacha20_block (chacha20_key key) c nonce) counter inp"

section \<open>Poly1305\<close>

record poly_ctx =
  p_r0 :: u64
  p_r1 :: u64
  p_r2 :: u64
  p_s1 :: u64
  p_s2 :: u64
  p_h0 :: u64
  p_h1 :: u64
  p_h2 :: u64
  p_pad0 :: u64
  p_pad1 :: u64
  p_buf :: "u8 list"
  p_left :: nat

definition poly1305_init :: "u8 list \<Rightarrow> poly_ctx \<Rightarrow> poly_ctx" where
  "poly1305_init key ctx =
     (let rlo = ld64 key AND 0x0ffffffc0fffffff;
          rhi = ld64 (drop 8 key) AND 0x0ffffffc0ffffffc;
          r1 = (drop_bit 44 rlo OR push_bit 20 rhi) AND CHACHA_MASK44;
          r2 = drop_bit 24 rhi AND CHACHA_MASK42
      in ctx\<lparr>p_r0 := rlo AND CHACHA_MASK44, p_r1 := r1, p_r2 := r2, p_s1 := r1 * 20, p_s2 := r2 * 20,
             p_h0 := 0, p_h1 := 0, p_h2 := 0, p_pad0 := ld64 (drop 16 key), p_pad1 := ld64 (drop 24 key), p_left := 0\<rparr>)"

definition poly1305_block :: "u8 list \<Rightarrow> u64 \<Rightarrow> poly_ctx \<Rightarrow> poly_ctx" where
  "poly1305_block blk hibit ctx =
     (let t0 = ld64 blk;
          t1 = ld64 (drop 8 blk);
          h0 = p_h0 ctx + (t0 AND CHACHA_MASK44);
          h1 = p_h1 ctx + ((drop_bit 44 t0 OR push_bit 20 t1) AND CHACHA_MASK44);
          h2 = p_h2 ctx + (drop_bit 24 t1 OR hibit);
          d0 = (ucast h0 * ucast (p_r0 ctx) + ucast h1 * ucast (p_s2 ctx) + ucast h2 * ucast (p_s1 ctx) :: u128);
          d1 = (ucast h0 * ucast (p_r1 ctx) + ucast h1 * ucast (p_r0 ctx) + ucast h2 * ucast (p_s2 ctx) :: u128);
          d2 = (ucast h0 * ucast (p_r2 ctx) + ucast h1 * ucast (p_r1 ctx) + ucast h2 * ucast (p_r0 ctx) :: u128);
          c = (ucast (drop_bit 44 d0) :: u64);
          h0 = ucast d0 AND CHACHA_MASK44;
          d1 = d1 + ucast c;
          c = (ucast (drop_bit 44 d1) :: u64);
          h1 = ucast d1 AND CHACHA_MASK44;
          d2 = d2 + ucast c;
          c = (ucast (drop_bit 42 d2) :: u64);
          h2 = ucast d2 AND CHACHA_MASK42;
          h0 = h0 + c * 5;
          c = drop_bit 44 h0;
          h0 = h0 AND CHACHA_MASK44;
          h1 = h1 + c
      in ctx\<lparr>p_h0 := h0, p_h1 := h1, p_h2 := h2\<rparr>)"

function poly1305_blocks :: "u8 list \<Rightarrow> poly_ctx \<Rightarrow> u8 list \<times> poly_ctx" where
  "poly1305_blocks p ctx =
     (if length p \<ge> 16 then poly1305_blocks (drop 16 p) (poly1305_block (take 16 p) (push_bit 40 1) ctx) else (p, ctx))"
  by pat_completeness auto
termination by (relation "measure (\<lambda>(p, _). length p)") auto

declare poly1305_blocks.simps [simp del]

fun poly1305_store :: "u8 list \<Rightarrow> poly_ctx \<Rightarrow> poly_ctx" where
  "poly1305_store [] ctx = ctx"
| "poly1305_store (b # bs) ctx = poly1305_store bs (ctx\<lparr>p_buf := (p_buf ctx)[p_left ctx := b], p_left := p_left ctx + 1\<rparr>)"

text \<open>The first loop of \<open>poly1305_update\<close>: how many bytes it moved into a started block.\<close>

fun poly1305_top_up :: "u8 list \<Rightarrow> poly_ctx \<Rightarrow> u8 list \<times> poly_ctx" where
  "poly1305_top_up [] ctx = ([], ctx)"
| "poly1305_top_up (b # bs) ctx =
     (if p_left ctx < 16
      then poly1305_top_up bs (ctx\<lparr>p_buf := (p_buf ctx)[p_left ctx := b], p_left := p_left ctx + 1\<rparr>)
      else (b # bs, ctx))"

definition poly1305_update :: "u8 list \<Rightarrow> poly_ctx \<Rightarrow> poly_ctx" where
  "poly1305_update data ctx =
     (let (p, ctx) =
            (if p_left ctx \<noteq> 0 then
               (let (p, ctx) = poly1305_top_up data ctx in
                if p_left ctx = 16 then (p, (poly1305_block (p_buf ctx) (push_bit 40 1) ctx)\<lparr>p_left := 0\<rparr>) else (p, ctx))
             else (data, ctx));
          (p, ctx) = poly1305_blocks p ctx
      in poly1305_store p ctx)"

text \<open>The last, short block: a byte 1 and zeros up to 16 bytes.\<close>

definition poly1305_last :: "poly_ctx \<Rightarrow> poly_ctx" where
  "poly1305_last ctx =
     (if p_left ctx \<noteq> 0 then
        (let i = p_left ctx;
             b = (p_buf ctx)[i := 1];
             b = fold (\<lambda>i b. b[i := 0]) [i + 1..<16] b
         in poly1305_block b 0 (ctx\<lparr>p_buf := b\<rparr>))
      else ctx)"

text \<open>The two full carry passes, the conditional subtraction of the prime and the addition of the pad.\<close>

definition poly1305_carry :: "u64 \<times> u64 \<times> u64 \<Rightarrow> u64 \<times> u64 \<times> u64" where
  "poly1305_carry = (\<lambda>(h0, h1, h2).
     let c = drop_bit 44 h1; h1 = h1 AND CHACHA_MASK44; h2 = h2 + c;
         c = drop_bit 42 h2; h2 = h2 AND CHACHA_MASK42; h0 = h0 + c * 5;
         c = drop_bit 44 h0; h0 = h0 AND CHACHA_MASK44; h1 = h1 + c
     in (h0, h1, h2))"

definition poly1305_reduce :: "u64 \<times> u64 \<times> u64 \<Rightarrow> u64 \<times> u64 \<times> u64" where
  "poly1305_reduce = (\<lambda>(h0, h1, h2).
     let g0 = h0 + 5; c = drop_bit 44 g0; g0 = g0 AND CHACHA_MASK44;
         g1 = h1 + c; c = drop_bit 44 g1; g1 = g1 AND CHACHA_MASK44;
         g2 = h2 + c - push_bit 42 1;
         c = drop_bit 63 g2 - 1;
         g0 = g0 AND c; g1 = g1 AND c; g2 = g2 AND c;
         c = NOT c
     in ((h0 AND c) OR g0, (h1 AND c) OR g1, (h2 AND c) OR g2))"

definition poly1305_pad :: "u64 \<Rightarrow> u64 \<Rightarrow> u64 \<times> u64 \<times> u64 \<Rightarrow> u64 \<times> u64" where
  "poly1305_pad pad0 pad1 = (\<lambda>(h0, h1, h2).
     let h0 = h0 + (pad0 AND CHACHA_MASK44); c = drop_bit 44 h0; h0 = h0 AND CHACHA_MASK44;
         h1 = h1 + (((drop_bit 44 pad0 OR push_bit 20 pad1) AND CHACHA_MASK44) + c);
         c = drop_bit 44 h1; h1 = h1 AND CHACHA_MASK44;
         h2 = h2 + ((drop_bit 24 pad1 AND CHACHA_MASK42) + c); h2 = h2 AND CHACHA_MASK42
     in (h0 OR push_bit 44 h1, drop_bit 20 h1 OR push_bit 24 h2))"

definition poly1305_final :: "poly_ctx \<Rightarrow> u8 list" where
  "poly1305_final ctx =
     (let ctx = poly1305_last ctx;
          hs = poly1305_carry (poly1305_carry (p_h0 ctx, p_h1 ctx, p_h2 ctx));
          (h0, h1) = poly1305_pad (p_pad0 ctx) (p_pad1 ctx) (poly1305_reduce hs)
      in st64 h0 @ st64 h1)"

definition poly1305 :: "poly_ctx \<Rightarrow> u8 list \<Rightarrow> u8 list \<Rightarrow> u8 list" where
  "poly1305 ctx key msg = poly1305_final (poly1305_update msg (poly1305_init key ctx))"

definition poly1305_mac :: "poly_ctx \<Rightarrow> u8 list \<Rightarrow> u8 list \<Rightarrow> u8 list \<Rightarrow> u8 list" where
  "poly1305_mac ctx pkey aad ct =
     (let zeros = replicate 16 0;
          ctx = poly1305_init pkey ctx;
          ctx = poly1305_update aad ctx;
          pad = (16 - (of_nat (length aad) AND 15)) AND (15 :: u32);
          ctx = poly1305_update (take (unat pad) zeros) ctx;
          ctx = poly1305_update ct ctx;
          pad = (16 - (of_nat (length ct) AND 15)) AND (15 :: u32);
          ctx = poly1305_update (take (unat pad) zeros) ctx;
          lens = st64 (ucast (of_nat (length aad) :: u32)) @ st64 (ucast (of_nat (length ct) :: u32));
          ctx = poly1305_update lens ctx
      in poly1305_final ctx)"

section \<open>AEAD\<close>

definition chacha20_poly1305_setup :: "u8 list \<Rightarrow> u8 list \<Rightarrow> u8 list" where
  "chacha20_poly1305_setup key nonce = take 32 (chacha20_block (chacha20_key key) 0 nonce)"

definition ct_equal :: "u8 list \<Rightarrow> u8 list \<Rightarrow> nat \<Rightarrow> bool" where
  "ct_equal a b n \<longleftrightarrow> fold (\<lambda>i d. d OR (a ! i XOR b ! i)) [0..<n] 0 = 0"

definition chacha20_poly1305_encrypt :: "poly_ctx \<Rightarrow> u8 list \<Rightarrow> u8 list \<Rightarrow> u8 list \<Rightarrow> u8 list \<Rightarrow> u8 list \<times> u8 list" where
  "chacha20_poly1305_encrypt ctx key nonce aad inp =
     (let pkey = chacha20_poly1305_setup key nonce;
          out = chacha20_xor key nonce 1 inp
      in (out, poly1305_mac ctx pkey aad out))"

definition chacha20_poly1305_decrypt :: "poly_ctx \<Rightarrow> u8 list \<Rightarrow> u8 list \<Rightarrow> u8 list \<Rightarrow> u8 list \<Rightarrow> u8 list \<Rightarrow> u8 list option" where
  "chacha20_poly1305_decrypt ctx key nonce aad inp tag =
     (let pkey = chacha20_poly1305_setup key nonce;
          expect = poly1305_mac ctx pkey aad inp
      in if \<not> ct_equal expect tag 16 then None else Some (chacha20_xor key nonce 1 inp))"

end
