(* ===== verification/Poly1305.thy ===== *)
theory Poly1305
  imports Chacha20
begin

text \<open>
  The 44-bit-limb implementation of Poly1305 against arithmetic modulo the prime \<open>2 ^ 130 - 5\<close>: no
  intermediate sum or product wraps, each block multiplies the accumulator, and the tag is the reduced
  accumulator plus the pad modulo \<open>2 ^ 128\<close>.
\<close>

section \<open>Loads and stores\<close>

lemma ld32_load: "length p \<ge> 4 \<Longrightarrow> ld32 p = load_le (take 4 p)"
proof -
  assume "length p \<ge> 4"
  then obtain a b c d q where "p = a # b # c # d # q"
    by (auto simp: Suc_le_length_iff eval_nat_numeral)
  then show ?thesis by (simp add: ld32_def push_bit_or push_bit_push_bit)
qed

lemma unat_ld32: "length p \<ge> 4 \<Longrightarrow> unat (ld32 p) = le_val (take 4 p)"
  by (simp add: ld32_load unat_load_le)

lemma unat_ld64:
  assumes "length p \<ge> 8"
  shows "unat (ld64 p) = le_val (take 8 p)"
proof -
  have u: "unat (ucast (x :: u32) :: u64) = unat x" for x
    by (simp add: unat_ucast_up)
  have "take 8 p = take 4 p @ take 4 (drop 4 p)" by (simp add: take_add [of 4 4, simplified])
  then have v: "le_val (take 8 p) = le_val (take 4 p) + 2 ^ 32 * le_val (take 4 (drop 4 p))"
    using assms by (simp add: le_val_append)
  have "unat (ld32 (drop 4 p)) < 2 ^ 32" "unat (ld32 p) < 2 ^ 32" using unat_bound [where ?'a = 32] by auto
  then show ?thesis
    unfolding ld64_def using assms v by (subst unat_or_push) (simp_all add: u unat_ld32)
qed

lemma le_bytes_4: "le_bytes 4 v = [of_nat v, of_nat (v div 2 ^ 8), of_nat (v div 2 ^ 16), of_nat (v div 2 ^ 24)]"
proof -
  have "le_bytes (Suc (Suc (Suc (Suc 0)))) v = [of_nat v, of_nat (v div 2 ^ 8), of_nat (v div 2 ^ 16), of_nat (v div 2 ^ 24)]"
    by (simp add: div_mult2_eq [symmetric])
  moreover have "Suc (Suc (Suc (Suc 0))) = 4" by simp
  ultimately show ?thesis by (simp only:)
qed

lemma st32_le_bytes: "st32 v = le_bytes 4 (unat v)"
proof -
  have "ucast (drop_bit n v) = (of_nat (unat v div 2 ^ n) :: u8)" for n
    by (simp flip: unat_drop)
  then show ?thesis unfolding st32_def le_bytes_4 by simp
qed

lemma st64_le_bytes: "st64 v = le_bytes 8 (unat v)"
proof -
  have "le_bytes 8 (unat v) = le_bytes 4 (unat v) @ le_bytes 4 (unat v div 256 ^ 4)"
    using le_bytes_add [of 4 4 "unat v"] by simp
  moreover have "le_bytes 4 (unat v) = le_bytes 4 (unat (ucast v :: u32))"
    using le_bytes_mod [of 4 4 "unat v"] by (simp add: unat_ucast_mod)
  moreover have "unat v div 256 ^ 4 = unat (ucast (drop_bit 32 v) :: u32)"
    using unat_bound [of v] by (simp add: unat_ucast_mod less_mult_imp_div_less)
  ultimately show ?thesis by (simp add: st64_def st32_le_bytes)
qed

section \<open>Limbs\<close>

lemma mask44: "CHACHA_MASK44 = mask 44" and mask42: "CHACHA_MASK42 = mask 42"
  by (simp_all add: CHACHA_MASK44_def CHACHA_MASK42_def mask_eq_exp_minus_1)

definition P130 :: nat where
  "P130 = 2 ^ 130 - 5"

definition limbs :: "nat \<Rightarrow> nat \<Rightarrow> nat \<Rightarrow> nat" where
  "limbs a b c = a + b * 2 ^ 44 + c * 2 ^ 88"

lemma mod_2p44: "a < 2 ^ 20 \<Longrightarrow> (a + x * 2 ^ 20) mod 2 ^ 44 = a + (x mod 2 ^ 24) * (2 ^ 20 :: nat)"
proof -
  assume a: "a < 2 ^ 20"
  have "(2 :: nat) ^ 44 = 2 ^ 20 * 2 ^ 24" by simp
  then have "(a + x * 2 ^ 20) mod 2 ^ 44 = 2 ^ 20 * ((a + x * 2 ^ 20) div 2 ^ 20 mod 2 ^ 24) + (a + x * 2 ^ 20) mod 2 ^ 20"
    by (simp only: mod_mult2_eq)
  also have "(a + x * 2 ^ 20) div 2 ^ 20 = x" using a by simp
  also have "(a + x * 2 ^ 20) mod 2 ^ 20 = a" using a by simp
  finally show ?thesis by (simp add: mult.commute)
qed

lemma mid_limb:
  "unat ((drop_bit 44 t0 OR push_bit 20 t1) AND CHACHA_MASK44 :: u64) = unat t0 div 2 ^ 44 + (unat t1 mod 2 ^ 24) * 2 ^ 20"
proof -
  have a: "unat t0 div 2 ^ 44 < 2 ^ 20" using unat_bound [of t0] by (simp add: less_mult_imp_div_less)
  have "unat (drop_bit 44 t0 OR push_bit 20 t1) = unat t0 div 2 ^ 44 + (unat t1 mod 2 ^ 44) * 2 ^ 20"
    using a by (subst unat_or_push) simp_all
  then have "unat ((drop_bit 44 t0 OR push_bit 20 t1) AND CHACHA_MASK44) = (unat t0 div 2 ^ 44 + (unat t1 mod 2 ^ 44) * 2 ^ 20) mod 2 ^ 44"
    by (simp only: mask44 unat_and_mask)
  also have "\<dots> = unat t0 div 2 ^ 44 + (unat t1 mod 2 ^ 44 mod 2 ^ 24) * 2 ^ 20" by (rule mod_2p44 [OF a])
  finally show ?thesis by (simp add: mod_mod_cancel)
qed

lemma limbs_split: "limbs (x mod 2 ^ 44) (x div 2 ^ 44 + (y mod 2 ^ 24) * 2 ^ 20) (y div 2 ^ 24) = x + y * 2 ^ 64"
proof -
  have lin: "x = a * 2 ^ 44 + b \<Longrightarrow> y = c * 2 ^ 24 + d \<Longrightarrow> limbs b (a + d * 2 ^ 20) c = x + y * 2 ^ 64" for a b c d
    unfolding limbs_def by (simp add: algebra_simps)
  show ?thesis by (rule lin) (rule div_mult_mod_eq [symmetric])+
qed

lemma carry_lin:
  fixes D0 D1 D2 c0 c1 c2 c3 m0 m1 m2 m3 :: nat
  assumes "D0 = c0 * 2 ^ 44 + m0" "D1 + c0 = c1 * 2 ^ 44 + m1" "D2 + c1 = c2 * 2 ^ 42 + m2" "m0 + c2 * 5 = c3 * 2 ^ 44 + m3"
  shows "limbs D0 D1 D2 = limbs m3 (m1 + c3) m2 + c2 * P130"
  using assms unfolding limbs_def P130_def by simp

text \<open>The exact carries of a block: nothing is lost but multiples of the prime.\<close>

lemma carry_exact:
  fixes D0 D1 D2 :: nat
  defines "D1' \<equiv> D1 + D0 div 2 ^ 44"
    and "D2' \<equiv> D2 + (D1 + D0 div 2 ^ 44) div 2 ^ 44"
  shows "limbs D0 D1 D2 = limbs ((D0 mod 2 ^ 44 + D2' div 2 ^ 42 * 5) mod 2 ^ 44)
      (D1' mod 2 ^ 44 + (D0 mod 2 ^ 44 + D2' div 2 ^ 42 * 5) div 2 ^ 44) (D2' mod 2 ^ 42) + D2' div 2 ^ 42 * P130"
proof -
  show ?thesis
    by (rule carry_lin [of D0 "D0 div 2 ^ 44" "D0 mod 2 ^ 44" D1 "D1' div 2 ^ 44" _ D2])
      (simp_all only: D1'_def D2'_def div_mult_mod_eq)
qed

text \<open>Multiplication with the wrap factor: 20 stands for \<open>2 ^ 132\<close> modulo the prime.\<close>

lemma mult_exact:
  "limbs h0 h1 h2 * limbs r0 r1 r2 =
    limbs (h0 * r0 + h1 * (20 * r2) + h2 * (20 * r1)) (h0 * r1 + h1 * r0 + h2 * (20 * r2)) (h0 * r2 + h1 * r1 + h2 * r0) +
    4 * (h1 * r2 + h2 * r1 + h2 * r2 * 2 ^ 44) * P130"
  unfolding limbs_def P130_def by (simp add: algebra_simps)

section \<open>One block\<close>

lemma prod3:
  fixes a b c d e f :: u64
  assumes "unat a * unat b + unat c * unat d + unat e * unat f < 2 ^ 128"
  shows "unat (ucast a * ucast b + ucast c * ucast d + ucast e * ucast f :: u128) =
    unat a * unat b + unat c * unat d + unat e * unat f"
proof -
  have u: "unat (ucast x :: u128) = unat x" for x :: u64 by (simp add: unat_ucast_up)
  have m: "unat (ucast x * ucast y :: u128) = unat x * unat y" if "unat x * unat y < 2 ^ 128" for x y :: u64
    using that unat_mult_ok [of "ucast x :: u128" "ucast y"] by (simp add: u)
  have ab: "unat (ucast a * ucast b :: u128) = unat a * unat b" and cd: "unat (ucast c * ucast d :: u128) = unat c * unat d"
    and ef: "unat (ucast e * ucast f :: u128) = unat e * unat f"
    by (rule m, use assms in linarith)+
  have "unat (ucast a * ucast b + ucast c * ucast d :: u128) = unat a * unat b + unat c * unat d"
    using assms ab cd unat_add_ok [of "ucast a * ucast b :: u128" "ucast c * ucast d"] by simp
  then show ?thesis
    using assms ef unat_add_ok [of "ucast a * ucast b + ucast c * ucast d :: u128" "ucast e * ucast f"] by simp
qed

text \<open>The accumulator, the multiplier, and the bounds under which a block does not wrap.\<close>

definition hval :: "poly_ctx \<Rightarrow> nat" where
  "hval ctx = limbs (unat (p_h0 ctx)) (unat (p_h1 ctx)) (unat (p_h2 ctx))"

definition rval :: "poly_ctx \<Rightarrow> nat" where
  "rval ctx = limbs (unat (p_r0 ctx)) (unat (p_r1 ctx)) (unat (p_r2 ctx))"

definition acc_ok :: "poly_ctx \<Rightarrow> bool" where
  "acc_ok ctx \<longleftrightarrow> unat (p_h0 ctx) < 2 ^ 44 \<and> unat (p_h1 ctx) < 2 ^ 45 \<and> unat (p_h2 ctx) < 2 ^ 42"

definition key_ok :: "poly_ctx \<Rightarrow> bool" where
  "key_ok ctx \<longleftrightarrow> unat (p_r0 ctx) < 2 ^ 44 \<and> unat (p_r1 ctx) < 2 ^ 44 \<and> unat (p_r2 ctx) < 2 ^ 42 \<and>
     unat (p_s1 ctx) = 20 * unat (p_r1 ctx) \<and> unat (p_s2 ctx) = 20 * unat (p_r2 ctx)"

lemma prod_bound: "(x :: nat) < a \<Longrightarrow> y < b \<Longrightarrow> x * y < a * b"
  by (rule mult_strict_mono) auto

lemma poly1305_tail:
  fixes d0 d1 d2 :: u128
  assumes d: "unat d0 < 2 ^ 97" "unat d1 < 2 ^ 97" "unat d2 < 2 ^ 97"
  defines "D1 \<equiv> d1 + ucast (ucast (drop_bit 44 d0) :: u64)"
  defines "D2 \<equiv> d2 + ucast (ucast (drop_bit 44 D1) :: u64)"
  defines "h \<equiv> (ucast d0 AND CHACHA_MASK44) + (ucast (drop_bit 42 D2) :: u64) * 5"
  shows "limbs (unat d0) (unat d1) (unat d2) =
      limbs (unat (h AND CHACHA_MASK44)) (unat ((ucast D1 AND CHACHA_MASK44) + drop_bit 44 h))
        (unat (ucast D2 AND CHACHA_MASK42 :: u64)) + unat D2 div 2 ^ 42 * P130"
    and "unat ((ucast D1 AND CHACHA_MASK44) + drop_bit 44 h) < 2 ^ 45"
proof -
  have lo: "unat (ucast x AND mask n :: u64) = unat x mod 2 ^ n" if "n \<le> 64" for x :: u128 and n
  proof -
    have "(2 :: nat) ^ n dvd 2 ^ 64" using that by (rule le_imp_power_dvd)
    then have "unat x mod 2 ^ 64 mod 2 ^ n = unat x mod 2 ^ n" by (rule mod_mod_cancel)
    then show ?thesis by (simp add: unat_ucast_mod)
  qed
  have c0: "unat d0 div 2 ^ 44 < 2 ^ 53" using d(1) by (simp add: less_mult_imp_div_less)
  then have u0: "unat (ucast (ucast (drop_bit 44 d0) :: u64) :: u128) = unat d0 div 2 ^ 44"
    by (simp add: unat_ucast_up unat_ucast_mod)
  have D1: "unat D1 = unat d1 + unat d0 div 2 ^ 44"
    unfolding D1_def using u0 c0 d by (subst unat_add_ok) simp_all
  have D1b: "unat D1 < 2 ^ 98" using D1 c0 d by simp
  then have c1: "unat D1 div 2 ^ 44 < 2 ^ 54" by (simp add: less_mult_imp_div_less)
  then have u1: "unat (ucast (ucast (drop_bit 44 D1) :: u64) :: u128) = unat D1 div 2 ^ 44"
    by (simp add: unat_ucast_up unat_ucast_mod)
  have D2: "unat D2 = unat d2 + unat D1 div 2 ^ 44"
    unfolding D2_def using u1 c1 d by (subst unat_add_ok) simp_all
  have D2b: "unat D2 < 2 ^ 98" using D2 c1 d by simp
  then have c2: "unat D2 div 2 ^ 42 < 2 ^ 56" by (simp add: less_mult_imp_div_less)
  then have u2: "unat (ucast (drop_bit 42 D2) :: u64) = unat D2 div 2 ^ 42" by (simp add: unat_ucast_mod)
  have m2: "unat ((ucast (drop_bit 42 D2) :: u64) * 5) = unat D2 div 2 ^ 42 * 5"
    using u2 c2 by (subst unat_mult_ok) simp_all
  have h: "unat h = unat d0 mod 2 ^ 44 + unat D2 div 2 ^ 42 * 5"
    unfolding h_def using m2 c2 lo [of 44 d0] by (subst unat_add_ok) (simp_all add: mask44)
  have hb: "unat h div 2 ^ 44 < 2 ^ 16" using h c2 by (simp add: less_mult_imp_div_less)
  have h1: "unat ((ucast D1 AND CHACHA_MASK44) + drop_bit 44 h) = unat D1 mod 2 ^ 44 + unat h div 2 ^ 44"
    using hb lo [of 44 D1] by (subst unat_add_ok) (simp_all add: mask44)
  show "unat ((ucast D1 AND CHACHA_MASK44) + drop_bit 44 h) < 2 ^ 45"
    unfolding h1 using hb by simp
  show "limbs (unat d0) (unat d1) (unat d2) =
      limbs (unat (h AND CHACHA_MASK44)) (unat ((ucast D1 AND CHACHA_MASK44) + drop_bit 44 h))
        (unat (ucast D2 AND CHACHA_MASK42 :: u64)) + unat D2 div 2 ^ 42 * P130"
    using lo [of 42 D2] carry_exact [of "unat d0" "unat d1" "unat d2"]
    unfolding h1 unfolding mask44 mask42 by (simp only: unat_and_mask h D1 D2)
qed

lemma high_limb:
  "unat (drop_bit 24 t1 OR (if b then push_bit 40 1 else 0) :: u64) = unat t1 div 2 ^ 24 + (if b then 2 ^ 40 else 0)"
proof -
  have "unat t1 div 2 ^ 24 < 2 ^ 40" using unat_bound [of t1] by (simp add: less_mult_imp_div_less)
  then have "unat (drop_bit 24 t1 OR push_bit 40 1 :: u64) = unat t1 div 2 ^ 24 + 2 ^ 40"
    by (subst unat_or_push) simp_all
  then show ?thesis by simp
qed

lemma acc_add:
  fixes b :: bool
  assumes acc: "acc_ok ctx" and blk: "length blk \<ge> 16"
  defines "t0 \<equiv> ld64 blk" and "t1 \<equiv> ld64 (drop 8 blk)"
  defines "h0 \<equiv> p_h0 ctx + (t0 AND CHACHA_MASK44)"
    and "h1 \<equiv> p_h1 ctx + ((drop_bit 44 t0 OR push_bit 20 t1) AND CHACHA_MASK44)"
    and "h2 \<equiv> p_h2 ctx + (drop_bit 24 t1 OR (if b then push_bit 40 1 else 0))"
  shows "limbs (unat h0) (unat h1) (unat h2) = hval ctx + le_val (take 16 blk) + (if b then 2 ^ 128 else 0)"
    and "unat h0 < 2 ^ 45" "unat h1 < 2 ^ 46" "unat h2 < 2 ^ 43"
proof -
  have mid: "unat t0 div 2 ^ 44 + (unat t1 mod 2 ^ 24) * 2 ^ 20 < 2 ^ 44"
  proof -
    have "unat t0 div 2 ^ 44 < 2 ^ 20" using unat_bound [of t0] by (simp add: less_mult_imp_div_less)
    moreover have "unat t1 mod 2 ^ 24 \<le> 2 ^ 24 - 1" by (simp add: mod_less_divisor [THEN less_imp_le_nat] less_Suc_eq_le [symmetric])
    ultimately show ?thesis by simp
  qed
  have hi: "unat t1 div 2 ^ 24 < 2 ^ 40" using unat_bound [of t1] by (simp add: less_mult_imp_div_less)
  define l0 where "l0 = unat t0 mod 2 ^ 44"
  have lo: "l0 < 2 ^ 44" "unat (t0 AND CHACHA_MASK44) = l0" by (simp_all add: l0_def mask44)
  have h0: "unat h0 = unat (p_h0 ctx) + l0"
    unfolding h0_def using acc lo by (subst unat_add_ok) (simp_all add: acc_ok_def)
  have h1: "unat h1 = unat (p_h1 ctx) + (unat t0 div 2 ^ 44 + (unat t1 mod 2 ^ 24) * 2 ^ 20)"
    unfolding h1_def using acc mid by (subst unat_add_ok) (simp_all add: mid_limb acc_ok_def)
  have h2: "unat h2 = unat (p_h2 ctx) + (unat t1 div 2 ^ 24 + (if b then 2 ^ 40 else 0))"
    unfolding h2_def using acc hi by (subst unat_add_ok) (simp_all add: high_limb acc_ok_def del: unat_drop)
  show "unat h0 < 2 ^ 45" "unat h1 < 2 ^ 46" "unat h2 < 2 ^ 43"
    using acc lo mid hi h0 h1 h2 by (simp_all add: acc_ok_def)
  have "take 16 blk = take 8 blk @ take 8 (drop 8 blk)" by (simp add: take_add [of 8 8, simplified])
  then have "le_val (take 16 blk) = unat t0 + unat t1 * 2 ^ 64"
    using blk by (simp add: le_val_append t0_def t1_def unat_ld64)
  also have "\<dots> = limbs (unat t0 mod 2 ^ 44) (unat t0 div 2 ^ 44 + (unat t1 mod 2 ^ 24) * 2 ^ 20) (unat t1 div 2 ^ 24)"
    by (rule limbs_split [symmetric])
  finally show "limbs (unat h0) (unat h1) (unat h2) = hval ctx + le_val (take 16 blk) + (if b then 2 ^ 128 else 0)"
    unfolding h0 h1 h2 hval_def limbs_def by (simp add: l0_def)
qed

lemma prod_bounds:
  fixes h0 h1 h2 r0 r1 r2 :: nat
  assumes "h0 < 2 ^ 45" "h1 < 2 ^ 46" "h2 < 2 ^ 43" "r0 < 2 ^ 44" "r1 < 2 ^ 44" "r2 < 2 ^ 42"
  shows "h0 * r0 + h1 * (20 * r2) + h2 * (20 * r1) < 2 ^ 97" "h0 * r1 + h1 * r0 + h2 * (20 * r2) < 2 ^ 97"
    "h0 * r2 + h1 * r1 + h2 * r0 < 2 ^ 97"
proof -
  have "h0 * r0 < 2 ^ 45 * 2 ^ 44" "h0 * r1 < 2 ^ 45 * 2 ^ 44" "h0 * r2 < 2 ^ 45 * 2 ^ 42"
    "h1 * r0 < 2 ^ 46 * 2 ^ 44" "h1 * r1 < 2 ^ 46 * 2 ^ 44" "h1 * r2 < 2 ^ 46 * 2 ^ 42"
    "h2 * r0 < 2 ^ 43 * 2 ^ 44" "h2 * r1 < 2 ^ 43 * 2 ^ 44" "h2 * r2 < 2 ^ 43 * 2 ^ 42"
    by (rule prod_bound; rule assms)+
  then show "h0 * r0 + h1 * (20 * r2) + h2 * (20 * r1) < 2 ^ 97" "h0 * r1 + h1 * r0 + h2 * (20 * r2) < 2 ^ 97"
    "h0 * r2 + h1 * r1 + h2 * r0 < 2 ^ 97"
    by (simp_all only: mult.left_commute [of _ 20]) simp_all
qed

lemma poly1305_block_spec:
  fixes b :: bool
  assumes acc: "acc_ok ctx" and key: "key_ok ctx" and blk: "length blk \<ge> 16"
  defines "ctx' \<equiv> poly1305_block blk (if b then push_bit 40 1 else 0) ctx"
  shows "acc_ok ctx'" and "hval ctx' mod P130 = (hval ctx + le_val (take 16 blk) + (if b then 2 ^ 128 else 0)) * rval ctx mod P130"
proof -
  define t0 where "t0 = ld64 blk"
  define t1 where "t1 = ld64 (drop 8 blk)"
  define h0 where "h0 = p_h0 ctx + (t0 AND CHACHA_MASK44)"
  define h1 where "h1 = p_h1 ctx + ((drop_bit 44 t0 OR push_bit 20 t1) AND CHACHA_MASK44)"
  define h2 where "h2 = p_h2 ctx + (drop_bit 24 t1 OR (if b then push_bit 40 1 else 0))"
  define d0 where "d0 = (ucast h0 * ucast (p_r0 ctx) + ucast h1 * ucast (p_s2 ctx) + ucast h2 * ucast (p_s1 ctx) :: u128)"
  define d1 where "d1 = (ucast h0 * ucast (p_r1 ctx) + ucast h1 * ucast (p_r0 ctx) + ucast h2 * ucast (p_s2 ctx) :: u128)"
  define d2 where "d2 = (ucast h0 * ucast (p_r2 ctx) + ucast h1 * ucast (p_r1 ctx) + ucast h2 * ucast (p_r0 ctx) :: u128)"
  note add = acc_add(1) [OF acc blk, of b, folded t0_def t1_def, folded h0_def h1_def h2_def]
    acc_add(2,3) [OF acc blk, folded t0_def t1_def, folded h0_def h1_def]
    acc_add(4) [OF acc blk, of b, folded t0_def t1_def, folded h2_def]
  have k: "unat (p_r0 ctx) < 2 ^ 44" "unat (p_r1 ctx) < 2 ^ 44" "unat (p_r2 ctx) < 2 ^ 42"
    "unat (p_s1 ctx) = 20 * unat (p_r1 ctx)" "unat (p_s2 ctx) = 20 * unat (p_r2 ctx)"
    using key by (auto simp: key_ok_def)
  note b97 = prod_bounds [OF add(2,3,4) k(1,2,3)]
  have d: "unat d0 = unat h0 * unat (p_r0 ctx) + unat h1 * (20 * unat (p_r2 ctx)) + unat h2 * (20 * unat (p_r1 ctx))"
    "unat d1 = unat h0 * unat (p_r1 ctx) + unat h1 * unat (p_r0 ctx) + unat h2 * (20 * unat (p_r2 ctx))"
    "unat d2 = unat h0 * unat (p_r2 ctx) + unat h1 * unat (p_r1 ctx) + unat h2 * unat (p_r0 ctx)"
    unfolding d0_def d1_def d2_def using b97 by (subst prod3; simp add: k(4,5))+
  have dlt: "unat d0 < 2 ^ 97" "unat d1 < 2 ^ 97" "unat d2 < 2 ^ 97" using b97 unfolding d by simp_all
  define D1 where "D1 = d1 + ucast (ucast (drop_bit 44 d0) :: u64)"
  define D2 where "D2 = d2 + ucast (ucast (drop_bit 44 D1) :: u64)"
  define h where "h = (ucast d0 AND CHACHA_MASK44) + (ucast (drop_bit 42 D2) :: u64) * 5"
  note tl = poly1305_tail [OF dlt, folded D1_def, folded D2_def, folded h_def]
  have ctx': "p_h0 ctx' = h AND CHACHA_MASK44" "p_h1 ctx' = (ucast D1 AND CHACHA_MASK44) + drop_bit 44 h"
    "p_h2 ctx' = ucast D2 AND CHACHA_MASK42"
    unfolding ctx'_def poly1305_block_def Let_def t0_def [symmetric] t1_def [symmetric]
    unfolding h0_def [symmetric] h1_def [symmetric] h2_def [symmetric]
    unfolding d0_def [symmetric] d1_def [symmetric] d2_def [symmetric]
    unfolding D1_def [symmetric] unfolding D2_def [symmetric] unfolding h_def [symmetric] by simp_all
  show "acc_ok ctx'" using tl(2) unfolding acc_ok_def ctx' by (simp add: mask44 mask42)
  have "(hval ctx + le_val (take 16 blk) + (if b then 2 ^ 128 else 0)) * rval ctx = limbs (unat h0) (unat h1) (unat h2) * rval ctx"
    by (simp only: add(1))
  also have "\<dots> = hval ctx' + unat D2 div 2 ^ 42 * P130 +
      4 * (unat h1 * unat (p_r2 ctx) + unat h2 * unat (p_r1 ctx) + unat h2 * unat (p_r2 ctx) * 2 ^ 44) * P130"
    unfolding rval_def mult_exact hval_def ctx' using tl(1) unfolding d by simp
  finally show "hval ctx' mod P130 = (hval ctx + le_val (take 16 blk) + (if b then 2 ^ 128 else 0)) * rval ctx mod P130"
    by (simp only: mod_mult_self1)
qed

section \<open>The tag\<close>

lemma div_of_bound: "(x :: nat) < a * b \<Longrightarrow> x div a < b"
  by (metis less_mult_imp_div_less mult.commute)

lemma carry_words:
  assumes "unat h0 < 2 ^ 44" "unat h1 < 2 ^ 45" "unat h2 < 2 ^ 42" "poly1305_carry (h0, h1, h2) = (k0, k1, k2)"
  obtains c0 c1 c2 m1 where "unat h1 = c1 * 2 ^ 44 + m1" "m1 < 2 ^ 44" "unat h2 + c1 = c2 * 2 ^ 42 + unat k2" "unat k2 < 2 ^ 42"
    "unat h0 + c2 * 5 = c0 * 2 ^ 44 + unat k0" "unat k0 < 2 ^ 44" "unat k1 = m1 + c0" "c1 \<le> 1" "c2 \<le> 1" "c0 \<le> 1"
proof -
  define c1 where "c1 = unat h1 div 2 ^ 44"
  have c1: "c1 < 2" unfolding c1_def by (rule div_of_bound) (use assms(2) in simp)
  define e2 where "e2 = h2 + drop_bit 44 h1"
  have e2: "unat e2 = unat h2 + c1"
    unfolding e2_def using assms(3) c1 by (subst unat_add_ok) (simp_all add: c1_def)
  define c2 where "c2 = unat e2 div 2 ^ 42"
  have c2: "c2 < 2" unfolding c2_def by (rule div_of_bound) (use assms(3) c1 e2 in simp)
  have m2: "unat (drop_bit 42 e2 * 5) = c2 * 5"
    using c2 unfolding c2_def by (subst unat_mult_ok) simp_all
  define e0 where "e0 = h0 + drop_bit 42 e2 * 5"
  have e0: "unat e0 = unat h0 + c2 * 5"
    unfolding e0_def using assms(1) m2 c2 by (subst unat_add_ok) simp_all
  define c0 where "c0 = unat e0 div 2 ^ 44"
  have c0: "c0 < 2" unfolding c0_def by (rule div_of_bound) (use assms(1) c2 e0 in simp)
  define m1 where "m1 = unat h1 mod 2 ^ 44"
  have m1: "m1 < 2 ^ 44" by (simp add: m1_def)
  have k: "k0 = e0 AND CHACHA_MASK44" "k1 = (h1 AND CHACHA_MASK44) + drop_bit 44 e0" "k2 = e2 AND CHACHA_MASK42"
    using assms(4) unfolding poly1305_carry_def Let_def prod.case e2_def e0_def by auto
  have k1: "unat k1 = m1 + c0"
    unfolding k mask44 using m1 c0 by (subst unat_add_ok) (simp_all add: m1_def c0_def)
  show thesis
  proof (rule that [of c1 m1 c2 c0])
    show "unat h1 = c1 * 2 ^ 44 + m1" unfolding c1_def m1_def by (rule div_mult_mod_eq [symmetric])
    show "unat h2 + c1 = c2 * 2 ^ 42 + unat k2"
      unfolding k mask42 unat_and_mask e2 [symmetric] c2_def by (rule div_mult_mod_eq [symmetric])
    show "unat h0 + c2 * 5 = c0 * 2 ^ 44 + unat k0"
      unfolding k mask44 unat_and_mask e0 [symmetric] c0_def by (rule div_mult_mod_eq [symmetric])
    show "unat k2 < 2 ^ 42" "unat k0 < 2 ^ 44" by (simp_all add: k mask42 mask44)
  qed (use m1 k1 c0 c1 c2 in auto)
qed

lemma carry_twice:
  assumes b: "unat h0 < 2 ^ 44" "unat h1 < 2 ^ 45" "unat h2 < 2 ^ 42"
    and k: "poly1305_carry (poly1305_carry (h0, h1, h2)) = (k0, k1, k2)"
  shows "unat k0 < 2 ^ 44 \<and> unat k1 < 2 ^ 44 \<and> unat k2 < 2 ^ 42 \<and>
    limbs (unat k0) (unat k1) (unat k2) mod P130 = limbs (unat h0) (unat h1) (unat h2) mod P130"
proof -
  obtain j0 j1 j2 where j: "poly1305_carry (h0, h1, h2) = (j0, j1, j2)" by (metis prod_cases3)
  obtain c0 c1 c2 m1 where a: "unat h1 = c1 * 2 ^ 44 + m1" "m1 < 2 ^ 44" "unat h2 + c1 = c2 * 2 ^ 42 + unat j2" "unat j2 < 2 ^ 42"
    "unat h0 + c2 * 5 = c0 * 2 ^ 44 + unat j0" "unat j0 < 2 ^ 44" "unat j1 = m1 + c0" "c1 \<le> 1" "c2 \<le> 1" "c0 \<le> 1"
    by (rule carry_words [OF b j])
  have j1: "unat j1 \<le> 2 ^ 44" using a(2,7,10) by linarith
  obtain d0 d1 d2 n1 where e: "unat j1 = d1 * 2 ^ 44 + n1" "n1 < 2 ^ 44" "unat j2 + d1 = d2 * 2 ^ 42 + unat k2" "unat k2 < 2 ^ 42"
    "unat j0 + d2 * 5 = d0 * 2 ^ 44 + unat k0" "unat k0 < 2 ^ 44" "unat k1 = n1 + d0" "d1 \<le> 1" "d2 \<le> 1" "d0 \<le> 1"
    by (rule carry_words [OF a(6) _ a(4) k [unfolded j]]) (use j1 in simp)
  have "unat k1 < 2 ^ 44"
  proof (cases "d2 = 0")
    case True
    then have "d0 = 0" using e(5) a(6) by (cases d0) simp_all
    then show ?thesis using e(2,7) by simp
  next
    case False
    then have "d1 = 1" using e(3,8) a(4) by (cases d1) auto
    then have "n1 = 0" using e(1) j1 by simp
    then show ?thesis using e(7,10) by simp
  qed
  moreover have "limbs (unat h0) (unat h1) (unat h2) = limbs (unat j0) (unat j1) (unat j2) + c2 * P130"
    using a(1,3,5,7) unfolding limbs_def P130_def by simp
  moreover have "limbs (unat j0) (unat j1) (unat j2) = limbs (unat k0) (unat k1) (unat k2) + d2 * P130"
    using e(1,3,5,7) unfolding limbs_def P130_def by simp
  ultimately show ?thesis using e(4,6) by simp
qed

lemma reduce_spec:
  assumes b: "unat h0 < 2 ^ 44" "unat h1 < 2 ^ 44" "unat h2 < 2 ^ 42" and k: "poly1305_reduce (h0, h1, h2) = (k0, k1, k2)"
  shows "unat k0 < 2 ^ 44 \<and> unat k1 < 2 ^ 44 \<and> unat k2 < 2 ^ 42 \<and>
    limbs (unat k0) (unat k1) (unat k2) = limbs (unat h0) (unat h1) (unat h2) mod P130"
proof -
  define e0 where "e0 = h0 + 5"
  have e0: "unat e0 = unat h0 + 5" unfolding e0_def using b by (subst unat_add_ok) simp_all
  define c0 where "c0 = unat e0 div 2 ^ 44"
  have c0: "c0 < 2" unfolding c0_def by (rule div_of_bound) (use b e0 in simp)
  define e1 where "e1 = h1 + drop_bit 44 e0"
  have e1: "unat e1 = unat h1 + c0" unfolding e1_def using b c0 by (subst unat_add_ok) (simp_all add: c0_def)
  define c1 where "c1 = unat e1 div 2 ^ 44"
  have c1: "c1 < 2" unfolding c1_def by (rule div_of_bound) (use b e1 c0 in simp)
  define e2 where "e2 = h2 + drop_bit 44 e1"
  have e2: "unat e2 = unat h2 + c1" unfolding e2_def using b c1 by (subst unat_add_ok) (simp_all add: c1_def)
  define g2 where "g2 = e2 - push_bit 42 1"
  define g0 where "g0 = e0 AND CHACHA_MASK44"
  define g1 where "g1 = e1 AND CHACHA_MASK44"
  have g: "unat g0 < 2 ^ 44" "unat g1 < 2 ^ 44" "unat e0 = c0 * 2 ^ 44 + unat g0" "unat e1 = c1 * 2 ^ 44 + unat g1"
    by (simp_all only: g0_def g1_def mask44 unat_and_mask c0_def c1_def div_mult_mod_eq) simp_all
  define c where "c = drop_bit 63 g2 - 1"
  have kk: "k0 = (h0 AND NOT c) OR (g0 AND c)" "k1 = (h1 AND NOT c) OR (g1 AND c)" "k2 = (h2 AND NOT c) OR (g2 AND c)"
    using k unfolding poly1305_reduce_def Let_def prod.case c_def g2_def e2_def e1_def e0_def g0_def g1_def by auto
  have v: "limbs (unat h0) (unat h1) (unat h2) + 5 = limbs (unat g0) (unat g1) (unat e2)"
    using g(3,4) e0 e1 e2 unfolding limbs_def by simp
  have top: "push_bit 42 1 = (2 ^ 42 :: u64)" by (simp add: push_bit_eq_mult)
  show ?thesis
  proof (cases "unat e2 < 2 ^ 42")
    case True
    then have "unat g2 = unat e2 + 2 ^ 64 - 2 ^ 42" unfolding g2_def top by (simp add: unat_sub_if')
    then have "unat g2 div 2 ^ 63 = 1" using True by simp
    then have "drop_bit 63 g2 = 1" by (simp only: word_unat_eq_iff unat_drop) simp
    then have "c = 0" by (simp add: c_def)
    then have kh: "k0 = h0" "k1 = h1" "k2 = h2" by (simp_all add: kk)
    have "limbs (unat h0) (unat h1) (unat h2) < P130"
      using v True g(1,2) unfolding limbs_def P130_def by simp
    then show ?thesis using b by (simp add: kh)
  next
    case False
    then have g2: "unat g2 = unat e2 - 2 ^ 42" unfolding g2_def top by (simp add: unat_sub_if')
    then have "unat g2 div 2 ^ 63 = 0" using b(3) c1 e2 by simp
    then have "drop_bit 63 g2 = 0" by (simp only: word_unat_eq_iff unat_drop) simp
    then have "c = - 1" by (simp add: c_def)
    then have kg: "k0 = g0" "k1 = g1" "k2 = g2" by (simp_all add: kk)
    have v': "limbs (unat h0) (unat h1) (unat h2) = limbs (unat g0) (unat g1) (unat g2) + P130"
      using v False g2 unfolding limbs_def P130_def by simp
    have small: "unat g2 < 2" using g2 False b(3) c1 e2 by simp
    have "unat h0 + unat h1 * 2 ^ 44 + unat h2 * 2 ^ 88 < 2 ^ 130" using b by simp
    then have "limbs (unat g0) (unat g1) (unat g2) < P130" using v' unfolding limbs_def P130_def by simp
    then show ?thesis using v' g small by (simp add: kg)
  qed
qed

lemma tag_join:
  assumes "m0 < 2 ^ 44" "m1 < 2 ^ 44"
  shows "m0 + (m1 mod 2 ^ 20) * 2 ^ 44 + (m1 div 2 ^ 20 + (e mod 2 ^ 40) * 2 ^ 24) * 2 ^ 64 =
    ((m0 + m1 * 2 ^ 44) + e * 2 ^ 88) mod (2 ^ 128 :: nat)"
proof -
  define x where "x = m0 + m1 * 2 ^ 44"
  have x: "x < 2 ^ 88" using assms by (simp add: x_def)
  have "(2 :: nat) ^ 128 = 2 ^ 88 * 2 ^ 40" by simp
  then have "(x + e * 2 ^ 88) mod 2 ^ 128 = 2 ^ 88 * ((x + e * 2 ^ 88) div 2 ^ 88 mod 2 ^ 40) + (x + e * 2 ^ 88) mod 2 ^ 88"
    by (simp only: mod_mult2_eq)
  also have "(x + e * 2 ^ 88) div 2 ^ 88 = e" using x by simp
  also have "(x + e * 2 ^ 88) mod 2 ^ 88 = x" using x by simp
  finally have r: "(x + e * 2 ^ 88) mod 2 ^ 128 = 2 ^ 88 * (e mod 2 ^ 40) + x" .
  have lin: "m1 = a * 2 ^ 20 + b \<Longrightarrow> m0 + b * 2 ^ 44 + (a + y * 2 ^ 24) * 2 ^ 64 = 2 ^ 88 * y + (m0 + m1 * 2 ^ 44)" for a b y :: nat
    by simp
  show ?thesis unfolding x_def [symmetric] r unfolding x_def by (rule lin) (rule div_mult_mod_eq [symmetric])
qed

lemma pad_spec:
  assumes b: "unat h0 < 2 ^ 44" "unat h1 < 2 ^ 44" "unat h2 < 2 ^ 42" and k: "poly1305_pad q0 q1 (h0, h1, h2) = (k0, k1)"
  shows "unat k0 + unat k1 * 2 ^ 64 = (limbs (unat h0) (unat h1) (unat h2) + (unat q0 + unat q1 * 2 ^ 64)) mod 2 ^ 128"
proof -
  define a0 where "a0 = unat q0 mod 2 ^ 44"
  define a1 where "a1 = unat q0 div 2 ^ 44 + (unat q1 mod 2 ^ 24) * 2 ^ 20"
  define a2 where "a2 = unat q1 div 2 ^ 24"
  have a0: "a0 < 2 ^ 44" by (simp add: a0_def)
  have a1: "a1 < 2 ^ 44" using mid_limb [of q0 q1] unat_and_mask [of "drop_bit 44 q0 OR push_bit 20 q1" 44]
    by (simp add: a1_def mask44 del: unat_and_mask)
  have a2: "a2 < 2 ^ 40" unfolding a2_def by (rule div_of_bound) (use unat_bound [of q1] in simp)
  define e0 where "e0 = h0 + (q0 AND CHACHA_MASK44)"
  have e0: "unat e0 = unat h0 + a0"
    unfolding e0_def mask44 using b a0 by (subst unat_add_ok) (simp_all add: a0_def)
  define c0 where "c0 = unat e0 div 2 ^ 44"
  have c0: "c0 < 2" unfolding c0_def by (rule div_of_bound) (use b a0 e0 in simp)
  define x1 where "x1 = ((drop_bit 44 q0 OR push_bit 20 q1) AND CHACHA_MASK44) + drop_bit 44 e0"
  have x1: "unat x1 = a1 + c0"
    unfolding x1_def using a1 c0 by (subst unat_add_ok) (simp_all add: mid_limb a1_def c0_def)
  define e1 where "e1 = h1 + x1"
  have e1: "unat e1 = unat h1 + a1 + c0"
    unfolding e1_def using b a1 c0 x1 by (subst unat_add_ok) simp_all
  define c1 where "c1 = unat e1 div 2 ^ 44"
  have c1: "c1 < 3" unfolding c1_def by (rule div_of_bound) (use b a1 c0 e1 in simp)
  define x2 where "x2 = (drop_bit 24 q1 AND CHACHA_MASK42) + drop_bit 44 e1"
  have m2: "unat (drop_bit 24 q1 AND CHACHA_MASK42) = a2" using a2 by (simp add: mask42 a2_def)
  have x2: "unat x2 = a2 + c1"
    unfolding x2_def using a2 c1 m2 by (subst unat_add_ok) (simp_all add: c1_def)
  define e2 where "e2 = h2 + x2"
  have e2: "unat e2 = unat h2 + a2 + c1"
    unfolding e2_def using b a2 c1 x2 by (subst unat_add_ok) simp_all
  define m0 where "m0 = unat e0 mod 2 ^ 44"
  define m1 where "m1 = unat e1 mod 2 ^ 44"
  have m: "m0 < 2 ^ 44" "m1 < 2 ^ 44" "unat e0 = c0 * 2 ^ 44 + m0" "unat e1 = c1 * 2 ^ 44 + m1"
    by (simp_all only: m0_def m1_def c0_def c1_def div_mult_mod_eq) simp_all
  have kk: "k0 = (e0 AND CHACHA_MASK44) OR push_bit 44 (e1 AND CHACHA_MASK44)"
    "k1 = drop_bit 20 (e1 AND CHACHA_MASK44) OR push_bit 24 (e2 AND CHACHA_MASK42)"
    using k unfolding poly1305_pad_def Let_def prod.case e2_def x2_def e1_def x1_def e0_def by auto
  have w: "unat (e0 AND CHACHA_MASK44) = m0" "unat (e1 AND CHACHA_MASK44) = m1" by (simp_all only: mask44 unat_and_mask m0_def m1_def)
  have k0: "unat k0 = m0 + (m1 mod 2 ^ 20) * 2 ^ 44"
    unfolding kk using w m by (subst unat_or_push) simp_all
  have "m1 div 2 ^ 20 < 2 ^ 24" by (rule div_of_bound) (use m in simp)
  moreover have "unat (drop_bit 20 (e1 AND CHACHA_MASK44)) = m1 div 2 ^ 20" by (simp only: unat_drop w)
  moreover have "unat (e2 AND CHACHA_MASK42) mod 2 ^ 40 = unat e2 mod 2 ^ 40"
    by (simp only: mask42 unat_and_mask, rule mod_mod_cancel) simp
  ultimately have k1: "unat k1 = m1 div 2 ^ 20 + (unat e2 mod 2 ^ 40) * 2 ^ 24"
    unfolding kk by (subst unat_or_push) simp_all
  have "unat q0 + unat q1 * 2 ^ 64 = limbs a0 a1 a2" unfolding a0_def a1_def a2_def by (rule limbs_split [symmetric])
  then have tot: "limbs (unat h0) (unat h1) (unat h2) + (unat q0 + unat q1 * 2 ^ 64) = (m0 + m1 * 2 ^ 44) + unat e2 * 2 ^ 88"
    using e0 e1 e2 m(3,4) unfolding limbs_def by simp
  show ?thesis unfolding tot k0 k1 by (rule tag_join [OF m(1,2)])
qed

end
