(* ===== verification/Aead.thy ===== *)
theory Aead
  imports Poly1305
begin

text \<open>
  RFC 8439 as a specification: Poly1305 as a polynomial modulo \<open>2 ^ 130 - 5\<close>, the ChaCha20 key stream, and
  the authenticated encryption built from them; the code computes them for every input and every
  sequence of updates.
\<close>

section \<open>Poly1305 as a polynomial\<close>

definition poly_step :: "nat \<Rightarrow> nat \<Rightarrow> u8 list \<Rightarrow> nat" where
  "poly_step r a bs = (a + le_val bs + 2 ^ (8 * length bs)) * r mod P130"

function poly_acc :: "nat \<Rightarrow> nat \<Rightarrow> u8 list \<Rightarrow> nat \<times> u8 list" where
  "poly_acc r a m = (if length m \<ge> 16 then poly_acc r (poly_step r a (take 16 m)) (drop 16 m) else (a, m))"
  by pat_completeness auto
termination by (relation "measure (\<lambda>(_, _, m). length m)") auto

declare poly_acc.simps [simp del]

definition poly_total :: "nat \<Rightarrow> u8 list \<Rightarrow> nat" where
  "poly_total r m = (case poly_acc r 0 m of (a, q) \<Rightarrow> if q = [] then a else poly_step r a q)"

definition clamp :: "nat \<Rightarrow> nat" where
  "clamp x = x AND 0x0ffffffc0ffffffc0ffffffc0fffffff"

definition poly1305_spec :: "u8 list \<Rightarrow> u8 list \<Rightarrow> u8 list" where
  "poly1305_spec key msg =
     le_bytes 16 (poly_total (clamp (le_val (take 16 key))) msg + le_val (take 16 (drop 16 key)))"

lemma poly_acc_short: "length m < 16 \<Longrightarrow> poly_acc r a m = (a, m)"
  by (subst poly_acc.simps) simp

lemma poly_acc_one: "length b = 16 \<Longrightarrow> poly_acc r a (b @ m) = poly_acc r (poly_step r a b) m"
  by (subst poly_acc.simps) simp

lemma poly_acc_rest: "length (snd (poly_acc r a m)) < 16"
  by (induction r a m rule: poly_acc.induct) (subst poly_acc.simps, simp)

lemma poly_acc_append: "poly_acc r a p = (a', q) \<Longrightarrow> poly_acc r a (p @ x) = poly_acc r a' (q @ x)"
proof (induction r a p rule: poly_acc.induct)
  case (1 r a p)
  show ?case
  proof (cases "length p \<ge> 16")
    case True
    then have "poly_acc r (poly_step r a (take 16 p)) (drop 16 p) = (a', q)"
      using "1.prems" by (subst (asm) poly_acc.simps) simp
    then have "poly_acc r (poly_step r a (take 16 p)) (drop 16 p @ x) = poly_acc r a' (q @ x)" by (rule "1.IH" [OF True])
    then show ?thesis using True by (subst poly_acc.simps) simp
  next
    case False
    then show ?thesis using "1.prems" by (simp add: poly_acc_short)
  qed
qed

section \<open>Streaming\<close>

text \<open>Everything of a context but the accumulator and the pending bytes.\<close>

definition same_key :: "poly_ctx \<Rightarrow> poly_ctx \<Rightarrow> bool" where
  "same_key c d \<longleftrightarrow> p_r0 c = p_r0 d \<and> p_r1 c = p_r1 d \<and> p_r2 c = p_r2 d \<and> p_s1 c = p_s1 d \<and> p_s2 c = p_s2 d \<and>
     p_pad0 c = p_pad0 d \<and> p_pad1 c = p_pad1 d"

lemma same_key_rval: "same_key c d \<Longrightarrow> rval c = rval d" and same_key_ok: "same_key c d \<Longrightarrow> key_ok c = key_ok d"
  by (auto simp: same_key_def rval_def key_ok_def)

lemma poly1305_block_frame:
  "same_key (poly1305_block b w c) c" "p_buf (poly1305_block b w c) = p_buf c" "p_left (poly1305_block b w c) = p_left c"
  by (simp_all add: poly1305_block_def Let_def same_key_def)

lemma poly1305_block_step:
  assumes "acc_ok c" "key_ok c" "length b = 16"
  shows "acc_ok (poly1305_block b (push_bit 40 1) c) \<and>
    hval (poly1305_block b (push_bit 40 1) c) mod P130 = poly_step (rval c) (hval c mod P130) b"
proof -
  have l: "length b \<ge> 16" using assms(3) by simp
  have "(hval c + le_val b + 2 ^ 128) * rval c mod P130 = (hval c mod P130 + le_val b + 2 ^ 128) * rval c mod P130"
    by (simp only: mod_mult_left_eq [of "_ + _", symmetric] add.assoc mod_add_left_eq)
  then show ?thesis
    using poly1305_block_spec [OF assms(1,2) l, of True] assms(3) by (simp add: poly_step_def)
qed

lemma poly1305_blocks_spec:
  assumes "acc_ok c" "key_ok c" "poly1305_blocks p c = (q, d)"
  shows "acc_ok d \<and> same_key d c \<and> p_buf d = p_buf c \<and> p_left d = p_left c \<and>
    poly_acc (rval c) (hval c mod P130) p = (hval d mod P130, q)"
  using assms
proof (induction p c rule: poly1305_blocks.induct)
  case (1 p c)
  show ?case
  proof (cases "length p \<ge> 16")
    case True
    let ?c = "poly1305_block (take 16 p) (push_bit 40 1) c"
    have st: "acc_ok ?c" "hval ?c mod P130 = poly_step (rval c) (hval c mod P130) (take 16 p)"
      using poly1305_block_step [OF "1.prems"(1,2), of "take 16 p"] True by auto
    have k: "same_key ?c c" by (rule poly1305_block_frame)
    have "poly1305_blocks (drop 16 p) ?c = (q, d)" using "1.prems"(3) True by (subst (asm) poly1305_blocks.simps) simp
    then have IH: "acc_ok d \<and> same_key d ?c \<and> p_buf d = p_buf ?c \<and> p_left d = p_left ?c \<and>
        poly_acc (rval ?c) (hval ?c mod P130) (drop 16 p) = (hval d mod P130, q)"
      using "1.IH" [OF True st(1)] same_key_ok [OF k] "1.prems"(2) by blast
    then show ?thesis
      using st(2) same_key_rval [OF k] k poly1305_block_frame(2,3) [of "take 16 p" _ c] True
      by (subst poly_acc.simps) (auto simp: same_key_def)
  next
    case False
    then show ?thesis using "1.prems" by (subst (asm) poly1305_blocks.simps) (simp add: poly_acc_short same_key_def)
  qed
qed

text \<open>A context that has absorbed \<open>msg\<close> under the multiplier \<open>r\<close> and the pad \<open>q\<close>.\<close>

definition poly_rep :: "nat \<Rightarrow> nat \<Rightarrow> u8 list \<Rightarrow> poly_ctx \<Rightarrow> bool" where
  "poly_rep r q msg c \<longleftrightarrow>
     acc_ok c \<and> key_ok c \<and> rval c = r \<and> unat (p_pad0 c) + unat (p_pad1 c) * 2 ^ 64 = q \<and>
     length (p_buf c) = 16 \<and> p_left c < 16 \<and> poly_acc r 0 msg = (hval c mod P130, take (p_left c) (p_buf c))"

lemma take_update_snoc: "n < length xs \<Longrightarrow> take (Suc n) (xs[n := b]) = take n xs @ [b]"
  by (simp add: take_Suc_conv_app_nth)

lemma poly1305_store_spec:
  assumes "p_left c + length bs \<le> length (p_buf c)"
  shows "same_key (poly1305_store bs c) c \<and> hval (poly1305_store bs c) = hval c \<and> acc_ok (poly1305_store bs c) = acc_ok c \<and>
    length (p_buf (poly1305_store bs c)) = length (p_buf c) \<and> p_left (poly1305_store bs c) = p_left c + length bs \<and>
    take (p_left c + length bs) (p_buf (poly1305_store bs c)) = take (p_left c) (p_buf c) @ bs"
  using assms
proof (induction bs c rule: poly1305_store.induct)
  case (2 b bs c)
  then show ?case by (simp add: same_key_def hval_def acc_ok_def take_update_snoc)
qed (simp add: same_key_def)

lemma poly1305_top_up_store:
  assumes "p_left c \<le> 16"
  shows "poly1305_top_up bs c = (drop (16 - p_left c) bs, poly1305_store (take (16 - p_left c) bs) c)"
  using assms
proof (induction bs c rule: poly1305_top_up.induct)
  case (2 b bs c)
  show ?case
  proof (cases "p_left c < 16")
    case True
    then have "16 - p_left c = Suc (16 - Suc (p_left c))" by simp
    then show ?thesis using 2 True by simp
  qed (use 2 in simp)
qed simp

lemma poly_rep_blocks:
  assumes k: "acc_ok c" "key_ok c" "rval c = r" "unat (p_pad0 c) + unat (p_pad1 c) * 2 ^ 64 = q" "length (p_buf c) = 16"
    "p_left c = 0" "poly_acc r (hval c mod P130) p = poly_acc r 0 msg"
  shows "poly_rep r q msg (case poly1305_blocks p c of (p, c) \<Rightarrow> poly1305_store p c)"
proof -
  obtain p' d where d: "poly1305_blocks p c = (p', d)" by force
  note b = poly1305_blocks_spec [OF k(1,2) d]
  have l: "length p' < 16" using b poly_acc_rest [of r "hval c mod P130" p] k(3) by simp
  note st = poly1305_store_spec [of d p']
  show ?thesis using b k l st same_key_rval [of d c] same_key_ok [of d c] same_key_rval [of "poly1305_store p' d" d]
      same_key_ok [of "poly1305_store p' d" d]
    by (simp add: d poly_rep_def) (simp add: same_key_def)
qed

lemma poly_rep_update:
  assumes rep: "poly_rep r q msg c"
  shows "poly_rep r q (msg @ data) (poly1305_update data c)"
proof -
  have c: "acc_ok c" "key_ok c" "rval c = r" "unat (p_pad0 c) + unat (p_pad1 c) * 2 ^ 64 = q" "length (p_buf c) = 16"
    "p_left c < 16" "poly_acc r 0 msg = (hval c mod P130, take (p_left c) (p_buf c))"
    using rep by (auto simp: poly_rep_def)
  have app: "poly_acc r 0 (msg @ data) = poly_acc r (hval c mod P130) (take (p_left c) (p_buf c) @ data)"
    by (rule poly_acc_append [OF c(7)])
  show ?thesis
  proof (cases "p_left c = 0")
    case True
    then show ?thesis using poly_rep_blocks [of c r q data "msg @ data"] c app by (simp add: poly1305_update_def)
  next
    case False
    define n where "n = 16 - p_left c"
    define d where "d = poly1305_store (take n data) c"
    have top: "poly1305_top_up data c = (drop n data, d)"
      using c(6) poly1305_top_up_store [of c data] by (simp add: n_def d_def)
    have d: "same_key d c" "hval d = hval c" "acc_ok d" "length (p_buf d) = 16" "p_left d = p_left c + length (take n data)"
      "take (p_left d) (p_buf d) = take (p_left c) (p_buf c) @ take n data"
      using poly1305_store_spec [of c "take n data"] c by (auto simp: d_def n_def)
    have dk: "key_ok d" "rval d = r" using same_key_ok [OF d(1)] same_key_rval [OF d(1)] c by auto
    show ?thesis
    proof (cases "p_left d = 16")
      case True
      define e where "e = (poly1305_block (p_buf d) (push_bit 40 1) d)\<lparr>p_left := 0\<rparr>"
      have eb: "acc_ok e" "hval e mod P130 = poly_step r (hval c mod P130) (p_buf d)"
        using poly1305_block_step [OF d(3) dk(1) d(4)] d(2) dk(2) by (auto simp: e_def acc_ok_def hval_def)
      have ek: "same_key e d" "p_buf e = p_buf d" "p_left e = 0"
        using poly1305_block_frame [of "p_buf d" "push_bit 40 1" d] by (auto simp: e_def same_key_def)
      have "take (p_left c) (p_buf c) @ data = p_buf d @ drop n data" using d(4,6) True by (metis append.assoc append_take_drop_id take_all order_refl)
      then have "poly_acc r 0 (msg @ data) = poly_acc r (hval e mod P130) (drop n data)"
        using app eb(2) poly_acc_one [OF d(4)] by simp
      moreover have "poly1305_update data c = (case poly1305_blocks (drop n data) e of (p, c) \<Rightarrow> poly1305_store p c)"
        using False True top by (simp add: poly1305_update_def e_def)
      moreover have "key_ok e" "rval e = r" "unat (p_pad0 e) + unat (p_pad1 e) * 2 ^ 64 = q"
        using same_key_ok [OF ek(1)] same_key_rval [OF ek(1)] dk ek(1) d(1) c(4) by (auto simp: same_key_def)
      ultimately show ?thesis
        using poly_rep_blocks [of e r q "drop n data" "msg @ data"] eb(1) ek d(4) by simp
    next
      case nf: False
      then have short: "length data < n" using d(5) c(6) by (auto simp: n_def min_def split: if_splits)
      then have "poly1305_update data c = d"
        using False nf top by (simp add: poly1305_update_def poly1305_blocks.simps)
      moreover have "p_left d < 16" using d(5) short c(6) by (simp add: n_def)
      moreover have "poly_acc r 0 (msg @ data) = (hval d mod P130, take (p_left d) (p_buf d))"
        unfolding app using short d c(5,6) by (simp add: poly_acc_short n_def)
      ultimately show ?thesis using d dk c(4) by (simp add: poly_rep_def same_key_def)
    qed
  qed
qed

section \<open>Key and tag\<close>

lemma nat_and_concat:
  fixes x y a b :: nat
  assumes "x < 2 ^ 64" "a < 2 ^ 64"
  shows "(x + y * 2 ^ 64) AND (a + b * 2 ^ 64) = (x AND a) + (y AND b) * 2 ^ 64"
proof -
  have hi: "\<not> bit z n" if "z < 2 ^ 64" "64 \<le> n" for z n :: nat
  proof -
    have "z = take_bit 64 z" using that(1) by (simp add: take_bit_eq_mod)
    then show ?thesis using that(2) by (metis bit_take_bit_iff not_le)
  qed
  have or: "z + w * 2 ^ 64 = z OR push_bit 64 w" if "z < 2 ^ 64" for z w :: nat
  proof -
    have "z AND push_bit 64 w = 0" using hi [OF that] by (intro bit_eqI) (auto simp: bit_simps)
    then show ?thesis by (simp only: disjunctive_add_eq_or [symmetric] push_bit_eq_mult)
  qed
  have "x AND a < 2 ^ 64"
  proof -
    have "x AND a = take_bit 64 (x AND a)" using hi [OF assms(1)] by (intro bit_eqI) (auto simp: bit_simps simp flip: not_le)
    then show ?thesis by (metis take_bit_nat_less_exp)
  qed
  then show ?thesis unfolding or [OF assms(1)] or [OF assms(2)] or [OF \<open>x AND a < 2 ^ 64\<close>]
    using hi [OF assms(1)] hi [OF assms(2)] by (intro bit_eqI) (auto simp: bit_simps)
qed

lemma take_16_val: "length p \<ge> 16 \<Longrightarrow> le_val (take 16 p) = unat (ld64 p) + unat (ld64 (drop 8 p)) * 2 ^ 64"
proof -
  assume "length p \<ge> 16"
  moreover have "take 16 p = take 8 p @ take 8 (drop 8 p)" by (simp add: take_add [of 8 8, simplified])
  ultimately show ?thesis by (simp add: le_val_append unat_ld64)
qed

lemma poly_rep_init:
  assumes "length key = 32" "length (p_buf c) = 16"
  shows "poly_rep (clamp (le_val (take 16 key))) (le_val (take 16 (drop 16 key))) [] (poly1305_init key c)"
proof -
  let ?c = "poly1305_init key c"
  define rlo where "rlo = ld64 key AND 0x0ffffffc0fffffff"
  define rhi where "rhi = ld64 (drop 8 key) AND 0x0ffffffc0ffffffc"
  have r: "p_r0 ?c = rlo AND CHACHA_MASK44" "p_r1 ?c = (drop_bit 44 rlo OR push_bit 20 rhi) AND CHACHA_MASK44"
    "p_r2 ?c = drop_bit 24 rhi AND CHACHA_MASK42" "p_s1 ?c = p_r1 ?c * 20" "p_s2 ?c = p_r2 ?c * 20"
    by (simp_all add: poly1305_init_def Let_def rlo_def rhi_def)
  have b: "unat (p_r0 ?c) < 2 ^ 44" "unat (p_r1 ?c) < 2 ^ 44" "unat (p_r2 ?c) < 2 ^ 42"
    by (simp_all add: r(1-3) mask44 mask42)
  have s: "unat (p_s1 ?c) = 20 * unat (p_r1 ?c)" "unat (p_s2 ?c) = 20 * unat (p_r2 ?c)"
    unfolding r(4,5) using b by (subst unat_mult_ok; simp)+
  have hi: "unat rhi div 2 ^ 24 < 2 ^ 42"
    by (rule div_of_bound) (use unat_bound [of rhi] in simp)
  have "rval ?c = limbs (unat rlo mod 2 ^ 44) (unat rlo div 2 ^ 44 + (unat rhi mod 2 ^ 24) * 2 ^ 20) (unat rhi div 2 ^ 24)"
    unfolding rval_def r(1-3) mid_limb using hi by (simp add: mask44 mask42)
  also have "\<dots> = unat rlo + unat rhi * 2 ^ 64" by (rule limbs_split)
  also have "\<dots> = (unat (ld64 key) AND 0x0ffffffc0fffffff) + (unat (ld64 (drop 8 key)) AND 0x0ffffffc0ffffffc) * 2 ^ 64"
    by (simp add: rlo_def rhi_def unsigned_and_eq)
  also have "\<dots> = clamp (le_val (take 16 key))"
    using nat_and_concat [of "unat (ld64 key)" "0x0ffffffc0fffffff" "unat (ld64 (drop 8 key))" "0x0ffffffc0ffffffc"]
      unat_bound [of "ld64 key"] take_16_val [of key] assms(1) by (simp add: clamp_def)
  finally have rv: "rval ?c = clamp (le_val (take 16 key))" .
  have "unat (p_pad0 ?c) + unat (p_pad1 ?c) * 2 ^ 64 = le_val (take 16 (drop 16 key))"
    using take_16_val [of "drop 16 key"] assms(1) by (simp add: poly1305_init_def Let_def)
  moreover have "acc_ok ?c" "hval ?c = 0" "length (p_buf ?c) = 16" "p_left ?c = 0"
    using assms(2) by (simp_all add: poly1305_init_def Let_def acc_ok_def hval_def limbs_def)
  ultimately show ?thesis using rv b s by (simp add: poly_rep_def key_ok_def poly_acc_short)
qed

lemma zero_tail:
  assumes "n < length b"
  shows "fold (\<lambda>i b. b[i := 0]) [n..<length b] b = take n b @ replicate (length b - n) (0 :: u8)"
proof -
  have "fold (\<lambda>i b. b[i := 0]) [n..<n + m] b = take n b @ replicate m 0 @ drop (n + m) b" if "n + m \<le> length b" for m
    using that
  proof (induction m)
    case (Suc m)
    then have "drop (n + m) b = b ! (n + m) # drop (Suc (n + m)) b" by (simp add: Cons_nth_drop_Suc)
    then show ?case using Suc by (simp add: list_update_append replicate_append_same [symmetric])
  qed simp
  from this [of "length b - n"] show ?thesis using assms by simp
qed

lemma poly1305_last_spec:
  assumes rep: "poly_rep r q msg c"
  shows "acc_ok (poly1305_last c) \<and> same_key (poly1305_last c) c \<and> hval (poly1305_last c) mod P130 = poly_total r msg"
proof -
  have c: "acc_ok c" "key_ok c" "rval c = r" "length (p_buf c) = 16" "p_left c < 16"
    "poly_acc r 0 msg = (hval c mod P130, take (p_left c) (p_buf c))"
    using rep by (auto simp: poly_rep_def)
  show ?thesis
  proof (cases "p_left c = 0")
    case False
    define b where "b = fold (\<lambda>i b. b[i := 0]) [p_left c + 1..<16] ((p_buf c)[p_left c := 1])"
    have b: "b = take (p_left c) (p_buf c) @ [1] @ replicate (15 - p_left c) 0"
    proof (cases "p_left c + 1 < 16")
      case True
      then show ?thesis using zero_tail [of "p_left c + 1" "(p_buf c)[p_left c := 1]"] c(4,5)
        by (simp add: b_def take_update_snoc)
    next
      case False
      then have "p_left c = 15" using c(5) by simp
      then show ?thesis using c(4) take_update_snoc [of 15 "p_buf c" 1] by (simp add: b_def)
    qed
    let ?c = "c\<lparr>p_buf := b\<rparr>"
    have l: "length b \<ge> 16" using b c(4,5) by simp
    have ok: "acc_ok ?c" "key_ok ?c" "hval ?c = hval c" "rval ?c = r" using c by (auto simp: acc_ok_def key_ok_def hval_def rval_def)
    have "le_val (take 16 b) = le_val (take (p_left c) (p_buf c)) + 2 ^ (8 * p_left c)"
      using b c(4,5) by (simp add: le_val_append)
    then have "hval (poly1305_block b 0 ?c) mod P130 = (hval c + (le_val (take (p_left c) (p_buf c)) + 2 ^ (8 * p_left c))) * r mod P130"
      using poly1305_block_spec(2) [OF ok(1,2) l, of False] ok by simp
    also have "\<dots> = poly_step r (hval c mod P130) (take (p_left c) (p_buf c))"
      using c(4,5) unfolding poly_step_def
      by (simp only: mod_mult_left_eq [of "_ + _", symmetric] add.assoc mod_add_left_eq length_take min_absorb2 less_imp_le_nat)
    finally have h: "hval (poly1305_block b 0 ?c) mod P130 = poly_total r msg"
      using False c(4,5,6) by (cases "p_buf c") (simp_all add: poly_total_def)
    have "poly1305_last c = poly1305_block b 0 ?c" using False by (simp add: poly1305_last_def b_def Let_def)
    then show ?thesis
      using h poly1305_block_spec(1) [OF ok(1,2) l, of False] poly1305_block_frame(1) [of b 0 ?c] by (auto simp: same_key_def)
  qed (use c in \<open>simp add: poly1305_last_def poly_total_def same_key_def\<close>)
qed

lemma poly1305_final_spec:
  assumes rep: "poly_rep r q msg c"
  shows "poly1305_final c = le_bytes 16 (poly_total r msg + q)"
proof -
  let ?c = "poly1305_last c"
  have c: "acc_ok ?c" "hval ?c mod P130 = poly_total r msg"
    "unat (p_pad0 ?c) + unat (p_pad1 ?c) * 2 ^ 64 = q"
    using poly1305_last_spec [OF rep] rep by (auto simp: same_key_def poly_rep_def)
  obtain k0 k1 k2 where k: "poly1305_carry (poly1305_carry (p_h0 ?c, p_h1 ?c, p_h2 ?c)) = (k0, k1, k2)" by (metis prod_cases3)
  obtain g0 g1 g2 where g: "poly1305_reduce (k0, k1, k2) = (g0, g1, g2)" by (metis prod_cases3)
  obtain t0 t1 where t: "poly1305_pad (p_pad0 ?c) (p_pad1 ?c) (g0, g1, g2) = (t0, t1)" by (metis prod.exhaust)
  have kk: "unat k0 < 2 ^ 44" "unat k1 < 2 ^ 44" "unat k2 < 2 ^ 42" "limbs (unat k0) (unat k1) (unat k2) mod P130 = hval ?c mod P130"
    using carry_twice [OF _ _ _ k] c(1) by (auto simp: acc_ok_def hval_def)
  have gg: "unat g0 < 2 ^ 44" "unat g1 < 2 ^ 44" "unat g2 < 2 ^ 42" "limbs (unat g0) (unat g1) (unat g2) = poly_total r msg"
    using reduce_spec [OF kk(1-3) g] kk(4) c(2) by auto
  have "unat t0 + unat t1 * 2 ^ 64 = (poly_total r msg + q) mod 2 ^ 128"
    using pad_spec [OF gg(1-3) t] gg(4) c(3) by simp
  moreover have "le_bytes 16 (unat t0 + unat t1 * 2 ^ 64) = st64 t0 @ st64 t1"
  proof -
    have "(unat t0 + unat t1 * 2 ^ 64) mod 256 ^ 8 = unat t0" "(unat t0 + unat t1 * 2 ^ 64) div 256 ^ 8 = unat t1"
      using unat_bound [of t0] by simp_all
    then show ?thesis
      using le_bytes_add [of 8 8 "unat t0 + unat t1 * 2 ^ 64"] le_bytes_mod [of 8 8 "unat t0 + unat t1 * 2 ^ 64"]
      by (simp add: st64_le_bytes)
  qed
  moreover have "le_bytes 16 ((poly_total r msg + q) mod 2 ^ 128) = le_bytes 16 (poly_total r msg + q)"
    using le_bytes_mod [of 16 16 "poly_total r msg + q"] by simp
  ultimately show ?thesis using k g t by (simp add: poly1305_final_def Let_def)
qed


lemma poly1305_correct:
  assumes "length key = 32" "length (p_buf c) = 16"
  shows "poly1305 c key msg = poly1305_spec key msg"
  using poly1305_final_spec [OF poly_rep_update [OF poly_rep_init [OF assms], of msg]]
  by (simp add: poly1305_def poly1305_spec_def)

section \<open>RFC 8439\<close>

definition pad16 :: "u8 list \<Rightarrow> u8 list" where
  "pad16 xs = replicate ((16 - length xs mod 16) mod 16) 0"

definition mac_data :: "u8 list \<Rightarrow> u8 list \<Rightarrow> u8 list" where
  "mac_data aad ct = aad @ pad16 aad @ ct @ pad16 ct @ le_bytes 8 (length aad) @ le_bytes 8 (length ct)"

lemma pad_len:
  assumes "n < 2 ^ 32"
  shows "unat ((16 - (of_nat n AND 15)) AND (15 :: u32)) = (16 - n mod 16) mod 16"
proof -
  have m: "(15 :: u32) = mask 4" by (simp add: mask_eq_exp_minus_1)
  have "unat (of_nat n AND mask 4 :: u32) = n mod 16" using assms by (simp add: unat_of_nat)
  moreover have "unat (16 - w) = 16 - unat w" if "unat w \<le> 16" for w :: u32
    using that by (simp add: unat_sub word_le_nat_alt)
  ultimately have "unat (16 - (of_nat n AND mask 4) :: u32) = 16 - n mod 16" by (simp add: less_imp_le_nat)
  then show ?thesis unfolding m by simp
qed

lemma poly1305_mac_correct:
  assumes "length key = 32" "length (p_buf c) = 16" "length aad < 2 ^ 32" "length ct < 2 ^ 32"
  shows "poly1305_mac c key aad ct = poly1305_spec key (mac_data aad ct)"
proof -
  have z: "take (unat ((16 - (of_nat (length xs) AND 15)) AND (15 :: u32))) (replicate 16 0) = pad16 xs"
    if "length xs < 2 ^ 32" for xs :: "u8 list"
    using pad_len [OF that] by (simp add: pad16_def min_def)
  have l: "st64 (ucast (of_nat n :: u32)) = le_bytes 8 n" if "n < 2 ^ 32" for n
    using that by (simp add: st64_le_bytes unat_ucast_up unat_of_nat)
  note up = poly_rep_update
  show ?thesis
    using poly1305_final_spec [OF up [OF up [OF up [OF up [OF up [OF poly_rep_init [OF assms(1,2)], of aad], of "pad16 aad"], of ct],
      of "pad16 ct"], of "le_bytes 8 (length aad) @ le_bytes 8 (length ct)"]]
    unfolding poly1305_mac_def Let_def z [OF assms(3)] z [OF assms(4)] l [OF assms(3)] l [OF assms(4)]
    by (simp add: poly1305_spec_def mac_data_def)
qed

lemma ct_equal_iff:
  assumes "length a = n" "length b = n"
  shows "ct_equal a b n \<longleftrightarrow> a = b"
proof -
  have xor: "x = y" if "x XOR y = 0" for x y :: u8
  proof -
    have "x XOR (x XOR y) = y" by (simp flip: xor.assoc)
    then show ?thesis by (simp add: that)
  qed
  have "fold (\<lambda>i d. d OR (a ! i XOR b ! i)) [0..<m] 0 = 0 \<longleftrightarrow> (\<forall>i<m. a ! i = b ! i)" for m
    using xor by (induction m) (auto simp: less_Suc_eq or_eq_0_iff)
  then show ?thesis using assms by (auto simp: ct_equal_def list_eq_iff_nth_eq)
qed

text \<open>Byte \<open>i\<close> of the output is byte \<open>i\<close> of the input masked with byte \<open>i mod 64\<close> of key-stream block \<open>i div 64\<close>.\<close>

lemma chacha20_loop_spec:
  "length (chacha20_loop block c inp) = length inp \<and>
   (\<forall>i<length inp. chacha20_loop block c inp ! i = inp ! i XOR block (c + of_nat (i div 64)) ! (i mod 64))"
proof (induction block c inp rule: chacha20_loop.induct)
  case (1 block c inp)
  show ?case
  proof (cases "inp = []")
    case False
    let ?r = "chacha20_loop block (c + 1) (drop 64 inp)"
    let ?h = "map (\<lambda>i. inp ! i XOR block c ! i) [0..<min 64 (length inp)]"
    have u: "chacha20_loop block c inp = ?h @ ?r" using False by (subst chacha20_loop.simps) (simp add: Let_def)
    have IH: "length ?r = length inp - 64" "\<And>i. i < length inp - 64 \<Longrightarrow>
        ?r ! i = drop 64 inp ! i XOR block (c + 1 + of_nat (i div 64)) ! (i mod 64)"
      using "1.IH" [OF False refl] by auto
    have "chacha20_loop block c inp ! i = inp ! i XOR block (c + of_nat (i div 64)) ! (i mod 64)" if i: "i < length inp" for i
    proof (cases "i < 64")
      case True
      then show ?thesis using i unfolding u by (simp add: nth_append)
    next
      case ge: False
      define j where "j = i - 64"
      have j: "i = 64 + j" "j < length inp - 64" using ge i by (auto simp: j_def)
      have "(64 + j) div 64 = Suc (j div 64)" "(64 + j) mod 64 = j mod 64" by simp_all
      then show ?thesis using j IH(2) [OF j(2)] unfolding u by (simp add: nth_append add.assoc)
    qed
    then show ?thesis using IH(1) unfolding u by simp
  qed (simp add: chacha20_loop.simps)
qed

lemma chacha20_xor_twice: "chacha20_xor key nonce c (chacha20_xor key nonce c inp) = inp"
  unfolding chacha20_xor_def using chacha20_loop_spec
  by (intro nth_equalityI) (auto simp: xor.assoc)

lemma length_chacha20_block: "length (chacha20_block key c nonce) = 64"
  by (simp add: chacha20_block_def Let_def length_concat comp_def st32_def sum_list_triv)

definition otk :: "u8 list \<Rightarrow> u8 list \<Rightarrow> u8 list" where
  "otk key nonce = take 32 (chacha20_block (chacha20_key key) 0 nonce)"

lemma length_poly1305_spec: "length (poly1305_spec key msg) = 16"
  by (simp add: poly1305_spec_def)

lemma decrypt_cases:
  assumes "length (p_buf c) = 16" "length aad < 2 ^ 32" "length ct < 2 ^ 32" "length tag = 16"
  shows "chacha20_poly1305_decrypt c key nonce aad ct tag =
    (if tag = poly1305_spec (otk key nonce) (mac_data aad ct) then Some (chacha20_xor key nonce 1 ct) else None)"
  using poly1305_mac_correct [of "otk key nonce" c aad ct] assms
    ct_equal_iff [of "poly1305_spec (otk key nonce) (mac_data aad ct)" 16 tag]
  by (auto simp: chacha20_poly1305_decrypt_def chacha20_poly1305_setup_def otk_def length_chacha20_block
      length_poly1305_spec Let_def)

lemma poly_rep_fold: "poly_rep r q msg c \<Longrightarrow> poly_rep r q (msg @ concat ds) (fold poly1305_update ds c)"
proof (induction ds arbitrary: msg c)
  case (Cons d ds)
  then show ?case using Cons.IH [OF poly_rep_update [OF Cons.prems, of d]] by simp
qed simp

text \<open>
  C16. The 44-bit-limb Poly1305 is the polynomial of RFC 8439: for every 32-byte key, every message and
  every way of cutting it into updates, the tag is the message polynomial evaluated at the clamped key
  modulo \<open>2 ^ 130 - 5\<close>, plus the second half of the key modulo \<open>2 ^ 128\<close>, in little-endian bytes; no
  64-bit or 128-bit intermediate wraps, and the uninitialised buffer does not matter.
\<close>
theorem poly1305_stream:
  assumes "length key = 32" "length (p_buf c) = 16"
  shows "poly1305_final (fold poly1305_update ds (poly1305_init key c)) = poly1305_spec key (concat ds)"
  using poly1305_final_spec [OF poly_rep_fold [OF poly_rep_init [OF assms], of ds]] by (simp add: poly1305_spec_def)

definition junk :: poly_ctx where
  "junk = \<lparr>p_r0 = 1, p_r1 = 2, p_r2 = 3, p_s1 = 4, p_s2 = 5, p_h0 = 6, p_h1 = 7, p_h2 = 8, p_pad0 = 9, p_pad1 = 10,
     p_buf = replicate 16 3, p_left = 11\<rparr>"

theorem poly1305_stream_witness:
  "length (replicate 32 (7 :: u8)) = 32 \<and> length (p_buf junk) = 16 \<and>
   poly1305_final (fold poly1305_update [[1, 2, 3], replicate 20 9] (poly1305_init (replicate 32 7) junk)) =
   poly1305_spec (replicate 32 7) ([1, 2, 3] @ replicate 20 9)"
proof -
  have l: "length (replicate 32 (7 :: u8)) = 32" "length (p_buf junk) = 16" by (simp_all add: junk_def)
  show ?thesis using poly1305_stream [OF l, of "[[1, 2, 3], replicate 20 9]"] l
    by (simp only: concat.simps append_Nil2 simp_thms)
qed

text \<open>
  C17. Authenticated encryption round-trips and rejects forgeries: the ciphertext is the plaintext
  masked with the ChaCha20 key stream from block 1, the tag is the Poly1305 tag of the padded
  associated data, ciphertext and lengths under the one-time key of block 0, decryption of the pair
  returns the plaintext, and decryption with any other 16-byte tag fails.
\<close>
theorem aead_roundtrip:
  assumes "length (p_buf c) = 16" "length (p_buf d) = 16" "length aad < 2 ^ 32" "length msg < 2 ^ 32" "length tag = 16"
  shows "let (ct, t) = chacha20_poly1305_encrypt c key nonce aad msg in
    length ct = length msg \<and>
    (\<forall>i<length msg. ct ! i = msg ! i XOR chacha20_block (chacha20_key key) (1 + of_nat (i div 64)) nonce ! (i mod 64)) \<and>
    t = poly1305_spec (otk key nonce) (mac_data aad ct) \<and>
    chacha20_poly1305_decrypt d key nonce aad ct t = Some msg \<and>
    (tag \<noteq> t \<longrightarrow> chacha20_poly1305_decrypt d key nonce aad ct tag = None)"
proof -
  let ?ct = "chacha20_xor key nonce 1 msg"
  let ?t = "poly1305_spec (otk key nonce) (mac_data aad ?ct)"
  note ks = chacha20_loop_spec [of "\<lambda>c. chacha20_block (chacha20_key key) c nonce" 1 msg, folded chacha20_xor_def]
  have enc: "chacha20_poly1305_encrypt c key nonce aad msg = (?ct, ?t)"
    using poly1305_mac_correct [of "otk key nonce" c aad ?ct] assms ks
    by (simp add: chacha20_poly1305_encrypt_def chacha20_poly1305_setup_def otk_def length_chacha20_block Let_def)
  have "chacha20_poly1305_decrypt d key nonce aad ?ct x = (if x = ?t then Some msg else None)" if "length x = 16" for x
    using decrypt_cases [of d aad ?ct x key nonce] assms ks that by (simp add: chacha20_xor_twice)
  then show ?thesis using ks assms(5) length_poly1305_spec by (simp add: enc)
qed

theorem aead_roundtrip_witness:
  "let (ct, t) = chacha20_poly1305_encrypt junk (replicate 32 1) (replicate 12 2) [5] [104, 105] in
    chacha20_poly1305_decrypt junk (replicate 32 1) (replicate 12 2) [5] ct t = Some [104, 105]"
proof -
  have l: "length (p_buf junk) = 16" "length [5 :: u8] < 2 ^ 32" "length [104 :: u8, 105] < 2 ^ 32" "length (replicate 16 (0 :: u8)) = 16"
    by (simp_all add: junk_def)
  show ?thesis using aead_roundtrip [OF l(1,1,2,3,4), of "replicate 32 1" "replicate 12 2"] unfolding Let_def split_beta by blast
qed

end
