(* ===== verification/Sched.thy ===== *)
theory Sched
  imports Task "HOL-Library.Signed_Division"
begin

text \<open>
  The scheduler of \<open>kernel/sched/thread.c\<close>. Tasks are named by their slot; the arrays indexed by CPU are
  functions, and \<open>current\<close> of CPU \<open>c\<close> is \<open>cur s c\<close>, absent until the CPU is started. \<open>cpu_id()\<close> is the
  argument \<open>c\<close> of the operations. A section under \<open>sched_lock\<close> or \<open>all_lock\<close> is one definition;
  operations with several sections are split at the points where the lock is released. The 64-bit
  signed averages of the run queues are computed exactly and then stored as the code stores them.
\<close>

section \<open>State\<close>

definition NR_CPU :: nat where
  "NR_CPU = 4"

definition W0 :: nat where
  "W0 = 1024"

definition WVSTEP :: nat where
  "WVSTEP = W0 * 2 ^ 10"

definition SCHED_LATENCY :: nat where
  "SCHED_LATENCY = 8"

record sched =
  task_table :: "nat \<Rightarrow> task"
  ready_bitmap :: u64
  ready_cpu :: "nat \<Rightarrow> u64"
  slot_inuse :: u64
  sleep_bitmap :: u64
  wake_tick :: "nat \<Rightarrow> u32"
  wake_pid :: "nat \<Rightarrow> u32"
  min_vruntime :: u64
  run_bitmap :: u64
  rq_weight :: "nat \<Rightarrow> u64"
  rq_avg :: "nat \<Rightarrow> u64"
  pid_alloc :: u32
  died_pending :: u32
  thread_all_list :: "nat list"
  idle_threads :: "nat \<Rightarrow> nat option"
  cpu_work_switches :: "nat \<Rightarrow> u32"
  cpu_away :: "nat \<Rightarrow> nat option"
  cur :: "nat \<Rightarrow> nat option"

definition upd_task :: "nat \<Rightarrow> (task \<Rightarrow> task) \<Rightarrow> sched \<Rightarrow> sched" where
  "upd_task t f s = s\<lparr>task_table := (task_table s)(t := f (task_table s t))\<rparr>"

definition task_bit :: "nat \<Rightarrow> u64" where
  "task_bit t = push_bit t 1"

text \<open>The loop over the set bits of a bitmap, lowest first: \<open>m\<close> loses its lowest bit in each round.\<close>

lemma clear_lowest_less: "(m :: u64) \<noteq> 0 \<Longrightarrow> unat (m AND (m - 1)) < unat m"
proof -
  assume m: "m \<noteq> 0"
  have "m AND (m - 1) \<le> m - 1" by (rule word_and_le1)
  also have "m - 1 < m"
  proof -
    have "0 < unat m" using m by (simp add: unat_gt_0)
    then show ?thesis by (simp add: word_less_nat_alt unat_sub_if')
  qed
  finally show ?thesis by (simp add: word_less_nat_alt)
qed

function bits_loop :: "(nat \<Rightarrow> 'a \<Rightarrow> 'a) \<Rightarrow> u64 \<Rightarrow> 'a \<Rightarrow> 'a" where
  "bits_loop f m a = (if m \<noteq> 0 then bits_loop f (m AND (m - 1)) (f (ctz m) a) else a)"
  by pat_completeness auto
termination by (relation "measure (\<lambda>(_, m, _). unat m)") (auto simp: clear_lowest_less)

declare bits_loop.simps [simp del]

section \<open>Weights\<close>

definition prio_to_weight :: "u8 \<Rightarrow> u32" where
  "prio_to_weight prio =
     (let p = (if prio \<noteq> 0 then ucast prio else 1);
          w = of_nat W0 div (1 + p) :: u32
      in if w < 16 then 16 else w)"

definition weight_slice :: "u32 \<Rightarrow> u32" where
  "weight_slice w =
     (let s = of_nat (SCHED_LATENCY * WVSTEP) div ucast w :: u64 in if s \<noteq> 0 then ucast s else 1)"

definition aff_of :: "task \<Rightarrow> u32" where
  "aff_of t = (if cpu_aff t \<noteq> 0 then ucast (cpu_aff t) else push_bit NR_CPU 1 - 1)"

definition is_idle_task :: "sched \<Rightarrow> nat \<Rightarrow> bool" where
  "is_idle_task s t \<longleftrightarrow> list_ex (\<lambda>k. idle_threads s k = Some t) [0..<NR_CPU]"

definition store_avg :: "int \<Rightarrow> u64" where
  "store_avg v = (if v > 0 then word_of_int v else 0)"

definition rq_add :: "nat \<Rightarrow> nat \<Rightarrow> sched \<Rightarrow> sched" where
  "rq_add t c s =
     (let w = int (unat (weight (task_table s t)));
          total = sint (rq_weight s c) + w;
          v = sint (rq_avg s c) + (w * (sint (vruntime (task_table s t)) - sint (rq_avg s c))) sdiv total
      in s\<lparr>rq_avg := (rq_avg s)(c := store_avg v), rq_weight := (rq_weight s)(c := word_of_int total)\<rparr>)"

definition rq_del :: "nat \<Rightarrow> nat \<Rightarrow> sched \<Rightarrow> sched" where
  "rq_del t c s =
     (let w = int (unat (weight (task_table s t)));
          total = sint (rq_weight s c) - w;
          avg = (if total > 0
                 then store_avg (sint (rq_avg s c) - (w * (sint (vruntime (task_table s t)) - sint (rq_avg s c))) sdiv total)
                 else min_vruntime s)
      in s\<lparr>rq_avg := (rq_avg s)(c := avg), rq_weight := (rq_weight s)(c := word_of_int (if total > 0 then total else 0))\<rparr>)"

definition runs :: "task_status \<Rightarrow> bool" where
  "runs st \<longleftrightarrow> st = TASK_RUNNING \<or> st = TASK_READY"

definition set_status :: "nat \<Rightarrow> nat \<Rightarrow> task_status \<Rightarrow> sched \<Rightarrow> sched" where
  "set_status c t st s =
     (let was = run_bitmap s AND task_bit t \<noteq> 0;
          now = \<not> is_idle_task s t \<and> runs st;
          s = upd_task t (\<lambda>x. x\<lparr>status := st\<rparr>) s
      in if now \<and> \<not> was then
           upd_task t (\<lambda>x. x\<lparr>rq_cpu := of_nat c\<rparr>) (rq_add t c (s\<lparr>run_bitmap := run_bitmap s OR task_bit t\<rparr>))
         else if \<not> now \<and> was then
           rq_del t (unat (rq_cpu (task_table s t))) (s\<lparr>run_bitmap := run_bitmap s AND NOT (task_bit t)\<rparr>)
         else s)"

definition rq_avg_now :: "sched \<Rightarrow> nat \<Rightarrow> u64" where
  "rq_avg_now s c = (if rq_weight s c \<noteq> 0 then rq_avg s c else min_vruntime s)"

definition place_entity :: "nat \<Rightarrow> nat \<Rightarrow> sched \<Rightarrow> sched" where
  "place_entity c t s =
     (let avg = rq_avg_now s c;
          lag = ucast (slice (task_table s t) div 2) :: u64;
          lag = (if lag < 1 then 1 else lag);
          s = (if vruntime (task_table s t) + lag < avg then upd_task t (\<lambda>x. x\<lparr>vruntime := avg - lag\<rparr>) s else s);
          s = (if avg > 0 \<and> vruntime (task_table s t) \<ge> avg then upd_task t (\<lambda>x. x\<lparr>vruntime := avg - 1\<rparr>) s else s)
      in upd_task t (\<lambda>x. x\<lparr>deadline := vruntime x + ucast (slice x)\<rparr>) s)"

definition renew_deadline :: "nat \<Rightarrow> sched \<Rightarrow> sched" where
  "renew_deadline t s =
     (if sint (vruntime (task_table s t) - deadline (task_table s t)) < 0 then s
      else upd_task t (\<lambda>x. x\<lparr>deadline := vruntime x + ucast (slice x)\<rparr>) s)"

section \<open>Ready sets\<close>

definition ready_enqueue :: "nat \<Rightarrow> nat \<Rightarrow> sched \<Rightarrow> sched" where
  "ready_enqueue c t s =
     (if ready_bitmap s AND task_bit t \<noteq> 0 then s
      else
        let s = (if status (task_table s t) \<noteq> TASK_RUNNING then
                   place_entity c t
                     (if on_cpu (task_table s t) \<ge> of_nat NR_CPU then upd_task t (\<lambda>x. x\<lparr>on_cpu := of_nat NR_CPU\<rparr>) s else s)
                 else s);
            aff = aff_of (task_table s t);
            s = s\<lparr>ready_bitmap := ready_bitmap s OR task_bit t,
                  ready_cpu := (\<lambda>k. if k < NR_CPU \<and> aff AND push_bit k 1 \<noteq> 0 then ready_cpu s k OR task_bit t else ready_cpu s k)\<rparr>
        in set_status c t TASK_READY s)"

definition ready_remove :: "nat \<Rightarrow> sched \<Rightarrow> sched" where
  "ready_remove t s =
     s\<lparr>ready_bitmap := ready_bitmap s AND NOT (task_bit t),
       ready_cpu := (\<lambda>k. if k < NR_CPU then ready_cpu s k AND NOT (task_bit t) else ready_cpu s k)\<rparr>"

definition thread_ready :: "nat \<Rightarrow> nat \<Rightarrow> sched \<Rightarrow> sched" where
  "thread_ready c t s =
     (if status_bit (status (task_table s t)) AND TASK_WAKE_MASK \<noteq> 0 then ready_enqueue c t s else s)"

section \<open>Blocking and timers\<close>

definition thread_block_prepare :: "nat \<Rightarrow> nat \<Rightarrow> task_status \<Rightarrow> sched \<Rightarrow> sched" where
  "thread_block_prepare c t st s = set_status c t st (ready_remove t s)"

definition arm_timer :: "nat \<Rightarrow> u32 \<Rightarrow> sched \<Rightarrow> sched" where
  "arm_timer t when s =
     s\<lparr>wake_tick := (wake_tick s)(t := when), wake_pid := (wake_pid s)(t := pid (task_table s t)),
       sleep_bitmap := sleep_bitmap s OR task_bit t\<rparr>"

definition thread_block_prepare_timed :: "nat \<Rightarrow> nat \<Rightarrow> task_status \<Rightarrow> u32 \<Rightarrow> u32 \<Rightarrow> sched \<Rightarrow> sched" where
  "thread_block_prepare_timed c t st tick ticks s =
     (let s = upd_task t (\<lambda>x. x\<lparr>futex_timed := 0\<rparr>) (set_status c t st (ready_remove t s))
      in if ticks \<noteq> 0 then upd_task t (\<lambda>x. x\<lparr>futex_timed := 1\<rparr>) (arm_timer t (tick + ticks) s) else s)"

text \<open>\<open>thread_timer_cancel\<close> is this section with \<open>current\<close> for \<open>t\<close>.\<close>

definition thread_timer_disarm :: "nat \<Rightarrow> sched \<Rightarrow> sched" where
  "thread_timer_disarm t s =
     upd_task t (\<lambda>x. x\<lparr>futex_timed := 0\<rparr>) (s\<lparr>sleep_bitmap := sleep_bitmap s AND NOT (task_bit t)\<rparr>)"

definition sleep_begin :: "nat \<Rightarrow> nat \<Rightarrow> u32 \<Rightarrow> u32 \<Rightarrow> sched \<Rightarrow> sched" where
  "sleep_begin c t tick ticks s =
     (let s = upd_task t (\<lambda>x. x\<lparr>sleep_intr := 1, sleep_eintr := 0, sleep_left := 0, futex_timed := 0\<rparr>) s;
          s = arm_timer t (tick + ticks) s
      in set_status c t TASK_BLOCKED (ready_remove t s))"

text \<open>After the sleep: 0, or \<open>- EINTR\<close> with the ticks that are left.\<close>

definition sleep_end :: "nat \<Rightarrow> u32 \<Rightarrow> sched \<Rightarrow> int \<times> sched" where
  "sleep_end t tick s =
     (let s = upd_task t (\<lambda>x. x\<lparr>sleep_intr := 0\<rparr>) s in
      if sleep_eintr (task_table s t) \<noteq> 0 then
        (let s = upd_task t (\<lambda>x. x\<lparr>sleep_eintr := 0\<rparr>) s;
             s = s\<lparr>sleep_bitmap := sleep_bitmap s AND NOT (task_bit t)\<rparr>;
             left = sint (wake_tick s t - tick)
         in (- 4, upd_task t (\<lambda>x. x\<lparr>sleep_left := (if left > 0 then word_of_int left else 0)\<rparr>) s))
      else (0, s))"

definition timer_slot :: "nat \<Rightarrow> u32 \<Rightarrow> nat \<Rightarrow> sched \<Rightarrow> sched" where
  "timer_slot c tick t s =
     (if sint (tick - wake_tick s t) < 0 then s
      else
        let s = s\<lparr>sleep_bitmap := sleep_bitmap s AND NOT (task_bit t)\<rparr> in
        if slot_used (task_table s t) \<and> pid (task_table s t) = wake_pid s t \<and>
           status_bit (status (task_table s t)) AND TASK_WAKE_MASK \<noteq> 0 then
          ready_enqueue c t
            (if futex_timed (task_table s t) \<noteq> 0 then upd_task t (\<lambda>x. x\<lparr>futex_timed := 0, futex_ready := 2\<rparr>) s else s)
        else s)"

definition thread_timer_wake :: "nat \<Rightarrow> u32 \<Rightarrow> sched \<Rightarrow> sched" where
  "thread_timer_wake c tick s = bits_loop (timer_slot c tick) (sleep_bitmap s) s"

section \<open>Picking and switching\<close>

record pick =
  best :: nat
  fallback :: nat
  best_vd :: u64
  fb_ve :: u64

definition pick_slot :: "sched \<Rightarrow> nat \<Rightarrow> nat \<Rightarrow> pick \<Rightarrow> pick" where
  "pick_slot s c t p =
     (let x = task_table s t in
      if on_cpu x \<noteq> of_nat NR_CPU \<and> on_cpu x \<noteq> of_nat c then p
      else
        let p = (if vruntime x < fb_ve p then p\<lparr>fb_ve := vruntime x, fallback := t\<rparr> else p)
        in if vruntime x > rq_avg_now s c then p
           else if deadline x < best_vd p then p\<lparr>best_vd := deadline x, best := t\<rparr> else p)"

definition pick_cpu_slot :: "sched \<Rightarrow> nat \<Rightarrow> nat" where
  "pick_cpu_slot s c =
     (let p = bits_loop (pick_slot s c) (ready_cpu s c)
            \<lparr>best = MAX_TASKS, fallback = MAX_TASKS, best_vd = - 1, fb_ve = - 1\<rparr>
      in if best p \<noteq> MAX_TASKS then best p else fallback p)"

definition scheduler_tick :: "nat \<Rightarrow> sched \<Rightarrow> sched" where
  "scheduler_tick c s =
     (case cur s c of
        None \<Rightarrow> s
      | Some t \<Rightarrow>
          if weight (task_table s t) = 0 then s
          else
            let in_rq = run_bitmap s AND task_bit t \<noteq> 0;
                s = (if in_rq then rq_del t (unat (rq_cpu (task_table s t))) s else s);
                s = upd_task t (\<lambda>x. x\<lparr>vruntime := vruntime x + of_nat WVSTEP div ucast (weight x)\<rparr>) s;
                s = (if in_rq then upd_task t (\<lambda>x. x\<lparr>rq_cpu := of_nat c\<rparr>) (rq_add t c s) else s)
            in renew_deadline t (upd_task t (\<lambda>x. x\<lparr>elapsed_ticks := elapsed_ticks x + 1\<rparr>) s))"

text \<open>The opening of \<open>schedule\<close>: the task the CPU left last is released, its stack no longer in use.\<close>

definition schedule_away :: "nat \<Rightarrow> sched \<Rightarrow> sched" where
  "schedule_away c s =
     (case cpu_away s c of
        None \<Rightarrow> s
      | Some away \<Rightarrow>
          let s = s\<lparr>cpu_away := (cpu_away s)(c := None)\<rparr> in
          if cur s c \<noteq> Some away \<and> on_cpu (task_table s away) = of_nat c
          then upd_task away (\<lambda>x. x\<lparr>on_cpu := of_nat NR_CPU\<rparr>) s else s)"

text \<open>
  The section under \<open>sched_lock\<close>: the current task goes back to the ready sets if it still runs, a slot is
  picked, with the idle task as last resort, and becomes current. The stack switch that follows has
  no effect on this state.
\<close>

definition schedule_switch :: "nat \<Rightarrow> nat \<Rightarrow> nat \<Rightarrow> sched \<Rightarrow> sched" where
  "schedule_switch c prev slot s =
     (let s = ready_remove slot s;
          s = (if \<not> is_idle_task s slot \<and> rq_cpu (task_table s slot) \<noteq> of_nat c then
                 upd_task slot (\<lambda>x. x\<lparr>rq_cpu := of_nat c\<rparr>)
                   (rq_add slot c (rq_del slot (unat (rq_cpu (task_table s slot))) s))
               else s);
          s = upd_task slot (\<lambda>x. x\<lparr>on_cpu := of_nat c\<rparr>) (set_status c slot TASK_RUNNING s);
          s = (if idle_threads s c \<noteq> Some slot
               then s\<lparr>cpu_work_switches := (cpu_work_switches s)(c := cpu_work_switches s c + 1)\<rparr> else s);
          s = (if prev \<noteq> slot then s\<lparr>cpu_away := (cpu_away s)(c := Some prev)\<rparr> else s)
      in s\<lparr>cur := (cur s)(c := Some slot)\<rparr>)"

definition schedule_pick :: "nat \<Rightarrow> nat \<Rightarrow> sched \<Rightarrow> sched" where
  "schedule_pick c prev s =
     (let s = (if status (task_table s prev) = TASK_RUNNING then ready_enqueue c prev s else s);
          s = (case idle_threads s c of
                 Some i \<Rightarrow> if pick_cpu_slot s c = MAX_TASKS then ready_enqueue c i s else s
               | None \<Rightarrow> s);
          slot = pick_cpu_slot s c
      in if slot = MAX_TASKS then s else schedule_switch c prev slot s)"

section \<open>Creation and exit\<close>

text \<open>The first section of \<open>thread_alloc_slot\<close>: a free slot is claimed.\<close>

definition slot_claim :: "nat \<Rightarrow> sched \<Rightarrow> (nat \<times> sched) option" where
  "slot_claim c s =
     (let free = NOT (slot_inuse s) in
      if free = 0 then None
      else
        let i = ctz free;
            s = s\<lparr>slot_inuse := slot_inuse s OR task_bit i\<rparr>;
            s = upd_task i (\<lambda>x. x\<lparr>slot_used := True, pid := - 1\<rparr>) s
        in Some (i, set_status c i TASK_BLOCKED s))"

text \<open>The section that gives the slot back when there is no memory for the stack.\<close>

definition slot_unclaim :: "nat \<Rightarrow> sched \<Rightarrow> sched" where
  "slot_unclaim i s =
     (upd_task i (\<lambda>x. x\<lparr>slot_used := False\<rparr>) s)\<lparr>slot_inuse := slot_inuse s AND NOT (task_bit i)\<rparr>"

text \<open>The last section, with the part of \<open>init_task_struct_basic\<close> that the record has.\<close>

definition slot_init :: "nat \<Rightarrow> u8 \<Rightarrow> nat \<Rightarrow> sched \<Rightarrow> sched" where
  "slot_init c prio i s =
     (let s = set_status c i TASK_BLOCKED s;
          s = upd_task i (\<lambda>x. x\<lparr>pid := pid_alloc s, elapsed_ticks := 0, pml4_phys := 0,
                fd_table := [0, 1, 2] @ replicate (MAX_FILES_OPEN_PER_PROC - 3) (- 1), pipe_wr_mask := 0,
                parent_pid := - 1, fd_cloexec := 0, fd_owner_pid := pid_alloc s, cpu_aff := 1,
                on_cpu := of_nat NR_CPU, futex_ready := 0, futex_uaddr := 0, futex_pml4 := 0,
                sleep_intr := 0, sleep_eintr := 0, sleep_left := 0, priority := prio,
                weight := prio_to_weight prio, slice := weight_slice (prio_to_weight prio),
                vruntime := min_vruntime s, deadline := min_vruntime s + ucast (weight_slice (prio_to_weight prio))\<rparr>) s
      in s\<lparr>pid_alloc := pid_alloc s + 1, thread_all_list := thread_all_list s @ [i]\<rparr>)"

text \<open>The section of \<open>thread_exit_current\<close>, and of \<open>thread_exit\<close> for a task that has not died yet.\<close>

definition task_die :: "nat \<Rightarrow> nat \<Rightarrow> sched \<Rightarrow> sched" where
  "task_die c t s =
     (let s = ready_remove t (set_status c t TASK_DIED s) in s\<lparr>died_pending := died_pending s + 1\<rparr>)"

definition thread_exit :: "nat \<Rightarrow> nat \<Rightarrow> sched \<Rightarrow> sched" where
  "thread_exit c t s = (if status (task_table s t) = TASK_DIED then s else task_die c t s)"

definition pid2thread :: "sched \<Rightarrow> 32 word \<Rightarrow> nat option" where
  "pid2thread s p = find (\<lambda>i. slot_used (task_table s i) \<and> pid (task_table s i) = p) [0..<MAX_TASKS]"

text \<open>The locked section of \<open>thread_kill_pid\<close>, with its guards.\<close>

definition thread_kill_pid :: "nat \<Rightarrow> u32 \<Rightarrow> sched \<Rightarrow> sched" where
  "thread_kill_pid c p s =
     (case pid2thread s p of
        None \<Rightarrow> s
      | Some t \<Rightarrow>
          if status_bit (status (task_table s t)) AND TASK_DEAD_MASK \<noteq> 0 \<or> pml4_phys (task_table s t) = 0 then s
          else ready_remove t (set_status c t TASK_HANGING (upd_task t (\<lambda>x. x\<lparr>exit_status := - 1\<rparr>) s)))"

text \<open>
  Reaping. The first section collects up to eight dead tasks whose stack no CPU uses and marks them
  with \<open>NR_CPU + 1\<close>; each is then freed in a section of its own.
\<close>

fun reap_scan :: "nat option \<Rightarrow> nat list \<Rightarrow> nat \<Rightarrow> sched \<Rightarrow> nat list \<times> sched" where
  "reap_scan me [] n s = ([], s)"
| "reap_scan me (t # ts) n s =
     (if n \<ge> 8 then ([], s)
      else if me = Some t \<or> status (task_table s t) \<noteq> TASK_DIED then reap_scan me ts n s
      else if on_cpu (task_table s t) \<noteq> of_nat NR_CPU then reap_scan me ts n s
      else
        (case reap_scan me ts (n + 1) (upd_task t (\<lambda>x. x\<lparr>on_cpu := of_nat NR_CPU + 1\<rparr>) s) of
           (vs, s) \<Rightarrow> (t # vs, s)))"

definition reap_select :: "nat \<Rightarrow> sched \<Rightarrow> nat list \<times> sched" where
  "reap_select c s = reap_scan (cur s c) (thread_all_list s) 0 s"

definition reap_free :: "nat \<Rightarrow> sched \<Rightarrow> sched" where
  "reap_free t s =
     (let s = (upd_task t (\<lambda>x. x\<lparr>slot_used := False\<rparr>) s)\<lparr>thread_all_list := remove1 t (thread_all_list s)\<rparr>;
          s = s\<lparr>slot_inuse := slot_inuse s AND NOT (task_bit t)\<rparr>
      in if died_pending s > 0 then s\<lparr>died_pending := died_pending s - 1\<rparr> else s)"

text \<open>A started processor takes its idle task as current.\<close>

definition ap_main :: "nat \<Rightarrow> sched \<Rightarrow> sched" where
  "ap_main c s =
     (case idle_threads s c of
        None \<Rightarrow> s
      | Some me \<Rightarrow> upd_task me (\<lambda>x. x\<lparr>status := TASK_RUNNING, on_cpu := of_nat c\<rparr>) (s\<lparr>cur := (cur s)(c := Some me)\<rparr>))"

section \<open>Start\<close>

text \<open>
  \<open>thread_alloc_slot\<close> as a whole, its sections without interleaving; \<open>mem\<close> tells whether there are pages
  for the stack.
\<close>

definition thread_alloc_slot :: "bool \<Rightarrow> nat \<Rightarrow> u8 \<Rightarrow> sched \<Rightarrow> nat option \<times> sched" where
  "thread_alloc_slot mem c prio s =
     (case slot_claim c s of
        None \<Rightarrow> (None, s)
      | Some (i, s) \<Rightarrow> if mem then (Some i, slot_init c prio i s) else (None, slot_unclaim i s))"

definition thread_create :: "bool \<Rightarrow> nat \<Rightarrow> u8 \<Rightarrow> u8 \<Rightarrow> sched \<Rightarrow> nat option \<times> sched" where
  "thread_create mem c prio aff s =
     (case thread_alloc_slot mem c prio s of
        (None, s) \<Rightarrow> (None, s)
      | (Some t, s) \<Rightarrow> (Some t, ready_enqueue c t (upd_task t (\<lambda>x. x\<lparr>cpu_aff := aff\<rparr>) s)))"

definition thread_create_idle :: "bool \<Rightarrow> nat \<Rightarrow> sched \<Rightarrow> sched" where
  "thread_create_idle mem cpu s =
     (case thread_create mem 0 10 (push_bit cpu 1) s of
        (None, s) \<Rightarrow> s
      | (Some t, s) \<Rightarrow>
          (let s = set_status 0 t TASK_BLOCKED (ready_remove t s) in s\<lparr>idle_threads := (idle_threads s)(cpu := Some t)\<rparr>))"

text \<open>The first task, \<open>main\<close>, in slot 0, and the idle tasks of all CPUs.\<close>

definition thread_main :: sched where
  "thread_main =
     (let w = prio_to_weight 5;
          t = task_zero\<lparr>pid := 0, priority := 5, weight := w, slice := weight_slice w, vruntime := 0,
                deadline := ucast (weight_slice w), parent_pid := - 1, slot_used := True, cpu_aff := 1, on_cpu := 0,
                fd_table := [0, 1, 2] @ replicate (MAX_FILES_OPEN_PER_PROC - 3) (- 1)\<rparr>;
          s = \<lparr>task_table = (\<lambda>_. task_zero)(0 := t), ready_bitmap = 0, ready_cpu = (\<lambda>_. 0), slot_inuse = 1, sleep_bitmap = 0,
               wake_tick = (\<lambda>_. 0), wake_pid = (\<lambda>_. 0), min_vruntime = 0, run_bitmap = 0, rq_weight = (\<lambda>_. 0),
               rq_avg = (\<lambda>_. 0), pid_alloc = 1, died_pending = 0, thread_all_list = [0], idle_threads = (\<lambda>_. None),
               cpu_work_switches = (\<lambda>_. 0), cpu_away = (\<lambda>_. None), cur = (\<lambda>_. None)(0 := Some 0)\<rparr>
      in set_status 0 0 TASK_RUNNING s)"

definition thread_init :: "(nat \<Rightarrow> bool) \<Rightarrow> sched" where
  "thread_init mem = fold (\<lambda>c. thread_create_idle (mem c) c) [0..<NR_CPU] thread_main"

end
