(* ===== verification/Sched_Pick.thy ===== *)
theory Sched_Pick
  imports Sched
begin

text \<open>
  The selection of the next task: the loop over the ready bits visits exactly the ready slots in order,
  and the pick is the eligible candidate with the earliest deadline.
\<close>

section \<open>Loops over set bits\<close>

lemma bit_task_bit [simp]: "bit (task_bit t) n \<longleftrightarrow> n = t \<and> t < 64"
  by (auto simp: task_bit_def bit_simps)

lemma and_task_bit: "t < 64 \<Longrightarrow> m AND task_bit t \<noteq> 0 \<longleftrightarrow> bit m t"
proof -
  assume t: "t < 64"
  have "m AND task_bit t = 0" if "\<not> bit m t" using that by (intro bit_word_eqI) (auto simp: bit_and_iff)
  moreover have "bit (m AND task_bit t) t \<longleftrightarrow> bit m t" using t by (simp add: bit_and_iff)
  ultimately show ?thesis by fastforce
qed

lemma and_task_bit0: "t < 64 \<Longrightarrow> m AND task_bit t = 0 \<longleftrightarrow> \<not> bit m t"
  using and_task_bit [of t m] by blast

lemma bit_clear_lowest:
  assumes "(m :: u64) \<noteq> 0"
  shows "bit (m AND (m - 1)) n \<longleftrightarrow> bit m n \<and> n \<noteq> ctz m"
proof -
  define k where "k = ctz m"
  have k: "bit m k" "k < 64" "\<And>i. i < k \<Longrightarrow> \<not> bit m i"
    using bit_ctz [OF assms] ctz_less [OF assms] not_bit_below_ctz by (auto simp: k_def)
  define h where "h = m AND NOT (mask (Suc k))"
  have bh: "bit h i \<longleftrightarrow> bit m i \<and> k < i" for i
    using bit_imp_le_length [of m i] by (auto simp: h_def bit_simps)
  have "h AND push_bit k 1 = 0" by (intro bit_word_eqI) (auto simp: bit_simps bh)
  moreover have "m = h OR push_bit k 1"
  proof (intro bit_word_eqI)
    fix n assume "n < LENGTH(64)"
    then show "bit m n = bit (h OR push_bit k 1) n"
      using k by (cases n k rule: linorder_cases) (auto simp: bit_simps bh)
  qed
  ultimately have m: "m = h + 2 ^ k" by (simp add: disjunctive_add_eq_or [symmetric] push_bit_eq_mult)
  have "h AND mask k = 0" by (intro bit_word_eqI) (auto simp: bit_simps bh)
  then have "m - 1 = h OR mask k" unfolding m by (simp add: disjunctive_add_eq_or [symmetric] mask_eq_exp_minus_1)
  then have "bit (m - 1) n \<longleftrightarrow> bit h n \<or> n < k \<and> n < 64" by (simp add: bit_simps) auto
  then show ?thesis using bh [of n] k(3) [of n] by (auto simp: bit_and_iff k_def)
qed

lemma filter_bits_Cons:
  assumes "(m :: u64) \<noteq> 0"
  shows "filter (bit m) [0..<64] = ctz m # filter (bit (m AND (m - 1))) [0..<64]"
proof -
  define k where "k = ctz m"
  have k: "k < 64" using ctz_less [OF assms] by (simp add: k_def)
  have e: "[0..<64] = [0..<k] @ k # [Suc k..<64]"
    using k by (metis le_add_diff_inverse less_imp_le_nat upt_add_eq_append upt_conv_Cons zero_le add_0)
  have b: "bit (m AND (m - 1)) n \<longleftrightarrow> bit m n \<and> n \<noteq> k" for n using bit_clear_lowest [OF assms] by (simp add: k_def)
  have lo: "filter (bit m) [0..<k] = []" using not_bit_below_ctz [of _ m] by (auto simp: filter_empty_conv k_def)
  have hi: "filter (bit (m AND (m - 1))) [Suc k..<64] = filter (bit m) [Suc k..<64]" by (rule filter_cong) (auto simp: b)
  have lo': "filter (bit (m AND (m - 1))) [0..<k] = []" using lo by (auto simp: filter_empty_conv b)
  show ?thesis unfolding e using lo hi lo' bit_ctz [OF assms] b [of k] by (simp add: k_def)
qed

lemma bits_loop_fold: "bits_loop f m a = fold f (filter (bit m) [0..<64]) a"
proof (induction f m a rule: bits_loop.induct)
  case (1 f m a)
  then show ?case
    by (cases "m = 0") (simp_all add: bits_loop.simps [of f m] bits_loop.simps [of f 0] filter_bits_Cons)
qed

section \<open>The pick\<close>

definition candidate :: "sched \<Rightarrow> nat \<Rightarrow> nat \<Rightarrow> bool" where
  "candidate s c t \<longleftrightarrow> t < MAX_TASKS \<and> bit (ready_cpu s c) t \<and>
     (on_cpu (task_table s t) = of_nat NR_CPU \<or> on_cpu (task_table s t) = of_nat c)"

definition eligible :: "sched \<Rightarrow> nat \<Rightarrow> nat \<Rightarrow> bool" where
  "eligible s c t \<longleftrightarrow> candidate s c t \<and> vruntime (task_table s t) \<le> rq_avg_now s c"

text \<open>What the loop knows after the slots of \<open>ts\<close>.\<close>

definition pick_inv :: "sched \<Rightarrow> nat \<Rightarrow> nat set \<Rightarrow> pick \<Rightarrow> bool" where
  "pick_inv s c ts p \<longleftrightarrow>
     (if fallback p = MAX_TASKS then fb_ve p = - 1
      else fallback p \<in> ts \<and> candidate s c (fallback p) \<and> fb_ve p = vruntime (task_table s (fallback p))) \<and>
     (if best p = MAX_TASKS then best_vd p = - 1
      else best p \<in> ts \<and> eligible s c (best p) \<and> best_vd p = deadline (task_table s (best p))) \<and>
     (\<forall>t\<in>ts. candidate s c t \<longrightarrow> fb_ve p \<le> vruntime (task_table s t)) \<and>
     (\<forall>t\<in>ts. eligible s c t \<longrightarrow> best_vd p \<le> deadline (task_table s t))"

lemma pick_inv_step:
  assumes inv: "pick_inv s c ts p" and t: "t < MAX_TASKS" "bit (ready_cpu s c) t"
  shows "pick_inv s c (insert t ts) (pick_slot s c t p)"
proof (cases "candidate s c t")
  case False
  then show ?thesis using inv t by (auto simp: pick_slot_def candidate_def pick_inv_def eligible_def Let_def)
next
  case cand: True
  define x where "x = task_table s t"
  define q where "q = (if vruntime x < fb_ve p then p\<lparr>fb_ve := vruntime x, fallback := t\<rparr> else p)"
  have r: "pick_slot s c t p = (if vruntime x > rq_avg_now s c then q
      else if deadline x < best_vd q then q\<lparr>best_vd := deadline x, best := t\<rparr> else q)"
    using cand by (auto simp: pick_slot_def candidate_def q_def x_def Let_def)
  have fq: "if fallback q = MAX_TASKS then fb_ve q = - 1
      else fallback q \<in> insert t ts \<and> candidate s c (fallback q) \<and> fb_ve q = vruntime (task_table s (fallback q))"
    "\<forall>u\<in>insert t ts. candidate s c u \<longrightarrow> fb_ve q \<le> vruntime (task_table s u)" "best q = best p" "best_vd q = best_vd p"
    using inv cand t(1) by (auto simp: pick_inv_def q_def x_def not_less split: if_splits)
  have el: "eligible s c t \<longleftrightarrow> \<not> vruntime x > rq_avg_now s c" using cand by (simp add: eligible_def x_def not_less)
  show ?thesis
  proof (cases "\<not> vruntime x > rq_avg_now s c \<and> deadline x < best_vd q")
    case True
    then have "pick_slot s c t p = q\<lparr>best_vd := deadline x, best := t\<rparr>" by (simp add: r)
    then show ?thesis using fq inv el True t(1) unfolding pick_inv_def by (auto simp: x_def split: if_splits)
  next
    case False
    then have "pick_slot s c t p = q" by (auto simp: r)
    then show ?thesis using fq inv el False unfolding pick_inv_def by (auto simp: x_def not_less split: if_splits)
  qed
qed

lemma pick_inv_fold:
  assumes "\<forall>t\<in>set ts. t < MAX_TASKS \<and> bit (ready_cpu s c) t" "pick_inv s c us p"
  shows "pick_inv s c (us \<union> set ts) (fold (pick_slot s c) ts p)"
  using assms
proof (induction ts arbitrary: us p)
  case (Cons t ts)
  then show ?case using Cons.IH [of "insert t us" "pick_slot s c t p"] pick_inv_step by (simp add: Un_commute)
qed simp

lemma pick_final:
  obtains p where "pick_inv s c {t. t < MAX_TASKS \<and> bit (ready_cpu s c) t} p"
    "pick_cpu_slot s c = (if best p \<noteq> MAX_TASKS then best p else fallback p)"
proof -
  let ?p0 = "\<lparr>best = MAX_TASKS, fallback = MAX_TASKS, best_vd = - 1, fb_ve = - 1\<rparr> :: pick"
  have "pick_inv s c {} ?p0" by (simp add: pick_inv_def)
  then have "pick_inv s c (set (filter (bit (ready_cpu s c)) [0..<64])) (bits_loop (pick_slot s c) (ready_cpu s c) ?p0)"
    using pick_inv_fold [of "filter (bit (ready_cpu s c)) [0..<64]" s c "{}" ?p0] by (simp add: bits_loop_fold MAX_TASKS_def)
  moreover have "set (filter (bit (ready_cpu s c)) [0..<64]) = {t. t < MAX_TASKS \<and> bit (ready_cpu s c) t}"
    by (auto simp: MAX_TASKS_def)
  ultimately show thesis by (intro that) (simp_all add: pick_cpu_slot_def Let_def)
qed

text \<open>A picked slot is ready on this CPU and its stack is free or the CPU's own.\<close>

lemma pick_candidate: "pick_cpu_slot s c \<noteq> MAX_TASKS \<Longrightarrow> candidate s c (pick_cpu_slot s c)"
  by (rule pick_final [of s c]) (auto simp: pick_inv_def eligible_def split: if_splits)

text \<open>
  C9. The scheduler picks by earliest eligible virtual deadline: among the tasks that are ready on the
  CPU and whose stack no other CPU uses, it takes one with the smallest deadline of those whose virtual
  run time does not exceed the queue average, and when none is eligible one with the smallest virtual
  run time; it reports an empty queue exactly when there is no such task.
\<close>
theorem pick_earliest_deadline:
  assumes "\<forall>t. candidate s c t \<longrightarrow> vruntime (task_table s t) < - 1 \<and> deadline (task_table s t) < - 1"
  shows "(pick_cpu_slot s c = MAX_TASKS \<longleftrightarrow> (\<forall>t. \<not> candidate s c t)) \<and>
    (\<forall>t. eligible s c t \<longrightarrow> eligible s c (pick_cpu_slot s c) \<and>
       deadline (task_table s (pick_cpu_slot s c)) \<le> deadline (task_table s t)) \<and>
    (\<forall>t. candidate s c t \<and> (\<forall>u. \<not> eligible s c u) \<longrightarrow> candidate s c (pick_cpu_slot s c) \<and>
       vruntime (task_table s (pick_cpu_slot s c)) \<le> vruntime (task_table s t))"
proof -
  obtain p where p: "pick_inv s c {t. t < MAX_TASKS \<and> bit (ready_cpu s c) t} p"
    "pick_cpu_slot s c = (if best p \<noteq> MAX_TASKS then best p else fallback p)"
    by (rule pick_final)
  have c: "t < MAX_TASKS" "bit (ready_cpu s c) t" if "candidate s c t" for t using that by (auto simp: candidate_def)
  have e: "candidate s c t" if "eligible s c t" for t using that by (simp add: eligible_def)
  have fb: "fallback p \<noteq> MAX_TASKS" if "candidate s c t" for t
    using p(1) assms that c [OF that] unfolding pick_inv_def by (metis (mono_tags, lifting) linorder_not_less mem_Collect_eq)
  have be: "best p \<noteq> MAX_TASKS" if "eligible s c t" for t
    using p(1) assms that c [OF e [OF that]] e [OF that] unfolding pick_inv_def
    by (metis (mono_tags, lifting) linorder_not_less mem_Collect_eq)
  have cf: "candidate s c (fallback p)" if "fallback p \<noteq> MAX_TASKS" using p(1) that by (auto simp: pick_inv_def)
  have eb: "eligible s c (best p)" if "best p \<noteq> MAX_TASKS" using p(1) that by (auto simp: pick_inv_def)
  show ?thesis
  proof (intro conjI allI impI)
    show "pick_cpu_slot s c = MAX_TASKS \<longleftrightarrow> (\<forall>t. \<not> candidate s c t)"
      using p(2) fb cf e eb by (metis (full_types))
  next
    fix t assume t: "eligible s c t"
    then have b: "best p \<noteq> MAX_TASKS" by (rule be)
    then show "eligible s c (pick_cpu_slot s c)" using p(2) eb by simp
    show "deadline (task_table s (pick_cpu_slot s c)) \<le> deadline (task_table s t)"
      using p b t c [OF e [OF t]] by (auto simp: pick_inv_def)
  next
    fix t assume t: "candidate s c t \<and> (\<forall>u. \<not> eligible s c u)"
    then have b: "best p = MAX_TASKS" "fallback p \<noteq> MAX_TASKS" using eb fb by blast+
    then show "candidate s c (pick_cpu_slot s c)" using p(2) cf by simp
    show "vruntime (task_table s (pick_cpu_slot s c)) \<le> vruntime (task_table s t)"
      using p b t c [of t] by (auto simp: pick_inv_def)
  qed
qed

definition two_ready :: sched where
  "two_ready = thread_main\<lparr>ready_cpu := (\<lambda>_. 6), task_table := (\<lambda>_. task_zero)
     (1 := task_zero\<lparr>deadline := 10, on_cpu := 4\<rparr>, 2 := task_zero\<lparr>deadline := 5, on_cpu := 4\<rparr>)\<rparr>"

lemma two_ready_candidate: "candidate two_ready 0 t \<longleftrightarrow> t = 1 \<or> t = 2"
proof -
  have "bit (6 :: u64) t \<longleftrightarrow> t = 1 \<or> t = 2" by (auto simp: bit_numeral_rec bit_1_iff dest: bit_imp_le_length split: nat.splits)
  then show ?thesis by (auto simp: candidate_def two_ready_def MAX_TASKS_def NR_CPU_def)
qed

theorem pick_earliest_deadline_witness:
  "eligible two_ready 0 2 \<and> eligible two_ready 0 (pick_cpu_slot two_ready 0) \<and>
   deadline (task_table two_ready (pick_cpu_slot two_ready 0)) \<le> 5"
proof -
  have "\<forall>t. candidate two_ready 0 t \<longrightarrow> vruntime (task_table two_ready t) < - 1 \<and> deadline (task_table two_ready t) < - 1"
    by (auto simp: two_ready_candidate) (simp_all add: two_ready_def task_zero_def word_gt_0)
  moreover have "eligible two_ready 0 2"
    by (simp add: eligible_def two_ready_candidate) (simp add: two_ready_def task_zero_def)
  moreover have "deadline (task_table two_ready 2) = 5" by (simp add: two_ready_def)
  ultimately show ?thesis using pick_earliest_deadline [of two_ready 0] by metis
qed

end
