(* ===== verification/Sched_Safe.thy ===== *)
theory Sched_Safe
  imports Sched_Pick
begin

text \<open>
  Safety of the scheduler on several CPUs: in every interleaving of its sections, no task is current, or
  still being switched away from, on two CPUs at once, and no slot is freed while a CPU uses its stack.
\<close>

section \<open>What the primitives change\<close>

lemma upd_task_simps [simp]:
  "task_table (upd_task t f s) u = (if u = t then f (task_table s t) else task_table s u)"
  "ready_bitmap (upd_task t f s) = ready_bitmap s" "ready_cpu (upd_task t f s) = ready_cpu s"
  "slot_inuse (upd_task t f s) = slot_inuse s" "thread_all_list (upd_task t f s) = thread_all_list s"
  "idle_threads (upd_task t f s) = idle_threads s" "cpu_away (upd_task t f s) = cpu_away s" "cur (upd_task t f s) = cur s"
  "run_bitmap (upd_task t f s) = run_bitmap s" "rq_weight (upd_task t f s) = rq_weight s"
  "sleep_bitmap (upd_task t f s) = sleep_bitmap s"
  by (simp_all add: upd_task_def)

lemma rq_frame [simp]:
  "task_table (rq_add t c s) = task_table s" "task_table (rq_del t c s) = task_table s"
  "ready_bitmap (rq_add t c s) = ready_bitmap s" "ready_bitmap (rq_del t c s) = ready_bitmap s"
  "ready_cpu (rq_add t c s) = ready_cpu s" "ready_cpu (rq_del t c s) = ready_cpu s"
  "slot_inuse (rq_add t c s) = slot_inuse s" "slot_inuse (rq_del t c s) = slot_inuse s"
  "thread_all_list (rq_add t c s) = thread_all_list s" "thread_all_list (rq_del t c s) = thread_all_list s"
  "idle_threads (rq_add t c s) = idle_threads s" "idle_threads (rq_del t c s) = idle_threads s"
  "cpu_away (rq_add t c s) = cpu_away s" "cpu_away (rq_del t c s) = cpu_away s"
  "cur (rq_add t c s) = cur s" "cur (rq_del t c s) = cur s"
  "run_bitmap (rq_add t c s) = run_bitmap s" "run_bitmap (rq_del t c s) = run_bitmap s"
  by (simp_all add: rq_add_def rq_del_def Let_def)

text \<open>The part of the state that decides who may run where.\<close>

definition same_places :: "sched \<Rightarrow> sched \<Rightarrow> bool" where
  "same_places s s' \<longleftrightarrow>
     slot_inuse s' = slot_inuse s \<and> thread_all_list s' = thread_all_list s \<and> idle_threads s' = idle_threads s \<and>
     cpu_away s' = cpu_away s \<and> cur s' = cur s \<and>
     (\<forall>u. cpu_aff (task_table s' u) = cpu_aff (task_table s u) \<and> slot_used (task_table s' u) = slot_used (task_table s u))"

definition same_ready :: "sched \<Rightarrow> sched \<Rightarrow> bool" where
  "same_ready s s' \<longleftrightarrow> ready_bitmap s' = ready_bitmap s \<and> ready_cpu s' = ready_cpu s"

definition same_on_cpu :: "sched \<Rightarrow> sched \<Rightarrow> bool" where
  "same_on_cpu s s' \<longleftrightarrow> (\<forall>u. on_cpu (task_table s' u) = on_cpu (task_table s u))"

lemma set_status_frame:
  "same_places s (set_status c t st s)" "same_ready s (set_status c t st s)" "same_on_cpu s (set_status c t st s)"
  "status (task_table (set_status c t st s) u) = (if u = t then st else status (task_table s u))"
  by (simp_all add: set_status_def same_places_def same_ready_def same_on_cpu_def Let_def)

lemma place_entity_frame:
  "same_places s (place_entity c t s)" "same_ready s (place_entity c t s)" "same_on_cpu s (place_entity c t s)"
  "status (task_table (place_entity c t s) u) = status (task_table s u)"
  by (simp_all add: place_entity_def same_places_def same_ready_def same_on_cpu_def Let_def)

lemma ready_remove_frame:
  "same_places s (ready_remove t s)" "same_on_cpu s (ready_remove t s)"
  "status (task_table (ready_remove t s) u) = status (task_table s u)"
  "bit (ready_bitmap (ready_remove t s)) u \<longleftrightarrow> bit (ready_bitmap s) u \<and> \<not> (u = t \<and> t < 64)"
  "k < NR_CPU \<Longrightarrow> bit (ready_cpu (ready_remove t s) k) u \<longleftrightarrow> bit (ready_cpu s k) u \<and> \<not> (u = t \<and> t < 64)"
  using bit_imp_le_length [of "ready_bitmap s" u] bit_imp_le_length [of "ready_cpu s k" u]
  by (auto simp: ready_remove_def same_places_def same_on_cpu_def bit_simps)

lemma bit_aff: "k < 32 \<Longrightarrow> (a :: u32) AND push_bit k 1 \<noteq> 0 \<longleftrightarrow> bit a k"
proof -
  assume k: "k < 32"
  have "a AND push_bit k 1 = 0" if "\<not> bit a k" using that by (intro bit_word_eqI) (auto simp: bit_simps)
  moreover have "bit (a AND push_bit k 1) k \<longleftrightarrow> bit a k" using k by (simp add: bit_simps)
  ultimately show ?thesis by fastforce
qed

lemma ready_enqueue_frame:
  assumes t: "t < 64"
  shows "same_places s (ready_enqueue c t s)"
    "on_cpu (task_table (ready_enqueue c t s) u) =
       (if u = t \<and> \<not> bit (ready_bitmap s) t \<and> status (task_table s t) \<noteq> TASK_RUNNING \<and> on_cpu (task_table s t) \<ge> of_nat NR_CPU
        then of_nat NR_CPU else on_cpu (task_table s u))"
    "status (task_table (ready_enqueue c t s) u) =
       (if u = t \<and> \<not> bit (ready_bitmap s) t then TASK_READY else status (task_table s u))"
    "bit (ready_bitmap (ready_enqueue c t s)) u \<longleftrightarrow> bit (ready_bitmap s) u \<or> u = t"
    "k < NR_CPU \<Longrightarrow> bit (ready_cpu (ready_enqueue c t s) k) u \<longleftrightarrow>
       bit (ready_cpu s k) u \<or> u = t \<and> \<not> bit (ready_bitmap s) t \<and> bit (aff_of (task_table s t)) k"
proof -
  define s1 where "s1 = (if on_cpu (task_table s t) \<ge> of_nat NR_CPU then upd_task t (\<lambda>x. x\<lparr>on_cpu := of_nat NR_CPU\<rparr>) s else s)"
  define s2 where "s2 = (if status (task_table s t) \<noteq> TASK_RUNNING then place_entity c t s1 else s)"
  define s3 where "s3 = s2\<lparr>ready_bitmap := ready_bitmap s2 OR task_bit t,
      ready_cpu := (\<lambda>k. if k < NR_CPU \<and> aff_of (task_table s2 t) AND push_bit k 1 \<noteq> 0 then ready_cpu s2 k OR task_bit t else ready_cpu s2 k)\<rparr>"
  have e: "ready_enqueue c t s = (if bit (ready_bitmap s) t then s else set_status c t TASK_READY s3)"
    unfolding ready_enqueue_def Let_def s3_def s2_def s1_def using and_task_bit0 [OF t, of "ready_bitmap s"] by simp
  have p1: "same_places s s1" "same_ready s s1" by (simp_all add: s1_def same_places_def same_ready_def)
  have p2: "same_places s s2" "same_ready s s2"
  proof -
    have "same_places s1 (place_entity c t s1)" "same_ready s1 (place_entity c t s1)" by (rule place_entity_frame)+
    then have "same_places s (place_entity c t s1)" "same_ready s (place_entity c t s1)"
      using p1 by (simp_all add: same_places_def same_ready_def)
    then show "same_places s s2" "same_ready s s2" by (simp_all add: s2_def) (simp_all add: same_places_def same_ready_def)
  qed
  have p3: "same_places s s3" using p2 by (simp add: s3_def same_places_def)
  have a2: "aff_of (task_table s2 t) = aff_of (task_table s t)" using p2(1) by (simp add: aff_of_def same_places_def)
  have o3: "on_cpu (task_table s3 u) = (if u = t \<and> status (task_table s t) \<noteq> TASK_RUNNING \<and> on_cpu (task_table s t) \<ge> of_nat NR_CPU
        then of_nat NR_CPU else on_cpu (task_table s u))" for u
    using place_entity_frame(3) [of s1 c t] by (auto simp: s3_def s2_def s1_def same_on_cpu_def)
  have t3: "status (task_table s3 u) = status (task_table s u)" for u
    using place_entity_frame(4) [of c t s1 u] by (auto simp: s3_def s2_def s1_def)
  have r3: "bit (ready_bitmap s3) u \<longleftrightarrow> bit (ready_bitmap s) u \<or> u = t" for u
    using p2(2) t by (auto simp: s3_def same_ready_def bit_or_iff)
  have c3: "k < NR_CPU \<Longrightarrow> bit (ready_cpu s3 k) u \<longleftrightarrow> bit (ready_cpu s k) u \<or> u = t \<and> bit (aff_of (task_table s t)) k" for k u
    using p2(2) t bit_aff [of k "aff_of (task_table s t)"] by (auto simp: s3_def same_ready_def bit_or_iff a2 NR_CPU_def)
  note ss = set_status_frame [where s = s3 and c = c and t = t and st = TASK_READY]
  show "same_places s (ready_enqueue c t s)" using p3 ss(1) by (auto simp: e same_places_def)
  show "on_cpu (task_table (ready_enqueue c t s) u) =
       (if u = t \<and> \<not> bit (ready_bitmap s) t \<and> status (task_table s t) \<noteq> TASK_RUNNING \<and> on_cpu (task_table s t) \<ge> of_nat NR_CPU
        then of_nat NR_CPU else on_cpu (task_table s u))"
    using o3 ss(3) by (simp add: e same_on_cpu_def)
  show "status (task_table (ready_enqueue c t s) u) =
       (if u = t \<and> \<not> bit (ready_bitmap s) t then TASK_READY else status (task_table s u))"
    using t3 ss(4) by (simp add: e)
  show "bit (ready_bitmap (ready_enqueue c t s)) u \<longleftrightarrow> bit (ready_bitmap s) u \<or> u = t"
    using r3 ss(2) by (auto simp: e same_ready_def)
  show "k < NR_CPU \<Longrightarrow> bit (ready_cpu (ready_enqueue c t s) k) u \<longleftrightarrow>
       bit (ready_cpu s k) u \<or> u = t \<and> \<not> bit (ready_bitmap s) t \<and> bit (aff_of (task_table s t)) k"
    using c3 ss(2) by (auto simp: e same_ready_def)
qed

section \<open>Invariant\<close>

lemma cpu_word:
  assumes "c < NR_CPU"
  shows "\<not> of_nat NR_CPU \<le> (of_nat c :: u32)" "(of_nat c :: u32) \<noteq> of_nat NR_CPU" "(of_nat c :: u32) \<noteq> of_nat NR_CPU + 1"
    "d < NR_CPU \<Longrightarrow> (of_nat c :: u32) = of_nat d \<Longrightarrow> c = d"
proof -
  have "c \<in> {0, 1, 2, 3}" using assms by (auto simp: NR_CPU_def)
  then show "\<not> of_nat NR_CPU \<le> (of_nat c :: u32)" "(of_nat c :: u32) \<noteq> of_nat NR_CPU" "(of_nat c :: u32) \<noteq> of_nat NR_CPU + 1"
    by (auto simp: NR_CPU_def word_le_nat_alt)
  assume "d < NR_CPU" "(of_nat c :: u32) = of_nat d"
  then have "unat (of_nat c :: u32) = unat (of_nat d :: u32)" by simp
  then show "c = d" using assms \<open>d < NR_CPU\<close> by (simp add: unat_of_nat NR_CPU_def)
qed

text \<open>CPU \<open>c\<close> uses the stack of task \<open>t\<close>: it runs there, or was left and not yet released.\<close>

definition holds :: "sched \<Rightarrow> nat \<Rightarrow> nat \<Rightarrow> bool" where
  "holds s c t \<longleftrightarrow> c < NR_CPU \<and> (cur s c = Some t \<or> cpu_away s c = Some t)"

definition inuse :: "sched \<Rightarrow> nat \<Rightarrow> bool" where
  "inuse s t \<longleftrightarrow> t < 64 \<and> bit (slot_inuse s) t"

definition held_ok :: "sched \<Rightarrow> bool" where
  "held_ok s \<longleftrightarrow> (\<forall>c t. holds s c t \<longrightarrow> inuse s t \<and> on_cpu (task_table s t) = of_nat c)"

definition ready_ok :: "sched \<Rightarrow> bool" where
  "ready_ok s \<longleftrightarrow> (\<forall>t. bit (ready_bitmap s) t \<longrightarrow> inuse s t \<and> status (task_table s t) = TASK_READY) \<and>
     (\<forall>c t. c < NR_CPU \<longrightarrow> bit (ready_cpu s c) t \<longrightarrow> bit (ready_bitmap s) t \<and> bit (aff_of (task_table s t)) c)"

definition idle_ok :: "sched \<Rightarrow> bool" where
  "idle_ok s \<longleftrightarrow> (\<forall>c i. c < NR_CPU \<longrightarrow> idle_threads s c = Some i \<longrightarrow>
     inuse s i \<and> cpu_aff (task_table s i) = push_bit c 1 \<and> status (task_table s i) \<noteq> TASK_DIED \<and>
     (on_cpu (task_table s i) = of_nat c \<or> on_cpu (task_table s i) = of_nat NR_CPU))"

text \<open>\<open>R\<close> is the set of slots that a CPU has selected for reaping and not freed yet.\<close>

definition reap_ok :: "nat set \<Rightarrow> sched \<Rightarrow> bool" where
  "reap_ok R s \<longleftrightarrow> (\<forall>t\<in>R. inuse s t \<and> on_cpu (task_table s t) = of_nat NR_CPU + 1 \<and> status (task_table s t) = TASK_DIED)"

definition table_ok :: "sched \<Rightarrow> bool" where
  "table_ok s \<longleftrightarrow> distinct (thread_all_list s) \<and> (\<forall>t\<in>set (thread_all_list s). inuse s t) \<and>
     (\<forall>t<64. slot_used (task_table s t) \<longrightarrow> inuse s t) \<and> (\<forall>c<NR_CPU. cur s c = None \<longrightarrow> cpu_away s c = None)"

definition sinv :: "nat set \<Rightarrow> sched \<Rightarrow> bool" where
  "sinv R s \<longleftrightarrow> held_ok s \<and> ready_ok s \<and> idle_ok s \<and> reap_ok R s \<and> table_ok s"

lemmas sinv_parts = sinv_def held_ok_def ready_ok_def idle_ok_def reap_ok_def table_ok_def

lemma places_cong:
  assumes "same_places s s'"
  shows "holds s' = holds s" "inuse s' = inuse s" "table_ok s' = table_ok s" "aff_of (task_table s' t) = aff_of (task_table s t)"
  using assms by (auto simp: same_places_def holds_def inuse_def table_ok_def aff_of_def fun_eq_iff)

lemma sinv_exclusive:
  assumes "sinv R s" "holds s c t" "holds s d t"
  shows "c = d"
  using assms cpu_word(4) by (metis holds_def held_ok_def sinv_def)

lemma sinv_not_reaping:
  assumes "sinv R s" "holds s c t"
  shows "t \<notin> R"
proof
  assume "t \<in> R"
  then have "on_cpu (task_table s t) = of_nat NR_CPU + 1" using assms(1) by (simp add: sinv_parts)
  moreover have "on_cpu (task_table s t) = of_nat c" "c < NR_CPU" using assms by (auto simp: sinv_parts holds_def)
  ultimately show False using cpu_word(3) by metis
qed

text \<open>Changes that leave the places alone: a new status and new ready sets.\<close>

lemma sinv_status:
  assumes inv: "sinv R s" and p: "same_places s s'" "same_on_cpu s s'" and r: "ready_ok s'"
    and st: "\<And>c i. c < NR_CPU \<Longrightarrow> idle_threads s c = Some i \<Longrightarrow> status (task_table s' i) \<noteq> TASK_DIED"
    and d: "\<And>t. t \<in> R \<Longrightarrow> status (task_table s' t) = TASK_DIED"
  shows "sinv R s'"
proof -
  have "held_ok s'" using inv p places_cong [OF p(1)] by (simp add: sinv_def held_ok_def same_on_cpu_def)
  moreover have "idle_ok s'" using inv p places_cong [OF p(1)] st by (auto simp: sinv_def idle_ok_def same_on_cpu_def same_places_def)
  moreover have "reap_ok R s'" using inv p places_cong [OF p(1)] d by (auto simp: sinv_def reap_ok_def same_on_cpu_def)
  ultimately show ?thesis using inv r places_cong [OF p(1)] by (simp add: sinv_def)
qed

text \<open>Leaving the ready sets with a new status.\<close>

lemma sinv_remove:
  assumes inv: "sinv R s" and t: "t < 64" and p: "same_places s s'" "same_on_cpu s s'"
    and rb: "\<And>u. bit (ready_bitmap s') u \<longleftrightarrow> bit (ready_bitmap s) u \<and> u \<noteq> t"
    and rc: "\<And>k u. k < NR_CPU \<Longrightarrow> bit (ready_cpu s' k) u \<longleftrightarrow> bit (ready_cpu s k) u \<and> u \<noteq> t"
    and st: "\<And>u. status (task_table s' u) = (if u = t then x else status (task_table s u))"
    and x: "x = TASK_DIED \<Longrightarrow> \<forall>c<NR_CPU. idle_threads s c \<noteq> Some t" "t \<in> R \<Longrightarrow> x = TASK_DIED"
  shows "sinv R s'"
proof (rule sinv_status [OF inv p])
  show "ready_ok s'" using inv rb rc st places_cong [OF p(1)] by (auto simp: sinv_def ready_ok_def)
  show "status (task_table s' i) \<noteq> TASK_DIED" if "c < NR_CPU" "idle_threads s c = Some i" for c i
    using inv st x that by (auto simp: sinv_def idle_ok_def)
  show "status (task_table s' u) = TASK_DIED" if "u \<in> R" for u
    using inv st x that by (auto simp: sinv_def reap_ok_def)
qed

lemma remove_set_status:
  assumes "t < 64"
  shows "same_places s (set_status c t x (ready_remove t s))" "same_on_cpu s (set_status c t x (ready_remove t s))"
    "bit (ready_bitmap (set_status c t x (ready_remove t s))) u \<longleftrightarrow> bit (ready_bitmap s) u \<and> u \<noteq> t"
    "k < NR_CPU \<Longrightarrow> bit (ready_cpu (set_status c t x (ready_remove t s)) k) u \<longleftrightarrow> bit (ready_cpu s k) u \<and> u \<noteq> t"
    "status (task_table (set_status c t x (ready_remove t s)) u) = (if u = t then x else status (task_table s u))"
  using assms set_status_frame [where s = "ready_remove t s" and c = c and t = t and st = x]
    ready_remove_frame(1,2) [of s t] ready_remove_frame(3-5) [where s = s and t = t]
  by (auto simp: same_places_def same_on_cpu_def same_ready_def)

lemma sinv_block:
  assumes inv: "sinv R s" and t: "t < 64" "t \<notin> R" "x \<noteq> TASK_DIED"
  shows "sinv R (set_status c t x (ready_remove t s))"
  using remove_set_status [OF t(1), where s = s and c = c and x = x] t
  by (intro sinv_remove [OF inv t(1), where x = x]) auto

lemma sinv_enqueue:
  assumes inv: "sinv R s" and t: "inuse s t" "status (task_table s t) \<noteq> TASK_DIED"
  shows "sinv R (ready_enqueue c t s)"
proof -
  have t64: "t < 64" using t by (simp add: inuse_def)
  note f = ready_enqueue_frame [OF t64, where s = s and c = c]
  let ?s = "ready_enqueue c t s"
  have tR: "t \<notin> R" using inv t(2) by (auto simp: sinv_def reap_ok_def)
  have "held_ok ?s"
    unfolding held_ok_def places_cong [OF f(1)]
  proof (intro allI impI)
    fix d u assume "holds s d u"
    then have "inuse s u" "on_cpu (task_table s u) = of_nat d" "d < NR_CPU"
      using inv by (auto simp: sinv_def held_ok_def holds_def)
    then show "inuse s u \<and> on_cpu (task_table ?s u) = of_nat d" using f(2) [of u] cpu_word(1) [of d] by auto
  qed
  moreover have "ready_ok ?s"
    using inv f(3-5) places_cong [OF f(1)] t(1) unfolding sinv_def ready_ok_def by (auto split: if_splits)
  moreover have "idle_ok ?s"
    using inv f(1-3) places_cong [OF f(1)] cpu_word(1) unfolding sinv_def idle_ok_def
    by (auto simp: same_places_def)
  moreover have "reap_ok R ?s"
    using inv f(2,3) places_cong [OF f(1)] tR unfolding sinv_def reap_ok_def by (auto split: if_splits)
  ultimately show ?thesis using inv places_cong [OF f(1)] by (simp add: sinv_def)
qed

text \<open>Fields that the invariant does not read.\<close>

lemma sinv_quiet:
  assumes "sinv R s" "same_places s s'" "same_on_cpu s s'" "same_ready s s'"
    "\<And>u. status (task_table s' u) = status (task_table s u)"
  shows "sinv R s'"
proof (rule sinv_status [OF assms(1-3)])
  show "ready_ok s'"
    using assms places_cong [OF assms(2)] by (auto simp: sinv_def ready_ok_def same_ready_def)
qed (use assms in \<open>auto simp: sinv_parts\<close>)

lemma timer_slot_inv:
  assumes inv: "sinv R s" and t: "t < 64"
  shows "sinv R (timer_slot c tick t s)"
proof -
  define s1 where "s1 = s\<lparr>sleep_bitmap := sleep_bitmap s AND NOT (task_bit t)\<rparr>"
  define s2 where "s2 = (if futex_timed (task_table s1 t) \<noteq> 0 then upd_task t (\<lambda>x. x\<lparr>futex_timed := 0, futex_ready := 2\<rparr>) s1 else s1)"
  have i1: "sinv R s1"
    by (rule sinv_quiet [OF inv]) (simp_all add: s1_def same_places_def same_on_cpu_def same_ready_def)
  have i2: "sinv R s2"
    by (rule sinv_quiet [OF i1]) (simp_all add: s2_def same_places_def same_on_cpu_def same_ready_def)
  have "inuse s2 t" "status (task_table s2 t) \<noteq> TASK_DIED"
    if "slot_used (task_table s1 t)" "status_bit (status (task_table s1 t)) AND TASK_WAKE_MASK \<noteq> 0"
    using that i1 t wake_mask_iff [of "status (task_table s1 t)"] by (auto simp: s2_def sinv_parts inuse_def)
  then show ?thesis
    using i1 inv sinv_enqueue [OF i2, of t c] unfolding timer_slot_def Let_def s1_def [symmetric] s2_def [symmetric] by auto
qed

lemma timer_wake_inv: "sinv R s \<Longrightarrow> sinv R (thread_timer_wake c tick s)"
proof -
  assume inv: "sinv R s"
  have "sinv R (fold (timer_slot c tick) ts s)" if "\<forall>t\<in>set ts. t < 64" for ts
    using inv that by (induction ts arbitrary: s) (auto simp: timer_slot_inv)
  then show ?thesis by (simp add: thread_timer_wake_def bits_loop_fold)
qed

lemma thread_ready_inv: "sinv R s \<Longrightarrow> inuse s t \<Longrightarrow> sinv R (thread_ready c t s)"
  using sinv_enqueue [of R s t c] wake_mask_iff [of "status (task_table s t)"] by (auto simp: thread_ready_def)

lemma tick_inv: "sinv R s \<Longrightarrow> sinv R (scheduler_tick c s)"
  by (erule sinv_quiet)
    (auto simp: scheduler_tick_def same_places_def same_on_cpu_def same_ready_def Let_def renew_deadline_def split: option.splits)

lemma away_inv:
  assumes inv: "sinv R s" and c: "c < NR_CPU"
  shows "sinv R (schedule_away c s)"
proof (cases "cpu_away s c")
  case (Some a)
  define s1 where "s1 = s\<lparr>cpu_away := (cpu_away s)(c := None)\<rparr>"
  have h: "holds s1 d t \<Longrightarrow> holds s d t" for d t by (auto simp: s1_def holds_def split: if_splits)
  have "inuse s1 = inuse s" "task_table s1 = task_table s" by (simp_all add: s1_def inuse_def fun_eq_iff)
  then have "held_ok s1" "ready_ok s1 = ready_ok s" "idle_ok s1 = idle_ok s" "reap_ok R s1 = reap_ok R s"
    using inv h by (auto simp: sinv_def held_ok_def) (simp_all add: ready_ok_def idle_ok_def reap_ok_def s1_def)
  moreover have "table_ok s1" using inv by (auto simp: s1_def sinv_def table_ok_def inuse_def)
  ultimately have i1: "sinv R s1" using inv by (simp add: sinv_def)
  show ?thesis
  proof (cases "cur s1 c \<noteq> Some a \<and> on_cpu (task_table s1 a) = of_nat c")
    case True
    let ?s = "upd_task a (\<lambda>x. x\<lparr>on_cpu := of_nat NR_CPU\<rparr>) s1"
    have p: "same_places s1 ?s" by (simp add: same_places_def)
    have free: "\<not> holds s1 d a" for d
    proof
      assume hd: "holds s1 d a"
      then have "d = c" using sinv_exclusive [OF inv h [OF hd], of c] Some c by (simp add: holds_def)
      then show False using hd True by (simp add: holds_def s1_def)
    qed
    have aR: "a \<notin> R" using sinv_not_reaping [OF inv, of c a] Some c by (simp add: holds_def)
    have "held_ok ?s" using i1 free places_cong [OF p] by (auto simp: sinv_def held_ok_def)
    moreover have "ready_ok ?s" using i1 places_cong [OF p] by (auto simp: sinv_def ready_ok_def)
    moreover have "idle_ok ?s" using i1 places_cong [OF p] by (auto simp: sinv_def idle_ok_def)
    moreover have "reap_ok R ?s" using i1 places_cong [OF p] aR by (auto simp: sinv_def reap_ok_def)
    ultimately have "sinv R ?s" using i1 places_cong [OF p] by (simp add: sinv_def)
    then show ?thesis using Some True by (simp add: schedule_away_def s1_def Let_def)
  qed (use i1 Some in \<open>auto simp: schedule_away_def s1_def Let_def\<close>)
qed (use inv in \<open>simp add: schedule_away_def\<close>)

section \<open>Switching\<close>

lemma switch_effect:
  assumes t: "t < 64"
  shows "slot_inuse (schedule_switch c prev t s) = slot_inuse s" "thread_all_list (schedule_switch c prev t s) = thread_all_list s"
    "idle_threads (schedule_switch c prev t s) = idle_threads s"
    "cur (schedule_switch c prev t s) = (cur s)(c := Some t)"
    "cpu_away (schedule_switch c prev t s) = (if prev \<noteq> t then (cpu_away s)(c := Some prev) else cpu_away s)"
    "status (task_table (schedule_switch c prev t s) u) = (if u = t then TASK_RUNNING else status (task_table s u))"
    "on_cpu (task_table (schedule_switch c prev t s) u) = (if u = t then of_nat c else on_cpu (task_table s u))"
    "cpu_aff (task_table (schedule_switch c prev t s) u) = cpu_aff (task_table s u)"
    "slot_used (task_table (schedule_switch c prev t s) u) = slot_used (task_table s u)"
    "bit (ready_bitmap (schedule_switch c prev t s)) u \<longleftrightarrow> bit (ready_bitmap s) u \<and> u \<noteq> t"
    "k < NR_CPU \<Longrightarrow> bit (ready_cpu (schedule_switch c prev t s) k) u \<longleftrightarrow> bit (ready_cpu s k) u \<and> u \<noteq> t"
proof -
  define s1 where "s1 = ready_remove t s"
  define s2 where "s2 = (if \<not> is_idle_task s1 t \<and> rq_cpu (task_table s1 t) \<noteq> of_nat c then
       upd_task t (\<lambda>x. x\<lparr>rq_cpu := of_nat c\<rparr>) (rq_add t c (rq_del t (unat (rq_cpu (task_table s1 t))) s1)) else s1)"
  define s3 where "s3 = set_status c t TASK_RUNNING s2"
  note f1 = ready_remove_frame(1,2) [of s t, folded s1_def] ready_remove_frame(3-5) [where s = s and t = t, folded s1_def]
  have f2: "same_places s1 s2" "same_on_cpu s1 s2" "same_ready s1 s2" "\<And>u. status (task_table s2 u) = status (task_table s1 u)"
    by (simp_all add: s2_def same_places_def same_on_cpu_def same_ready_def)
  note f3 = set_status_frame [where s = s2 and c = c and t = t and st = TASK_RUNNING, folded s3_def]
  have e: "schedule_switch c prev t s = (let x = upd_task t (\<lambda>x. x\<lparr>on_cpu := of_nat c\<rparr>) s3;
      x = (if idle_threads x c \<noteq> Some t then x\<lparr>cpu_work_switches := (cpu_work_switches x)(c := cpu_work_switches x c + 1)\<rparr> else x);
      x = (if prev \<noteq> t then x\<lparr>cpu_away := (cpu_away x)(c := Some prev)\<rparr> else x)
      in x\<lparr>cur := (cur x)(c := Some t)\<rparr>)"
    unfolding schedule_switch_def s3_def s2_def s1_def Let_def ..
  have p: "same_places s s3" using f1(1) f2(1) f3(1) by (simp add: same_places_def)
  have o: "on_cpu (task_table s3 u) = on_cpu (task_table s u)" for u using f1(2) f2(2) f3(3) by (simp add: same_on_cpu_def)
  have st: "status (task_table s3 u) = (if u = t then TASK_RUNNING else status (task_table s u))" for u
    using f1(3) f2(4) f3(4) by simp
  have r: "bit (ready_bitmap s3) u \<longleftrightarrow> bit (ready_bitmap s) u \<and> u \<noteq> t"
    "k < NR_CPU \<Longrightarrow> bit (ready_cpu s3 k) u \<longleftrightarrow> bit (ready_cpu s k) u \<and> u \<noteq> t" for u k
    using f1(4,5) f2(3) f3(2) t by (auto simp: same_ready_def)
  note all = e Let_def p [unfolded same_places_def] o st r
  show "slot_inuse (schedule_switch c prev t s) = slot_inuse s" "thread_all_list (schedule_switch c prev t s) = thread_all_list s"
    "idle_threads (schedule_switch c prev t s) = idle_threads s"
    "cur (schedule_switch c prev t s) = (cur s)(c := Some t)"
    "cpu_away (schedule_switch c prev t s) = (if prev \<noteq> t then (cpu_away s)(c := Some prev) else cpu_away s)"
    "status (task_table (schedule_switch c prev t s) u) = (if u = t then TASK_RUNNING else status (task_table s u))"
    "on_cpu (task_table (schedule_switch c prev t s) u) = (if u = t then of_nat c else on_cpu (task_table s u))"
    "cpu_aff (task_table (schedule_switch c prev t s) u) = cpu_aff (task_table s u)"
    "slot_used (task_table (schedule_switch c prev t s) u) = slot_used (task_table s u)"
    "bit (ready_bitmap (schedule_switch c prev t s)) u \<longleftrightarrow> bit (ready_bitmap s) u \<and> u \<noteq> t"
    "k < NR_CPU \<Longrightarrow> bit (ready_cpu (schedule_switch c prev t s) k) u \<longleftrightarrow> bit (ready_cpu s k) u \<and> u \<noteq> t"
    by (simp_all add: all)
qed

lemma idle_aff:
  assumes "cpu_aff x = push_bit d 1" "d < NR_CPU" "c < NR_CPU" "bit (aff_of x) c"
  shows "c = d"
proof -
  have "c \<in> {0, 1, 2, 3}" "d \<in> {0, 1, 2, 3}" using assms(2,3) by (auto simp: NR_CPU_def)
  then show ?thesis using assms(1,4) by (auto simp: aff_of_def bit_simps)
qed

lemma switch_inv:
  assumes inv: "sinv R s" and c: "c < NR_CPU" "cur s c = Some prev" and cand: "candidate s c t"
  shows "sinv R (schedule_switch c prev t s)"
proof -
  let ?s = "schedule_switch c prev t s"
  have t: "t < 64" "bit (ready_cpu s c) t" "on_cpu (task_table s t) = of_nat NR_CPU \<or> on_cpu (task_table s t) = of_nat c"
    using cand by (auto simp: candidate_def MAX_TASKS_def)
  have rt: "bit (ready_bitmap s) t" "inuse s t" "status (task_table s t) = TASK_READY" "bit (aff_of (task_table s t)) c"
    using inv t c by (auto simp: sinv_def ready_ok_def)
  note f = switch_effect [OF t(1), where s = s and c = c and prev = prev]
  have iu: "inuse ?s = inuse s" and aff: "aff_of (task_table ?s u) = aff_of (task_table s u)" for u
    by (simp_all add: fun_eq_iff inuse_def f aff_of_def)
  have "held_ok ?s"
    unfolding held_ok_def
  proof (intro allI impI)
    fix d u assume h: "holds ?s d u"
    show "inuse ?s u \<and> on_cpu (task_table ?s u) = of_nat d"
    proof (cases "d = c")
      case True
      then have "u = t \<or> holds s c u" using h c by (auto simp: holds_def f split: if_splits)
      then show ?thesis using inv True rt(2) by (auto simp: iu f sinv_def held_ok_def)
    next
      case False
      then have hs: "holds s d u" using h by (auto simp: holds_def f split: if_splits)
      then have u: "inuse s u" "on_cpu (task_table s u) = of_nat d" "d < NR_CPU" using inv by (auto simp: sinv_def held_ok_def holds_def)
      have "u \<noteq> t" using t(3) u(2,3) False c(1) cpu_word(2) [OF u(3)] cpu_word(4) [OF u(3) c(1)] by auto
      then show ?thesis using u by (simp add: iu f)
    qed
  qed
  moreover have "ready_ok ?s" using inv by (auto simp: sinv_def ready_ok_def f iu aff)
  moreover have "idle_ok ?s"
    unfolding idle_ok_def
  proof (intro allI impI)
    fix d i assume d: "d < NR_CPU" "idle_threads ?s d = Some i"
    then have i: "inuse s i" "cpu_aff (task_table s i) = push_bit d 1" "status (task_table s i) \<noteq> TASK_DIED"
        "on_cpu (task_table s i) = of_nat d \<or> on_cpu (task_table s i) = of_nat NR_CPU"
      using inv by (auto simp: sinv_def idle_ok_def f)
    have "i = t \<Longrightarrow> c = d" using idle_aff [OF i(2) d(1) c(1)] rt(4) by blast
    then show "inuse ?s i \<and> cpu_aff (task_table ?s i) = push_bit d 1 \<and> status (task_table ?s i) \<noteq> TASK_DIED \<and>
        (on_cpu (task_table ?s i) = of_nat d \<or> on_cpu (task_table ?s i) = of_nat NR_CPU)"
      using i by (auto simp: iu f)
  qed
  moreover have "reap_ok R ?s" using inv rt(3) by (auto simp: sinv_def reap_ok_def f iu)
  moreover have "table_ok ?s" using inv by (auto simp: sinv_def table_ok_def f iu)
  ultimately show ?thesis by (simp add: sinv_def)
qed

lemma pick_inv_sched:
  assumes inv: "sinv R s" and c: "c < NR_CPU" "cur s c = Some prev"
  shows "sinv R (schedule_pick c prev s)"
proof -
  define s1 where "s1 = (if status (task_table s prev) = TASK_RUNNING then ready_enqueue c prev s else s)"
  have pv: "inuse s prev" using inv c by (auto simp: sinv_def held_ok_def holds_def)
  then have p64: "prev < 64" by (simp add: inuse_def)
  have i1: "sinv R s1" using inv sinv_enqueue [OF inv pv, of c] by (simp add: s1_def)
  have c1: "cur s1 c = Some prev" using c(2) ready_enqueue_frame(1) [OF p64, of s c] by (simp add: s1_def same_places_def)
  define s2 where "s2 = (case idle_threads s1 c of Some i \<Rightarrow> if pick_cpu_slot s1 c = MAX_TASKS then ready_enqueue c i s1 else s1 | None \<Rightarrow> s1)"
  have i2: "sinv R s2 \<and> cur s2 c = Some prev"
  proof (cases "idle_threads s1 c")
    case (Some i)
    then have i: "inuse s1 i" "status (task_table s1 i) \<noteq> TASK_DIED" using i1 c(1) by (auto simp: sinv_def idle_ok_def)
    then have "i < 64" by (simp add: inuse_def)
    then show ?thesis using Some i1 c1 sinv_enqueue [OF i1 i, of c] ready_enqueue_frame(1) [of i s1 c]
      by (simp add: s2_def same_places_def)
  qed (use i1 c1 in \<open>simp add: s2_def\<close>)
  have "schedule_pick c prev s = (if pick_cpu_slot s2 c = MAX_TASKS then s2 else schedule_switch c prev (pick_cpu_slot s2 c) s2)"
    unfolding schedule_pick_def s2_def s1_def Let_def ..
  then show ?thesis using i2 switch_inv [of R s2 c prev "pick_cpu_slot s2 c"] c(1) pick_candidate [of s2 c] by auto
qed

end
