(* ===== verification/Sched_Life.thy ===== *)
theory Sched_Life
  imports Sched_Safe
begin

text \<open>
  The scheduler invariant through the life of a task: creation, exit, kill, reaping, the start of the
  other processors. Then the scheduler as a step relation and what holds in every reachable state.
\<close>

section \<open>Exit and kill\<close>

lemma die_effect:
  assumes "t < 64"
  shows "same_places s (task_die c t s)" "same_on_cpu s (task_die c t s)"
    "bit (ready_bitmap (task_die c t s)) u \<longleftrightarrow> bit (ready_bitmap s) u \<and> u \<noteq> t"
    "k < NR_CPU \<Longrightarrow> bit (ready_cpu (task_die c t s) k) u \<longleftrightarrow> bit (ready_cpu s k) u \<and> u \<noteq> t"
    "status (task_table (task_die c t s) u) = (if u = t then TASK_DIED else status (task_table s u))"
  using assms set_status_frame [where s = s and c = c and t = t and st = TASK_DIED]
    ready_remove_frame(1,2) [of "set_status c t TASK_DIED s" t]
    ready_remove_frame(3-5) [where s = "set_status c t TASK_DIED s" and t = t]
  by (auto simp: same_places_def same_on_cpu_def same_ready_def task_die_def Let_def)

lemma thread_exit_inv:
  assumes inv: "sinv R s" and t: "t < 64" "\<forall>c<NR_CPU. idle_threads s c \<noteq> Some t"
  shows "sinv R (thread_exit c t s)"
  using inv t sinv_remove [OF inv t(1) die_effect(1-5) [OF t(1), where c = c]] by (simp add: thread_exit_def)

lemma pid2thread_used:
  assumes "pid2thread s p = Some t"
  shows "slot_used (task_table s t)" "t < 64"
  using assms by (auto simp: pid2thread_def find_Some_iff MAX_TASKS_def)

lemma dead_mask: "st = TASK_DIED \<Longrightarrow> status_bit st AND TASK_DEAD_MASK \<noteq> 0"
  by (simp add: status_bit_def TASK_DEAD_MASK_def)

lemma thread_kill_inv:
  assumes inv: "sinv R s"
  shows "sinv R (thread_kill_pid c p s)"
proof (cases "pid2thread s p")
  case (Some t)
  note t = pid2thread_used [OF Some]
  let ?s = "upd_task t (\<lambda>x. x\<lparr>exit_status := - 1\<rparr>) s"
  show ?thesis
  proof (cases "status_bit (status (task_table s t)) AND TASK_DEAD_MASK \<noteq> 0 \<or> pml4_phys (task_table s t) = 0")
    case False
    then have "status (task_table s t) \<noteq> TASK_DIED" using dead_mask by blast
    then have r: "t \<notin> R" using inv by (auto simp: sinv_def reap_ok_def)
    have i: "sinv R ?s" by (rule sinv_quiet [OF inv]) (auto simp: same_places_def same_on_cpu_def same_ready_def)
    have "sinv R (ready_remove t (set_status c t TASK_HANGING ?s))"
      using t(2) r set_status_frame [where s = ?s and c = c and t = t and st = TASK_HANGING]
        ready_remove_frame(1,2) [of "set_status c t TASK_HANGING ?s" t]
        ready_remove_frame(3-5) [where s = "set_status c t TASK_HANGING ?s" and t = t]
      by (intro sinv_remove [OF i t(2), where x = TASK_HANGING]) (auto simp: same_places_def same_on_cpu_def same_ready_def)
    then show ?thesis using False Some by (simp add: thread_kill_pid_def)
  qed (use Some inv in \<open>simp add: thread_kill_pid_def\<close>)
qed (use inv in \<open>simp add: thread_kill_pid_def\<close>)

section \<open>Creation\<close>

text \<open>A state that differs only at a slot that was free.\<close>

definition fresh_at :: "nat \<Rightarrow> sched \<Rightarrow> sched \<Rightarrow> bool" where
  "fresh_at i s s' \<longleftrightarrow> i < 64 \<and> \<not> bit (slot_inuse s) i \<and> same_ready s s' \<and> idle_threads s' = idle_threads s \<and>
     cur s' = cur s \<and> cpu_away s' = cpu_away s \<and> (\<forall>u. u \<noteq> i \<longrightarrow> status (task_table s' u) = status (task_table s u) \<and>
       on_cpu (task_table s' u) = on_cpu (task_table s u) \<and> cpu_aff (task_table s' u) = cpu_aff (task_table s u) \<and>
       slot_used (task_table s' u) = slot_used (task_table s u)) \<and>
     (\<forall>u. u \<noteq> i \<longrightarrow> bit (slot_inuse s') u = bit (slot_inuse s) u) \<and>
     (thread_all_list s' = thread_all_list s @ [i] \<and> bit (slot_inuse s') i \<or> thread_all_list s' = thread_all_list s) \<and>
     (slot_used (task_table s' i) \<longrightarrow> bit (slot_inuse s') i)"

lemma fresh_inv:
  assumes inv: "sinv R s" and f: "fresh_at i s s'"
  shows "sinv R s'"
proof -
  have n: "\<not> inuse s i" using f by (simp add: fresh_at_def inuse_def)
  have u: "inuse s' u" if "inuse s u" for u using that n f by (cases "u = i") (auto simp: fresh_at_def inuse_def)
  have ne: "u \<noteq> i" if "inuse s u" for u using that n by auto
  have h: "holds s' = holds s" using f by (auto simp: fresh_at_def holds_def fun_eq_iff)
  have "held_ok s'" using inv u ne f unfolding sinv_def held_ok_def h by (metis fresh_at_def)
  moreover have "ready_ok s'"
    using inv u ne f unfolding sinv_def ready_ok_def fresh_at_def same_ready_def aff_of_def by metis
  moreover have "idle_ok s'" using inv u ne f unfolding sinv_def idle_ok_def fresh_at_def by metis
  moreover have "reap_ok R s'" using inv u ne f unfolding sinv_def reap_ok_def fresh_at_def by metis
  moreover have "table_ok s'"
  proof -
    have t: "table_ok s" using inv by (simp add: sinv_def)
    have "i \<notin> set (thread_all_list s)" using t n by (auto simp: table_ok_def)
    then have "distinct (thread_all_list s')" "\<forall>u\<in>set (thread_all_list s'). inuse s' u"
      using t u f by (auto simp: table_ok_def fresh_at_def inuse_def)
    moreover have "\<forall>u<64. slot_used (task_table s' u) \<longrightarrow> inuse s' u"
      using t f by (auto simp: table_ok_def fresh_at_def inuse_def)
    ultimately show ?thesis using t f by (auto simp: table_ok_def fresh_at_def)
  qed
  ultimately show ?thesis by (simp add: sinv_def)
qed

lemma slot_claim_free:
  assumes "slot_claim c s = Some (i, s')"
  shows "i < 64" "\<not> bit (slot_inuse s) i"
proof -
  have "NOT (slot_inuse s) \<noteq> 0" "i = ctz (NOT (slot_inuse s))" using assms by (auto simp: slot_claim_def Let_def split: if_splits)
  then have "bit (NOT (slot_inuse s)) i" using bit_ctz by blast
  then show "i < 64" "\<not> bit (slot_inuse s) i" by (auto simp: bit_not_iff dest: bit_imp_le_length)
qed

lemma alloc_fresh:
  assumes "slot_claim c s = Some (i, s1)"
  shows "fresh_at i s (slot_init c prio i s1)" "fresh_at i s (slot_unclaim i s1)"
    "status (task_table (slot_init c prio i s1) i) = TASK_BLOCKED" "on_cpu (task_table (slot_init c prio i s1) i) = of_nat NR_CPU"
    "bit (slot_inuse (slot_init c prio i s1)) i"
proof -
  note i = slot_claim_free [OF assms]
  define s0 where "s0 = upd_task i (\<lambda>x. x\<lparr>slot_used := True, pid := - 1\<rparr>) (s\<lparr>slot_inuse := slot_inuse s OR task_bit i\<rparr>)"
  have s1: "s1 = set_status c i TASK_BLOCKED s0"
    using assms by (auto simp: slot_claim_def Let_def s0_def split: if_splits)
  note f1 = set_status_frame [where s = s0 and c = c and t = i and st = TASK_BLOCKED, folded s1]
  have z: "slot_inuse s0 = slot_inuse s OR task_bit i" "same_ready s s0" "thread_all_list s0 = thread_all_list s"
      "idle_threads s0 = idle_threads s" "cur s0 = cur s" "cpu_away s0 = cpu_away s"
      "\<And>u. u \<noteq> i \<Longrightarrow> task_table s0 u = task_table s u" "slot_used (task_table s0 i)"
    by (simp_all add: s0_def same_ready_def)
  define s2 where "s2 = set_status c i TASK_BLOCKED s1"
  note f2 = set_status_frame [where s = s1 and c = c and t = i and st = TASK_BLOCKED, folded s2_def]
  have e: "slot_inuse (slot_init c prio i s1) = slot_inuse s2" "same_ready s2 (slot_init c prio i s1)"
      "thread_all_list (slot_init c prio i s1) = thread_all_list s2 @ [i]" "idle_threads (slot_init c prio i s1) = idle_threads s2"
      "cur (slot_init c prio i s1) = cur s2" "cpu_away (slot_init c prio i s1) = cpu_away s2"
      "\<And>u. u \<noteq> i \<Longrightarrow> task_table (slot_init c prio i s1) u = task_table s2 u"
      "status (task_table (slot_init c prio i s1) i) = status (task_table s2 i)"
      "on_cpu (task_table (slot_init c prio i s1) i) = of_nat NR_CPU"
    by (simp_all add: slot_init_def Let_def s2_def same_ready_def)
  note all = f1 f2 z e fresh_at_def same_places_def same_ready_def same_on_cpu_def bit_or_iff
  show "bit (slot_inuse (slot_init c prio i s1)) i" "status (task_table (slot_init c prio i s1) i) = TASK_BLOCKED"
      "on_cpu (task_table (slot_init c prio i s1) i) = of_nat NR_CPU"
    using f1 f2 e i by (auto simp: z same_places_def bit_or_iff)
  show "fresh_at i s (slot_init c prio i s1)" using f1 f2 z e i unfolding fresh_at_def by (auto simp: same_places_def same_ready_def same_on_cpu_def bit_or_iff)
  show "fresh_at i s (slot_unclaim i s1)" using f1 z i unfolding fresh_at_def by (auto simp: slot_unclaim_def same_places_def same_ready_def same_on_cpu_def bit_or_iff bit_and_iff bit_not_iff dest: bit_imp_le_length)
qed

lemma alloc_inv:
  assumes inv: "sinv R s" and a: "thread_alloc_slot mem c prio s = (r, s')"
  shows "sinv R s'" "r = Some t \<Longrightarrow> fresh_at t s s' \<and> inuse s' t \<and> status (task_table s' t) = TASK_BLOCKED \<and> on_cpu (task_table s' t) = of_nat NR_CPU"
proof -
  have "sinv R s' \<and> (r = Some t \<longrightarrow> fresh_at t s s' \<and> inuse s' t \<and> status (task_table s' t) = TASK_BLOCKED \<and>
      on_cpu (task_table s' t) = of_nat NR_CPU)" for t
  proof (cases "slot_claim c s")
    case (Some x)
    obtain i s1 where x: "x = (i, s1)" by (cases x)
    note f = alloc_fresh [OF Some [unfolded x]]
    show ?thesis using a Some x f fresh_inv [OF inv f(1) [of prio]] fresh_inv [OF inv f(2)] slot_claim_free(1) [OF Some [unfolded x]]
      by (auto simp: thread_alloc_slot_def inuse_def split: if_splits)
  qed (use a inv in \<open>simp add: thread_alloc_slot_def\<close>)
  then show "sinv R s'" "r = Some t \<Longrightarrow> fresh_at t s s' \<and> inuse s' t \<and> status (task_table s' t) = TASK_BLOCKED \<and> on_cpu (task_table s' t) = of_nat NR_CPU"
    by blast+
qed

lemma thread_create_inv:
  assumes inv: "sinv R s" and a: "thread_create mem c prio aff s = (r, s')"
  shows "sinv R s'" "r = Some t \<Longrightarrow> inuse s' t \<and> \<not> inuse s t \<and> cpu_aff (task_table s' t) = aff \<and>
    on_cpu (task_table s' t) = of_nat NR_CPU"
proof -
  obtain q s1 where q: "thread_alloc_slot mem c prio s = (q, s1)" by (cases "thread_alloc_slot mem c prio s")
  note i1 = alloc_inv [OF inv q]
  have "sinv R s' \<and> (r = Some t \<longrightarrow> inuse s' t \<and> \<not> inuse s t \<and> cpu_aff (task_table s' t) = aff \<and>
      on_cpu (task_table s' t) = of_nat NR_CPU)" for t
  proof (cases q)
    case (Some i)
    define s2 where "s2 = upd_task i (\<lambda>x. x\<lparr>cpu_aff := aff\<rparr>) s1"
    have i: "fresh_at i s s1" "inuse s1 i" "status (task_table s1 i) = TASK_BLOCKED" "on_cpu (task_table s1 i) = of_nat NR_CPU"
      using i1(2) Some by auto
    have "fresh_at i s s2" using i(1) by (auto simp: fresh_at_def s2_def same_ready_def)
    then have v: "sinv R s2" by (rule fresh_inv [OF inv])
    have j: "inuse s2 i" "status (task_table s2 i) \<noteq> TASK_DIED" "i < 64" "on_cpu (task_table s2 i) = of_nat NR_CPU"
        "cpu_aff (task_table s2 i) = aff"
      using i by (auto simp: s2_def inuse_def)
    have e: "r = Some i" "s' = ready_enqueue c i s2" using a q Some by (auto simp: thread_create_def s2_def)
    have n: "\<not> inuse s i" using i(1) by (simp add: fresh_at_def inuse_def)
    show ?thesis using sinv_enqueue [OF v j(1,2), of c] n j e ready_enqueue_frame(1,2) [OF j(3), where s = s2 and c = c]
      by (auto simp: same_places_def same_on_cpu_def inuse_def)
  qed (use a q i1 in \<open>simp add: thread_create_def\<close>)
  then show "sinv R s'" "r = Some t \<Longrightarrow> inuse s' t \<and> \<not> inuse s t \<and> cpu_aff (task_table s' t) = aff \<and>
    on_cpu (task_table s' t) = of_nat NR_CPU" by blast+
qed

lemma create_idle_inv:
  assumes inv: "sinv R s" and c: "cpu < NR_CPU"
  shows "sinv R (thread_create_idle mem cpu s)"
proof -
  obtain q s1 where q: "thread_create mem 0 10 (push_bit cpu 1) s = (q, s1)" by (cases "thread_create mem 0 10 (push_bit cpu 1) s")
  note i1 = thread_create_inv [OF inv q]
  show ?thesis
  proof (cases q)
    case (Some t)
    then have t: "inuse s1 t" "\<not> inuse s t" "cpu_aff (task_table s1 t) = push_bit cpu 1" "on_cpu (task_table s1 t) = of_nat NR_CPU"
      using i1(2) by auto
    have t64: "t < 64" using t(1) by (simp add: inuse_def)
    have r: "t \<notin> R" using inv t(2) by (auto simp: sinv_def reap_ok_def)
    define s2 where "s2 = set_status 0 t TASK_BLOCKED (ready_remove t s1)"
    have v: "sinv R s2" unfolding s2_def using t64 r by (intro sinv_block [OF i1(1)]) auto
    note f = remove_set_status [OF t64, where s = s1 and c = 0 and x = TASK_BLOCKED, folded s2_def]
    have k: "inuse s2 t" "cpu_aff (task_table s2 t) = push_bit cpu 1" "on_cpu (task_table s2 t) = of_nat NR_CPU"
        "status (task_table s2 t) = TASK_BLOCKED"
      using t f by (auto simp: same_places_def same_on_cpu_def inuse_def)
    have "thread_create_idle mem cpu s = s2\<lparr>idle_threads := (idle_threads s2)(cpu := Some t)\<rparr>"
      using q Some by (simp add: thread_create_idle_def s2_def Let_def)
    then show ?thesis using v k by (auto simp: sinv_parts holds_def inuse_def)
  qed (use q i1 in \<open>simp add: thread_create_idle_def\<close>)
qed

lemma create_idle_cur: "cur (thread_create_idle mem cpu s) = cur s"
proof (cases "slot_claim 0 s")
  case (Some x)
  obtain i s1 where x: "x = (i, s1)" by (cases x)
  note f = alloc_fresh [OF Some [unfolded x]] and i = slot_claim_free(1) [OF Some [unfolded x]]
  let ?s = "upd_task i (\<lambda>x. x\<lparr>cpu_aff := push_bit cpu 1\<rparr>) (slot_init 0 10 i s1)"
  show ?thesis
    using f(1) [of 10] f(2) ready_enqueue_frame(1) [OF i, where s = ?s and c = 0]
      remove_set_status(1) [OF i, where s = "ready_enqueue 0 i ?s" and c = 0 and x = TASK_BLOCKED] Some x
    by (simp add: thread_create_idle_def thread_create_def thread_alloc_slot_def fresh_at_def same_places_def Let_def)
qed (simp add: thread_create_idle_def thread_create_def thread_alloc_slot_def)

lemma thread_init_cur: "cur (thread_init mem) = (\<lambda>_. None)(0 := Some 0)"
proof -
  have "cur (fold (\<lambda>c. thread_create_idle (mem c) c) cs s) = cur s" for cs s
    by (induction cs arbitrary: s) (simp_all add: create_idle_cur)
  moreover have "cur thread_main = (\<lambda>_. None)(0 := Some 0)"
    by (simp add: thread_main_def Let_def set_status_def rq_add_def rq_del_def upd_task_def)
  ultimately show ?thesis by (simp add: thread_init_def)
qed

lemma scheduler_tick_cur: "cur (scheduler_tick c s) = cur s"
  by (auto simp: scheduler_tick_def Let_def renew_deadline_def split: option.splits)

lemma thread_main_inv: "sinv {} thread_main"
proof -
  have h: "status (task_table thread_main 0) = TASK_RUNNING" "on_cpu (task_table thread_main 0) = 0" "slot_inuse thread_main = 1"
    "ready_bitmap thread_main = 0" "ready_cpu thread_main = (\<lambda>_. 0)" "thread_all_list thread_main = [0]"
    "idle_threads thread_main = (\<lambda>_. None)" "cpu_away thread_main = (\<lambda>_. None)" "cur thread_main = (\<lambda>_. None)(0 := Some 0)"
    "\<And>u. slot_used (task_table thread_main u) \<Longrightarrow> u = 0"
    by (auto simp: thread_main_def Let_def set_status_def rq_add_def rq_del_def upd_task_def task_zero_def split: if_splits)
  then show ?thesis by (auto simp: sinv_parts holds_def inuse_def bit_simps split: if_splits)
qed

lemma thread_init_inv: "sinv {} (thread_init mem)"
proof -
  have "sinv {} (fold (\<lambda>c. thread_create_idle (mem c) c) cs s)" if "\<forall>c\<in>set cs. c < NR_CPU" "sinv {} s" for cs s
    using that by (induction cs arbitrary: s) (auto intro: create_idle_inv)
  then show ?thesis using thread_main_inv by (simp add: thread_init_def)
qed

section \<open>Reaping and the other processors\<close>

lemma reap_mark_inv:
  assumes inv: "sinv R s" and t: "inuse s t" "status (task_table s t) = TASK_DIED" "on_cpu (task_table s t) = of_nat NR_CPU"
  shows "sinv (insert t R) (upd_task t (\<lambda>x. x\<lparr>on_cpu := of_nat NR_CPU + 1\<rparr>) s)"
proof -
  have "\<not> holds s d t" for d using inv t(3) cpu_word(2) by (metis sinv_def held_ok_def holds_def)
  moreover have "idle_threads s d \<noteq> Some t" if "d < NR_CPU" for d using inv t(2) that by (auto simp: sinv_def idle_ok_def)
  moreover have "aff_of (task_table (upd_task t (\<lambda>x. x\<lparr>on_cpu := of_nat NR_CPU + 1\<rparr>) s) u) = aff_of (task_table s u)" for u
    by (simp add: aff_of_def)
  ultimately show ?thesis using inv t(1,2) by (auto simp: sinv_parts holds_def inuse_def)
qed

lemma reap_scan_inv:
  assumes "sinv R s" "\<forall>t\<in>set ts. inuse s t" "reap_scan me ts n s = (vs, s')"
  shows "sinv (R \<union> set vs) s'"
  using assms
proof (induction me ts n s arbitrary: R vs s' rule: reap_scan.induct)
  case (2 me t ts n s)
  let ?s = "upd_task t (\<lambda>x. x\<lparr>on_cpu := of_nat NR_CPU + 1\<rparr>) s"
  have iu: "inuse ?s = inuse s" by (simp add: inuse_def fun_eq_iff)
  show ?case
  proof (cases "n < 8 \<and> me \<noteq> Some t \<and> status (task_table s t) = TASK_DIED \<and> on_cpu (task_table s t) = of_nat NR_CPU")
    case True
    then obtain ws where w: "reap_scan me ts (n + 1) ?s = (ws, s')" "vs = t # ws"
      using "2.prems"(3) by (auto split: prod.splits)
    have "sinv (insert t R) ?s" using reap_mark_inv "2.prems" True by simp
    then have "sinv (insert t R \<union> set ws) s'"
      using True w(1) "2.prems"(2) by (intro "2.IH"(3)) (auto simp: iu)
    then show ?thesis using w(2) by simp
  qed (use 2 in \<open>auto split: if_splits\<close>)
qed simp

lemma reap_select_inv: "sinv R s \<Longrightarrow> reap_select c s = (vs, s') \<Longrightarrow> sinv (R \<union> set vs) s'"
  using reap_scan_inv [of R s "thread_all_list s"] by (auto simp: reap_select_def sinv_def table_ok_def)

lemma reap_free_inv:
  assumes inv: "sinv R s" and t: "t \<in> R"
  shows "sinv (R - {t}) (reap_free t s)"
proof -
  have d: "inuse s t" "status (task_table s t) = TASK_DIED" "on_cpu (task_table s t) = of_nat NR_CPU + 1"
    using inv t by (auto simp: sinv_def reap_ok_def)
  have iu: "inuse (reap_free t s) u \<longleftrightarrow> inuse s u \<and> u \<noteq> t" for u
    by (auto simp: reap_free_def Let_def inuse_def bit_and_iff bit_not_iff)
  have f: "ready_bitmap (reap_free t s) = ready_bitmap s" "ready_cpu (reap_free t s) = ready_cpu s"
      "idle_threads (reap_free t s) = idle_threads s" "cur (reap_free t s) = cur s" "cpu_away (reap_free t s) = cpu_away s"
      "thread_all_list (reap_free t s) = remove1 t (thread_all_list s)"
      "\<And>u. status (task_table (reap_free t s) u) = status (task_table s u)"
      "\<And>u. on_cpu (task_table (reap_free t s) u) = on_cpu (task_table s u)"
      "\<And>u. cpu_aff (task_table (reap_free t s) u) = cpu_aff (task_table s u)"
      "\<And>u. slot_used (task_table (reap_free t s) u) \<longleftrightarrow> slot_used (task_table s u) \<and> u \<noteq> t"
    by (auto simp: reap_free_def Let_def)
  have aff: "aff_of (task_table (reap_free t s) u) = aff_of (task_table s u)" for u by (simp add: f aff_of_def)
  have h: "holds (reap_free t s) = holds s" by (simp add: holds_def f fun_eq_iff)
  have nh: "\<not> holds s c t" for c using sinv_not_reaping [OF inv] t by blast
  have "held_ok (reap_free t s)" using inv nh by (auto simp: sinv_def held_ok_def h iu f)
  moreover have "ready_ok (reap_free t s)" using inv d(2) by (auto simp: sinv_def ready_ok_def iu f aff)
  moreover have "idle_ok (reap_free t s)" using inv d(2) by (auto simp: sinv_def idle_ok_def iu f)
  moreover have "reap_ok (R - {t}) (reap_free t s)" using inv by (auto simp: sinv_def reap_ok_def iu f)
  moreover have "table_ok (reap_free t s)" using inv by (auto simp: sinv_def table_ok_def iu f)
  ultimately show ?thesis by (simp add: sinv_def)
qed

lemma push_cpu_inj:
  assumes "d < NR_CPU" "c < NR_CPU" "push_bit d 1 = (push_bit c 1 :: u8)"
  shows "d = c"
proof -
  have "c \<in> {0, 1, 2, 3}" "d \<in> {0, 1, 2, 3}" using assms(1,2) by (auto simp: NR_CPU_def)
  then show ?thesis using assms(3) by auto
qed

lemma ap_main_inv:
  assumes inv: "sinv R s" and c: "c < NR_CPU" "cur s c = None"
    and r: "\<And>me. idle_threads s c = Some me \<Longrightarrow> \<not> bit (ready_bitmap s) me"
  shows "sinv R (ap_main c s)"
proof (cases "idle_threads s c")
  case (Some me)
  have me: "inuse s me" "cpu_aff (task_table s me) = push_bit c 1" "status (task_table s me) \<noteq> TASK_DIED"
      "on_cpu (task_table s me) = of_nat c \<or> on_cpu (task_table s me) = of_nat NR_CPU"
    using inv Some c(1) by (auto simp: sinv_def idle_ok_def)
  have iu: "inuse (ap_main c s) = inuse s" using Some by (simp add: ap_main_def inuse_def fun_eq_iff)
  have a: "cpu_away s c = None" using inv c by (auto simp: sinv_def table_ok_def)
  have f: "ready_bitmap (ap_main c s) = ready_bitmap s" "ready_cpu (ap_main c s) = ready_cpu s" "cpu_away (ap_main c s) = cpu_away s"
      "idle_threads (ap_main c s) = idle_threads s" "cur (ap_main c s) = (cur s)(c := Some me)"
      "thread_all_list (ap_main c s) = thread_all_list s"
      "\<And>u. status (task_table (ap_main c s) u) = (if u = me then TASK_RUNNING else status (task_table s u))"
      "\<And>u. on_cpu (task_table (ap_main c s) u) = (if u = me then of_nat c else on_cpu (task_table s u))"
      "\<And>u. cpu_aff (task_table (ap_main c s) u) = cpu_aff (task_table s u)"
      "\<And>u. slot_used (task_table (ap_main c s) u) = slot_used (task_table s u)"
    using Some by (auto simp: ap_main_def)
  have aff: "aff_of (task_table (ap_main c s) u) = aff_of (task_table s u)" for u by (simp add: f aff_of_def)
  have h: "holds (ap_main c s) d u \<longleftrightarrow> (if d = c then u = me else holds s d u)" for d u
    using c a by (auto simp: holds_def f)
  have other: "u \<noteq> me" if "holds s d u" "d \<noteq> c" for d u
  proof
    assume "u = me"
    then have "on_cpu (task_table s me) = of_nat d" "d < NR_CPU" using inv that(1) by (auto simp: sinv_def held_ok_def holds_def)
    then show False using me(4) that(2) c(1) cpu_word(2) [of d] cpu_word(4) [of d c] by auto
  qed
  have "held_ok (ap_main c s)" using inv me(1) other by (auto simp: sinv_def held_ok_def h iu f)
  moreover have "ready_ok (ap_main c s)" using inv r [OF Some] by (auto simp: sinv_def ready_ok_def iu f aff)
  moreover have "idle_ok (ap_main c s)"
  proof -
    have "d = c" if "d < NR_CPU" "idle_threads s d = Some me" for d
    proof -
      have "cpu_aff (task_table s me) = push_bit d 1" using inv that by (auto simp: sinv_def idle_ok_def)
      then show ?thesis using me(2) push_cpu_inj [OF that(1) c(1)] by simp
    qed
    then show ?thesis using inv by (auto simp: sinv_def idle_ok_def iu f)
  qed
  moreover have "reap_ok R (ap_main c s)" using inv me(3) by (auto simp: sinv_def reap_ok_def iu f)
  moreover have "table_ok (ap_main c s)" using inv by (auto simp: sinv_def table_ok_def iu f)
  ultimately show ?thesis by (simp add: sinv_def)
qed (use inv in \<open>simp add: ap_main_def\<close>)

section \<open>The scheduler as a transition system\<close>

text \<open>
  A step is one section under the locks, on any CPU, in any order: \<open>R\<close> is the set of slots some CPU is
  about to free. \<open>schedule\<close> is two sections: the one of \<open>schedule_away\<close>, which the task switched to runs
  first, and \<open>schedule_pick\<close>. The environment is only assumed not to end an idle task, and to start a
  processor once, before its idle task has been made ready.
\<close>

definition regular :: "sched \<Rightarrow> nat \<Rightarrow> bool" where
  "regular s t \<longleftrightarrow> (\<forall>c<NR_CPU. idle_threads s c \<noteq> Some t)"

inductive sched_step :: "nat set \<times> sched \<Rightarrow> nat set \<times> sched \<Rightarrow> bool" where
  tick: "sched_step (R, s) (R, scheduler_tick c s)" if "c < NR_CPU"
| timer: "sched_step (R, s) (R, thread_timer_wake c now s)" if "c < NR_CPU"
| away: "sched_step (R, s) (R, schedule_away c s)" if "c < NR_CPU"
| pick: "sched_step (R, s) (R, schedule_pick c prev s)" if "c < NR_CPU" "cur s c = Some prev"
| ready: "sched_step (R, s) (R, thread_ready c t s)" if "c < NR_CPU" "inuse s t"
| block: "sched_step (R, s) (R, thread_block_prepare c t st s)" if "c < NR_CPU" "cur s c = Some t" "st \<noteq> TASK_DIED"
| block_timed: "sched_step (R, s) (R, thread_block_prepare_timed c t st now ticks s)"
    if "c < NR_CPU" "cur s c = Some t" "st \<noteq> TASK_DIED"
| sleep: "sched_step (R, s) (R, sleep_begin c t now ticks s)" if "c < NR_CPU" "cur s c = Some t"
| wake: "sched_step (R, s) (R, snd (sleep_end t now s))" if "c < NR_CPU" "cur s c = Some t"
| disarm: "sched_step (R, s) (R, thread_timer_disarm t s)" if "c < NR_CPU" "cur s c = Some t"
| alloc: "sched_step (R, s) (R, snd (thread_alloc_slot mem c prio s))" if "c < NR_CPU"
| create: "sched_step (R, s) (R, snd (thread_create mem c prio aff s))" if "c < NR_CPU"
| exit: "sched_step (R, s) (R, thread_exit c t s)" if "c < NR_CPU" "inuse s t" "regular s t"
| kill: "sched_step (R, s) (R, thread_kill_pid c p s)" if "c < NR_CPU"
| select: "sched_step (R, s) (R \<union> set vs, s')" if "c < NR_CPU" "reap_select c s = (vs, s')"
| free: "sched_step (R, s) (R - {t}, reap_free t s)" if "t \<in> R"
| start: "sched_step (R, s) (R, ap_main c s)"
    if "c < NR_CPU" "cur s c = None" "\<And>me. idle_threads s c = Some me \<Longrightarrow> \<not> bit (ready_bitmap s) me"

lemma cur_facts:
  assumes "sinv R s" "c < NR_CPU" "cur s c = Some t"
  shows "t < 64" "t \<notin> R"
  using assms sinv_not_reaping [of R s c t] by (auto simp: sinv_def held_ok_def holds_def inuse_def)

lemma block_timed_inv:
  assumes "sinv R s" "c < NR_CPU" "cur s c = Some t" "st \<noteq> TASK_DIED"
  shows "sinv R (thread_block_prepare_timed c t st now ticks s)"
  by (rule sinv_quiet [OF sinv_block [OF assms(1) cur_facts [OF assms(1-3)] assms(4), where c = c]])
    (auto simp: thread_block_prepare_timed_def arm_timer_def Let_def same_places_def same_on_cpu_def same_ready_def)

lemma sleep_begin_inv:
  assumes inv: "sinv R s" "c < NR_CPU" "cur s c = Some t"
  shows "sinv R (sleep_begin c t now ticks s)"
proof -
  define s1 where "s1 = arm_timer t (now + ticks) (upd_task t (\<lambda>x. x\<lparr>sleep_intr := 1, sleep_eintr := 0, sleep_left := 0, futex_timed := 0\<rparr>) s)"
  have "sinv R s1"
    by (rule sinv_quiet [OF inv(1)]) (auto simp: s1_def arm_timer_def Let_def same_places_def same_on_cpu_def same_ready_def)
  from sinv_block [OF this cur_facts [OF inv]] show ?thesis by (simp add: sleep_begin_def s1_def)
qed

lemma sched_step_inv:
  assumes "sched_step (R, s) (R', s')" "sinv R s"
  shows "sinv R' s'"
  using assms
proof (cases rule: sched_step.cases)
  case (block c t st)
  then show ?thesis using sinv_block [OF assms(2) cur_facts [OF assms(2) block(3,4)] block(5)] by (simp add: thread_block_prepare_def)
next
  case (wake c t now)
  then show ?thesis using assms(2)
    by (auto intro!: sinv_quiet [OF assms(2)] simp: sleep_end_def Let_def same_places_def same_on_cpu_def same_ready_def)
next
  case (disarm c t)
  then show ?thesis using assms(2)
    by (auto intro!: sinv_quiet [OF assms(2)] simp: thread_timer_disarm_def Let_def same_places_def same_on_cpu_def same_ready_def)
next
  case (alloc c mem prio)
  then show ?thesis using alloc_inv(1) [OF assms(2) surjective_pairing] by simp
next
  case (create c mem prio aff)
  then show ?thesis using thread_create_inv(1) [OF assms(2) surjective_pairing] by simp
next
  case (exit c t)
  then show ?thesis using assms(2) by (auto intro!: thread_exit_inv simp: regular_def inuse_def)
qed (use assms(2) in \<open>auto intro: tick_inv timer_wake_inv away_inv pick_inv_sched thread_ready_inv block_timed_inv sleep_begin_inv
  thread_kill_inv reap_select_inv reap_free_inv ap_main_inv\<close>)

lemma reach_inv: "sched_step\<^sup>*\<^sup>* ({}, thread_init mem) (R, s) \<Longrightarrow> sinv R s"
proof -
  assume "sched_step\<^sup>*\<^sup>* ({}, thread_init mem) (R, s)"
  then have "case (R, s) of (R, s) \<Rightarrow> sinv R s"
    by (induction rule: rtranclp_induct) (auto simp: thread_init_inv intro: sched_step_inv)
  then show ?thesis by simp
qed



end
