(* ===== verification/Futex.thy ===== *)
theory Futex
  imports Sched_Safe
begin

text \<open>
  Futexes (\<open>src/kernel/syscall/futex.c\<close>): 64 buckets of sleeping tasks over the scheduler. A bucket list
  is the sequence of the slots of its tasks. The parts of a wait under the lock of the bucket, before
  and after the sleep, and a whole wake are one definition each; the user word that a wait compares
  is an argument, read under that lock. Signed overflow is undefined in C: times are \<open>int\<close>.
\<close>

section \<open>Model\<close>

definition FUTEX_BUCKETS :: nat where
  "FUTEX_BUCKETS = 64"

definition FUTEX_NS_PER_SEC :: int where
  "FUTEX_NS_PER_SEC = 1000000000"

definition PIT_HZ :: int where
  "PIT_HZ = 100"

definition FUTEX_TICK_NS :: int where
  "FUTEX_TICK_NS = FUTEX_NS_PER_SEC div PIT_HZ"

definition FUTEX_MAX_TICKS :: int where
  "FUTEX_MAX_TICKS = 0x7fffffff"

definition FUTEX_MAX_DELTA_SEC :: int where
  "FUTEX_MAX_DELTA_SEC = 100000000"

definition EINTR :: int where
  "EINTR = 4"

definition EAGAIN :: int where
  "EAGAIN = 11"

definition EINVAL :: int where
  "EINVAL = 22"

definition ENOSYS :: int where
  "ENOSYS = 38"

definition ETIMEDOUT :: int where
  "ETIMEDOUT = 110"

record futex =
  fsched :: sched
  waiters :: "nat \<Rightarrow> nat list"

record timespec =
  tv_sec :: int
  tv_nsec :: int

definition futex_bucket_for :: "u32 \<Rightarrow> u32 \<Rightarrow> nat" where
  "futex_bucket_for uaddr pml4 = unat (pml4 XOR drop_bit 2 uaddr) mod FUTEX_BUCKETS"

definition futex_init :: "futex \<Rightarrow> futex" where
  "futex_init f = f\<lparr>waiters := (\<lambda>b. if b < FUTEX_BUCKETS then [] else waiters f b)\<rparr>"

definition futex_ticks :: "int \<Rightarrow> u32" where
  "futex_ticks ns =
     (if ns \<le> 0 then 0
      else
        let t = ns div FUTEX_TICK_NS;
            t = (if t = 0 then 1 else t);
            t = (if t > FUTEX_MAX_TICKS then FUTEX_MAX_TICKS else t)
        in word_of_int t)"

text \<open>The number of ticks to wait, or an error; \<open>rtc\<close> is the time of the clock chip, \<open>tick\<close> the tick counter.\<close>

definition futex_parse_timeout :: "timespec \<Rightarrow> bool \<Rightarrow> bool \<Rightarrow> int \<Rightarrow> u32 \<Rightarrow> int + u32" where
  "futex_parse_timeout ts absolute realtime rtc tick =
     (let sec = tv_sec ts; nsec = tv_nsec ts in
      if nsec < 0 \<or> nsec \<ge> FUTEX_NS_PER_SEC \<or> sec < 0 then Inl (- EINVAL)
      else
        let sec = (if sec > FUTEX_MAX_DELTA_SEC then FUTEX_MAX_DELTA_SEC else sec);
            ns = (if \<not> absolute then sec * FUTEX_NS_PER_SEC + nsec
                  else
                    let now_sec = (if realtime then rtc else uint tick div PIT_HZ);
                        now_ns = (if realtime then 0 else (uint tick mod PIT_HZ) * FUTEX_TICK_NS)
                    in (sec - now_sec) * FUTEX_NS_PER_SEC + (nsec - now_ns))
        in Inr (futex_ticks ns))"

text \<open>A wait up to the sleep: an error, or the task is queued and blocked.\<close>

definition futex_wait_begin :: "nat \<Rightarrow> nat \<Rightarrow> u32 \<Rightarrow> u32 \<Rightarrow> u32 \<Rightarrow> u32 \<Rightarrow> u32 \<Rightarrow> bool \<Rightarrow> u32 \<Rightarrow> futex \<Rightarrow> int option \<times> futex" where
  "futex_wait_begin c me tick uaddr word val bitset has_timeout ticks f =
     (let p = pml4_phys (task_table (fsched f) me);
          b = futex_bucket_for uaddr p;
          f = f\<lparr>fsched := upd_task me (\<lambda>x. x\<lparr>futex_ready := 0, futex_uaddr := uaddr, futex_pml4 := p, futex_bitset := bitset\<rparr>) (fsched f)\<rparr>
      in if word \<noteq> val then (Some (- EAGAIN), f)
         else if has_timeout \<and> ticks = 0 then (Some (- ETIMEDOUT), f)
         else
           let s = upd_task me (\<lambda>x. x\<lparr>sleep_eintr := 0, sleep_intr := 1\<rparr>) (fsched f);
               s = thread_block_prepare_timed c me TASK_BLOCKED tick (if has_timeout then ticks else 0) s
           in (None, f\<lparr>waiters := (waiters f)(b := waiters f b @ [me]), fsched := s\<rparr>))"

text \<open>The rest of the wait, once the task runs again.\<close>

definition futex_wait_end :: "nat \<Rightarrow> u32 \<Rightarrow> futex \<Rightarrow> int \<times> futex" where
  "futex_wait_end me uaddr f =
     (let b = futex_bucket_for uaddr (futex_pml4 (task_table (fsched f) me));
          ready = futex_ready (task_table (fsched f) me);
          s = upd_task me (\<lambda>x. x\<lparr>sleep_intr := 0, futex_ready := 0\<rparr>) (fsched f);
          f = f\<lparr>fsched := s, waiters := (waiters f)(b := (if me \<in> set (waiters f b) then remove1 me (waiters f b) else waiters f b))\<rparr>;
          f = f\<lparr>fsched := thread_timer_disarm me (fsched f)\<rparr>
      in if ready = 2 then (- ETIMEDOUT, f)
         else if sleep_eintr (task_table (fsched f) me) \<noteq> 0
         then (- EINTR, f\<lparr>fsched := upd_task me (\<lambda>x. x\<lparr>sleep_eintr := 0\<rparr>) (fsched f)\<rparr>)
         else (0, f))"

definition futex_matches :: "u32 \<Rightarrow> u32 \<Rightarrow> u32 \<Rightarrow> sched \<Rightarrow> nat \<Rightarrow> bool" where
  "futex_matches uaddr p bitset s t \<longleftrightarrow>
     (let x = task_table s t in
      futex_uaddr x = uaddr \<and> futex_pml4 x = p \<and> futex_bitset x AND bitset \<noteq> 0 \<and> status_bit (status x) AND TASK_WAKE_MASK \<noteq> 0)"

definition futex_wake_task :: "nat \<Rightarrow> nat \<Rightarrow> nat \<Rightarrow> futex \<Rightarrow> futex" where
  "futex_wake_task c b t f =
     f\<lparr>waiters := (waiters f)(b := remove1 t (waiters f b)),
       fsched := thread_ready c t (upd_task t (\<lambda>x. x\<lparr>futex_ready := 1\<rparr>) (thread_timer_disarm t (fsched f)))\<rparr>"

text \<open>The loop walks the list; the next element is read before the current one is unlinked.\<close>

fun futex_wake_loop :: "nat \<Rightarrow> nat \<Rightarrow> u32 \<Rightarrow> u32 \<Rightarrow> u32 \<Rightarrow> nat \<Rightarrow> nat list \<Rightarrow> int \<Rightarrow> futex \<Rightarrow> int \<times> futex" where
  "futex_wake_loop c me uaddr nr bitset b [] woken f = (woken, f)"
| "futex_wake_loop c me uaddr nr bitset b (t # ts) woken f =
     (if \<not> woken < sint nr then (woken, f)
      else if futex_matches uaddr (pml4_phys (task_table (fsched f) me)) bitset (fsched f) t
      then futex_wake_loop c me uaddr nr bitset b ts (woken + 1) (futex_wake_task c b t f)
      else futex_wake_loop c me uaddr nr bitset b ts woken f)"

definition futex_do_wake :: "nat \<Rightarrow> nat \<Rightarrow> u32 \<Rightarrow> u32 \<Rightarrow> u32 \<Rightarrow> futex \<Rightarrow> int \<times> futex" where
  "futex_do_wake c me uaddr nr bitset f =
     (let b = futex_bucket_for uaddr (pml4_phys (task_table (fsched f) me))
      in futex_wake_loop c me uaddr nr bitset b (waiters f b) 0 f)"

text \<open>
  The system call. \<open>Woke\<close> and \<open>Failed\<close> return to the caller, \<open>Sleeps\<close> is the sleep that \<open>futex_wait_end\<close>
  ends. \<open>mem\<close> reads a user word and \<open>tsm\<close> a time structure.
\<close>

datatype futex_result = Returns int | Sleeps

definition sys_futex :: "nat \<Rightarrow> nat \<Rightarrow> (u32 \<Rightarrow> u32) \<Rightarrow> (u32 \<Rightarrow> timespec) \<Rightarrow> int \<Rightarrow> u32 \<Rightarrow>
    u32 \<Rightarrow> u32 \<Rightarrow> u32 \<Rightarrow> u32 \<Rightarrow> u32 \<Rightarrow> futex \<Rightarrow> futex_result \<times> futex" where
  "sys_futex c me mem tsm rtc tick uaddr op val timeout val3 f =
     (if uaddr = 0 then (Returns (- EINVAL), f)
      else
        let cmd = op AND 0x7f in
        if cmd = 1 then (case futex_do_wake c me uaddr val 0xffffffff f of (n, f) \<Rightarrow> (Returns n, f))
        else if cmd = 10 then
          (if val3 = 0 then (Returns (- EINVAL), f)
           else case futex_do_wake c me uaddr val val3 f of (n, f) \<Rightarrow> (Returns n, f))
        else if cmd = 0 \<or> cmd = 9 then
          (let bitset = (if cmd = 0 then 0xffffffff else val3) in
           if bitset = 0 then (Returns (- EINVAL), f)
           else
             case (if timeout \<noteq> 0 then futex_parse_timeout (tsm timeout) (cmd = 9) (op AND 256 \<noteq> 0) rtc tick else Inr 0) of
               Inl rc \<Rightarrow> (Returns rc, f)
             | Inr ticks \<Rightarrow>
                 (case futex_wait_begin c me tick uaddr (mem uaddr) val bitset (timeout \<noteq> 0) ticks f of
                    (Some rc, f) \<Rightarrow> (Returns rc, f)
                  | (None, f) \<Rightarrow> (Sleeps, f)))
        else (Returns (- ENOSYS), f))"

section \<open>Timeouts\<close>

lemmas futex_consts = FUTEX_NS_PER_SEC_def PIT_HZ_def FUTEX_TICK_NS_def FUTEX_MAX_TICKS_def FUTEX_MAX_DELTA_SEC_def

lemma futex_ticks_bounds:
  shows "ns \<le> 0 \<Longrightarrow> futex_ticks ns = 0" "0 < ns \<Longrightarrow> 0 < futex_ticks ns"
    "0 < ns \<Longrightarrow> uint (futex_ticks ns) * FUTEX_TICK_NS \<le> max ns FUTEX_TICK_NS"
    "0 < ns \<Longrightarrow> ns < (uint (futex_ticks ns) + 1) * FUTEX_TICK_NS \<or> uint (futex_ticks ns) = FUTEX_MAX_TICKS"
proof -
  show "ns \<le> 0 \<Longrightarrow> futex_ticks ns = 0" by (simp add: futex_ticks_def)
  assume ns: "0 < ns"
  define q where "q = ns div 10000000"
  define n where "n = (if q = 0 then 1 else if q > FUTEX_MAX_TICKS then FUTEX_MAX_TICKS else q)"
  have m: "q * 10000000 \<le> ns" "ns < (q + 1) * 10000000"
  proof -
    define r where "r = ns mod 10000000"
    have "q * 10000000 + r = ns" "0 \<le> r" "r < 10000000" by (simp_all add: q_def r_def)
    then show "q * 10000000 \<le> ns" "ns < (q + 1) * 10000000" by (simp_all add: algebra_simps)
  qed
  have z: "0 \<le> q" using ns by (simp add: q_def pos_imp_zdiv_nonneg_iff)
  have n: "0 < n" "n < 4294967296" using z by (auto simp: n_def futex_consts)
  have e: "futex_ticks ns = word_of_int n" using ns by (auto simp: futex_ticks_def n_def q_def futex_consts Let_def)
  have u: "uint (futex_ticks ns) = n" using n by (simp add: e take_bit_int_eq_self unsigned_of_int)
  show "0 < futex_ticks ns" using n(1) u by (simp add: word_less_def)
  show "uint (futex_ticks ns) * FUTEX_TICK_NS \<le> max ns FUTEX_TICK_NS"
    unfolding u using m z by (auto simp: n_def futex_consts)
  show "ns < (uint (futex_ticks ns) + 1) * FUTEX_TICK_NS \<or> uint (futex_ticks ns) = FUTEX_MAX_TICKS"
    unfolding u using m z by (auto simp: n_def futex_consts)
qed

text \<open>The nanoseconds until a timeout; a tick is ten milliseconds.\<close>

definition time_left :: "timespec \<Rightarrow> bool \<Rightarrow> u32 \<Rightarrow> int" where
  "time_left ts absolute tick =
     tv_sec ts * 1000000000 + tv_nsec ts - (if absolute then uint tick * 10000000 else 0)"

text \<open>
  A valid timeout (relative, or absolute on the tick clock) of at most \<open>FUTEX_MAX_DELTA_SEC\<close> seconds
  that is still ahead becomes a positive number of ticks of at most the remaining time (at least one
  tick), and of more than the remaining time less one tick unless the maximum is reached; one that has
  passed becomes zero; no intermediate result leaves the range of \<open>int64_t\<close>; an invalid one is \<open>EINVAL\<close>.
\<close>

lemma futex_timeout_bounds:
  assumes "tv_sec ts \<le> FUTEX_MAX_DELTA_SEC"
  shows "case futex_parse_timeout ts absolute False rtc tick of
      Inl e \<Rightarrow> e = - EINVAL \<and> (tv_sec ts < 0 \<or> tv_nsec ts \<notin> {0..<FUTEX_NS_PER_SEC})
    | Inr n \<Rightarrow> 0 \<le> tv_sec ts \<and> tv_nsec ts \<in> {0..<FUTEX_NS_PER_SEC} \<and> \<bar>time_left ts absolute tick\<bar> < 2 ^ 63 \<and>
        (if time_left ts absolute tick \<le> 0 then n = 0
         else 0 < n \<and> uint n * FUTEX_TICK_NS \<le> max (time_left ts absolute tick) FUTEX_TICK_NS \<and>
           (time_left ts absolute tick < (uint n + 1) * FUTEX_TICK_NS \<or> uint n = FUTEX_MAX_TICKS))"
proof (cases "tv_nsec ts < 0 \<or> tv_nsec ts \<ge> FUTEX_NS_PER_SEC \<or> tv_sec ts < 0")
  case False
  define left where "left = time_left ts absolute tick"
  define k where "k = uint tick"
  have tk: "0 \<le> k" "k < 4294967296" using uint_lt2p [of tick] by (simp_all add: k_def)
  have now: "uint tick div 100 * 1000000000 + uint tick mod 100 * 10000000 = uint tick * 10000000"
    using div_mult_mod_eq [of "uint tick" 100] by linarith
  have ns: "(if \<not> absolute then tv_sec ts * FUTEX_NS_PER_SEC + tv_nsec ts
      else (tv_sec ts - uint tick div PIT_HZ) * FUTEX_NS_PER_SEC + (tv_nsec ts - uint tick mod PIT_HZ * FUTEX_TICK_NS)) = left"
    using now by (simp add: left_def time_left_def futex_consts left_diff_distrib)
  have e: "futex_parse_timeout ts absolute False rtc tick = Inr (futex_ticks left)"
    unfolding ns [symmetric] futex_parse_timeout_def Let_def using False assms by simp
  have "\<bar>left\<bar> < 2 ^ 63"
  proof -
    have "- 42949672960000000 \<le> left" "left \<le> 100000001000000000"
      using False assms tk by (auto simp: left_def time_left_def futex_consts k_def [symmetric])
    then show ?thesis by (simp add: abs_less_iff)
  qed
  then show ?thesis using e False futex_ticks_bounds [of left] by (auto simp: left_def [symmetric])
qed (auto simp: futex_parse_timeout_def Let_def)

text \<open>
  C35. An absolute timeout on the real-time clock always counts as passed: the seconds are clamped to a
  hundred million, as if they were relative, before the present time is subtracted, which has been
  above that bound since 1973.
\<close>

theorem futex_realtime_expired:
  assumes "FUTEX_MAX_DELTA_SEC < rtc" "0 \<le> tv_sec ts" "0 \<le> tv_nsec ts" "tv_nsec ts < FUTEX_NS_PER_SEC"
  shows "futex_parse_timeout ts True True rtc tick = Inr 0"
  using assms by (auto simp: futex_parse_timeout_def futex_ticks_def Let_def futex_consts)

theorem futex_realtime_expired_witness:
  "futex_parse_timeout \<lparr>tv_sec = 1800000000, tv_nsec = 0\<rparr> True True 1700000000 5 = Inr 0"
  by (rule futex_realtime_expired) (simp_all add: futex_consts)

section \<open>Waking\<close>

definition same_wait :: "task \<Rightarrow> task \<Rightarrow> bool" where
  "same_wait x y \<longleftrightarrow> futex_ready y = futex_ready x \<and> futex_uaddr y = futex_uaddr x \<and> futex_pml4 y = futex_pml4 x \<and>
     futex_bitset y = futex_bitset x \<and> pml4_phys y = pml4_phys x \<and> sleep_eintr y = sleep_eintr x"

lemma set_status_other:
  "u \<noteq> t \<Longrightarrow> task_table (set_status c t x s) u = task_table s u" "sleep_bitmap (set_status c t x s) = sleep_bitmap s"
  "same_wait (task_table s u) (task_table (set_status c t x s) u)"
  by (simp_all add: set_status_def Let_def same_wait_def rq_add_def rq_del_def)

lemma place_entity_other:
  "u \<noteq> t \<Longrightarrow> task_table (place_entity c t s) u = task_table s u" "sleep_bitmap (place_entity c t s) = sleep_bitmap s"
  "same_wait (task_table s u) (task_table (place_entity c t s) u)"
  by (simp_all add: place_entity_def Let_def same_wait_def)

lemma enqueue_other:
  "u \<noteq> t \<Longrightarrow> task_table (ready_enqueue c t s) u = task_table s u" "sleep_bitmap (ready_enqueue c t s) = sleep_bitmap s"
  "same_wait (task_table s u) (task_table (ready_enqueue c t s) u)"
proof -
  define s1 where "s1 = (if on_cpu (task_table s t) \<ge> of_nat NR_CPU then upd_task t (\<lambda>x. x\<lparr>on_cpu := of_nat NR_CPU\<rparr>) s else s)"
  define s2 where "s2 = (if status (task_table s t) \<noteq> TASK_RUNNING then place_entity c t s1 else s)"
  define s3 where "s3 = s2\<lparr>ready_bitmap := ready_bitmap s2 OR task_bit t,
      ready_cpu := (\<lambda>k. if k < NR_CPU \<and> aff_of (task_table s2 t) AND push_bit k 1 \<noteq> 0 then ready_cpu s2 k OR task_bit t else ready_cpu s2 k)\<rparr>"
  have e: "ready_enqueue c t s = (if ready_bitmap s AND task_bit t \<noteq> 0 then s else set_status c t TASK_READY s3)"
    unfolding ready_enqueue_def Let_def s3_def s2_def s1_def ..
  have s1: "v \<noteq> t \<Longrightarrow> task_table s1 v = task_table s v" "sleep_bitmap s1 = sleep_bitmap s" "same_wait (task_table s v) (task_table s1 v)" for v
    by (simp_all add: s1_def same_wait_def)
  have s3: "v \<noteq> t \<Longrightarrow> task_table s3 v = task_table s v" "sleep_bitmap s3 = sleep_bitmap s" "same_wait (task_table s v) (task_table s3 v)" for v
    using s1 place_entity_other [where s = s1 and c = c and t = t] by (auto simp: s3_def s2_def same_wait_def)
  show "u \<noteq> t \<Longrightarrow> task_table (ready_enqueue c t s) u = task_table s u" "sleep_bitmap (ready_enqueue c t s) = sleep_bitmap s"
    "same_wait (task_table s u) (task_table (ready_enqueue c t s) u)"
    using s3 set_status_other [where s = s3 and c = c and t = t and x = TASK_READY] by (auto simp: e same_wait_def)
qed

lemma wake_task_effect:
  fixes c b :: nat
  assumes t: "t < 64" "status_bit (status (task_table (fsched f) t)) AND TASK_WAKE_MASK \<noteq> 0" "\<not> bit (ready_bitmap (fsched f)) t"
  defines "f' \<equiv> futex_wake_task c b t f"
  shows "waiters f' = (waiters f)(b := remove1 t (waiters f b))"
    "u \<noteq> t \<Longrightarrow> task_table (fsched f') u = task_table (fsched f) u"
    "pml4_phys (task_table (fsched f') u) = pml4_phys (task_table (fsched f) u) \<and>
       sleep_eintr (task_table (fsched f') u) = sleep_eintr (task_table (fsched f) u)"
    "futex_ready (task_table (fsched f') t) = 1" "status (task_table (fsched f') t) = TASK_READY"
    "bit (ready_bitmap (fsched f')) u \<longleftrightarrow> bit (ready_bitmap (fsched f)) u \<or> u = t"
    "bit (sleep_bitmap (fsched f')) u \<longleftrightarrow> bit (sleep_bitmap (fsched f)) u \<and> u \<noteq> t"
proof -
  define s where "s = upd_task t (\<lambda>x. x\<lparr>futex_ready := 1\<rparr>) (thread_timer_disarm t (fsched f))"
  have s: "u \<noteq> t \<Longrightarrow> task_table s u = task_table (fsched f) u" "ready_bitmap s = ready_bitmap (fsched f)"
    "status (task_table s t) = status (task_table (fsched f) t)" "futex_ready (task_table s t) = 1"
    "pml4_phys (task_table s u) = pml4_phys (task_table (fsched f) u) \<and>
       sleep_eintr (task_table s u) = sleep_eintr (task_table (fsched f) u)"
    "bit (sleep_bitmap s) u \<longleftrightarrow> bit (sleep_bitmap (fsched f)) u \<and> u \<noteq> t" for u
    using t(1) by (auto simp: s_def thread_timer_disarm_def bit_and_iff bit_not_iff dest: bit_imp_le_length)
  have e: "fsched f' = ready_enqueue c t s"
    using t(2) s(3) by (simp add: f'_def futex_wake_task_def thread_ready_def s_def [symmetric])
  show "waiters f' = (waiters f)(b := remove1 t (waiters f b))" by (simp add: f'_def futex_wake_task_def)
  show "u \<noteq> t \<Longrightarrow> task_table (fsched f') u = task_table (fsched f) u" by (simp add: e enqueue_other s)
  show "pml4_phys (task_table (fsched f') u) = pml4_phys (task_table (fsched f) u) \<and>
      sleep_eintr (task_table (fsched f') u) = sleep_eintr (task_table (fsched f) u)" using enqueue_other(3) [of s _ c t] by (simp add: e same_wait_def s)
  show "futex_ready (task_table (fsched f') t) = 1" using enqueue_other(3) [of s _ c t] by (simp add: e same_wait_def s)
  show "status (task_table (fsched f') t) = TASK_READY" using t(3) by (simp add: e ready_enqueue_frame(3) [OF t(1)] s(2))
  show "bit (ready_bitmap (fsched f')) u \<longleftrightarrow> bit (ready_bitmap (fsched f)) u \<or> u = t"
    by (simp add: e ready_enqueue_frame(4) [OF t(1)] s(2))
  show "bit (sleep_bitmap (fsched f')) u \<longleftrightarrow> bit (sleep_bitmap (fsched f)) u \<and> u \<noteq> t" by (simp add: e enqueue_other s)
qed

text \<open>A bucket is well formed: distinct slots, and a task that can be woken is not ready yet.\<close>

definition bucket_ok :: "futex \<Rightarrow> nat list \<Rightarrow> bool" where
  "bucket_ok f ts \<longleftrightarrow> distinct ts \<and> (\<forall>t\<in>set ts. t < 64 \<and>
     (bit (ready_bitmap (fsched f)) t \<longrightarrow> status_bit (status (task_table (fsched f) t)) AND TASK_WAKE_MASK = 0))"

lemma matches_woken: "futex_matches uaddr p bitset s t \<Longrightarrow> status_bit (status (task_table s t)) AND TASK_WAKE_MASK \<noteq> 0"
  by (simp add: futex_matches_def Let_def)

lemma bucket_tl: "bucket_ok f (t # ts) \<Longrightarrow> bucket_ok f ts"
  by (simp add: bucket_ok_def)

lemma wake_task_kept:
  fixes c b :: nat
  assumes b: "bucket_ok f (t # ts)" and m: "futex_matches uaddr p bitset (fsched f) t"
  defines "f' \<equiv> futex_wake_task c b t f"
  shows "bucket_ok f' ts" "filter (futex_matches uaddr p bitset (fsched f')) ts = filter (futex_matches uaddr p bitset (fsched f)) ts"
    "pml4_phys (task_table (fsched f') me) = pml4_phys (task_table (fsched f) me)"
proof -
  have t: "t < 64" "\<not> bit (ready_bitmap (fsched f)) t" "t \<notin> set ts"
    using b matches_woken [OF m] by (auto simp: bucket_ok_def)
  note e = wake_task_effect [OF t(1) matches_woken [OF m] t(2), where c = c and b = b, folded f'_def]
  have o: "task_table (fsched f') u = task_table (fsched f) u" if "u \<in> set ts" for u by (rule e(2)) (use that t(3) in auto)
  show "bucket_ok f' ts" using b t(3) by (auto simp: bucket_ok_def o e(6))
  show "filter (futex_matches uaddr p bitset (fsched f')) ts = filter (futex_matches uaddr p bitset (fsched f)) ts"
    by (rule filter_cong) (simp_all add: futex_matches_def o)
  show "pml4_phys (task_table (fsched f') me) = pml4_phys (task_table (fsched f) me)" using e(3) by blast
qed

lemma wake_loop_fold:
  assumes "bucket_ok f ts" "pml4_phys (task_table (fsched f) me) = p"
  shows "futex_wake_loop c me uaddr nr bitset b ts woken f =
    (let ws = take (nat (sint nr - woken)) (filter (futex_matches uaddr p bitset (fsched f)) ts)
     in (woken + int (length ws), fold (futex_wake_task c b) ws f))"
  using assms
proof (induction ts arbitrary: woken f)
  case (Cons t ts)
  show ?case
  proof (cases "woken < sint nr \<and> futex_matches uaddr p bitset (fsched f) t")
    case True
    then have n: "nat (sint nr - woken) = Suc (nat (sint nr - (woken + 1)))" by linarith
    note k = wake_task_kept [OF Cons.prems(1) conjunct2 [OF True], where c = c and b = b]
    show ?thesis using Cons.IH [OF k(1), of "woken + 1"] k(2,3) True Cons.prems(2) by (simp add: n Let_def)
  next
    case False
    then show ?thesis using Cons.IH [OF bucket_tl [OF Cons.prems(1)] Cons.prems(2)] Cons.prems(2) by (auto simp: Let_def)
  qed
qed simp

text \<open>
  What a wake of the tasks \<open>ws\<close> of bucket \<open>b\<close> does: they leave the bucket, are marked woken, ready and
  without a timer; the order of the others and their records are kept.
\<close>

definition futex_woken :: "nat \<Rightarrow> nat set \<Rightarrow> futex \<Rightarrow> futex \<Rightarrow> bool" where
  "futex_woken b W f f' \<longleftrightarrow>
     waiters f' = (waiters f)(b := filter (\<lambda>t. t \<notin> W) (waiters f b)) \<and>
     (\<forall>u. u \<notin> W \<longrightarrow> task_table (fsched f') u = task_table (fsched f) u) \<and>
     (\<forall>u. sleep_eintr (task_table (fsched f') u) = sleep_eintr (task_table (fsched f) u)) \<and>
     (\<forall>u\<in>W. futex_ready (task_table (fsched f') u) = 1 \<and> status (task_table (fsched f') u) = TASK_READY) \<and>
     (\<forall>u. bit (ready_bitmap (fsched f')) u \<longleftrightarrow> bit (ready_bitmap (fsched f)) u \<or> u \<in> W) \<and>
     (\<forall>u. bit (sleep_bitmap (fsched f')) u \<longleftrightarrow> bit (sleep_bitmap (fsched f)) u \<and> u \<notin> W)"

lemma futex_woken_trans:
  assumes "futex_woken b V f f1" "futex_woken b W f1 f2" "V \<inter> W = {}"
  shows "futex_woken b (V \<union> W) f f2"
proof -
  have "filter (\<lambda>t. t \<notin> W) (filter (\<lambda>t. t \<notin> V) xs) = filter (\<lambda>t. t \<notin> V \<union> W) xs" for xs :: "nat list"
    by (simp add: conj_commute)
  then show ?thesis using assms unfolding futex_woken_def by (auto simp: fun_eq_iff)
qed

lemma wake_fold_woken:
  assumes "bucket_ok f ws" "\<forall>t\<in>set ws. futex_matches uaddr p bitset (fsched f) t" "distinct (waiters f b)"
  shows "futex_woken b (set ws) f (fold (futex_wake_task c b) ws f)"
  using assms
proof (induction ws arbitrary: f)
  case (Cons t ws)
  let ?f = "futex_wake_task c b t f"
  have m: "futex_matches uaddr p bitset (fsched f) t" using Cons.prems(2) by simp
  have t: "t < 64" "\<not> bit (ready_bitmap (fsched f)) t" "t \<notin> set ws"
    using Cons.prems(1) matches_woken [OF m] by (auto simp: bucket_ok_def)
  note e = wake_task_effect [OF t(1) matches_woken [OF m] t(2), where c = c and b = b]
  note k = wake_task_kept [OF Cons.prems(1) m, where c = c and b = b]
  have r: "remove1 t (waiters f b) = filter (\<lambda>u. u \<notin> {t}) (waiters f b)"
    using Cons.prems(3) by (simp add: distinct_remove1_removeAll removeAll_filter_not_eq eq_commute)
  have w: "futex_woken b {t} f ?f" unfolding futex_woken_def r [symmetric] using e by auto
  have a: "\<forall>t\<in>set ws. futex_matches uaddr p bitset (fsched ?f) t"
    using k(2) Cons.prems(2) by (metis filter_id_conv list.set_intros(2))
  have "distinct (waiters ?f b)" using Cons.prems(3) e(1) by simp
  from futex_woken_trans [OF w Cons.IH [OF k(1) a this]] t(3) show ?case by simp
qed (simp add: futex_woken_def)

lemma futex_wake_spec:
  assumes "p = pml4_phys (task_table (fsched f) me)" "b = futex_bucket_for uaddr p" "bucket_ok f (waiters f b)"
    and "ws = take (nat (sint nr)) (filter (futex_matches uaddr p bitset (fsched f)) (waiters f b))"
  shows "fst (futex_do_wake c me uaddr nr bitset f) = int (length ws) \<and>
    futex_woken b (set ws) f (snd (futex_do_wake c me uaddr nr bitset f))"
proof -
  have e: "futex_do_wake c me uaddr nr bitset f = (int (length ws), fold (futex_wake_task c b) ws f)"
    using wake_loop_fold [OF assms(3), of me p] assms(1,2,4) by (simp add: futex_do_wake_def Let_def)
  have s: "set ws \<subseteq> {t \<in> set (waiters f b). futex_matches uaddr p bitset (fsched f) t}"
    using set_take_subset [of _ "filter (futex_matches uaddr p bitset (fsched f)) (waiters f b)"] by (auto simp: assms(4))
  have "distinct ws" using assms(3) by (simp add: assms(4) bucket_ok_def distinct_filter)
  then have "bucket_ok f ws" using s assms(3) by (auto simp: bucket_ok_def)
  then show ?thesis using wake_fold_woken [of f ws uaddr p bitset b c] s assms(3) by (auto simp: e bucket_ok_def)
qed

text \<open>
  C11. A wake of at most \<open>nr\<close> tasks wakes exactly the first \<open>nr\<close> tasks of the bucket, in the order in which
  they went to sleep, that wait for the same word in the same address space with a common bit, and
  returns their number; each is ready, marked as woken and has no timer left, and every other task
  keeps its record and its place.
\<close>

theorem futex_wake_fifo:
  assumes "p = pml4_phys (task_table (fsched f) me)" "b = futex_bucket_for uaddr p" "bucket_ok f (waiters f b)"
    and "ws = take (nat (sint nr)) (filter (futex_matches uaddr p bitset (fsched f)) (waiters f b))"
  shows "fst (futex_do_wake c me uaddr nr bitset f) = int (length ws) \<and>
    futex_woken b (set ws) f (snd (futex_do_wake c me uaddr nr bitset f))"
  by (rule futex_wake_spec [OF assms])

lemma wait_begin_effect:
  assumes w: "futex_wait_begin c me tick uaddr word val bitset has_timeout ticks f = (None, f')" and me: "me < 64"
  defines "p \<equiv> pml4_phys (task_table (fsched f) me)"
  shows "word = val" "waiters f' = (waiters f)(futex_bucket_for uaddr p := waiters f (futex_bucket_for uaddr p) @ [me])"
    "u \<noteq> me \<Longrightarrow> task_table (fsched f') u = task_table (fsched f) u"
    "bit (ready_bitmap (fsched f')) u \<longleftrightarrow> bit (ready_bitmap (fsched f)) u \<and> u \<noteq> me"
    "status (task_table (fsched f') me) = TASK_BLOCKED" "futex_uaddr (task_table (fsched f') me) = uaddr"
    "futex_pml4 (task_table (fsched f') me) = p" "futex_bitset (task_table (fsched f') me) = bitset" "sleep_eintr (task_table (fsched f') me) = 0"
    "pml4_phys (task_table (fsched f') u) = pml4_phys (task_table (fsched f) u)"
proof -
  define s1 where "s1 = upd_task me (\<lambda>x. x\<lparr>sleep_eintr := 0, sleep_intr := 1\<rparr>)
    (upd_task me (\<lambda>x. x\<lparr>futex_ready := 0, futex_uaddr := uaddr, futex_pml4 := p, futex_bitset := bitset\<rparr>) (fsched f))"
  define s2 where "s2 = set_status c me TASK_BLOCKED (ready_remove me s1)"
  have f': "word = val" "waiters f' = (waiters f)(futex_bucket_for uaddr p := waiters f (futex_bucket_for uaddr p) @ [me])"
      "fsched f' = thread_block_prepare_timed c me TASK_BLOCKED tick (if has_timeout then ticks else 0) s1"
    using w by (auto simp: futex_wait_begin_def Let_def p_def s1_def split: if_splits)
  have t: "u \<noteq> me \<Longrightarrow> task_table (fsched f') u = task_table s2 u" "ready_bitmap (fsched f') = ready_bitmap s2"
      "same_wait (task_table s2 u) (task_table (fsched f') u)" "status (task_table (fsched f') u) = status (task_table s2 u)" for u
    by (auto simp: f'(3) thread_block_prepare_timed_def Let_def s2_def arm_timer_def same_wait_def)
  have s1: "u \<noteq> me \<Longrightarrow> task_table s1 u = task_table (fsched f) u" "ready_bitmap s1 = ready_bitmap (fsched f)"
      "pml4_phys (task_table s1 u) = pml4_phys (task_table (fsched f) u)"
      "futex_uaddr (task_table s1 me) = uaddr" "futex_pml4 (task_table s1 me) = p" "futex_bitset (task_table s1 me) = bitset"
      "sleep_eintr (task_table s1 me) = 0" for u
    by (auto simp: s1_def)
  note so = set_status_other [where s = "ready_remove me s1" and c = c and t = me and x = TASK_BLOCKED, folded s2_def]
  note rs = remove_set_status [OF me, where s = s1 and c = c and x = TASK_BLOCKED, folded s2_def]
  have rr: "task_table (ready_remove me s1) = task_table s1" by (simp add: ready_remove_def)
  show "word = val" "waiters f' = (waiters f)(futex_bucket_for uaddr p := waiters f (futex_bucket_for uaddr p) @ [me])"
    using f' by simp_all
  show "u \<noteq> me \<Longrightarrow> task_table (fsched f') u = task_table (fsched f) u" by (simp add: t(1) so(1) rr s1(1))
  show "bit (ready_bitmap (fsched f')) u \<longleftrightarrow> bit (ready_bitmap (fsched f)) u \<and> u \<noteq> me" by (simp add: t(2) rs(3) s1(2))
  show "status (task_table (fsched f') me) = TASK_BLOCKED" by (simp add: t(4) rs(5))
  show "futex_uaddr (task_table (fsched f') me) = uaddr" "futex_pml4 (task_table (fsched f') me) = p"
      "futex_bitset (task_table (fsched f') me) = bitset" "sleep_eintr (task_table (fsched f') me) = 0"
    using t(3) [of me] so(3) [of me] s1(4-7) by (simp_all add: same_wait_def rr)
  show "pml4_phys (task_table (fsched f') u) = pml4_phys (task_table (fsched f) u)"
    using t(3) [of u] so(3) [of u] s1(3) [of u] by (simp add: same_wait_def rr)
qed


text \<open>Two tasks that wait for the word at 64, and a third of the same address space.\<close>

definition sleeper :: task where
  "sleeper = task_zero\<lparr>status := TASK_BLOCKED, futex_uaddr := 64, futex_pml4 := 4096, futex_bitset := - 1, pml4_phys := 4096\<rparr>"

definition sleepers :: futex where
  "sleepers = \<lparr>fsched = thread_main\<lparr>task_table := (\<lambda>_. sleeper)(3 := task_zero\<lparr>pml4_phys := 4096\<rparr>)\<rparr>,
     waiters = (\<lambda>_. [])(16 := [1, 2])\<rparr>"

lemma thread_main_ready: "ready_bitmap thread_main = 0"
  by (simp add: thread_main_def Let_def set_status_def rq_add_def upd_task_def)

lemma bucket_64: "futex_bucket_for 64 4096 = 16"
  by (simp add: futex_bucket_for_def FUTEX_BUCKETS_def)

theorem futex_wake_fifo_witness:
  "fst (futex_do_wake 0 3 64 1 1 sleepers) = 1 \<and> waiters (snd (futex_do_wake 0 3 64 1 1 sleepers)) 16 = [2] \<and>
   status (task_table (fsched (snd (futex_do_wake 0 3 64 1 1 sleepers))) 1) = TASK_READY"
proof -
  have p: "4096 = pml4_phys (task_table (fsched sleepers) 3)" by (simp add: sleepers_def)
  have w: "waiters sleepers 16 = [1, 2]" by (simp add: sleepers_def)
  have ok: "bucket_ok sleepers (waiters sleepers 16)" by (simp add: bucket_ok_def w) (simp add: sleepers_def thread_main_ready)
  have m: "futex_matches 64 4096 1 (fsched sleepers) 1" "futex_matches 64 4096 1 (fsched sleepers) 2"
    by (simp_all add: futex_matches_def sleepers_def sleeper_def TASK_WAKE_MASK_def)
  have "[1] = take (nat (sint (1 :: u32))) (filter (futex_matches 64 4096 1 (fsched sleepers)) (waiters sleepers 16))"
    using m by (simp add: w)
  from futex_wake_fifo [OF p bucket_64 [symmetric] ok this, of 0] show ?thesis by (simp add: futex_woken_def w)
qed


end
