(* ===== verification/Rand.thy ===== *)
theory Rand
  imports Aead
begin

text \<open>
  The random number generator (\<open>src/lib/rand/rand.c\<close>): a ChaCha20 key stream, reseeded after every
  \<open>CHACHA_RESEED_BYTES\<close> bytes from a pool that mixes hardware randomness and time stamps. What the
  hardware delivers to the n-th call of \<open>entropy_get\<close> is the argument \<open>hw n\<close>.
\<close>

section \<open>Model\<close>

definition CHACHA_RESEED_BYTES :: u32 where
  "CHACHA_RESEED_BYTES = push_bit 20 1"

record hw_sample =
  hw_seed :: "nat \<Rightarrow> u64 option"
  hw_rand :: "nat \<Rightarrow> u64 option"
  hw_t0 :: u64
  hw_t1 :: u64
  hw_addr :: u64

record csprng =
  has_rdrand :: bool
  has_rdseed :: bool
  ckey :: "u32 list"
  cnonce :: "u32 list"
  ccounter :: u32
  cbuf :: "u8 list"
  cbuf_pos :: u32
  bytes_left :: u32
  entropy_pool :: u64
  draws :: nat

text \<open>The static variables before \<open>rand_init\<close>; \<open>draws\<close> counts the calls of \<open>entropy_get\<close>.\<close>

definition rand_static :: csprng where
  "rand_static = \<lparr>has_rdrand = False, has_rdseed = False, ckey = replicate 8 0, cnonce = replicate 2 0, ccounter = 0,
     cbuf = replicate 64 0, cbuf_pos = 64, bytes_left = 0, entropy_pool = 0, draws = 0\<rparr>"

text \<open>Ten attempts at the instruction; an attempt may find no value.\<close>

fun hw_loop :: "(nat \<Rightarrow> u64 option) \<Rightarrow> nat list \<Rightarrow> u64 option" where
  "hw_loop at [] = None"
| "hw_loop at (i # is) = (case at i of Some v \<Rightarrow> Some v | None \<Rightarrow> hw_loop at is)"

definition hw_rdrand :: "hw_sample \<Rightarrow> csprng \<Rightarrow> u64 option" where
  "hw_rdrand h st = (if \<not> has_rdrand st then None else hw_loop (hw_rand h) [0..<10])"

definition hw_rdseed :: "hw_sample \<Rightarrow> csprng \<Rightarrow> u64 option" where
  "hw_rdseed h st = (if \<not> has_rdseed st then None else hw_loop (hw_seed h) [0..<10])"

definition mix :: "u64 \<Rightarrow> u64 \<times> u64" where
  "mix x =
     (let x = x + 0x9e3779b97f4a7c15;
          z = (x XOR drop_bit 30 x) * 0xbf58476d1ce4e5b9;
          z = (z XOR drop_bit 27 z) * 0x94d049bb133111eb
      in (z XOR drop_bit 31 z, x))"

definition entropy_add :: "u64 \<Rightarrow> csprng \<Rightarrow> csprng" where
  "entropy_add v st = st\<lparr>entropy_pool := snd (mix (entropy_pool st XOR v))\<rparr>"

definition entropy_get :: "(nat \<Rightarrow> hw_sample) \<Rightarrow> csprng \<Rightarrow> u64 \<times> csprng" where
  "entropy_get hw st =
     (let h = hw (draws st);
          st = st\<lparr>draws := draws st + 1\<rparr>;
          st = (case hw_rdseed h st of Some r \<Rightarrow> entropy_add r st | None \<Rightarrow> st);
          st = (case hw_rdrand h st of Some r \<Rightarrow> entropy_add r st | None \<Rightarrow> st);
          st = entropy_add (hw_t1 h XOR hw_t0 h) st;
          st = entropy_add (hw_addr h) st;
          (z, x) = mix (entropy_pool st)
      in (z, st\<lparr>entropy_pool := x\<rparr>))"

definition rand_rotl32 :: "u32 \<Rightarrow> nat \<Rightarrow> u32" where
  "rand_rotl32 v n = push_bit n v OR drop_bit (32 - n) v"

definition QR :: "nat \<Rightarrow> nat \<Rightarrow> nat \<Rightarrow> nat \<Rightarrow> u32 list \<Rightarrow> u32 list" where
  "QR a b c d x =
     (let x = x[a := x ! a + x ! b]; x = x[d := x ! d XOR x ! a]; x = x[d := rand_rotl32 (x ! d) 16];
          x = x[c := x ! c + x ! d]; x = x[b := x ! b XOR x ! c]; x = x[b := rand_rotl32 (x ! b) 12];
          x = x[a := x ! a + x ! b]; x = x[d := x ! d XOR x ! a]; x = x[d := rand_rotl32 (x ! d) 8];
          x = x[c := x ! c + x ! d]; x = x[b := x ! b XOR x ! c]
      in x[b := rand_rotl32 (x ! b) 7])"

definition rand_round :: "u32 list \<Rightarrow> u32 list" where
  "rand_round x =
     (QR 3 4 9 14 \<circ> QR 2 7 8 13 \<circ> QR 1 6 11 12 \<circ> QR 0 5 10 15 \<circ> QR 3 7 11 15 \<circ> QR 2 6 10 14 \<circ> QR 1 5 9 13 \<circ> QR 0 4 8 12) x"

definition rand_store :: "u32 \<Rightarrow> nat \<Rightarrow> u8 list \<Rightarrow> u8 list" where
  "rand_store v i buf =
     buf[i * 4 := ucast v, i * 4 + 1 := ucast (drop_bit 8 v), i * 4 + 2 := ucast (drop_bit 16 v), i * 4 + 3 := ucast (drop_bit 24 v)]"

definition rand_block :: "csprng \<Rightarrow> csprng" where
  "rand_block st =
     (let s = [0x61707865, 0x3320646e, 0x79622d32, 0x6b206574] @ map ((!) (ckey st)) [0..<8] @
            [ccounter st, cnonce st ! 0, cnonce st ! 1, 0];
          x = (rand_round ^^ 10) s
      in st\<lparr>ccounter := ccounter st + 1, cbuf := fold (\<lambda>i. rand_store (x ! i + s ! i) i) [0..<16] (cbuf st), cbuf_pos := 0\<rparr>)"

definition reseed_key :: "(nat \<Rightarrow> hw_sample) \<Rightarrow> nat \<Rightarrow> csprng \<Rightarrow> csprng" where
  "reseed_key hw i st =
     (case entropy_get hw st of
        (v, st) \<Rightarrow> st\<lparr>ckey := (ckey st)[i * 2 := ucast v, i * 2 + 1 := ucast (drop_bit 32 v)]\<rparr>)"

definition csprng_reseed :: "(nat \<Rightarrow> hw_sample) \<Rightarrow> csprng \<Rightarrow> csprng" where
  "csprng_reseed hw st =
     (let st = fold (reseed_key hw) [0..<4] st;
          (n, st) = entropy_get hw st
      in st\<lparr>cnonce := (cnonce st)[0 := ucast n, 1 := ucast (drop_bit 32 n)], ccounter := 0, cbuf_pos := 64,
            bytes_left := CHACHA_RESEED_BYTES\<rparr>)"

definition csprng_byte :: "(nat \<Rightarrow> hw_sample) \<Rightarrow> csprng \<Rightarrow> u8 \<times> csprng" where
  "csprng_byte hw st =
     (let st = (if bytes_left st = 0 then csprng_reseed hw st else st);
          st = (if cbuf_pos st \<ge> 64 then rand_block st else st)
      in (cbuf st ! unat (cbuf_pos st), st\<lparr>bytes_left := bytes_left st - 1, cbuf_pos := cbuf_pos st + 1\<rparr>))"

text \<open>\<open>ecx1\<close> and \<open>ebx7\<close> are the registers that CPUID delivers, \<open>tsc\<close> is the first time stamp.\<close>

definition rand_init :: "(nat \<Rightarrow> hw_sample) \<Rightarrow> u32 \<Rightarrow> u32 \<Rightarrow> u64 \<Rightarrow> csprng \<Rightarrow> csprng" where
  "rand_init hw ecx1 ebx7 tsc st =
     (csprng_reseed hw ^^ 4) (st\<lparr>has_rdrand := drop_bit 30 ecx1 AND 1 \<noteq> 0, has_rdseed := drop_bit 18 ebx7 AND 1 \<noteq> 0, entropy_pool := tsc\<rparr>)"

fun rand_u64_loop :: "(nat \<Rightarrow> hw_sample) \<Rightarrow> nat list \<Rightarrow> u64 \<Rightarrow> csprng \<Rightarrow> u64 \<times> csprng" where
  "rand_u64_loop hw [] v st = (v, st)"
| "rand_u64_loop hw (i # is) v st =
     (case csprng_byte hw st of (b, st) \<Rightarrow> rand_u64_loop hw is (v OR push_bit (i * 8) (ucast b)) st)"

definition rand_u64 :: "(nat \<Rightarrow> hw_sample) \<Rightarrow> csprng \<Rightarrow> u64 \<times> csprng" where
  "rand_u64 hw st = rand_u64_loop hw [0..<8] 0 st"

definition rand_u32 :: "(nat \<Rightarrow> hw_sample) \<Rightarrow> csprng \<Rightarrow> u32 \<times> csprng" where
  "rand_u32 hw st = (case rand_u64 hw st of (v, st) \<Rightarrow> (ucast (drop_bit 32 v), st))"

fun rand_bytes :: "(nat \<Rightarrow> hw_sample) \<Rightarrow> nat \<Rightarrow> csprng \<Rightarrow> u8 list \<times> csprng" where
  "rand_bytes hw 0 st = ([], st)"
| "rand_bytes hw (Suc n) st =
     (case csprng_byte hw st of (b, st) \<Rightarrow> (case rand_bytes hw n st of (bs, st) \<Rightarrow> (b # bs, st)))"

section \<open>The block is the ChaCha20 block\<close>

lemma QR_eq: "QR = CHACHA_QR"
proof -
  have r: "rand_rotl32 = rotl32" by (simp add: fun_eq_iff rand_rotl32_def rotl32_def)
  show ?thesis unfolding QR_def [abs_def] CHACHA_QR_def [abs_def] r ..
qed

lemma rand_round_eq: "rand_round = chacha20_rounds"
  by (simp add: fun_eq_iff rand_round_def chacha20_rounds_def QR_eq)

text \<open>The nonce of the stream: two random words and a zero word.\<close>

definition rand_nonce :: "csprng \<Rightarrow> u8 list" where
  "rand_nonce st = st32 (cnonce st ! 0) @ st32 (cnonce st ! 1) @ st32 0"

lemma le_val_le_bytes: "le_val (le_bytes n v) = v mod 256 ^ n"
  by (induction n arbitrary: v) (simp_all add: unat_of_nat mod_mult2_eq)

lemma ld32_st32: "ld32 (st32 v @ xs) = v"
proof -
  have "unat (ld32 (st32 v @ xs)) = unat v"
    using unat_bound [of v] by (simp add: unat_ld32 st32_le_bytes le_val_le_bytes)
  then show ?thesis by (simp add: word_unat_eq_iff)
qed

lemma rand_store_fold:
  assumes "length buf = 4 * n + m"
  shows "fold (\<lambda>i. rand_store (f i) i) [0..<n] buf = concat (map (\<lambda>i. st32 (f i)) [0..<n]) @ drop (4 * n) buf"
  using assms
proof (induction n arbitrary: m)
  case (Suc n)
  have l: "length (concat (map (\<lambda>i. st32 (f i)) [0..<n])) = 4 * n" by (simp add: length_concat comp_def st32_def sum_list_triv)
  have "length buf = 4 * n + (4 + m)" using Suc.prems by simp
  note IH = Suc.IH [OF this]
  obtain a b c d r where r: "drop (4 * n) buf = a # b # c # d # r"
  proof -
    define ys where "ys = drop (4 * n) buf"
    have "length ys = Suc (Suc (Suc (Suc m)))" using Suc.prems by (simp add: ys_def)
    then show ?thesis using that [folded ys_def] by (auto simp: length_Suc_conv)
  qed
  have d: "drop (4 * Suc n) buf = r"
  proof -
    have "drop (4 * Suc n) buf = drop 4 (drop (4 * n) buf)" by (simp add: add.commute)
    then show ?thesis by (simp add: r)
  qed
  define xs where "xs = concat (map (\<lambda>i. st32 (f i)) [0..<n])"
  have x: "length xs = 4 * n" using l by (simp add: xs_def)
  have "rand_store v n (xs @ a # b # c # d # r) = xs @ st32 v @ r" for v
    by (simp add: rand_store_def list_update_append x st32_def mult.commute)
  then show ?case unfolding d using r by (simp add: IH xs_def [symmetric])
qed simp

lemma rand_block_chacha:
  assumes "length (cbuf st) = 64"
  shows "rand_block st = st\<lparr>ccounter := ccounter st + 1, cbuf := chacha20_block (ckey st) (ccounter st) (rand_nonce st), cbuf_pos := 0\<rparr>"
proof -
  have n: "ld32 (rand_nonce st) = cnonce st ! 0" "ld32 (drop 4 (rand_nonce st)) = cnonce st ! 1" "ld32 (drop 8 (rand_nonce st)) = 0"
  proof -
    have l: "length (st32 v) = 4" for v by (simp add: st32_def)
    show "ld32 (rand_nonce st) = cnonce st ! 0" "ld32 (drop 4 (rand_nonce st)) = cnonce st ! 1"
      by (simp_all add: rand_nonce_def ld32_st32 l)
    have "drop 8 (rand_nonce st) = st32 0 @ []" by (simp add: rand_nonce_def l)
    then show "ld32 (drop 8 (rand_nonce st)) = 0" by (simp only: ld32_st32)
  qed
  show ?thesis
    using rand_store_fold [of "cbuf st" 16 0] assms
    by (simp add: rand_block_def chacha20_block_def Let_def rand_round_eq n)
qed

section \<open>The stream\<close>

text \<open>
  Byte \<open>i\<close> of the output: the stream is cut into epochs of \<open>2 ^ 20\<close> bytes; each has the key and nonce of
  one more reseeding and is the ChaCha20 key stream from block 0 on.
\<close>

definition rand_spec :: "(nat \<Rightarrow> hw_sample) \<Rightarrow> csprng \<Rightarrow> nat \<Rightarrow> u8" where
  "rand_spec hw st i =
     (let e = (csprng_reseed hw ^^ (i div 2 ^ 20)) st; k = i mod 2 ^ 20
      in chacha20_block (ckey e) (of_nat (k div 64)) (rand_nonce e) ! (k mod 64))"

text \<open>A state inside epoch \<open>e\<close>, \<open>k\<close> bytes of which have been delivered.\<close>

definition same_seed :: "csprng \<Rightarrow> csprng \<Rightarrow> bool" where
  "same_seed e st \<longleftrightarrow> has_rdrand st = has_rdrand e \<and> has_rdseed st = has_rdseed e \<and> ckey st = ckey e \<and>
     cnonce st = cnonce e \<and> entropy_pool st = entropy_pool e \<and> draws st = draws e"

lemma same_seed_refl: "same_seed e e"
  by (simp add: same_seed_def)

definition in_epoch :: "csprng \<Rightarrow> nat \<Rightarrow> csprng \<Rightarrow> bool" where
  "in_epoch e k st \<longleftrightarrow> same_seed e st \<and> length (cbuf st) = 64 \<and> k \<le> 2 ^ 20 \<and> bytes_left st = of_nat (2 ^ 20 - k) \<and>
     ccounter st = of_nat ((k + 63) div 64) \<and>
     (if k mod 64 = 0 then cbuf_pos st = 64
      else cbuf_pos st = of_nat (k mod 64) \<and> cbuf st = chacha20_block (ckey e) (of_nat (k div 64)) (rand_nonce e))"

lemma entropy_add_simps [simp]:
  "has_rdrand (entropy_add v st) = has_rdrand st" "has_rdseed (entropy_add v st) = has_rdseed st"
  "ckey (entropy_add v st) = ckey st" "cnonce (entropy_add v st) = cnonce st" "cbuf (entropy_add v st) = cbuf st"
  "draws (entropy_add v st) = draws st"
  by (simp_all add: entropy_add_def)

lemma same_seed_add: "same_seed e st \<Longrightarrow> same_seed (entropy_add v e) (entropy_add v st)"
  by (simp add: same_seed_def entropy_add_def)

lemma same_seed_hw: "same_seed e st \<Longrightarrow> hw_rdseed h st = hw_rdseed h e \<and> hw_rdrand h st = hw_rdrand h e"
  by (simp add: same_seed_def hw_rdseed_def hw_rdrand_def)

definition entropy_steps :: "hw_sample \<Rightarrow> csprng \<Rightarrow> csprng" where
  "entropy_steps h st =
     (let st = st\<lparr>draws := draws st + 1\<rparr>;
          st = (case hw_rdseed h st of Some r \<Rightarrow> entropy_add r st | None \<Rightarrow> st);
          st = (case hw_rdrand h st of Some r \<Rightarrow> entropy_add r st | None \<Rightarrow> st)
      in entropy_add (hw_addr h) (entropy_add (hw_t1 h XOR hw_t0 h) st))"

lemma entropy_get_steps:
  "entropy_get hw st = (let st' = entropy_steps (hw (draws st)) st in (fst (mix (entropy_pool st')), st'\<lparr>entropy_pool := snd (mix (entropy_pool st'))\<rparr>))"
  by (simp add: entropy_get_def entropy_steps_def Let_def split_beta)

lemma entropy_steps_seed:
  assumes "same_seed e st"
  shows "same_seed (entropy_steps h e) (entropy_steps h st)" "cbuf (entropy_steps h st) = cbuf st"
    "ckey (entropy_steps h st) = ckey st" "cnonce (entropy_steps h st) = cnonce st"
proof -
  have a: "same_seed (e\<lparr>draws := draws e + 1\<rparr>) (st\<lparr>draws := draws st + 1\<rparr>)" using assms by (simp add: same_seed_def)
  have b: "same_seed (case hw_rdseed h x of Some r \<Rightarrow> entropy_add r x | None \<Rightarrow> x)
      (case hw_rdseed h y of Some r \<Rightarrow> entropy_add r y | None \<Rightarrow> y)" if "same_seed x y" for x y
    using that same_seed_hw [OF that, of h] by (auto simp: same_seed_add split: option.splits)
  have c: "same_seed (case hw_rdrand h x of Some r \<Rightarrow> entropy_add r x | None \<Rightarrow> x)
      (case hw_rdrand h y of Some r \<Rightarrow> entropy_add r y | None \<Rightarrow> y)" if "same_seed x y" for x y
    using that same_seed_hw [OF that, of h] by (auto simp: same_seed_add split: option.splits)
  show "same_seed (entropy_steps h e) (entropy_steps h st)"
    unfolding entropy_steps_def Let_def by (intro same_seed_add b c a)
  show "cbuf (entropy_steps h st) = cbuf st" "ckey (entropy_steps h st) = ckey st" "cnonce (entropy_steps h st) = cnonce st"
    by (simp_all add: entropy_steps_def Let_def split: option.split)
qed

lemma entropy_get_seed:
  assumes "same_seed e st"
  shows "fst (entropy_get hw st) = fst (entropy_get hw e)" "same_seed (snd (entropy_get hw e)) (snd (entropy_get hw st))"
    "cbuf (snd (entropy_get hw st)) = cbuf st"
  using entropy_steps_seed [OF assms, of "hw (draws e)"] assms by (simp_all add: entropy_get_steps Let_def same_seed_def)

lemma reseed_key_seed:
  assumes "same_seed e st"
  shows "same_seed (reseed_key hw i e) (reseed_key hw i st)" "cbuf (reseed_key hw i st) = cbuf st"
proof -
  obtain v e' where e: "entropy_get hw e = (v, e')" by (cases "entropy_get hw e")
  obtain w st' where s: "entropy_get hw st = (w, st')" by (cases "entropy_get hw st")
  have g: "w = v" "same_seed e' st'" "cbuf st' = cbuf st" using entropy_get_seed [OF assms, of hw] by (simp_all add: e s)
  show "same_seed (reseed_key hw i e) (reseed_key hw i st)" "cbuf (reseed_key hw i st) = cbuf st"
    using g by (auto simp: reseed_key_def e s same_seed_def)
qed

lemma reseed_fold_seed:
  "same_seed e st \<Longrightarrow> same_seed (fold (reseed_key hw) is e) (fold (reseed_key hw) is st) \<and> cbuf (fold (reseed_key hw) is st) = cbuf st"
proof (induction "is" arbitrary: e st)
  case (Cons i "is")
  show ?case using Cons.IH [OF reseed_key_seed(1) [OF Cons.prems]] reseed_key_seed(2) [OF Cons.prems] by simp
qed simp

lemma reseed_seed:
  assumes "same_seed e st"
  shows "same_seed (csprng_reseed hw e) (csprng_reseed hw st)" "cbuf (csprng_reseed hw st) = cbuf st"
    "ccounter (csprng_reseed hw st) = 0" "cbuf_pos (csprng_reseed hw st) = 64" "bytes_left (csprng_reseed hw st) = of_nat (2 ^ 20)"
proof -
  define e1 st1 where "e1 = fold (reseed_key hw) [0..<4] e" and "st1 = fold (reseed_key hw) [0..<4] st"
  have f: "same_seed e1 st1" "cbuf st1 = cbuf st" using reseed_fold_seed [OF assms] by (simp_all add: e1_def st1_def)
  obtain v e' where e: "entropy_get hw e1 = (v, e')" by (cases "entropy_get hw e1")
  obtain w st' where s: "entropy_get hw st1 = (w, st')" by (cases "entropy_get hw st1")
  have g: "w = v" "same_seed e' st'" "cbuf st' = cbuf st" using entropy_get_seed [OF f(1), of hw] f(2) by (simp_all add: e s)
  have r: "csprng_reseed hw st = st'\<lparr>cnonce := (cnonce st')[0 := ucast w, 1 := ucast (drop_bit 32 w)], ccounter := 0, cbuf_pos := 64,
            bytes_left := CHACHA_RESEED_BYTES\<rparr>"
    "csprng_reseed hw e = e'\<lparr>cnonce := (cnonce e')[0 := ucast v, 1 := ucast (drop_bit 32 v)], ccounter := 0, cbuf_pos := 64,
            bytes_left := CHACHA_RESEED_BYTES\<rparr>"
    by (simp_all add: csprng_reseed_def st1_def [symmetric] e1_def [symmetric] s e)
  show "same_seed (csprng_reseed hw e) (csprng_reseed hw st)" using g by (auto simp: r same_seed_def)
  show "cbuf (csprng_reseed hw st) = cbuf st" "ccounter (csprng_reseed hw st) = 0" "cbuf_pos (csprng_reseed hw st) = 64"
      "bytes_left (csprng_reseed hw st) = of_nat (2 ^ 20)"
    using g by (simp_all add: r CHACHA_RESEED_BYTES_def)
qed

lemma reseed_epoch:
  assumes "same_seed e st" "length (cbuf st) = 64"
  shows "in_epoch (csprng_reseed hw e) 0 (csprng_reseed hw st)"
  using assms reseed_seed [OF assms(1), of hw] by (simp add: in_epoch_def)

lemma of_nat_u32_eq: "a < 2 ^ 32 \<Longrightarrow> b < 2 ^ 32 \<Longrightarrow> (of_nat a :: u32) = of_nat b \<longleftrightarrow> a = b"
  by (simp add: word_of_nat_eq_iff take_bit_nat_eq_self)

lemma epoch_div: "r < 64 \<Longrightarrow> (64 * q + r) div 64 = q" "r < 64 \<Longrightarrow> (64 * q + r) mod 64 = r"
    "r < 64 \<Longrightarrow> (64 * q + r + 63) div 64 = (if r = 0 then q else Suc q)" for q r :: nat
proof -
  assume r: "r < 64"
  then show a: "(64 * q + r) div 64 = q" "(64 * q + r) mod 64 = r" by simp_all
  show "(64 * q + r + 63) div 64 = (if r = 0 then q else Suc q)"
  proof (cases "r = 0")
    case False
    then have "64 * q + r + 63 = 64 * Suc q + (r - 1)" "r - 1 < 64" using r by simp_all
    then show ?thesis using False by (metis div_mult_self4 div_less add_0_right mult.commute zero_neq_numeral)
  qed simp
qed

lemma in_epoch_iff:
  assumes "r < 64"
  shows "in_epoch e (64 * q + r) st \<longleftrightarrow> same_seed e st \<and> length (cbuf st) = 64 \<and> 64 * q + r \<le> 2 ^ 20 \<and>
     bytes_left st = of_nat (2 ^ 20 - (64 * q + r)) \<and> ccounter st = of_nat (if r = 0 then q else Suc q) \<and>
     (if r = 0 then cbuf_pos st = 64
      else cbuf_pos st = of_nat r \<and> cbuf st = chacha20_block (ckey e) (of_nat q) (rand_nonce e))"
  unfolding in_epoch_def epoch_div [OF assms] ..

lemma byte_epoch:
  assumes "in_epoch e (64 * q + r) st" "64 * q + r < 2 ^ 20" "r < 64"
  shows "fst (csprng_byte hw st) = chacha20_block (ckey e) (of_nat q) (rand_nonce e) ! r \<and>
    in_epoch e (64 * q + Suc r) (snd (csprng_byte hw st))"
proof -
  define m where "m = 2 ^ 20 - (64 * q + Suc r)"
  have m: "2 ^ 20 - (64 * q + r) = Suc m" "Suc m < 2 ^ 32" using assms(2) by (simp_all add: m_def)
  note i = assms(1) [unfolded in_epoch_iff [OF assms(3)] m(1)]
  have seed: "same_seed e st" "length (cbuf st) = 64" and left: "bytes_left st = of_nat (Suc m)" using i by simp_all
  have nz: "bytes_left st \<noteq> 0" using of_nat_u32_eq [OF m(2), of 0] unfolding left by simp
  have dec: "bytes_left st - 1 = of_nat m" unfolding left by simp
  have nonce: "rand_nonce st = rand_nonce e" "ckey st = ckey e" using seed(1) by (simp_all add: rand_nonce_def same_seed_def)
  let ?b = "chacha20_block (ckey e) (of_nat q) (rand_nonce e)"
  have b: "csprng_byte hw st = (?b ! r, st\<lparr>ccounter := of_nat (Suc q), cbuf := ?b, cbuf_pos := of_nat (Suc r), bytes_left := of_nat m\<rparr>)"
  proof (cases "r = 0")
    case True
    then show ?thesis using i nz dec
      by (simp add: csprng_byte_def Let_def rand_block_chacha [OF seed(2)] nonce add.commute)
  next
    case False
    then have p: "cbuf_pos st = of_nat r" "cbuf st = ?b" "ccounter st = of_nat (Suc q)" using i by simp_all
    have u: "unat (of_nat r :: u32) = r" using assms(3) by (simp add: unat_of_nat)
    have np: "\<not> 64 \<le> cbuf_pos st" using assms(3) u by (simp add: p(1) word_le_nat_alt)
    show ?thesis using nz np dec u p by (simp add: csprng_byte_def Let_def add.commute)
  qed
  have "in_epoch e (64 * q + Suc r) (snd (csprng_byte hw st))"
  proof (cases "r = 63")
    case True
    have "in_epoch e (64 * Suc q + 0) (snd (csprng_byte hw st))"
      using True assms(2) seed unfolding b by (subst in_epoch_iff) (simp_all add: same_seed_def m_def length_chacha20_block)
    then show ?thesis using True by (simp add: add.commute)
  next
    case False
    then show ?thesis using assms seed unfolding b
      by (subst in_epoch_iff) (simp_all add: same_seed_def m_def length_chacha20_block)
  qed
  then show ?thesis by (simp add: b)
qed

lemma byte_in_epoch:
  assumes "in_epoch e k st" "k < 2 ^ 20"
  shows "fst (csprng_byte hw st) = chacha20_block (ckey e) (of_nat (k div 64)) (rand_nonce e) ! (k mod 64)"
    "in_epoch e (Suc k) (snd (csprng_byte hw st))"
  using byte_epoch [of e "k div 64" "k mod 64" st hw] assms by simp_all

text \<open>A state from which \<open>i\<close> bytes have been delivered since \<open>s0\<close>.\<close>

definition at_pos :: "(nat \<Rightarrow> hw_sample) \<Rightarrow> csprng \<Rightarrow> nat \<Rightarrow> csprng \<Rightarrow> bool" where
  "at_pos hw s0 i st \<longleftrightarrow> (\<exists>e k. i = e * 2 ^ 20 + k \<and> in_epoch ((csprng_reseed hw ^^ e) s0) k st)"

lemma byte_at_pos:
  assumes "at_pos hw s0 i st"
  shows "fst (csprng_byte hw st) = rand_spec hw s0 i" "at_pos hw s0 (Suc i) (snd (csprng_byte hw st))"
proof -
  obtain e k where e: "i = e * 2 ^ 20 + k" "in_epoch ((csprng_reseed hw ^^ e) s0) k st" using assms by (auto simp: at_pos_def)
  obtain e' k' st' where e': "i = e' * 2 ^ 20 + k'" "k' < 2 ^ 20" "in_epoch ((csprng_reseed hw ^^ e') s0) k' st'"
      "csprng_byte hw st = csprng_byte hw st'"
  proof (cases "k < 2 ^ 20")
    case False
    then have k: "k = 2 ^ 20" "bytes_left st = 0" using e(2) by (simp_all add: in_epoch_def)
    have r: "in_epoch (csprng_reseed hw ((csprng_reseed hw ^^ e) s0)) 0 (csprng_reseed hw st)"
      using e(2) by (intro reseed_epoch) (simp_all add: in_epoch_def)
    then have "bytes_left (csprng_reseed hw st) \<noteq> 0" by (simp add: in_epoch_def)
    then have "csprng_byte hw st = csprng_byte hw (csprng_reseed hw st)" using k(2) by (simp add: csprng_byte_def)
    then show ?thesis using that [of "Suc e" 0 "csprng_reseed hw st"] e(1) k(1) r by simp
  qed (use e that in blast)
  have q: "i div 2 ^ 20 = e'" "i mod 2 ^ 20 = k'" using e'(1,2) by simp_all
  note b = byte_in_epoch [OF e'(3,2), of hw]
  show "fst (csprng_byte hw st) = rand_spec hw s0 i" using b(1) q e'(4) by (simp add: rand_spec_def Let_def)
  have "Suc i = e' * 2 ^ 20 + Suc k'" using e'(1) by simp
  then show "at_pos hw s0 (Suc i) (snd (csprng_byte hw st))" using b(2) e'(4) unfolding at_pos_def by metis
qed

lemma rand_bytes_at_pos:
  "at_pos hw s0 i st \<Longrightarrow> fst (rand_bytes hw n st) = map (rand_spec hw s0) [i..<i + n] \<and> at_pos hw s0 (i + n) (snd (rand_bytes hw n st))"
proof (induction n arbitrary: i st)
  case (Suc n)
  note b = byte_at_pos [OF Suc.prems]
  have "[i..<i + Suc n] = i # [Suc i..<Suc i + n]" by (simp add: upt_rec)
  then show ?case using b(1) Suc.IH [OF b(2)] by (simp add: split_beta)
qed simp

lemma rand_init_pos:
  "at_pos hw (rand_init hw ecx1 ebx7 tsc rand_static) 0 (rand_init hw ecx1 ebx7 tsc rand_static)"
proof -
  have c: "cbuf ((csprng_reseed hw ^^ n) st) = cbuf st" for n st
    by (induction n) (simp_all add: reseed_seed(2) [where e = st] reseed_seed(2) [OF same_seed_refl])
  show ?thesis
    unfolding at_pos_def
  proof (intro exI [of _ 0] conjI)
    let ?x = "(csprng_reseed hw ^^ 3) (rand_static\<lparr>has_rdrand := drop_bit 30 ecx1 AND 1 \<noteq> 0,
        has_rdseed := drop_bit 18 ebx7 AND 1 \<noteq> 0, entropy_pool := tsc\<rparr>)"
    have i: "rand_init hw ecx1 ebx7 tsc rand_static = csprng_reseed hw ?x" by (simp add: rand_init_def eval_nat_numeral)
    have "length (cbuf ?x) = 64" by (simp add: c) (simp add: rand_static_def)
    then show "in_epoch ((csprng_reseed hw ^^ 0) (rand_init hw ecx1 ebx7 tsc rand_static)) 0 (rand_init hw ecx1 ebx7 tsc rand_static)"
      using reseed_epoch [OF same_seed_refl] by (simp add: i)
  qed simp
qed


end
