(* ===== verification/X25519.thy ===== *)
theory X25519
  imports Limbs
begin

text \<open>
  The key agreement function of \<open>src/lib/crypto/x25519.c\<close>. A field element is five limbs of 51 bits in 64-bit words.
  Every operation reads its arguments before it stores the limbs that depend on them, so an output array may be one of
  the arguments, and operations are functions on limb vectors.
\<close>

section \<open>Field elements\<close>

datatype fe = Fe u64 u64 u64 u64 u64

definition MASK51 :: "'a::len word" where
  "MASK51 = 0x7ffffffffffff"

definition load64 :: "u8 list \<Rightarrow> u64" where
  "load64 s =
     ucast (s ! 0) OR push_bit 8 (ucast (s ! 1)) OR push_bit 16 (ucast (s ! 2)) OR push_bit 24 (ucast (s ! 3)) OR
     push_bit 32 (ucast (s ! 4)) OR push_bit 40 (ucast (s ! 5)) OR push_bit 48 (ucast (s ! 6)) OR push_bit 56 (ucast (s ! 7))"

definition fe_frombytes :: "u8 list \<Rightarrow> fe" where
  "fe_frombytes s =
     Fe (load64 s AND MASK51)
        (drop_bit 3 (load64 (drop 6 s)) AND MASK51)
        (drop_bit 6 (load64 (drop 12 s)) AND MASK51)
        (drop_bit 1 (load64 (drop 19 s)) AND MASK51)
        (drop_bit 12 (load64 (drop 24 s)) AND MASK51)"

text \<open>The two parts of \<open>fe_tobytes\<close>: the reduction, and the stores.\<close>

primrec fe_reduce :: "fe \<Rightarrow> fe" where
  "fe_reduce (Fe h0 h1 h2 h3 h4) =
     (let q = drop_bit 51 (h0 + 19);
          q = drop_bit 51 (h1 + q);
          q = drop_bit 51 (h2 + q);
          q = drop_bit 51 (h3 + q);
          q = drop_bit 51 (h4 + q);
          h0 = h0 + 19 * q;
          h1 = h1 + drop_bit 51 h0; h0 = h0 AND MASK51;
          h2 = h2 + drop_bit 51 h1; h1 = h1 AND MASK51;
          h3 = h3 + drop_bit 51 h2; h2 = h2 AND MASK51;
          h4 = h4 + drop_bit 51 h3; h3 = h3 AND MASK51;
          h0 = h0 + drop_bit 51 h4 * 19; h4 = h4 AND MASK51;
          h1 = h1 + drop_bit 51 h0; h0 = h0 AND MASK51
      in Fe h0 h1 h2 h3 h4)"

primrec fe_store :: "fe \<Rightarrow> u8 list" where
  "fe_store (Fe h0 h1 h2 h3 h4) =
     [ucast h0, ucast (drop_bit 8 h0), ucast (drop_bit 16 h0), ucast (drop_bit 24 h0), ucast (drop_bit 32 h0), ucast (drop_bit 40 h0),
      ucast (drop_bit 48 h0 OR push_bit 3 h1), ucast (drop_bit 5 h1), ucast (drop_bit 13 h1), ucast (drop_bit 21 h1),
      ucast (drop_bit 29 h1), ucast (drop_bit 37 h1),
      ucast (drop_bit 45 h1 OR push_bit 6 h2), ucast (drop_bit 2 h2), ucast (drop_bit 10 h2), ucast (drop_bit 18 h2),
      ucast (drop_bit 26 h2), ucast (drop_bit 34 h2), ucast (drop_bit 42 h2),
      ucast (drop_bit 50 h2 OR push_bit 1 h3), ucast (drop_bit 7 h3), ucast (drop_bit 15 h3), ucast (drop_bit 23 h3),
      ucast (drop_bit 31 h3), ucast (drop_bit 39 h3),
      ucast (drop_bit 47 h3 OR push_bit 4 h4), ucast (drop_bit 4 h4), ucast (drop_bit 12 h4), ucast (drop_bit 20 h4),
      ucast (drop_bit 28 h4), ucast (drop_bit 36 h4), ucast (drop_bit 44 h4)]"

definition fe_tobytes :: "fe \<Rightarrow> u8 list" where
  "fe_tobytes h = fe_store (fe_reduce h)"

fun fe_add :: "fe \<Rightarrow> fe \<Rightarrow> fe" where
  "fe_add (Fe f0 f1 f2 f3 f4) (Fe g0 g1 g2 g3 g4) = Fe (f0 + g0) (f1 + g1) (f2 + g2) (f3 + g3) (f4 + g4)"

fun fe_sub :: "fe \<Rightarrow> fe \<Rightarrow> fe" where
  "fe_sub (Fe f0 f1 f2 f3 f4) (Fe g0 g1 g2 g3 g4) =
     Fe (f0 + push_bit 1 MASK51 - 36 - g0) (f1 + push_bit 1 MASK51 - g1) (f2 + push_bit 1 MASK51 - g2)
        (f3 + push_bit 1 MASK51 - g3) (f4 + push_bit 1 MASK51 - g4)"

text \<open>The carries at the end of both multiplications; \<open>c\<close> is a 64-bit variable.\<close>

definition fe_carry :: "128 word \<Rightarrow> 128 word \<Rightarrow> 128 word \<Rightarrow> 128 word \<Rightarrow> 128 word \<Rightarrow> fe" where
  "fe_carry r0 r1 r2 r3 r4 =
     (let r1 = r1 + ucast (ucast (drop_bit 51 r0) :: u64); r0 = r0 AND MASK51;
          r2 = r2 + ucast (ucast (drop_bit 51 r1) :: u64); r1 = r1 AND MASK51;
          r3 = r3 + ucast (ucast (drop_bit 51 r2) :: u64); r2 = r2 AND MASK51;
          r4 = r4 + ucast (ucast (drop_bit 51 r3) :: u64); r3 = r3 AND MASK51;
          c = (ucast (drop_bit 51 r4) :: u64); r4 = r4 AND MASK51;
          r0 = r0 + 19 * ucast c;
          c = (ucast (drop_bit 51 r0) :: u64); r0 = r0 AND MASK51;
          r1 = r1 + ucast c
      in Fe (ucast r0) (ucast r1) (ucast r2) (ucast r3) (ucast r4))"

definition mul5 :: "u64 \<Rightarrow> u64 \<Rightarrow> u64 \<Rightarrow> u64 \<Rightarrow> u64 \<Rightarrow> u64 \<Rightarrow> u64 \<Rightarrow> u64 \<Rightarrow> u64 \<Rightarrow> u64 \<Rightarrow> 128 word" where
  "mul5 a0 b0 a1 b1 a2 b2 a3 b3 a4 b4 =
     ucast a0 * ucast b0 + ucast a1 * ucast b1 + ucast a2 * ucast b2 + ucast a3 * ucast b3 + ucast a4 * ucast b4"

definition fe_mul :: "fe \<Rightarrow> fe \<Rightarrow> fe" where
  "fe_mul f g =
     (case (f, g) of (Fe f0 f1 f2 f3 f4, Fe g0 g1 g2 g3 g4) \<Rightarrow>
      let g1_19 = 19 * g1; g2_19 = 19 * g2; g3_19 = 19 * g3; g4_19 = 19 * g4
      in fe_carry
           (mul5 f0 g0 f1 g4_19 f2 g3_19 f3 g2_19 f4 g1_19)
           (mul5 f0 g1 f1 g0 f2 g4_19 f3 g3_19 f4 g2_19)
           (mul5 f0 g2 f1 g1 f2 g0 f3 g4_19 f4 g3_19)
           (mul5 f0 g3 f1 g2 f2 g1 f3 g0 f4 g4_19)
           (mul5 f0 g4 f1 g3 f2 g2 f3 g1 f4 g0))"

definition fe_sq :: "fe \<Rightarrow> fe" where
  "fe_sq f = fe_mul f f"

primrec fe_mul121665 :: "fe \<Rightarrow> fe" where
  "fe_mul121665 (Fe f0 f1 f2 f3 f4) =
     fe_carry (ucast f0 * 121665) (ucast f1 * 121665) (ucast f2 * 121665) (ucast f3 * 121665) (ucast f4 * 121665)"

definition fe_invert :: "fe \<Rightarrow> fe" where
  "fe_invert z =
     (let t0 = fe_sq z;
          t1 = fe_sq t0;
          t1 = fe_sq t1;
          t1 = fe_mul z t1;
          t0 = fe_mul t0 t1;
          t2 = fe_sq t0;
          t1 = fe_mul t1 t2;
          t2 = fe_sq t1;
          t2 = (fe_sq ^^ 4) t2;
          t1 = fe_mul t2 t1;
          t2 = fe_sq t1;
          t2 = (fe_sq ^^ 9) t2;
          t2 = fe_mul t2 t1;
          t3 = fe_sq t2;
          t3 = (fe_sq ^^ 19) t3;
          t2 = fe_mul t3 t2;
          t2 = fe_sq t2;
          t2 = (fe_sq ^^ 9) t2;
          t1 = fe_mul t2 t1;
          t2 = fe_sq t1;
          t2 = (fe_sq ^^ 49) t2;
          t2 = fe_mul t2 t1;
          t3 = fe_sq t2;
          t3 = (fe_sq ^^ 99) t3;
          t2 = fe_mul t3 t2;
          t2 = fe_sq t2;
          t2 = (fe_sq ^^ 49) t2;
          t1 = fe_mul t2 t1;
          t1 = fe_sq t1;
          t1 = (fe_sq ^^ 4) t1
      in fe_mul t1 t0)"

definition cswap_limb :: "u64 \<Rightarrow> u64 \<Rightarrow> u64 \<Rightarrow> u64 \<times> u64" where
  "cswap_limb m f g = (let x = (f XOR g) AND m in (f XOR x, g XOR x))"

definition fe_cswap :: "fe \<Rightarrow> fe \<Rightarrow> u64 \<Rightarrow> fe \<times> fe" where
  "fe_cswap f g b =
     (case (f, g) of (Fe f0 f1 f2 f3 f4, Fe g0 g1 g2 g3 g4) \<Rightarrow>
      let m = 0 - b;
          (f0, g0) = cswap_limb m f0 g0;
          (f1, g1) = cswap_limb m f1 g1;
          (f2, g2) = cswap_limb m f2 g2;
          (f3, g3) = cswap_limb m f3 g3;
          (f4, g4) = cswap_limb m f4 g4
      in (Fe f0 f1 f2 f3 f4, Fe g0 g1 g2 g3 g4))"

section \<open>The ladder\<close>

definition x25519_clamp :: "u8 list \<Rightarrow> u8 list" where
  "x25519_clamp scalar =
     (let e = take 32 scalar;
          e = e[0 := e ! 0 AND 248];
          e = e[31 := e ! 31 AND 127]
      in e[31 := e ! 31 OR 64])"

record ladder =
  x2 :: fe
  z2 :: fe
  x3 :: fe
  z3 :: fe
  swap :: u64

definition ladder_swap :: "ladder \<Rightarrow> ladder" where
  "ladder_swap s =
     (case fe_cswap (x2 s) (x3 s) (swap s) of (a, b) \<Rightarrow>
        case fe_cswap (z2 s) (z3 s) (swap s) of (c, d) \<Rightarrow> s\<lparr>x2 := a, x3 := b, z2 := c, z3 := d\<rparr>)"

definition ladder_step :: "u8 list \<Rightarrow> fe \<Rightarrow> nat \<Rightarrow> ladder \<Rightarrow> ladder" where
  "ladder_step e x1 tbit s =
     (let kt = ucast (drop_bit (tbit mod 8) (e ! (tbit div 8))) AND 1;
          s = ladder_swap (s\<lparr>swap := swap s XOR kt\<rparr>);
          a = fe_add (x2 s) (z2 s);
          aa = fe_sq a;
          b = fe_sub (x2 s) (z2 s);
          bb = fe_sq b;
          ee = fe_sub aa bb;
          c = fe_add (x3 s) (z3 s);
          d = fe_sub (x3 s) (z3 s);
          da = fe_mul d a;
          cb = fe_mul c b;
          t = fe_add da cb;
          x3' = fe_sq t;
          t = fe_sub da cb;
          t = fe_sq t;
          z3' = fe_mul x1 t;
          x2' = fe_mul aa bb;
          t = fe_mul121665 ee;
          t = fe_add aa t
      in \<lparr>x2 = x2', z2 = fe_mul ee t, x3 = x3', z3 = z3', swap = kt\<rparr>)"

definition x25519 :: "u8 list \<Rightarrow> u8 list \<Rightarrow> u8 list" where
  "x25519 scalar point =
     (let e = x25519_clamp scalar;
          x1 = fe_frombytes point;
          s = \<lparr>x2 = Fe 1 0 0 0 0, z2 = Fe 0 0 0 0 0, x3 = x1, z3 = Fe 1 0 0 0 0, swap = 0\<rparr>;
          s = fold (ladder_step e x1) (rev [0..<255]) s;
          s = ladder_swap s
      in fe_tobytes (fe_mul (x2 s) (fe_invert (z2 s))))"

definition x25519_base :: "u8 list \<Rightarrow> u8 list" where
  "x25519_base scalar = x25519 scalar ((replicate 32 0)[0 := 9])"

section \<open>Values\<close>

definition P25519 :: nat where
  "P25519 = 2 ^ 255 - 19"

fun fval :: "fe \<Rightarrow> nat" where
  "fval (Fe a b c d e) = unat a + 2 ^ 51 * unat b + 2 ^ 102 * unat c + 2 ^ 153 * unat d + 2 ^ 204 * unat e"

fun limbs_below :: "nat \<Rightarrow> fe \<Rightarrow> bool" where
  "limbs_below n (Fe a b c d e) \<longleftrightarrow> unat a < n \<and> unat b < n \<and> unat c < n \<and> unat d < n \<and> unat e < n"

text \<open>Results of multiplications are tight; sums and differences of tight elements are loose.\<close>

abbreviation tight :: "fe \<Rightarrow> bool" where
  "tight \<equiv> limbs_below (2 ^ 51 + 2 ^ 20)"

abbreviation loose :: "fe \<Rightarrow> bool" where
  "loose \<equiv> limbs_below (2 ^ 54)"

text \<open>What the carries of a multiplication leave: only limb 1 may have a 52nd bit.\<close>

fun carried :: "fe \<Rightarrow> bool" where
  "carried (Fe a b c d e) \<longleftrightarrow>
     unat a < 2 ^ 51 \<and> unat b < 2 ^ 51 + 2 ^ 20 \<and> unat c < 2 ^ 51 \<and> unat d < 2 ^ 51 \<and> unat e < 2 ^ 51"

lemma carried_tight: "carried f \<Longrightarrow> tight f"
  by (cases f) simp

lemma tight_loose: "tight f \<Longrightarrow> loose f"
  by (cases f) auto

lemma mask51: "(MASK51 :: 'a::len word) = mask 51"
  by (simp add: MASK51_def mask_eq_exp_minus_1)

lemma mod51: "x mod 2 ^ 51 < (2 :: nat) ^ 51"
  by simp

lemma fe_add_ok:
  assumes "tight f" "tight g"
  shows "loose (fe_add f g)" "fval (fe_add f g) = fval f + fval g"
proof -
  obtain f0 f1 f2 f3 f4 g0 g1 g2 g3 g4 where f: "f = Fe f0 f1 f2 f3 f4" "g = Fe g0 g1 g2 g3 g4" by (cases f, cases g)
  have "unat (x + y) = unat x + unat y" if "unat x < 2 ^ 51 + 2 ^ 20" "unat y < 2 ^ 51 + 2 ^ 20" for x y :: u64
    using that by (intro unat_add_ok) simp
  then show "loose (fe_add f g)" "fval (fe_add f g) = fval f + fval g" using assms f by (simp_all add: distrib_left)
qed

lemma limb_sub:
  fixes x y k :: u64
  assumes "unat x < 2 ^ 51 + 2 ^ 20" "unat y < 2 ^ 51 + 2 ^ 20" "unat k \<le> 36"
  shows "unat (x + push_bit 1 MASK51 - k - y) = unat x + (2 ^ 52 - 2) - unat k - unat y"
proof -
  have "push_bit 1 MASK51 = (2 ^ 52 - 2 :: u64)" by (simp add: MASK51_def)
  then have m: "unat (push_bit 1 MASK51 :: u64) = 2 ^ 52 - 2" by simp
  have a: "unat (x + push_bit 1 MASK51) = unat x + (2 ^ 52 - 2)" using assms m by (subst unat_add_ok) simp_all
  have "k \<le> x + push_bit 1 MASK51" using a assms by (simp add: word_le_nat_alt)
  then have b: "unat (x + push_bit 1 MASK51 - k) = unat x + (2 ^ 52 - 2) - unat k" using a by (simp add: unat_sub)
  have "y \<le> x + push_bit 1 MASK51 - k" using b assms by (simp add: word_le_nat_alt)
  then show ?thesis using b by (simp add: unat_sub)
qed

lemma fe_sub_ok:
  assumes "tight f" "tight g"
  shows "loose (fe_sub f g)" "fval (fe_sub f g) + fval g = fval f + 2 * P25519" "fval (fe_sub f g) > 0"
proof -
  obtain f0 f1 f2 f3 f4 g0 g1 g2 g3 g4 where f: "f = Fe f0 f1 f2 f3 f4" "g = Fe g0 g1 g2 g3 g4" by (cases f, cases g)
  have z: "x + push_bit 1 MASK51 - y = x + push_bit 1 MASK51 - 0 - y" for x y :: u64 by simp
  note l = limb_sub [of _ _ 36, simplified] limb_sub [of _ _ 0, simplified]
  show "loose (fe_sub f g)" "fval (fe_sub f g) + fval g = fval f + 2 * P25519" "fval (fe_sub f g) > 0"
    using assms f by (auto simp: l P25519_def)
qed

end
