(* ===== verification/X25519_Fe.thy ===== *)
theory X25519_Fe
  imports X25519
begin

text \<open>
  The multiplications of \<open>src/lib/crypto/x25519.c\<close> against arithmetic modulo \<open>2 ^ 255 - 19\<close>: no product, sum or carry wraps,
  results are tight, and a result is the zero vector only if a factor is.
\<close>

section \<open>Carries\<close>

lemma carry5_lin:
  fixes R0 R1 R2 R3 R4 c0 c1 c2 c3 c4 c5 m0 m1 m2 m3 m4 n0 :: nat
  assumes "R0 = c0 * 2 ^ 51 + m0" "R1 + c0 = c1 * 2 ^ 51 + m1" "R2 + c1 = c2 * 2 ^ 51 + m2" "R3 + c2 = c3 * 2 ^ 51 + m3"
    "R4 + c3 = c4 * 2 ^ 51 + m4" "m0 + 19 * c4 = c5 * 2 ^ 51 + n0"
  shows "R0 + 2 ^ 51 * R1 + 2 ^ 102 * R2 + 2 ^ 153 * R3 + 2 ^ 204 * R4 =
    n0 + 2 ^ 51 * (m1 + c5) + 2 ^ 102 * m2 + 2 ^ 153 * m3 + 2 ^ 204 * m4 + c4 * P25519"
  using assms unfolding P25519_def by simp

lemma unat_chop: "unat (r :: 128 word) < 2 ^ 115 \<Longrightarrow> unat (ucast (ucast (drop_bit 51 r) :: u64) :: 128 word) = unat r div 2 ^ 51"
proof -
  assume "unat r < 2 ^ 115"
  then have "unat r div 2 ^ 51 < 2 ^ 64" by (simp add: less_mult_imp_div_less)
  then show ?thesis by (simp add: unat_ucast_up unat_ucast_mod)
qed

text \<open>One carry step: \<open>c\<close> is the carry out of \<open>r\<close>.\<close>

lemma carry_step:
  fixes r r' :: "128 word"
  assumes "unat r < 2 ^ 115" "unat r' < 95 * 2 ^ 108 + 1"
  shows "unat (r' + ucast (ucast (drop_bit 51 r) :: u64)) = unat r' + unat r div 2 ^ 51" "unat r' + unat r div 2 ^ 51 < 2 ^ 115"
proof -
  have "unat r div 2 ^ 51 < 2 ^ 64" using assms(1) by (simp add: less_mult_imp_div_less)
  then show "unat r' + unat r div 2 ^ 51 < 2 ^ 115" using assms(2) by simp
  then show "unat (r' + ucast (ucast (drop_bit 51 r) :: u64)) = unat r' + unat r div 2 ^ 51"
    using unat_chop [OF assms(1)] by (subst unat_add_ok) simp_all
qed

lemma unat_and51: "unat (r AND MASK51 :: 128 word) = unat r mod 2 ^ 51"
  by (simp only: mask51 unat_and_mask)

lemma unat_low64: "unat (r :: 128 word) < 2 ^ 64 \<Longrightarrow> unat (ucast r :: u64) = unat r"
  by (simp add: unat_ucast_mod)

lemma add128: "unat (a :: 128 word) = x \<Longrightarrow> unat b = y \<Longrightarrow> x + y < 2 ^ 128 \<Longrightarrow> unat (a + b) = x + y"
  by (simp add: unat_add_ok)

lemma carry_zero: "a + 2 ^ 51 * (b + c) + x + y + w = 0 \<Longrightarrow> a = 0 \<and> c = 0" and mult_19: "19 * c = 0 \<Longrightarrow> c = 0"
  for a b c x y w :: nat
  by simp_all

lemma fold_carry:
  fixes r s :: "128 word"
  assumes "unat s < 2 ^ 115"
  shows "unat ((r AND MASK51) + 19 * ucast (ucast (drop_bit 51 s) :: u64)) = unat r mod 2 ^ 51 + 19 * (unat s div 2 ^ 51)"
    and "unat r mod 2 ^ 51 + 19 * (unat s div 2 ^ 51) < 2 ^ 51 + 19 * 2 ^ 64"
proof -
  define c where "c = unat s div 2 ^ 51"
  define m where "m = unat r mod 2 ^ 51"
  have c: "c < 2 ^ 64" unfolding c_def using assms by (simp add: less_mult_imp_div_less)
  have m: "m < 2 ^ 51" unfolding m_def by (rule mod51)
  have "unat (19 * ucast (ucast (drop_bit 51 s) :: u64) :: 128 word) = 19 * c"
    using c unat_chop [OF assms] by (subst unat_mult_ok) (simp_all add: c_def)
  then have "unat ((r AND MASK51) + 19 * ucast (ucast (drop_bit 51 s) :: u64)) = m + 19 * c"
    using c m by (intro add128) (simp_all add: unat_and51 m_def)
  then show "unat ((r AND MASK51) + 19 * ucast (ucast (drop_bit 51 s) :: u64)) = unat r mod 2 ^ 51 + 19 * (unat s div 2 ^ 51)"
    by (simp only: c_def m_def)
  have "m + 19 * c < 2 ^ 51 + 19 * 2 ^ 64" using c m by simp
  then show "unat r mod 2 ^ 51 + 19 * (unat s div 2 ^ 51) < 2 ^ 51 + 19 * 2 ^ 64" by (simp only: c_def m_def)
qed

text \<open>The whole chain, with the carries as numbers.\<close>

lemma fe_carry_ok:
  assumes "unat r0 \<le> 95 * 2 ^ 108" "unat r1 \<le> 95 * 2 ^ 108" "unat r2 \<le> 95 * 2 ^ 108" "unat r3 \<le> 95 * 2 ^ 108" "unat r4 \<le> 95 * 2 ^ 108"
  shows "\<exists>c. unat r0 + 2 ^ 51 * unat r1 + 2 ^ 102 * unat r2 + 2 ^ 153 * unat r3 + 2 ^ 204 * unat r4 = fval (fe_carry r0 r1 r2 r3 r4) + c * P25519 \<and>
      (fval (fe_carry r0 r1 r2 r3 r4) = 0 \<longrightarrow> c = 0)"
    and "carried (fe_carry r0 r1 r2 r3 r4)"
proof -
  define s1 where "s1 = r1 + ucast (ucast (drop_bit 51 r0) :: u64)"
  define s2 where "s2 = r2 + ucast (ucast (drop_bit 51 s1) :: u64)"
  define s3 where "s3 = r3 + ucast (ucast (drop_bit 51 s2) :: u64)"
  define s4 where "s4 = r4 + ucast (ucast (drop_bit 51 s3) :: u64)"
  define t0 where "t0 = (r0 AND MASK51) + 19 * ucast (ucast (drop_bit 51 s4) :: u64)"
  define t1 where "t1 = (s1 AND MASK51) + ucast (ucast (drop_bit 51 t0) :: u64)"
  have e: "fe_carry r0 r1 r2 r3 r4 = Fe (ucast (t0 AND MASK51)) (ucast t1) (ucast (s2 AND MASK51)) (ucast (s3 AND MASK51)) (ucast (s4 AND MASK51))"
    unfolding fe_carry_def Let_def s1_def s2_def s3_def s4_def t0_def t1_def by (rule refl)
  have b0: "unat r0 < 2 ^ 115" by (rule order.strict_trans1 [OF assms(1)]) simp
  note k1 = carry_step [OF b0 le_imp_less_Suc [OF assms(2), unfolded Suc_eq_plus1]]
  have 1: "unat s1 = unat r1 + unat r0 div 2 ^ 51" unfolding s1_def by (rule k1(1))
  have l1: "unat s1 < 2 ^ 115" unfolding 1 by (rule k1(2))
  note k2 = carry_step [OF l1 le_imp_less_Suc [OF assms(3), unfolded Suc_eq_plus1]]
  have 2: "unat s2 = unat r2 + unat s1 div 2 ^ 51" unfolding s2_def by (rule k2(1))
  have l2: "unat s2 < 2 ^ 115" unfolding 2 by (rule k2(2))
  note k3 = carry_step [OF l2 le_imp_less_Suc [OF assms(4), unfolded Suc_eq_plus1]]
  have 3: "unat s3 = unat r3 + unat s2 div 2 ^ 51" unfolding s3_def by (rule k3(1))
  have l3: "unat s3 < 2 ^ 115" unfolding 3 by (rule k3(2))
  note k4 = carry_step [OF l3 le_imp_less_Suc [OF assms(5), unfolded Suc_eq_plus1]]
  have 4: "unat s4 = unat r4 + unat s3 div 2 ^ 51" unfolding s4_def by (rule k4(1))
  have l4: "unat s4 < 2 ^ 115" unfolding 4 by (rule k4(2))
  have 5: "unat t0 = unat r0 mod 2 ^ 51 + 19 * (unat s4 div 2 ^ 51)" unfolding t0_def by (rule fold_carry(1) [OF l4])
  have t0: "unat t0 < 2 ^ 51 + 19 * 2 ^ 64" unfolding 5 by (rule fold_carry(2) [OF l4])
  have "unat t0 < 2 ^ 20 * 2 ^ 51" by (rule order.strict_trans [OF t0]) simp
  then have c5: "unat t0 div 2 ^ 51 < 2 ^ 20" by (rule less_mult_imp_div_less)
  have "unat t0 < 2 ^ 115" by (rule order.strict_trans [OF t0]) simp
  note ch = unat_chop [OF this]
  have t1: "unat s1 mod 2 ^ 51 + unat t0 div 2 ^ 51 < 2 ^ 51 + 2 ^ 20" by (rule add_strict_mono [OF mod51 c5])
  have 6: "unat t1 = unat s1 mod 2 ^ 51 + unat t0 div 2 ^ 51"
    unfolding t1_def by (rule add128 [OF unat_and51 ch order.strict_trans [OF t1]]) simp
  have m: "x mod 2 ^ 51 < (2 :: nat) ^ 64" for x :: nat
    using mod51 [of x] by (rule order.strict_trans2) simp
  have v: "unat (ucast (x AND MASK51 :: 128 word) :: u64) = unat x mod 2 ^ 51" for x
    using unat_low64 [of "x AND MASK51"] m [of "unat x"] unfolding unat_and51 by blast
  have v1: "unat (ucast t1 :: u64) = unat t1" unfolding 6 [symmetric] by (rule unat_low64 [OF order.strict_trans [OF t1 [folded 6]]]) simp
  show "carried (fe_carry r0 r1 r2 r3 r4)" unfolding e carried.simps v v1 6 by (intro conjI mod51 t1)
  have f: "fval (fe_carry r0 r1 r2 r3 r4) = unat t0 mod 2 ^ 51 + 2 ^ 51 * (unat s1 mod 2 ^ 51 + unat t0 div 2 ^ 51) + 2 ^ 102 * (unat s2 mod 2 ^ 51) +
      2 ^ 153 * (unat s3 mod 2 ^ 51) + 2 ^ 204 * (unat s4 mod 2 ^ 51)"
    unfolding e fval.simps v v1 6 ..
  have tot: "unat r0 + 2 ^ 51 * unat r1 + 2 ^ 102 * unat r2 + 2 ^ 153 * unat r3 + 2 ^ 204 * unat r4 =
      fval (fe_carry r0 r1 r2 r3 r4) + (unat s4 div 2 ^ 51) * P25519"
    unfolding f by (rule carry5_lin [where ?c0.0 = "unat r0 div 2 ^ 51" and ?m0.0 = "unat r0 mod 2 ^ 51" and ?c1.0 = "unat s1 div 2 ^ 51" and
        ?c2.0 = "unat s2 div 2 ^ 51" and ?c3.0 = "unat s3 div 2 ^ 51"])
      (simp_all only: div_mult_mod_eq 1 [symmetric] 2 [symmetric] 3 [symmetric] 4 [symmetric] 5 [symmetric])
  have zr: "unat s4 div 2 ^ 51 = 0" if "fval (fe_carry r0 r1 r2 r3 r4) = 0"
  proof -
    have "unat t0 mod 2 ^ 51 = 0 \<and> unat t0 div 2 ^ 51 = 0" using that unfolding f by (rule carry_zero)
    then have "unat t0 = 0" using div_mult_mod_eq [of "unat t0" "2 ^ 51"] by (simp only: mult_0 add_0)
    then have "19 * (unat s4 div 2 ^ 51) = 0" using 5 by (simp only: add_is_0)
    then show ?thesis by (rule mult_19)
  qed
  show "\<exists>c. unat r0 + 2 ^ 51 * unat r1 + 2 ^ 102 * unat r2 + 2 ^ 153 * unat r3 + 2 ^ 204 * unat r4 = fval (fe_carry r0 r1 r2 r3 r4) + c * P25519 \<and>
      (fval (fe_carry r0 r1 r2 r3 r4) = 0 \<longrightarrow> c = 0)"
    by (intro exI [of _ "unat s4 div 2 ^ 51"] conjI tot impI zr)
qed

section \<open>Multiplication\<close>

lemma mul_bound: "a < 2 ^ 54 \<Longrightarrow> b < 19 * 2 ^ 54 \<Longrightarrow> a * b \<le> 19 * 2 ^ 108" for a b :: nat
  using mult_le_mono [of a "2 ^ 54" b "19 * 2 ^ 54"] by simp

lemma unat_mul5:
  assumes "unat a0 < 2 ^ 54" "unat a1 < 2 ^ 54" "unat a2 < 2 ^ 54" "unat a3 < 2 ^ 54" "unat a4 < 2 ^ 54"
    and "unat b0 < 19 * 2 ^ 54" "unat b1 < 19 * 2 ^ 54" "unat b2 < 19 * 2 ^ 54" "unat b3 < 19 * 2 ^ 54" "unat b4 < 19 * 2 ^ 54"
  shows "unat (mul5 a0 b0 a1 b1 a2 b2 a3 b3 a4 b4) =
      unat a0 * unat b0 + unat a1 * unat b1 + unat a2 * unat b2 + unat a3 * unat b3 + unat a4 * unat b4"
    and "unat (mul5 a0 b0 a1 b1 a2 b2 a3 b3 a4 b4) \<le> 95 * 2 ^ 108"
proof -
  have u: "unat (ucast x :: 128 word) = unat x" for x :: u64 by (simp add: unat_ucast_up)
  have p: "unat (ucast a * ucast b :: 128 word) = unat a * unat b" if "unat a * unat b \<le> 19 * 2 ^ 108" for a b :: u64
    using that by (subst unat_mult_ok) (simp_all add: u)
  note m = mul_bound [OF assms(1,6)] mul_bound [OF assms(2,7)] mul_bound [OF assms(3,8)] mul_bound [OF assms(4,9)] mul_bound [OF assms(5,10)]
  define A where "A = unat a0 * unat b0"
  define B where "B = unat a1 * unat b1"
  define C where "C = unat a2 * unat b2"
  define D where "D = unat a3 * unat b3"
  define F where "F = unat a4 * unat b4"
  note n = m [folded A_def B_def C_def D_def F_def]
  note q = p [OF m(1), folded A_def] p [OF m(2), folded B_def] p [OF m(3), folded C_def] p [OF m(4), folded D_def] p [OF m(5), folded F_def]
  have "unat (mul5 a0 b0 a1 b1 a2 b2 a3 b3 a4 b4) = A + B + C + D + F"
    unfolding mul5_def by (intro add128 q) (use n in simp_all)
  then show "unat (mul5 a0 b0 a1 b1 a2 b2 a3 b3 a4 b4) =
      unat a0 * unat b0 + unat a1 * unat b1 + unat a2 * unat b2 + unat a3 * unat b3 + unat a4 * unat b4"
    "unat (mul5 a0 b0 a1 b1 a2 b2 a3 b3 a4 b4) \<le> 95 * 2 ^ 108"
    using n unfolding A_def B_def C_def D_def F_def by simp_all
qed

text \<open>The limbs of the product, with the wrap factor 19 for \<open>2 ^ 255\<close>.\<close>

lemma mul_lin:
  fixes a0 a1 a2 a3 a4 b0 b1 b2 b3 b4 :: nat
  defines "H \<equiv> (a1 * b4 + a2 * b3 + a3 * b2 + a4 * b1) + 2 ^ 51 * (a2 * b4 + a3 * b3 + a4 * b2) + 2 ^ 102 * (a3 * b4 + a4 * b3) + 2 ^ 153 * (a4 * b4)"
  shows "(a0 + 2 ^ 51 * a1 + 2 ^ 102 * a2 + 2 ^ 153 * a3 + 2 ^ 204 * a4) * (b0 + 2 ^ 51 * b1 + 2 ^ 102 * b2 + 2 ^ 153 * b3 + 2 ^ 204 * b4) =
    (a0 * b0 + a1 * (19 * b4) + a2 * (19 * b3) + a3 * (19 * b2) + a4 * (19 * b1)) +
    2 ^ 51 * (a0 * b1 + a1 * b0 + a2 * (19 * b4) + a3 * (19 * b3) + a4 * (19 * b2)) +
    2 ^ 102 * (a0 * b2 + a1 * b1 + a2 * b0 + a3 * (19 * b4) + a4 * (19 * b3)) +
    2 ^ 153 * (a0 * b3 + a1 * b2 + a2 * b1 + a3 * b0 + a4 * (19 * b4)) +
    2 ^ 204 * (a0 * b4 + a1 * b3 + a2 * b2 + a3 * b1 + a4 * b0) + H * P25519"
proof -
  have p: "H * P25519 + 19 * H = 2 ^ 255 * H" by (simp add: P25519_def)
  have "(a0 + 2 ^ 51 * a1 + 2 ^ 102 * a2 + 2 ^ 153 * a3 + 2 ^ 204 * a4) * (b0 + 2 ^ 51 * b1 + 2 ^ 102 * b2 + 2 ^ 153 * b3 + 2 ^ 204 * b4) + 19 * H =
    (a0 * b0 + a1 * (19 * b4) + a2 * (19 * b3) + a3 * (19 * b2) + a4 * (19 * b1)) +
    2 ^ 51 * (a0 * b1 + a1 * b0 + a2 * (19 * b4) + a3 * (19 * b3) + a4 * (19 * b2)) +
    2 ^ 102 * (a0 * b2 + a1 * b1 + a2 * b0 + a3 * (19 * b4) + a4 * (19 * b3)) +
    2 ^ 153 * (a0 * b3 + a1 * b2 + a2 * b1 + a3 * b0 + a4 * (19 * b4)) +
    2 ^ 204 * (a0 * b4 + a1 * b3 + a2 * b2 + a3 * b1 + a4 * b0) + 2 ^ 255 * H"
    unfolding H_def by (simp add: algebra_simps)
  then show ?thesis using p by linarith
qed

lemma products_zero:
  fixes a0 a1 a2 a3 a4 b0 b1 b2 b3 b4 :: nat
  assumes "a0 * b0 + a1 * (19 * b4) + a2 * (19 * b3) + a3 * (19 * b2) + a4 * (19 * b1) = 0"
    "a0 * b1 + a1 * b0 + a2 * (19 * b4) + a3 * (19 * b3) + a4 * (19 * b2) = 0"
    "a0 * b2 + a1 * b1 + a2 * b0 + a3 * (19 * b4) + a4 * (19 * b3) = 0"
    "a0 * b3 + a1 * b2 + a2 * b1 + a3 * b0 + a4 * (19 * b4) = 0"
    "a0 * b4 + a1 * b3 + a2 * b2 + a3 * b1 + a4 * b0 = 0"
  shows "a0 = 0 \<and> a1 = 0 \<and> a2 = 0 \<and> a3 = 0 \<and> a4 = 0 \<or> b0 = 0 \<and> b1 = 0 \<and> b2 = 0 \<and> b3 = 0 \<and> b4 = 0"
proof -
  have "b0 = 0 \<and> b1 = 0 \<and> b2 = 0 \<and> b3 = 0 \<and> b4 = 0" if "a0 \<noteq> 0" using assms that by simp
  moreover have "b0 = 0 \<and> b1 = 0 \<and> b2 = 0 \<and> b3 = 0 \<and> b4 = 0" if "a1 \<noteq> 0" using assms that by simp
  moreover have "b0 = 0 \<and> b1 = 0 \<and> b2 = 0 \<and> b3 = 0 \<and> b4 = 0" if "a2 \<noteq> 0" using assms that by simp
  moreover have "b0 = 0 \<and> b1 = 0 \<and> b2 = 0 \<and> b3 = 0 \<and> b4 = 0" if "a3 \<noteq> 0" using assms that by simp
  moreover have "b0 = 0 \<and> b1 = 0 \<and> b2 = 0 \<and> b3 = 0 \<and> b4 = 0" if "a4 \<noteq> 0" using assms that by simp
  ultimately show ?thesis by argo
qed

lemma sum_zero5: "a + 2 ^ 51 * b + 2 ^ 102 * c + 2 ^ 153 * d + 2 ^ 204 * e = 0 \<longleftrightarrow> a = 0 \<and> b = 0 \<and> c = 0 \<and> d = 0 \<and> e = 0"
  for a b c d e :: nat
  by simp

lemma mul_value:
  fixes a0 a1 a2 a3 a4 b0 b1 b2 b3 b4 :: nat
  assumes "\<exists>c. a0 * b0 + a1 * (19 * b4) + a2 * (19 * b3) + a3 * (19 * b2) + a4 * (19 * b1) +
    2 ^ 51 * (a0 * b1 + a1 * b0 + a2 * (19 * b4) + a3 * (19 * b3) + a4 * (19 * b2)) +
    2 ^ 102 * (a0 * b2 + a1 * b1 + a2 * b0 + a3 * (19 * b4) + a4 * (19 * b3)) +
    2 ^ 153 * (a0 * b3 + a1 * b2 + a2 * b1 + a3 * b0 + a4 * (19 * b4)) +
    2 ^ 204 * (a0 * b4 + a1 * b3 + a2 * b2 + a3 * b1 + a4 * b0) = v + c * P25519 \<and> (v = 0 \<longrightarrow> c = 0)"
  shows "\<exists>c. (a0 + 2 ^ 51 * a1 + 2 ^ 102 * a2 + 2 ^ 153 * a3 + 2 ^ 204 * a4) * (b0 + 2 ^ 51 * b1 + 2 ^ 102 * b2 + 2 ^ 153 * b3 + 2 ^ 204 * b4) = v + c * P25519"
    and "v = 0 \<Longrightarrow> a0 + 2 ^ 51 * a1 + 2 ^ 102 * a2 + 2 ^ 153 * a3 + 2 ^ 204 * a4 = 0 \<or> b0 + 2 ^ 51 * b1 + 2 ^ 102 * b2 + 2 ^ 153 * b3 + 2 ^ 204 * b4 = 0"
proof -
  obtain c where c: "a0 * b0 + a1 * (19 * b4) + a2 * (19 * b3) + a3 * (19 * b2) + a4 * (19 * b1) +
    2 ^ 51 * (a0 * b1 + a1 * b0 + a2 * (19 * b4) + a3 * (19 * b3) + a4 * (19 * b2)) +
    2 ^ 102 * (a0 * b2 + a1 * b1 + a2 * b0 + a3 * (19 * b4) + a4 * (19 * b3)) +
    2 ^ 153 * (a0 * b3 + a1 * b2 + a2 * b1 + a3 * b0 + a4 * (19 * b4)) +
    2 ^ 204 * (a0 * b4 + a1 * b3 + a2 * b2 + a3 * b1 + a4 * b0) = v + c * P25519" "v = 0 \<longrightarrow> c = 0"
    using assms by (elim exE conjE) (rule that)
  show "\<exists>c. (a0 + 2 ^ 51 * a1 + 2 ^ 102 * a2 + 2 ^ 153 * a3 + 2 ^ 204 * a4) * (b0 + 2 ^ 51 * b1 + 2 ^ 102 * b2 + 2 ^ 153 * b3 + 2 ^ 204 * b4) = v + c * P25519"
    unfolding mul_lin c(1) add.assoc [of v] add_mult_distrib [symmetric] by (rule exI) (rule refl)
  assume "v = 0"
  then have "v + c * P25519 = 0" using c(2) by simp
  note z = this [folded c(1), unfolded sum_zero5]
  note products_zero [OF z [THEN conjunct1] z [THEN conjunct2, THEN conjunct1] z [THEN conjunct2, THEN conjunct2, THEN conjunct1]
    z [THEN conjunct2, THEN conjunct2, THEN conjunct2, THEN conjunct1] z [THEN conjunct2, THEN conjunct2, THEN conjunct2, THEN conjunct2]]
  then show "a0 + 2 ^ 51 * a1 + 2 ^ 102 * a2 + 2 ^ 153 * a3 + 2 ^ 204 * a4 = 0 \<or> b0 + 2 ^ 51 * b1 + 2 ^ 102 * b2 + 2 ^ 153 * b3 + 2 ^ 204 * b4 = 0"
    unfolding sum_zero5 .
qed

lemma fe_mul_ok:
  assumes "loose f" "loose g"
  shows "carried (fe_mul f g)" and "\<exists>c. fval f * fval g = fval (fe_mul f g) + c * P25519"
    and "fval (fe_mul f g) = 0 \<Longrightarrow> fval f = 0 \<or> fval g = 0"
proof -
  obtain f0 f1 f2 f3 f4 g0 g1 g2 g3 g4 where f: "f = Fe f0 f1 f2 f3 f4" "g = Fe g0 g1 g2 g3 g4" by (cases f, cases g)
  have b: "unat f0 < 2 ^ 54" "unat f1 < 2 ^ 54" "unat f2 < 2 ^ 54" "unat f3 < 2 ^ 54" "unat f4 < 2 ^ 54"
    "unat g0 < 2 ^ 54" "unat g1 < 2 ^ 54" "unat g2 < 2 ^ 54" "unat g3 < 2 ^ 54" "unat g4 < 2 ^ 54" using assms f by auto
  have u: "unat (19 * x) = 19 * unat x" "unat (19 * x) < 19 * 2 ^ 54" "unat x < 19 * 2 ^ 54" if "unat x < 2 ^ 54" for x :: u64
  proof -
    show e: "unat (19 * x) = 19 * unat x" using that by (subst unat_mult_ok) simp_all
    show "unat (19 * x) < 19 * 2 ^ 54" "unat x < 19 * 2 ^ 54" unfolding e using that by simp_all
  qed
  note m = u(1) [OF b(7)] u(1) [OF b(8)] u(1) [OF b(9)] u(1) [OF b(10)]
  note p0 = unat_mul5 [OF b(1-5) u(3) [OF b(6)] u(2) [OF b(10)] u(2) [OF b(9)] u(2) [OF b(8)] u(2) [OF b(7)]]
  note p1 = unat_mul5 [OF b(1-5) u(3) [OF b(7)] u(3) [OF b(6)] u(2) [OF b(10)] u(2) [OF b(9)] u(2) [OF b(8)]]
  note p2 = unat_mul5 [OF b(1-5) u(3) [OF b(8)] u(3) [OF b(7)] u(3) [OF b(6)] u(2) [OF b(10)] u(2) [OF b(9)]]
  note p3 = unat_mul5 [OF b(1-5) u(3) [OF b(9)] u(3) [OF b(8)] u(3) [OF b(7)] u(3) [OF b(6)] u(2) [OF b(10)]]
  note p4 = unat_mul5 [OF b(1-5) u(3) [OF b(10)] u(3) [OF b(9)] u(3) [OF b(8)] u(3) [OF b(7)] u(3) [OF b(6)]]
  note c = fe_carry_ok [OF p0(2) p1(2) p2(2) p3(2) p4(2)]
  have e: "fe_mul f g = fe_carry (mul5 f0 g0 f1 (19 * g4) f2 (19 * g3) f3 (19 * g2) f4 (19 * g1))
      (mul5 f0 g1 f1 g0 f2 (19 * g4) f3 (19 * g3) f4 (19 * g2)) (mul5 f0 g2 f1 g1 f2 g0 f3 (19 * g4) f4 (19 * g3))
      (mul5 f0 g3 f1 g2 f2 g1 f3 g0 f4 (19 * g4)) (mul5 f0 g4 f1 g3 f2 g2 f3 g1 f4 g0)"
    by (simp add: f fe_mul_def Let_def)
  show "carried (fe_mul f g)" unfolding e by (rule c(2))
  note k = c(1) [unfolded p0(1) p1(1) p2(1) p3(1) p4(1) m, folded e]
  note z = mul_value [OF k, folded fval.simps, folded f]
  show "\<exists>c. fval f * fval g = fval (fe_mul f g) + c * P25519" by (rule z(1))
  show "fval (fe_mul f g) = 0 \<Longrightarrow> fval f = 0 \<or> fval g = 0" by (rule z(2))
qed

lemma fe_mul121665_ok:
  assumes "loose f"
  shows "carried (fe_mul121665 f)" and "\<exists>c. 121665 * fval f = fval (fe_mul121665 f) + c * P25519"
    and "fval (fe_mul121665 f) = 0 \<Longrightarrow> fval f = 0"
proof -
  obtain f0 f1 f2 f3 f4 where f: "f = Fe f0 f1 f2 f3 f4" by (cases f)
  have u: "unat (ucast x * 121665 :: 128 word) = unat x * 121665" "unat (ucast x * 121665 :: 128 word) \<le> 95 * 2 ^ 108" if "unat x < 2 ^ 54" for x :: u64
  proof -
    have "unat (ucast x :: 128 word) = unat x" by (simp add: unat_ucast_up)
    then show e: "unat (ucast x * 121665 :: 128 word) = unat x * 121665" using that by (subst unat_mult_ok) simp_all
    show "unat (ucast x * 121665 :: 128 word) \<le> 95 * 2 ^ 108" unfolding e using that by simp
  qed
  have b: "unat f0 < 2 ^ 54" "unat f1 < 2 ^ 54" "unat f2 < 2 ^ 54" "unat f3 < 2 ^ 54" "unat f4 < 2 ^ 54" using assms f by auto
  note c = fe_carry_ok [OF u(2) [OF b(1)] u(2) [OF b(2)] u(2) [OF b(3)] u(2) [OF b(4)] u(2) [OF b(5)], folded fe_mul121665.simps, folded f]
  show "carried (fe_mul121665 f)" by (rule c(2))
  have l: "a * 121665 + 2 ^ 51 * (b * 121665) + 2 ^ 102 * (c * 121665) + 2 ^ 153 * (d * 121665) + 2 ^ 204 * (e * 121665) =
    121665 * (a + 2 ^ 51 * b + 2 ^ 102 * c + 2 ^ 153 * d + 2 ^ 204 * e)" for a b c d e :: nat by simp
  obtain k where k: "121665 * fval f = fval (fe_mul121665 f) + k * P25519" "fval (fe_mul121665 f) = 0 \<longrightarrow> k = 0"
    using c(1) unfolding u(1) [OF b(1)] u(1) [OF b(2)] u(1) [OF b(3)] u(1) [OF b(4)] u(1) [OF b(5)] l
    unfolding fval.simps [symmetric] f [symmetric] by (elim exE conjE) (rule that)
  then show "\<exists>c. 121665 * fval f = fval (fe_mul121665 f) + c * P25519" by blast
  show "fval (fe_mul121665 f) = 0 \<Longrightarrow> fval f = 0" using k by simp
qed

end
