(* ===== verification/X25519_Bytes.thy ===== *)
theory X25519_Bytes
  imports X25519
begin

text \<open>
  The byte strings of \<open>src/lib/crypto/x25519.c\<close>: \<open>fe_frombytes\<close> reads the little-endian value modulo \<open>2 ^ 255\<close>, and
  \<open>fe_tobytes\<close> writes the value of an element, exactly when it is below the field's prime and 19 too high otherwise.
\<close>

section \<open>Reduction\<close>

lemma first_pass:
  fixes a0 a1 a2 a3 a4 q1 q2 q3 q4 q5 r1 r2 r3 r4 r5 :: nat
  assumes "a0 + 19 = q1 * 2 ^ 51 + r1" "a1 + q1 = q2 * 2 ^ 51 + r2" "a2 + q2 = q3 * 2 ^ 51 + r3" "a3 + q3 = q4 * 2 ^ 51 + r4" "a4 + q4 = q5 * 2 ^ 51 + r5"
  shows "a0 + 2 ^ 51 * a1 + 2 ^ 102 * a2 + 2 ^ 153 * a3 + 2 ^ 204 * a4 + 19 = 2 ^ 255 * q5 + (r1 + 2 ^ 51 * r2 + 2 ^ 102 * r3 + 2 ^ 153 * r4 + 2 ^ 204 * r5)"
  using assms by simp

lemma second_pass:
  fixes a0 a1 a2 a3 a4 c0 c1 c2 c3 c4 c5 m0 m1 m2 m3 m4 n0 q k :: nat
  assumes "a0 + k = c0 * 2 ^ 51 + m0" "a1 + c0 = c1 * 2 ^ 51 + m1" "a2 + c1 = c2 * 2 ^ 51 + m2" "a3 + c2 = c3 * 2 ^ 51 + m3" "a4 + c3 = c4 * 2 ^ 51 + m4"
    "m0 + 19 * c4 = c5 * 2 ^ 51 + n0"
  shows "n0 + 2 ^ 51 * (m1 + c5) + 2 ^ 102 * m2 + 2 ^ 153 * m3 + 2 ^ 204 * m4 + c4 * P25519 = a0 + 2 ^ 51 * a1 + 2 ^ 102 * a2 + 2 ^ 153 * a3 + 2 ^ 204 * a4 + k"
    and "a0 + 2 ^ 51 * a1 + 2 ^ 102 * a2 + 2 ^ 153 * a3 + 2 ^ 204 * a4 + k = 2 ^ 255 * c4 + (m0 + 2 ^ 51 * m1 + 2 ^ 102 * m2 + 2 ^ 153 * m3 + 2 ^ 204 * m4)"
  using assms unfolding P25519_def by simp_all

lemma limbs_below_255:
  fixes a b c d e :: nat
  assumes "a < 2 ^ 51" "b < 2 ^ 51" "c < 2 ^ 51" "d < 2 ^ 51" "e < 2 ^ 51"
  shows "a + 2 ^ 51 * b + 2 ^ 102 * c + 2 ^ 153 * d + 2 ^ 204 * e < 2 ^ 255"
  using assms by simp

lemma carried_less:
  fixes a b c d e :: nat
  assumes "a < 2 ^ 51" "b < 2 ^ 51 + 2 ^ 20" "c < 2 ^ 51" "d < 2 ^ 51" "e < 2 ^ 51"
  shows "a + 2 ^ 51 * b + 2 ^ 102 * c + 2 ^ 153 * d + 2 ^ 204 * e < 2 ^ 255 + 2 ^ 71"
  using assms by simp

lemma quotient_01:
  fixes h q r :: nat
  assumes "h + 19 = 2 ^ 255 * q + r" "r < 2 ^ 255" "h < 2 ^ 255 + 2 ^ 71"
  shows "q = (if h < P25519 then 0 else 1)"
proof -
  have "q < 2" using assms by simp
  then have "q = 0 \<or> q = 1" by linarith
  then show ?thesis using assms unfolding P25519_def by (elim disjE) simp_all
qed

lemma quotient_again:
  fixes h q c r :: nat
  assumes "h + 19 * q = 2 ^ 255 * c + r" "r < 2 ^ 255" "h < 2 ^ 255 + 2 ^ 71" "q = (if h < P25519 then 0 else 1)"
  shows "c = q"
proof -
  have "c < 2" using assms by (simp split: if_splits)
  then have "c = 0 \<or> c = 1" by linarith
  then show ?thesis using assms unfolding P25519_def by (elim disjE) (simp_all split: if_splits)
qed

lemma div_mod_51: "x = x div 2 ^ 51 * 2 ^ 51 + x mod 2 ^ 51" for x :: nat
  by simp

text \<open>The reduction on numbers: \<open>n0\<close> and \<open>m1 + c5\<close> are the limbs that the last line of the reduction leaves.\<close>

lemma reduce_value:
  fixes a0 a1 a2 a3 a4 :: nat
  assumes a: "a0 < 2 ^ 51" "a1 < 2 ^ 51 + 2 ^ 20" "a2 < 2 ^ 51" "a3 < 2 ^ 51" "a4 < 2 ^ 51"
    and q: "q = (a4 + (a3 + (a2 + (a1 + (a0 + 19) div 2 ^ 51) div 2 ^ 51) div 2 ^ 51) div 2 ^ 51) div 2 ^ 51"
    and c: "b0 = a0 + 19 * q" "b1 = a1 + b0 div 2 ^ 51" "b2 = a2 + b1 div 2 ^ 51" "b3 = a3 + b2 div 2 ^ 51" "b4 = a4 + b3 div 2 ^ 51"
      "n0 = b0 mod 2 ^ 51 + 19 * (b4 div 2 ^ 51)" "n1 = b1 mod 2 ^ 51 + n0 div 2 ^ 51"
    and h: "h = a0 + 2 ^ 51 * a1 + 2 ^ 102 * a2 + 2 ^ 153 * a3 + 2 ^ 204 * a4"
  shows "n0 mod 2 ^ 51 + 2 ^ 51 * n1 + 2 ^ 102 * (b2 mod 2 ^ 51) + 2 ^ 153 * (b3 mod 2 ^ 51) + 2 ^ 204 * (b4 mod 2 ^ 51) =
      (if h < P25519 then h else h - P25519 + 19)" (is "?v = _")
    and "n1 < 2 ^ 51" and "q \<le> 1" and "b4 div 2 ^ 51 \<le> 1"
proof -
  have hb: "h < 2 ^ 255 + 2 ^ 71" unfolding h by (rule carried_less [OF a])
  note f = first_pass [OF div_mod_51 div_mod_51 div_mod_51 div_mod_51 div_mod_51, of a0 a1 a2 a3 a4, folded h q]
  have qv: "q = (if h < P25519 then 0 else 1)" by (rule quotient_01 [OF f limbs_below_255 [OF mod51 mod51 mod51 mod51 mod51] hb])
  then show "q \<le> 1" by (simp split: if_splits)
  have d: "a0 + 19 * q = b0 div 2 ^ 51 * 2 ^ 51 + b0 mod 2 ^ 51" "a1 + b0 div 2 ^ 51 = b1 div 2 ^ 51 * 2 ^ 51 + b1 mod 2 ^ 51"
    "a2 + b1 div 2 ^ 51 = b2 div 2 ^ 51 * 2 ^ 51 + b2 mod 2 ^ 51" "a3 + b2 div 2 ^ 51 = b3 div 2 ^ 51 * 2 ^ 51 + b3 mod 2 ^ 51"
    "a4 + b3 div 2 ^ 51 = b4 div 2 ^ 51 * 2 ^ 51 + b4 mod 2 ^ 51"
    "b0 mod 2 ^ 51 + 19 * (b4 div 2 ^ 51) = n0 div 2 ^ 51 * 2 ^ 51 + n0 mod 2 ^ 51"
    unfolding c(1-6) [symmetric] by (rule div_mod_51)+
  note s = second_pass [OF d, folded c(7) h]
  have cq: "b4 div 2 ^ 51 = q" by (rule quotient_again [OF s(2) limbs_below_255 [OF mod51 mod51 mod51 mod51 mod51] hb qv])
  then show "b4 div 2 ^ 51 \<le> 1" using \<open>q \<le> 1\<close> by simp
  have v: "?v + q * P25519 = h + 19 * q" using s(1) unfolding cq .
  then show "?v = (if h < P25519 then h else h - P25519 + 19)" using qv by (simp split: if_splits)
  show "n1 < 2 ^ 51"
  proof (cases "h < P25519")
    case True
    then have "n0 = b0 mod 2 ^ 51" using c(6) cq qv by simp
    then show ?thesis using c(7) by simp
  next
    case False
    then have "?v = h - P25519 + 19" using v qv by simp
    moreover have "h - P25519 + 19 < 2 ^ 72" using hb False unfolding P25519_def by simp
    ultimately show ?thesis by simp
  qed
qed

lemma add_carry64:
  fixes x y :: u64
  assumes "unat x < 2 ^ 52"
  shows "unat (x + drop_bit 51 y) = unat x + unat y div 2 ^ 51"
proof -
  have "unat y < 2 ^ 13 * 2 ^ 51" using unat_bound [of y] by simp
  then have "unat y div 2 ^ 51 < 2 ^ 13" by (rule less_mult_imp_div_less)
  then show ?thesis using assms by (subst unat_add_ok) simp_all
qed

lemma unat_and51_64: "unat (r AND MASK51 :: u64) = unat r mod 2 ^ 51"
  by (simp only: mask51 unat_and_mask)

lemma fe_reduce_ok:
  assumes "carried h"
  shows "limbs_below (2 ^ 51) (fe_reduce h)"
    and "fval (fe_reduce h) = (if fval h < P25519 then fval h else fval h - P25519 + 19)"
proof -
  obtain h0 h1 h2 h3 h4 where f: "h = Fe h0 h1 h2 h3 h4" by (cases h)
  have a: "unat h0 < 2 ^ 51" "unat h1 < 2 ^ 51 + 2 ^ 20" "unat h2 < 2 ^ 51" "unat h3 < 2 ^ 51" "unat h4 < 2 ^ 51"
    using assms unfolding f carried.simps by blast+
  have b: "unat h0 < 2 ^ 52" "unat h1 < 2 ^ 52" "unat h2 < 2 ^ 52" "unat h3 < 2 ^ 52" "unat h4 < 2 ^ 52"
    using a by simp_all
  define q where "q = drop_bit 51 (h4 + drop_bit 51 (h3 + drop_bit 51 (h2 + drop_bit 51 (h1 + drop_bit 51 (h0 + 19)))))"
  define b0 where "b0 = h0 + 19 * q"
  define b1 where "b1 = h1 + drop_bit 51 b0"
  define b2 where "b2 = h2 + drop_bit 51 b1"
  define b3 where "b3 = h3 + drop_bit 51 b2"
  define b4 where "b4 = h4 + drop_bit 51 b3"
  define n0 where "n0 = (b0 AND MASK51) + drop_bit 51 b4 * 19"
  define n1 where "n1 = (b1 AND MASK51) + drop_bit 51 n0"
  have e: "fe_reduce h = Fe (n0 AND MASK51) n1 (b2 AND MASK51) (b3 AND MASK51) (b4 AND MASK51)"
    unfolding f fe_reduce.simps Let_def q_def b0_def b1_def b2_def b3_def b4_def n0_def n1_def by (rule refl)
  have "unat (h0 + 19) = unat h0 + 19" using a(1) by (subst unat_add_ok) simp_all
  then have q: "unat q = (unat h4 + (unat h3 + (unat h2 + (unat h1 + (unat h0 + 19) div 2 ^ 51) div 2 ^ 51) div 2 ^ 51) div 2 ^ 51) div 2 ^ 51"
    unfolding q_def by (simp only: unat_drop add_carry64 [OF b(5)] add_carry64 [OF b(4)] add_carry64 [OF b(3)] add_carry64 [OF b(2)])
  note r = reduce_value [OF a q refl refl refl refl refl refl refl refl]
  have "unat (19 * q) = 19 * unat q" using r(3) by (subst unat_mult_ok) simp_all
  then have 0: "unat b0 = unat h0 + 19 * unat q" unfolding b0_def using r(3) a(1) by (subst unat_add_ok) simp_all
  have 1: "unat b1 = unat h1 + unat b0 div 2 ^ 51" unfolding b1_def by (rule add_carry64 [OF b(2)])
  have 2: "unat b2 = unat h2 + unat b1 div 2 ^ 51" unfolding b2_def by (rule add_carry64 [OF b(3)])
  have 3: "unat b3 = unat h3 + unat b2 div 2 ^ 51" unfolding b3_def by (rule add_carry64 [OF b(4)])
  have 4: "unat b4 = unat h4 + unat b3 div 2 ^ 51" unfolding b4_def by (rule add_carry64 [OF b(5)])
  note r = r [folded 0, folded 1, folded 2, folded 3, folded 4]
  have "unat (drop_bit 51 b4 * 19) = 19 * (unat b4 div 2 ^ 51)" using r(4) by (subst unat_mult_ok) simp_all
  then have 5: "unat n0 = unat b0 mod 2 ^ 51 + 19 * (unat b4 div 2 ^ 51)"
    unfolding n0_def using r(4) mod51 [of "unat b0"] by (subst unat_add_ok) (simp_all add: unat_and51_64)
  have "unat (b1 AND MASK51) < 2 ^ 52" unfolding unat_and51_64 by (rule order.strict_trans [OF mod51]) simp
  then have 6: "unat n1 = unat b1 mod 2 ^ 51 + unat n0 div 2 ^ 51" unfolding n1_def by (subst add_carry64) (simp_all only: unat_and51_64)
  note r = r [folded 5, folded 6]
  show "limbs_below (2 ^ 51) (fe_reduce h)" unfolding e limbs_below.simps unat_and51_64 by (intro conjI mod51 r(2))
  show "fval (fe_reduce h) = (if fval h < P25519 then fval h else fval h - P25519 + 19)"
    unfolding e unfolding f fval.simps unat_and51_64 r(1) by (rule refl)
qed

section \<open>Stores\<close>

lemma unat_byte: "unat (ucast (x :: u64) :: u8) = unat x mod 256"
  by (simp add: unat_ucast_mod)

lemma unat_byte_drop: "unat (ucast (drop_bit k x :: u64) :: u8) = unat x div 2 ^ k mod 256"
  by (simp only: unat_byte unat_drop)

text \<open>A byte that holds the top of one limb and the bottom of the next.\<close>

lemma unat_byte_or:
  fixes x y :: u64
  assumes "unat x < 2 ^ k" "k < 8"
  shows "unat (ucast (x OR push_bit k y) :: u8) = unat x + 2 ^ k * (unat y mod 2 ^ (8 - k))"
proof -
  have "unat (x OR push_bit k y) = unat x + unat y mod 2 ^ (64 - k) * 2 ^ k"
    using unat_or_push [OF assms(1), of y] assms(2) by simp
  moreover have "(unat x + unat y mod 2 ^ (64 - k) * 2 ^ k) mod 256 = unat x + 2 ^ k * (unat y mod 2 ^ (8 - k))"
  proof -
    have p: "(256 :: nat) = 2 ^ k * 2 ^ (8 - k)" using assms(2) by (simp flip: power_add)
    have d: "(2 :: nat) ^ (8 - k) dvd 2 ^ (64 - k)" by (rule le_imp_power_dvd) simp
    have "(unat x + unat y mod 2 ^ (64 - k) * 2 ^ k) div 2 ^ k = unat y mod 2 ^ (64 - k)"
      "(unat x + unat y mod 2 ^ (64 - k) * 2 ^ k) mod 2 ^ k = unat x" using assms(1) by simp_all
    then show ?thesis unfolding p mod_mult2_eq using d by (simp add: mod_mod_cancel)
  qed
  ultimately show ?thesis by (simp only: unat_byte)
qed

lemma le_val_bytes: "le_val (le_bytes n v) = v mod 256 ^ n"
proof (induction n arbitrary: v)
  case (Suc n)
  have "v mod 256 ^ Suc n = v mod 256 + 256 * (v div 256 mod 256 ^ n)" by (simp add: mod_mult2_eq)
  then show ?case by (simp add: Suc unat_of_nat)
qed simp

lemma le_val_inj: "length xs = length ys \<Longrightarrow> le_val xs = le_val ys \<Longrightarrow> xs = ys"
proof (induction xs ys rule: list_induct2)
  case (Cons x xs y ys)
  have b: "unat x < 256" "unat y < 256" using unat_bound [of x] unat_bound [of y] by simp_all
  have e: "unat x + 256 * le_val xs = unat y + 256 * le_val ys" using Cons.prems by simp
  then have "(unat x + 256 * le_val xs) mod 256 = (unat y + 256 * le_val ys) mod 256" by (rule arg_cong)
  then have "unat x = unat y" using b by simp
  then show ?case using Cons.IH e by (simp add: word_unat_eq_iff)
qed simp

lemma le_val_eq: "le_val xs = v \<Longrightarrow> xs = le_bytes (length xs) v"
proof -
  assume v: "le_val xs = v"
  have "v mod 256 ^ length xs = v" using le_val_less [of xs] v by (simp add: power_mult)
  then show ?thesis by (intro le_val_inj) (simp_all add: le_val_bytes v)
qed

lemma le_val_piece: "le_val (map (\<lambda>i. ucast (drop_bit (k + 8 * i) x :: u64)) [0..<n]) = unat x div 2 ^ k mod 2 ^ (8 * n)"
proof (induction n)
  case (Suc n)
  have d: "unat x div 2 ^ (k + 8 * n) = unat x div 2 ^ k div 2 ^ (8 * n)" by (simp only: power_add div_mult2_eq)
  have m: "y mod 2 ^ (8 * Suc n) = y mod 2 ^ (8 * n) + 2 ^ (8 * n) * (y div 2 ^ (8 * n) mod 256)" for y :: nat
    using mod_mult2_eq [of y "2 ^ (8 * n)" 256] by (simp add: power_add mult.commute add.commute)
  show ?case unfolding m by (simp add: Suc le_val_append unat_byte_drop d)
qed simp

lemma store_pieces:
  "fe_store (Fe h0 h1 h2 h3 h4) =
     map (\<lambda>i. ucast (drop_bit (0 + 8 * i) h0)) [0..<6] @ [ucast (drop_bit 48 h0 OR push_bit 3 h1)] @
     map (\<lambda>i. ucast (drop_bit (5 + 8 * i) h1)) [0..<5] @ [ucast (drop_bit 45 h1 OR push_bit 6 h2)] @
     map (\<lambda>i. ucast (drop_bit (2 + 8 * i) h2)) [0..<6] @ [ucast (drop_bit 50 h2 OR push_bit 1 h3)] @
     map (\<lambda>i. ucast (drop_bit (7 + 8 * i) h3)) [0..<5] @ [ucast (drop_bit 47 h3 OR push_bit 4 h4)] @
     map (\<lambda>i. ucast (drop_bit (4 + 8 * i) h4)) [0..<6]"
  by (simp add: upt_conv_Cons numeral_2_eq_2)

lemma piece_sum:
  fixes a0 b0 m1 a1 b1 m2 a2 b2 m3 a3 b3 m4 a4 :: nat
  assumes "h0 = a0 + 2 ^ 48 * b0" "h1 = m1 + 2 ^ 5 * (a1 + 2 ^ 40 * b1)" "h2 = m2 + 2 ^ 2 * (a2 + 2 ^ 48 * b2)" "h3 = m3 + 2 ^ 7 * (a3 + 2 ^ 40 * b3)" "h4 = m4 + 2 ^ 4 * a4"
  shows "a0 + 2 ^ 48 * (b0 + 2 ^ 3 * m1 + 2 ^ 8 * (a1 + 2 ^ 40 * (b1 + 2 ^ 6 * m2 + 2 ^ 8 * (a2 + 2 ^ 48 * (b2 + 2 ^ 1 * m3 +
      2 ^ 8 * (a3 + 2 ^ 40 * (b3 + 2 ^ 4 * m4 + 2 ^ 8 * a4))))))) =
    h0 + 2 ^ 51 * h1 + 2 ^ 102 * h2 + 2 ^ 153 * h3 + 2 ^ 204 * h4"
  unfolding assms by simp

lemma limb_split: "x = x mod 2 ^ a + 2 ^ a * (x div 2 ^ a mod 2 ^ b + 2 ^ b * (x div 2 ^ (a + b)))" for x :: nat
proof -
  have "x div 2 ^ (a + b) = x div 2 ^ a div 2 ^ b" by (simp add: power_add div_mult2_eq)
  then show ?thesis by simp
qed

lemma limb_top: "x < 2 ^ 51 \<Longrightarrow> k \<le> 51 \<Longrightarrow> x div 2 ^ k < 2 ^ (51 - k)" for x :: nat
  by (rule less_mult_imp_div_less) (simp flip: power_add)

lemma fe_store_value:
  assumes "limbs_below (2 ^ 51) h"
  shows "fe_store h = le_bytes 32 (fval h)"
proof -
  obtain h0 h1 h2 h3 h4 where f: "h = Fe h0 h1 h2 h3 h4" by (cases h)
  have a: "unat h0 < 2 ^ 51" "unat h1 < 2 ^ 51" "unat h2 < 2 ^ 51" "unat h3 < 2 ^ 51" "unat h4 < 2 ^ 51"
    using assms unfolding f limbs_below.simps by blast+
  have o: "unat (ucast (drop_bit (51 - k) x OR push_bit k y) :: u8) = unat x div 2 ^ (51 - k) + 2 ^ k * (unat y mod 2 ^ (8 - k))"
    if "unat x < 2 ^ 51" "k < 8" for k and x y :: u64
    using unat_byte_or [of "drop_bit (51 - k) x" k y] limb_top [OF that(1), of "51 - k"] that(2) by (simp del: power_numeral)
  have b: "le_val [ucast (drop_bit 48 h0 OR push_bit 3 h1)] = unat h0 div 2 ^ 48 + 2 ^ 3 * (unat h1 mod 2 ^ 5)"
    "le_val [ucast (drop_bit 45 h1 OR push_bit 6 h2)] = unat h1 div 2 ^ 45 + 2 ^ 6 * (unat h2 mod 2 ^ 2)"
    "le_val [ucast (drop_bit 50 h2 OR push_bit 1 h3)] = unat h2 div 2 ^ 50 + 2 ^ 1 * (unat h3 mod 2 ^ 7)"
    "le_val [ucast (drop_bit 47 h3 OR push_bit 4 h4)] = unat h3 div 2 ^ 47 + 2 ^ 4 * (unat h4 mod 2 ^ 4)"
    using o [OF a(1), of 3 h1] o [OF a(2), of 6 h2] o [OF a(3), of 1 h3] o [OF a(4), of 4 h4] by simp_all
  have "unat h4 div 2 ^ 4 < 2 ^ 47" using a(5) by (intro less_mult_imp_div_less) simp
  then have t: "unat h4 div 2 ^ 4 mod 2 ^ 48 = unat h4 div 2 ^ 4" by (intro mod_less) simp
  have n: "8 * 6 = (48 :: nat)" "8 * 5 = (40 :: nat)" "8 * 1 = (8 :: nat)" by simp_all
  have k: "0 + 48 = (48 :: nat)" "5 + 40 = (45 :: nat)" "2 + 48 = (50 :: nat)" "7 + 40 = (47 :: nat)" by simp_all
  have s: "unat h0 = unat h0 div 2 ^ 0 mod 2 ^ 48 + 2 ^ 48 * (unat h0 div 2 ^ 48)"
    using mod_mult_div_eq [of "unat h0" "2 ^ 48"] by (simp only: power_0 div_by_1)
  note s = s limb_split [of "unat h1" 5 40, unfolded k] limb_split [of "unat h2" 2 48, unfolded k] limb_split [of "unat h3" 7 40, unfolded k]
    mod_mult_div_eq [of "unat h4" "2 ^ 4", symmetric]
  have l: "length (map f [0..<m]) = m" "length [b] = 1" for f :: "nat \<Rightarrow> u8" and m and b :: u8 by simp_all
  have v: "le_val (fe_store h) = fval h"
    unfolding f store_pieces le_val_append le_val_piece b l n t fval.simps by (rule piece_sum [OF s])
  have "length (fe_store h) = 32" unfolding f by simp
  then show ?thesis using le_val_eq [OF v] by metis
qed

lemma fe_tobytes_value:
  "carried h \<Longrightarrow> fe_tobytes h = le_bytes 32 (if fval h < P25519 then fval h else fval h - P25519 + 19)"
  unfolding fe_tobytes_def by (simp only: fe_store_value fe_reduce_ok)

section \<open>Loads\<close>

lemma unat_load64:
  assumes "8 \<le> length s"
  shows "unat (load64 s) = le_val (take 8 s)"
proof -
  have "take 8 s = map ((!) s) [0..<8]" using assms by (intro nth_equalityI) simp_all
  then have "take 8 s = [s ! 0, s ! 1, s ! 2, s ! 3, s ! 4, s ! 5, s ! 6, s ! 7]" by (simp add: upt_conv_Cons eval_nat_numeral)
  then have "load64 s = load_le (take 8 s)" unfolding load64_def by (simp add: push_bit_or)
  then show ?thesis using unat_load_le [of "take 8 s", where ?'a = 64] by simp
qed

lemma le_val_slice: "k + n \<le> length s \<Longrightarrow> le_val (take n (drop k s)) = le_val s div 256 ^ k mod 256 ^ n"
proof -
  assume l: "k + n \<le> length s"
  have p: "2 ^ (8 * i) = (256 :: nat) ^ i" for i by (simp add: power_mult)
  have "le_val s = le_val (take k s) + 256 ^ k * le_val (drop k s)"
    using le_val_append [of "take k s" "drop k s"] l by (simp add: p)
  moreover have "le_val (drop k s) = le_val (take n (drop k s)) + 256 ^ n * le_val (drop n (drop k s))"
    using le_val_append [of "take n (drop k s)" "drop n (drop k s)"] l by (simp add: p del: drop_drop)
  moreover have "le_val (take k s) < 256 ^ k" "le_val (take n (drop k s)) < 256 ^ n"
    using le_val_less [of "take k s"] le_val_less [of "take n (drop k s)"] l by (simp_all add: power_mult)
  ultimately show ?thesis by simp
qed

lemma field_of_load: "j + 51 \<le> 64 \<Longrightarrow> y mod 2 ^ 64 div 2 ^ j mod 2 ^ 51 = y div 2 ^ j mod 2 ^ 51" for y :: nat
proof -
  assume j: "j + 51 \<le> 64"
  have "take_bit 51 (drop_bit j (take_bit 64 y)) = take_bit 51 (drop_bit j y)"
    using j by (intro bit_eqI) (auto simp: bit_simps)
  then show ?thesis by (simp only: take_bit_eq_mod drop_bit_eq_div)
qed

lemma split_limb: "v mod 2 ^ (51 + n) = v mod 2 ^ 51 + 2 ^ 51 * (v div 2 ^ 51 mod 2 ^ n)" for v :: nat
  unfolding power_add mod_mult2_eq by (rule add.commute)

lemma unat_limb_load:
  assumes "k + 8 \<le> length s" "j + 51 \<le> 64"
  shows "unat (drop_bit j (load64 (drop k s)) AND MASK51) = le_val s div 2 ^ (8 * k + j) mod 2 ^ 51"
proof -
  have p: "(256 :: nat) ^ 8 = 2 ^ 64" "(256 :: nat) ^ k = 2 ^ (8 * k)" by (simp_all add: power_mult)
  have "unat (load64 (drop k s)) = le_val (take 8 (drop k s))" using assms by (intro unat_load64) simp
  also have "\<dots> = le_val s div 2 ^ (8 * k) mod 2 ^ 64" using le_val_slice [OF assms(1)] unfolding p .
  finally show ?thesis
    unfolding unat_and51_64 unat_drop by (simp only: field_of_load [OF assms(2)] power_add div_mult2_eq)
qed

lemma fe_frombytes_value:
  assumes "length s = 32"
  shows "limbs_below (2 ^ 51) (fe_frombytes s)" "fval (fe_frombytes s) = le_val s mod 2 ^ 255"
proof -
  define V where "V = le_val s"
  have n: "255 = (51 + 204 :: nat)" "204 = (51 + 153 :: nat)" "153 = (51 + 102 :: nat)" "102 = (51 + 51 :: nat)" by simp_all
  have e: "8 * 0 + 0 = (0 :: nat)" "8 * 6 + 3 = (51 :: nat)" "8 * 12 + 6 = (51 + 51 :: nat)" "8 * 19 + 1 = (51 + (51 + 51) :: nat)"
    "8 * 24 + 12 = (51 + (51 + (51 + 51)) :: nat)" by simp_all
  have z: "drop_bit 0 (load64 (drop 0 s)) = load64 s" "V div 2 ^ 0 = V" by simp_all
  have u: "unat (drop_bit b (load64 (drop a s)) AND MASK51) = V div 2 ^ (8 * a + b) mod 2 ^ 51" if "a + 8 \<le> 32" "b + 51 \<le> 64" for a b
    unfolding V_def using that assms by (intro unat_limb_load) simp_all
  have b: "0 + 8 \<le> (32 :: nat)" "6 + 8 \<le> (32 :: nat)" "12 + 8 \<le> (32 :: nat)" "19 + 8 \<le> (32 :: nat)" "24 + 8 \<le> (32 :: nat)"
    "0 + 51 \<le> (64 :: nat)" "3 + 51 \<le> (64 :: nat)" "6 + 51 \<le> (64 :: nat)" "1 + 51 \<le> (64 :: nat)" "12 + 51 \<le> (64 :: nat)" by simp_all
  note l = u [OF b(1,6), unfolded e z] u [OF b(2,7), unfolded e] u [OF b(3,8), unfolded e power_add div_mult2_eq]
    u [OF b(4,9), unfolded e power_add div_mult2_eq] u [OF b(5,10), unfolded e power_add div_mult2_eq]
  show "limbs_below (2 ^ 51) (fe_frombytes s)" unfolding fe_frombytes_def limbs_below.simps unat_and51_64 by (intro conjI mod51)
  have "V mod 2 ^ 255 = V mod 2 ^ 51 + 2 ^ 51 * (V div 2 ^ 51 mod 2 ^ 51 + 2 ^ 51 * (V div 2 ^ 51 div 2 ^ 51 mod 2 ^ 51 +
      2 ^ 51 * (V div 2 ^ 51 div 2 ^ 51 div 2 ^ 51 mod 2 ^ 51 + 2 ^ 51 * (V div 2 ^ 51 div 2 ^ 51 div 2 ^ 51 div 2 ^ 51 mod 2 ^ 51))))"
    unfolding n split_limb by (rule refl)
  moreover have "a + 2 ^ 51 * (b + 2 ^ 51 * (c + 2 ^ 51 * (d + 2 ^ 51 * e))) = a + 2 ^ 51 * b + 2 ^ 102 * c + 2 ^ 153 * d + 2 ^ 204 * e" for a b c d e :: nat
    by simp
  ultimately show "fval (fe_frombytes s) = le_val s mod 2 ^ 255" unfolding fe_frombytes_def fval.simps l V_def [symmetric] by (simp only:)
qed

end
