(* ===== verification/X25519_Ladder.thy ===== *)
theory X25519_Ladder
  imports X25519_Fe X25519_Bytes
begin

text \<open>
  The Montgomery ladder of RFC 7748 on residues modulo \<open>2 ^ 255 - 19\<close>, and that \<open>x25519\<close> of \<open>src/lib/crypto/x25519.c\<close>
  computes it: the deferred conditional swaps are the ladder's branches, no limb overflows, and \<open>fe_invert\<close> is the power
  \<open>p - 2\<close>.
\<close>

section \<open>The specification\<close>

definition pz :: int where
  "pz = 2 ^ 255 - 19"

text \<open>A point is a pair \<open>(x, z)\<close>: doubling, and the sum of two points whose difference has the coordinate \<open>u\<close>.\<close>

definition xdbl :: "int \<times> int \<Rightarrow> int \<times> int" where
  "xdbl P =
     (let (x, z) = P; aa = (x + z)\<^sup>2 mod pz; bb = (x - z)\<^sup>2 mod pz; e = (aa - bb) mod pz
      in (aa * bb mod pz, e * (aa + 121665 * e) mod pz))"

definition xadd :: "int \<Rightarrow> int \<times> int \<Rightarrow> int \<times> int \<Rightarrow> int \<times> int" where
  "xadd u P Q =
     (let (x2, z2) = P; (x3, z3) = Q; da = (x3 - z3) * (x2 + z2) mod pz; cb = (x3 + z3) * (x2 - z2) mod pz
      in ((da + cb)\<^sup>2 mod pz, u * (da - cb)\<^sup>2 mod pz))"

definition mont_step :: "int \<Rightarrow> bool \<Rightarrow> (int \<times> int) \<times> (int \<times> int) \<Rightarrow> (int \<times> int) \<times> (int \<times> int)" where
  "mont_step u b PQ = (let (P, Q) = PQ in if b then (xadd u P Q, xdbl Q) else (xdbl P, xadd u P Q))"

definition mont_ladder :: "int \<Rightarrow> nat \<Rightarrow> (int \<times> int) \<times> (int \<times> int)" where
  "mont_ladder u k = fold (\<lambda>i. mont_step u (bit k i)) (rev [0..<255]) ((1, 0), (u, 1))"

definition x25519_spec :: "nat \<Rightarrow> nat \<Rightarrow> nat" where
  "x25519_spec k u = (let (x, z) = fst (mont_ladder (int (u mod 2 ^ 255) mod pz) k) in nat (x * z ^ (2 ^ 255 - 21) mod pz))"

lemma square_mod: "(a mod m)\<^sup>2 mod m = a\<^sup>2 mod m" for a m :: int
  by (rule power_mod)

lemma xadd_sym: "xadd u P Q = xadd u Q P"
proof -
  have "((a mod m) - (b mod m))\<^sup>2 mod m = ((b mod m) - (a mod m))\<^sup>2 mod m" for a b m :: int by (simp only: power2_commute)
  then show ?thesis unfolding xadd_def by (simp add: split_beta Let_def mult.commute add.commute power2_commute)
qed

section \<open>Residues of the field operations\<close>

definition rv :: "fe \<Rightarrow> int" where
  "rv f = int (fval f) mod pz"

lemma int_P25519: "int P25519 = pz"
  by (simp add: P25519_def pz_def)

lemma pz_pos: "pz > 0"
  by (simp add: pz_def)

lemma rv_add: "tight f \<Longrightarrow> tight g \<Longrightarrow> rv (fe_add f g) = (rv f + rv g) mod pz"
  unfolding rv_def by (simp only: fe_add_ok of_nat_add mod_add_eq)

lemma rv_sub: "tight f \<Longrightarrow> tight g \<Longrightarrow> rv (fe_sub f g) = (rv f - rv g) mod pz"
proof -
  assume t: "tight f" "tight g"
  have "int (fval (fe_sub f g)) = int (fval f) - int (fval g) + 2 * pz"
    using arg_cong [OF fe_sub_ok(2) [OF t], of int] int_P25519 by simp
  then show ?thesis unfolding rv_def by (simp only: mod_diff_eq mod_mult_self1)
qed

lemma residue_of: "x = y + c * P25519 \<Longrightarrow> int y mod pz = int x mod pz"
  by (simp add: int_P25519)

lemma rv_mul: "loose f \<Longrightarrow> loose g \<Longrightarrow> rv (fe_mul f g) = rv f * rv g mod pz"
  using fe_mul_ok(2) [of f g] unfolding rv_def by (metis residue_of of_nat_mult mod_mult_eq)

lemma rv_sq: "loose f \<Longrightarrow> rv (fe_sq f) = (rv f)\<^sup>2 mod pz"
  unfolding fe_sq_def power2_eq_square by (rule rv_mul)

lemma rv_mul121665: "loose f \<Longrightarrow> rv (fe_mul121665 f) = 121665 * rv f mod pz"
  using fe_mul121665_ok(2) [of f] unfolding rv_def by (metis residue_of of_nat_mult of_nat_numeral mod_mult_right_eq)

lemma mul_tight: "loose f \<Longrightarrow> loose g \<Longrightarrow> tight (fe_mul f g)"
  by (rule carried_tight [OF fe_mul_ok(1)])

lemma sq_tight: "loose f \<Longrightarrow> tight (fe_sq f)"
  unfolding fe_sq_def by (rule mul_tight)

lemma mul_pos: "loose f \<Longrightarrow> loose g \<Longrightarrow> fval f > 0 \<Longrightarrow> fval g > 0 \<Longrightarrow> fval (fe_mul f g) > 0"
  using fe_mul_ok(3) [of f g] by (simp only: zero_less_iff_neq_zero) blast

lemma sq_pos: "loose f \<Longrightarrow> fval f > 0 \<Longrightarrow> fval (fe_sq f) > 0"
  unfolding fe_sq_def by (rule mul_pos)

lemma mul121665_tight: "loose f \<Longrightarrow> tight (fe_mul121665 f)"
  by (rule carried_tight [OF fe_mul121665_ok(1)])

section \<open>Inversion\<close>

text \<open>\<open>f\<close> holds the power \<open>n\<close> of \<open>z\<close>.\<close>

definition holds_power :: "fe \<Rightarrow> nat \<Rightarrow> fe \<Rightarrow> bool" where
  "holds_power z n f \<longleftrightarrow> tight f \<and> rv f = rv z ^ n mod pz \<and> (fval z > 0 \<longrightarrow> fval f > 0)"

lemma power_mul:
  assumes "holds_power z m f" "holds_power z n g"
  shows "holds_power z (m + n) (fe_mul f g)"
proof -
  have f: "tight f" "rv f = rv z ^ m mod pz" "fval z > 0 \<longrightarrow> fval f > 0" and g: "tight g" "rv g = rv z ^ n mod pz" "fval z > 0 \<longrightarrow> fval g > 0"
    using assms unfolding holds_power_def by blast+
  note l = tight_loose [OF f(1)] tight_loose [OF g(1)]
  show ?thesis
    unfolding holds_power_def rv_mul [OF l] f(2) g(2) power_add mod_mult_eq
    by (intro conjI impI refl mul_tight [OF l] mul_pos [OF l] f(3) [THEN mp] g(3) [THEN mp])
qed

lemma power_sq: "holds_power z m f \<Longrightarrow> holds_power z (2 * m) (fe_sq f)"
  using power_mul [of z m f m f] by (simp add: fe_sq_def mult_2)

lemma power_sqs: "holds_power z m f \<Longrightarrow> holds_power z (2 ^ k * m) ((fe_sq ^^ k) f)"
  by (induction k) (auto dest: power_sq simp: mult.assoc)

lemma fe_invert_power: "tight z \<Longrightarrow> holds_power z (2 ^ 255 - 21) (fe_invert z)"
proof -
  assume "tight z"
  then have z: "holds_power z 1 z" by (simp add: holds_power_def rv_def)
  define t0 where "t0 = fe_sq z"
  define t1 where "t1 = fe_mul z (fe_sq (fe_sq t0))"
  define u0 where "u0 = fe_mul t0 t1"
  define a5 where "a5 = fe_mul t1 (fe_sq u0)"
  define a10 where "a10 = fe_mul ((fe_sq ^^ 4) (fe_sq a5)) a5"
  define a20 where "a20 = fe_mul ((fe_sq ^^ 9) (fe_sq a10)) a10"
  define a40 where "a40 = fe_mul ((fe_sq ^^ 19) (fe_sq a20)) a20"
  define a50 where "a50 = fe_mul ((fe_sq ^^ 9) (fe_sq a40)) a10"
  define a100 where "a100 = fe_mul ((fe_sq ^^ 49) (fe_sq a50)) a50"
  define a200 where "a200 = fe_mul ((fe_sq ^^ 99) (fe_sq a100)) a100"
  define a250 where "a250 = fe_mul ((fe_sq ^^ 49) (fe_sq a200)) a50"
  have e: "fe_invert z = fe_mul ((fe_sq ^^ 4) (fe_sq a250)) u0"
    unfolding fe_invert_def Let_def t0_def t1_def u0_def a5_def a10_def a20_def a40_def a50_def a100_def a200_def a250_def by (rule refl)
  have step: "holds_power z k (fe_mul ((fe_sq ^^ n) (fe_sq f)) g)"
    if "holds_power z i f" "holds_power z j g" "k = 2 ^ n * (2 * i) + j" for f g i j k n
    unfolding that(3) by (rule power_mul [OF power_sqs [OF power_sq [OF that(1)]] that(2)])
  have t0: "holds_power z 2 t0" unfolding t0_def using power_sq [OF z] by simp
  have t1: "holds_power z 9 t1" unfolding t1_def using power_mul [OF z power_sq [OF power_sq [OF t0]]] by simp
  have u0: "holds_power z 11 u0" unfolding u0_def using power_mul [OF t0 t1] by simp
  have a5: "holds_power z (2 ^ 5 - 1) a5" unfolding a5_def using power_mul [OF t1 power_sq [OF u0]] by simp
  have a10: "holds_power z (2 ^ 10 - 1) a10" unfolding a10_def by (rule step [OF a5 a5]) simp
  have a20: "holds_power z (2 ^ 20 - 1) a20" unfolding a20_def by (rule step [OF a10 a10]) simp
  have a40: "holds_power z (2 ^ 40 - 1) a40" unfolding a40_def by (rule step [OF a20 a20]) simp
  have a50: "holds_power z (2 ^ 50 - 1) a50" unfolding a50_def by (rule step [OF a40 a10]) simp
  have a100: "holds_power z (2 ^ 100 - 1) a100" unfolding a100_def by (rule step [OF a50 a50]) simp
  have a200: "holds_power z (2 ^ 200 - 1) a200" unfolding a200_def by (rule step [OF a100 a100]) simp
  have a250: "holds_power z (2 ^ 250 - 1) a250" unfolding a250_def by (rule step [OF a200 a50]) simp
  show ?thesis unfolding e by (rule step [OF a250 u0]) simp
qed

section \<open>Conditional swaps\<close>

lemma cswap_limb_0: "cswap_limb (0 - 0) f g = (f, g)"
  by (simp add: cswap_limb_def)

lemma cswap_limb_1: "cswap_limb (0 - 1) f g = (g, f)"
  unfolding cswap_limb_def Let_def by (auto intro!: bit_word_eqI simp: bit_simps)

lemma fe_cswap_0: "fe_cswap f g 0 = (f, g)"
  unfolding fe_cswap_def by (cases f; cases g) (simp only: prod.case fe.case Let_def cswap_limb_0)

lemma fe_cswap_1: "fe_cswap f g 1 = (g, f)"
  unfolding fe_cswap_def by (cases f; cases g) (simp only: prod.case fe.case Let_def cswap_limb_1)

lemma ladder_swap_0: "swap s = 0 \<Longrightarrow> ladder_swap s = s"
  by (simp add: ladder_swap_def fe_cswap_0)

lemma ladder_swap_1: "swap s = 1 \<Longrightarrow> ladder_swap s = s\<lparr>x2 := x3 s, x3 := x2 s, z2 := z3 s, z3 := z2 s\<rparr>"
  by (simp add: ladder_swap_def fe_cswap_1)

section \<open>One step\<close>

text \<open>The two points of a state, in the ladder's order: a pending swap exchanges them.\<close>

definition ladder_points :: "ladder \<Rightarrow> (int \<times> int) \<times> (int \<times> int)" where
  "ladder_points s =
     (let P = (rv (x2 s), rv (z2 s)); Q = (rv (x3 s), rv (z3 s)) in if swap s = 0 then (P, Q) else (Q, P))"

definition ladder_ok :: "ladder \<Rightarrow> bool" where
  "ladder_ok s \<longleftrightarrow> (swap s = 0 \<or> swap s = 1) \<and> tight (x2 s) \<and> tight (z2 s) \<and> tight (x3 s) \<and> tight (z3 s) \<and>
     (fval (x2 s) > 0 \<or> fval (z2 s) > 0) \<and> (fval (x3 s) > 0 \<or> fval (z3 s) > 0)"

text \<open>The arithmetic of a step on the four coordinates, after the swap.\<close>

definition dbl_fe :: "fe \<Rightarrow> fe \<Rightarrow> fe \<times> fe" where
  "dbl_fe x z =
     (let aa = fe_sq (fe_add x z); bb = fe_sq (fe_sub x z); ee = fe_sub aa bb
      in (fe_mul aa bb, fe_mul ee (fe_add aa (fe_mul121665 ee))))"

definition add_fe :: "fe \<Rightarrow> fe \<Rightarrow> fe \<Rightarrow> fe \<Rightarrow> fe \<Rightarrow> fe \<times> fe" where
  "add_fe u x z x' z' =
     (let da = fe_mul (fe_sub x' z') (fe_add x z); cb = fe_mul (fe_add x' z') (fe_sub x z)
      in (fe_sq (fe_add da cb), fe_mul u (fe_sq (fe_sub da cb))))"

lemma ladder_step_alt:
  "ladder_step e u i s =
     (let kt = ucast (drop_bit (i mod 8) (e ! (i div 8))) AND 1; s = ladder_swap (s\<lparr>swap := swap s XOR kt\<rparr>);
          (a, b) = dbl_fe (x2 s) (z2 s); (c, d) = add_fe u (x2 s) (z2 s) (x3 s) (z3 s)
      in \<lparr>x2 = a, z2 = b, x3 = c, z3 = d, swap = kt\<rparr>)"
  unfolding ladder_step_def dbl_fe_def add_fe_def Let_def by simp

lemma sub_residue: "(a mod m - b mod m) mod m = (a - b) mod m" for a b m :: int
  by (rule mod_diff_eq)

lemma dbl_fe_ok:
  assumes "tight x" "tight z" "fval x > 0 \<or> fval z > 0" "dbl_fe x z = (a, b)"
  shows "tight a" "tight b" "fval a > 0" "fval b > 0" "(rv a, rv b) = xdbl (rv x, rv z)"
proof -
  define aa where "aa = fe_sq (fe_add x z)"
  define bb where "bb = fe_sq (fe_sub x z)"
  define ee where "ee = fe_sub aa bb"
  note l = fe_add_ok(1) [OF assms(1,2)] fe_sub_ok(1) [OF assms(1,2)]
  have t: "tight aa" "tight bb" unfolding aa_def bb_def by (rule sq_tight [OF l(1)], rule sq_tight [OF l(2)])
  have r: "rv aa = (rv x + rv z)\<^sup>2 mod pz" "rv bb = (rv x - rv z)\<^sup>2 mod pz"
    unfolding aa_def bb_def by (simp_all only: rv_sq [OF l(1)] rv_sq [OF l(2)] rv_add [OF assms(1,2)] rv_sub [OF assms(1,2)] power_mod)
  note le = fe_sub_ok(1) [OF t, folded ee_def]
  have re: "rv ee = (rv aa - rv bb) mod pz" unfolding ee_def by (rule rv_sub [OF t])
  note tm = mul121665_tight [OF le]
  note ls = fe_add_ok(1) [OF t(1) tm]
  have a: "a = fe_mul aa bb" and b: "b = fe_mul ee (fe_add aa (fe_mul121665 ee))"
    using assms(4) unfolding dbl_fe_def Let_def aa_def bb_def ee_def by (simp_all only: prod.inject)
  show "tight a" unfolding a by (rule mul_tight [OF t [THEN tight_loose]])
  show "tight b" unfolding b by (rule mul_tight [OF le ls])
  have pa: "fval aa > 0" unfolding aa_def by (rule sq_pos [OF l(1)]) (use assms(3) fe_add_ok(2) [OF assms(1,2)] in linarith)
  have pb: "fval bb > 0" unfolding bb_def by (rule sq_pos [OF l(2) fe_sub_ok(3) [OF assms(1,2)]])
  show "fval a > 0" unfolding a by (rule mul_pos [OF t [THEN tight_loose] pa pb])
  show "fval b > 0" unfolding b
    by (rule mul_pos [OF le ls fe_sub_ok(3) [OF t, folded ee_def]]) (use pa fe_add_ok(2) [OF t(1) tm] in linarith)
  have ra: "rv a = rv aa * rv bb mod pz" unfolding a by (rule rv_mul [OF t [THEN tight_loose]])
  have rb: "rv b = rv ee * (rv aa + 121665 * rv ee) mod pz"
    unfolding b rv_mul [OF le ls] rv_add [OF t(1) tm] rv_mul121665 [OF le] mod_add_right_eq mod_mult_right_eq by (rule refl)
  show "(rv a, rv b) = xdbl (rv x, rv z)" unfolding xdbl_def Let_def prod.case ra rb re r by (rule refl)
qed

lemma add_fe_ok:
  assumes "loose u" "tight x" "tight z" "tight x'" "tight z'" "fval x > 0 \<or> fval z > 0" "add_fe u x z x' z' = (a, b)"
  shows "tight a" "tight b" "fval a > 0" "(rv a, rv b) = xadd (rv u) (rv x, rv z) (rv x', rv z')"
proof -
  define da where "da = fe_mul (fe_sub x' z') (fe_add x z)"
  define cb where "cb = fe_mul (fe_add x' z') (fe_sub x z)"
  note l = fe_add_ok(1) [OF assms(2,3)] fe_sub_ok(1) [OF assms(2,3)] fe_add_ok(1) [OF assms(4,5)] fe_sub_ok(1) [OF assms(4,5)]
  have t: "tight da" "tight cb" unfolding da_def cb_def by (rule mul_tight [OF l(4,1)], rule mul_tight [OF l(3,2)])
  have r: "rv da = (rv x' - rv z') * (rv x + rv z) mod pz" "rv cb = (rv x' + rv z') * (rv x - rv z) mod pz"
    unfolding da_def cb_def rv_mul [OF l(4,1)] rv_mul [OF l(3,2)] rv_add [OF assms(2,3)] rv_sub [OF assms(2,3)] rv_add [OF assms(4,5)] rv_sub [OF assms(4,5)]
    by (rule mod_mult_eq)+
  note lt = fe_add_ok(1) [OF t] fe_sub_ok(1) [OF t]
  note ls = tight_loose [OF sq_tight [OF lt(2)]]
  have a: "a = fe_sq (fe_add da cb)" and b: "b = fe_mul u (fe_sq (fe_sub da cb))"
    using assms(7) unfolding add_fe_def Let_def da_def cb_def by (simp_all only: prod.inject)
  show "tight a" unfolding a by (rule sq_tight [OF lt(1)])
  show "tight b" unfolding b by (rule mul_tight [OF assms(1) ls])
  have "fval (fe_add x z) > 0" using assms(6) fe_add_ok(2) [OF assms(2,3)] by linarith
  then have "fval da > 0" unfolding da_def by (rule mul_pos [OF l(4,1) fe_sub_ok(3) [OF assms(4,5)]])
  then have "fval (fe_add da cb) > 0" using fe_add_ok(2) [OF t] by linarith
  then show "fval a > 0" unfolding a by (rule sq_pos [OF lt(1)])
  have ra: "rv a = (rv da + rv cb)\<^sup>2 mod pz" unfolding a rv_sq [OF lt(1)] rv_add [OF t] by (rule power_mod)
  have rb: "rv b = rv u * (rv da - rv cb)\<^sup>2 mod pz"
    unfolding b rv_mul [OF assms(1) ls] rv_sq [OF lt(2)] rv_sub [OF t] power_mod by (rule mod_mult_right_eq)
  show "(rv a, rv b) = xadd (rv u) (rv x, rv z) (rv x', rv z')" unfolding xadd_def Let_def prod.case ra rb r by (rule refl)
qed

lemma swap_bit: "(ucast (drop_bit j (w :: u8)) AND 1 :: u64) = (if bit w j then 1 else 0)"
  by (auto intro!: bit_word_eqI simp: bit_simps)

text \<open>The swap at the head of a step brings the points into the order that the bit asks for.\<close>

lemma ladder_swap_ok:
  fixes b :: bool
  assumes "ladder_ok s" "ladder_points s = (P, Q)"
  defines "s' \<equiv> ladder_swap (s\<lparr>swap := swap s XOR (if b then 1 else 0)\<rparr>)"
  shows "tight (x2 s') \<and> tight (z2 s') \<and> tight (x3 s') \<and> tight (z3 s')"
    and "fval (x2 s') > 0 \<or> fval (z2 s') > 0"
    and "((rv (x2 s'), rv (z2 s')), (rv (x3 s'), rv (z3 s'))) = (if b then (Q, P) else (P, Q))"
proof -
  have "(swap s = 0 \<or> swap s = 1) \<and> tight (x2 s) \<and> tight (z2 s) \<and> tight (x3 s) \<and> tight (z3 s) \<and>
     (fval (x2 s) > 0 \<or> fval (z2 s) > 0) \<and> (fval (x3 s) > 0 \<or> fval (z3 s) > 0)" using assms(1) unfolding ladder_ok_def .
  moreover have "s' = s\<lparr>swap := 0\<rparr>" if "swap s = (if b then 1 else 0)"
    unfolding s'_def using that by (subst ladder_swap_0) (auto split: if_splits)
  moreover have "s' = s\<lparr>swap := 1, x2 := x3 s, x3 := x2 s, z2 := z3 s, z3 := z2 s\<rparr>" if "swap s = (if b then 0 else 1)"
    unfolding s'_def using that by (subst ladder_swap_1) (auto split: if_splits)
  ultimately show "tight (x2 s') \<and> tight (z2 s') \<and> tight (x3 s') \<and> tight (z3 s')" "fval (x2 s') > 0 \<or> fval (z2 s') > 0"
    "((rv (x2 s'), rv (z2 s')), (rv (x3 s'), rv (z3 s'))) = (if b then (Q, P) else (P, Q))"
    using assms(2) by (cases b; auto simp: ladder_points_def Let_def split: if_splits)+
qed

lemma ladder_step_ok:
  assumes "ladder_ok s" "loose u"
  shows "ladder_ok (ladder_step e u i s)"
    and "fval (x2 (ladder_step e u i s)) > 0" "fval (z2 (ladder_step e u i s)) > 0"
    and "swap (ladder_step e u i s) = (if bit (e ! (i div 8)) (i mod 8) then 1 else 0)"
    and "ladder_points (ladder_step e u i s) = mont_step (rv u) (bit (e ! (i div 8)) (i mod 8)) (ladder_points s)"
proof -
  define b where "b = bit (e ! (i div 8)) (i mod 8)"
  define s' where "s' = ladder_swap (s\<lparr>swap := swap s XOR (if b then 1 else 0)\<rparr>)"
  obtain P Q where pq: "ladder_points s = (P, Q)" by (cases "ladder_points s")
  obtain x z where d: "dbl_fe (x2 s') (z2 s') = (x, z)" by (cases "dbl_fe (x2 s') (z2 s')")
  obtain x' z' where a: "add_fe u (x2 s') (z2 s') (x3 s') (z3 s') = (x', z')" by (cases "add_fe u (x2 s') (z2 s') (x3 s') (z3 s')")
  have e: "ladder_step e u i s = \<lparr>x2 = x, z2 = z, x3 = x', z3 = z', swap = (if b then 1 else 0)\<rparr>"
    unfolding ladder_step_alt swap_bit Let_def b_def [symmetric] s'_def [symmetric] d a prod.case by (rule refl)
  note w = ladder_swap_ok [OF assms(1) pq, of b, folded s'_def]
  have t: "tight (x2 s')" "tight (z2 s')" "tight (x3 s')" "tight (z3 s')" using w(1) by blast+
  note D = dbl_fe_ok [OF t(1,2) w(2) d]
  note A = add_fe_ok [OF assms(2) t w(2) a]
  show "fval (x2 (ladder_step e u i s)) > 0" "fval (z2 (ladder_step e u i s)) > 0" unfolding e ladder.simps by (rule D(3), rule D(4))
  show "ladder_ok (ladder_step e u i s)" unfolding ladder_ok_def e ladder.simps using D(1-4) A(1-3) by presburger
  show "swap (ladder_step e u i s) = (if bit (e ! (i div 8)) (i mod 8) then 1 else 0)" unfolding e b_def by simp
  have "(rv (x2 s'), rv (z2 s')) = (if b then Q else P)" "(rv (x3 s'), rv (z3 s')) = (if b then P else Q)"
    using w(3) by (auto split: if_splits)
  then have "(rv x, rv z) = xdbl (if b then Q else P)" "(rv x', rv z') = xadd (rv u) (if b then Q else P) (if b then P else Q)"
    using D(5) A(4) by simp_all
  then show "ladder_points (ladder_step e u i s) = mont_step (rv u) (bit (e ! (i div 8)) (i mod 8)) (ladder_points s)"
    unfolding e ladder_points_def Let_def ladder.simps mont_step_def pq [unfolded ladder_points_def Let_def] prod.case b_def [symmetric]
    using xadd_sym [of "rv u" Q P] by simp
qed

section \<open>The loop\<close>

lemma ladder_fold:
  assumes "ladder_ok s" "loose u"
  shows "ladder_ok (fold (ladder_step e u) is s) \<and>
    ladder_points (fold (ladder_step e u) is s) = fold (\<lambda>i. mont_step (rv u) (bit (e ! (i div 8)) (i mod 8))) is (ladder_points s)"
  using assms(1)
proof (induction "is" arbitrary: s)
  case (Cons i "is")
  then show ?case using ladder_step_ok(1,5) [OF Cons.prems assms(2), of e i] by simp
qed simp

text \<open>The scalar of RFC 7748: the three low bits and bit 255 cleared, bit 254 set.\<close>

definition decode_scalar :: "nat \<Rightarrow> nat" where
  "decode_scalar n = take_bit 254 (push_bit 3 (drop_bit 3 n)) OR push_bit 254 1"

lemma bit_decode_scalar: "bit (decode_scalar n) i \<longleftrightarrow> i = 254 \<or> 3 \<le> i \<and> i < 254 \<and> bit n i"
proof -
  have "bit (push_bit 254 (1 :: nat)) i \<longleftrightarrow> i = 254" unfolding push_bit_eq_mult mult_1 by (simp only: bit_exp_iff possible_bit_nat) simp
  then show ?thesis unfolding decode_scalar_def bit_or_iff by (auto simp: bit_simps simp del: push_bit_of_1 push_bit_numeral)
qed

lemma bit_le_val:
  assumes "length bs = 32" "i < 256"
  shows "bit (le_val bs) i \<longleftrightarrow> bit (bs ! (i div 8)) (i mod 8)"
proof -
  have "le_val bs = unat (load_le bs :: 256 word)" using unat_load_le [of bs, where ?'a = 256] assms by simp
  then show ?thesis using assms by (simp add: bit_unsigned_iff bit_load_le)
qed

lemma clamp_low: "bit (w AND 248 :: u8) j \<longleftrightarrow> 3 \<le> j \<and> bit w j" if "j < 8"
proof -
  have "j \<in> {0, 1, 2, 3, 4, 5, 6, 7}" using that by auto
  then show ?thesis by (auto simp: bit_and_iff)
qed

lemma clamp_high: "bit (w AND 127 OR 64 :: u8) j \<longleftrightarrow> j = 6 \<or> j < 6 \<and> bit w j" if "j < 8"
proof -
  have "j \<in> {0, 1, 2, 3, 4, 5, 6, 7}" using that by auto
  then show ?thesis by (auto simp: bit_and_iff bit_or_iff)
qed

lemma clamp_bit:
  assumes "length s = 32" "i < 255"
  shows "bit (x25519_clamp s ! (i div 8)) (i mod 8) \<longleftrightarrow> bit (decode_scalar (le_val s)) i"
proof -
  have e: "x25519_clamp s = s[0 := s ! 0 AND 248, 31 := s ! 31 AND 127 OR 64]"
    using assms(1) by (simp add: x25519_clamp_def Let_def)
  have b: "bit (le_val s) i \<longleftrightarrow> bit (s ! (i div 8)) (i mod 8)" using assms by (intro bit_le_val) simp_all
  consider (low) "i < 8" | (mid) "8 \<le> i" "i < 248" | (high) "248 \<le> i" "i < 255" using assms(2) by linarith
  then show ?thesis
  proof cases
    case low
    then show ?thesis unfolding bit_decode_scalar b e using assms(1) clamp_low [OF low, of "s ! 0"] by simp
  next
    case mid
    then have "i div 8 \<noteq> 0" "i div 8 \<noteq> 31" by linarith+
    then show ?thesis unfolding bit_decode_scalar b e using mid by simp
  next
    case high
    then have d: "i div 8 = 31" by linarith
    then have d: "i div 8 = 31" "i mod 8 = i - 248" using div_mult_mod_eq [of i 8] by linarith+
    then have m: "i - 248 = 6 \<longleftrightarrow> i = 254" "i - 248 < 6 \<longleftrightarrow> i < 254" using high by linarith+
    have "i - 248 < 8" using high by linarith
    then show ?thesis unfolding bit_decode_scalar b e d using assms(1) high clamp_high [of "i - 248" "s ! 31", unfolded m] by simp
  qed
qed

section \<open>The function\<close>

definition ladder_init :: "fe \<Rightarrow> ladder" where
  "ladder_init u = \<lparr>x2 = Fe 1 0 0 0 0, z2 = Fe 0 0 0 0 0, x3 = u, z3 = Fe 1 0 0 0 0, swap = 0\<rparr>"

lemma ladder_init_ok: "tight u \<Longrightarrow> ladder_ok (ladder_init u)" "ladder_points (ladder_init u) = ((1, 0), (rv u, 1))"
  by (simp_all add: ladder_ok_def ladder_init_def ladder_points_def rv_def pz_def)

lemma rev_upt_last: "rev [0..<255] = rev [1..<255] @ [0 :: nat]"
proof -
  have "[0..<255] = 0 # [1..<255 :: nat]" using upt_conv_Cons [of 0 255] by (simp only: One_nat_def zero_less_numeral)
  then show ?thesis by (simp only: rev.simps)
qed

lemma fold_agree: "(\<And>i. i \<in> set xs \<Longrightarrow> f i = g i) \<Longrightarrow> fold f xs s = fold g xs s"
  by (induction xs arbitrary: s) auto

text \<open>The last bit of a scalar is 0, so the loop ends with no swap pending and with coordinates that are not the zero vector.\<close>

lemma ladder_result:
  assumes "length scalar = 32" "tight u"
  defines "s \<equiv> fold (ladder_step (x25519_clamp scalar) u) (rev [0..<255]) (ladder_init u)"
  shows "ladder_swap s = s" "tight (x2 s)" "tight (z2 s)" "fval (x2 s) > 0" "fval (z2 s) > 0"
    and "(rv (x2 s), rv (z2 s)) = fst (mont_ladder (rv u) (decode_scalar (le_val scalar)))"
proof -
  define e where "e = x25519_clamp scalar"
  define r where "r = fold (ladder_step e u) (rev [1..<255]) (ladder_init u)"
  note i = ladder_init_ok(1) [OF assms(2)]
  note l = tight_loose [OF assms(2)]
  have rs: "s = ladder_step e u 0 r" unfolding s_def r_def e_def rev_upt_last fold_append by simp
  have ok: "ladder_ok r" unfolding r_def using ladder_fold [OF i l] by blast
  note st = ladder_step_ok [OF ok l, of e 0, folded rs]
  have "\<not> bit (e ! (0 div 8)) (0 mod 8)" unfolding e_def using clamp_bit [OF assms(1), of 0] bit_decode_scalar [of _ 0] by simp
  then have sw: "swap s = 0" using st(4) by simp
  then show "ladder_swap s = s" by (rule ladder_swap_0)
  show "tight (x2 s)" "tight (z2 s)" using st(1) unfolding ladder_ok_def by blast+
  show "fval (x2 s) > 0" "fval (z2 s) > 0" by (rule st(2), rule st(3))
  have "ladder_points s = fold (\<lambda>i. mont_step (rv u) (bit (e ! (i div 8)) (i mod 8))) (rev [0..<255]) ((1, 0), (rv u, 1))"
    unfolding s_def e_def using ladder_fold [OF i l] ladder_init_ok(2) by simp
  also have "\<dots> = mont_ladder (rv u) (decode_scalar (le_val scalar))"
    unfolding mont_ladder_def e_def by (rule fold_agree) (simp only: set_rev set_upt atLeastLessThan_iff clamp_bit [OF assms(1)])
  finally show "(rv (x2 s), rv (z2 s)) = fst (mont_ladder (rv u) (decode_scalar (le_val scalar)))"
    using sw unfolding ladder_points_def Let_def by (metis fst_conv)
qed

lemma below_tight: "limbs_below (2 ^ 51) f \<Longrightarrow> tight f"
  by (cases f) simp

lemma fval_carried: "carried f \<Longrightarrow> fval f < 2 ^ 255 + 2 ^ 71"
  by (cases f) (simp only: carried.simps fval.simps carried_less)

lemma mod_cases:
  fixes n :: nat
  assumes "int n mod pz = int v" "n < 2 ^ 255 + 2 ^ 71"
  shows "n < P25519 \<and> n = v \<or> P25519 \<le> n \<and> n - P25519 = v \<and> v < 2 ^ 71 + 19"
proof -
  have "int (n mod P25519) = int v" using assms(1) by (simp only: zmod_int int_P25519)
  then have m: "n mod P25519 = v" by simp
  show ?thesis
  proof (cases "n < P25519")
    case True
    then show ?thesis using m by simp
  next
    case False
    define k where "k = n - P25519"
    have n: "n = k + P25519" using False unfolding k_def by simp
    have k: "k < 2 ^ 71 + 19" "k < P25519" using assms(2) unfolding n P25519_def by simp_all
    then have "k = v" using m unfolding n by simp
    then show ?thesis using n k by simp
  qed
qed

text \<open>The element that is written, against the value of the specification.\<close>

lemma x25519_element:
  assumes "length scalar = 32" "length point = 32"
  shows "\<exists>r. x25519 scalar point = fe_tobytes r \<and> carried r \<and> fval r > 0 \<and>
    int (fval r) mod pz = int (x25519_spec (decode_scalar (le_val scalar)) (le_val point))"
proof -
  define u where "u = fe_frombytes point"
  note fb = fe_frombytes_value [OF assms(2), folded u_def]
  note tu = below_tight [OF fb(1)]
  define s where "s = fold (ladder_step (x25519_clamp scalar) u) (rev [0..<255]) (ladder_init u)"
  note L = ladder_result [OF assms(1) tu, folded s_def]
  define r where "r = fe_mul (x2 s) (fe_invert (z2 s))"
  have e: "x25519 scalar point = fe_tobytes r"
    unfolding x25519_def Let_def u_def [symmetric] ladder_init_def [symmetric] s_def [symmetric] L(1) r_def by (rule refl)
  have i: "tight (fe_invert (z2 s))" "rv (fe_invert (z2 s)) = rv (z2 s) ^ (2 ^ 255 - 21) mod pz" "fval (fe_invert (z2 s)) > 0"
    using fe_invert_power [OF L(3)] L(5) unfolding holds_power_def by blast+
  note l = tight_loose [OF L(2)] tight_loose [OF i(1)]
  have "rv r = rv (x2 s) * rv (z2 s) ^ (2 ^ 255 - 21) mod pz" unfolding r_def rv_mul [OF l] i(2) by (rule mod_mult_right_eq)
  moreover have "rv u = int (le_val point mod 2 ^ 255) mod pz" unfolding rv_def fb(2) ..
  ultimately have "rv r = int (x25519_spec (decode_scalar (le_val scalar)) (le_val point))"
    unfolding x25519_spec_def L(6) [symmetric, unfolded \<open>rv u = _\<close>] Let_def prod.case using pz_pos by simp
  then show ?thesis using e fe_mul_ok(1) [OF l, folded r_def] mul_pos [OF l L(4) i(3), folded r_def] unfolding rv_def by blast
qed

text \<open>
  C18. Whenever the scalar and the point are 32 bytes, \<open>x25519\<close> writes the value of the RFC 7748 ladder in 32 bytes; the one
  exception are values below \<open>2 ^ 71 + 19\<close>, which may come out 19 too high.
\<close>

theorem x25519_correct:
  assumes "length scalar = 32" "length point = 32"
    and "v = x25519_spec (decode_scalar (le_val scalar)) (le_val point)"
  shows "x25519 scalar point = le_bytes 32 v \<or> v < 2 ^ 71 + 19 \<and> x25519 scalar point = le_bytes 32 (v + 19)"
proof -
  obtain r where r: "x25519 scalar point = fe_tobytes r" "carried r" "int (fval r) mod pz = int v"
    using x25519_element [OF assms(1,2)] unfolding assms(3) by blast
  show ?thesis using mod_cases [OF r(3) fval_carried [OF r(2)]] unfolding r(1) fe_tobytes_value [OF r(2)] by auto
qed

text \<open>On the point 0 every ladder step keeps both \<open>z\<close> coordinates at 0.\<close>

lemma xdbl_infinity: "snd (xdbl (x, 0)) = 0"
  by (simp add: xdbl_def Let_def)

lemma xadd_infinity: "snd (xadd 0 P Q) = 0"
  by (simp add: xadd_def Let_def split: prod.split)

lemma mont_infinity:
  "snd (fst s) = 0 \<Longrightarrow> snd (snd s) = 0 \<Longrightarrow> snd (fst (fold (\<lambda>i. mont_step 0 (f i)) is s)) = 0"
proof (induction "is" arbitrary: s)
  case (Cons i "is")
  obtain x x' where s: "s = ((x, 0), (x', 0))" using Cons.prems by (cases s) auto
  have "snd (fst (mont_step 0 (f i) s)) = 0 \<and> snd (snd (mont_step 0 (f i) s)) = 0"
    unfolding s mont_step_def by (simp add: xdbl_infinity xadd_infinity)
  then show ?case using Cons.IH by simp
qed simp

lemma x25519_spec_zero: "x25519_spec k 0 = 0"
proof -
  have "xdbl (0, 1) = (1, 0)" by (simp add: xdbl_def Let_def pz_def)
  then have "snd (fst (mont_step 0 b ((1, 0), (0, 1)))) = 0" "snd (snd (mont_step 0 b ((1, 0), (0, 1)))) = 0" for b
    by (simp_all add: mont_step_def xdbl_infinity xadd_infinity)
  moreover have "rev [0..<255] = 254 # rev [0..<254 :: nat]" using arg_cong [OF upt_Suc_append [of 0 254], of rev] by (simp only: rev_append rev.simps append_Nil append_Cons le0 Suc_numeral semiring_norm)
  ultimately have "snd (fst (mont_ladder 0 k)) = 0" unfolding mont_ladder_def by (simp only: fold_simps mont_infinity)
  then show ?thesis unfolding x25519_spec_def by (simp add: split_beta Let_def)
qed

text \<open>
  C36. Where the ladder's value is 0, which RFC 7748 asks to return as 32 zero bytes for points of low order, \<open>x25519\<close> returns
  19 followed by zeros: the final reduction adds the carry out of the top limb back into the lowest one.
\<close>

theorem x25519_low_order_19:
  assumes "length scalar = 32" "length point = 32" "x25519_spec (decode_scalar (le_val scalar)) (le_val point) = 0"
  shows "x25519 scalar point = 19 # replicate 31 0"
proof -
  obtain r where r: "x25519 scalar point = fe_tobytes r" "carried r" "fval r > 0" "int (fval r) mod pz = int 0"
    using x25519_element [OF assms(1,2)] unfolding assms(3) by blast
  have "\<not> fval r < P25519" "fval r - P25519 = 0" using mod_cases [OF r(4) fval_carried [OF r(2)]] r(3) by auto
  moreover have "le_bytes 32 19 = 19 # replicate 31 0" by code_simp
  ultimately show ?thesis unfolding r(1) fe_tobytes_value [OF r(2)] by simp
qed

theorem x25519_correct_witness:
  "length (replicate 32 (0 :: u8)) = 32 \<and> (x25519 (replicate 32 0) (9 # replicate 31 0) = le_bytes 32 (x25519_spec (2 ^ 254) 9) \<or>
     x25519_spec (2 ^ 254) 9 < 2 ^ 71 + 19 \<and> x25519 (replicate 32 0) (9 # replicate 31 0) = le_bytes 32 (x25519_spec (2 ^ 254) 9 + 19))"
proof -
  have "decode_scalar 0 = 2 ^ 254" by (simp add: decode_scalar_def)
  then show ?thesis using x25519_correct [of "replicate 32 0" "9 # replicate 31 0"] by simp
qed

theorem x25519_low_order_19_witness:
  "x25519_spec (decode_scalar (le_val (replicate 32 0))) (le_val (replicate 32 0)) = 0 \<and>
     x25519 (replicate 32 0) (replicate 32 0) = 19 # replicate 31 0"
  using x25519_low_order_19 [of "replicate 32 0" "replicate 32 0"] by (simp add: x25519_spec_zero)

end
