(* ===== verification/Net_Wire.thy ===== *)
theory Net_Wire
  imports Limbs
begin

text \<open>
  Wire formats of the network stack: big-endian fields (\<open>src/includes/drivers/net/ip.h\<close>) and the Internet
  checksum (\<open>ip_csum\<close> of \<open>src/drivers/net/ip.c\<close>). A pointer into a packet is the list of the bytes from
  there on; a store into a buffer is \<open>put_bytes\<close>.
\<close>

section \<open>Fields\<close>

definition net_be16 :: "u8 list \<Rightarrow> u16" where
  "net_be16 p = push_bit 8 (ucast (p ! 0)) OR ucast (p ! 1)"

definition net_be32 :: "u8 list \<Rightarrow> u32" where
  "net_be32 p = push_bit 24 (ucast (p ! 0)) OR push_bit 16 (ucast (p ! 1)) OR push_bit 8 (ucast (p ! 2)) OR ucast (p ! 3)"

definition net_put16 :: "u16 \<Rightarrow> u8 list" where
  "net_put16 v = [ucast (drop_bit 8 v), ucast v]"

definition net_put32 :: "u32 \<Rightarrow> u8 list" where
  "net_put32 v = [ucast (drop_bit 24 v), ucast (drop_bit 16 v), ucast (drop_bit 8 v), ucast v]"

definition put_bytes :: "nat \<Rightarrow> u8 list \<Rightarrow> u8 list \<Rightarrow> u8 list" where
  "put_bytes i bs buf = take i buf @ bs @ drop (i + length bs) buf"

lemma length_net_put [simp]: "length (net_put16 v) = 2" "length (net_put32 w) = 4"
  by (simp_all add: net_put16_def net_put32_def)

lemma length_put_bytes [simp]: "i + length bs \<le> length buf \<Longrightarrow> length (put_bytes i bs buf) = length buf"
  by (simp add: put_bytes_def)

lemma nth_put_bytes:
  "i + length bs \<le> length buf \<Longrightarrow> j < length buf \<Longrightarrow>
     put_bytes i bs buf ! j = (if i \<le> j \<and> j < i + length bs then bs ! (j - i) else buf ! j)"
  by (auto simp: put_bytes_def nth_append)

lemma be16_put16: "net_be16 (net_put16 v @ xs) = v"
proof -
  have "bit (net_be16 (net_put16 v @ xs)) n = bit v n" if "n < 16" for n
    using that by (cases "n < 8") (auto simp: net_be16_def net_put16_def bit_simps)
  then show ?thesis by (intro bit_word_eqI) simp
qed

lemma be32_put32: "net_be32 (net_put32 v @ xs) = v"
proof -
  have "bit (net_be32 (net_put32 v @ xs)) n = bit v n" if "n < 32" for n
  proof -
    consider "n < 8" | "8 \<le> n" "n < 16" | "16 \<le> n" "n < 24" | "24 \<le> n" using that by linarith
    then show ?thesis using that by cases (auto simp: net_be32_def net_put32_def bit_simps)
  qed
  then show ?thesis by (intro bit_word_eqI) simp
qed

section \<open>The Internet checksum\<close>

text \<open>The sum of the 16 bit words, a last odd byte padded with zero, in a 32 bit variable.\<close>

fun csum_words :: "u8 list \<Rightarrow> u32 \<Rightarrow> u32" where
  "csum_words (a # b # p) acc = csum_words p (acc + (push_bit 8 (ucast a) OR ucast b))"
| "csum_words [a] acc = acc + push_bit 8 (ucast a)"
| "csum_words [] acc = acc"

lemma unat_low16: "unat ((acc :: u32) AND 0xffff) = unat acc mod 65536"
proof -
  have "(0xffff :: u32) = mask 16" by (simp add: mask_eq_exp_minus_1)
  then show ?thesis using unat_and_mask [of acc 16] by simp
qed

lemma csum_fold_less: "drop_bit 16 (acc :: u32) \<noteq> 0 \<Longrightarrow> unat ((acc AND 0xffff) + drop_bit 16 acc) < unat acc"
proof -
  assume nz: "drop_bit 16 acc \<noteq> 0"
  note m = unat_low16 [of acc]
  have d: "unat (drop_bit 16 acc) = unat acc div 65536" using unat_drop [of 16 acc] by simp
  have p: "0 < unat acc div 65536" using nz d by (metis bot_nat_0.not_eq_extremum unat_eq_zero)
  have b: "unat acc < 4294967296" using unat_bound [of acc] by simp
  have e: "unat acc = unat acc div 65536 * 65536 + unat acc mod 65536" by simp
  have "unat ((acc AND 0xffff) + drop_bit 16 acc) \<le> unat acc mod 65536 + unat acc div 65536"
    unfolding unat_word_ariths m d by simp
  also have "\<dots> < unat acc" using p e by linarith
  finally show ?thesis .
qed

function csum_fold :: "u32 \<Rightarrow> u32" where
  "csum_fold acc = (if drop_bit 16 acc \<noteq> 0 then csum_fold ((acc AND 0xffff) + drop_bit 16 acc) else acc)"
  by pat_completeness auto
termination by (relation "measure unat") (use csum_fold_less in auto)

declare csum_fold.simps [simp del]

definition ip_csum :: "u8 list \<Rightarrow> u16" where
  "ip_csum p = NOT (ucast (csum_fold (csum_words p 0)))"

text \<open>The sum as a number.\<close>

fun word_sum :: "u8 list \<Rightarrow> nat" where
  "word_sum (a # b # p) = unat a * 256 + unat b + word_sum p"
| "word_sum [a] = unat a * 256"
| "word_sum [] = 0"

definition ones_sum :: "nat \<Rightarrow> nat" where
  "ones_sum s = (if s = 0 then 0 else if s mod 65535 = 0 then 65535 else s mod 65535)"

lemma ones_sum_cong: "0 < s \<Longrightarrow> 0 < t \<Longrightarrow> s mod 65535 = t mod 65535 \<Longrightarrow> ones_sum s = ones_sum t"
  by (simp add: ones_sum_def)

lemma ones_sum_small: "s < 65536 \<Longrightarrow> ones_sum s = s"
  by (cases "s = 65535") (auto simp: ones_sum_def)

lemma ones_sum_le: "ones_sum s \<le> 65535"
  by (simp add: ones_sum_def)

lemma csum_fold_val: "unat (csum_fold acc) = ones_sum (unat acc)"
proof (induction acc rule: csum_fold.induct)
  case (1 acc)
  define q r where "q = unat acc div 65536" and "r = unat acc mod 65536"
  have m: "unat (acc AND 0xffff) = r" by (simp add: unat_low16 r_def)
  have d: "unat (drop_bit 16 acc) = q" using unat_drop [of 16 acc] by (simp add: q_def)
  have e: "unat acc = q * 65536 + r" by (simp add: q_def r_def)
  show ?case
  proof (cases "drop_bit 16 acc = 0")
    case True
    then have "q = 0" using d by simp
    then have "unat acc < 65536" using e by (simp add: r_def)
    then show ?thesis using True by (subst csum_fold.simps) (simp add: ones_sum_small)
  next
    case False
    then have q: "0 < q" using d by (metis bot_nat_0.not_eq_extremum unat_eq_zero)
    have b: "q < 65536" "r < 65536" using unat_bound [of acc] by (simp_all add: q_def r_def less_mult_imp_div_less)
    have u: "unat ((acc AND 0xffff) + drop_bit 16 acc) = r + q"
      using b by (subst unat_add_ok) (simp_all add: m d del: unat_drop)
    have "(q * 65536 + r) mod 65535 = (r + q) mod 65535"
    proof -
      have "q * 65536 + r = (r + q) + q * 65535" by simp
      then show ?thesis by (simp only: mod_mult_self1)
    qed
    then have "ones_sum (r + q) = ones_sum (unat acc)" unfolding e using q by (intro ones_sum_cong) simp_all
    then show ?thesis using 1 [OF False] False u by (subst csum_fold.simps) simp
  qed
qed

lemma word_sum_bound: "word_sum p \<le> 65535 * length p"
proof (induction p rule: word_sum.induct)
  case (1 a b p)
  then show ?case using unat_bound [of a] unat_bound [of b] by simp
next
  case (2 a)
  then show ?case using unat_bound [of a] by simp
qed simp

lemma unat_pair: "unat (push_bit 8 (ucast (a :: u8)) OR ucast (b :: u8) :: u32) = unat a * 256 + unat b"
proof -
  have b: "unat (ucast b :: u32) = unat b" "unat (ucast a :: u32) = unat a" by (simp_all add: unat_ucast_up)
  have ub: "unat b < 256" "unat a < 256" using unat_bound [of b] unat_bound [of a] by simp_all
  have "unat (ucast b OR push_bit 8 (ucast a) :: u32) = unat (ucast b :: u32) + (unat (ucast a :: u32) mod 2 ^ (LENGTH(32) - 8)) * 2 ^ 8"
    using ub by (intro unat_or_push) (simp_all add: b)
  then show ?thesis using ub by (simp add: b or.commute)
qed

lemma csum_words_val:
  "unat acc + 65535 * length p < 2 ^ 32 \<Longrightarrow> unat (csum_words p acc) = unat acc + word_sum p"
proof (induction p acc rule: csum_words.induct)
  case (1 a b p acc)
  have ub: "unat b < 256" "unat a < 256" using unat_bound [of b] unat_bound [of a] by simp_all
  let ?v = "push_bit 8 (ucast a) OR ucast b :: u32"
  have u: "unat (acc + ?v) = unat acc + (unat a * 256 + unat b)"
    using "1.prems" ub by (subst unat_add_ok) (simp_all add: unat_pair)
  have "unat (csum_words p (acc + ?v)) = unat (acc + ?v) + word_sum p"
    using "1.prems" ub by (intro "1.IH") (simp add: u)
  then show ?case by (simp add: u)
next
  case (2 a acc)
  have ub: "unat a < 256" using unat_bound [of a] by simp
  have v: "unat (push_bit 8 (ucast a) :: u32) = unat a * 256" using unat_pair [of a 0] by simp
  show ?case using 2 ub by (simp, subst unat_add_ok) (simp_all add: v)
qed simp

text \<open>The checksum with a start value, as for the pseudo header of UDP and TCP.\<close>

definition csum_from :: "u32 \<Rightarrow> u8 list \<Rightarrow> u16" where
  "csum_from acc p = NOT (ucast (csum_fold (csum_words p acc)))"

lemma ip_csum_from: "ip_csum p = csum_from 0 p"
  by (simp add: ip_csum_def csum_from_def)

lemma unat_csum_from:
  assumes "unat acc + 65535 * length p < 2 ^ 32"
  shows "unat (csum_from acc p) = 65535 - ones_sum (unat acc + word_sum p)"
proof -
  note u = csum_words_val [OF assms]
  define f where "f = (ucast (csum_fold (csum_words p acc)) :: u16)"
  have "unat f = ones_sum (unat acc + word_sum p)"
    using ones_sum_le [of "unat acc + word_sum p"] by (simp add: f_def unat_ucast_mod csum_fold_val u)
  moreover have "unat (NOT f) = 65535 - unat f"
  proof -
    have "NOT f = - 1 - f" by (simp add: not_eq_complement)
    moreover have "unat (- 1 :: u16) = 65535" by (simp add: unsigned_minus_1_eq_mask mask_eq_exp_minus_1)
    ultimately show ?thesis using unat_bound [of f] by (simp add: unat_sub_if')
  qed
  ultimately show ?thesis by (simp add: csum_from_def f_def)
qed

lemma csum_from_zero_iff:
  assumes "unat acc + 65535 * length p < 2 ^ 32"
  shows "csum_from acc p = 0 \<longleftrightarrow> 0 < unat acc + word_sum p \<and> (unat acc + word_sum p) mod 65535 = 0"
proof -
  define s where "s = unat acc + word_sum p"
  have "csum_from acc p = 0 \<longleftrightarrow> ones_sum s = 65535"
    using unat_csum_from [OF assms] ones_sum_le [of s] by (simp add: unat_eq_0 [symmetric] s_def)
  also have "\<dots> \<longleftrightarrow> 0 < s \<and> s mod 65535 = 0"
  proof -
    have "s mod 65535 < 65535" by simp
    then show ?thesis unfolding ones_sum_def by (simp del: mod_less_divisor)
  qed
  finally show ?thesis by (simp add: s_def)
qed

lemma word_sum_append: "even (length xs) \<Longrightarrow> word_sum (xs @ ys) = word_sum xs + word_sum ys"
  by (induction xs rule: word_sum.induct) auto

lemma word_sum_put:
  assumes "even i" "i + 2 \<le> length p"
  shows "word_sum (put_bytes i (net_put16 v) p) + word_sum (take 2 (drop i p)) = word_sum p + unat v"
proof -
  have p: "p = take i p @ take 2 (drop i p) @ drop (i + 2) p" by (metis append_take_drop_id drop_drop add.commute)
  have l: "even (length (take i p))" "length (take 2 (drop i p)) = 2" using assms by simp_all
  have v: "word_sum (net_put16 v) = unat v"
  proof -
    have "unat (ucast (drop_bit 8 v) :: u8) = unat v div 256" "unat (ucast v :: u8) = unat v mod 256"
      using unat_bound [of v] unat_drop [of 8 v] by (simp_all add: unat_ucast_mod less_mult_imp_div_less)
    then show ?thesis by (simp add: net_put16_def)
  qed
  have "word_sum p = word_sum (take i p) + (word_sum (take 2 (drop i p)) + word_sum (drop (i + 2) p))"
    using word_sum_append [OF l(1)] word_sum_append [of "take 2 (drop i p)"] l(2) p by (metis even_numeral)
  then show ?thesis using l(1) by (simp add: put_bytes_def word_sum_append v)
qed

text \<open>A checksum stored into a field that was zero makes the whole packet verify.\<close>

lemma csum_from_fill:
  assumes "even i" "i + 2 \<le> length p" "unat acc + 65535 * length p < 2 ^ 32" "p ! i = 0" "p ! Suc i = 0"
  shows "csum_from acc (put_bytes i (net_put16 (csum_from acc p)) p) = 0"
proof -
  have z: "word_sum (take 2 (drop i p)) = 0"
  proof -
    have "take 2 (drop i p) = [p ! i, p ! Suc i]"
      using assms(2) by (simp add: take_Suc_conv_app_nth numeral_2_eq_2)
    then show ?thesis using assms(4,5) by simp
  qed
  define s t where "s = unat acc + word_sum p" and "t = ones_sum s"
  have w: "unat acc + word_sum (put_bytes i (net_put16 (csum_from acc p)) p) = s + (65535 - t)"
    using word_sum_put [OF assms(1,2), of "csum_from acc p"] unat_csum_from [OF assms(3)] z by (simp add: s_def t_def)
  have "0 < s + (65535 - t) \<and> (s + (65535 - t)) mod 65535 = 0"
  proof (cases "s mod 65535 = 0")
    case True
    then show ?thesis by (auto simp: t_def ones_sum_def)
  next
    case False
    then have t: "t = s mod 65535" "t < 65535" by (auto simp: t_def ones_sum_def)
    have "s + (65535 - t) = s div 65535 * 65535 + 65535"
      using t div_mult_mod_eq [of s 65535] by linarith
    then show ?thesis by simp
  qed
  then show ?thesis using assms(2,3) by (subst csum_from_zero_iff) (simp_all add: w)
qed

lemma csum_fill:
  assumes "even i" "i + 2 \<le> length p" "length p \<le> 65536" "p ! i = 0" "p ! Suc i = 0"
  shows "ip_csum (put_bytes i (net_put16 (ip_csum p)) p) = 0"
  using csum_from_fill [of i p 0] assms by (simp add: ip_csum_from)

end
