(* ===== verification/Net_Stack.thy ===== *)
theory Net_Stack
  imports Net_Wire
begin

text \<open>
  Ethernet, ARP, IP, ICMP and UDP of \<open>src/drivers/net\<close>. The state gathers the static variables of these
  files; the sections under \<open>net_lock\<close> are not interleaved. \<open>tx_fn\<close> is the driver's transmit function, or
  None for a null pointer, and \<open>sent\<close> the frames handed to it. TCP is an argument of \<open>ip_input\<close>.
\<close>

section \<open>State\<close>

record netif =
  if_mac :: "u8 list"
  if_ip :: u32
  if_mask :: u32
  if_gw :: u32

record arp_entry =
  ae_ip :: u32
  ae_mac :: "u8 list"
  ae_tmo :: u32
  ae_valid :: bool

record ip_pend =
  pd_dst :: u32
  pd_len :: nat
  pd_active :: bool
  pd_frame :: "u8 list"

record ping_reply =
  pr_src :: u32
  pr_id :: u16
  pr_seq :: u16
  pr_rtt :: u32

record udp_pcb =
  u_active :: bool
  u_local_ip :: u32
  u_local_port :: u16
  u_remote_ip :: u32
  u_remote_port :: u16
  u_rx :: "u8 list"
  rx_head :: u16
  rx_tail :: u16

record net =
  nif :: netif
  tx_fn :: "(u8 list \<Rightarrow> int) option"
  sent :: "u8 list list"
  s_cache :: "arp_entry list"
  s_tick :: u32
  s_pend :: "ip_pend list"
  s_ping_q :: "ping_reply list"
  s_ping_head :: nat
  s_ping_tail :: nat
  s_ping_cnt :: nat
  s_ping_tmo :: u32
  s_ping_active :: bool
  s_upcb :: "udp_pcb list"

definition ETH_HDR_LEN :: nat where "ETH_HDR_LEN = 14"

definition ETH_FRAME_MAX :: nat where "ETH_FRAME_MAX = 1518"

definition ETH_ARP :: u16 where "ETH_ARP = 0x0806"

definition ETH_IP :: u16 where "ETH_IP = 0x0800"

definition IP_HDR_LEN :: nat where "IP_HDR_LEN = 20"

definition TCP_MSS :: nat where "TCP_MSS = 1460"

definition IP_PEND_MAX :: nat where "IP_PEND_MAX = 4"

definition ARP_CACHE_SIZE :: nat where "ARP_CACHE_SIZE = 16"

definition PING_QUEUE_MAX :: nat where "PING_QUEUE_MAX = 32"

definition UDP_HDR_LEN :: nat where "UDP_HDR_LEN = 8"

definition UDP_PAYLOAD_MAX :: nat where "UDP_PAYLOAD_MAX = 1400"

definition UDP_RCV_BUF :: nat where "UDP_RCV_BUF = 16384"

definition MAX_UDP_PCB :: nat where "MAX_UDP_PCB = 32"

lemmas net_consts = ETH_HDR_LEN_def ETH_FRAME_MAX_def ETH_ARP_def ETH_IP_def IP_HDR_LEN_def TCP_MSS_def IP_PEND_MAX_def
  ARP_CACHE_SIZE_def PING_QUEUE_MAX_def UDP_HDR_LEN_def UDP_PAYLOAD_MAX_def UDP_RCV_BUF_def MAX_UDP_PCB_def

section \<open>Ethernet output\<close>

definition eth_output :: "u8 list \<Rightarrow> u16 \<Rightarrow> u8 list \<Rightarrow> net \<Rightarrow> int \<times> net" where
  "eth_output dst ethertype payload n =
     (case tx_fn n of
        None \<Rightarrow> (- 1, n)
      | Some tx \<Rightarrow>
          if ETH_HDR_LEN + length payload > ETH_FRAME_MAX then (- 1, n)
          else
            let frame = take 6 dst @ take 6 (if_mac (nif n)) @ net_put16 ethertype @ payload
            in (tx frame, n\<lparr>sent := sent n @ [frame]\<rparr>))"

section \<open>ARP\<close>

definition arp_init :: "net \<Rightarrow> net" where
  "arp_init n = n\<lparr>s_cache := map (\<lambda>e. e\<lparr>ae_valid := False\<rparr>) (s_cache n), s_tick := 0\<rparr>"

definition arp_find :: "net \<Rightarrow> u32 \<Rightarrow> nat option" where
  "arp_find n ip = find (\<lambda>i. ae_valid (s_cache n ! i) \<and> ae_ip (s_cache n ! i) = ip) [0..<ARP_CACHE_SIZE]"

fun arp_slot_loop :: "net \<Rightarrow> nat list \<Rightarrow> nat \<Rightarrow> nat" where
  "arp_slot_loop n [] oldest = oldest"
| "arp_slot_loop n (i # is) oldest =
     (if \<not> ae_valid (s_cache n ! i) then i
      else arp_slot_loop n is (if ae_tmo (s_cache n ! i) < ae_tmo (s_cache n ! oldest) then i else oldest))"

definition arp_slot :: "net \<Rightarrow> nat" where
  "arp_slot n = arp_slot_loop n [0..<ARP_CACHE_SIZE] 0"

definition arp_cache_add :: "u32 \<Rightarrow> u8 list \<Rightarrow> net \<Rightarrow> net" where
  "arp_cache_add ip mac n =
     (let idx = (case arp_find n ip of Some i \<Rightarrow> i | None \<Rightarrow> arp_slot n)
      in n\<lparr>s_cache := (s_cache n)[idx := \<lparr>ae_ip = ip, ae_mac = take 6 mac, ae_tmo = s_tick n, ae_valid = True\<rparr>]\<rparr>)"

definition arp_build :: "net \<Rightarrow> u16 \<Rightarrow> u8 list \<Rightarrow> u32 \<Rightarrow> u32 \<Rightarrow> u8 list" where
  "arp_build n op tha spa ipa =
     net_put16 1 @ net_put16 0x0800 @ [6, 4] @ net_put16 op @ take 6 (if_mac (nif n)) @ net_put32 spa @ take 6 tha @ net_put32 ipa"

text \<open>The link address of a neighbour, or None after a request for it has been broadcast.\<close>

definition arp_resolve :: "u32 \<Rightarrow> net \<Rightarrow> u8 list option \<times> net" where
  "arp_resolve ip n =
     (case arp_find n ip of
        Some i \<Rightarrow> (Some (ae_mac (s_cache n ! i)), n)
      | None \<Rightarrow>
          let bcast = replicate 6 0xFF
          in (None, snd (eth_output bcast ETH_ARP (arp_build n 1 bcast (if_ip (nif n)) ip) n)))"

definition arp_tick :: "net \<Rightarrow> net" where
  "arp_tick n = n\<lparr>s_tick := s_tick n + 1\<rparr>"

section \<open>IP output\<close>

definition ip_pend_slot :: "net \<Rightarrow> u32 \<Rightarrow> nat option" where
  "ip_pend_slot n nh =
     (case find (\<lambda>i. \<not> pd_active (s_pend n ! i)) [0..<IP_PEND_MAX] of
        Some i \<Rightarrow> Some i
      | None \<Rightarrow> find (\<lambda>i. pd_dst (s_pend n ! i) = nh) [0..<IP_PEND_MAX])"

definition ip_header :: "u32 \<Rightarrow> u32 \<Rightarrow> u8 \<Rightarrow> nat \<Rightarrow> u8 list" where
  "ip_header saddr daddr proto tot =
     (let pkt = [0x45, 0] @ net_put16 (of_nat tot) @ net_put16 0 @ net_put16 0 @ [64, proto] @ net_put16 0 @
            net_put32 saddr @ net_put32 daddr
      in put_bytes 10 (net_put16 (ip_csum pkt)) pkt)"

definition ip_output :: "u32 \<Rightarrow> u8 \<Rightarrow> u8 list \<Rightarrow> net \<Rightarrow> int \<times> net" where
  "ip_output daddr proto data n =
     (let tot = IP_HDR_LEN + length data in
      if tot > IP_HDR_LEN + TCP_MSS then (- 1, n)
      else
        let pkt = ip_header (if_ip (nif n)) daddr proto tot @ data;
            nh = (if daddr AND if_mask (nif n) = if_ip (nif n) AND if_mask (nif n) then daddr else if_gw (nif n))
        in case arp_resolve nh n of
             (Some mac, n) \<Rightarrow> eth_output mac ETH_IP pkt n
           | (None, n) \<Rightarrow>
               (case ip_pend_slot n nh of
                  None \<Rightarrow> (0, n)
                | Some i \<Rightarrow>
                    (0, n\<lparr>s_pend := (s_pend n)[i := (s_pend n ! i)\<lparr>pd_dst := nh, pd_len := tot,
                           pd_frame := put_bytes 0 pkt (pd_frame (s_pend n ! i)), pd_active := True\<rparr>]\<rparr>)))"

definition ip_pend_send :: "u32 \<Rightarrow> u8 list \<Rightarrow> nat \<Rightarrow> net \<Rightarrow> net" where
  "ip_pend_send ip mac i n =
     (let p = s_pend n ! i in
      if \<not> pd_active p \<or> pd_dst p \<noteq> ip then n
      else snd (eth_output mac ETH_IP (take (pd_len p) (pd_frame p)) (n\<lparr>s_pend := (s_pend n)[i := p\<lparr>pd_active := False\<rparr>]\<rparr>)))"

definition ip_arp_resolved :: "u32 \<Rightarrow> u8 list \<Rightarrow> net \<Rightarrow> net" where
  "ip_arp_resolved ip mac n = fold (ip_pend_send ip mac) [0..<IP_PEND_MAX] n"

text \<open>An ARP packet: the sender is learnt, a request for this host is answered, a reply releases what waits for it.\<close>

definition arp_input :: "u8 list \<Rightarrow> net \<Rightarrow> net" where
  "arp_input pkt n =
     (if length pkt < 28 then n
      else if net_be16 pkt \<noteq> 1 then n
      else if net_be16 (drop 2 pkt) \<noteq> 0x0800 then n
      else if pkt ! 4 \<noteq> 6 \<or> pkt ! 5 \<noteq> 4 then n
      else
        let op = net_be16 (drop 6 pkt);
            spa = net_be32 (drop 14 pkt);
            n = (if spa \<noteq> 0 then arp_cache_add spa (drop 8 pkt) n else n);
            known = (op = 2 \<and> arp_find n spa \<noteq> None)
        in if op = 1 then
             (if net_be32 (drop 24 pkt) \<noteq> if_ip (nif n) then n
              else snd (eth_output (drop 8 pkt) ETH_ARP (arp_build n 2 (drop 8 pkt) (if_ip (nif n)) spa) n))
           else if known then ip_arp_resolved spa (take 6 (drop 8 pkt)) n
           else n)"

section \<open>ICMP\<close>

definition net_now_ms :: "u32 \<Rightarrow> u32" where
  "net_now_ms tick = tick * 10"

definition ping_push :: "u32 \<Rightarrow> u32 \<Rightarrow> u16 \<Rightarrow> u16 \<Rightarrow> net \<Rightarrow> net" where
  "ping_push tick src ident seqn n =
     (if s_ping_cnt n \<ge> PING_QUEUE_MAX then n
      else n\<lparr>s_ping_q := (s_ping_q n)[s_ping_tail n := \<lparr>pr_src = src, pr_id = ident, pr_seq = seqn, pr_rtt = net_now_ms tick - s_ping_tmo n\<rparr>],
             s_ping_tail := (s_ping_tail n + 1) mod PING_QUEUE_MAX, s_ping_cnt := s_ping_cnt n + 1, s_ping_active := False\<rparr>)"

definition icmp_reply :: "u8 list \<Rightarrow> u8 list" where
  "icmp_reply pkt =
     (let reply = take 64 pkt;
          reply = reply[0 := 0, 1 := 0]
      in put_bytes 2 (net_put16 (ip_csum reply)) reply)"

definition icmp_input :: "u32 \<Rightarrow> u32 \<Rightarrow> u8 list \<Rightarrow> net \<Rightarrow> net" where
  "icmp_input tick src pkt n =
     (if length pkt < 8 then n
      else if ip_csum pkt \<noteq> 0 then n
      else if pkt ! 0 = 8 \<and> pkt ! 1 = 0 then snd (ip_output src 1 (icmp_reply pkt) n)
      else if pkt ! 0 = 0 \<and> pkt ! 1 = 0 then
        (if s_ping_active n then ping_push tick src (net_be16 (drop 4 pkt)) (net_be16 (drop 6 pkt)) n else n)
      else n)"

definition icmp_request :: "u16 \<Rightarrow> u16 \<Rightarrow> u8 list" where
  "icmp_request ident seqn =
     (let req = [8, 0] @ net_put16 0 @ net_put16 ident @ net_put16 seqn @ map (\<lambda>i. of_nat (0x41 + i mod 32)) [8..<64]
      in put_bytes 2 (net_put16 (ip_csum req)) req)"

definition nt_icmp_send :: "u32 \<Rightarrow> u32 \<Rightarrow> u16 \<Rightarrow> u16 \<Rightarrow> net \<Rightarrow> int \<times> net" where
  "nt_icmp_send tick dst ident seqn n =
     (if dst = 0 \<or> dst = if_ip (nif n) then (- 1, n)
      else ip_output dst 1 (icmp_request ident seqn) (n\<lparr>s_ping_tmo := net_now_ms tick, s_ping_active := True\<rparr>))"

fun nt_icmp_recv :: "nat \<Rightarrow> net \<Rightarrow> ping_reply list \<times> net" where
  "nt_icmp_recv 0 n = ([], n)"
| "nt_icmp_recv (Suc m) n =
     (if s_ping_cnt n = 0 then ([], n)
      else
        let r = s_ping_q n ! s_ping_head n;
            (rs, n) = nt_icmp_recv m (n\<lparr>s_ping_head := (s_ping_head n + 1) mod PING_QUEUE_MAX, s_ping_cnt := s_ping_cnt n - 1\<rparr>)
        in (r # rs, n))"

end
