(* ===== verification/Net_Udp.thy ===== *)
theory Net_Udp
  imports Net_Stack
begin

text \<open>
  UDP (\<open>src/drivers/net/udp.c\<close>) and the input side of IP and Ethernet. A control block is named by its
  index. Received datagrams lie in a ring of 16384 bytes, each after a header of eight bytes: length,
  source address, source port.
\<close>

section \<open>UDP\<close>

definition UDP_MASK :: u16 where
  "UDP_MASK = 16383"

definition udp_pcb_zero :: udp_pcb where
  "udp_pcb_zero = \<lparr>u_active = False, u_local_ip = 0, u_local_port = 0, u_remote_ip = 0, u_remote_port = 0,
     u_rx = replicate UDP_RCV_BUF 0, rx_head = 0, rx_tail = 0\<rparr>"

definition udp_init :: "net \<Rightarrow> net" where
  "udp_init n = n\<lparr>s_upcb := replicate MAX_UDP_PCB udp_pcb_zero\<rparr>"

definition upd_pcb :: "nat \<Rightarrow> (udp_pcb \<Rightarrow> udp_pcb) \<Rightarrow> net \<Rightarrow> net" where
  "upd_pcb i f n = n\<lparr>s_upcb := (s_upcb n)[i := f (s_upcb n ! i)]\<rparr>"

definition udp_sum :: "u8 list \<Rightarrow> u32 \<Rightarrow> u32 \<Rightarrow> u16" where
  "udp_sum pkt saddr daddr =
     (let acc = 0;
          acc = acc + (drop_bit 16 saddr AND 0xffff);
          acc = acc + (saddr AND 0xffff);
          acc = acc + (drop_bit 16 daddr AND 0xffff);
          acc = acc + (daddr AND 0xffff);
          acc = acc + 0x0011;
          acc = acc + of_nat (length pkt)
      in NOT (ucast (csum_fold (csum_words pkt acc))))"

definition udp_pcb_alloc :: "net \<Rightarrow> nat option \<times> net" where
  "udp_pcb_alloc n =
     (case find (\<lambda>i. \<not> u_active (s_upcb n ! i)) [0..<MAX_UDP_PCB] of
        None \<Rightarrow> (None, n)
      | Some i \<Rightarrow> (Some i, upd_pcb i (\<lambda>_. udp_pcb_zero\<lparr>u_active := True\<rparr>) n))"

definition udp_pcb_free :: "nat \<Rightarrow> net \<Rightarrow> net" where
  "udp_pcb_free i n = upd_pcb i (\<lambda>p. p\<lparr>u_active := False\<rparr>) n"

definition udp_bind :: "nat \<Rightarrow> u32 \<Rightarrow> u16 \<Rightarrow> net \<Rightarrow> int \<times> net" where
  "udp_bind i ip port n =
     (if list_ex (\<lambda>j. u_active (s_upcb n ! j) \<and> j \<noteq> i \<and> u_local_port (s_upcb n ! j) = port) [0..<MAX_UDP_PCB] then (- 1, n)
      else (0, upd_pcb i (\<lambda>p. p\<lparr>u_local_ip := ip, u_local_port := port\<rparr>) n))"

definition udp_connect :: "nat \<Rightarrow> u32 \<Rightarrow> u16 \<Rightarrow> net \<Rightarrow> net" where
  "udp_connect i ip port n = upd_pcb i (\<lambda>p. p\<lparr>u_remote_ip := ip, u_remote_port := port\<rparr>) n"

definition udp_segment :: "u16 \<Rightarrow> u16 \<Rightarrow> u8 list \<Rightarrow> u32 \<Rightarrow> u32 \<Rightarrow> u8 list" where
  "udp_segment sport dport data laddr daddr =
     (let seg = net_put16 sport @ net_put16 dport @ net_put16 (of_nat (UDP_HDR_LEN + length data)) @ net_put16 0 @ data
      in put_bytes 6 (net_put16 (udp_sum seg laddr daddr)) seg)"

definition udp_sendto :: "nat \<Rightarrow> u8 list \<Rightarrow> u32 \<Rightarrow> u16 \<Rightarrow> net \<Rightarrow> int \<times> net" where
  "udp_sendto i data daddr dport n =
     (if UDP_HDR_LEN + length data > UDP_HDR_LEN + UDP_PAYLOAD_MAX then (- 1, n)
      else
        let pcb = s_upcb n ! i;
            laddr = (if u_local_ip pcb \<noteq> 0 then u_local_ip pcb else if_ip (nif n));
            (rc, n) = ip_output daddr 17 (udp_segment (u_local_port pcb) dport data laddr daddr) n
        in (if rc < 0 then rc else int (length data), n))"

definition udp_rx_room :: "udp_pcb \<Rightarrow> int" where
  "udp_rx_room p = int UDP_RCV_BUF - int (unat (rx_tail p - rx_head p))"

definition udp_rx_ready :: "udp_pcb \<Rightarrow> bool" where
  "udp_rx_ready p \<longleftrightarrow> rx_tail p - rx_head p \<noteq> 0"

text \<open>The ring and what follows it in the structure: the two indices, little-endian.\<close>

definition rx_mem :: "udp_pcb \<Rightarrow> u8 list" where
  "rx_mem p = u_rx p @ [ucast (rx_head p), ucast (drop_bit 8 (rx_head p)), ucast (rx_tail p), ucast (drop_bit 8 (rx_tail p))]"

definition rx_at :: "udp_pcb \<Rightarrow> nat" where
  "rx_at p = unat (rx_head p AND UDP_MASK)"

definition rx_skip :: "u16 \<Rightarrow> udp_pcb \<Rightarrow> udp_pcb" where
  "rx_skip k p = p\<lparr>rx_head := (rx_head p + k) AND UDP_MASK\<rparr>"

record datagram =
  dg_data :: "u8 list"
  dg_saddr :: u32
  dg_sport :: u16

text \<open>The oldest datagram, cut to \<open>len\<close> bytes; None stands for the result -1.\<close>

definition udp_recv_pcb :: "nat \<Rightarrow> udp_pcb \<Rightarrow> datagram option \<times> udp_pcb" where
  "udp_recv_pcb len p =
     (if \<not> udp_rx_ready p then (None, p)
      else
        let hi = u_rx p ! rx_at p;
            p = rx_skip 1 p;
            lo = u_rx p ! rx_at p;
            p = rx_skip 1 p;
            cnt = unat hi * 256 + unat lo;
            dlen = (if cnt > len then len else cnt);
            sa = net_be32 (drop (rx_at p) (rx_mem p));
            p = rx_skip 4 p;
            sp = net_be16 (drop (rx_at p) (rx_mem p));
            p = rx_skip 2 p;
            data = (if rx_at p + dlen \<le> UDP_RCV_BUF then take dlen (drop (rx_at p) (u_rx p))
                    else drop (rx_at p) (u_rx p) @ take (dlen - (UDP_RCV_BUF - rx_at p)) (u_rx p))
        in (Some \<lparr>dg_data = data, dg_saddr = sa, dg_sport = sp\<rparr>, rx_skip (of_nat cnt) p))"

definition udp_recv :: "nat \<Rightarrow> nat \<Rightarrow> net \<Rightarrow> datagram option \<times> net" where
  "udp_recv i len n =
     (case udp_recv_pcb len (s_upcb n ! i) of (d, p) \<Rightarrow> (d, upd_pcb i (\<lambda>_. p) n))"

definition rx_push :: "u8 \<Rightarrow> udp_pcb \<Rightarrow> udp_pcb" where
  "rx_push b p = p\<lparr>u_rx := (u_rx p)[unat (rx_tail p AND UDP_MASK) := b], rx_tail := rx_tail p + 1\<rparr>"

text \<open>The comparison converts the room, which may be negative, to \<open>uint32_t\<close>.\<close>

definition udp_rx_put :: "u8 list \<Rightarrow> u32 \<Rightarrow> u16 \<Rightarrow> udp_pcb \<Rightarrow> udp_pcb" where
  "udp_rx_put data saddr sport p =
     (let need = (of_nat (2 + 4 + 2 + length data) :: u32) in
      if need > word_of_int (udp_rx_room p) then p
      else fold rx_push (net_put16 (of_nat (length data)) @ net_put32 saddr @ net_put16 sport @ data) p)"

definition udp_lookup :: "u32 \<Rightarrow> u16 \<Rightarrow> u16 \<Rightarrow> net \<Rightarrow> nat option" where
  "udp_lookup src sport dport n =
     find (\<lambda>i. let p = s_upcb n ! i in
        u_active p \<and> u_local_port p = dport \<and>
        \<not> (u_remote_port p \<noteq> 0 \<and> (u_remote_port p \<noteq> sport \<or> u_remote_ip p \<noteq> src)) \<and>
        \<not> (u_local_ip p \<noteq> 0 \<and> u_local_ip p \<noteq> if_ip (nif n))) [0..<MAX_UDP_PCB]"

definition udp_input :: "u32 \<Rightarrow> u8 list \<Rightarrow> net \<Rightarrow> net" where
  "udp_input src pkt n =
     (if length pkt < UDP_HDR_LEN then n
      else
        let sport = net_be16 pkt;
            dport = net_be16 (drop 2 pkt);
            udp_len = unat (net_be16 (drop 4 pkt))
        in if udp_len < UDP_HDR_LEN \<or> udp_len > length pkt then n
           else if net_be16 (drop 6 pkt) \<noteq> 0 \<and> udp_sum (take udp_len pkt) src (if_ip (nif n)) \<noteq> 0 then n
           else
             case udp_lookup src sport dport n of
               None \<Rightarrow> n
             | Some i \<Rightarrow> upd_pcb i (udp_rx_put (take (udp_len - UDP_HDR_LEN) (drop UDP_HDR_LEN pkt)) src sport) n)"

section \<open>Input\<close>

text \<open>\<open>tcp_in\<close> stands for \<open>tcp_input\<close>; \<open>tick\<close> is the tick counter that ICMP reads.\<close>

definition ip_input :: "(u32 \<Rightarrow> u8 list \<Rightarrow> net \<Rightarrow> net) \<Rightarrow> u32 \<Rightarrow> u8 list \<Rightarrow> net \<Rightarrow> net" where
  "ip_input tcp_in tick pkt n =
     (if length pkt < IP_HDR_LEN then n
      else
        let ver = drop_bit 4 (pkt ! 0);
            ihlen = unat ((pkt ! 0 AND 0x0F) * 4)
        in if ver \<noteq> 4 \<or> ihlen < IP_HDR_LEN \<or> length pkt < ihlen then n
           else if ip_csum (take ihlen pkt) \<noteq> 0 then n
           else
             let total = unat (net_be16 (drop 2 pkt));
                 len = (if total \<ge> ihlen \<and> total \<le> length pkt then total else length pkt);
                 daddr = net_be32 (drop 16 pkt);
                 src = net_be32 (drop 12 pkt);
                 payload = take (len - ihlen) (drop ihlen pkt)
             in if daddr \<noteq> if_ip (nif n) \<and> daddr \<noteq> 0xFFFFFFFF then n
                else if pkt ! 9 = 1 then icmp_input tick src payload n
                else if pkt ! 9 = 6 then tcp_in src payload n
                else if pkt ! 9 = 17 then udp_input src payload n
                else n)"

definition eth_input :: "(u32 \<Rightarrow> u8 list \<Rightarrow> net \<Rightarrow> net) \<Rightarrow> u32 \<Rightarrow> u8 list \<Rightarrow> net \<Rightarrow> net" where
  "eth_input tcp_in tick f n =
     (if length f < ETH_HDR_LEN then n
      else
        let dst = take 6 f;
            ethertype = net_be16 (drop 12 f)
        in if dst \<noteq> take 6 (if_mac (nif n)) \<and> dst \<noteq> replicate 6 0xFF then n
           else if ethertype = ETH_ARP then arp_input (drop ETH_HDR_LEN f) n
           else if ethertype = ETH_IP then ip_input tcp_in tick (drop ETH_HDR_LEN f) n
           else n)"

text \<open>The receive loop; \<open>frames\<close> is what the driver delivers until it has no frame.\<close>

definition net_rx :: "(u32 \<Rightarrow> u8 list \<Rightarrow> net \<Rightarrow> net) \<Rightarrow> u32 \<Rightarrow> u8 list list \<Rightarrow> net \<Rightarrow> net" where
  "net_rx tcp_in tick frames n = fold (eth_input tcp_in tick) frames n"

end
