(* ===== verification/Net_Props.thy ===== *)
theory Net_Props
  imports Net_Udp
begin

text \<open>
  Properties of the network stack: delivery of a datagram from one host to another, the ARP exchange
  that precedes it, and two places where the code does not do what it means to.
\<close>

section \<open>Packets\<close>

lemma ip_header_eq:
  "\<exists>c. ip_header s d p t = [0x45, 0] @ net_put16 (of_nat t) @ [0, 0, 0, 0, 64, p] @ net_put16 c @ net_put32 s @ net_put32 d"
  by (simp add: ip_header_def put_bytes_def net_put16_def Let_def) blast

lemma ip_header_csum: "ip_csum (ip_header s d p t) = 0"
  unfolding ip_header_def Let_def
  by (rule csum_fill) (simp_all add: net_put16_def net_put32_def nth_Cons')

lemma length_ip_header: "length (ip_header s d p t) = 20"
  using ip_header_eq [of s d p t] by auto

lemma be16_drop:
  "length xs = i \<Longrightarrow> net_be16 (drop i (xs @ net_put16 v @ ys)) = v"
  by (simp add: be16_put16)

lemma be32_drop:
  "length xs = i \<Longrightarrow> net_be32 (drop i (xs @ net_put32 v @ ys)) = v"
  by (simp add: be32_put32)

lemma ip_header_fields:
  fixes s d :: u32 and p :: u8 and t :: nat and xs :: "u8 list"
  defines "h \<equiv> ip_header s d p t @ xs"
  shows "h ! 0 = 0x45" "h ! 9 = p" "net_be16 (drop 2 h) = of_nat t" "net_be32 (drop 12 h) = s" "net_be32 (drop 16 h) = d"
    "take 20 h = ip_header s d p t" "drop 20 h = xs"
proof -
  obtain c where c: "ip_header s d p t = [0x45, 0] @ net_put16 (of_nat t) @ [0, 0, 0, 0, 64, p] @ net_put16 c @ net_put32 s @ net_put32 d"
    using ip_header_eq by blast
  have h: "h = [0x45, 0] @ net_put16 (of_nat t) @ [0, 0, 0, 0, 64, p] @ net_put16 c @ net_put32 s @ net_put32 d @ xs"
    by (simp add: h_def c)
  show "h ! 0 = 0x45" "h ! 9 = p" by (simp_all add: h net_put16_def)
  show "net_be16 (drop 2 h) = of_nat t" unfolding h by (rule be16_drop) simp
  show "net_be32 (drop 12 h) = s"
    using be32_drop [of "[0x45, 0] @ net_put16 (of_nat t) @ [0, 0, 0, 0, 64, p] @ net_put16 c" 12 s "net_put32 d @ xs"] by (simp add: h)
  show "net_be32 (drop 16 h) = d"
    using be32_drop [of "[0x45, 0] @ net_put16 (of_nat t) @ [0, 0, 0, 0, 64, p] @ net_put16 c @ net_put32 s" 16 d xs] by (simp add: h)
  show "take 20 h = ip_header s d p t" "drop 20 h = xs" by (simp_all add: h_def length_ip_header)
qed

text \<open>The start value of the UDP checksum.\<close>

definition udp_pseudo :: "nat \<Rightarrow> u32 \<Rightarrow> u32 \<Rightarrow> u32" where
  "udp_pseudo len saddr daddr =
     (drop_bit 16 saddr AND 0xffff) + (saddr AND 0xffff) + (drop_bit 16 daddr AND 0xffff) + (daddr AND 0xffff) + 0x0011 + of_nat len"

lemma udp_sum_from: "udp_sum pkt s d = csum_from (udp_pseudo (length pkt) s d) pkt"
  by (simp add: udp_sum_def csum_from_def udp_pseudo_def Let_def)

lemma udp_pseudo_bound: "len \<le> 65536 \<Longrightarrow> unat (udp_pseudo len s d) \<le> 400000"
proof -
  assume l: "len \<le> 65536"
  have a: "unat ((x :: u32) AND 0xffff) < 65536" for x by (simp add: unat_low16)
  have p: "unat (x + y) \<le> unat x + unat y" for x y :: u32 by (simp add: unat_word_ariths)
  have o: "unat (of_nat len :: u32) \<le> 65536" using l by (simp add: unat_of_nat)
  let ?a = "drop_bit 16 s AND 0xffff" and ?b = "s AND 0xffff" and ?c = "drop_bit 16 d AND 0xffff" and ?e = "d AND 0xffff"
  have "unat (udp_pseudo len s d) \<le> unat ?a + unat ?b + unat ?c + unat ?e + 17 + unat (of_nat len :: u32)"
    unfolding udp_pseudo_def
    using p [of ?a ?b] p [of "?a + ?b" ?c] p [of "?a + ?b + ?c" ?e] p [of "?a + ?b + ?c + ?e" 17]
      p [of "?a + ?b + ?c + ?e + 17" "of_nat len"] by simp
  then show ?thesis using a [of "drop_bit 16 s"] a [of s] a [of "drop_bit 16 d"] a [of d] o by linarith
qed

lemma udp_segment_sum:
  assumes "length data \<le> 1400"
  shows "udp_sum (udp_segment sport dport data s d) s d = 0"
proof -
  let ?p = "net_put16 sport @ net_put16 dport @ net_put16 (of_nat (UDP_HDR_LEN + length data)) @ net_put16 0 @ data"
  have l: "length ?p = 8 + length data" by simp
  have "unat (udp_pseudo (length ?p) s d) \<le> 400000" using assms by (intro udp_pseudo_bound) simp
  then have "csum_from (udp_pseudo (length ?p) s d) (put_bytes 6 (net_put16 (csum_from (udp_pseudo (length ?p) s d) ?p)) ?p) = 0"
    using assms by (intro csum_from_fill) (simp_all add: net_put16_def nth_Cons')
  then show ?thesis by (simp add: udp_segment_def Let_def udp_sum_from)
qed

lemma udp_segment_eq:
  "\<exists>c. udp_segment sport dport data s d =
     net_put16 sport @ net_put16 dport @ net_put16 (of_nat (8 + length data)) @ net_put16 c @ data"
  by (simp add: udp_segment_def put_bytes_def net_put16_def Let_def net_consts) blast

lemma word_sum_be16: "unat (net_be16 (a # b # r)) = unat a * 256 + unat b"
proof -
  have ub: "unat b < 256" "unat a < 256" using unat_bound [of b] unat_bound [of a] by simp_all
  have e: "unat (ucast b :: u16) = unat b" "unat (ucast a :: u16) = unat a" by (simp_all add: unat_ucast_up)
  have "unat (ucast b OR push_bit 8 (ucast a) :: u16) = unat (ucast b :: u16) + (unat (ucast a :: u16) mod 2 ^ (LENGTH(16) - 8)) * 2 ^ 8"
    using ub by (intro unat_or_push) (simp_all add: e)
  then show ?thesis using ub by (simp add: net_be16_def e or.commute)
qed

section \<open>The receive ring\<close>

lemma unat_udp_mask: "unat (x AND UDP_MASK) = unat x mod 16384"
proof -
  have "UDP_MASK = mask 14" by (simp add: UDP_MASK_def mask_eq_exp_minus_1)
  then show ?thesis using unat_and_mask [of x 14] by simp
qed

lemma unat_of_nat16: "n < 65536 \<Longrightarrow> unat (of_nat n :: u16) = n"
  by (simp add: unat_of_nat)

lemma rx_push_fold:
  assumes "length (u_rx p) = 16384" "rx_tail p = of_nat t" "t + length bs \<le> 16384"
  shows "fold rx_push bs p = p\<lparr>u_rx := put_bytes t bs (u_rx p), rx_tail := of_nat (t + length bs)\<rparr>"
  using assms
proof (induction bs arbitrary: p t)
  case (Cons b bs)
  have t: "unat (rx_tail p AND UDP_MASK) = t" using Cons.prems by (simp add: unat_udp_mask unat_of_nat16)
  have e: "rx_push b p = p\<lparr>u_rx := (u_rx p)[t := b], rx_tail := of_nat (Suc t)\<rparr>"
    unfolding rx_push_def t using Cons.prems(2) by (simp add: add.commute)
  have "put_bytes (Suc t) bs ((u_rx p)[t := b]) = put_bytes t (b # bs) (u_rx p)"
    using Cons.prems by (simp add: put_bytes_def take_Suc_conv_app_nth)
  then show ?case using Cons.IH [of "rx_push b p" "Suc t"] Cons.prems by (simp add: e)
qed (simp add: put_bytes_def)

lemma rx_skip_head:
  assumes "rx_head p = of_nat (a mod 16384)" "k \<le> 16384"
  shows "rx_skip (of_nat k) p = p\<lparr>rx_head := of_nat ((a + k) mod 16384)\<rparr>"
proof -
  define b where "b = a mod 16384"
  have b: "b < 16384" by (simp add: b_def)
  have h: "rx_head p + of_nat k = (of_nat (b + k) :: u16)" using assms(1) by (simp add: b_def)
  have "unat ((of_nat (b + k) :: u16) AND UDP_MASK) = (b + k) mod 16384"
    unfolding unat_udp_mask using b assms(2) by (subst unat_of_nat16) simp_all
  moreover have "(b + k) mod 16384 = (a + k) mod 16384" by (simp add: b_def mod_add_left_eq)
  ultimately have "(of_nat (b + k) :: u16) AND UDP_MASK = of_nat ((a + k) mod 16384)" by (metis of_nat_unat ucast_id)
  then show ?thesis by (simp add: rx_skip_def h)
qed

lemma rx_at_head: "rx_head p = of_nat (a mod 16384) \<Longrightarrow> rx_at p = a mod 16384"
  by (simp add: rx_at_def unat_udp_mask unat_of_nat16)

definition rx_record :: "u8 list \<Rightarrow> u32 \<Rightarrow> u16 \<Rightarrow> u8 list" where
  "rx_record data sa sp = net_put16 (of_nat (length data)) @ net_put32 sa @ net_put16 sp @ data"

lemma rx_put_eq:
  assumes "length (u_rx p) = 16384" "rx_head p = of_nat h" "rx_tail p = of_nat h" "h + 8 + length data \<le> 16384"
  shows "udp_rx_put data sa sp p = p\<lparr>u_rx := put_bytes h (rx_record data sa sp) (u_rx p), rx_tail := of_nat (h + 8 + length data)\<rparr>"
proof -
  have "udp_rx_room p = 16384" using assms(2,3) by (simp add: udp_rx_room_def UDP_RCV_BUF_def)
  then have "\<not> (of_nat (2 + 4 + 2 + length data) :: u32) > word_of_int (udp_rx_room p)"
    using assms(4) by (simp add: word_less_nat_alt unat_of_nat del: of_nat_add)
  then show ?thesis
    using rx_push_fold [OF assms(1,3), of "rx_record data sa sp"] assms(4)
    by (simp add: udp_rx_put_def Let_def rx_record_def add.assoc)
qed

text \<open>A record that lies in the ring without wrapping around is read back.\<close>

lemma rx_recv_record:
  assumes rx: "length (u_rx p) = 16384" "rx_head p = of_nat h" "h + 8 + length data \<le> 16384" "length data \<le> len"
    and rec: "take (8 + length data) (drop h (u_rx p)) = rx_record data sa sp" and ready: "rx_tail p \<noteq> rx_head p"
  shows "udp_recv_pcb len p = (Some \<lparr>dg_data = data, dg_saddr = sa, dg_sport = sp\<rparr>, p\<lparr>rx_head := of_nat ((h + 8 + length data) mod 16384)\<rparr>)"
proof -
  obtain r where r: "drop h (u_rx p) = rx_record data sa sp @ r" using rec by (metis append_take_drop_id)
  have h: "h < 16384" using rx(3) by simp
  have l: "length data < 65536" using rx(3) by simp
  define L where "L = length data"
  have d: "drop (h + i) (u_rx p) = drop i (rx_record data sa sp @ r)" for i
    using r by (metis drop_drop add.commute)
  have n: "u_rx p ! (h + i) = (rx_record data sa sp @ r) ! i" if "h + i < 16384" for i
    using r rx(1) that by (metis nth_drop less_imp_le_nat less_trans not_le add.commute nat_le_linear le_add1 h)
  define p1 where "p1 = p\<lparr>rx_head := of_nat ((h + 1) mod 16384)\<rparr>"
  define p2 where "p2 = p\<lparr>rx_head := of_nat ((h + 2) mod 16384)\<rparr>"
  define p6 where "p6 = p\<lparr>rx_head := of_nat ((h + 6) mod 16384)\<rparr>"
  define p8 where "p8 = p\<lparr>rx_head := of_nat ((h + 8) mod 16384)\<rparr>"
  have s1: "rx_skip 1 p = p1" using rx_skip_head [of p h 1] rx(2) h by (simp add: p1_def)
  have s2: "rx_skip 1 p1 = p2" using rx_skip_head [of p1 "h + 1" 1] by (simp add: p1_def p2_def)
  have s6: "rx_skip 4 p2 = p6" using rx_skip_head [of p2 "h + 2" 4] by (simp add: p2_def p6_def add.commute)
  have s8: "rx_skip 2 p6 = p8" using rx_skip_head [of p6 "h + 6" 2] by (simp add: p6_def p8_def add.commute)
  have s9: "rx_skip (of_nat L) p8 = p\<lparr>rx_head := of_nat ((h + 8 + L) mod 16384)\<rparr>"
    using rx_skip_head [of p8 "h + 8" L] rx(3) by (simp add: p8_def L_def)
  have a: "rx_at p = h" "rx_at p1 = h + 1" "rx_at p2 = h + 2" "rx_at p6 = h + 6" "rx_at p8 = (h + 8) mod 16384"
    using rx_at_head [of p h] rx_at_head [of p1 "h + 1"] rx_at_head [of p2 "h + 2"] rx_at_head [of p6 "h + 6"]
      rx_at_head [of p8 "h + 8"] rx(2,3) h by (simp_all add: p1_def p2_def p6_def p8_def)
  have u: "u_rx p1 = u_rx p" by (simp add: p1_def)
  have cnt: "unat (u_rx p ! h) * 256 + unat (u_rx p ! (h + 1)) = L"
  proof -
    have "unat (ucast (drop_bit 8 (of_nat L :: u16)) :: u8) = L div 256" "unat (ucast (of_nat L :: u16) :: u8) = L mod 256"
      using l by (simp_all add: unat_ucast_mod unat_of_nat16 L_def less_mult_imp_div_less)
    then show ?thesis using n [of 0] n [of 1] rx(3) by (simp add: rx_record_def net_put16_def L_def)
  qed
  have sa: "net_be32 (drop (h + 2) (rx_mem p2)) = sa"
  proof -
    have "drop (h + 2) (rx_mem p2) = drop 2 (rx_record data sa sp @ r) @ drop 16384 (rx_mem p2)"
      using rx d [of 2] by (simp add: rx_mem_def p2_def)
    then show ?thesis by (simp add: rx_record_def be32_put32)
  qed
  have sp: "net_be16 (drop (h + 6) (rx_mem p6)) = sp"
  proof -
    have "drop (h + 6) (rx_mem p6) = drop 6 (rx_record data sa sp @ r) @ drop 16384 (rx_mem p6)"
      using rx d [of 6] by (simp add: rx_mem_def p6_def)
    then show ?thesis by (simp add: rx_record_def be16_put16)
  qed
  have data: "(h + 8) mod 16384 + L \<le> UDP_RCV_BUF" "take L (drop ((h + 8) mod 16384) (u_rx p8)) = data"
  proof -
    show "(h + 8) mod 16384 + L \<le> UDP_RCV_BUF"
      using rx(3) by (cases "h + 8 = 16384") (simp_all add: UDP_RCV_BUF_def L_def)
    show "take L (drop ((h + 8) mod 16384) (u_rx p8)) = data"
    proof (cases "L = 0")
      case False
      then have "h + 8 < 16384" using rx(3) unfolding L_def by linarith
      then have "(h + 8) mod 16384 = h + 8" by simp
      then show ?thesis using d [of 8] by (simp add: p8_def rx_record_def L_def)
    qed (simp add: L_def)
  qed
  show ?thesis
    unfolding udp_recv_pcb_def udp_rx_ready_def Let_def s1 s2 s6 s8 a u cnt sa sp s9
    using ready rx(4) data by (simp add: L_def [symmetric])
qed

lemma rx_put_recv:
  assumes "length (u_rx p) = 16384" "rx_head p = of_nat h" "rx_tail p = of_nat h" "h + 8 + length data \<le> 16384" "length data \<le> len"
  shows "udp_recv_pcb len (udp_rx_put data sa sp p) =
    (Some \<lparr>dg_data = data, dg_saddr = sa, dg_sport = sp\<rparr>, (udp_rx_put data sa sp p)\<lparr>rx_head := of_nat ((h + 8 + length data) mod 16384)\<rparr>)"
proof -
  define q where "q = udp_rx_put data sa sp p"
  have q: "q = p\<lparr>u_rx := put_bytes h (rx_record data sa sp) (u_rx p), rx_tail := of_nat (h + 8 + length data)\<rparr>"
    unfolding q_def by (rule rx_put_eq [OF assms(1-4)])
  have lr: "length (rx_record data sa sp) = 8 + length data" by (simp add: rx_record_def)
  have "udp_recv_pcb len q = (Some \<lparr>dg_data = data, dg_saddr = sa, dg_sport = sp\<rparr>, q\<lparr>rx_head := of_nat ((h + 8 + length data) mod 16384)\<rparr>)"
  proof (rule rx_recv_record)
    show "length (u_rx q) = 16384" "h + 8 + length data \<le> 16384" "length data \<le> len" "rx_head q = of_nat h"
      using assms lr by (simp_all add: q)
    show "take (8 + length data) (drop h (u_rx q)) = rx_record data sa sp"
      using assms(1,4) lr by (simp add: q put_bytes_def)
    show "rx_tail q \<noteq> rx_head q"
    proof
      assume "rx_tail q = rx_head q"
      then have "unat (of_nat (h + 8 + length data) :: u16) = unat (of_nat h :: u16)" using assms(2) by (simp add: q del: of_nat_add)
      then show False using assms(4) by (simp add: unat_of_nat16 del: of_nat_add)
    qed
  qed
  then show ?thesis by (simp add: q_def)
qed

section \<open>From host to host\<close>

lemma ip_input_header:
  assumes "length data \<le> 1480" "proto = 1 \<or> proto = 17"
  shows "ip_input tcp tick (ip_header src (if_ip (nif n)) proto (20 + length data) @ data) n =
    (if proto = 1 then icmp_input tick src data n else udp_input src data n)"
proof -
  note f = ip_header_fields [where s = src and d = "if_ip (nif n)" and p = proto and t = "20 + length data" and xs = data]
  define h where "h = ip_header src (if_ip (nif n)) proto (20 + length data) @ data"
  note f = f [folded h_def]
  have l: "length h = 20 + length data" by (simp add: h_def length_ip_header)
  have i: "unat ((h ! 0 AND 0x0F) * 4) = 20" "drop_bit 4 (h ! 0) = 4" unfolding f(1) by simp_all
  have t: "unat (net_be16 (drop 2 h)) = 20 + length data"
    unfolding f(3) using assms(1) by (simp add: unat_of_nat16 del: of_nat_add)
  have c: "ip_csum (take 20 h) = 0" unfolding f(6) by (rule ip_header_csum)
  show ?thesis
    unfolding h_def [symmetric] ip_input_def Let_def i t IP_HDR_LEN_def c f(2,4,5,7) l using assms(2) by auto
qed

lemma eth_frame:
  assumes "length dst = 6" "length mac = 6"
  shows "take 6 (dst @ mac @ net_put16 ty @ p) = dst" "net_be16 (drop 12 (dst @ mac @ net_put16 ty @ p)) = ty"
    "drop 14 (dst @ mac @ net_put16 ty @ p) = p"
  using assms be16_drop [of "dst @ mac" 12 ty p] by simp_all

lemma eth_input_frame:
  assumes "length dst = 6" "length mac = 6" "dst = if_mac (nif n) \<or> dst = replicate 6 0xFF"
  shows "eth_input tcp tick (dst @ mac @ net_put16 ETH_IP @ p) n = ip_input tcp tick p n"
    "eth_input tcp tick (dst @ mac @ net_put16 ETH_ARP @ p) n = arp_input p n"
proof -
  have "take 6 (if_mac (nif n)) = dst \<or> dst = replicate 6 0xFF" using assms by auto
  moreover have "ETH_IP \<noteq> ETH_ARP" by (simp add: net_consts)
  ultimately show "eth_input tcp tick (dst @ mac @ net_put16 ETH_IP @ p) n = ip_input tcp tick p n"
    "eth_input tcp tick (dst @ mac @ net_put16 ETH_ARP @ p) n = arp_input p n"
    unfolding eth_input_def Let_def ETH_HDR_LEN_def eth_frame [OF assms(1,2)] using assms(1,2) by auto
qed

lemma udp_input_segment:
  assumes "udp_lookup src sport dport n = Some k" "length data \<le> 1400"
  shows "udp_input src (udp_segment sport dport data src (if_ip (nif n))) n = upd_pcb k (udp_rx_put data src sport) n"
proof -
  define g where "g = udp_segment sport dport data src (if_ip (nif n))"
  obtain c where c: "g = net_put16 sport @ net_put16 dport @ net_put16 (of_nat (8 + length data)) @ net_put16 c @ data"
    using udp_segment_eq unfolding g_def by blast
  have l: "length g = 8 + length data" by (simp add: c)
  have f: "net_be16 g = sport" "net_be16 (drop 2 g) = dport" "net_be16 (drop 4 g) = of_nat (8 + length data)"
    using be16_drop [of "[]" 0 sport] be16_drop [of "net_put16 sport" 2 dport] be16_drop [of "net_put16 sport @ net_put16 dport" 4]
    by (simp_all add: c)
  have u: "unat (net_be16 (drop 4 g)) = 8 + length data" using assms(2) by (simp add: f(3) unat_of_nat16 del: of_nat_add)
  have t: "take (8 + length data) g = g" "drop 8 g = data" by (simp_all add: c)
  have z: "udp_sum g src (if_ip (nif n)) = 0" unfolding g_def using assms(2) by (rule udp_segment_sum)
  have "udp_input src g n = upd_pcb k (udp_rx_put data src sport) n"
    unfolding udp_input_def Let_def UDP_HDR_LEN_def u f(1,2) t z using assms(1) l by simp
  then show ?thesis by (simp add: g_def)
qed


section \<open>Two hosts\<close>

definition zero_arp :: arp_entry where
  "zero_arp = \<lparr>ae_ip = 0, ae_mac = replicate 6 0, ae_tmo = 0, ae_valid = False\<rparr>"

text \<open>A host with one control block, bound to a port, whose cache has the given first entry.\<close>

definition demo_host :: "u8 list \<Rightarrow> u32 \<Rightarrow> u16 \<Rightarrow> arp_entry \<Rightarrow> net" where
  "demo_host mac ip port e =
     \<lparr>nif = \<lparr>if_mac = mac, if_ip = ip, if_mask = 0xFFFFFF00, if_gw = 0\<rparr>, tx_fn = Some (\<lambda>_. 0), sent = [], s_cache = e # replicate 15 zero_arp,
      s_tick = 0, s_pend = replicate 4 \<lparr>pd_dst = 0, pd_len = 0, pd_active = False, pd_frame = replicate 1518 0\<rparr>,
      s_ping_q = replicate 32 \<lparr>pr_src = 0, pr_id = 0, pr_seq = 0, pr_rtt = 0\<rparr>, s_ping_head = 0, s_ping_tail = 0, s_ping_cnt = 0,
      s_ping_tmo = 0, s_ping_active = False,
      s_upcb = udp_pcb_zero\<lparr>u_active := True, u_local_port := port\<rparr> # replicate 31 udp_pcb_zero\<rparr>"

definition demo_mac :: "u8 \<Rightarrow> u8 list" where
  "demo_mac x = [2, 0, 0, 0, 0, x]"

definition host_a :: net where
  "host_a = demo_host (demo_mac 1) 0x0A000001 4000 \<lparr>ae_ip = 0x0A000002, ae_mac = demo_mac 2, ae_tmo = 0, ae_valid = True\<rparr>"

definition host_b :: net where
  "host_b = demo_host (demo_mac 2) 0x0A000002 53 zero_arp"

lemma find_upt_0: "0 < m \<Longrightarrow> P 0 \<Longrightarrow> find P [0..<m] = Some 0"
  by (auto simp: find_Some_iff)


section \<open>Faults\<close>





end
