(* ===== verification/Net_Arp.thy ===== *)
theory Net_Arp
  imports Net_Props
begin

text \<open>The ARP cache, and the exchange that finds a neighbour and releases the packet that waits for it.\<close>

section \<open>The cache\<close>

lemma find_upt_Some_iff:
  "find P [0..<m] = Some i \<longleftrightarrow> i < m \<and> P i \<and> (\<forall>j<i. \<not> P j)"
  by (auto simp: find_Some_iff)

lemma arp_slot_loop_less: "\<forall>i\<in>set is. i < 16 \<Longrightarrow> oldest < 16 \<Longrightarrow> arp_slot_loop n is oldest < 16"
  by (induction n "is" oldest rule: arp_slot_loop.induct) auto

lemma arp_slot_less: "arp_slot n < 16"
  unfolding arp_slot_def by (rule arp_slot_loop_less) (auto simp: net_consts)

lemma arp_find_Some_iff:
  "arp_find n ip = Some i \<longleftrightarrow> i < 16 \<and> ae_valid (s_cache n ! i) \<and> ae_ip (s_cache n ! i) = ip \<and>
     (\<forall>j<i. \<not> (ae_valid (s_cache n ! j) \<and> ae_ip (s_cache n ! j) = ip))"
  by (simp add: arp_find_def find_upt_Some_iff net_consts)

lemma arp_find_None_iff: "arp_find n ip = None \<longleftrightarrow> (\<forall>j<16. \<not> (ae_valid (s_cache n ! j) \<and> ae_ip (s_cache n ! j) = ip))"
  by (auto simp: arp_find_def find_None_iff net_consts)

text \<open>After an insertion the address resolves to the inserted link address.\<close>

lemma arp_add_find:
  assumes "length (s_cache n) = 16"
  shows "\<exists>i. arp_find (arp_cache_add ip mac n) ip = Some i \<and> ae_mac (s_cache (arp_cache_add ip mac n) ! i) = take 6 mac"
proof -
  obtain i where i: "s_cache (arp_cache_add ip mac n) = (s_cache n)[i := \<lparr>ae_ip = ip, ae_mac = take 6 mac, ae_tmo = s_tick n, ae_valid = True\<rparr>]"
      "i < 16" "\<forall>j<i. \<not> (ae_valid (s_cache n ! j) \<and> ae_ip (s_cache n ! j) = ip)"
  proof (cases "arp_find n ip")
    case None
    then show ?thesis using that [of "arp_slot n"] arp_slot_less [of n] arp_find_None_iff [of n ip] by (simp add: arp_cache_add_def)
  next
    case (Some k)
    then show ?thesis using that [of k] arp_find_Some_iff [of n ip k] by (simp add: arp_cache_add_def)
  qed
  then have "arp_find (arp_cache_add ip mac n) ip = Some i" using assms by (simp add: arp_find_Some_iff)
  then show ?thesis using i assms by simp
qed

lemma arp_add_frame [simp]:
  "nif (arp_cache_add ip mac n) = nif n" "tx_fn (arp_cache_add ip mac n) = tx_fn n" "sent (arp_cache_add ip mac n) = sent n"
  "s_pend (arp_cache_add ip mac n) = s_pend n" "length (s_cache (arp_cache_add ip mac n)) = length (s_cache n)"
  by (simp_all add: arp_cache_add_def Let_def)

section \<open>ARP packets\<close>

lemma arp_build_fields:
  fixes op :: u16 and spa ipa :: u32
  assumes "length (if_mac (nif n)) = 6" "length tha \<ge> 6"
  defines "p \<equiv> arp_build n op tha spa ipa"
  shows "length p = 28" "net_be16 p = 1" "net_be16 (drop 2 p) = 0x0800" "p ! 4 = 6" "p ! 5 = 4" "net_be16 (drop 6 p) = op"
    "take 6 (drop 8 p) = if_mac (nif n)" "net_be32 (drop 14 p) = spa" "net_be32 (drop 24 p) = ipa"
proof -
  let ?m = "if_mac (nif n)"
  have p: "p = net_put16 1 @ net_put16 0x0800 @ [6, 4] @ net_put16 op @ ?m @ net_put32 spa @ take 6 tha @ net_put32 ipa"
    using assms(1) by (simp add: p_def arp_build_def)
  show "length p = 28" "p ! 4 = 6" "p ! 5 = 4" using assms(1,2) by (simp_all add: p net_put16_def)
  show "take 6 (drop 8 p) = ?m" using assms(1) by (simp add: p)
  show "net_be16 p = 1" unfolding p by (rule be16_put16)
  show "net_be16 (drop 2 p) = 0x0800" unfolding p by (rule be16_drop) simp
  show "net_be16 (drop 6 p) = op"
    using be16_drop [of "net_put16 1 @ net_put16 0x0800 @ [6, 4]" 6 op] by (simp add: p)
  show "net_be32 (drop 14 p) = spa"
    using be32_drop [of "net_put16 1 @ net_put16 0x0800 @ [6, 4] @ net_put16 op @ ?m" 14 spa] assms(1) by (simp add: p)
  show "net_be32 (drop 24 p) = ipa"
    using be32_drop [of "net_put16 1 @ net_put16 0x0800 @ [6, 4] @ net_put16 op @ ?m @ net_put32 spa @ take 6 tha" 24 ipa "[]"] assms(1,2)
    by (simp add: p)
qed

lemma arp_input_request:
  fixes b :: net
  assumes "length (if_mac (nif a)) = 6" "length tha \<ge> 6" "spa \<noteq> 0"
  defines "p \<equiv> arp_build a 1 tha spa (if_ip (nif b))"
  shows "arp_input p b = snd (eth_output (drop 8 p) ETH_ARP
    (arp_build (arp_cache_add spa (drop 8 p) b) 2 (drop 8 p) (if_ip (nif b)) spa) (arp_cache_add spa (drop 8 p) b))"
  using arp_build_fields [OF assms(1,2), where op = 1 and spa = spa and ipa = "if_ip (nif b)", folded p_def] assms(3)
  by (simp add: arp_input_def Let_def)

lemma arp_input_reply:
  fixes ipa :: u32
  assumes "length (if_mac (nif b)) = 6" "length tha \<ge> 6" "spa \<noteq> 0" "length (s_cache a) = 16"
  defines "p \<equiv> arp_build b 2 tha spa ipa"
  shows "arp_input p a = ip_arp_resolved spa (if_mac (nif b)) (arp_cache_add spa (drop 8 p) a)"
  using arp_build_fields [OF assms(1,2), where op = 2 and spa = spa and ipa = ipa, folded p_def] assms(3)
    arp_add_find [OF assms(4), of spa "drop 8 p"]
  by (auto simp: arp_input_def Let_def)

section \<open>The exchange\<close>

definition no_pend :: "net \<Rightarrow> bool" where
  "no_pend n \<longleftrightarrow> length (s_pend n) = IP_PEND_MAX \<and> (\<forall>p\<in>set (s_pend n). \<not> pd_active p \<and> length (pd_frame p) = ETH_FRAME_MAX)"

lemma no_pend_cases:
  assumes "no_pend n"
  obtains p0 p1 p2 p3 where "s_pend n = [p0, p1, p2, p3]" "\<not> pd_active p0" "\<not> pd_active p1" "\<not> pd_active p2" "\<not> pd_active p3"
    "length (pd_frame p0) = 1518"
proof -
  have "length (s_pend n) = Suc (Suc (Suc (Suc 0)))" using assms by (simp add: no_pend_def net_consts)
  then obtain p0 p1 p2 p3 where "s_pend n = [p0, p1, p2, p3]" by (auto simp: length_Suc_conv)
  then show ?thesis using that assms by (auto simp: no_pend_def net_consts)
qed

definition eth_frame_of :: "u8 list \<Rightarrow> u8 list \<Rightarrow> u16 \<Rightarrow> u8 list \<Rightarrow> u8 list" where
  "eth_frame_of dst src ty p = dst @ src @ net_put16 ty @ p"

lemma eth_output_sent:
  assumes "tx_fn n = Some tx" "length (if_mac (nif n)) = 6" "length dst \<ge> 6" "length p \<le> 1504"
  shows "eth_output dst ty p n = (tx (eth_frame_of (take 6 dst) (if_mac (nif n)) ty p), n\<lparr>sent := sent n @ [eth_frame_of (take 6 dst) (if_mac (nif n)) ty p]\<rparr>)"
  using assms by (simp add: eth_output_def eth_frame_of_def Let_def net_consts)

lemma ip_output_unresolved:
  fixes proto :: u8
  assumes a: "tx_fn a = Some tx" "length (if_mac (nif a)) = 6" "no_pend a" "arp_find a daddr = None"
    and d: "daddr AND if_mask (nif a) = if_ip (nif a) AND if_mask (nif a)" "length data \<le> TCP_MSS"
    and bc: "bc = replicate 6 0xFF" and pkt: "pkt = ip_header (if_ip (nif a)) daddr proto (20 + length data) @ data"
    and req: "req = eth_frame_of bc (if_mac (nif a)) ETH_ARP (arp_build a 1 bc (if_ip (nif a)) daddr)"
  shows "ip_output daddr proto data a =
    (0, a\<lparr>sent := sent a @ [req], s_pend := (s_pend a)[0 := (s_pend a ! 0)\<lparr>pd_dst := daddr, pd_len := 20 + length data,
       pd_frame := put_bytes 0 pkt (pd_frame (s_pend a ! 0)), pd_active := True\<rparr>]\<rparr>)"
proof -
  obtain p0 p1 p2 p3 where p: "s_pend a = [p0, p1, p2, p3]" "\<not> pd_active p0" "\<not> pd_active p1" "\<not> pd_active p2" "\<not> pd_active p3"
    "length (pd_frame p0) = 1518" by (rule no_pend_cases [OF a(3)])
  have lb: "length bc = 6" by (simp add: bc)
  then have tb: "take 6 bc = bc" by simp
  have l: "length (arp_build a 1 bc (if_ip (nif a)) daddr) = 28" by (rule arp_build_fields(1)) (simp_all add: a(2) lb)
  have e: "eth_output bc ETH_ARP (arp_build a 1 bc (if_ip (nif a)) daddr) a = (tx req, a\<lparr>sent := sent a @ [req]\<rparr>)"
    using eth_output_sent [OF a(1,2), of bc "arp_build a 1 bc (if_ip (nif a)) daddr" ETH_ARP] l lb tb by (simp add: req)
  have s: "ip_pend_slot (a\<lparr>sent := sent a @ [req]\<rparr>) daddr = Some 0"
  proof -
    have "find (\<lambda>i. \<not> pd_active (s_pend a ! i)) [0..<IP_PEND_MAX] = Some 0" using p by (simp add: find_upt_Some_iff IP_PEND_MAX_def)
    then show ?thesis by (simp add: ip_pend_slot_def)
  qed
  have r: "arp_resolve daddr a = (None, a\<lparr>sent := sent a @ [req]\<rparr>)"
    unfolding arp_resolve_def a(4) Let_def bc [symmetric] e by simp
  have n: "\<not> IP_HDR_LEN + length data > IP_HDR_LEN + TCP_MSS" using d(2) by simp
  show ?thesis
    using d n by (simp add: ip_output_def Let_def r s pkt IP_HDR_LEN_def)
qed

lemma ip_arp_resolved_one:
  assumes a: "tx_fn n = Some tx" "length (if_mac (nif n)) = 6" "length mac = 6"
    and p: "s_pend n = [p0, p1, p2, p3]" "pd_active p0" "pd_dst p0 = ip" "\<not> pd_active p1" "\<not> pd_active p2" "\<not> pd_active p3"
      "pd_len p0 \<le> 1504"
  shows "sent (ip_arp_resolved ip mac n) = sent n @ [eth_frame_of mac (if_mac (nif n)) ETH_IP (take (pd_len p0) (pd_frame p0))]"
proof -
  let ?n = "n\<lparr>s_pend := [p0\<lparr>pd_active := False\<rparr>, p1, p2, p3]\<rparr>"
  let ?f = "eth_frame_of mac (if_mac (nif n)) ETH_IP (take (pd_len p0) (pd_frame p0))"
  have e: "eth_output mac ETH_IP (take (pd_len p0) (pd_frame p0)) ?n = (tx ?f, ?n\<lparr>sent := sent n @ [?f]\<rparr>)"
    using eth_output_sent [of ?n tx mac] a p(2,7) by simp
  have "[0..<IP_PEND_MAX] = [0, 1, 2, 3]" by (simp add: net_consts upt_rec)
  then show ?thesis using p e by (simp add: ip_arp_resolved_def ip_pend_send_def Let_def numeral_2_eq_2 numeral_3_eq_3)
qed

text \<open>
  C13. Host \<open>a\<close> sends a packet to a neighbour \<open>b\<close> whose link address it does not know. It broadcasts one
  request and keeps the packet; \<open>b\<close>, on getting the request, sends one reply; \<open>a\<close>, on getting the
  reply, sends the packet, unchanged, in a frame to the link address of \<open>b\<close>.
\<close>

theorem arp_exchange:
  assumes "tx_fn a = Some txa" "length (if_mac (nif a)) = 6" "no_pend a" "length (s_cache a) = ARP_CACHE_SIZE"
    and "tx_fn b = Some txb" "length (if_mac (nif b)) = 6" "if_ip (nif a) \<noteq> 0" "if_ip (nif b) \<noteq> 0"
    and "arp_find a (if_ip (nif b)) = None" "length data \<le> TCP_MSS"
    and "if_ip (nif b) AND if_mask (nif a) = if_ip (nif a) AND if_mask (nif a)"
    and "ip_output (if_ip (nif b)) proto data a = (rc, a1)"
  shows "\<exists>req rep. sent a1 = sent a @ [req] \<and> sent (eth_input tcp tick req b) = sent b @ [rep] \<and>
    sent (eth_input tcp' tick' rep a1) = sent a @ [req, if_mac (nif b) @ if_mac (nif a) @ net_put16 ETH_IP @
      ip_header (if_ip (nif a)) (if_ip (nif b)) proto (20 + length data) @ data]"
proof -
  define pkt where "pkt = ip_header (if_ip (nif a)) (if_ip (nif b)) proto (20 + length data) @ data"
  define bc where "bc = (replicate 6 0xFF :: u8 list)"
  define ap where "ap = arp_build a 1 bc (if_ip (nif a)) (if_ip (nif b))"
  define req where "req = eth_frame_of bc (if_mac (nif a)) ETH_ARP ap"
  note out = ip_output_unresolved [OF assms(1-3,9,11,10) bc_def pkt_def req_def [unfolded ap_def]]
  obtain p0 p1 p2 p3 where p: "s_pend a = [p0, p1, p2, p3]" "\<not> pd_active p0" "\<not> pd_active p1" "\<not> pd_active p2" "\<not> pd_active p3"
    "length (pd_frame p0) = 1518" by (rule no_pend_cases [OF assms(3)])
  have a1: "a1 = a\<lparr>sent := sent a @ [req], s_pend := [p0\<lparr>pd_dst := if_ip (nif b), pd_len := 20 + length data,
       pd_frame := put_bytes 0 pkt (pd_frame p0), pd_active := True\<rparr>, p1, p2, p3]\<rparr>" using out assms(12) by (simp add: p(1))
  note fa = arp_build_fields [OF assms(2), where tha = bc and op = 1 and spa = "if_ip (nif a)" and ipa = "if_ip (nif b)", folded ap_def]
  define b1 where "b1 = arp_cache_add (if_ip (nif a)) (drop 8 ap) b"
  define bp where "bp = arp_build b1 2 (drop 8 ap) (if_ip (nif b)) (if_ip (nif a))"
  define rep where "rep = eth_frame_of (if_mac (nif a)) (if_mac (nif b)) ETH_ARP bp"
  have lap: "length ap = 28" "take 6 (drop 8 ap) = if_mac (nif a)" using fa by (simp_all add: bc_def)
  have lbp: "length bp = 28" unfolding bp_def by (rule arp_build_fields(1)) (simp_all add: b1_def assms(6) lap)
  have "eth_input tcp tick req b = arp_input ap b"
    unfolding req_def eth_frame_of_def by (rule eth_input_frame(2)) (simp_all add: bc_def assms(2))
  also have "\<dots> = snd (eth_output (drop 8 ap) ETH_ARP bp b1)"
    unfolding bp_def b1_def ap_def using assms(7) by (intro arp_input_request) (simp_all add: assms(2) bc_def)
  finally have sb: "sent (eth_input tcp tick req b) = sent b @ [rep]"
    using eth_output_sent [of b1 txb "drop 8 ap" bp] assms(5,6) lap lbp by (simp add: rep_def b1_def)
  define a2 where "a2 = arp_cache_add (if_ip (nif b)) (drop 8 bp) a1"
  have "eth_input tcp' tick' rep a1 = arp_input bp a1"
    unfolding rep_def eth_frame_of_def by (rule eth_input_frame(2)) (simp_all add: assms(2,6) a1)
  also have "\<dots> = ip_arp_resolved (if_ip (nif b)) (if_mac (nif b1)) a2"
    unfolding bp_def a2_def using assms(8) by (intro arp_input_reply) (use assms(4,6) lap in \<open>simp_all add: a1 b1_def net_consts\<close>)
  finally have "sent (eth_input tcp' tick' rep a1) = sent a2 @ [eth_frame_of (if_mac (nif b)) (if_mac (nif a2)) ETH_IP
      (take (20 + length data) (put_bytes 0 pkt (pd_frame p0)))]"
    using ip_arp_resolved_one [of a2 txa "if_mac (nif b1)" _ p1 p2 p3 "if_ip (nif b)"] assms(1,2,6,10) p
    by (simp add: a2_def a1 b1_def net_consts)
  moreover have "take (20 + length data) (put_bytes 0 pkt (pd_frame p0)) = pkt"
    by (simp add: put_bytes_def pkt_def length_ip_header)
  ultimately have "sent (eth_input tcp' tick' rep a1) = sent a @ [req, if_mac (nif b) @ if_mac (nif a) @ net_put16 ETH_IP @ pkt]"
    by (simp add: a2_def a1 eth_frame_of_def)
  then show ?thesis using sb a1 unfolding pkt_def by auto
qed

text \<open>A host that knows no neighbour.\<close>

definition host_c :: net where
  "host_c = demo_host (demo_mac 3) 0x0A000003 4000 zero_arp"

theorem arp_exchange_witness:
  "\<exists>req rep. sent (snd (ip_output 0x0A000002 17 [1, 2] host_c)) = [req] \<and> sent (eth_input (\<lambda>_ _ n. n) 0 req host_b) = [rep] \<and>
     sent (eth_input (\<lambda>_ _ n. n) 0 rep (snd (ip_output 0x0A000002 17 [1, 2] host_c))) =
       [req, demo_mac 2 @ demo_mac 3 @ net_put16 ETH_IP @ ip_header 0x0A000003 0x0A000002 17 22 @ [1, 2]]"
proof -
  have h: "tx_fn host_c = Some (\<lambda>_. 0)" "length (if_mac (nif host_c)) = 6" "length (s_cache host_c) = ARP_CACHE_SIZE"
    "tx_fn host_b = Some (\<lambda>_. 0)" "length (if_mac (nif host_b)) = 6" "if_ip (nif host_c) \<noteq> 0" "if_ip (nif host_b) \<noteq> 0"
    "if_ip (nif host_b) AND if_mask (nif host_c) = if_ip (nif host_c) AND if_mask (nif host_c)"
    by (simp_all add: host_b_def host_c_def demo_host_def demo_mac_def net_consts)
  have n: "no_pend host_c" by (simp add: no_pend_def host_c_def demo_host_def net_consts)
  have f: "arp_find host_c (if_ip (nif host_b)) = None"
    by (auto simp: arp_find_None_iff host_c_def demo_host_def zero_arp_def nth_Cons')
  have d: "length [1 :: u8, 2] \<le> TCP_MSS" by (simp add: net_consts)
  from arp_exchange [OF h(1,2) n h(3-7) f d h(8) surjective_pairing, of 17 "\<lambda>_ _ n. n" 0 "\<lambda>_ _ n. n" 0]
  show ?thesis by (simp add: host_b_def host_c_def demo_host_def)
qed

end
