(* ===== verification/Net_Dns.thy ===== *)
theory Net_Dns
  imports Net_Wire
begin

text \<open>
  The DNS client (\<open>src/drivers/net/dns.c\<close>): building a query and parsing an answer. The answer is the list
  of the received bytes, and every read of it is checked: \<open>Fault\<close> is a read outside of them, \<open>Bad\<close>
  the result -1 of the code. Offsets are natural numbers; they stay below \<open>2 ^ 32\<close>.
\<close>

section \<open>Queries\<close>

definition DNS_NS_DEFAULT :: u32 where
  "DNS_NS_DEFAULT = 0x0A000203"

definition dns_nameserver :: "u32 \<Rightarrow> u32" where
  "dns_nameserver s_ns = s_ns"

definition dns_set_nameserver :: "u32 \<Rightarrow> u32 \<Rightarrow> u32" where
  "dns_set_nameserver ns s_ns = (if ns \<noteq> 0 then ns else s_ns)"

text \<open>A bit of a set of descriptors; \<open>SEL_FD_SET_FDS\<close> is 1024.\<close>

definition dns_fd_set :: "u32 list \<Rightarrow> int \<Rightarrow> u32 list" where
  "dns_fd_set fds fd =
     (if fd < 0 \<or> fd \<ge> 1024 then fds
      else fds[nat fd div 32 := fds ! (nat fd div 32) OR push_bit (nat fd mod 32) 1])"

text \<open>The labels of the name: \<open>p\<close> is the rest of the string, \<open>out\<close> what has been written.\<close>

function dns_labels :: "u8 list \<Rightarrow> u8 list \<Rightarrow> u8 list option" where
  "dns_labels p out =
     (if p = [] then Some out
      else
        let lab = takeWhile (\<lambda>c. c \<noteq> 0x2E) p;
            l = length lab;
            dot = drop l p
        in if l = 0 \<or> l > 63 \<or> length out + l + 6 > 512 then None
           else
             let out = out @ [of_nat l] @ lab
             in if dot = [] then Some out else dns_labels (tl dot) out)"
  by pat_completeness auto
termination by (relation "measure (length \<circ> fst)") auto

declare dns_labels.simps [simp del]

definition dns_build_query :: "u8 list \<Rightarrow> u16 \<Rightarrow> u8 list option" where
  "dns_build_query host ident =
     (if length host > 253 then None
      else
        case dns_labels host (net_put16 ident @ [0x01, 0x00, 0, 1, 0, 0, 0, 0, 0, 0]) of
          None \<Rightarrow> None
        | Some out \<Rightarrow> Some (out @ [0, 0, 1, 0, 1]))"

section \<open>Answers\<close>

datatype 'a parsed = Fault | Bad | Ok 'a

text \<open>The end of a name: a zero byte, or a pointer of two bytes.\<close>

function dns_skip_name :: "u8 list \<Rightarrow> nat \<Rightarrow> nat parsed" where
  "dns_skip_name b off =
     (if off \<ge> length b then Bad
      else
        let l = unat (b ! off) in
        if l = 0 then Ok (off + 1)
        else if b ! off AND 0xC0 = 0xC0 then Ok (off + 2)
        else if l > 63 then Bad
        else dns_skip_name b (off + 1 + l))"
  by pat_completeness auto
termination by (relation "measure (\<lambda>(b, off). length b - off)") auto

declare dns_skip_name.simps [simp del]

definition dns_rd16 :: "u8 list \<Rightarrow> nat \<Rightarrow> nat parsed" where
  "dns_rd16 b off = (if off + 1 < length b then Ok (unat (b ! off) * 256 + unat (b ! (off + 1))) else Fault)"

definition dns_rd32 :: "u8 list \<Rightarrow> nat \<Rightarrow> u32 parsed" where
  "dns_rd32 b off = (if off + 3 < length b then Ok (net_be32 (drop off b)) else Fault)"

fun dns_questions :: "u8 list \<Rightarrow> nat \<Rightarrow> nat \<Rightarrow> nat parsed" where
  "dns_questions b 0 off = Ok off"
| "dns_questions b (Suc qd) off =
     (case dns_skip_name b off of Fault \<Rightarrow> Fault | Bad \<Rightarrow> Bad | Ok off \<Rightarrow> dns_questions b qd (off + 4))"

fun dns_answers :: "u8 list \<Rightarrow> nat \<Rightarrow> nat \<Rightarrow> u32 parsed" where
  "dns_answers b 0 off = Bad"
| "dns_answers b (Suc an) off =
     (case dns_skip_name b off of
        Fault \<Rightarrow> Fault
      | Bad \<Rightarrow> Bad
      | Ok off \<Rightarrow>
          if off + 10 > length b then Bad
          else
            (case dns_rd16 b off of
               Fault \<Rightarrow> Fault | Bad \<Rightarrow> Bad
             | Ok type \<Rightarrow>
                 (case dns_rd16 b (off + 8) of
                    Fault \<Rightarrow> Fault | Bad \<Rightarrow> Bad
                  | Ok rdlen \<Rightarrow>
                      let off = off + 10 in
                      if off + rdlen > length b then Bad
                      else if type = 1 \<and> rdlen = 4 then dns_rd32 b off
                      else dns_answers b an (off + rdlen))))"

definition dns_parse_answer :: "u8 list \<Rightarrow> u16 \<Rightarrow> u32 parsed" where
  "dns_parse_answer b ident =
     (if length b < 12 then Bad
      else
        (case dns_rd16 b 0 of
           Fault \<Rightarrow> Fault | Bad \<Rightarrow> Bad
         | Ok i \<Rightarrow>
             if i \<noteq> unat ident then Bad
             else if b ! 3 AND 0x0F \<noteq> 0 then Bad
             else
               (case dns_rd16 b 4 of
                  Fault \<Rightarrow> Fault | Bad \<Rightarrow> Bad
                | Ok qd \<Rightarrow>
                    (case dns_rd16 b 6 of
                       Fault \<Rightarrow> Fault | Bad \<Rightarrow> Bad
                     | Ok an \<Rightarrow>
                         (case dns_questions b qd 12 of
                            Fault \<Rightarrow> Fault | Bad \<Rightarrow> Bad
                          | Ok off \<Rightarrow> dns_answers b an off)))))"

section \<open>Every read is inside the answer\<close>

lemma skip_name_cases: "dns_skip_name b off \<noteq> Fault"
  by (induction b off rule: dns_skip_name.induct) (subst dns_skip_name.simps, simp add: Let_def)

lemma skip_name_bound: "dns_skip_name b off = Ok off' \<Longrightarrow> off < off' \<and> off' \<le> length b + 1"
proof (induction b off rule: dns_skip_name.induct)
  case (1 b off)
  show ?case
  proof (cases "off \<ge> length b \<or> b ! off = 0 \<or> b ! off AND 0xC0 = 0xC0 \<or> unat (b ! off) > 63")
    case True
    then show ?thesis using "1.prems" by (subst (asm) dns_skip_name.simps) (auto simp: Let_def split: if_splits)
  next
    case False
    then have "dns_skip_name b (off + 1 + unat (b ! off)) = Ok off'"
      using "1.prems" by (subst (asm) dns_skip_name.simps) (simp add: Let_def unat_eq_zero)
    then show ?thesis using "1.IH" False by (simp add: unat_eq_zero)
  qed
qed

lemma questions_safe: "dns_questions b qd off \<noteq> Fault"
  by (induction b qd off rule: dns_questions.induct) (auto simp: skip_name_cases split: parsed.splits)

lemma answers_safe: "dns_answers b an off \<noteq> Fault"
  by (induction b an off rule: dns_answers.induct)
    (auto simp: skip_name_cases dns_rd16_def dns_rd32_def Let_def split: parsed.splits if_splits)


section \<open>Query and answer\<close>

text \<open>The labels written for a name can be skipped.\<close>

lemma skip_label:
  assumes "length pre = off" "l = length lab" "0 < l" "l \<le> 63"
  shows "dns_skip_name (pre @ [of_nat l] @ lab @ r) off = dns_skip_name (pre @ [of_nat l] @ lab @ r) (off + 1 + l)"
proof -
  have u: "unat (of_nat l :: u8) = l" using assms(4) by (simp add: unat_of_nat)
  have n: "(pre @ [of_nat l] @ lab @ r) ! off = of_nat l" using assms(1) by (simp add: nth_append)
  have "(of_nat l :: u8) AND 0xC0 \<noteq> 0xC0"
  proof
    assume a: "(of_nat l :: u8) AND 0xC0 = 0xC0"
    have t: "take_bit 6 (of_nat l :: u8) = of_nat l"
      using assms(4) u by (simp add: word_unat_eq_iff unsigned_take_bit_eq take_bit_nat_eq_self)
    have "bit ((of_nat l :: u8) AND 0xC0) 6" unfolding a by (simp add: bit_numeral_rec numeral_eq_Suc)
    then have "bit (take_bit 6 (of_nat l :: u8)) 6" unfolding t by (simp add: bit_and_iff)
    moreover have "\<not> bit (take_bit 6 (of_nat l :: u8)) 6" by (simp only: bit_take_bit_iff less_irrefl simp_thms)
    ultimately show False by contradiction
  qed
  then show ?thesis using assms u n by (subst dns_skip_name.simps) (simp add: Let_def)
qed

lemma skip_zero: "dns_skip_name (xs @ 0 # r) (length xs) = Ok (length xs + 1)"
  by (subst dns_skip_name.simps) (simp add: Let_def nth_append)

lemma labels_unfold:
  assumes "p \<noteq> []" "dns_labels p out = Some q"
  obtains lab where "lab \<noteq> []" "length lab \<le> 63" "length out + length lab + 6 \<le> 512"
    "length p = length lab \<and> q = out @ [of_nat (length lab)] @ lab \<or>
     length lab < length p \<and> dns_labels (drop (Suc (length lab)) p) (out @ [of_nat (length lab)] @ lab) = Some q"
proof -
  define lab where "lab = takeWhile (\<lambda>c. c \<noteq> 0x2E) p"
  have l: "length lab \<le> length p" unfolding lab_def by (rule length_takeWhile_le)
  have "dns_labels p out = (if length lab = 0 \<or> length lab > 63 \<or> length out + length lab + 6 > 512 then None
      else if drop (length lab) p = [] then Some (out @ [of_nat (length lab)] @ lab)
      else dns_labels (drop (Suc (length lab)) p) (out @ [of_nat (length lab)] @ lab))"
    using assms(1) by (subst dns_labels.simps) (simp add: Let_def lab_def drop_Suc tl_drop)
  then show ?thesis using assms(2) l by (intro that [of lab]) (auto split: if_splits)
qed

lemma labels_skip:
  "dns_labels p out = Some q \<Longrightarrow>
   \<exists>name. q = out @ name \<and> length q + 5 \<le> max (length out + 5) 512 \<and>
     (\<forall>g r. dns_skip_name (g @ name @ 0 # r) (length g) = Ok (length (g @ name) + 1))"
proof (induction "length p" arbitrary: p out rule: less_induct)
  case less
  show ?case
  proof (cases "p = []")
    case True
    then show ?thesis using less.prems skip_zero by (subst (asm) dns_labels.simps) auto
  next
    case False
    obtain lab where lab: "lab \<noteq> []" "length lab \<le> 63" "length out + length lab + 6 \<le> 512"
      "length p = length lab \<and> q = out @ [of_nat (length lab)] @ lab \<or>
       length lab < length p \<and> dns_labels (drop (Suc (length lab)) p) (out @ [of_nat (length lab)] @ lab) = Some q"
      by (rule labels_unfold [OF False less.prems])
    let ?l = "[of_nat (length lab)] @ lab"
    have skip: "dns_skip_name (g @ ?l @ r) (length g) = dns_skip_name ((g @ ?l) @ r) (length (g @ ?l))" for g r
      using skip_label [of g "length g" "length lab" lab r] lab(1,2) by simp
    from lab(4) show ?thesis
    proof
      assume q: "length p = length lab \<and> q = out @ ?l"
      have "dns_skip_name (g @ ?l @ 0 # r) (length g) = Ok (length (g @ ?l) + 1)" for g r
        unfolding skip by (rule skip_zero)
      then show ?thesis using q lab(3) by (intro exI [of _ ?l]) simp
    next
      assume rest: "length lab < length p \<and> dns_labels (drop (Suc (length lab)) p) (out @ ?l) = Some q"
      then obtain name where n: "q = (out @ ?l) @ name" "length q + 5 \<le> max (length (out @ ?l) + 5) 512"
          "\<And>g r. dns_skip_name (g @ name @ 0 # r) (length g) = Ok (length (g @ name) + 1)"
        using less.hyps [of "drop (Suc (length lab)) p" "out @ ?l"] False by (metis length_drop length_greater_0_conv diff_less zero_less_Suc)
      have "dns_skip_name (g @ (?l @ name) @ 0 # r) (length g) = Ok (length (g @ ?l @ name) + 1)" for g r
        using skip [of g "name @ 0 # r"] n(3) [of "g @ ?l" r] by simp
      then show ?thesis using n(1,2) lab(3) by (intro exI [of _ "?l @ name"]) simp
    qed
  qed
qed

lemma rd16_put16: "off = length xs \<Longrightarrow> dns_rd16 (xs @ net_put16 v @ ys) off = Ok (unat v)"
proof -
  assume o: "off = length xs"
  have "unat (ucast (drop_bit 8 v) :: u8) = unat v div 256" "unat (ucast v :: u8) = unat v mod 256"
    using unat_bound [of v] unat_drop [of 8 v] by (simp_all add: unat_ucast_mod less_mult_imp_div_less)
  then show ?thesis by (simp add: o dns_rd16_def net_put16_def nth_append)
qed

text \<open>
  C15. A query that is built has at most 512 bytes, carries the identifier and one question, and its answer,
  which repeats the question and has one address record that points back to the name, is parsed to
  the address of that record.
\<close>

theorem dns_roundtrip:
  assumes "dns_build_query host ident = Some q" "length ttl = 4"
  shows "length q \<le> 512 \<and> take 2 q = net_put16 ident \<and>
    dns_parse_answer (take 2 q @ [0x81, 0x80, 0, 1, 0, 1, 0, 0, 0, 0] @ drop 12 q @
      [0xC0, 0x0C, 0, 1, 0, 1] @ ttl @ [0, 4] @ net_put32 ip) ident = Ok ip"
proof -
  let ?h = "net_put16 ident @ [0x01, 0x00, 0, 1, 0, 0, 0, 0, 0, 0]"
  obtain out where o: "dns_labels host ?h = Some out" "q = out @ [0, 0, 1, 0, 1]"
    using assms(1) by (auto simp: dns_build_query_def split: if_splits option.splits)
  obtain name where n: "out = ?h @ name" "length out + 5 \<le> max (length ?h + 5) 512"
      "\<And>g r. dns_skip_name (g @ name @ 0 # r) (length g) = Ok (length (g @ name) + 1)"
    using labels_skip [OF o(1)] by blast
  define g where "g = net_put16 ident @ [0x81, 0x80, 0, 1, 0, 1, 0, 0, 0, 0]"
  define tail where "tail = [0xC0, 0x0C, 0, 1, 0, 1] @ ttl @ [0, 4] @ net_put32 ip"
  define b where "b = g @ name @ [0, 0, 1, 0, 1] @ tail"
  have lg: "length g = 12" by (simp add: g_def)
  have lb: "length b = 12 + length name + 5 + 16" using assms(2) by (simp add: b_def lg tail_def)
  have hd: "dns_rd16 b 0 = Ok (unat ident)" "b ! 3 = 0x80" "dns_rd16 b 4 = Ok 1" "dns_rd16 b 6 = Ok 1"
    using rd16_put16 [of 0 "[]" ident] lb by (simp_all add: b_def g_def dns_rd16_def) (simp_all add: net_put16_def nth_Cons')
  have q1: "dns_skip_name b 12 = Ok (12 + length name + 1)" using n(3) [of g] lg by (simp add: b_def)
  have q: "dns_questions b 1 12 = Ok (12 + length name + 5)" unfolding One_nat_def dns_questions.simps q1 by simp
  define off where "off = 12 + length name + 5"
  have d: "b = (g @ name @ [0, 0, 1, 0, 1]) @ tail" "length (g @ name @ [0, 0, 1, 0, 1]) = off" by (simp_all add: b_def lg off_def)
  have t: "b ! (off + i) = tail ! i" for i using d by (metis nth_append_length_plus)
  have s2: "dns_skip_name b off = Ok (off + 2)"
    using lb t [of 0] by (subst dns_skip_name.simps) (simp add: off_def Let_def tail_def)
  have r: "dns_rd16 b (off + 2) = Ok 1" "dns_rd16 b (off + 10) = Ok 4"
    using lb t [of 2] t [of 3] t [of 10] t [of 11] assms(2)
    by (simp_all add: off_def dns_rd16_def tail_def nth_append nth_Cons' add.assoc)
  have ip: "dns_rd32 b (off + 12) = Ok ip"
  proof -
    have "drop (off + 12) b = drop 12 (drop off b)" by (simp add: add.commute)
    also have "drop off b = tail" using d by (metis append_eq_conv_conj)
    also have "drop 12 tail = net_put32 ip @ []" using assms(2) by (simp add: tail_def)
    finally show ?thesis using lb be32_put32 [of ip "[]"] by (simp add: dns_rd32_def off_def)
  qed
  have "dns_answers b 1 off = Ok ip"
    using s2 r ip lb by (simp add: off_def Let_def numeral_eq_Suc)
  then have "dns_parse_answer b ident = Ok ip" using hd q lb by (simp add: dns_parse_answer_def off_def)
  moreover have "drop 12 q = name @ [0, 0, 1, 0, 1]" "take 2 q = net_put16 ident" by (simp_all add: o(2) n(1))
  moreover have "length q \<le> 512" using n o(2) by simp
  ultimately show ?thesis by (simp add: b_def g_def tail_def)
qed

lemma query_ab: "dns_build_query [0x61, 0x2E, 0x62] 7 = Some [0, 7, 1, 0, 0, 1, 0, 0, 0, 0, 0, 0, 1, 0x61, 1, 0x62, 0, 0, 1, 0, 1]"
  by (simp add: dns_build_query_def dns_labels.simps net_put16_def Let_def)

theorem dns_roundtrip_witness:
  "dns_parse_answer ([0, 7] @ [0x81, 0x80, 0, 1, 0, 1, 0, 0, 0, 0] @ [1, 0x61, 1, 0x62, 0, 0, 1, 0, 1] @
     [0xC0, 0x0C, 0, 1, 0, 1] @ [0, 0, 0, 9] @ [0, 4] @ net_put32 0x0A000009) 7 = Ok 0x0A000009"
  using dns_roundtrip [OF query_ab, where ttl = "[0, 0, 0, 9]" and ip = "0x0A000009"] by (simp add: net_put16_def)

end
