(* ===== verification/Rbtree.thy ===== *)
theory Rbtree
  imports CZ_Prelude
begin

text \<open>
  The red-black trees of \<open>src/lib/rbtree/rbtree.c\<close>. A node is an address, 0 is the null pointer, and one
  heap \<open>node_at\<close> holds the nodes of a tree and those outside of it. A null pointer is never written, and
  what the heap holds at 0 is arbitrary in every lemma, so that no result depends on reading it.
  The loops have no bound in the code: they are partial functions.
\<close>

section \<open>Nodes and the heap\<close>

datatype rb_color = RB_RED | RB_BLACK

record rb_node =
  parent :: nat
  left :: nat
  right :: nat
  color :: rb_color
  key :: u64

record rb =
  root :: nat
  node_at :: "nat \<Rightarrow> rb_node"

abbreviation pa :: "rb \<Rightarrow> nat \<Rightarrow> nat" where "pa s p \<equiv> parent (node_at s p)"
abbreviation lf :: "rb \<Rightarrow> nat \<Rightarrow> nat" where "lf s p \<equiv> left (node_at s p)"
abbreviation rt :: "rb \<Rightarrow> nat \<Rightarrow> nat" where "rt s p \<equiv> right (node_at s p)"
abbreviation co :: "rb \<Rightarrow> nat \<Rightarrow> rb_color" where "co s p \<equiv> color (node_at s p)"
abbreviation ky :: "rb \<Rightarrow> nat \<Rightarrow> u64" where "ky s p \<equiv> key (node_at s p)"

definition set_parent :: "nat \<Rightarrow> nat \<Rightarrow> rb \<Rightarrow> rb" where
  "set_parent p v s = s\<lparr>node_at := (node_at s)(p := (node_at s p)\<lparr>parent := v\<rparr>)\<rparr>"

definition set_left :: "nat \<Rightarrow> nat \<Rightarrow> rb \<Rightarrow> rb" where
  "set_left p v s = s\<lparr>node_at := (node_at s)(p := (node_at s p)\<lparr>left := v\<rparr>)\<rparr>"

definition set_right :: "nat \<Rightarrow> nat \<Rightarrow> rb \<Rightarrow> rb" where
  "set_right p v s = s\<lparr>node_at := (node_at s)(p := (node_at s p)\<lparr>right := v\<rparr>)\<rparr>"

definition set_color :: "nat \<Rightarrow> rb_color \<Rightarrow> rb \<Rightarrow> rb" where
  "set_color p v s = s\<lparr>node_at := (node_at s)(p := (node_at s p)\<lparr>color := v\<rparr>)\<rparr>"

definition rb_root_init :: "rb \<Rightarrow> rb" where
  "rb_root_init s = s\<lparr>root := 0\<rparr>"

definition rb_node_init :: "nat \<Rightarrow> rb \<Rightarrow> rb" where
  "rb_node_init node s = set_color node RB_RED (set_parent node 0 (set_left node 0 (set_right node 0 s)))"

definition rb_empty :: "rb \<Rightarrow> bool" where
  "rb_empty s \<longleftrightarrow> root s = 0"

section \<open>Rotations\<close>

text \<open>Two idioms of the code: the child \<open>c\<close>, if there is one, gets the parent \<open>v\<close>; the child \<open>node\<close> of \<open>p\<close>,
  or the root, is replaced by \<open>c\<close>.\<close>

definition reparent :: "nat \<Rightarrow> nat \<Rightarrow> rb \<Rightarrow> rb" where
  "reparent c v s = (if c \<noteq> 0 then set_parent c v s else s)"

definition relink :: "nat \<Rightarrow> nat \<Rightarrow> nat \<Rightarrow> rb \<Rightarrow> rb" where
  "relink p node c s =
     (if p = 0 then s\<lparr>root := c\<rparr>
      else if node = lf s p then set_left p c s
      else set_right p c s)"

definition rb_rotate_left :: "nat \<Rightarrow> rb \<Rightarrow> rb" where
  "rb_rotate_left node s =
     (let r = rt s node;
          s = set_right node (lf s r) s;
          s = reparent (lf s r) node s;
          s = set_parent r (pa s node) s;
          s = relink (pa s node) node r s;
          s = set_left r node s
      in set_parent node r s)"

definition rb_rotate_right :: "nat \<Rightarrow> rb \<Rightarrow> rb" where
  "rb_rotate_right node s =
     (let l = lf s node;
          s = set_left node (rt s l) s;
          s = reparent (rt s l) node s;
          s = set_parent l (pa s node) s;
          s = relink (pa s node) node l s;
          s = set_right l node s
      in set_parent node l s)"

section \<open>Insertion\<close>

text \<open>One pass of the loop of \<open>rb_insert_fixup\<close>.\<close>

definition insert_pass :: "nat \<Rightarrow> rb \<Rightarrow> nat \<times> rb" where
  "insert_pass node s =
     (let grandparent = pa s (pa s node) in
      if pa s node = lf s grandparent then
        (let uncle = rt s grandparent in
         if uncle \<noteq> 0 \<and> co s uncle = RB_RED then
           (let s = set_color (pa s node) RB_BLACK s;
                s = set_color uncle RB_BLACK s;
                s = set_color grandparent RB_RED s
            in (grandparent, s))
         else
           (let (node, s) =
                  (if node = rt s (pa s node)
                   then (let node = pa s node in (node, rb_rotate_left node s))
                   else (node, s));
                s = set_color (pa s node) RB_BLACK s;
                s = set_color grandparent RB_RED s
            in (node, rb_rotate_right grandparent s)))
      else
        (let uncle = lf s grandparent in
         if uncle \<noteq> 0 \<and> co s uncle = RB_RED then
           (let s = set_color (pa s node) RB_BLACK s;
                s = set_color uncle RB_BLACK s;
                s = set_color grandparent RB_RED s
            in (grandparent, s))
         else
           (let (node, s) =
                  (if node = lf s (pa s node)
                   then (let node = pa s node in (node, rb_rotate_right node s))
                   else (node, s));
                s = set_color (pa s node) RB_BLACK s;
                s = set_color grandparent RB_RED s
            in (node, rb_rotate_left grandparent s))))"

partial_function (option) insert_loop :: "nat \<Rightarrow> rb \<Rightarrow> rb option" where
  "insert_loop node s =
     (if pa s node \<noteq> 0 \<and> co s (pa s node) = RB_RED
      then insert_loop (fst (insert_pass node s)) (snd (insert_pass node s))
      else Some s)"

definition rb_insert_fixup :: "nat \<Rightarrow> rb \<Rightarrow> rb option" where
  "rb_insert_fixup node s = map_option (\<lambda>s. set_color (root s) RB_BLACK s) (insert_loop node s)"

text \<open>The walk down: the place where it stops, and the node above it.\<close>

partial_function (option) insert_walk :: "u64 \<Rightarrow> nat \<Rightarrow> nat \<Rightarrow> rb \<Rightarrow> (nat \<times> nat) option" where
  "insert_walk k cur par s =
     (if cur = 0 then Some (0, par)
      else if k < ky s cur then insert_walk k (lf s cur) cur s
      else if k > ky s cur then insert_walk k (rt s cur) cur s
      else Some (cur, cur))"

text \<open>The result is the node that has the key already, or 0.\<close>

definition rb_insert :: "nat \<Rightarrow> rb \<Rightarrow> (nat \<times> rb) option" where
  "rb_insert node s =
     (if root s = 0 then
        (let s = s\<lparr>root := node\<rparr>;
             s = set_parent node 0 (set_left node 0 (set_right node 0 s))
         in Some (0, set_color node RB_BLACK s))
      else
        (case insert_walk (ky s node) (root s) 0 s of
           None \<Rightarrow> None
         | Some (cur, par) \<Rightarrow>
             if cur \<noteq> 0 then Some (cur, s)
             else
               (let s = set_parent node par s;
                    s = set_left node 0 (set_right node 0 s);
                    s = set_color node RB_RED s;
                    s = (if ky s node < ky s par then set_left par node s else set_right par node s)
                in map_option (Pair 0) (rb_insert_fixup node s))))"

section \<open>Removal\<close>

text \<open>\<open>black p\<close>: \<open>p == NULL || p->color == RB_BLACK\<close>.\<close>

definition black :: "rb \<Rightarrow> nat \<Rightarrow> bool" where
  "black s p \<longleftrightarrow> p = 0 \<or> co s p = RB_BLACK"

definition color_if :: "nat \<Rightarrow> rb_color \<Rightarrow> rb \<Rightarrow> rb" where
  "color_if p c s = (if p \<noteq> 0 then set_color p c s else s)"

text \<open>
  One pass of the loop of \<open>rb_erase_fixup\<close>: the node and the parent to go on with, or \<open>None\<close> in place of the
  parent after \<open>break\<close>. First the part of each branch after a red sibling has been rotated away.
\<close>

definition erase_rest_left :: "nat \<Rightarrow> nat \<Rightarrow> rb \<Rightarrow> nat \<times> nat option \<times> rb" where
  "erase_rest_left par sibling s =
     (if (sibling = 0 \<or> black s (lf s sibling)) \<and> (sibling = 0 \<or> black s (rt s sibling)) then
        (let s = color_if sibling RB_RED s in (par, Some (pa s par), s))
      else
        (let (sibling, s) =
               (if sibling = 0 \<or> black s (rt s sibling) then
                  (let s = (if sibling \<noteq> 0 \<and> lf s sibling \<noteq> 0 then set_color (lf s sibling) RB_BLACK s else s);
                       s = color_if sibling RB_RED s;
                       s = rb_rotate_right sibling s
                   in (rt s par, s))
                else (sibling, s));
             s = color_if sibling (co s par) s;
             s = set_color par RB_BLACK s;
             s = (if sibling \<noteq> 0 \<and> rt s sibling \<noteq> 0 then set_color (rt s sibling) RB_BLACK s else s);
             s = rb_rotate_left par s
         in (root s, None, s)))"

definition erase_rest_right :: "nat \<Rightarrow> nat \<Rightarrow> rb \<Rightarrow> nat \<times> nat option \<times> rb" where
  "erase_rest_right par sibling s =
     (if (sibling = 0 \<or> black s (lf s sibling)) \<and> (sibling = 0 \<or> black s (rt s sibling)) then
        (let s = color_if sibling RB_RED s in (par, Some (pa s par), s))
      else
        (let (sibling, s) =
               (if sibling = 0 \<or> black s (lf s sibling) then
                  (let s = (if sibling \<noteq> 0 \<and> rt s sibling \<noteq> 0 then set_color (rt s sibling) RB_BLACK s else s);
                       s = color_if sibling RB_RED s;
                       s = rb_rotate_left sibling s
                   in (lf s par, s))
                else (sibling, s));
             s = color_if sibling (co s par) s;
             s = set_color par RB_BLACK s;
             s = (if sibling \<noteq> 0 \<and> lf s sibling \<noteq> 0 then set_color (lf s sibling) RB_BLACK s else s);
             s = rb_rotate_right par s
         in (root s, None, s)))"

definition erase_pass :: "nat \<Rightarrow> nat \<Rightarrow> rb \<Rightarrow> nat \<times> nat option \<times> rb" where
  "erase_pass node par s =
     (if lf s par = node then
        (let sibling = rt s par;
             (sibling, s) =
               (if sibling \<noteq> 0 \<and> co s sibling = RB_RED then
                  (let s = set_color sibling RB_BLACK s;
                       s = set_color par RB_RED s;
                       s = rb_rotate_left par s
                   in (rt s par, s))
                else (sibling, s))
         in erase_rest_left par sibling s)
      else
        (let sibling = lf s par;
             (sibling, s) =
               (if sibling \<noteq> 0 \<and> co s sibling = RB_RED then
                  (let s = set_color sibling RB_BLACK s;
                       s = set_color par RB_RED s;
                       s = rb_rotate_right par s
                   in (lf s par, s))
                else (sibling, s))
         in erase_rest_right par sibling s))"

partial_function (option) erase_loop :: "nat \<Rightarrow> nat \<Rightarrow> rb \<Rightarrow> (nat \<times> rb) option" where
  "erase_loop node par s =
     (if black s node \<and> par \<noteq> 0 then
        (case erase_pass node par s of
           (node, None, s) \<Rightarrow> Some (node, s)
         | (node, Some par, s) \<Rightarrow> erase_loop node par s)
      else Some (node, s))"

definition rb_erase_fixup :: "nat \<Rightarrow> nat \<Rightarrow> rb \<Rightarrow> rb option" where
  "rb_erase_fixup node par s = map_option (\<lambda>(node, s). color_if node RB_BLACK s) (erase_loop node par s)"

partial_function (option) leftmost :: "nat \<Rightarrow> rb \<Rightarrow> nat option" where
  "leftmost p s = (if lf s p \<noteq> 0 then leftmost (lf s p) s else Some p)"

definition null_links :: "nat \<Rightarrow> rb \<Rightarrow> rb" where
  "null_links p s = set_parent p 0 (set_left p 0 (set_right p 0 s))"

text \<open>The end of \<open>rb_erase\<close>, from the label \<open>fixup\<close>.\<close>

definition erase_end :: "nat \<Rightarrow> rb_color \<Rightarrow> nat \<Rightarrow> nat \<Rightarrow> rb \<Rightarrow> rb option" where
  "erase_end node c child fix_parent s =
     map_option (null_links node) (if c = RB_BLACK then rb_erase_fixup child fix_parent s else Some s)"

text \<open>The successor \<open>y\<close> takes over the links and the colour of \<open>x\<close>.\<close>

definition take_place :: "nat \<Rightarrow> nat \<Rightarrow> rb \<Rightarrow> rb" where
  "take_place x y s =
     (let s = set_parent y (pa s x) s;
          s = set_color y (co s x) s;
          s = set_left y (lf s x) s;
          s = set_right y (rt s x) s;
          s = relink (pa s x) x y s;
          s = reparent (lf s y) y s
      in reparent (rt s y) y s)"

definition rb_erase :: "nat \<Rightarrow> rb \<Rightarrow> rb option" where
  "rb_erase node s =
     (if lf s node \<noteq> 0 \<and> rt s node \<noteq> 0 then
        (case leftmost (rt s node) s of
           None \<Rightarrow> None
         | Some successor \<Rightarrow>
             (let c = co s successor;
                  child = rt s successor;
                  par = pa s successor;
                  s = reparent child par s;
                  s = (if par = node then set_right par child s else set_left par child s);
                  s = take_place node successor s;
                  s = null_links node s;
                  fix_parent = (if par = node then successor else par)
              in erase_end node c child fix_parent s))
      else
        (let child = (if lf s node = 0 then rt s node else lf s node);
             c = co s node;
             par = pa s node;
             s = reparent child par s;
             s = relink par node child s
         in erase_end node c child par s))"

section \<open>Search\<close>

definition rb_first :: "rb \<Rightarrow> nat option" where
  "rb_first s = (if root s = 0 then Some 0 else leftmost (root s) s)"

partial_function (option) find_loop :: "u64 \<Rightarrow> nat \<Rightarrow> rb \<Rightarrow> nat option" where
  "find_loop k cur s =
     (if cur = 0 then Some 0
      else if k < ky s cur then find_loop k (lf s cur) s
      else if k > ky s cur then find_loop k (rt s cur) s
      else Some cur)"

definition rb_find :: "u64 \<Rightarrow> rb \<Rightarrow> nat option" where
  "rb_find k s = find_loop k (root s) s"

end
