(* ===== verification/Rbtree_Shape.thy ===== *)
theory Rbtree_Shape
  imports Rbtree
begin

text \<open>
  Trees in the heap. A tree of node addresses is seen from one of its subtrees, with the path from there to the
  root as a list of frames, innermost first. \<open>rep s k t\<close> says that the heap holds the subtree \<open>t\<close> in the
  context \<open>k\<close>. Rotations, recolourings and replacements act on the subtree in view. The two
  directions of the code are one lemma each: a side is a parameter.
\<close>

section \<open>Trees and contexts\<close>

datatype rbt = E | N rb_color rbt nat rbt

datatype side = L | R

datatype frame = Fr side rb_color nat rbt

fun opp :: "side \<Rightarrow> side" where
  "opp L = R"
| "opp R = L"

lemma opp_opp [simp]: "opp (opp d) = d"
  by (cases d) auto

fun nd :: "side \<Rightarrow> rb_color \<Rightarrow> rbt \<Rightarrow> nat \<Rightarrow> rbt \<Rightarrow> rbt" where
  "nd L c t p u = N c t p u"
| "nd R c t p u = N c u p t"

fun ptr :: "rbt \<Rightarrow> nat" where
  "ptr E = 0"
| "ptr (N c l p r) = p"

fun inorder :: "rbt \<Rightarrow> nat list" where
  "inorder E = []"
| "inorder (N c l p r) = inorder l @ p # inorder r"

abbreviation nodes :: "rbt \<Rightarrow> nat set" where
  "nodes t \<equiv> set (inorder t)"

lemma ptr_nd [simp]: "ptr (nd d c t p u) = p"
  by (cases d) auto

lemma nodes_nd [simp]: "nodes (nd d c t p u) = insert p (nodes t \<union> nodes u)"
  by (cases d) auto

lemma distinct_nd [simp]:
  "distinct (inorder (nd d c t p u)) \<longleftrightarrow>
     distinct (inorder t) \<and> distinct (inorder u) \<and> p \<notin> nodes t \<and> p \<notin> nodes u \<and> nodes t \<inter> nodes u = {}"
  by (cases d) auto

lemma ptr_nodes: "ptr t \<in> insert 0 (nodes t)"
  by (cases t) auto

fun plug :: "frame list \<Rightarrow> rbt \<Rightarrow> rbt" where
  "plug [] t = t"
| "plug (Fr d c p u # k) t = plug k (nd d c t p u)"

lemma plug_append [simp]: "plug (k @ k') t = plug k' (plug k t)"
  by (induction k t rule: plug.induct) auto

fun up :: "frame list \<Rightarrow> nat" where
  "up [] = 0"
| "up (Fr d c p u # k) = p"

fun knodes :: "frame list \<Rightarrow> nat list" where
  "knodes [] = []"
| "knodes (Fr d c p u # k) = p # inorder u @ knodes k"

lemma knodes_append [simp]: "knodes (k @ k') = knodes k @ knodes k'"
  by (induction k rule: knodes.induct) auto

section \<open>Trees in the heap\<close>

fun ch :: "side \<Rightarrow> rb \<Rightarrow> nat \<Rightarrow> nat" where
  "ch L s p = lf s p"
| "ch R s p = rt s p"

fun set_ch :: "side \<Rightarrow> nat \<Rightarrow> nat \<Rightarrow> rb \<Rightarrow> rb" where
  "set_ch L p v s = set_left p v s"
| "set_ch R p v s = set_right p v s"

lemma heap_simps [simp]:
  "pa (set_parent p v s) q = (if q = p then v else pa s q)" "lf (set_parent p v s) q = lf s q"
  "rt (set_parent p v s) q = rt s q" "co (set_parent p v s) q = co s q" "ky (set_parent p v s) q = ky s q"
  "pa (set_left p v s) q = pa s q" "lf (set_left p v s) q = (if q = p then v else lf s q)"
  "rt (set_left p v s) q = rt s q" "co (set_left p v s) q = co s q" "ky (set_left p v s) q = ky s q"
  "pa (set_right p v s) q = pa s q" "lf (set_right p v s) q = lf s q"
  "rt (set_right p v s) q = (if q = p then v else rt s q)" "co (set_right p v s) q = co s q" "ky (set_right p v s) q = ky s q"
  "pa (set_color p c s) q = pa s q" "lf (set_color p c s) q = lf s q" "rt (set_color p c s) q = rt s q"
  "co (set_color p c s) q = (if q = p then c else co s q)" "ky (set_color p c s) q = ky s q"
  "root (set_parent p v s) = root s" "root (set_left p v s) = root s" "root (set_right p v s) = root s"
  "root (set_color p c s) = root s"
  by (simp_all add: set_parent_def set_left_def set_right_def set_color_def)

lemma ch_simps [simp]:
  "ch d (set_parent p v s) q = ch d s q" "ch d (set_color p c s) q = ch d s q" "ch d (s\<lparr>root := r\<rparr>) q = ch d s q"
  "pa (set_ch d p v s) q = pa s q" "co (set_ch d p v s) q = co s q" "ky (set_ch d p v s) q = ky s q"
  "ch d (set_ch d p v s) q = (if q = p then v else ch d s q)"
  "ch (opp d) (set_ch d p v s) q = ch (opp d) s q" "ch d (set_ch (opp d) p v s) q = ch d s q"
  "root (set_ch d p v s) = root s"
  by (cases d; simp)+

fun tree_at :: "rb \<Rightarrow> nat \<Rightarrow> rbt \<Rightarrow> bool" where
  "tree_at s v E \<longleftrightarrow> True"
| "tree_at s v (N c l p r) \<longleftrightarrow>
     p \<noteq> 0 \<and> pa s p = v \<and> co s p = c \<and> lf s p = ptr l \<and> rt s p = ptr r \<and> tree_at s p l \<and> tree_at s p r"

fun ctx_at :: "rb \<Rightarrow> frame list \<Rightarrow> nat \<Rightarrow> bool" where
  "ctx_at s [] v \<longleftrightarrow> root s = v"
| "ctx_at s (Fr d c p u # k) v \<longleftrightarrow>
     p \<noteq> 0 \<and> pa s p = up k \<and> co s p = c \<and> ch d s p = v \<and> ch (opp d) s p = ptr u \<and> tree_at s p u \<and> ctx_at s k p"

lemma tree_at_nd [simp]:
  "tree_at s v (nd d c t p u) \<longleftrightarrow>
     p \<noteq> 0 \<and> pa s p = v \<and> co s p = c \<and> ch d s p = ptr t \<and> ch (opp d) s p = ptr u \<and> tree_at s p t \<and> tree_at s p u"
  by (cases d) auto

definition rep :: "rb \<Rightarrow> frame list \<Rightarrow> rbt \<Rightarrow> bool" where
  "rep s k t \<longleftrightarrow> tree_at s (up k) t \<and> ctx_at s k (ptr t) \<and> distinct (knodes k @ inorder t)"

text \<open>Moving the view.\<close>

lemma rep_frame: "rep s (Fr d c p u # k) t \<longleftrightarrow> rep s k (nd d c t p u)"
  by (auto simp: rep_def)

lemma rep_plug: "rep s (k @ k') t \<longleftrightarrow> rep s k' (plug k t)"
proof (induction k arbitrary: t)
  case (Cons f k)
  then show ?case by (cases f) (simp add: rep_frame)
qed simp

lemma rep_top: "rep s k t \<longleftrightarrow> rep s [] (plug k t)"
  using rep_plug [of s k "[]" t] by simp

section \<open>Frame conditions\<close>

lemma tree_at_nonzero: "tree_at s v t \<Longrightarrow> 0 \<notin> nodes t"
  by (induction t arbitrary: v) auto

lemma ctx_at_nonzero: "ctx_at s k v \<Longrightarrow> 0 \<notin> set (knodes k)"
  by (induction k arbitrary: v rule: knodes.induct) (auto dest: tree_at_nonzero)

lemma up_knodes: "up k \<noteq> 0 \<Longrightarrow> up k \<in> set (knodes k)"
  by (cases k rule: knodes.cases) auto

lemma rep_ptr_0: "tree_at s v t \<Longrightarrow> ptr t = 0 \<longleftrightarrow> t = E"
  by (cases t) auto

lemma tree_at_frame:
  assumes "\<And>p. p \<in> nodes t \<Longrightarrow> pa s' p = pa s p \<and> co s' p = co s p \<and> lf s' p = lf s p \<and> rt s' p = rt s p"
  shows "tree_at s' v t = tree_at s v t"
  using assms by (induction t arbitrary: v) auto

lemma tree_at_sets [simp]:
  "p \<notin> nodes t \<Longrightarrow> tree_at (set_parent p w s) v t = tree_at s v t"
  "p \<notin> nodes t \<Longrightarrow> tree_at (set_ch d p w s) v t = tree_at s v t"
  "p \<notin> nodes t \<Longrightarrow> tree_at (set_left p w s) v t = tree_at s v t"
  "p \<notin> nodes t \<Longrightarrow> tree_at (set_right p w s) v t = tree_at s v t"
  "p \<notin> nodes t \<Longrightarrow> tree_at (set_color p c s) v t = tree_at s v t"
  "tree_at (s\<lparr>root := r\<rparr>) v t = tree_at s v t"
  by (cases d; rule tree_at_frame; auto)+

lemma ctx_at_frame:
  assumes "\<And>p. p \<in> set (knodes k) \<Longrightarrow> pa s' p = pa s p \<and> co s' p = co s p \<and> lf s' p = lf s p \<and> rt s' p = rt s p"
    and "root s' = root s"
  shows "ctx_at s' k v = ctx_at s k v"
  using assms
proof (induction k arbitrary: v)
  case (Cons f k)
  obtain d c p u where f: "f = Fr d c p u" by (cases f)
  have "tree_at s' p u = tree_at s p u" using Cons.prems f by (intro tree_at_frame) auto
  then show ?case using Cons f by (cases d) auto
qed simp

lemma ctx_at_sets [simp]:
  "p \<notin> set (knodes k) \<Longrightarrow> ctx_at (set_parent p w s) k v = ctx_at s k v"
  "p \<notin> set (knodes k) \<Longrightarrow> ctx_at (set_ch d p w s) k v = ctx_at s k v"
  "p \<notin> set (knodes k) \<Longrightarrow> ctx_at (set_left p w s) k v = ctx_at s k v"
  "p \<notin> set (knodes k) \<Longrightarrow> ctx_at (set_right p w s) k v = ctx_at s k v"
  "p \<notin> set (knodes k) \<Longrightarrow> ctx_at (set_color p c s) k v = ctx_at s k v"
  by (cases d; rule ctx_at_frame; auto)+

text \<open>\<open>within A s s'\<close>: only nodes in \<open>A\<close> have changed, and no key.\<close>

definition within :: "nat set \<Rightarrow> rb \<Rightarrow> rb \<Rightarrow> bool" where
  "within A s s' \<longleftrightarrow> (\<forall>q. ky s' q = ky s q) \<and> (\<forall>q. q \<notin> A \<longrightarrow> node_at s' q = node_at s q)"

lemma within_refl [simp]: "within A s s"
  by (simp add: within_def)

lemma within_trans [trans]: "within A s s' \<Longrightarrow> within A s' s'' \<Longrightarrow> within A s s''"
  by (simp add: within_def)

lemma within_mono: "within A s s' \<Longrightarrow> A \<subseteq> B \<Longrightarrow> within B s s'"
  by (auto simp: within_def)

lemma within_sets:
  "within A s s' \<Longrightarrow> p \<in> A \<Longrightarrow> within A s (set_parent p v s')" "within A s s' \<Longrightarrow> p \<in> A \<Longrightarrow> within A s (set_left p v s')"
  "within A s s' \<Longrightarrow> p \<in> A \<Longrightarrow> within A s (set_right p v s')" "within A s s' \<Longrightarrow> p \<in> A \<Longrightarrow> within A s (set_color p c s')"
  "within A s s' \<Longrightarrow> p \<in> A \<Longrightarrow> within A s (set_ch d p v s')" "within A s s' \<Longrightarrow> within A s (s'\<lparr>root := v\<rparr>)"
  by (auto simp: within_def set_parent_def set_left_def set_right_def set_color_def; cases d;
      auto simp: set_left_def set_right_def)+

section \<open>Steps on the subtree in view\<close>

lemma reparent_simps [simp]:
  "lf (reparent c v s) q = lf s q" "rt (reparent c v s) q = rt s q" "co (reparent c v s) q = co s q" "ch d (reparent c v s) q = ch d s q"
  "root (reparent c v s) = root s" "pa (reparent c v s) q = (if q = c \<and> c \<noteq> 0 then v else pa s q)" "ky (reparent c v s) q = ky s q"
  by (auto simp: reparent_def)

lemma reparent_tree: "tree_at s w t \<Longrightarrow> distinct (inorder t) \<Longrightarrow> tree_at (reparent (ptr t) v s) v t"
  by (cases t) (auto simp: reparent_def)

lemma reparent_other [simp]:
  "c \<notin> nodes t \<Longrightarrow> tree_at (reparent c v s) w t = tree_at s w t"
  "c \<notin> set (knodes k) \<Longrightarrow> ctx_at (reparent c v s) k w = ctx_at s k w"
  by (auto simp: reparent_def)

lemma relink_simps [simp]:
  "pa (relink p n c s) q = pa s q" "co (relink p n c s) q = co s q" "ky (relink p n c s) q = ky s q"
  "q \<noteq> p \<Longrightarrow> lf (relink p n c s) q = lf s q" "q \<noteq> p \<Longrightarrow> rt (relink p n c s) q = rt s q" "q \<noteq> p \<Longrightarrow> ch d (relink p n c s) q = ch d s q"
  by (cases d; auto simp: relink_def)+

lemma relink_tree [simp]: "p \<notin> nodes t \<Longrightarrow> tree_at (relink p n c s) w t = tree_at s w t"
  by (auto simp: relink_def)

lemma relink_ctx:
  assumes "ctx_at s k n" and "n \<noteq> 0" and "n \<notin> set (knodes k)" and "distinct (knodes k)"
  shows "ctx_at (relink (up k) n c s) k c"
proof (cases k)
  case (Cons f k')
  obtain d c' p u where f: "f = Fr d c' p u" by (cases f)
  have "ptr u \<noteq> n" using assms Cons f ptr_nodes [of u] by auto
  then show ?thesis using assms Cons f by (cases d) (auto simp: relink_def)
qed (use assms in \<open>simp add: relink_def\<close>)

text \<open>Recolouring the top of the view.\<close>

lemma rep_color: "rep s k (N c l p r) \<Longrightarrow> rep (set_color p c' s) k (N c' l p r)"
  by (auto simp: rep_def)

lemma rep_color_nd: "rep s k (nd d c t p u) \<Longrightarrow> rep (set_color p c' s) k (nd d c' t p u)"
  by (auto simp: rep_def)

text \<open>Replacing the view by a smaller tree that hangs off the same heap.\<close>

lemma rep_replace:
  assumes "rep s k t" and "t \<noteq> E" and "tree_at s w t'" and "nodes t' \<subseteq> nodes t" and "distinct (inorder t')"
  shows "rep (relink (up k) (ptr t) (ptr t') (reparent (ptr t') (up k) s)) k t'"
proof -
  have d: "distinct (knodes k)" "set (knodes k) \<inter> nodes t = {}" and t: "tree_at s (up k) t" "ctx_at s k (ptr t)"
    using assms(1) by (auto simp: rep_def)
  have p: "ptr t \<noteq> 0" "ptr t \<in> nodes t" using assms(2) t(1) by (cases t; simp)+
  have z: "0 \<notin> set (knodes k)" using t ctx_at_nonzero by blast
  have q: "ptr t' \<notin> set (knodes k)" using ptr_nodes [of t'] d(2) z assms(4) by auto
  have u: "up k \<notin> nodes t'" using up_knodes [of k] d(2) assms(4) tree_at_nonzero [OF assms(3)] by (cases "up k = 0") auto
  have "tree_at (relink (up k) (ptr t) (ptr t') (reparent (ptr t') (up k) s)) (up k) t'"
    using u reparent_tree [OF assms(3,5), of "up k"] by simp
  moreover have "ctx_at (relink (up k) (ptr t) (ptr t') (reparent (ptr t') (up k) s)) k (ptr t')"
    using relink_ctx [of "reparent (ptr t') (up k) s" k "ptr t"] q t(2) p d by auto
  ultimately show ?thesis using d assms(4,5) by (auto simp: rep_def)
qed

section \<open>Rotations\<close>

definition rot :: "side \<Rightarrow> nat \<Rightarrow> rb \<Rightarrow> rb" where
  "rot d node s =
     (let y = ch (opp d) s node;
          s = set_ch (opp d) node (ch d s y) s;
          s = reparent (ch d s y) node s;
          s = set_parent y (pa s node) s;
          s = relink (pa s node) node y s;
          s = set_ch d y node s
      in set_parent node y s)"

lemma rotate_sides: "rb_rotate_left = rot L" "rb_rotate_right = rot R"
  by (simp_all add: fun_eq_iff rb_rotate_left_def rb_rotate_right_def rot_def)

lemma rep_rot:
  assumes "rep s k (nd d c a x (nd d c' b y e))"
  shows "rep (rot d x s) k (nd d c' (nd d c a x b) y e)"
proof -
  note r = assms [unfolded rep_def, simplified]
  have z: "0 \<notin> nodes a" "0 \<notin> nodes b" "0 \<notin> nodes e" "0 \<notin> set (knodes k)"
    using r tree_at_nonzero ctx_at_nonzero by blast+
  have u: "up k \<noteq> x" "up k \<noteq> y" "up k \<notin> nodes a" "up k \<notin> nodes b" "up k \<notin> nodes e"
    using r z up_knodes [of k] by (cases "up k = 0"; auto)+
  have b: "ptr b \<noteq> x" "ptr b \<noteq> y" "ptr b \<notin> nodes a" "ptr b \<notin> nodes e" "ptr b \<notin> set (knodes k)"
    using r z ptr_nodes [of b] by auto
  define s1 where "s1 = set_ch (opp d) x (ptr b) s"
  define s2 where "s2 = reparent (ptr b) x s1"
  define s3 where "s3 = set_parent y (up k) s2"
  define s4 where "s4 = relink (up k) x y s3"
  have rot: "rot d x s = set_parent x y (set_ch d y x s4)"
    using r b by (simp add: rot_def Let_def s1_def s2_def s3_def s4_def)
  have tb: "tree_at s2 x b"
    using r unfolding s2_def s1_def by (intro reparent_tree [where w = y]) auto
  have k: "ctx_at s4 k y"
    unfolding s4_def using r b by (intro relink_ctx) (auto simp: s3_def s2_def s1_def)
  show ?thesis
    using r u b k tb unfolding rep_def rot by (auto simp: s4_def s3_def s2_def s1_def)
qed

section \<open>What the steps touch\<close>

abbreviation all_nodes :: "frame list \<Rightarrow> rbt \<Rightarrow> nat set" where
  "all_nodes k t \<equiv> set (knodes k) \<union> nodes t"

lemma nodes_plug [simp]: "nodes (plug k t) = all_nodes k t"
  by (induction k t rule: plug.induct) auto

lemma within_reparent: "within A s s' \<Longrightarrow> c \<in> insert 0 A \<Longrightarrow> within A s (reparent c v s')"
  by (auto simp: reparent_def intro: within_sets)

lemma within_relink: "within A s s' \<Longrightarrow> p \<in> insert 0 A \<Longrightarrow> within A s (relink p n c s')"
  by (auto simp: relink_def intro: within_sets)

lemma up_all: "up k \<in> insert 0 (all_nodes k t)"
  using up_knodes [of k] by auto

lemma within_rot:
  assumes "rep s k (nd d c a x (nd d c' b y e))" and "all_nodes k (nd d c a x (nd d c' b y e)) \<subseteq> A"
  shows "within A s (rot d x s)"
proof -
  note r = assms(1) [unfolded rep_def, simplified]
  have "ptr b \<in> insert 0 A" "up k \<in> insert 0 A" "x \<in> A" "y \<in> A" "x \<noteq> y" "ptr b \<noteq> x"
    using assms(2) ptr_nodes [of b] up_all [of k] r by auto
  then show ?thesis
    using r unfolding rot_def Let_def by (auto intro!: within_sets within_reparent within_relink)
qed

lemma nd_opp: "nd (opp d) c t p u = nd d c u p t"
  by (cases d) auto

lemma inorder_plug: "inorder t = inorder t' \<Longrightarrow> inorder (plug k t) = inorder (plug k t')"
proof (induction k arbitrary: t t')
  case (Cons f k)
  obtain d c p u where f: "f = Fr d c p u" by (cases f)
  have "inorder (nd d c t p u) = inorder (nd d c t' p u)" using Cons.prems by (cases d) auto
  then have "inorder (plug k (nd d c t p u)) = inorder (plug k (nd d c t' p u))" by (rule Cons.IH)
  then show ?case using f by simp
qed simp

section \<open>The colour invariants\<close>

lemma not_red [simp]: "c \<noteq> RB_RED \<longleftrightarrow> c = RB_BLACK" and not_black [simp]: "c \<noteq> RB_BLACK \<longleftrightarrow> c = RB_RED"
  by (cases c; simp)+

fun cl :: "rbt \<Rightarrow> rb_color" where
  "cl E = RB_BLACK"
| "cl (N c l p r) = c"

fun bh :: "rbt \<Rightarrow> nat" where
  "bh E = 0"
| "bh (N c l p r) = bh l + (if c = RB_BLACK then 1 else 0)"

fun rbwf :: "rbt \<Rightarrow> bool" where
  "rbwf E \<longleftrightarrow> True"
| "rbwf (N c l p r) \<longleftrightarrow> rbwf l \<and> rbwf r \<and> bh l = bh r \<and> (c = RB_RED \<longrightarrow> cl l = RB_BLACK \<and> cl r = RB_BLACK)"

text \<open>\<open>kwf k c n\<close>: the context takes a subtree of colour \<open>c\<close> and black height \<open>n\<close>.\<close>

fun kwf :: "frame list \<Rightarrow> rb_color \<Rightarrow> nat \<Rightarrow> bool" where
  "kwf [] c n \<longleftrightarrow> c = RB_BLACK"
| "kwf (Fr d c' p u # k) c n \<longleftrightarrow>
     rbwf u \<and> bh u = n \<and> (c' = RB_RED \<longrightarrow> c = RB_BLACK \<and> cl u = RB_BLACK) \<and> kwf k c' (n + (if c' = RB_BLACK then 1 else 0))"

lemma cl_nd [simp]: "cl (nd d c t p u) = c"
  by (cases d) auto

lemma nd_exhaust: "t \<noteq> E \<Longrightarrow> \<exists>a x b. t = nd d (cl t) a x b"
  by (cases t; cases d) auto

lemma nd_not_E [simp]: "nd d c t p u \<noteq> E"
  by (cases d) auto

lemma wf_nd [simp]: "rbwf (nd d c t p u) \<longleftrightarrow> rbwf t \<and> rbwf u \<and> bh t = bh u \<and> (c = RB_RED \<longrightarrow> cl t = RB_BLACK \<and> cl u = RB_BLACK)"
  by (cases d) auto

lemma bh_nd: "bh t = bh u \<Longrightarrow> bh (nd d c t p u) = bh u + (if c = RB_BLACK then 1 else 0)"
  by (cases d) auto

lemma wf_plug: "rbwf (plug k t) \<and> cl (plug k t) = RB_BLACK \<longleftrightarrow> rbwf t \<and> kwf k (cl t) (bh t)"
proof (induction k arbitrary: t)
  case (Cons f k)
  obtain d c p u where f: "f = Fr d c p u" by (cases f)
  show ?case
  proof (cases "bh t = bh u")
    case True
    then show ?thesis using Cons.IH [of "nd d c t p u"] f by (auto simp: bh_nd)
  next
    case False
    then show ?thesis using Cons.IH [of "nd d c t p u"] f by auto
  qed
qed simp

fun blk :: "rbt \<Rightarrow> rbt" where
  "blk E = E"
| "blk (N c l p r) = N RB_BLACK l p r"

lemma blk_simps [simp]: "inorder (blk t) = inorder t" "cl (blk t) = RB_BLACK" "rbwf t \<Longrightarrow> rbwf (blk t)" "ptr (blk t) = ptr t"
  by (cases t; simp)+

lemma kwf_weaken: "kwf k RB_RED n \<Longrightarrow> kwf k RB_BLACK n"
  by (cases k rule: knodes.cases) auto

end
