(* ===== verification/Rbtree_Ins.thy ===== *)
theory Rbtree_Ins
  imports Rbtree_Shape
begin

text \<open>
  Insertion into a red-black tree: the loop that repairs the colours returns on every well-formed tree and restores
  the invariants, and the walk finds the place that keeps the keys in order.
\<close>

section \<open>One pass\<close>

definition ins_pass :: "side \<Rightarrow> nat \<Rightarrow> rb \<Rightarrow> nat \<times> rb" where
  "ins_pass d node s =
     (let g = pa s (pa s node); uncle = ch (opp d) s g in
      if uncle \<noteq> 0 \<and> co s uncle = RB_RED then
        (g, set_color g RB_RED (set_color uncle RB_BLACK (set_color (pa s node) RB_BLACK s)))
      else
        (let (node, s) = (if node = ch (opp d) s (pa s node) then (pa s node, rot d (pa s node) s) else (node, s))
         in (node, rot (opp d) g (set_color g RB_RED (set_color (pa s node) RB_BLACK s)))))"

lemma insert_pass_sides:
  "insert_pass node s = ins_pass (if pa s node = lf s (pa s (pa s node)) then L else R) node s"
  by (simp add: insert_pass_def ins_pass_def Let_def rotate_sides)

text \<open>The three cases, for a red node \<open>t\<close> whose parent \<open>p\<close> is red too, under the grandparent \<open>g\<close>.\<close>

lemma pass_side:
  assumes "rep s (Fr e RB_RED p v # Fr d RB_BLACK g u # k) t" and "t \<noteq> E"
  shows "insert_pass (ptr t) s = ins_pass d (ptr t) s"
proof -
  note r = assms(1) [unfolded rep_def, simplified]
  have "pa s (ptr t) = p" using r assms(2) by (cases t) auto
  moreover have "p \<noteq> ptr u" using r ptr_nodes [of u] by auto
  ultimately have "(if pa s (ptr t) = lf s (pa s (pa s (ptr t))) then L else R) = d"
    using r by (cases d) auto
  then show ?thesis by (simp add: insert_pass_sides)
qed

lemma pass_recolor:
  assumes r: "rep s (Fr e RB_RED p v # Fr d RB_BLACK g (N RB_RED ul uq ur) # k) t" and "t \<noteq> E"
  defines "t' \<equiv> nd d RB_RED (nd e RB_BLACK t p v) g (N RB_BLACK ul uq ur)"
  shows "\<exists>s'. insert_pass (ptr t) s = (g, s') \<and> rep s' k t' \<and>
    within (all_nodes k t') s s'"
proof -
  note r' = r [unfolded rep_def, simplified]
  have pt: "pa s (ptr t) = p" using r' assms(2) by (cases t) auto
  define s1 where "s1 = set_color p RB_BLACK s"
  define s2 where "s2 = set_color uq RB_BLACK s1"
  have "rep s1 (Fr d RB_BLACK g (N RB_RED ul uq ur) # k) (nd e RB_BLACK t p v)"
    unfolding s1_def using r by (intro rep_color_nd) (simp add: rep_frame)
  then have "rep s1 (Fr (opp d) RB_BLACK g (nd e RB_BLACK t p v) # k) (N RB_RED ul uq ur)"
    by (simp add: rep_frame nd_opp)
  then have "rep s2 k (nd d RB_BLACK (nd e RB_BLACK t p v) g (N RB_BLACK ul uq ur))"
    unfolding s2_def by (metis rep_color rep_frame nd_opp)
  then have "rep (set_color g RB_RED s2) k t'" unfolding t'_def by (rule rep_color_nd)
  moreover have "insert_pass (ptr t) s = (g, set_color g RB_RED s2)"
    using pass_side [OF r assms(2)] r' pt by (simp add: ins_pass_def Let_def s1_def s2_def)
  moreover have "within (all_nodes k t') s (set_color g RB_RED s2)"
    unfolding s1_def s2_def t'_def by (auto intro!: within_sets)
  ultimately show ?thesis by blast
qed

text \<open>The last two steps of the other cases: \<open>q\<close> is the parent, its outer child red.\<close>

lemma lift_outer:
  assumes r: "rep s (Fr d RB_BLACK g u # k) (nd d RB_RED a q b)"
  defines "s' \<equiv> rot (opp d) g (set_color g RB_RED (set_color q RB_BLACK s))"
  shows "rep s' k (nd d RB_BLACK a q (nd d RB_RED b g u))"
    and "within (all_nodes (Fr d RB_BLACK g u # k) (nd d RB_RED a q b)) s s'"
proof -
  define s1 where "s1 = set_color g RB_RED (set_color q RB_BLACK s)"
  have "rep (set_color q RB_BLACK s) k (nd d RB_BLACK (nd d RB_BLACK a q b) g u)"
    using rep_color_nd [OF r] by (simp add: rep_frame)
  then have "rep s1 k (nd d RB_RED (nd d RB_BLACK a q b) g u)" unfolding s1_def by (rule rep_color_nd)
  then have r1: "rep s1 k (nd (opp d) RB_RED u g (nd (opp d) RB_BLACK b q a))" by (simp add: nd_opp)
  show "rep s' k (nd d RB_BLACK a q (nd d RB_RED b g u))"
    using rep_rot [OF r1] by (simp add: s'_def s1_def nd_opp)
  have "within (all_nodes (Fr d RB_BLACK g u # k) (nd d RB_RED a q b)) s s1"
    unfolding s1_def by (auto intro!: within_sets)
  moreover have "within (all_nodes (Fr d RB_BLACK g u # k) (nd d RB_RED a q b)) s1 s'"
    unfolding s'_def s1_def [symmetric] by (rule within_rot [OF r1]) auto
  ultimately show "within (all_nodes (Fr d RB_BLACK g u # k) (nd d RB_RED a q b)) s s'" by (rule within_trans)
qed

lemma uncle_black:
  assumes "rep s (Fr e RB_RED p v # Fr d RB_BLACK g u # k) t" and "cl u = RB_BLACK"
  shows "\<not> (ch (opp d) s g \<noteq> 0 \<and> co s (ch (opp d) s g) = RB_RED)"
  using assms by (cases u) (auto simp: rep_def)

lemma pass_outer:
  assumes r: "rep s (Fr d RB_RED p v # Fr d RB_BLACK g u # k) t" and "t \<noteq> E" and "cl u = RB_BLACK"
  shows "\<exists>s'. insert_pass (ptr t) s = (ptr t, s') \<and> rep s' k (nd d RB_BLACK t p (nd d RB_RED v g u)) \<and>
    within (all_nodes (Fr d RB_RED p v # Fr d RB_BLACK g u # k) t) s s'"
proof -
  note r' = r [unfolded rep_def, simplified]
  have pt: "pa s (ptr t) = p" using r' assms(2) by (cases t) auto
  have "ptr t \<noteq> ptr v" using r' assms(2) rep_ptr_0 [of s p t] ptr_nodes [of v] ptr_nodes [of t] by auto
  then have "insert_pass (ptr t) s = (ptr t, rot (opp d) g (set_color g RB_RED (set_color p RB_BLACK s)))"
    using pass_side [OF r assms(2)] uncle_black [OF r assms(3)] r' pt by (auto simp: ins_pass_def Let_def)
  moreover have "rep s (Fr d RB_BLACK g u # k) (nd d RB_RED t p v)" using r by (simp add: rep_frame)
  note lift_outer [OF this]
  moreover have "all_nodes (Fr d RB_BLACK g u # k) (nd d RB_RED t p v) = all_nodes (Fr d RB_RED p v # Fr d RB_BLACK g u # k) t"
    by auto
  ultimately show ?thesis by auto
qed

lemma pass_inner:
  assumes r: "rep s (Fr (opp d) RB_RED p v # Fr d RB_BLACK g u # k) (nd d RB_RED a x b)" and "cl u = RB_BLACK"
  shows "\<exists>s'. insert_pass x s = (p, s') \<and> rep s' k (nd d RB_BLACK (nd d RB_RED v p a) x (nd d RB_RED b g u)) \<and>
    within (all_nodes (Fr (opp d) RB_RED p v # Fr d RB_BLACK g u # k) (nd d RB_RED a x b)) s s'"
proof -
  let ?A = "all_nodes (Fr (opp d) RB_RED p v # Fr d RB_BLACK g u # k) (nd d RB_RED a x b)"
  note r' = r [unfolded rep_def, simplified]
  define s1 where "s1 = rot d p s"
  have f: "rep s (Fr d RB_BLACK g u # k) (nd d RB_RED v p (nd d RB_RED a x b))"
    using r by (simp add: rep_frame nd_opp)
  have r1: "rep s1 (Fr d RB_BLACK g u # k) (nd d RB_RED (nd d RB_RED v p a) x b)"
    unfolding s1_def by (rule rep_rot [OF f])
  then have "pa s1 p = x" by (simp add: rep_def)
  moreover have "nd d RB_RED a x b \<noteq> E" by (cases d) auto
  ultimately have "insert_pass x s = (p, rot (opp d) g (set_color g RB_RED (set_color x RB_BLACK s1)))"
    using pass_side [OF r] uncle_black [OF r assms(2)] r' by (simp add: ins_pass_def Let_def s1_def)
  moreover note lift_outer(1) [OF r1]
  moreover have "within ?A s s1" unfolding s1_def by (rule within_rot [OF f]) auto
  then have "within ?A s (rot (opp d) g (set_color g RB_RED (set_color x RB_BLACK s1)))"
    by (rule within_trans) (rule within_mono [OF lift_outer(2) [OF r1]], auto)
  ultimately show ?thesis by blast
qed

section \<open>The loop\<close>

lemma loop_stop:
  assumes "rep s k t" and "t \<noteq> E" and "k = [] \<or> (\<exists>d p u k'. k = Fr d RB_BLACK p u # k')"
  shows "insert_loop (ptr t) s = Some s"
proof -
  have "pa s (ptr t) = up k" using assms(1,2) by (cases t) (auto simp: rep_def)
  then show ?thesis using assms(1,3) by (subst insert_loop.simps) (auto simp: rep_def)
qed

definition loop_post :: "frame list \<Rightarrow> rbt \<Rightarrow> rb \<Rightarrow> rb \<Rightarrow> bool" where
  "loop_post k t s s' \<longleftrightarrow>
     (\<exists>t'. rep s' [] t' \<and> rbwf t' \<and> t' \<noteq> E \<and> inorder t' = inorder (plug k t)) \<and> within (all_nodes k t) s s'"

lemma loop_postI:
  assumes "rep s' k' t'" and "rbwf t'" and "kwf k' (cl t') (bh t')" and "t' \<noteq> E"
    and "inorder (plug k' t') = inorder (plug k t)" and "within (all_nodes k t) s s'"
  shows "loop_post k t s s'"
proof -
  have "nodes t' \<noteq> {}" using assms(4) by (cases t') auto
  then have "nodes (plug k' t') \<noteq> {}" by simp
  then have "plug k' t' \<noteq> E" by force
  then show ?thesis using assms wf_plug [of k' t'] rep_top [of s' k' t'] unfolding loop_post_def by blast
qed

lemma loop_post_step:
  assumes "loop_post k' t' s1 s'" and "within (all_nodes k t) s s1"
    and "all_nodes k' t' = all_nodes k t" and "inorder (plug k' t') = inorder (plug k t)"
  shows "loop_post k t s s'"
  using assms within_trans unfolding loop_post_def by metis

lemma insert_loop_ok:
  assumes "rep s k t" and "rbwf t" and "cl t = RB_RED" and "kwf k RB_BLACK (bh t)"
  shows "\<exists>s'. insert_loop (ptr t) s = Some s' \<and> loop_post k t s s'"
  using assms
proof (induction "length k" arbitrary: k t s rule: less_induct)
  case less
  have tE: "t \<noteq> E" using less.prems(3) by auto
  show ?case
  proof (cases "k = [] \<or> (\<exists>d p u k'. k = Fr d RB_BLACK p u # k')")
    case True
    have "loop_post k t s s"
    proof (cases k)
      case Nil
      then show ?thesis using less.prems tE by (auto simp: loop_post_def)
    next
      case (Cons f k')
      then have "kwf k (cl t) (bh t)" using less.prems True by auto
      then show ?thesis using less.prems tE by (intro loop_postI) auto
    qed
    then show ?thesis using loop_stop [OF less.prems(1) tE True] by blast
  next
    case False
    then obtain e p v d g u k' where k: "k = Fr e RB_RED p v # Fr d RB_BLACK g u # k'"
      using less.prems(4) by (cases k rule: knodes.cases; cases "tl k" rule: knodes.cases) (auto split: if_splits)
    note inv = less.prems(2-4) [unfolded k, simplified]
    note r = less.prems(1) [unfolded k]
    have go: "insert_loop (ptr t) s = insert_loop (fst (insert_pass (ptr t) s)) (snd (insert_pass (ptr t) s))"
      using r tE by (subst insert_loop.simps, cases t) (auto simp: rep_def)
    show ?thesis
    proof (cases "cl u")
      case RB_RED
      then obtain ul uq ur where u: "u = N RB_RED ul uq ur" by (cases u) auto
      let ?t = "nd d RB_RED (nd e RB_BLACK t p v) g (N RB_BLACK ul uq ur)"
      obtain s1 where s1: "insert_pass (ptr t) s = (g, s1)" "rep s1 k' ?t" "within (all_nodes k' ?t) s s1"
        using pass_recolor [OF r [unfolded u] tE] by blast
      have "\<exists>s'. insert_loop (ptr ?t) s1 = Some s' \<and> loop_post k' ?t s1 s'"
        using inv u by (intro less.hyps s1(2)) (auto simp: k bh_nd)
      moreover have "inorder (plug k' ?t) = inorder (plug k t)"
        unfolding k u plug.simps by (rule inorder_plug) (cases d; cases e; simp)
      moreover have "all_nodes k' ?t = all_nodes k t" by (auto simp: k u)
      ultimately show ?thesis using s1 go loop_post_step [where k' = k' and t' = ?t] by auto
    next
      case RB_BLACK
      show ?thesis
      proof (cases "e = d")
        case True
        obtain s1 where s1: "insert_pass (ptr t) s = (ptr t, s1)" "rep s1 k' (nd d RB_BLACK t p (nd d RB_RED v g u))"
            "within (all_nodes k t) s s1"
          using pass_outer [OF r [unfolded True] tE RB_BLACK] by (auto simp: k)
        then have "insert_loop (ptr t) s1 = Some s1"
          using tE by (intro loop_stop [where k = "Fr d RB_BLACK p (nd d RB_RED v g u) # k'"]) (auto simp: rep_frame)
        moreover have "inorder (plug k' (nd d RB_BLACK t p (nd d RB_RED v g u))) = inorder (plug k t)"
          unfolding k True plug.simps by (rule inorder_plug) (cases d; simp)
        then have "loop_post k t s s1"
          using s1(3) inv RB_BLACK by (intro loop_postI [OF s1(2)]) (auto simp: bh_nd)
        ultimately show ?thesis using s1 go by auto
      next
        case False
        then have e: "e = opp d" by (cases d; cases e) auto
        obtain a x b where t: "t = nd d RB_RED a x b" using nd_exhaust [OF tE, of d] less.prems(3) by auto
        let ?t = "nd d RB_BLACK (nd d RB_RED v p a) x (nd d RB_RED b g u)"
        obtain s1 where s1: "insert_pass (ptr t) s = (p, s1)" "rep s1 k' ?t" "within (all_nodes k t) s s1"
          using pass_inner [OF r [unfolded e t] RB_BLACK] by (auto simp: k t e)
        then have "insert_loop (ptr (nd d RB_RED v p a)) s1 = Some s1"
          by (intro loop_stop [where k = "Fr d RB_BLACK x (nd d RB_RED b g u) # k'"]) (auto simp: rep_frame)
        moreover have "inorder (plug k' ?t) = inorder (plug k t)"
          unfolding k e t plug.simps by (rule inorder_plug) (cases d; simp)
        then have "loop_post k t s s1"
          using s1(3) inv RB_BLACK t by (intro loop_postI [OF s1(2)]) (auto simp: bh_nd)
        ultimately show ?thesis using s1 go by auto
      qed
    qed
  qed
qed

section \<open>Keys in order\<close>

fun before :: "frame list \<Rightarrow> nat list" where
  "before [] = []"
| "before (Fr L c p u # k) = before k"
| "before (Fr R c p u # k) = before k @ inorder u @ [p]"

fun after :: "frame list \<Rightarrow> nat list" where
  "after [] = []"
| "after (Fr L c p u # k) = p # inorder u @ after k"
| "after (Fr R c p u # k) = after k"

lemma inorder_context: "inorder (plug k t) = before k @ inorder t @ after k"
  by (induction k arbitrary: t rule: before.induct) auto

definition ordered :: "(nat \<Rightarrow> u64) \<Rightarrow> nat list \<Rightarrow> bool" where
  "ordered K ps \<longleftrightarrow> sorted_wrt (\<lambda>p q. K p < K q) ps"

lemma ordered_append [simp]:
  "ordered K (ps @ qs) \<longleftrightarrow> ordered K ps \<and> ordered K qs \<and> (\<forall>p \<in> set ps. \<forall>q \<in> set qs. K p < K q)"
  "ordered K (p # qs) \<longleftrightarrow> (\<forall>q \<in> set qs. K p < K q) \<and> ordered K qs" "ordered K []"
  by (simp_all add: ordered_def sorted_wrt_append)

lemma ordered_inj: "ordered K ps \<Longrightarrow> p \<in> set ps \<Longrightarrow> q \<in> set ps \<Longrightarrow> K p = K q \<Longrightarrow> p = q"
proof (induction ps)
  case (Cons a ps)
  then show ?case by (cases "p = a"; cases "q = a") force+
qed simp

text \<open>\<open>stores s t m\<close>: the whole heap structure is the red-black tree \<open>t\<close>, and it stores the map \<open>m\<close> from keys to nodes.\<close>

definition stores :: "rb \<Rightarrow> rbt \<Rightarrow> (u64 \<rightharpoonup> nat) \<Rightarrow> bool" where
  "stores s t m \<longleftrightarrow>
     rep s [] t \<and> rbwf t \<and> cl t = RB_BLACK \<and> ordered (ky s) (inorder t) \<and>
     (\<forall>k p. m k = Some p \<longleftrightarrow> p \<in> nodes t \<and> ky s p = k)"

definition rb_map :: "rb \<Rightarrow> (u64 \<rightharpoonup> nat) \<Rightarrow> bool" where
  "rb_map s m \<longleftrightarrow> (\<exists>t. stores s t m)"

lemma stores_ran: "stores s t m \<Longrightarrow> ran m = nodes t"
  by (auto simp: stores_def ran_def)

lemma stores_None: "stores s t m \<Longrightarrow> m k = None \<longleftrightarrow> (\<forall>p \<in> nodes t. ky s p \<noteq> k)"
  unfolding stores_def by (metis not_None_eq)

section \<open>Search\<close>

lemma find_loop_ok:
  assumes "tree_at s v t" and "ordered (ky s) (inorder t)"
  shows "p \<in> nodes t \<Longrightarrow> ky s p = k \<Longrightarrow> find_loop k (ptr t) s = Some p"
    and "\<forall>p \<in> nodes t. ky s p \<noteq> k \<Longrightarrow> find_loop k (ptr t) s = Some 0"
  using assms
proof (induction t arbitrary: v)
  case E
  { case 1 then show ?case by simp }
  { case 2 show ?case by (subst find_loop.simps) simp }
next
  case (N c l q r)
  { case 1 then show ?case using N.IH by (subst find_loop.simps) (auto dest: order_less_imp_not_less) }
  { case 2 then show ?case using N.IH by (subst find_loop.simps) (auto simp: not_less order_le_less) }
qed

lemma rb_find_ok:
  assumes "rb_map s m"
  shows "rb_find k s = Some (case m k of None \<Rightarrow> 0 | Some p \<Rightarrow> p)"
proof -
  obtain t where t: "stores s t m" using assms by (auto simp: rb_map_def)
  then have "tree_at s 0 t" "ordered (ky s) (inorder t)" "root s = ptr t" by (auto simp: stores_def rep_def)
  note f = find_loop_ok [OF this(1,2)] this(3)
  show ?thesis
  proof (cases "m k")
    case None
    then have "find_loop k (ptr t) s = Some 0" using stores_None [OF t] by (intro f(2)) simp
    then show ?thesis using None f(3) by (simp add: rb_find_def)
  next
    case (Some p)
    then have "find_loop k (ptr t) s = Some p" using t by (intro f(1)) (auto simp: stores_def)
    then show ?thesis using Some f(3) by (simp add: rb_find_def)
  qed
qed

lemma leftmost_ok:
  assumes "tree_at s v t" and "t \<noteq> E"
  shows "leftmost (ptr t) s = Some (hd (inorder t))"
  using assms
proof (induction t arbitrary: v)
  case (N c l q r)
  show ?case
  proof (cases "l = E")
    case False
    then have "inorder l \<noteq> []" by (cases l) auto
    then show ?thesis using N False rep_ptr_0 [of s q l] by (subst leftmost.simps) auto
  qed (use N.prems in \<open>subst leftmost.simps, simp\<close>)
qed simp

section \<open>The walk to the place of a new node\<close>

lemma insert_walk_ok:
  assumes "rep s k t" and "ordered (ky s) (inorder (plug k t))" and "\<forall>p \<in> nodes t. ky s p \<noteq> x"
    and "\<forall>p \<in> set (before k). ky s p < x" and "\<forall>p \<in> set (after k). x < ky s p"
  shows "\<exists>k'. insert_walk x (ptr t) (up k) s = Some (0, up k') \<and> plug k' E = plug k t \<and>
    (\<forall>p \<in> set (before k'). ky s p < x) \<and> (\<forall>p \<in> set (after k'). x < ky s p)"
  using assms
proof (induction t arbitrary: k)
  case E
  then show ?case by (subst insert_walk.simps) auto
next
  case (N c l q r)
  have q: "q \<noteq> 0" "lf s q = ptr l" "rt s q = ptr r" using N.prems(1) by (auto simp: rep_def)
  consider "x < ky s q" | "ky s q < x" using N.prems(3) by force
  then show ?case
  proof cases
    case 1
    have "\<exists>k'. insert_walk x (ptr l) (up (Fr L c q r # k)) s = Some (0, up k') \<and> plug k' E = plug (Fr L c q r # k) l \<and>
      (\<forall>p \<in> set (before k'). ky s p < x) \<and> (\<forall>p \<in> set (after k'). x < ky s p)"
      using N.prems 1 by (intro N.IH) (auto simp: rep_frame inorder_context intro: order.strict_trans)
    then show ?thesis using 1 q by (subst insert_walk.simps) simp
  next
    case 2
    have "\<exists>k'. insert_walk x (ptr r) (up (Fr R c q l # k)) s = Some (0, up k') \<and> plug k' E = plug (Fr R c q l # k) r \<and>
      (\<forall>p \<in> set (before k'). ky s p < x) \<and> (\<forall>p \<in> set (after k'). x < ky s p)"
      using N.prems 2 by (intro N.IH) (auto simp: rep_frame inorder_context intro: order.strict_trans)
    then show ?thesis using 2 q by (subst insert_walk.simps) (auto dest: order_less_not_sym)
  qed
qed

lemma insert_walk_found:
  assumes "tree_at s v t" and "ordered (ky s) (inorder t)" and "p \<in> nodes t"
  shows "insert_walk (ky s p) (ptr t) v s = Some (p, p)"
  using assms
proof (induction t arbitrary: v)
  case (N c l q r)
  then show ?case by (subst insert_walk.simps) (auto dest: order_less_imp_not_less)
qed simp

section \<open>Insertion\<close>

definition attach :: "nat \<Rightarrow> nat \<Rightarrow> rb \<Rightarrow> rb" where
  "attach node par s =
     (let s = set_parent node par s;
          s = set_left node 0 (set_right node 0 s);
          s = set_color node RB_RED s
      in if ky s node < ky s par then set_left par node s else set_right par node s)"

lemma attach_ok:
  assumes r: "rep s k E" and "k \<noteq> []" and n: "n \<noteq> 0" "n \<notin> set (knodes k)"
    and b: "\<forall>p \<in> set (before k). ky s p < ky s n" "\<forall>p \<in> set (after k). ky s n < ky s p"
  shows "rep (attach n (up k) s) k (N RB_RED E n E)" and "within (insert n (set (knodes k))) s (attach n (up k) s)"
proof -
  obtain d c p u k' where k: "k = Fr d c p u # k'" using assms(2) by (cases k rule: knodes.cases) auto
  have "ky s n < ky s p \<longleftrightarrow> d = L" using b by (cases d) (auto simp: k dest: order_less_not_sym)
  then show "rep (attach n (up k) s) k (N RB_RED E n E)" using r n
    by (cases d) (auto simp: k attach_def Let_def rep_def)
  show "within (insert n (set (knodes k))) s (attach n (up k) s)"
    by (auto simp: k attach_def Let_def intro!: within_sets)
qed

lemma rb_insert_found: "rb_map s m \<Longrightarrow> m (ky s n) = Some p \<Longrightarrow> rb_insert n s = Some (p, s)"
proof -
  assume "rb_map s m" and p: "m (ky s n) = Some p"
  then obtain t where t: "stores s t m" by (auto simp: rb_map_def)
  then have "tree_at s 0 t" "ordered (ky s) (inorder t)" "p \<in> nodes t" "ky s p = ky s n" "root s = ptr t"
    using p by (auto simp: stores_def rep_def)
  note t' = this
  have "t \<noteq> E" using t'(3) by auto
  then have "ptr t \<noteq> 0" using rep_ptr_0 [OF t'(1)] by simp
  moreover have "p \<noteq> 0" using tree_at_nonzero [OF t'(1)] t'(3) by metis
  moreover have "insert_walk (ky s n) (ptr t) 0 s = Some (p, p)" using insert_walk_found [OF t'(1-3)] t'(4) by simp
  ultimately show ?thesis using t'(5) by (simp add: rb_insert_def)
qed

lemma within_ky: "within A s s' \<Longrightarrow> ky s' q = ky s q"
  by (simp add: within_def)

lemma stores_insert:
  assumes "stores s t m" and "m (ky s n) = None"
    and "rep s' [] t'" "rbwf t'" "cl t' = RB_BLACK" "ordered (ky s) (inorder t')" "nodes t' = insert n (nodes t)"
    and "\<And>q. ky s' q = ky s q"
  shows "stores s' t' (m(ky s n \<mapsto> n))"
  using assms stores_None [OF assms(1), of "ky s n"] unfolding stores_def ordered_def by auto

lemma insert_empty:
  assumes "rep s [] E" and "n \<noteq> 0"
  shows "\<exists>s'. rb_insert n s = Some (0, s') \<and> rep s' [] (N RB_BLACK E n E) \<and> within {n} s s'"
  using assms by (auto simp: rb_insert_def rep_def Let_def intro!: within_sets)

lemma insert_fixup_ok:
  assumes "rep s k (N RB_RED E n E)" and "kwf k RB_BLACK 0"
  shows "\<exists>s' t'. rb_insert_fixup n s = Some s' \<and> rep s' [] t' \<and> rbwf t' \<and> cl t' = RB_BLACK \<and>
    inorder t' = inorder (plug k (N RB_RED E n E)) \<and> within (insert n (set (knodes k))) s s'"
proof -
  let ?n = "N RB_RED E n E"
  obtain s1 where s1: "insert_loop n s = Some s1" "loop_post k ?n s s1"
    using insert_loop_ok [OF assms(1)] assms(2) by auto
  then obtain c l p r where t: "rep s1 [] (N c l p r)" "rbwf (N c l p r)" "inorder (N c l p r) = inorder (plug k ?n)"
      "within (all_nodes k ?n) s s1"
    unfolding loop_post_def by (metis rbt.exhaust)
  have "root s1 = p" using t(1) by (simp add: rep_def)
  then have "rb_insert_fixup n s = Some (set_color p RB_BLACK s1)" using s1 by (simp add: rb_insert_fixup_def)
  moreover have "rep (set_color p RB_BLACK s1) [] (N RB_BLACK l p r)" by (rule rep_color [OF t(1)])
  moreover have "p \<in> nodes (N c l p r)" by simp
  then have "p \<in> all_nodes k ?n" unfolding t(3) nodes_plug .
  then have "within (all_nodes k ?n) s (set_color p RB_BLACK s1)" using t(4) by (intro within_sets)
  ultimately show ?thesis using t(2,3)
    by (intro exI [of _ "set_color p RB_BLACK s1"] exI [of _ "N RB_BLACK l p r"]) auto
qed

lemma rb_insert_new:
  assumes "rb_map s m" and n: "n \<noteq> 0" "n \<notin> ran m" "m (ky s n) = None"
  shows "\<exists>s'. rb_insert n s = Some (0, s') \<and> rb_map s' (m(ky s n \<mapsto> n)) \<and> within (insert n (ran m)) s s'"
proof -
  obtain t where t: "stores s t m" using assms by (auto simp: rb_map_def)
  note t' = t [unfolded stores_def]
  show ?thesis
  proof (cases "t = E")
    case True
    then obtain s' where s': "rb_insert n s = Some (0, s')" "rep s' [] (N RB_BLACK E n E)" "within {n} s s'"
      using t' n insert_empty by blast
    have "stores s' (N RB_BLACK E n E) (m(ky s n \<mapsto> n))"
      using True within_ky [OF s'(3)] by (intro stores_insert [OF t n(3) s'(2)]) auto
    then show ?thesis using s' unfolding rb_map_def by (blast intro: within_mono)
  next
    case False
    have root: "root s = ptr t" "ptr t \<noteq> 0" using t' False rep_ptr_0 [of s 0 t] by (auto simp: rep_def)
    obtain k where k: "insert_walk (ky s n) (ptr t) 0 s = Some (0, up k)" "plug k E = t"
        "\<forall>p \<in> set (before k). ky s p < ky s n" "\<forall>p \<in> set (after k). ky s n < ky s p"
      using insert_walk_ok [of s "[]" t "ky s n"] t' stores_None [OF t] n(3) by auto
    have nk: "nodes t = set (knodes k)" using nodes_plug [of k E] k(2) by simp
    have a: "rep s k E" "k \<noteq> []" "n \<notin> set (knodes k)"
      using t' k(2) False rep_top [of s k E] n(2) stores_ran [OF t] nk by auto
    note at = attach_ok [OF a(1,2) n(1) a(3) k(3,4)]
    obtain s' u where s': "rb_insert_fixup n (attach n (up k) s) = Some s'" "rep s' [] u" "rbwf u" "cl u = RB_BLACK"
        "inorder u = inorder (plug k (N RB_RED E n E))" "within (insert n (set (knodes k))) (attach n (up k) s) s'"
      using insert_fixup_ok [OF at(1)] wf_plug [of k E] k(2) t' by auto
    have w: "within (insert n (ran m)) s s'"
      using within_trans [OF at(2) s'(6)] nk stores_ran [OF t] by simp
    have "rb_insert n s = Some (0, s')"
      using s'(1) k(1) root by (simp add: rb_insert_def attach_def Let_def)
    moreover have "nodes u = insert n (nodes t)" unfolding s'(5) nk by simp
    moreover have "ordered (ky s) (inorder u)"
      using t' k unfolding s'(5) by (auto simp: inorder_context intro: order.strict_trans)
    ultimately have "rb_insert n s = Some (0, s')" "stores s' u (m(ky s n \<mapsto> n))"
      using within_ky [OF w] by (auto intro!: stores_insert [OF t n(3) s'(2-4)])
    then show ?thesis using w unfolding rb_map_def by blast
  qed
qed

end
