(* ===== verification/Rbtree_Del.thy ===== *)
theory Rbtree_Del
  imports Rbtree_Ins
begin

text \<open>
  Removal from a red-black tree: the repair loop carries a subtree that lacks one black node towards the root until the
  lack is made up, on every path; then the removal itself, with one child or with the successor moved into the place.
\<close>

section \<open>One pass of the repair\<close>

definition del_rest :: "side \<Rightarrow> nat \<Rightarrow> nat \<Rightarrow> rb \<Rightarrow> nat \<times> nat option \<times> rb" where
  "del_rest d p sib s =
     (if (sib = 0 \<or> black s (lf s sib)) \<and> (sib = 0 \<or> black s (rt s sib)) then
        (let s = color_if sib RB_RED s in (p, Some (pa s p), s))
      else
        (let (sib, s) =
               (if sib = 0 \<or> black s (ch (opp d) s sib) then
                  (let s = (if sib \<noteq> 0 \<and> ch d s sib \<noteq> 0 then set_color (ch d s sib) RB_BLACK s else s);
                       s = color_if sib RB_RED s;
                       s = rot (opp d) sib s
                   in (ch (opp d) s p, s))
                else (sib, s));
             s = color_if sib (co s p) s;
             s = set_color p RB_BLACK s;
             s = (if sib \<noteq> 0 \<and> ch (opp d) s sib \<noteq> 0 then set_color (ch (opp d) s sib) RB_BLACK s else s);
             s = rot d p s
         in (root s, None, s)))"

lemma rest_sides: "erase_rest_left par sib s = del_rest L par sib s" "erase_rest_right par sib s = del_rest R par sib s"
  by (simp_all only: erase_rest_left_def erase_rest_right_def del_rest_def opp.simps ch.simps rotate_sides)

lemma black_children:
  "(sib = 0 \<or> black s (lf s sib)) \<and> (sib = 0 \<or> black s (rt s sib)) \<longleftrightarrow>
     sib = 0 \<or> black s (ch d s sib) \<and> black s (ch (opp d) s sib)"
  by (cases d) auto

definition del_pass :: "side \<Rightarrow> nat \<Rightarrow> rb \<Rightarrow> nat \<times> nat option \<times> rb" where
  "del_pass d p s =
     (let sib = ch (opp d) s p in
      if sib \<noteq> 0 \<and> co s sib = RB_RED then
        (let s = rot d p (set_color p RB_RED (set_color sib RB_BLACK s)) in del_rest d p (ch (opp d) s p) s)
      else del_rest d p sib s)"

lemma color_if_simps [simp]:
  "pa (color_if p c s) q = pa s q" "lf (color_if p c s) q = lf s q" "rt (color_if p c s) q = rt s q" "ch d (color_if p c s) q = ch d s q"
  "ky (color_if p c s) q = ky s q" "root (color_if p c s) = root s"
  by (simp_all add: color_if_def)

lemma erase_pass_sides: "erase_pass node par s = del_pass (if lf s par = node then L else R) par s"
  by (simp add: erase_pass_def del_pass_def Let_def rotate_sides rest_sides)

text \<open>The side of the node, when the node may be null but its sibling is not.\<close>

lemma erase_side:
  assumes "rep s (Fr d c p u # k) t" and "u \<noteq> E"
  shows "erase_pass (ptr t) p s = del_pass d p s"
proof -
  note r = assms(1) [unfolded rep_def, simplified]
  have "ptr u \<in> nodes u" "ptr u \<noteq> 0" using assms(2) r rep_ptr_0 [of s p u] by (cases u; simp)+
  then have "ptr u \<noteq> ptr t" using r ptr_nodes [of t] by auto
  then have "(if lf s p = ptr t then L else R) = d" using r by (cases d) auto
  then show ?thesis by (simp add: erase_pass_sides)
qed

section \<open>Recolouring\<close>

lemma black_tree: "tree_at s v t \<Longrightarrow> black s (ptr t) \<longleftrightarrow> cl t = RB_BLACK"
  by (cases t) (auto simp: black_def)

lemma rep_blk: "rep s k t \<Longrightarrow> rep (color_if (ptr t) RB_BLACK s) k (blk t)"
  by (cases t) (auto simp: color_if_def rep_def)

lemma within_color_if: "within A s s' \<Longrightarrow> p \<in> insert 0 A \<Longrightarrow> within A s (color_if p c s')"
  by (auto simp: color_if_def intro: within_sets)

definition erase_post :: "frame list \<Rightarrow> rbt \<Rightarrow> rb \<Rightarrow> rb \<Rightarrow> bool" where
  "erase_post k t s s' \<longleftrightarrow>
     (\<exists>t'. rep s' [] t' \<and> rbwf t' \<and> cl t' = RB_BLACK \<and> inorder t' = inorder (plug k t)) \<and> within (all_nodes k t) s s'"

lemma erase_postI:
  assumes "rep s' k' t'" and "rbwf t'" and "kwf k' (cl t') (bh t')"
    and "inorder (plug k' t') = inorder (plug k t)" and "within (all_nodes k t) s s'"
  shows "erase_post k t s s'"
  using assms wf_plug [of k' t'] rep_top [of s' k' t'] unfolding erase_post_def by blast

lemma erase_post_step:
  assumes "erase_post k' t' s1 s'" and "within (all_nodes k t) s s1"
    and "all_nodes k' t' = all_nodes k t" and "inorder (plug k' t') = inorder (plug k t)"
  shows "erase_post k t s s'"
  using assms within_trans unfolding erase_post_def by metis

lemma erase_post_root:
  assumes "erase_post k t s s'"
  shows "erase_post k t s (color_if (root s') RB_BLACK s')"
proof -
  obtain t' where t': "rep s' [] t'" "rbwf t'" "inorder t' = inorder (plug k t)" "within (all_nodes k t) s s'"
    using assms by (auto simp: erase_post_def)
  have root: "root s' = ptr t'" using t'(1) by (simp add: rep_def)
  have "nodes t' = all_nodes k t" using t'(3) by simp
  then have "root s' \<in> insert 0 (all_nodes k t)" using ptr_nodes [of t'] root by simp
  then have "within (all_nodes k t) s (color_if (root s') RB_BLACK s')" using t'(4) by (intro within_color_if)
  then show ?thesis using rep_blk [OF t'(1)] t'(2,3) root unfolding erase_post_def by (metis blk_simps)
qed

section \<open>The sibling is black\<close>

text \<open>The last steps, for a red node in the far subtree of the sibling.\<close>

definition del_last :: "side \<Rightarrow> nat \<Rightarrow> nat \<Rightarrow> rb \<Rightarrow> rb" where
  "del_last d p sib s =
     (let s = set_color p RB_BLACK (color_if sib (co s p) s);
          s = (if sib \<noteq> 0 \<and> ch (opp d) s sib \<noteq> 0 then set_color (ch (opp d) s sib) RB_BLACK s else s)
      in rot d p s)"

lemma del_last_ok:
  assumes r: "rep s k (nd d c t p (nd d i a x b))" and "cl b = RB_RED"
  shows "rep (del_last d p x s) k (nd d c (nd d RB_BLACK t p a) x (blk b))"
    and "within (all_nodes k (nd d c t p (nd d i a x b))) s (del_last d p x s)"
proof -
  let ?A = "all_nodes k (nd d c t p (nd d i a x b))"
  note r' = r [unfolded rep_def, simplified]
  have b: "b \<noteq> E" "ptr b \<noteq> 0" "ptr b \<in> nodes b" using assms(2) r' rep_ptr_0 [of s x b] by (cases b; auto)+
  define s1 where "s1 = set_color x c s"
  define s2 where "s2 = set_color p RB_BLACK s1"
  define s3 where "s3 = set_color (ptr b) RB_BLACK s2"
  have "rep s (Fr (opp d) c p t # k) (nd d i a x b)" using r by (simp add: rep_frame nd_opp)
  then have "rep s1 (Fr (opp d) c p t # k) (nd d c a x b)" unfolding s1_def by (rule rep_color_nd)
  then have "rep s1 k (nd d c t p (nd d c a x b))" by (simp add: rep_frame nd_opp)
  then have "rep s2 k (nd d RB_BLACK t p (nd d c a x b))" unfolding s2_def by (rule rep_color_nd)
  then have "rep s2 (Fr (opp d) c x a # Fr (opp d) RB_BLACK p t # k) b" by (simp add: rep_frame nd_opp)
  then have "rep s3 (Fr (opp d) c x a # Fr (opp d) RB_BLACK p t # k) (blk b)"
    using rep_blk [of s2 _ b] b by (simp add: s3_def color_if_def)
  then have r3: "rep s3 k (nd d RB_BLACK t p (nd d c a x (blk b)))" by (simp add: rep_frame nd_opp)
  have e: "del_last d p x s = rot d p s3"
    using r' b by (simp add: del_last_def Let_def color_if_def s1_def s2_def s3_def)
  show "rep (del_last d p x s) k (nd d c (nd d RB_BLACK t p a) x (blk b))"
    unfolding e by (rule rep_rot [OF r3])
  have "within ?A s s3" unfolding s3_def s2_def s1_def using b by (auto intro!: within_sets)
  moreover have "within ?A s3 (rot d p s3)" by (rule within_rot [OF r3]) auto
  ultimately show "within ?A s (del_last d p x s)" unfolding e by (rule within_trans)
qed

lemma rest_both:
  assumes r: "rep s (Fr d c p (nd d RB_BLACK a x b) # k) t" and "cl a = RB_BLACK" and "cl b = RB_BLACK"
  shows "\<exists>s'. del_rest d p x s = (p, Some (up k), s') \<and> rep s' k (nd d c t p (nd d RB_RED a x b)) \<and>
    within (all_nodes (Fr d c p (nd d RB_BLACK a x b) # k) t) s s'"
proof -
  note r' = r [unfolded rep_def, simplified]
  have "rep s (Fr (opp d) c p t # k) (nd d RB_BLACK a x b)" using r by (simp add: rep_frame nd_opp)
  then have "rep (set_color x RB_RED s) (Fr (opp d) c p t # k) (nd d RB_RED a x b)" by (rule rep_color_nd)
  then have "rep (set_color x RB_RED s) k (nd d c t p (nd d RB_RED a x b))" by (simp add: rep_frame nd_opp)
  moreover have "del_rest d p x s = (p, Some (up k), set_color x RB_RED s)"
    using r' assms(2,3) black_tree [of s x a] black_tree [of s x b]
    unfolding del_rest_def black_children [where d = d] by (simp add: color_if_def Let_def)
  moreover have "within (all_nodes (Fr d c p (nd d RB_BLACK a x b) # k) t) s (set_color x RB_RED s)"
    by (auto intro!: within_sets)
  ultimately show ?thesis by blast
qed

lemma rest_far:
  assumes r: "rep s (Fr d c p (nd d RB_BLACK a x b) # k) t" and "cl b = RB_RED"
  shows "del_rest d p x s = (root (del_last d p x s), None, del_last d p x s)"
proof -
  note r' = r [unfolded rep_def, simplified]
  show ?thesis
    using r' assms(2) black_tree [of s x b]
    unfolding del_rest_def black_children [where d = d] by (simp add: del_last_def Let_def)
qed

lemma rest_near:
  assumes r: "rep s (Fr d c p (nd d RB_BLACK (nd d RB_RED a y b) x e) # k) t" and "cl e = RB_BLACK"
  shows "\<exists>s1. rep s1 (Fr d c p (nd d RB_BLACK a y (nd d RB_RED b x e)) # k) t \<and>
    del_rest d p x s = (root (del_last d p y s1), None, del_last d p y s1) \<and>
    within (all_nodes (Fr d c p (nd d RB_BLACK (nd d RB_RED a y b) x e) # k) t) s s1"
proof -
  let ?A = "all_nodes (Fr d c p (nd d RB_BLACK (nd d RB_RED a y b) x e) # k) t"
  note r' = r [unfolded rep_def, simplified]
  define s1 where "s1 = set_color y RB_BLACK s"
  define s2 where "s2 = set_color x RB_RED s1"
  have "rep s (Fr d RB_BLACK x e # Fr (opp d) c p t # k) (nd d RB_RED a y b)" using r by (simp add: rep_frame nd_opp)
  then have "rep s1 (Fr (opp d) c p t # k) (nd d RB_BLACK (nd d RB_BLACK a y b) x e)"
    unfolding s1_def by (metis rep_color_nd rep_frame)
  then have "rep s2 (Fr (opp d) c p t # k) (nd d RB_RED (nd d RB_BLACK a y b) x e)" unfolding s2_def by (rule rep_color_nd)
  then have r2: "rep s2 (Fr (opp d) c p t # k) (nd (opp d) RB_RED e x (nd (opp d) RB_BLACK b y a))" by (simp add: nd_opp)
  define s3 where "s3 = rot (opp d) x s2"
  have r3: "rep s3 (Fr d c p (nd d RB_BLACK a y (nd d RB_RED b x e)) # k) t"
    using rep_rot [OF r2] by (simp add: s3_def rep_frame nd_opp)
  then have "ch (opp d) s3 p = y" by (simp add: rep_def)
  then have "del_rest d p x s = (root (del_last d p y s3), None, del_last d p y s3)"
    using r' assms(2) black_tree [of s x e] black_tree [of s x "nd d RB_RED a y b"]
    unfolding del_rest_def black_children [where d = d] by (simp add: del_last_def Let_def color_if_def s3_def s2_def s1_def)
  moreover have "within ?A s s2" unfolding s2_def s1_def by (auto intro!: within_sets)
  then have "within ?A s s3" unfolding s3_def by (rule within_trans) (rule within_rot [OF r2], auto)
  ultimately show ?thesis using r3 by blast
qed

text \<open>Either the lack moves up to the parent, or the tree is whole.\<close>

definition moved_up :: "side \<Rightarrow> rb_color \<Rightarrow> nat \<Rightarrow> rbt \<Rightarrow> frame list \<Rightarrow> rbt \<Rightarrow> rb \<Rightarrow> rb \<Rightarrow> bool" where
  "moved_up d c p u k t s s1 \<longleftrightarrow>
     (\<exists>t1. rep s1 k t1 \<and> ptr t1 = p \<and> cl t1 = c \<and> rbwf (blk t1) \<and> kwf k RB_BLACK (bh t1 + 1) \<and>
       inorder (plug k t1) = inorder (plug (Fr d c p u # k) t) \<and> all_nodes k t1 = all_nodes (Fr d c p u # k) t) \<and>
     within (all_nodes (Fr d c p u # k) t) s s1"

lemma blk_nd [simp]: "blk (nd d c t p u) = nd d RB_BLACK t p u"
  by (cases d) auto

lemma bh_blk: "cl t = RB_RED \<Longrightarrow> bh (blk t) = bh t + 1"
  by (cases t) auto

lemma last_ok:
  assumes r: "rep s (Fr d c p (nd d RB_BLACK a x b) # k) t" and "rbwf t" and "cl b = RB_RED"
    and w: "kwf (Fr d c p (nd d RB_BLACK a x b) # k) RB_BLACK (bh t + 1)"
  shows "erase_post (Fr d c p (nd d RB_BLACK a x b) # k) t s (del_last d p x s)"
proof -
  note l = del_last_ok [OF r [unfolded rep_frame] assms(3)]
  have b: "rbwf a" "rbwf b" "bh a = bh b" "bh b = bh t" "kwf k c (bh t + 1 + (if c = RB_BLACK then 1 else 0))"
    using w by (auto simp: bh_nd split: if_splits)
  show ?thesis
  proof (rule erase_postI [OF l(1)])
    show "rbwf (nd d c (nd d RB_BLACK t p a) x (blk b))" using b assms(2,3) by (simp add: bh_nd bh_blk)
    show "kwf k (cl (nd d c (nd d RB_BLACK t p a) x (blk b))) (bh (nd d c (nd d RB_BLACK t p a) x (blk b)))"
      using b assms(3) by (simp add: bh_nd bh_blk)
    show "inorder (plug k (nd d c (nd d RB_BLACK t p a) x (blk b))) = inorder (plug (Fr d c p (nd d RB_BLACK a x b) # k) t)"
      unfolding plug.simps by (rule inorder_plug) (cases d; simp)
    show "within (all_nodes (Fr d c p (nd d RB_BLACK a x b) # k) t) s (del_last d p x s)"
      by (rule within_mono [OF l(2)]) auto
  qed
qed

lemma rest_ok:
  assumes r: "rep s (Fr d c p u # k) t" and t: "rbwf t" and u: "cl u = RB_BLACK" and w: "kwf (Fr d c p u # k) RB_BLACK (bh t + 1)"
  shows "(\<exists>s1. del_rest d p (ptr u) s = (p, Some (up k), s1) \<and> moved_up d c p u k t s s1) \<or>
    (\<exists>s1. del_rest d p (ptr u) s = (root s1, None, s1) \<and> erase_post (Fr d c p u # k) t s s1)"
proof -
  have "u \<noteq> E" using w by auto
  then obtain a x b where u': "u = nd d RB_BLACK a x b" using nd_exhaust [of u d] u by auto
  note r = r [unfolded u'] and w = w [unfolded u']
  consider (both) "cl a = RB_BLACK" "cl b = RB_BLACK" | (far) "cl b = RB_RED" | (near) "cl a = RB_RED" "cl b = RB_BLACK"
    by (cases "cl a"; cases "cl b") auto
  then show ?thesis
  proof cases
    case both
    let ?t = "nd d c t p (nd d RB_RED a x b)"
    obtain s1 where s1: "del_rest d p x s = (p, Some (up k), s1)" "rep s1 k ?t"
        "within (all_nodes (Fr d c p (nd d RB_BLACK a x b) # k) t) s s1"
      using rest_both [OF r both] by blast
    have "rbwf a" "rbwf b" "bh a = bh b" "bh b = bh t" "kwf k RB_BLACK (bh t + 1 + (if c = RB_BLACK then 1 else 0))"
      using w kwf_weaken [of k "bh t + 1"] by (cases c; auto simp: bh_nd)+
    then have "moved_up d c p u k t s s1"
      unfolding moved_up_def u' using s1 t both
      by (intro conjI exI [of _ ?t]) (auto simp: bh_nd intro!: inorder_plug, cases d, auto)
    then show ?thesis using s1 u' by auto
  next
    case far
    then show ?thesis using last_ok [OF r t far w] rest_far [OF r far] u' by auto
  next
    case near
    then obtain i y j where a: "a = nd d RB_RED i y j" using nd_exhaust [of a d] by force
    obtain s1 where s1: "rep s1 (Fr d c p (nd d RB_BLACK i y (nd d RB_RED j x b)) # k) t"
        "del_rest d p x s = (root (del_last d p y s1), None, del_last d p y s1)"
        "within (all_nodes (Fr d c p u # k) t) s s1"
      using rest_near [OF r [unfolded a] near(2)] by (auto simp: u' a)
    have "erase_post (Fr d c p (nd d RB_BLACK i y (nd d RB_RED j x b)) # k) t s1 (del_last d p y s1)"
      using w near by (intro last_ok [OF s1(1) t]) (auto simp: a bh_nd split: if_splits)
    then have "erase_post (Fr d c p u # k) t s (del_last d p y s1)"
    proof (rule erase_post_step [OF _ s1(3)])
      show "inorder (plug (Fr d c p (nd d RB_BLACK i y (nd d RB_RED j x b)) # k) t) = inorder (plug (Fr d c p u # k) t)"
        unfolding plug.simps u' a by (rule inorder_plug) (cases d; simp)
    qed (auto simp: u' a)
    then show ?thesis using s1(2) u' by auto
  qed
qed

section \<open>The loop\<close>

lemma fixup_stop:
  assumes r: "rep s k t" and t: "rbwf (blk t)" and w: "kwf k RB_BLACK (bh t + 1)" and "k = [] \<or> cl t = RB_RED"
  shows "\<exists>s'. rb_erase_fixup (ptr t) (up k) s = Some s' \<and> erase_post k t s s'"
proof -
  have "\<not> (black s (ptr t) \<and> up k \<noteq> 0)" using assms(4) r black_tree [of s "up k" t] by (auto simp: rep_def)
  then have "rb_erase_fixup (ptr t) (up k) s = Some (color_if (ptr t) RB_BLACK s)"
    by (auto simp: rb_erase_fixup_def erase_loop.simps)
  moreover have "kwf k (cl (blk t)) (bh (blk t))" using assms(4) w bh_blk [of t] by auto
  then have "erase_post k t s (color_if (ptr t) RB_BLACK s)"
    using t ptr_nodes [of t] by (intro erase_postI [OF rep_blk [OF r]]) (auto intro!: inorder_plug within_color_if)
  ultimately show ?thesis by blast
qed

lemma fixup_pass:
  assumes "rep s (Fr d c p u # k) t" and "cl t = RB_BLACK" and "u \<noteq> E"
  shows "del_pass d p s = (n, Some q, s1) \<Longrightarrow> rb_erase_fixup (ptr t) p s = rb_erase_fixup n q s1"
    and "del_pass d p s = (n, None, s1) \<Longrightarrow> rb_erase_fixup (ptr t) p s = Some (color_if n RB_BLACK s1)"
proof -
  have "black s (ptr t)" "p \<noteq> 0" using assms(1,2) black_tree [of s p t] by (auto simp: rep_def)
  then show "del_pass d p s = (n, Some q, s1) \<Longrightarrow> rb_erase_fixup (ptr t) p s = rb_erase_fixup n q s1"
    "del_pass d p s = (n, None, s1) \<Longrightarrow> rb_erase_fixup (ptr t) p s = Some (color_if n RB_BLACK s1)"
    using erase_side [OF assms(1,3)] by (simp_all add: rb_erase_fixup_def erase_loop.simps [of "ptr t"])
qed

text \<open>A red sibling is rotated above the parent, whose new sibling is black.\<close>

lemma pass_red:
  assumes r: "rep s (Fr d RB_BLACK p (nd d RB_RED a x b) # k) t"
  shows "\<exists>s1. rep s1 (Fr d RB_RED p a # Fr d RB_BLACK x b # k) t \<and> del_pass d p s = del_rest d p (ptr a) s1 \<and>
    within (all_nodes (Fr d RB_BLACK p (nd d RB_RED a x b) # k) t) s s1"
proof -
  let ?A = "all_nodes (Fr d RB_BLACK p (nd d RB_RED a x b) # k) t"
  note r' = r [unfolded rep_def, simplified]
  define s1 where "s1 = set_color p RB_RED (set_color x RB_BLACK s)"
  have "rep s (Fr (opp d) RB_BLACK p t # k) (nd d RB_RED a x b)" using r by (simp add: rep_frame nd_opp)
  then have "rep (set_color x RB_BLACK s) k (nd d RB_BLACK t p (nd d RB_BLACK a x b))"
    by (metis rep_color_nd rep_frame nd_opp)
  then have r1: "rep s1 k (nd d RB_RED t p (nd d RB_BLACK a x b))" unfolding s1_def by (rule rep_color_nd)
  have r2: "rep (rot d p s1) (Fr d RB_RED p a # Fr d RB_BLACK x b # k) t" using rep_rot [OF r1] by (simp add: rep_frame)
  then have "ch (opp d) (rot d p s1) p = ptr a" by (simp add: rep_def)
  then have "del_pass d p s = del_rest d p (ptr a) (rot d p s1)"
    using r' by (simp add: del_pass_def Let_def s1_def)
  moreover have "within ?A s s1" unfolding s1_def by (auto intro!: within_sets)
  then have "within ?A s (rot d p s1)" by (rule within_trans) (rule within_rot [OF r1], auto)
  ultimately show ?thesis using r2 by blast
qed

lemma pass_black:
  assumes "rep s (Fr d c p u # k) t" and "cl u = RB_BLACK"
  shows "del_pass d p s = del_rest d p (ptr u) s"
proof -
  note r = assms(1) [unfolded rep_def, simplified]
  have "black s (ptr u)" using r assms(2) black_tree [of s p u] by auto
  then show ?thesis using r by (auto simp: del_pass_def Let_def black_def)
qed

lemma fixup_rest:
  assumes r: "rep s (Fr d c p u # k) t" and t: "rbwf t" "cl t = RB_BLACK" and u: "cl u = RB_BLACK"
    and w: "kwf (Fr d c p u # k) RB_BLACK (bh t + 1)"
    and pass: "\<And>n q s'. del_rest d p (ptr u) s = (n, Some q, s') \<Longrightarrow> fix = rb_erase_fixup n q s'"
      "\<And>n s'. del_rest d p (ptr u) s = (n, None, s') \<Longrightarrow> fix = Some (color_if n RB_BLACK s')"
    and next': "\<And>s1 t1. rep s1 k t1 \<Longrightarrow> cl t1 = c \<Longrightarrow> rbwf (blk t1) \<Longrightarrow> kwf k RB_BLACK (bh t1 + 1) \<Longrightarrow>
      \<exists>s'. rb_erase_fixup (ptr t1) (up k) s1 = Some s' \<and> erase_post k t1 s1 s'"
  shows "\<exists>s'. fix = Some s' \<and> erase_post (Fr d c p u # k) t s s'"
  using rest_ok [OF r t(1) u w]
proof (elim disjE exE conjE)
  fix s1 assume s1: "del_rest d p (ptr u) s = (p, Some (up k), s1)" and "moved_up d c p u k t s s1"
  then obtain t1 where t1: "rep s1 k t1" "ptr t1 = p" "cl t1 = c" "rbwf (blk t1)" "kwf k RB_BLACK (bh t1 + 1)"
      "inorder (plug k t1) = inorder (plug (Fr d c p u # k) t)" "all_nodes k t1 = all_nodes (Fr d c p u # k) t"
      "within (all_nodes (Fr d c p u # k) t) s s1"
    unfolding moved_up_def by blast
  obtain s' where "rb_erase_fixup p (up k) s1 = Some s'" "erase_post k t1 s1 s'"
    using next' [OF t1(1,3-5)] t1(2) by auto
  then show ?thesis using pass(1) [OF s1] erase_post_step [OF _ t1(8,7,6)] by auto
next
  fix s1 assume "del_rest d p (ptr u) s = (root s1, None, s1)" and "erase_post (Fr d c p u # k) t s s1"
  then show ?thesis using pass(2) erase_post_root by blast
qed

lemma erase_fixup_ok:
  assumes "rep s k t" and "rbwf (blk t)" and "kwf k RB_BLACK (bh t + 1)"
  shows "\<exists>s'. rb_erase_fixup (ptr t) (up k) s = Some s' \<and> erase_post k t s s'"
  using assms
proof (induction "length k" arbitrary: k t s rule: less_induct)
  case less
  show ?case
  proof (cases "k = [] \<or> cl t = RB_RED")
    case True
    then show ?thesis using fixup_stop less.prems by blast
  next
    case False
    then obtain d c p u k' where k: "k = Fr d c p u # k'" by (cases k rule: knodes.cases) auto
    have t: "cl t = RB_BLACK" "rbwf t" using False less.prems(2) by (auto, cases t, auto)
    note r = less.prems(1) [unfolded k] and w = less.prems(3) [unfolded k]
    have uE: "u \<noteq> E" using w by auto
    note pass = fixup_pass [OF r t(1) uE]
    show ?thesis
    proof (cases "cl u")
      case RB_BLACK
      show ?thesis unfolding k up.simps
        by (rule fixup_rest [OF r t(2,1) RB_BLACK w])
          (auto simp: pass_black [OF r RB_BLACK, symmetric] k intro: pass less.hyps)
    next
      case RB_RED
      then have c: "c = RB_BLACK" using w by auto
      obtain a x b where u: "u = nd d RB_RED a x b" using nd_exhaust [OF uE, of d] RB_RED by auto
      obtain s1 where s1: "rep s1 (Fr d RB_RED p a # Fr d RB_BLACK x b # k') t" "del_pass d p s = del_rest d p (ptr a) s1"
          "within (all_nodes (Fr d c p u # k') t) s s1"
        using pass_red [of s d p a x b k' t] r unfolding u c by blast
      have w1: "cl a = RB_BLACK" "kwf (Fr d RB_RED p a # Fr d RB_BLACK x b # k') RB_BLACK (bh t + 1)"
        using w by (auto simp: u c bh_nd)
      have "\<exists>s'. rb_erase_fixup (ptr t) p s = Some s' \<and> erase_post (Fr d RB_RED p a # Fr d RB_BLACK x b # k') t s1 s'"
        by (rule fixup_rest [OF s1(1) t(2,1) w1]) (simp_all add: s1(2) [symmetric] pass fixup_stop del: up.simps kwf.simps)
      moreover have "inorder (plug (Fr d RB_RED p a # Fr d RB_BLACK x b # k') t) = inorder (plug (Fr d c p u # k') t)"
        unfolding plug.simps u by (rule inorder_plug) (cases d; simp)
      moreover have "all_nodes (Fr d RB_RED p a # Fr d RB_BLACK x b # k') t = all_nodes (Fr d c p u # k') t"
        by (auto simp: u)
      ultimately show ?thesis unfolding k up.simps using erase_post_step [OF _ s1(3)] by blast
    qed
  qed
qed

section \<open>Taking a node out\<close>

lemma null_links_simps [simp]:
  "pa (null_links n s) q = (if q = n then 0 else pa s q)" "lf (null_links n s) q = (if q = n then 0 else lf s q)"
  "rt (null_links n s) q = (if q = n then 0 else rt s q)" "co (null_links n s) q = co s q" "ky (null_links n s) q = ky s q"
  "root (null_links n s) = root s"
  by (simp_all add: null_links_def)

lemma rep_null_links: "n \<notin> all_nodes k t \<Longrightarrow> rep (null_links n s) k t = rep s k t"
  by (simp add: rep_def null_links_def)

lemma within_null_links: "within A s s' \<Longrightarrow> n \<in> A \<Longrightarrow> within A s (null_links n s')"
  by (simp add: null_links_def within_sets)

definition detached :: "nat \<Rightarrow> rb \<Rightarrow> bool" where
  "detached n s \<longleftrightarrow> pa s n = 0 \<and> lf s n = 0 \<and> rt s n = 0"

lemma erase_end_ok:
  assumes r: "rep s k t" and t: "rbwf t" and b: "c = RB_BLACK \<Longrightarrow> kwf k RB_BLACK (bh t + 1)"
    and e: "c = RB_RED \<Longrightarrow> kwf k (cl t) (bh t)" and n: "n \<notin> all_nodes k t"
  shows "\<exists>s' t'. erase_end n c (ptr t) (up k) s = Some s' \<and> rep s' [] t' \<and> rbwf t' \<and> cl t' = RB_BLACK \<and>
    inorder t' = inorder (plug k t) \<and> within (insert n (all_nodes k t)) s s' \<and> detached n s'"
proof -
  obtain s1 where s1: "(if c = RB_BLACK then rb_erase_fixup (ptr t) (up k) s else Some s) = Some s1" "erase_post k t s s1"
  proof (cases c)
    case RB_RED
    then have "erase_post k t s s" using r t e by (intro erase_postI) auto
    then show ?thesis using that RB_RED by simp
  next
    case RB_BLACK
    then show ?thesis using that erase_fixup_ok [OF r _ b] t by auto
  qed
  then obtain t' where t': "rep s1 [] t'" "rbwf t'" "cl t' = RB_BLACK" "inorder t' = inorder (plug k t)"
    by (auto simp: erase_post_def)
  have "nodes t' = all_nodes k t" using t'(4) by simp
  then have "rep (null_links n s1) [] t'" using rep_null_links [of n "[]" t'] t'(1) n by simp
  moreover have "within (insert n (all_nodes k t)) s (null_links n s1)"
    using s1(2) by (intro within_null_links) (auto simp: erase_post_def elim: within_mono)
  moreover have "detached n (null_links n s1)" by (simp add: detached_def)
  ultimately show ?thesis using s1(1) t' unfolding erase_end_def by (intro exI [of _ "null_links n s1"] exI [of _ t']) simp
qed

lemma zipper: "n \<in> nodes t \<Longrightarrow> \<exists>k c l r. t = plug k (N c l n r)"
proof (induction t)
  case (N c l p r)
  consider "n = p" | "n \<in> nodes l" | "n \<in> nodes r" using N.prems by auto
  then show ?case
  proof cases
    case 1
    then show ?thesis by (metis plug.simps(1))
  next
    case 2
    then obtain k c' l' r' where "l = plug k (N c' l' n r')" using N.IH by blast
    then have "N c l p r = plug (k @ [Fr L c p r]) (N c' l' n r')" by simp
    then show ?thesis by blast
  next
    case 3
    then obtain k c' l' r' where "r = plug k (N c' l' n r')" using N.IH by blast
    then have "N c l p r = plug (k @ [Fr R c p l]) (N c' l' n r')" by simp
    then show ?thesis by blast
  qed
qed simp

text \<open>What a removal leaves: a red-black tree of the other nodes, in the same order.\<close>

definition removed :: "nat \<Rightarrow> rbt \<Rightarrow> rb \<Rightarrow> rb \<Rightarrow> bool" where
  "removed n t s s' \<longleftrightarrow>
     (\<exists>t'. rep s' [] t' \<and> rbwf t' \<and> cl t' = RB_BLACK \<and> inorder t' = removeAll n (inorder t)) \<and>
     within (nodes t) s s' \<and> detached n s'"

lemma context_nodes: "set (before k) \<union> set (after k) = set (knodes k)"
  by (induction k rule: before.induct) auto

lemma inorder_without:
  assumes "n \<notin> all_nodes k t" and "removeAll n (inorder u) = inorder t"
  shows "inorder (plug k t) = removeAll n (inorder (plug k u))"
proof -
  have "n \<notin> set (before k)" "n \<notin> set (after k)" using assms(1) context_nodes [of k] by blast+
  then show ?thesis using assms(2) by (simp add: inorder_context)
qed

lemma erase_one_child:
  assumes r: "rep s k (N c l n r)" and w: "rbwf (plug k (N c l n r))" "cl (plug k (N c l n r)) = RB_BLACK"
    and "l = E \<or> r = E"
  shows "\<exists>s'. rb_erase n s = Some s' \<and> removed n (plug k (N c l n r)) s s'"
proof -
  define t where "t = (if l = E then r else l)"
  note r' = r [unfolded rep_def, simplified]
  have i: "rbwf (N c l n r)" "kwf k c (bh (N c l n r))" using w wf_plug [of k "N c l n r"] by auto
  have t: "rbwf t" "bh t = bh l" "nodes t \<subseteq> nodes (N c l n r)" "tree_at s n t" "distinct (inorder t)" "inorder t = inorder l @ inorder r"
    using i r' assms(4) by (auto simp: t_def)
  define s1 where "s1 = relink (up k) n (ptr t) (reparent (ptr t) (up k) s)"
  have r1: "rep s1 k t" using rep_replace [OF r _ t(4,3,5)] by (simp add: s1_def)
  have n: "n \<notin> all_nodes k t" using r' t(6) by auto
  have "c = RB_RED \<Longrightarrow> kwf k (cl t) (bh t)" using i t kwf_weaken [of k "bh t"] by (auto simp: t_def)
  moreover have "c = RB_BLACK \<Longrightarrow> kwf k RB_BLACK (bh t + 1)" using i t by simp
  ultimately obtain s' t' where s': "erase_end n c (ptr t) (up k) s1 = Some s'" "rep s' [] t'" "rbwf t'" "cl t' = RB_BLACK"
      "inorder t' = inorder (plug k t)" "within (insert n (all_nodes k t)) s1 s'" "detached n s'"
    using erase_end_ok [OF r1 t(1) _ _ n, of c] by blast
  have l: "lf s n = ptr l" "rt s n = ptr r" "ptr l = 0 \<longleftrightarrow> l = E" "ptr r = 0 \<longleftrightarrow> r = E"
    using r' rep_ptr_0 [of s n l] rep_ptr_0 [of s n r] by auto
  have "rb_erase n s = Some s'"
    using s'(1) l assms(4) r' by (auto simp: rb_erase_def Let_def s1_def t_def)
  moreover have "inorder (plug k t) = removeAll n (inorder (plug k (N c l n r)))"
    using n t(6) r' by (intro inorder_without) auto
  moreover have "within (nodes (plug k (N c l n r))) s s1"
    unfolding s1_def using ptr_nodes [of t] t(3) up_all [of k "N c l n r"]
    by (intro within_relink within_reparent within_refl) auto
  then have "within (nodes (plug k (N c l n r))) s s'"
    by (rule within_trans) (rule within_mono [OF s'(6)], use t(3) in auto)
  ultimately show ?thesis using s' unfolding removed_def by auto
qed

text \<open>The successor: the leftmost node of the right subtree, with the path down to it.\<close>

lemma leftmost_path:
  assumes "t \<noteq> E"
  shows "\<exists>k c y b. t = plug k (N c E y b) \<and> hd (inorder t) = y \<and> inorder t = y # inorder (plug k b) \<and>
    (k = [] \<or> (\<exists>c' p u k'. k = Fr L c' p u # k'))"
  using assms
proof (induction t)
  case (N c l p r)
  show ?case
  proof (cases "l = E")
    case True
    then show ?thesis by (intro exI [of _ "[]"] exI [of _ c] exI [of _ p] exI [of _ r]) simp
  next
    case False
    then obtain k c' y b where k: "l = plug k (N c' E y b)" "hd (inorder l) = y" "inorder l = y # inorder (plug k b)"
        "k = [] \<or> (\<exists>c' p u k'. k = Fr L c' p u # k')"
      using N.IH by blast
    then show ?thesis
      by (intro exI [of _ "k @ [Fr L c p r]"] exI [of _ c'] exI [of _ y] exI [of _ b]) auto
  qed
qed simp

lemma take_place_ok:
  assumes r: "rep s k (N c l x r)" and y: "y \<noteq> 0" "y \<notin> all_nodes k (N c l x r)"
  shows "rep (take_place x y s) k (N c l y r)" and "within (insert y (all_nodes k (N c l x r))) s (take_place x y s)"
proof -
  note r' = r [unfolded rep_def, simplified]
  have z: "0 \<notin> nodes l" "0 \<notin> nodes r" "0 \<notin> set (knodes k)" using r' tree_at_nonzero ctx_at_nonzero by blast+
  have u: "up k \<noteq> x" "up k \<noteq> y" "up k \<notin> nodes l" "up k \<notin> nodes r"
    using r' y z up_knodes [of k] by (cases "up k = 0"; auto)+
  have p: "ptr l \<noteq> y" "ptr r \<noteq> y" "ptr l \<notin> nodes r" "ptr r \<notin> nodes l" "ptr l \<notin> set (knodes k)" "ptr r \<notin> set (knodes k)"
    using r' y z ptr_nodes [of l] ptr_nodes [of r] by auto
  define s1 where "s1 = set_right y (ptr r) (set_left y (ptr l) (set_color y c (set_parent y (up k) s)))"
  define s2 where "s2 = relink (up k) x y s1"
  have e: "take_place x y s = reparent (ptr r) y (reparent (ptr l) y s2)"
    using r' y u by (auto simp: take_place_def Let_def s1_def s2_def)
  have "ctx_at s2 k y" unfolding s2_def using r' y by (intro relink_ctx) (auto simp: s1_def)
  moreover have "tree_at s2 x l" "tree_at s2 x r" using r' y u by (auto simp: s2_def s1_def)
  then have "tree_at (reparent (ptr l) y s2) y l" "tree_at (reparent (ptr r) y (reparent (ptr l) y s2)) y r"
    using r' p reparent_tree by auto
  ultimately show "rep (take_place x y s) k (N c l y r)"
    using r' y u p unfolding rep_def e by (auto simp: s2_def s1_def)
  show "within (insert y (all_nodes k (N c l x r))) s (take_place x y s)"
    unfolding e s2_def s1_def using ptr_nodes [of l] ptr_nodes [of r] up_all [of k "N c l x r"]
    by (intro within_reparent within_relink within_sets within_refl) auto
qed

lemma kwf_place: "kwf (k @ Fr d c x l # k') i n = kwf (k @ Fr d c y l # k') i n"
  by (induction k i n rule: kwf.induct) auto

lemma up_place: "up (k @ Fr d c x l # k') = (if k = [] then x else up k)"
  by (cases k rule: knodes.cases) auto

text \<open>The successor leaves its place.\<close>

lemma unlink_successor:
  assumes r: "rep s (k @ Fr R c x l # k') (N c' E y b)" and k: "k = [] \<or> (\<exists>i p u j. k = Fr L i p u # j)"
  defines "p \<equiv> up (k @ Fr R c x l # k')"
  defines "s1 \<equiv> reparent (ptr b) p s"
  shows "rep (if p = x then set_right p (ptr b) s1 else set_left p (ptr b) s1) (k @ Fr R c x l # k') b" and "pa s y = p" "rt s y = ptr b"
    and "p = x \<longleftrightarrow> k = []"
proof -
  note r' = r [unfolded rep_def]
  show "pa s y = p" "rt s y = ptr b" using r' by (auto simp: p_def)
  have t: "tree_at s y b" "distinct (inorder b)" "nodes b \<subseteq> nodes (N c' E y b)" using r' by auto
  have yl: "y \<noteq> ptr l" if "k = []" using r' that ptr_nodes [of l] by auto
  show px: "p = x \<longleftrightarrow> k = []" using k r' by (auto simp: p_def up_place)
  have "relink p y (ptr b) s1 = (if p = x then set_right p (ptr b) s1 else set_left p (ptr b) s1)"
  proof (cases "k = []")
    case True
    then have "p = x" "x \<noteq> 0" "lf s x = ptr l" using r' by (auto simp: p_def)
    then show ?thesis using yl [OF True] by (auto simp: relink_def s1_def)
  next
    case False
    then obtain i q u j where "k = Fr L i q u # j" using k by blast
    then have "p = q" "q \<noteq> 0" "lf s q = y" using r' by (auto simp: p_def)
    then show ?thesis using px False by (auto simp: relink_def s1_def)
  qed
  then show "rep (if p = x then set_right p (ptr b) s1 else set_left p (ptr b) s1) (k @ Fr R c x l # k') b"
    using rep_replace [OF r _ t(1,3,2)] by (simp add: s1_def p_def)
qed

text \<open>The two moves together.\<close>

definition splice :: "nat \<Rightarrow> nat \<Rightarrow> rb \<Rightarrow> rb" where
  "splice x y s =
     (let s1 = reparent (rt s y) (pa s y) s;
          s2 = (if pa s y = x then set_right (pa s y) (rt s y) s1 else set_left (pa s y) (rt s y) s1)
      in null_links x (take_place x y s2))"

lemma rb_erase_splice:
  assumes "lf s x \<noteq> 0" "rt s x \<noteq> 0" "leftmost (rt s x) s = Some y"
  shows "rb_erase x s = erase_end x (co s y) (rt s y) (if pa s y = x then y else pa s y) (splice x y s)"
  using assms by (simp add: rb_erase_def splice_def Let_def)

lemma splice_ok:
  assumes r: "rep s (j @ Fr R c x l # k) (N c' E y b)" and j: "j = [] \<or> (\<exists>c' p u k'. j = Fr L c' p u # k')"
  shows "rep (splice x y s) (j @ Fr R c y l # k) b" and "x \<notin> all_nodes (j @ Fr R c y l # k) b"
    and "within (all_nodes (j @ Fr R c x l # k) (N c' E y b)) s (splice x y s)"
proof -
  let ?K = "\<lambda>z. j @ Fr R c z l # k" and ?A = "all_nodes (j @ Fr R c x l # k) (N c' E y b)"
  note un = unlink_successor [OF r j]
  define p where "p = pa s y"
  define s1 where "s1 = reparent (ptr b) p s"
  define s2 where "s2 = (if p = x then set_right p (ptr b) s1 else set_left p (ptr b) s1)"
  have e: "splice x y s = null_links x (take_place x y s2)" by (simp add: splice_def Let_def un(3) s2_def s1_def p_def)
  have view: "rep s' (?K z) b = rep s' k (N c l z (plug j b))" for s' z by (simp add: rep_plug rep_frame)
  have r2: "rep s2 k (N c l x (plug j b))"
    unfolding s2_def s1_def p_def un(2) by (rule un(1) [unfolded view])
  have y: "y \<noteq> 0" "y \<notin> all_nodes k (N c l x (plug j b))" using r by (auto simp: rep_def)
  show x: "x \<notin> all_nodes (?K y) b" using r y by (auto simp: rep_def)
  have "rep (take_place x y s2) (?K y) b" unfolding view by (rule take_place_ok(1) [OF r2 y])
  then show "rep (splice x y s) (?K y) b" unfolding e using rep_null_links [OF x] by blast
  have "p \<in> ?A" using un(2) j by (auto simp: p_def)
  then have "within ?A s s2"
    unfolding s2_def s1_def using ptr_nodes [of b] by (auto intro!: within_sets within_reparent)
  moreover have "within ?A s2 (take_place x y s2)" by (rule within_mono [OF take_place_ok(2) [OF r2 y]]) auto
  ultimately have "within ?A s (take_place x y s2)" by (rule within_trans)
  then show "within ?A s (splice x y s)" unfolding e by (rule within_null_links) simp
qed

lemma erase_two_children:
  assumes r: "rep s k (N c l x r)" and w: "rbwf (plug k (N c l x r))" "cl (plug k (N c l x r)) = RB_BLACK"
    and "l \<noteq> E" and "r \<noteq> E"
  shows "\<exists>s'. rb_erase x s = Some s' \<and> removed x (plug k (N c l x r)) s s'"
proof -
  note r' = r [unfolded rep_def, simplified]
  obtain j c' y b where y: "r = plug j (N c' E y b)" "hd (inorder r) = y" "inorder r = y # inorder (plug j b)"
      "j = [] \<or> (\<exists>c' p u k'. j = Fr L c' p u # k')"
    using leftmost_path [OF assms(5)] by blast
  let ?K = "\<lambda>z. j @ Fr R c z l # k"
  have rK: "rep s (?K x) (N c' E y b)" using r by (simp add: rep_plug rep_frame y(1))
  note un = unlink_successor [OF rK y(4)] and sp = splice_ok [OF rK y(4)]
  have i: "rbwf (N c' E y b)" "kwf (?K y) c' (bh (N c' E y b))"
    using w wf_plug [of "?K x" "N c' E y b"] kwf_place [of j R c x l k _ _ y] y(1) by auto
  have "c' = RB_RED \<Longrightarrow> kwf (?K y) (cl b) (bh b)" "c' = RB_BLACK \<Longrightarrow> kwf (?K y) RB_BLACK (bh b + 1)"
    using i kwf_weaken [of "?K y" 0] by auto
  then obtain s' t' where s': "erase_end x c' (ptr b) (up (?K y)) (splice x y s) = Some s'" "rep s' [] t'" "rbwf t'"
      "cl t' = RB_BLACK" "inorder t' = inorder (plug (?K y) b)" "within (insert x (all_nodes (?K y) b)) (splice x y s) s'"
      "detached x s'"
    using erase_end_ok [OF sp(1) _ _ _ sp(2), of c'] i(1) by auto
  have "leftmost (rt s x) s = Some y" using leftmost_ok [of s x r] r' assms(5) y(2) by simp
  moreover have "co s y = c'" "lf s x \<noteq> 0" "rt s x \<noteq> 0"
    using rK r' rep_ptr_0 [of s x l] rep_ptr_0 [of s x r] assms(4,5) by (auto simp: rep_def)
  moreover have "(if pa s y = x then y else pa s y) = up (?K y)" using un(2,4) by (simp add: up_place)
  ultimately have "rb_erase x s = Some s'" using s'(1) un(3) by (simp add: rb_erase_splice)
  moreover have "inorder (plug (?K y) b) = removeAll x (inorder (plug k (N c l x r)))"
    using sp(2) y(3) r' inorder_without [of x k "N c l y (plug j b)" "N c l x r"] by auto
  moreover have "within (nodes (plug k (N c l x r))) s s'"
    by (rule within_trans [OF within_mono [OF sp(3)] within_mono [OF s'(6)]]) (auto simp: y(1))
  ultimately show ?thesis using s' unfolding removed_def by auto
qed

lemma rb_erase_tree:
  assumes "rep s [] t" and "rbwf t" and "cl t = RB_BLACK" and "n \<in> nodes t"
  shows "\<exists>s'. rb_erase n s = Some s' \<and> removed n t s s'"
proof -
  obtain k c l r where t: "t = plug k (N c l n r)" using zipper [OF assms(4)] by blast
  then have "rep s k (N c l n r)" using assms(1) rep_top [of s k] by simp
  then show ?thesis
    using erase_one_child [of s k c l n r] erase_two_children [of s k c l n r] assms t by blast
qed

lemma rb_erase_ok:
  assumes "rb_map s m" and "m k = Some n"
  shows "\<exists>s'. rb_erase n s = Some s' \<and> rb_map s' (m(k := None)) \<and> within (ran m) s s' \<and> detached n s'"
proof -
  obtain t where t: "stores s t m" using assms by (auto simp: rb_map_def)
  note t' = t [unfolded stores_def]
  have n: "n \<in> nodes t" "ky s n = k" using t' assms(2) by auto
  obtain s' u where s': "rb_erase n s = Some s'" "rep s' [] u" "rbwf u" "cl u = RB_BLACK" "inorder u = removeAll n (inorder t)"
      "within (nodes t) s s'" "detached n s'"
    using rb_erase_tree [of s t n] t' n unfolding removed_def by blast
  have o: "ordered (ky s) (inorder u)" using t' s'(5) by (simp add: ordered_def removeAll_filter_not_eq sorted_wrt_filter)
  have "(m(k := None)) q = Some p \<longleftrightarrow> p \<in> nodes u \<and> ky s' p = q" for p q
  proof (cases "q = k")
    case True
    then have "p = n" if "p \<in> nodes t" "ky s p = q" using ordered_inj [of "ky s" "inorder t" p n] t' n that by simp
    then show ?thesis using True s'(5) within_ky [OF s'(6)] by auto
  next
    case False
    then have "p \<noteq> n" if "ky s p = q" using n that by auto
    then show ?thesis using False s'(5) within_ky [OF s'(6)] t' by auto
  qed
  then have "stores s' u (m(k := None))"
    using s'(2-4) o within_ky [OF s'(6)] unfolding stores_def ordered_def by simp
  then show ?thesis using s' stores_ran [OF t] unfolding rb_map_def by auto
qed

end
