(* ===== verification/Keyed_Spec.thy ===== *)
theory Keyed_Spec
  imports CZ_Prelude
begin

text \<open>
  The contract of an index of nodes by key, as the inode cache uses it: the abstract state is the map from keys to
  nodes, a node carries its key, and the null node is 0. Whole sequences of operations give the answers of the map.
\<close>

datatype keyed_op = K_insert nat | K_erase nat | K_find u64

text \<open>What the operations answer and do on the map: an insertion under a key in use returns the node that has it.\<close>

fun keyed_spec :: "(nat \<Rightarrow> u64) \<Rightarrow> keyed_op \<Rightarrow> (u64 \<rightharpoonup> nat) \<Rightarrow> nat \<times> (u64 \<rightharpoonup> nat)" where
  "keyed_spec K (K_insert n) m = (case m (K n) of None \<Rightarrow> (0, m(K n \<mapsto> n)) | Some p \<Rightarrow> (p, m))"
| "keyed_spec K (K_erase n) m = (0, m(K n := None))"
| "keyed_spec K (K_find k) m = (case m k of None \<Rightarrow> 0 | Some p \<Rightarrow> p, m)"

text \<open>A node is inserted only while it is not in the index, and removed only while it is.\<close>

fun keyed_ok :: "(nat \<Rightarrow> u64) \<Rightarrow> keyed_op \<Rightarrow> (u64 \<rightharpoonup> nat) \<Rightarrow> bool" where
  "keyed_ok K (K_insert n) m \<longleftrightarrow> n \<noteq> 0 \<and> m (K n) \<noteq> Some n"
| "keyed_ok K (K_erase n) m \<longleftrightarrow> m (K n) = Some n"
| "keyed_ok K (K_find k) m \<longleftrightarrow> True"

fun keyed_legal :: "(nat \<Rightarrow> u64) \<Rightarrow> keyed_op list \<Rightarrow> (u64 \<rightharpoonup> nat) \<Rightarrow> bool" where
  "keyed_legal K [] m \<longleftrightarrow> True"
| "keyed_legal K (c # cs) m \<longleftrightarrow> keyed_ok K c m \<and> keyed_legal K cs (snd (keyed_spec K c m))"

fun keyed_run :: "(nat \<Rightarrow> u64) \<Rightarrow> keyed_op list \<Rightarrow> (u64 \<rightharpoonup> nat) \<Rightarrow> nat list \<times> (u64 \<rightharpoonup> nat)" where
  "keyed_run K [] m = ([], m)"
| "keyed_run K (c # cs) m =
     (let (r, m) = keyed_spec K c m; (rs, m) = keyed_run K cs m in (r # rs, m))"

fun keyed_exec :: "(nat \<Rightarrow> 's \<Rightarrow> (nat \<times> 's) option) \<Rightarrow> (nat \<Rightarrow> 's \<Rightarrow> 's option) \<Rightarrow> (u64 \<Rightarrow> 's \<Rightarrow> nat option) \<Rightarrow>
  keyed_op list \<Rightarrow> 's \<Rightarrow> (nat list \<times> 's) option" where
  "keyed_exec ins del lookup [] s = Some ([], s)"
| "keyed_exec ins del lookup (c # cs) s =
     (case (case c of
              K_insert n \<Rightarrow> ins n s
            | K_erase n \<Rightarrow> map_option (Pair 0) (del n s)
            | K_find k \<Rightarrow> map_option (\<lambda>p. (p, s)) (lookup k s)) of
        None \<Rightarrow> None
      | Some (r, s) \<Rightarrow> map_option (\<lambda>(rs, s). (r # rs, s)) (keyed_exec ins del lookup cs s))"

locale keyed =
  fixes rep :: "'s \<Rightarrow> (u64 \<rightharpoonup> nat) \<Rightarrow> bool" and K :: "nat \<Rightarrow> u64"
    and ins :: "nat \<Rightarrow> 's \<Rightarrow> (nat \<times> 's) option" and del :: "nat \<Rightarrow> 's \<Rightarrow> 's option" and lookup :: "u64 \<Rightarrow> 's \<Rightarrow> nat option"
  assumes own_key: "rep s m \<Longrightarrow> m k = Some p \<Longrightarrow> K p = k"
    and lookup_ok: "rep s m \<Longrightarrow> lookup k s = Some (case m k of None \<Rightarrow> 0 | Some p \<Rightarrow> p)"
    and ins_found: "rep s m \<Longrightarrow> m (K n) = Some p \<Longrightarrow> ins n s = Some (p, s)"
    and ins_new: "rep s m \<Longrightarrow> n \<noteq> 0 \<Longrightarrow> n \<notin> ran m \<Longrightarrow> m (K n) = None \<Longrightarrow> \<exists>s'. ins n s = Some (0, s') \<and> rep s' (m(K n \<mapsto> n))"
    and del_ok: "rep s m \<Longrightarrow> m (K n) = Some n \<Longrightarrow> \<exists>s'. del n s = Some s' \<and> rep s' (m(K n := None))"
begin

lemma absent: "rep s m \<Longrightarrow> m (K n) \<noteq> Some n \<Longrightarrow> n \<notin> ran m"
  using own_key by (auto simp: ran_def)

lemma exec_ok:
  assumes "rep s m" and "keyed_legal K cs m"
  shows "\<exists>s'. keyed_exec ins del lookup cs s = Some (fst (keyed_run K cs m), s') \<and> rep s' (snd (keyed_run K cs m))"
  using assms
proof (induction cs arbitrary: s m)
  case (Cons c cs)
  have "\<exists>s1. (case c of K_insert n \<Rightarrow> ins n s | K_erase n \<Rightarrow> map_option (Pair 0) (del n s)
      | K_find k \<Rightarrow> map_option (\<lambda>p. (p, s)) (lookup k s)) = Some (fst (keyed_spec K c m), s1) \<and> rep s1 (snd (keyed_spec K c m))"
  proof (cases c)
    case (K_insert n)
    then have n: "n \<noteq> 0" "n \<notin> ran m" using Cons.prems absent by auto
    show ?thesis
    proof (cases "m (K n)")
      case None
      then show ?thesis using K_insert ins_new [OF Cons.prems(1) n] by simp
    qed (use K_insert Cons.prems ins_found in auto)
  next
    case (K_erase n)
    then show ?thesis using del_ok Cons.prems by fastforce
  qed (use lookup_ok Cons.prems in auto)
  then obtain s1 where s1: "(case c of K_insert n \<Rightarrow> ins n s | K_erase n \<Rightarrow> map_option (Pair 0) (del n s)
      | K_find k \<Rightarrow> map_option (\<lambda>p. (p, s)) (lookup k s)) = Some (fst (keyed_spec K c m), s1)" "rep s1 (snd (keyed_spec K c m))"
    by blast
  then show ?case using Cons.IH [OF s1(2)] Cons.prems by (auto simp: split_beta Let_def)
qed simp

end

end
