(* ===== verification/Rbtree_Props.thy ===== *)
theory Rbtree_Props
  imports Rbtree_Del Keyed_Spec
begin

text \<open>
  The promises of the red-black trees: they are an index of nodes by key, the least key comes first, and no node lies
  deeper than twice the logarithm of their number.
\<close>

section \<open>An index by key\<close>

lemma rb_map_key: "rb_map s m \<Longrightarrow> m k = Some p \<Longrightarrow> ky s p = k"
  by (auto simp: rb_map_def stores_def)

lemma rb_map_init: "rb_map (rb_root_init s) Map.empty"
  unfolding rb_map_def by (rule exI [of _ E]) (simp add: stores_def rep_def rb_root_init_def)

definition rb_index :: "(nat \<Rightarrow> u64) \<Rightarrow> rb \<Rightarrow> (u64 \<rightharpoonup> nat) \<Rightarrow> bool" where
  "rb_index K s m \<longleftrightarrow> rb_map s m \<and> (\<forall>q. ky s q = K q)"

interpretation rbk: keyed "rb_index K" K rb_insert rb_erase rb_find for K
proof unfold_locales
  fix s m k n p assume i: "rb_index K s m"
  then have m: "rb_map s m" and K: "\<And>q. ky s q = K q" by (auto simp: rb_index_def)
  show "rb_find k s = Some (case m k of None \<Rightarrow> 0 | Some p \<Rightarrow> p)" by (rule rb_find_ok [OF m])
  show "m k = Some p \<Longrightarrow> K p = k" using rb_map_key [OF m] K by auto
  show "m (K n) = Some p \<Longrightarrow> rb_insert n s = Some (p, s)" using rb_insert_found [OF m] K by simp
  show "n \<noteq> 0 \<Longrightarrow> n \<notin> ran m \<Longrightarrow> m (K n) = None \<Longrightarrow> \<exists>s'. rb_insert n s = Some (0, s') \<and> rb_index K s' (m(K n \<mapsto> n))"
    using rb_insert_new [OF m, of n] K within_ky unfolding rb_index_def by metis
  show "m (K n) = Some n \<Longrightarrow> \<exists>s'. rb_erase n s = Some s' \<and> rb_index K s' (m(K n := None))"
    using rb_erase_ok [OF m, of "K n" n] K within_ky unfolding rb_index_def by metis
qed

lemma rb_first_ok:
  assumes "rb_map s m"
  shows "\<exists>p. rb_first s = Some p \<and> (if m = Map.empty then p = 0 else m (ky s p) = Some p \<and> (\<forall>q \<in> ran m. ky s p \<le> ky s q))"
proof -
  obtain t where t: "stores s t m" using assms by (auto simp: rb_map_def)
  note t' = t [unfolded stores_def]
  have tree: "tree_at s 0 t" "root s = ptr t" using t' by (auto simp: rep_def)
  show ?thesis
  proof (cases t)
    case E
    then have "m = Map.empty" using stores_None [OF t] by (auto simp: fun_eq_iff)
    then show ?thesis using E tree by (simp add: rb_first_def)
  next
    case (N c l x r)
    obtain p ps where p: "inorder t = p # ps" using N by (cases "inorder t") auto
    then have m: "m (ky s p) = Some p" using t' by simp
    have "\<forall>q \<in> ran m. ky s p \<le> ky s q" using t' p unfolding stores_ran [OF t] by (auto simp: order_le_less)
    moreover have "rb_first s = Some p" using leftmost_ok [OF tree(1)] tree N p by (simp add: rb_first_def)
    ultimately show ?thesis using m by auto
  qed
qed

section \<open>Depth\<close>

text \<open>The number of nodes on the way from a node up to the root.\<close>

partial_function (option) rb_depth :: "nat \<Rightarrow> rb \<Rightarrow> nat option" where
  "rb_depth p s = (if p = 0 then Some 0 else Option.bind (rb_depth (pa s p) s) (\<lambda>d. Some (Suc d)))"

fun ht :: "rbt \<Rightarrow> nat" where
  "ht E = 0"
| "ht (N c l p r) = Suc (max (ht l) (ht r))"

lemma depth_up: "ctx_at s k v \<Longrightarrow> rb_depth (up k) s = Some (length k)"
proof (induction k arbitrary: v)
  case (Cons f k)
  obtain d c p u where f: "f = Fr d c p u" by (cases f)
  then have "p \<noteq> 0" "pa s p = up k" "rb_depth (up k) s = Some (length k)" using Cons by auto
  then show ?case by (simp add: f rb_depth.simps [of p])
qed (simp add: rb_depth.simps)

lemma ht_nd: "ht (nd d c t p u) = Suc (max (ht t) (ht u))"
  by (cases d) auto

lemma ht_plug: "length k + ht t \<le> ht (plug k t)"
proof (induction k arbitrary: t)
  case (Cons f k)
  obtain d c p u where f: "f = Fr d c p u" by (cases f)
  show ?case using Cons.IH [of "nd d c t p u"] by (simp add: f ht_nd)
qed simp

lemma ht_bound: "rbwf t \<Longrightarrow> ht t \<le> 2 * bh t + (if cl t = RB_RED then 1 else 0)"
  by (induction t) (auto split: if_splits)

lemma size_bound: "rbwf t \<Longrightarrow> 2 ^ bh t \<le> length (inorder t) + 1"
  by (induction t) (auto split: if_splits)

lemma depth_bound:
  assumes "rb_map s m" and "m k = Some p"
  shows "\<exists>d. rb_depth p s = Some d \<and> 2 ^ d \<le> (card (ran m) + 1)\<^sup>2"
proof -
  obtain t where t: "stores s t m" using assms by (auto simp: rb_map_def)
  note t' = t [unfolded stores_def]
  obtain K c l r where K: "t = plug K (N c l p r)" using zipper t' assms(2) by blast
  then have "rep s (Fr L c p r # K) l" using t' rep_top [of s K] rep_frame [of s L c p r K l] by simp
  then have "rb_depth p s = Some (length K + 1)" using depth_up [of s "Fr L c p r # K"] by (simp add: rep_def)
  moreover have "card (ran m) = length (inorder t)"
    using stores_ran [OF t] t' by (simp add: rep_def distinct_card)
  moreover have "length K + 1 \<le> ht t" using ht_plug [of K "N c l p r"] K by simp
  then have "length K + 1 \<le> 2 * bh t" using ht_bound [of t] t' by simp
  then have "(2 :: nat) ^ (length K + 1) \<le> (2 ^ bh t)\<^sup>2" unfolding power_mult [symmetric] by (intro power_increasing) (simp_all add: mult.commute)
  moreover have "(2 ^ bh t)\<^sup>2 \<le> (length (inorder t) + 1)\<^sup>2" using size_bound [of t] t' by (intro power_mono) auto
  ultimately show ?thesis by (metis order_trans)
qed

section \<open>Properties\<close>

lemma run_map:
  assumes "keyed_legal (ky s) cs Map.empty"
  shows "\<exists>s'. keyed_exec rb_insert rb_erase rb_find cs (rb_root_init s) = Some (fst (keyed_run (ky s) cs Map.empty), s') \<and>
    rb_map s' (snd (keyed_run (ky s) cs Map.empty))"
proof -
  have "rb_index (ky s) (rb_root_init s) Map.empty"
    using rb_map_init by (simp add: rb_index_def rb_root_init_def)
  from rbk.exec_ok [OF this assms] show ?thesis unfolding rb_index_def by blast
qed

text \<open>
  C3. From an empty root, every sequence of insertions, removals and searches returns, answers as a map from keys to
  nodes does, and ends in a red-black tree that stores the map; \<open>rb_first\<close> then finds the node with the least key, or
  nothing in an empty tree. A node is inserted only while it is outside of the tree and removed only while it is inside.
\<close>

theorem rb_refines_map:
  assumes "keyed_legal (ky s) cs Map.empty"
  shows "\<exists>s'. keyed_exec rb_insert rb_erase rb_find cs (rb_root_init s) = Some (fst (keyed_run (ky s) cs Map.empty), s') \<and>
    rb_map s' (snd (keyed_run (ky s) cs Map.empty)) \<and>
    (\<exists>p. rb_first s' = Some p \<and>
      (if snd (keyed_run (ky s) cs Map.empty) = Map.empty then p = 0
       else snd (keyed_run (ky s) cs Map.empty) (ky s' p) = Some p \<and>
         (\<forall>q \<in> ran (snd (keyed_run (ky s) cs Map.empty)). ky s' p \<le> ky s' q)))"
  using run_map [OF assms] rb_first_ok by blast

definition demo_rb :: rb where
  "demo_rb = \<lparr>root = 7, node_at = (\<lambda>p. \<lparr>parent = 9, left = 9, right = 9, color = RB_RED, key = of_nat (p div 2)\<rparr>)\<rparr>"

theorem rb_refines_map_witness:
  "\<exists>s'. keyed_exec rb_insert rb_erase rb_find [K_insert 2, K_insert 4, K_insert 6, K_insert 7, K_erase 4, K_find 3, K_find 2]
    (rb_root_init demo_rb) = Some ([0, 0, 0, 6, 0, 6, 0], s')"
  using rb_refines_map [of demo_rb "[K_insert 2, K_insert 4, K_insert 6, K_insert 7, K_erase 4, K_find 3, K_find 2]"]
  by (auto simp: demo_rb_def)

text \<open>
  C32. After every such sequence, a node of the tree lies \<open>d\<close> nodes below the root, itself counted, only if
  \<open>2 ^ d\<close> is at most the square of one more than the number of nodes: every path down, and so every search, visits at
  most \<open>2 * log\<^sub>2 (n + 1)\<close> nodes.
\<close>

theorem rb_depth_bound:
  assumes "keyed_legal (ky s) cs Map.empty"
    and "keyed_exec rb_insert rb_erase rb_find cs (rb_root_init s) = Some (rs, s')"
    and "snd (keyed_run (ky s) cs Map.empty) k = Some p"
  shows "\<exists>d. rb_depth p s' = Some d \<and> 2 ^ d \<le> (card (ran (snd (keyed_run (ky s) cs Map.empty))) + 1)\<^sup>2"
proof -
  have "rb_map s' (snd (keyed_run (ky s) cs Map.empty))" using run_map [OF assms(1)] assms(2) by auto
  then show ?thesis using depth_bound assms(3) by blast
qed

theorem rb_depth_bound_witness:
  "\<exists>s' d. keyed_exec rb_insert rb_erase rb_find [K_insert 2, K_insert 4] (rb_root_init demo_rb) = Some ([0, 0], s') \<and>
    rb_depth 4 s' = Some d \<and> 2 ^ d \<le> (9 :: nat)"
proof -
  let ?cs = "[K_insert 2, K_insert 4]"
  have l: "keyed_legal (ky demo_rb) ?cs Map.empty" by (simp add: demo_rb_def)
  obtain s' where s': "keyed_exec rb_insert rb_erase rb_find ?cs (rb_root_init demo_rb) = Some ([0, 0], s')"
    using run_map [OF l] by (auto simp: demo_rb_def)
  have m: "snd (keyed_run (ky demo_rb) ?cs Map.empty) = [1 \<mapsto> 2, 2 \<mapsto> 4]" by (simp add: demo_rb_def)
  have "ran [1 :: u64 \<mapsto> 2 :: nat, 2 \<mapsto> 4] = {2, 4}" by (auto simp: ran_map_upd)
  then show ?thesis using rb_depth_bound [OF l s', of 2 4] s' unfolding m by (auto simp: power2_eq_square)
qed

end
