(* ===== verification/Inode.thy ===== *)
theory Inode
  imports Rbtree_Props
begin

text \<open>
  The cache of open inodes (\<open>src/kernel/fs/inode.c\<close>). An inode fills a kernel page; it is named by the address of the
  page, and its tree node lies \<open>INODE_RB\<close> bytes into it. The sections with interrupts disabled are one definition
  each, and so is the work between the two sections of \<open>inode_open\<close>, in which other tasks run. The file system's
  \<open>read_inode\<close> is the argument \<open>rd\<close>: what it makes of the cleared inode, or nothing on an error.
\<close>

section \<open>The model\<close>

record fs_inode =
  i_no :: u32
  i_size :: u32
  i_mode :: u32
  i_uid :: u32
  i_gid :: u32
  i_atime :: u32
  i_ctime :: u32
  i_mtime :: u32
  i_links_count :: u32
  i_flags :: u32
  i_blocks :: u32
  i_dtime :: u32
  i_generation :: u32
  i_open_cnt :: u32
  write_deny :: u8
  i_block :: "u32 list"

definition inode_zero :: fs_inode where
  "inode_zero = \<lparr>i_no = 0, i_size = 0, i_mode = 0, i_uid = 0, i_gid = 0, i_atime = 0, i_ctime = 0, i_mtime = 0, i_links_count = 0,
     i_flags = 0, i_blocks = 0, i_dtime = 0, i_generation = 0, i_open_cnt = 0, write_deny = 0, i_block = replicate 15 0\<rparr>"

text \<open>The offset of \<open>inode_rb_node\<close>: fourteen words, a byte padded to a word, fifteen words.\<close>

definition INODE_RB :: nat where
  "INODE_RB = 120"

record icache =
  open_inodes_rb :: rb
  inode_at :: "nat \<Rightarrow> fs_inode"
  ipages :: "nat set"

definition upd_inode :: "nat \<Rightarrow> (fs_inode \<Rightarrow> fs_inode) \<Rightarrow> icache \<Rightarrow> icache" where
  "upd_inode i f c = c\<lparr>inode_at := (inode_at c)(i := f (inode_at c i))\<rparr>"

definition upd_node :: "nat \<Rightarrow> (rb_node \<Rightarrow> rb_node) \<Rightarrow> icache \<Rightarrow> icache" where
  "upd_node p f c =
     c\<lparr>open_inodes_rb := (open_inodes_rb c)\<lparr>node_at := (node_at (open_inodes_rb c))(p := f (node_at (open_inodes_rb c) p))\<rparr>\<rparr>"

definition rb_entry :: "nat \<Rightarrow> nat" where
  "rb_entry n = n - INODE_RB"

text \<open>Another reference to a cached inode; 0 when the number is not cached.\<close>

definition inode_lookup :: "u32 \<Rightarrow> icache \<Rightarrow> (nat \<times> icache) option" where
  "inode_lookup inode_no c =
     (case rb_find (ucast inode_no) (open_inodes_rb c) of
        None \<Rightarrow> None
      | Some found \<Rightarrow>
          if found \<noteq> 0 then
            (let inode = rb_entry found
             in Some (inode, upd_inode inode (\<lambda>x. x\<lparr>i_open_cnt := i_open_cnt x + 1\<rparr>) c))
          else Some (0, c))"

text \<open>\<open>page\<close> is the answer of the page allocator, 0 when there is none.\<close>

definition inode_load :: "(u32 \<Rightarrow> fs_inode \<Rightarrow> fs_inode option) \<Rightarrow> nat \<Rightarrow> u32 \<Rightarrow> icache \<Rightarrow> nat \<times> icache" where
  "inode_load rd page inode_no c =
     (if page = 0 then (0, c)
      else
        let c = c\<lparr>ipages := insert page (ipages c)\<rparr>;
            c = upd_inode page (\<lambda>_. inode_zero) c;
            c = upd_node (page + INODE_RB) (\<lambda>_. \<lparr>parent = 0, left = 0, right = 0, color = RB_RED, key = 0\<rparr>) c
        in case rd inode_no (inode_at c page) of
             None \<Rightarrow> (0, c\<lparr>ipages := ipages c - {page}\<rparr>)
           | Some x \<Rightarrow>
               let c = upd_inode page (\<lambda>_. x\<lparr>i_open_cnt := 1, write_deny := 0\<rparr>) c
               in (page, upd_node (page + INODE_RB) (\<lambda>n. n\<lparr>key := ucast inode_no\<rparr>) c))"

definition inode_insert :: "u32 \<Rightarrow> nat \<Rightarrow> icache \<Rightarrow> (nat \<times> icache) option" where
  "inode_insert inode_no inode c =
     (case inode_lookup inode_no c of
        None \<Rightarrow> None
      | Some (existing, c) \<Rightarrow>
          if existing \<noteq> 0 then Some (existing, c\<lparr>ipages := ipages c - {inode}\<rparr>)
          else
            (case rb_insert (inode + INODE_RB) (open_inodes_rb c) of
               None \<Rightarrow> None
             | Some (_, rb) \<Rightarrow> Some (inode, c\<lparr>open_inodes_rb := rb\<rparr>)))"

definition inode_open :: "(u32 \<Rightarrow> fs_inode \<Rightarrow> fs_inode option) \<Rightarrow> nat \<Rightarrow> u32 \<Rightarrow> icache \<Rightarrow> (nat \<times> icache) option" where
  "inode_open rd page inode_no c =
     (case inode_lookup inode_no c of
        None \<Rightarrow> None
      | Some (inode, c) \<Rightarrow>
          if inode \<noteq> 0 then Some (inode, c)
          else
            (case inode_load rd page inode_no c of
               (inode, c) \<Rightarrow> if inode = 0 then Some (0, c) else inode_insert inode_no inode c))"

definition inode_close :: "nat \<Rightarrow> icache \<Rightarrow> icache option" where
  "inode_close inode c =
     (if inode = 0 \<or> i_open_cnt (inode_at c inode) = 0 then Some c
      else
        let c = upd_inode inode (\<lambda>x. x\<lparr>i_open_cnt := i_open_cnt x - 1\<rparr>) c
        in if i_open_cnt (inode_at c inode) = 0 then
             (case rb_erase (inode + INODE_RB) (open_inodes_rb c) of
                None \<Rightarrow> None
              | Some rb \<Rightarrow>
                  let c = upd_inode inode (\<lambda>x. x\<lparr>i_open_cnt := 0\<rparr>) (c\<lparr>open_inodes_rb := rb\<rparr>)
                  in Some (c\<lparr>ipages := ipages c - {inode}\<rparr>))
           else Some c)"

section \<open>Tasks that open and close inodes\<close>

text \<open>
  \<open>held i\<close> counts the references to the inode \<open>i\<close> that callers have received and not closed; \<open>loading t\<close> is the page
  that task \<open>t\<close> has filled between the two sections. Fewer than \<open>2 ^ 32 - 1\<close> references to one inode are held.
\<close>

record ic_sys =
  cache :: icache
  held :: "nat \<Rightarrow> nat"
  loading :: "nat \<Rightarrow> (nat \<times> u32) option"

definition ic_init :: "rb \<Rightarrow> (nat \<Rightarrow> fs_inode) \<Rightarrow> ic_sys" where
  "ic_init s f = \<lparr>cache = \<lparr>open_inodes_rb = rb_root_init s, inode_at = f, ipages = {}\<rparr>, held = (\<lambda>_. 0), loading = (\<lambda>_. None)\<rparr>"

inductive ic_step :: "(u32 \<Rightarrow> fs_inode \<Rightarrow> fs_inode option) \<Rightarrow> ic_sys \<Rightarrow> ic_sys \<Rightarrow> bool" for rd where
  hit: "inode_lookup no (cache s) = Some (i, c) \<Longrightarrow> i \<noteq> 0 \<Longrightarrow> held s i + 1 < 2 ^ 32 \<Longrightarrow>
    ic_step rd s (s\<lparr>cache := c, held := (held s)(i := held s i + 1)\<rparr>)"
| load: "loading s t = None \<Longrightarrow> inode_lookup no (cache s) = Some (0, c0) \<Longrightarrow> page \<notin> ipages (cache s) \<Longrightarrow>
    inode_load rd page no c0 = (i, c) \<Longrightarrow> i \<noteq> 0 \<Longrightarrow>
    ic_step rd s (s\<lparr>cache := c, loading := (loading s)(t \<mapsto> (i, no))\<rparr>)"
| load_fails: "inode_lookup no (cache s) = Some (0, c0) \<Longrightarrow> page \<notin> ipages (cache s) \<Longrightarrow>
    inode_load rd page no c0 = (0, c) \<Longrightarrow> ic_step rd s (s\<lparr>cache := c\<rparr>)"
| finish: "loading s t = Some (i, no) \<Longrightarrow> inode_insert no i (cache s) = Some (j, c) \<Longrightarrow> held s j + 1 < 2 ^ 32 \<Longrightarrow>
    ic_step rd s (s\<lparr>cache := c, held := (held s)(j := held s j + 1), loading := (loading s)(t := None)\<rparr>)"
| release: "held s i > 0 \<Longrightarrow> inode_close i (cache s) = Some c \<Longrightarrow>
    ic_step rd s (s\<lparr>cache := c, held := (held s)(i := held s i - 1)\<rparr>)"

inductive ic_reach :: "(u32 \<Rightarrow> fs_inode \<Rightarrow> fs_inode option) \<Rightarrow> ic_sys \<Rightarrow> bool" for rd where
  start: "ic_reach rd (ic_init s f)"
| step: "ic_reach rd s \<Longrightarrow> ic_step rd s s' \<Longrightarrow> ic_reach rd s'"

section \<open>The invariant\<close>

definition ic_ok :: "(u64 \<rightharpoonup> nat) \<Rightarrow> ic_sys \<Rightarrow> bool" where
  "ic_ok m s \<longleftrightarrow>
     rb_map (open_inodes_rb (cache s)) m \<and>
     (\<forall>k n. m k = Some n \<longrightarrow> (\<exists>i. n = i + INODE_RB \<and> held s i > 0)) \<and>
     (\<forall>i. held s i > 0 \<longrightarrow> m (ky (open_inodes_rb (cache s)) (i + INODE_RB)) = Some (i + INODE_RB) \<and>
        unat (i_open_cnt (inode_at (cache s) i)) = held s i \<and> i \<noteq> 0) \<and>
     (\<forall>t i no. loading s t = Some (i, no) \<longrightarrow> held s i = 0 \<and> i \<noteq> 0 \<and> i_open_cnt (inode_at (cache s) i) = 1 \<and>
        ky (open_inodes_rb (cache s)) (i + INODE_RB) = ucast no) \<and>
     (\<forall>t u i no no'. loading s t = Some (i, no) \<and> loading s u = Some (i, no') \<longrightarrow> t = u) \<and>
     ipages (cache s) = {i. held s i > 0} \<union> {i. \<exists>t no. loading s t = Some (i, no)}"

lemma ic_okD:
  assumes "ic_ok m s"
  shows "rb_map (open_inodes_rb (cache s)) m" "\<And>k n. m k = Some n \<Longrightarrow> \<exists>i. n = i + INODE_RB \<and> held s i > 0"
    "\<And>i. held s i > 0 \<Longrightarrow> m (ky (open_inodes_rb (cache s)) (i + INODE_RB)) = Some (i + INODE_RB)"
    "\<And>i. held s i > 0 \<Longrightarrow> unat (i_open_cnt (inode_at (cache s) i)) = held s i" "\<And>i. held s i > 0 \<Longrightarrow> i \<noteq> 0"
    "\<And>t i no. loading s t = Some (i, no) \<Longrightarrow> held s i = 0 \<and> i \<noteq> 0 \<and> i_open_cnt (inode_at (cache s) i) = 1 \<and>
        ky (open_inodes_rb (cache s)) (i + INODE_RB) = ucast no"
    "\<And>t u i no no'. loading s t = Some (i, no) \<Longrightarrow> loading s u = Some (i, no') \<Longrightarrow> t = u"
    "ipages (cache s) = {i. held s i > 0} \<union> {i. \<exists>t no. loading s t = Some (i, no)}"
  using assms unfolding ic_ok_def by blast+

lemma ran_held: "ic_ok m s \<Longrightarrow> i + INODE_RB \<in> ran m \<longleftrightarrow> held s i > 0"
  using ic_okD(2,3) by (fastforce simp: ran_def)

text \<open>Changes outside of the tree.\<close>

lemma ordered_cong: "(\<And>p. p \<in> set ps \<Longrightarrow> K p = K' p) \<Longrightarrow> ordered K ps = ordered K' ps"
  by (induction ps) auto

lemma rb_map_frame:
  assumes "rb_map s m" and "root s' = root s" and "\<And>q. q \<in> ran m \<Longrightarrow> node_at s' q = node_at s q"
  shows "rb_map s' m"
proof -
  obtain t where t: "stores s t m" using assms(1) by (auto simp: rb_map_def)
  have same: "\<And>q. q \<in> nodes t \<Longrightarrow> node_at s' q = node_at s q" using assms(3) stores_ran [OF t] by simp
  have "tree_at s' 0 t = tree_at s 0 t" using same by (intro tree_at_frame) auto
  moreover have "ordered (ky s') (inorder t) = ordered (ky s) (inorder t)"
    using same by (intro ordered_cong) auto
  ultimately have "stores s' t m" using t same assms(2) unfolding stores_def rep_def by auto
  then show ?thesis by (auto simp: rb_map_def)
qed

lemma lookup_cases:
  assumes ok: "ic_ok m s"
  shows "(\<exists>i. m (ucast no) = Some (i + INODE_RB) \<and> held s i > 0 \<and>
      inode_lookup no (cache s) = Some (i, upd_inode i (\<lambda>x. x\<lparr>i_open_cnt := i_open_cnt x + 1\<rparr>) (cache s))) \<or>
    m (ucast no) = None \<and> inode_lookup no (cache s) = Some (0, cache s)"
proof (cases "m (ucast no)")
  case None
  then show ?thesis using rb_find_ok [OF ic_okD(1) [OF ok]] by (simp add: inode_lookup_def)
next
  case (Some n)
  then obtain i where i: "n = i + INODE_RB" "held s i > 0" using ic_okD(2) [OF ok] by blast
  then show ?thesis using Some rb_find_ok [OF ic_okD(1) [OF ok]]
    by (auto simp: inode_lookup_def rb_entry_def INODE_RB_def)
qed

lemma upd_simps [simp]:
  "open_inodes_rb (upd_inode i f c) = open_inodes_rb c" "ipages (upd_inode i f c) = ipages c"
  "inode_at (upd_inode i f c) j = (if j = i then f (inode_at c i) else inode_at c j)"
  "inode_at (upd_node p g c) = inode_at c" "ipages (upd_node p g c) = ipages c" "root (open_inodes_rb (upd_node p g c)) = root (open_inodes_rb c)"
  "node_at (open_inodes_rb (upd_node p g c)) q = (if q = p then g (node_at (open_inodes_rb c) p) else node_at (open_inodes_rb c) q)"
  by (simp_all add: upd_inode_def upd_node_def)

lemma unat_succ: "unat (w :: u32) + 1 < 2 ^ 32 \<Longrightarrow> unat (w + 1) = unat w + 1"
  by (simp add: unat_word_ariths)

lemma unat_pred: "(w :: u32) \<noteq> 0 \<Longrightarrow> unat (w - 1) = unat w - 1"
  by (simp add: unat_minus_one)

lemma ic_okI:
  assumes "rb_map (open_inodes_rb (cache s)) m" and "\<And>k n. m k = Some n \<Longrightarrow> \<exists>i. n = i + INODE_RB \<and> held s i > 0"
    and "\<And>i. held s i > 0 \<Longrightarrow> m (ky (open_inodes_rb (cache s)) (i + INODE_RB)) = Some (i + INODE_RB)"
    and "\<And>i. held s i > 0 \<Longrightarrow> unat (i_open_cnt (inode_at (cache s) i)) = held s i" and "\<And>i. held s i > 0 \<Longrightarrow> i \<noteq> 0"
    and "\<And>t i no. loading s t = Some (i, no) \<Longrightarrow> held s i = 0 \<and> i \<noteq> 0 \<and> i_open_cnt (inode_at (cache s) i) = 1 \<and>
        ky (open_inodes_rb (cache s)) (i + INODE_RB) = ucast no"
    and "\<And>t u i no no'. loading s t = Some (i, no) \<Longrightarrow> loading s u = Some (i, no') \<Longrightarrow> t = u"
    and "\<And>i. i \<in> ipages (cache s) \<longleftrightarrow> held s i > 0 \<or> (\<exists>t no. loading s t = Some (i, no))"
  shows "ic_ok m s"
  unfolding ic_ok_def using assms(1-7) assms(8) by blast

text \<open>Another reference to an inode that is held.\<close>

lemma hit_ok:
  assumes ok: "ic_ok m s" and i: "held s i > 0" "held s i + 1 < 2 ^ 32"
  shows "ic_ok m (s\<lparr>cache := upd_inode i (\<lambda>x. x\<lparr>i_open_cnt := i_open_cnt x + 1\<rparr>) (cache s), held := (held s)(i := held s i + 1)\<rparr>)"
    (is "ic_ok m ?s")
proof -
  note d = ic_okD [OF ok]
  have c: "unat (i_open_cnt (inode_at (cache s) i) + 1) = held s i + 1" using unat_succ d(4) [OF i(1)] i(2) by simp
  have h: "held ?s j > 0 \<longleftrightarrow> held s j > 0" for j using i by simp
  show ?thesis
  proof (rule ic_okI)
    show "\<And>k n. m k = Some n \<Longrightarrow> \<exists>j. n = j + INODE_RB \<and> held ?s j > 0" unfolding h by (rule d(2))
    show "\<And>j. held ?s j > 0 \<Longrightarrow> m (ky (open_inodes_rb (cache ?s)) (j + INODE_RB)) = Some (j + INODE_RB)"
      unfolding h using d(3) by simp
    show "\<And>j. held ?s j > 0 \<Longrightarrow> unat (i_open_cnt (inode_at (cache ?s) j)) = held ?s j" unfolding h using d(4) c by simp
    show "\<And>j. held ?s j > 0 \<Longrightarrow> j \<noteq> 0" unfolding h by (rule d(5))
    fix t j no assume "loading ?s t = Some (j, no)"
    then show "held ?s j = 0 \<and> j \<noteq> 0 \<and> i_open_cnt (inode_at (cache ?s) j) = 1 \<and>
        ky (open_inodes_rb (cache ?s)) (j + INODE_RB) = ucast no" using d(6) [of t j no] i by auto
  qed (use d(1,7,8) i in auto)
qed

text \<open>A page outside of the cache is not in the tree, so the tree does not see it change.\<close>

lemma page_frame:
  assumes ok: "ic_ok m s" and p: "page \<notin> ipages (cache s)" and "root rb' = root (open_inodes_rb (cache s))"
    and "\<And>q. q \<noteq> page + INODE_RB \<Longrightarrow> node_at rb' q = node_at (open_inodes_rb (cache s)) q"
  shows "rb_map rb' m"
proof (rule rb_map_frame [OF ic_okD(1) [OF ok] assms(3)])
  fix q assume "q \<in> ran m"
  moreover have "page + INODE_RB \<notin> ran m" using ran_held [OF ok] ic_okD(8) [OF ok] p by auto
  ultimately show "node_at rb' q = node_at (open_inodes_rb (cache s)) q" using assms(4) by metis
qed

lemma load_ok:
  assumes ok: "ic_ok m s" and p: "page \<notin> ipages (cache s)" "page \<noteq> 0" and t: "loading s t = None"
    and c: "root (open_inodes_rb c) = root (open_inodes_rb (cache s))"
      "\<And>q. q \<noteq> page + INODE_RB \<Longrightarrow> node_at (open_inodes_rb c) q = node_at (open_inodes_rb (cache s)) q"
      "\<And>j. j \<noteq> page \<Longrightarrow> inode_at c j = inode_at (cache s) j" "ipages c = insert page (ipages (cache s))"
      "i_open_cnt (inode_at c page) = 1" "ky (open_inodes_rb c) (page + INODE_RB) = ucast no"
  shows "ic_ok m (s\<lparr>cache := c, loading := (loading s)(t \<mapsto> (page, no))\<rparr>)" (is "ic_ok m ?s")
proof -
  note d = ic_okD [OF ok]
  have new: "held s page = 0" "\<And>u no. loading s u \<noteq> Some (page, no)" using p d(8) by auto
  have old: "j \<noteq> page" if "held s j > 0" for j using that new(1) by auto
  show ?thesis
  proof (rule ic_okI)
    show "rb_map (open_inodes_rb (cache ?s)) m" using page_frame [OF ok p(1) c(1,2)] by simp
    show "\<And>j. held ?s j > 0 \<Longrightarrow> m (ky (open_inodes_rb (cache ?s)) (j + INODE_RB)) = Some (j + INODE_RB)"
      using d(3) c(2) old by simp
    show "\<And>j. held ?s j > 0 \<Longrightarrow> unat (i_open_cnt (inode_at (cache ?s) j)) = held ?s j" using d(4) c(3) old by simp
    show "\<And>u v j no no'. loading ?s u = Some (j, no) \<Longrightarrow> loading ?s v = Some (j, no') \<Longrightarrow> u = v"
      using d(7) new(2) by (auto split: if_splits)
    show "j \<in> ipages (cache ?s) \<longleftrightarrow> held ?s j > 0 \<or> (\<exists>u no. loading ?s u = Some (j, no))" for j
      using d(8) c(4) t by (auto split: if_splits) (metis option.distinct(1))+
    fix u j no' assume "loading ?s u = Some (j, no')"
    then show "held ?s j = 0 \<and> j \<noteq> 0 \<and> i_open_cnt (inode_at (cache ?s) j) = 1 \<and>
        ky (open_inodes_rb (cache ?s)) (j + INODE_RB) = ucast no'"
      using d(6) [of u j no'] new p c by (cases "u = t"; cases "j = page") auto
  qed (use d(2,5) in auto)
qed

lemma load_fails_ok:
  assumes ok: "ic_ok m s" and p: "page \<notin> ipages (cache s)"
    and c: "root (open_inodes_rb c) = root (open_inodes_rb (cache s))"
      "\<And>q. q \<noteq> page + INODE_RB \<Longrightarrow> node_at (open_inodes_rb c) q = node_at (open_inodes_rb (cache s)) q"
      "\<And>j. j \<noteq> page \<Longrightarrow> inode_at c j = inode_at (cache s) j" "ipages c = ipages (cache s)"
  shows "ic_ok m (s\<lparr>cache := c\<rparr>)" (is "ic_ok m ?s")
proof -
  note d = ic_okD [OF ok]
  have old: "j \<noteq> page" if "held s j > 0 \<or> loading s u = Some (j, no)" for j u no using that p d(8) by auto
  show ?thesis
  proof (rule ic_okI)
    show "rb_map (open_inodes_rb (cache ?s)) m" using page_frame [OF ok p c(1,2)] by simp
    show "\<And>j. held ?s j > 0 \<Longrightarrow> m (ky (open_inodes_rb (cache ?s)) (j + INODE_RB)) = Some (j + INODE_RB)"
      using d(3) c(2) old by simp
    show "\<And>j. held ?s j > 0 \<Longrightarrow> unat (i_open_cnt (inode_at (cache ?s) j)) = held ?s j" using d(4) c(3) old by simp
    show "j \<in> ipages (cache ?s) \<longleftrightarrow> held ?s j > 0 \<or> (\<exists>u no. loading ?s u = Some (j, no))" for j using d(8) c(4) by simp
    fix u j no' assume l: "loading ?s u = Some (j, no')"
    then have "j \<noteq> page" using old [of j u no'] by simp
    then show "held ?s j = 0 \<and> j \<noteq> 0 \<and> i_open_cnt (inode_at (cache ?s) j) = 1 \<and>
        ky (open_inodes_rb (cache ?s)) (j + INODE_RB) = ucast no'"
      using d(6) [of u j no'] l c(2,3) by simp
  qed (use d(2,5,7) in auto)
qed

text \<open>The end of an open call: the inode was cached meanwhile, or the loaded page enters the tree.\<close>

lemma drop_loading:
  assumes ok: "ic_ok m s" and t: "loading s t = Some (i, no)"
  shows "ic_ok m (s\<lparr>cache := (cache s)\<lparr>ipages := ipages (cache s) - {i}\<rparr>, loading := (loading s)(t := None)\<rparr>)" (is "ic_ok m ?s")
proof -
  note d = ic_okD [OF ok]
  have i: "held s i = 0" using d(6) [OF t] by simp
  have other: "loading s u = Some (j, no') \<and> u \<noteq> t \<Longrightarrow> j \<noteq> i" for u j no' using d(7) [OF t] by blast
  show ?thesis
  proof (rule ic_okI)
    show "j \<in> ipages (cache ?s) \<longleftrightarrow> held ?s j > 0 \<or> (\<exists>u no. loading ?s u = Some (j, no))" for j
      using d(8) t i other by (auto split: if_splits) (metis option.inject prod.inject)
    show "\<And>u j no'. loading ?s u = Some (j, no') \<Longrightarrow> held ?s j = 0 \<and> j \<noteq> 0 \<and> i_open_cnt (inode_at (cache ?s) j) = 1 \<and>
        ky (open_inodes_rb (cache ?s)) (j + INODE_RB) = ucast no'"
      using d(6) by (auto split: if_splits)
    show "\<And>u v j no no'. loading ?s u = Some (j, no) \<Longrightarrow> loading ?s v = Some (j, no') \<Longrightarrow> u = v"
      using d(7) by (auto split: if_splits)
  qed (use d(1-5) in auto)
qed

lemma enter_ok:
  assumes ok: "ic_ok m s" and t: "loading s t = Some (i, no)" and m: "m (ucast no) = None"
  shows "\<exists>rb m'. rb_insert (i + INODE_RB) (open_inodes_rb (cache s)) = Some (0, rb) \<and>
    ic_ok m' (s\<lparr>cache := (cache s)\<lparr>open_inodes_rb := rb\<rparr>, held := (held s)(i := held s i + 1), loading := (loading s)(t := None)\<rparr>)"
proof -
  note d = ic_okD [OF ok]
  let ?rb = "open_inodes_rb (cache s)" and ?n = "i + INODE_RB"
  have i: "held s i = 0" "i \<noteq> 0" "i_open_cnt (inode_at (cache s) i) = 1" "ky ?rb ?n = ucast no" using d(6) [OF t] by auto
  obtain rb where rb: "rb_insert ?n ?rb = Some (0, rb)" "rb_map rb (m(ucast no \<mapsto> ?n))" "within (insert ?n (ran m)) ?rb rb"
    using rb_insert_new [OF d(1), of ?n] ran_held [OF ok, of i] i m by auto
  have ky: "ky rb q = ky ?rb q" for q using within_ky [OF rb(3)] .
  let ?s = "s\<lparr>cache := (cache s)\<lparr>open_inodes_rb := rb\<rparr>, held := (held s)(i := held s i + 1), loading := (loading s)(t := None)\<rparr>"
  have other: "loading s u = Some (j, no') \<and> u \<noteq> t \<Longrightarrow> j \<noteq> i" for u j no' using d(7) [OF t] by blast
  have "ic_ok (m(ucast no \<mapsto> ?n)) ?s"
  proof (rule ic_okI)
    show "\<And>k n. (m(ucast no \<mapsto> ?n)) k = Some n \<Longrightarrow> \<exists>j. n = j + INODE_RB \<and> held ?s j > 0"
      using d(2) by (auto split: if_splits) (metis not_gr_zero)
    show "(m(ucast no \<mapsto> ?n)) (ky (open_inodes_rb (cache ?s)) (j + INODE_RB)) = Some (j + INODE_RB)" if "held ?s j > 0" for j
      using that d(3) [of j] i(4) m by (cases "j = i") (auto simp: ky)
    show "\<And>j. held ?s j > 0 \<Longrightarrow> unat (i_open_cnt (inode_at (cache ?s) j)) = held ?s j" using d(4) i by auto
    show "j \<in> ipages (cache ?s) \<longleftrightarrow> held ?s j > 0 \<or> (\<exists>u no. loading ?s u = Some (j, no))" for j
      using d(8) t other by (auto split: if_splits) (metis option.inject prod.inject)
    show "\<And>u v j no no'. loading ?s u = Some (j, no) \<Longrightarrow> loading ?s v = Some (j, no') \<Longrightarrow> u = v"
      using d(7) by (auto split: if_splits)
    fix u j no' assume "loading ?s u = Some (j, no')"
    then show "held ?s j = 0 \<and> j \<noteq> 0 \<and> i_open_cnt (inode_at (cache ?s) j) = 1 \<and>
        ky (open_inodes_rb (cache ?s)) (j + INODE_RB) = ucast no'"
      using d(6) [of u j no'] other [of u j no'] by (auto simp: ky split: if_splits)
  qed (use rb(2) d(5) i(2) in \<open>auto split: if_splits\<close>)
  then show ?thesis using rb(1) by blast
qed

lemma insert_ok:
  assumes ok: "ic_ok m s" and t: "loading s t = Some (i, no)"
  shows "\<exists>j c. inode_insert no i (cache s) = Some (j, c) \<and>
    (held s j + 1 < 2 ^ 32 \<longrightarrow> (\<exists>m'. ic_ok m' (s\<lparr>cache := c, held := (held s)(j := held s j + 1), loading := (loading s)(t := None)\<rparr>)))"
  using lookup_cases [OF ok, of no]
proof (elim disjE exE conjE)
  fix j assume j: "held s j > 0"
    "inode_lookup no (cache s) = Some (j, upd_inode j (\<lambda>x. x\<lparr>i_open_cnt := i_open_cnt x + 1\<rparr>) (cache s))"
  let ?c = "upd_inode j (\<lambda>x. x\<lparr>i_open_cnt := i_open_cnt x + 1\<rparr>) (cache s)"
  have "j \<noteq> 0" using ic_okD(5) [OF ok j(1)] .
  then have "inode_insert no i (cache s) = Some (j, ?c\<lparr>ipages := ipages (cache s) - {i}\<rparr>)"
    using j(2) by (simp add: inode_insert_def)
  moreover have "ic_ok m (s\<lparr>cache := ?c\<lparr>ipages := ipages (cache s) - {i}\<rparr>, held := (held s)(j := held s j + 1), loading := (loading s)(t := None)\<rparr>)"
    if "held s j + 1 < 2 ^ 32"
    using drop_loading [OF hit_ok [OF ok j(1) that], of t i no] t by (cases s) simp
  ultimately show ?thesis by blast
next
  assume "m (ucast no) = None" and l: "inode_lookup no (cache s) = Some (0, cache s)"
  from enter_ok [OF ok t this(1)] obtain rb m' where "rb_insert (i + INODE_RB) (open_inodes_rb (cache s)) = Some (0, rb)"
    "ic_ok m' (s\<lparr>cache := (cache s)\<lparr>open_inodes_rb := rb\<rparr>, held := (held s)(i := held s i + 1), loading := (loading s)(t := None)\<rparr>)"
    by blast
  then show ?thesis using l by (auto simp: inode_insert_def)
qed

text \<open>Closing: a reference less, and with the last one the inode leaves the tree and its page is freed.\<close>

lemma close_keep:
  assumes ok: "ic_ok m s" and i: "held s i > 1"
  shows "ic_ok m (s\<lparr>cache := upd_inode i (\<lambda>x. x\<lparr>i_open_cnt := i_open_cnt x - 1\<rparr>) (cache s), held := (held s)(i := held s i - 1)\<rparr>)"
    (is "ic_ok m ?s")
proof -
  note d = ic_okD [OF ok]
  have i': "held s i > 0" using i by simp
  have "i_open_cnt (inode_at (cache s) i) \<noteq> 0" using d(4) [OF i'] i by auto
  then have c: "unat (i_open_cnt (inode_at (cache s) i) - 1) = held s i - 1" using unat_pred d(4) [OF i'] by simp
  have h: "held ?s j > 0 \<longleftrightarrow> held s j > 0" for j using i by simp
  show ?thesis
  proof (rule ic_okI)
    show "\<And>k n. m k = Some n \<Longrightarrow> \<exists>j. n = j + INODE_RB \<and> held ?s j > 0" unfolding h by (rule d(2))
    show "\<And>j. held ?s j > 0 \<Longrightarrow> m (ky (open_inodes_rb (cache ?s)) (j + INODE_RB)) = Some (j + INODE_RB)"
      unfolding h using d(3) by simp
    show "\<And>j. held ?s j > 0 \<Longrightarrow> unat (i_open_cnt (inode_at (cache ?s) j)) = held ?s j" unfolding h using d(4) c by simp
    show "\<And>j. held ?s j > 0 \<Longrightarrow> j \<noteq> 0" unfolding h by (rule d(5))
    show "j \<in> ipages (cache ?s) \<longleftrightarrow> held ?s j > 0 \<or> (\<exists>u no. loading ?s u = Some (j, no))" for j unfolding h using d(8) by simp
    fix t j no assume "loading ?s t = Some (j, no)"
    then show "held ?s j = 0 \<and> j \<noteq> 0 \<and> i_open_cnt (inode_at (cache ?s) j) = 1 \<and>
        ky (open_inodes_rb (cache ?s)) (j + INODE_RB) = ucast no" using d(6) [of t j no] i by auto
  qed (use d(1,7) in auto)
qed

lemma close_last:
  assumes ok: "ic_ok m s" and i: "held s i = 1" and c: "inode_at c = (inode_at (cache s))(i := x)" "ipages c = ipages (cache s) - {i}"
    and rb: "rb_map (open_inodes_rb c) (m(ky (open_inodes_rb (cache s)) (i + INODE_RB) := None))"
      "\<And>q. ky (open_inodes_rb c) q = ky (open_inodes_rb (cache s)) q"
  shows "ic_ok (m(ky (open_inodes_rb (cache s)) (i + INODE_RB) := None)) (s\<lparr>cache := c, held := (held s)(i := 0)\<rparr>)"
    (is "ic_ok ?m ?s")
proof -
  note d = ic_okD [OF ok]
  have i': "held s i > 0" using i by simp
  note mi = d(3) [OF i']
  have key: "ky (open_inodes_rb (cache s)) n = k" if "m k = Some n" for k n using rb_map_key [OF d(1) that] .
  have li: "j \<noteq> i" if "loading s t = Some (j, no)" for t j no using d(6) [OF that] i' by auto
  show ?thesis
  proof (rule ic_okI)
    show "\<exists>j. n = j + INODE_RB \<and> held ?s j > 0" if k: "?m k = Some n" for k n
    proof -
      have k': "m k = Some n" "k \<noteq> ky (open_inodes_rb (cache s)) (i + INODE_RB)" using k by (auto split: if_splits)
      then obtain j where j: "n = j + INODE_RB" "held s j > 0" using d(2) by blast
      then have "j \<noteq> i" using key [OF k'(1)] k'(2) by auto
      then show ?thesis using j by auto
    qed
    show "?m (ky (open_inodes_rb (cache ?s)) (j + INODE_RB)) = Some (j + INODE_RB)" if "held ?s j > 0" for j
    proof -
      have j: "held s j > 0" "j \<noteq> i" using that by (auto split: if_splits)
      then show ?thesis using d(3) [OF j(1)] mi by (auto simp: rb(2))
    qed
    show "j \<in> ipages (cache ?s) \<longleftrightarrow> held ?s j > 0 \<or> (\<exists>u no. loading ?s u = Some (j, no))" for j
      using d(8) c(2) by (auto dest: li)
    fix t j no assume l: "loading ?s t = Some (j, no)"
    then have "j \<noteq> i" using li [of t j no] by simp
    then show "held ?s j = 0 \<and> j \<noteq> 0 \<and> i_open_cnt (inode_at (cache ?s) j) = 1 \<and>
        ky (open_inodes_rb (cache ?s)) (j + INODE_RB) = ucast no" using d(6) [of t j no] l c(1) by (simp add: rb(2))
  qed (use rb(1) c(1) d(4,5,7) in \<open>auto split: if_splits\<close>)
qed

lemma close_ok:
  assumes ok: "ic_ok m s" and i: "held s i > 0"
  shows "\<exists>c m'. inode_close i (cache s) = Some c \<and> ic_ok m' (s\<lparr>cache := c, held := (held s)(i := held s i - 1)\<rparr>)"
proof -
  note d = ic_okD [OF ok]
  have z: "i \<noteq> 0" "i_open_cnt (inode_at (cache s) i) \<noteq> 0" using d(4,5) [OF i] i by auto
  have c: "unat (i_open_cnt (inode_at (cache s) i) - 1) = held s i - 1" using unat_pred [OF z(2)] d(4) [OF i] by simp
  show ?thesis
  proof (cases "held s i = 1")
    case False
    then have "i_open_cnt (inode_at (cache s) i) - 1 \<noteq> 0" using c i by auto
    then have "inode_close i (cache s) = Some (upd_inode i (\<lambda>x. x\<lparr>i_open_cnt := i_open_cnt x - 1\<rparr>) (cache s))"
      using z by (simp add: inode_close_def Let_def)
    then show ?thesis using close_keep [OF ok, of i] False i by auto
  next
    case True
    then have "i_open_cnt (inode_at (cache s) i) - 1 = 0" using c by (simp add: unat_eq_zero)
    moreover obtain rb where rb: "rb_erase (i + INODE_RB) (open_inodes_rb (cache s)) = Some rb"
        "rb_map rb (m(ky (open_inodes_rb (cache s)) (i + INODE_RB) := None))" "within (ran m) (open_inodes_rb (cache s)) rb"
      using rb_erase_ok [OF d(1) d(3) [OF i]] by blast
    ultimately obtain c x where c: "inode_close i (cache s) = Some c" "inode_at c = (inode_at (cache s))(i := x)"
        "ipages c = ipages (cache s) - {i}" "open_inodes_rb c = rb"
      using z by (auto simp: inode_close_def Let_def upd_inode_def)
    have "ic_ok (m(ky (open_inodes_rb (cache s)) (i + INODE_RB) := None)) (s\<lparr>cache := c, held := (held s)(i := 0)\<rparr>)"
      using rb(2) within_ky [OF rb(3)] c(4) by (intro close_last [OF ok True c(2,3)]) auto
    then show ?thesis using c(1) True by auto
  qed
qed

section \<open>Every reachable state\<close>

lemma step_ok:
  assumes "ic_step rd s s'" and ok: "ic_ok m s"
  shows "\<exists>m'. ic_ok m' s'"
  using assms(1)
proof cases
  case (hit no i c)
  then show ?thesis using lookup_cases [OF ok, of no] hit_ok [OF ok, of i] by auto
next
  case (load t no c0 page i c)
  then have c0: "c0 = cache s" using lookup_cases [OF ok, of no] ic_okD(5) [OF ok] by auto
  have p: "page \<noteq> 0" "i = page" using load(5,6) by (auto simp: inode_load_def Let_def split: if_splits option.splits)
  have "ic_ok m (s\<lparr>cache := c, loading := (loading s)(t \<mapsto> (page, no))\<rparr>)"
    using load(5,6) unfolding c0 by (intro load_ok [OF ok load(4) p(1) load(2)])
      (auto simp: inode_load_def Let_def split: if_splits option.splits)
  then show ?thesis using load(1) p(2) by blast
next
  case (load_fails no c0 page c)
  then have c0: "c0 = cache s" using lookup_cases [OF ok, of no] ic_okD(5) [OF ok] by auto
  have "ic_ok m (s\<lparr>cache := c\<rparr>)"
    using load_fails(3,4) unfolding c0 by (intro load_fails_ok [OF ok load_fails(3)])
      (auto simp: inode_load_def Let_def split: if_splits option.splits)
  then show ?thesis using load_fails(1) by blast
next
  case (finish t i no j c)
  then show ?thesis using insert_ok [OF ok finish(2)] by auto
next
  case (release i c)
  then show ?thesis using close_ok [OF ok release(2)] by auto
qed

lemma reach_ok: "ic_reach rd s \<Longrightarrow> \<exists>m. ic_ok m s"
proof (induction rule: ic_reach.induct)
  case (start s f)
  show ?case by (rule exI [of _ Map.empty]) (simp add: ic_ok_def ic_init_def rb_map_init)
next
  case (step s s')
  then show ?case using step_ok by blast
qed

text \<open>
  C6. In every state that tasks reach by opening and closing inodes, with a task switch possible between the two
  sections of an open call: an inode is referenced exactly while a search by its number finds it, its \<open>i_open_cnt\<close> is the
  number of references, two referenced inodes have different numbers, and the pages in use are those of the
  referenced inodes and of the inodes being loaded; so no page leaks and none is freed while it is referenced.
\<close>

theorem inode_cache_refs:
  assumes "ic_reach rd s"
  shows "(\<forall>i. held s i > 0 \<longrightarrow>
       rb_find (ky (open_inodes_rb (cache s)) (i + INODE_RB)) (open_inodes_rb (cache s)) = Some (i + INODE_RB) \<and>
       unat (i_open_cnt (inode_at (cache s) i)) = held s i) \<and>
    (\<forall>no. \<exists>n. rb_find (ucast (no :: u32)) (open_inodes_rb (cache s)) = Some n \<and>
       (n \<noteq> 0 \<longrightarrow> held s (rb_entry n) > 0 \<and> ky (open_inodes_rb (cache s)) n = ucast no)) \<and>
    (\<forall>i j. held s i > 0 \<and> held s j > 0 \<and>
       ky (open_inodes_rb (cache s)) (i + INODE_RB) = ky (open_inodes_rb (cache s)) (j + INODE_RB) \<longrightarrow> i = j) \<and>
    ipages (cache s) = {i. held s i > 0} \<union> {i. \<exists>t no. loading s t = Some (i, no)}"
proof -
  obtain m where ok: "ic_ok m s" using reach_ok [OF assms] by blast
  note d = ic_okD [OF ok] and f = rb_find_ok [OF d(1)]
  have a: "\<forall>no. \<exists>n. rb_find (ucast (no :: u32)) (open_inodes_rb (cache s)) = Some n \<and>
      (n \<noteq> 0 \<longrightarrow> held s (rb_entry n) > 0 \<and> ky (open_inodes_rb (cache s)) n = ucast no)"
  proof
    fix no :: u32
    show "\<exists>n. rb_find (ucast no) (open_inodes_rb (cache s)) = Some n \<and>
        (n \<noteq> 0 \<longrightarrow> held s (rb_entry n) > 0 \<and> ky (open_inodes_rb (cache s)) n = ucast no)"
    proof (cases "m (ucast no)")
      case None
      then show ?thesis unfolding f None by simp
    next
      case (Some n)
      obtain i where i: "n = i + INODE_RB" "held s i > 0" using d(2) [OF Some] by blast
      have "rb_find (ucast no) (open_inodes_rb (cache s)) = Some n" unfolding f Some by simp
      moreover have "rb_entry n = i" by (simp add: i(1) rb_entry_def)
      moreover note rb_map_key [OF d(1) Some]
      ultimately show ?thesis using i(2) by blast
    qed
  qed
  have b: "i = j" if "held s i > 0" "held s j > 0"
      "ky (open_inodes_rb (cache s)) (i + INODE_RB) = ky (open_inodes_rb (cache s)) (j + INODE_RB)" for i j
  proof -
    have "Some (i + INODE_RB) = Some (j + INODE_RB)"
      unfolding d(3) [OF that(1), symmetric] d(3) [OF that(2), symmetric] that(3) ..
    then show ?thesis by simp
  qed
  have c: "rb_find (ky (open_inodes_rb (cache s)) (i + INODE_RB)) (open_inodes_rb (cache s)) = Some (i + INODE_RB)"
    if "held s i > 0" for i unfolding f d(3) [OF that] by simp
  show ?thesis
  proof (intro conjI)
    show "\<forall>i. held s i > 0 \<longrightarrow>
       rb_find (ky (open_inodes_rb (cache s)) (i + INODE_RB)) (open_inodes_rb (cache s)) = Some (i + INODE_RB) \<and>
       unat (i_open_cnt (inode_at (cache s) i)) = held s i"
      by (intro allI impI conjI c d(4))
    show "\<forall>i j. held s i > 0 \<and> held s j > 0 \<and>
       ky (open_inodes_rb (cache s)) (i + INODE_RB) = ky (open_inodes_rb (cache s)) (j + INODE_RB) \<longrightarrow> i = j"
      by (intro allI impI) (elim conjE, rule b)
  qed (rule a, rule d(8))
qed

text \<open>Two states on the way: an inode is being loaded, then it is referenced.\<close>

lemma demo_loading: "\<exists>s. ic_reach (\<lambda>no x. Some x) s \<and> loading s 0 = Some (4096, 2) \<and> held s = (\<lambda>_. 0)"
proof -
  let ?rd = "\<lambda>no x. Some x"
  define s where "s = ic_init demo_rb (\<lambda>_. inode_zero)"
  have l: "inode_lookup 2 (cache s) = Some (0, cache s)"
    by (simp add: s_def ic_init_def inode_lookup_def rb_find_def find_loop.simps rb_root_init_def)
  obtain c where "inode_load ?rd 4096 2 (cache s) = (4096, c)" by (simp add: inode_load_def Let_def)
  then have "ic_step ?rd s (s\<lparr>cache := c, loading := (loading s)(0 \<mapsto> (4096, 2))\<rparr>)"
    by (intro load [OF _ l]) (auto simp: s_def ic_init_def)
  moreover have "ic_reach ?rd s" unfolding s_def by (rule start)
  ultimately have "ic_reach ?rd (s\<lparr>cache := c, loading := (loading s)(0 \<mapsto> (4096, 2))\<rparr>)" by (blast intro: step)
  then show ?thesis
    by (intro exI [of _ "s\<lparr>cache := c, loading := (loading s)(0 \<mapsto> (4096, 2))\<rparr>"]) (simp add: s_def ic_init_def)
qed

lemma demo_held: "\<exists>s j. ic_reach (\<lambda>no x. Some x) s \<and> held s j = 1"
proof -
  obtain s where s: "ic_reach (\<lambda>no x. Some x) s" "loading s 0 = Some (4096, 2)" "held s = (\<lambda>_. 0)"
    using demo_loading by blast
  obtain m where "ic_ok m s" using reach_ok [OF s(1)] by blast
  then obtain j c where "inode_insert 2 4096 (cache s) = Some (j, c)" using insert_ok s(2) by blast
  then have "ic_step (\<lambda>no x. Some x) s (s\<lparr>cache := c, held := (held s)(j := held s j + 1), loading := (loading s)(0 := None)\<rparr>)"
    by (intro finish [OF s(2)]) (simp_all add: s(3))
  then have "ic_reach (\<lambda>no x. Some x) (s\<lparr>cache := c, held := (held s)(j := held s j + 1), loading := (loading s)(0 := None)\<rparr>)"
    using s(1) by (blast intro: step)
  then show ?thesis using s(3) by (intro exI [of _ j] exI conjI) auto
qed

theorem inode_cache_refs_witness:
  "\<exists>s j. ic_reach (\<lambda>no x. Some x) s \<and> held s j = 1 \<and>
    rb_find (ky (open_inodes_rb (cache s)) (j + INODE_RB)) (open_inodes_rb (cache s)) = Some (j + INODE_RB) \<and>
    i_open_cnt (inode_at (cache s) j) = 1 \<and> j \<in> ipages (cache s)"
proof -
  obtain s j where s: "ic_reach (\<lambda>no x. Some x) s" "held s j = 1" using demo_held by blast
  note r = inode_cache_refs [OF s(1)]
  have "rb_find (ky (open_inodes_rb (cache s)) (j + INODE_RB)) (open_inodes_rb (cache s)) = Some (j + INODE_RB)"
    "unat (i_open_cnt (inode_at (cache s) j)) = 1" "j \<in> ipages (cache s)"
    using r s(2) by auto
  moreover from this(2) have "i_open_cnt (inode_at (cache s) j) = 1" by (metis unat_1 word_unat_eq_iff)
  ultimately show ?thesis using s by blast
qed

text \<open>
  C33. In every such state the operations return: the search that begins an open call, its end once the page is
  loaded, and the close of a referenced inode. None of the unbounded loops of the tree runs on.
\<close>

theorem inode_ops_return:
  assumes "ic_reach rd s"
  shows "inode_lookup no (cache s) \<noteq> None \<and>
    (\<forall>t i no'. loading s t = Some (i, no') \<longrightarrow> inode_insert no' i (cache s) \<noteq> None) \<and>
    (\<forall>i. held s i > 0 \<longrightarrow> inode_close i (cache s) \<noteq> None)"
proof -
  obtain m where ok: "ic_ok m s" using reach_ok [OF assms] by blast
  have "inode_lookup no (cache s) \<noteq> None" using lookup_cases [OF ok, of no] by auto
  moreover have "inode_insert no' i (cache s) \<noteq> None" if "loading s t = Some (i, no')" for t i no'
    using insert_ok [OF ok that] by auto
  moreover have "inode_close i (cache s) \<noteq> None" if "held s i > 0" for i using close_ok [OF ok that] by auto
  ultimately show ?thesis by blast
qed

theorem inode_ops_return_witness:
  "\<exists>s. ic_reach (\<lambda>no x. Some x) s \<and> loading s 0 = Some (4096, 2) \<and> inode_insert 2 4096 (cache s) \<noteq> None \<and>
    inode_lookup 5 (cache s) \<noteq> None"
proof -
  obtain s where s: "ic_reach (\<lambda>no x. Some x) s" "loading s 0 = Some (4096, 2)" using demo_loading by blast
  then show ?thesis using inode_ops_return [OF s(1), of 5] by blast
qed

end
