(* ===== verification/Dir.thy ===== *)
theory Dir
  imports Inode
begin

text \<open>
  Open directories (\<open>src/kernel/fs/dir.c\<close>): a table of 16 pointers to directory pages; a handle is the index of the
  entry plus one, cast to a pointer. Directory entries come from the file system, the argument \<open>nx\<close>: the entry
  after a position and the position after it, or nothing at the end. The code takes no lock: operations run one at a time.
\<close>

section \<open>The model\<close>

record fs_dirent =
  filename :: "u8 list"
  de_no :: u32
  f_type :: u32

record fs_dir =
  d_inode :: nat
  dir_pos :: u32
  dir_buf :: fs_dirent

definition MAX_OPEN_DIRS :: nat where
  "MAX_OPEN_DIRS = 16"

record dir_sys =
  icache_of :: icache
  root_dir :: fs_dir
  dir_table :: "nat list"
  dir_at :: "nat \<Rightarrow> fs_dir"
  dpages :: "nat set"

definition dir_zero :: fs_dir where
  "dir_zero = \<lparr>d_inode = 0, dir_pos = 0, dir_buf = \<lparr>filename = replicate 256 0, de_no = 0, f_type = 0\<rparr>\<rparr>"

definition upd_dir :: "nat \<Rightarrow> (fs_dir \<Rightarrow> fs_dir) \<Rightarrow> dir_sys \<Rightarrow> dir_sys" where
  "upd_dir p f d = d\<lparr>dir_at := (dir_at d)(p := f (dir_at d p))\<rparr>"

text \<open>\<open>ipage\<close> is the page the allocator offers to \<open>inode_open\<close>.\<close>

definition open_root_dir :: "(u32 \<Rightarrow> fs_inode \<Rightarrow> fs_inode option) \<Rightarrow> nat \<Rightarrow> dir_sys \<Rightarrow> dir_sys option" where
  "open_root_dir rd ipage d =
     (case inode_open rd ipage 2 (icache_of d) of
        None \<Rightarrow> None
      | Some (i, c) \<Rightarrow> Some (d\<lparr>icache_of := c, root_dir := (root_dir d)\<lparr>d_inode := i, dir_pos := 0\<rparr>\<rparr>))"

fun free_entry :: "nat list \<Rightarrow> nat \<Rightarrow> nat option" where
  "free_entry [] i = None"
| "free_entry (p # ps) i = (if p = 0 then Some i else free_entry ps (i + 1))"

definition dir_open :: "(u32 \<Rightarrow> fs_inode \<Rightarrow> fs_inode option) \<Rightarrow> nat \<Rightarrow> nat \<Rightarrow> u32 \<Rightarrow> dir_sys \<Rightarrow> (u64 \<times> dir_sys) option" where
  "dir_open rd page ipage inode_no d =
     (if page = 0 then Some (0, d)
      else
        let d = upd_dir page (\<lambda>_. dir_zero) (d\<lparr>dpages := insert page (dpages d)\<rparr>)
        in case inode_open rd ipage inode_no (icache_of d) of
             None \<Rightarrow> None
           | Some (i, c) \<Rightarrow>
               let d = upd_dir page (\<lambda>x. x\<lparr>d_inode := i, dir_pos := 0\<rparr>) (d\<lparr>icache_of := c\<rparr>)
               in case free_entry (dir_table d) 0 of
                    Some k \<Rightarrow> Some (of_nat (k + 1), d\<lparr>dir_table := (dir_table d)[k := page]\<rparr>)
                  | None \<Rightarrow>
                      (case inode_close (d_inode (dir_at d page)) (icache_of d) of
                         None \<Rightarrow> None
                       | Some c \<Rightarrow> Some (0, d\<lparr>icache_of := c, dpages := dpages d - {page}\<rparr>)))"

definition dir_handle_get :: "u64 \<Rightarrow> dir_sys \<Rightarrow> nat" where
  "dir_handle_get handle d =
     (let idx = unat (ucast handle :: u32)
      in if idx = 0 \<or> idx > MAX_OPEN_DIRS \<or> dir_table d ! (idx - 1) = 0 then 0 else dir_table d ! (idx - 1))"

definition dir_close :: "u64 \<Rightarrow> dir_sys \<Rightarrow> dir_sys option" where
  "dir_close handle d =
     (let p = dir_handle_get handle d
      in if p = 0 then Some d
         else
           let d = d\<lparr>dir_table := (dir_table d)[unat (ucast handle :: u32) - 1 := 0]\<rparr>
           in case inode_close (d_inode (dir_at d p)) (icache_of d) of
                None \<Rightarrow> None
              | Some c \<Rightarrow> Some (d\<lparr>icache_of := c, dpages := dpages d - {p}\<rparr>))"

definition dir_read :: "(fs_inode \<Rightarrow> u32 \<Rightarrow> (u32 \<times> fs_dirent) option) \<Rightarrow> u64 \<Rightarrow> dir_sys \<Rightarrow> fs_dirent option \<times> dir_sys" where
  "dir_read nx handle d =
     (let p = dir_handle_get handle d
      in if p = 0 then (None, d)
         else
           case nx (inode_at (icache_of d) (d_inode (dir_at d p))) (dir_pos (dir_at d p)) of
             None \<Rightarrow> (None, d)
           | Some (pos, e) \<Rightarrow> (Some e, upd_dir p (\<lambda>x. x\<lparr>dir_pos := pos, dir_buf := e\<rparr>) d))"

definition dir_rewind :: "u64 \<Rightarrow> dir_sys \<Rightarrow> dir_sys" where
  "dir_rewind handle d =
     (let p = dir_handle_get handle d in if p \<noteq> 0 then upd_dir p (\<lambda>x. x\<lparr>dir_pos := 0\<rparr>) d else d)"

section \<open>The table\<close>

text \<open>Sixteen entries; the entries in use are different pages, and they are the pages that are allocated.\<close>

definition dir_wf :: "dir_sys \<Rightarrow> bool" where
  "dir_wf d \<longleftrightarrow>
     length (dir_table d) = MAX_OPEN_DIRS \<and> distinct (filter (\<lambda>p. p \<noteq> 0) (dir_table d)) \<and>
     dpages d = set (filter (\<lambda>p. p \<noteq> 0) (dir_table d))"

inductive dir_step :: "(u32 \<Rightarrow> fs_inode \<Rightarrow> fs_inode option) \<Rightarrow> (fs_inode \<Rightarrow> u32 \<Rightarrow> (u32 \<times> fs_dirent) option) \<Rightarrow> dir_sys \<Rightarrow> dir_sys \<Rightarrow> bool"
  for rd nx where
  opens: "page \<notin> dpages d \<Longrightarrow> dir_open rd page ipage no d = Some (h, d') \<Longrightarrow> dir_step rd nx d d'"
| closes: "dir_close h d = Some d' \<Longrightarrow> dir_step rd nx d d'"
| reads: "dir_step rd nx d (snd (dir_read nx h d))"
| rewinds: "dir_step rd nx d (dir_rewind h d)"
| root: "open_root_dir rd ipage d = Some d' \<Longrightarrow> dir_step rd nx d d'"
| inodes: "dir_step rd nx d (d\<lparr>icache_of := c\<rparr>)"

inductive dir_reach :: "(u32 \<Rightarrow> fs_inode \<Rightarrow> fs_inode option) \<Rightarrow> (fs_inode \<Rightarrow> u32 \<Rightarrow> (u32 \<times> fs_dirent) option) \<Rightarrow> dir_sys \<Rightarrow> bool"
  for rd nx where
  boot: "dir_table d = replicate MAX_OPEN_DIRS 0 \<Longrightarrow> dpages d = {} \<Longrightarrow> dir_reach rd nx d"
| more: "dir_reach rd nx d \<Longrightarrow> dir_step rd nx d d' \<Longrightarrow> dir_reach rd nx d'"

lemma free_entry_Some:
  "free_entry ps i = Some k \<Longrightarrow> i \<le> k \<and> k < i + length ps \<and> ps ! (k - i) = 0 \<and> (\<forall>j < k - i. ps ! j \<noteq> 0)"
proof (induction ps arbitrary: i)
  case (Cons p ps)
  show ?case
  proof (cases "p = 0")
    case False
    then have "free_entry ps (i + 1) = Some k" using Cons.prems by simp
    from Cons.IH [OF this] show ?thesis using False
      by (auto simp: nth_Cons' Suc_diff_le less_Suc_eq_0_disj)
  qed (use Cons.prems in auto)
qed simp

lemma free_entry_None: "free_entry ps i = None \<longleftrightarrow> 0 \<notin> set ps"
  by (induction ps arbitrary: i) auto

text \<open>Filling a free entry, and clearing one.\<close>

lemma fill_entry:
  assumes "k < length ps" and "ps ! k = 0" and "p \<noteq> 0" and "p \<notin> set ps" and "distinct (filter (\<lambda>p. p \<noteq> 0) ps)"
  shows "distinct (filter (\<lambda>p. p \<noteq> 0) (ps[k := p]))" and "set (filter (\<lambda>p. p \<noteq> 0) (ps[k := p])) = insert p (set (filter (\<lambda>p. p \<noteq> 0) ps))"
proof -
  have u: "ps[k := p] = take k ps @ p # drop (k + 1) ps" using assms(1) by (simp add: upd_conv_take_nth_drop)
  have s: "ps = take k ps @ 0 # drop (k + 1) ps" using assms(1,2) id_take_nth_drop [of k ps] by simp
  have f: "filter (\<lambda>p. p \<noteq> 0) ps = filter (\<lambda>p. p \<noteq> 0) (take k ps) @ filter (\<lambda>p. p \<noteq> 0) (drop (k + 1) ps)" by (subst s) simp
  show "distinct (filter (\<lambda>p. p \<noteq> 0) (ps[k := p]))"
    using assms(3-5) unfolding u f by (auto dest: in_set_takeD in_set_dropD)
  show "set (filter (\<lambda>p. p \<noteq> 0) (ps[k := p])) = insert p (set (filter (\<lambda>p. p \<noteq> 0) ps))"
    using assms(3) unfolding u f by auto
qed

lemma clear_entry:
  assumes "k < length ps" and "ps ! k \<noteq> 0" and "distinct (filter (\<lambda>p. p \<noteq> (0::nat)) ps)"
  shows "distinct (filter (\<lambda>p. p \<noteq> 0) (ps[k := 0]))" and "set (filter (\<lambda>p. p \<noteq> 0) (ps[k := 0])) = set (filter (\<lambda>p. p \<noteq> 0) ps) - {ps ! k}"
proof -
  have u: "ps[k := 0] = take k ps @ 0 # drop (k + 1) ps" using assms(1) by (simp add: upd_conv_take_nth_drop)
  have s: "ps = take k ps @ ps ! k # drop (k + 1) ps" using assms(1) id_take_nth_drop [of k ps] by simp
  have f: "filter (\<lambda>p. p \<noteq> 0) ps = filter (\<lambda>p. p \<noteq> 0) (take k ps) @ ps ! k # filter (\<lambda>p. p \<noteq> 0) (drop (k + 1) ps)"
    using assms(2) by (subst s) simp
  show "distinct (filter (\<lambda>p. p \<noteq> 0) (ps[k := 0]))" using assms(3) unfolding u f by auto
  show "set (filter (\<lambda>p. p \<noteq> 0) (ps[k := 0])) = set (filter (\<lambda>p. p \<noteq> 0) ps) - {ps ! k}"
    using assms(3) unfolding u f by auto
qed

lemma upd_dir_simps [simp]:
  "icache_of (upd_dir p f d) = icache_of d" "dir_table (upd_dir p f d) = dir_table d" "dpages (upd_dir p f d) = dpages d"
  "root_dir (upd_dir p f d) = root_dir d"
  by (simp_all add: upd_dir_def)

text \<open>The two outcomes of an open call.\<close>

lemma dir_open_cases:
  assumes "dir_open rd page ipage no d = Some (h, d')"
  obtains (none) "h = 0" "dir_table d' = dir_table d" "dpages d' = (if page = 0 then dpages d else insert page (dpages d) - {page})"
  | (slot) k where "page \<noteq> 0" "free_entry (dir_table d) 0 = Some k" "h = of_nat (k + 1)" "dir_table d' = (dir_table d)[k := page]"
      "dpages d' = insert page (dpages d)"
proof (cases "page = 0")
  case True
  then show ?thesis using assms none by (auto simp: dir_open_def)
next
  case False
  then show ?thesis
  proof (cases "free_entry (dir_table d) 0")
    case None
    then show ?thesis using assms False none by (auto simp: dir_open_def Let_def split: option.splits prod.splits)
  next
    case (Some k)
    then show ?thesis using assms False slot [of k] by (auto simp: dir_open_def Let_def split: option.splits prod.splits)
  qed
qed

lemma slot_index:
  assumes "k < 16"
  shows "unat (ucast (of_nat (k + 1) :: u64) :: u32) = k + 1" and "(of_nat (k + 1) :: u64) \<noteq> 0"
proof -
  have u: "unat (of_nat (k + 1) :: u64) = k + 1" using assms by (simp add: unat_of_nat del: of_nat_add of_nat_Suc)
  then show "unat (ucast (of_nat (k + 1) :: u64) :: u32) = k + 1"
    using assms by (simp add: unsigned_ucast_eq take_bit_eq_mod del: of_nat_add of_nat_Suc)
  show "(of_nat (k + 1) :: u64) \<noteq> 0" using u by (metis Suc_eq_plus1 nat.distinct(1) unat_0)
qed

lemma dir_open_wf:
  assumes wf: "dir_wf d" and p: "page \<notin> dpages d" and o: "dir_open rd page ipage no d = Some (h, d')"
  shows "dir_wf d'" and "h = 0 \<Longrightarrow> dir_table d' = dir_table d"
    and "h \<noteq> 0 \<Longrightarrow> dir_handle_get h d = 0 \<and> dir_handle_get h d' = page \<and> page \<noteq> 0 \<and>
      (\<exists>k < MAX_OPEN_DIRS. h = of_nat (k + 1) \<and> dir_table d' = (dir_table d)[k := page])"
proof -
  note w = wf [unfolded dir_wf_def]
  have "dir_wf d' \<and> (h = 0 \<longrightarrow> dir_table d' = dir_table d) \<and> (h \<noteq> 0 \<longrightarrow> dir_handle_get h d = 0 \<and> dir_handle_get h d' = page \<and>
    page \<noteq> 0 \<and> (\<exists>k < MAX_OPEN_DIRS. h = of_nat (k + 1) \<and> dir_table d' = (dir_table d)[k := page]))"
    using o
  proof (cases rule: dir_open_cases)
    case none
    then have "dpages d' = dpages d" using p by (auto split: if_splits)
    then show ?thesis using none w by (simp add: dir_wf_def)
  next
    case (slot k)
    have k: "k < 16" "dir_table d ! k = 0" using free_entry_Some [OF slot(2)] w by (auto simp: MAX_OPEN_DIRS_def)
    have "page \<notin> set (dir_table d)" using p w slot(1) by auto
    note f = fill_entry [OF _ k(2) slot(1) this]
    have "dir_wf d'" using slot(4,5) w f k(1) unfolding dir_wf_def MAX_OPEN_DIRS_def by simp
    moreover have "dir_handle_get h d = 0" "dir_handle_get h d' = page"
      using slot k w slot_index [OF k(1)] by (auto simp: dir_handle_get_def Let_def MAX_OPEN_DIRS_def simp del: of_nat_add of_nat_Suc)
    ultimately show ?thesis using slot slot_index(2) [OF k(1)] k(1) by (auto simp: MAX_OPEN_DIRS_def)
  qed
  then show "dir_wf d'" "h = 0 \<Longrightarrow> dir_table d' = dir_table d"
    "h \<noteq> 0 \<Longrightarrow> dir_handle_get h d = 0 \<and> dir_handle_get h d' = page \<and> page \<noteq> 0 \<and>
      (\<exists>k < MAX_OPEN_DIRS. h = of_nat (k + 1) \<and> dir_table d' = (dir_table d)[k := page])" by blast+
qed

lemma handle_nonzero:
  assumes "dir_handle_get h d \<noteq> 0"
  shows "unat (ucast h :: u32) - 1 < MAX_OPEN_DIRS" and "dir_table d ! (unat (ucast h :: u32) - 1) = dir_handle_get h d"
proof -
  define i where "i = unat (ucast h :: u32)"
  have "dir_handle_get h d = (if i = 0 \<or> i > MAX_OPEN_DIRS \<or> dir_table d ! (i - 1) = 0 then 0 else dir_table d ! (i - 1))"
    by (simp add: dir_handle_get_def i_def)
  moreover from this have "i \<noteq> 0 \<and> i \<le> MAX_OPEN_DIRS" using assms by (metis not_le)
  ultimately show "unat (ucast h :: u32) - 1 < MAX_OPEN_DIRS" "dir_table d ! (unat (ucast h :: u32) - 1) = dir_handle_get h d"
    using assms unfolding i_def [symmetric] by (auto split: if_splits)
qed

lemma dir_close_effect:
  assumes "dir_close h d = Some d'" and "dir_handle_get h d \<noteq> 0"
  shows "dir_table d' = (dir_table d)[unat (ucast h :: u32) - 1 := 0]" and "dpages d' = dpages d - {dir_handle_get h d}"
  using assms unfolding dir_close_def Let_def by (auto split: option.splits)

lemma dir_close_wf:
  assumes wf: "dir_wf d" and c: "dir_close h d = Some d'"
  shows "dir_wf d'" and "dir_handle_get h d' = 0"
proof -
  have "dir_wf d' \<and> dir_handle_get h d' = 0"
  proof (cases "dir_handle_get h d = 0")
    case True
    then show ?thesis using wf c by (simp add: dir_close_def)
  next
    case False
    note e = dir_close_effect [OF c False] and n = handle_nonzero [OF False]
    define i where "i = unat (ucast h :: u32) - 1"
    have i: "i < length (dir_table d)" "dir_table d ! i \<noteq> 0" using n False wf unfolding i_def dir_wf_def by auto
    have "dir_wf d'" using clear_entry [OF i] wf n(2) unfolding dir_wf_def e i_def [symmetric] by simp
    moreover have "dir_table d' ! i = 0" using e(1) i(1) unfolding i_def [symmetric] by simp
    then have "dir_handle_get h d' = 0" unfolding dir_handle_get_def Let_def i_def by simp
    ultimately show ?thesis by simp
  qed
  then show "dir_wf d'" "dir_handle_get h d' = 0" by simp_all
qed

lemma dir_other:
  "dir_table (snd (dir_read nx h d)) = dir_table d" "dpages (snd (dir_read nx h d)) = dpages d"
  "dir_table (dir_rewind h d) = dir_table d" "dpages (dir_rewind h d) = dpages d"
  by (simp_all add: dir_read_def dir_rewind_def Let_def split: option.split prod.split)

lemma dir_step_wf: "dir_step rd nx d d' \<Longrightarrow> dir_wf d \<Longrightarrow> dir_wf d'"
proof (induction rule: dir_step.induct)
  case (opens page d ipage no h d')
  then show ?case using dir_open_wf(1) by blast
next
  case (closes h d d')
  then show ?case using dir_close_wf(1) by blast
next
  case (root ipage d d')
  then have "dir_table d' = dir_table d" "dpages d' = dpages d" by (auto simp: open_root_dir_def split: option.splits)
  then show ?case using root.prems by (simp add: dir_wf_def)
qed (simp_all add: dir_wf_def dir_other)

lemma dir_reach_wf: "dir_reach rd nx d \<Longrightarrow> dir_wf d"
proof (induction rule: dir_reach.induct)
  case (boot d)
  then show ?case by (simp add: dir_wf_def)
next
  case (more d d')
  then show ?case using dir_step_wf by blast
qed


definition demo_dirs :: dir_sys where
  "demo_dirs = \<lparr>icache_of = cache (ic_init demo_rb (\<lambda>_. inode_zero)), root_dir = dir_zero, dir_table = replicate MAX_OPEN_DIRS 0,
     dir_at = (\<lambda>_. dir_zero), dpages = {}\<rparr>"

lemma demo_inode:
  "\<exists>c. inode_open (\<lambda>no x. Some x) 4096 2 (icache_of demo_dirs) = Some (4096, c) \<and> i_open_cnt (inode_at c 4096) = 1 \<and>
    root (open_inodes_rb c) = 4216 \<and> node_at (open_inodes_rb c) 4216 = \<lparr>parent = 0, left = 0, right = 0, color = RB_BLACK, key = 2\<rparr>"
proof -
  let ?c = "icache_of demo_dirs"
  have l: "inode_lookup 2 c = Some (0, c)" if "root (open_inodes_rb c) = 0" for c
    using that by (simp add: inode_lookup_def rb_find_def find_loop.simps)
  have r: "root (open_inodes_rb ?c) = 0" by (simp add: demo_dirs_def ic_init_def rb_root_init_def)
  define c where "c = snd (inode_load (\<lambda>no x. Some x) 4096 2 ?c)"
  have c: "inode_load (\<lambda>no x. Some x) 4096 2 ?c = (4096, c)" "root (open_inodes_rb c) = 0" "i_open_cnt (inode_at c 4096) = 1"
      "ky (open_inodes_rb c) 4216 = 2"
    using r by (simp_all add: c_def inode_load_def Let_def INODE_RB_def)
  then show ?thesis
    by (simp add: inode_open_def l r inode_insert_def rb_insert_def Let_def INODE_RB_def)
qed

lemma demo_inode_close:
  assumes "i_open_cnt (inode_at c 4096) = 1" "root (open_inodes_rb c) = 4216"
    "node_at (open_inodes_rb c) 4216 = \<lparr>parent = 0, left = 0, right = 0, color = RB_BLACK, key = 2\<rparr>"
  shows "inode_close 4096 c \<noteq> None"
  using assms by (simp add: inode_close_def Let_def INODE_RB_def rb_erase_def reparent_def relink_def erase_end_def rb_erase_fixup_def
      erase_loop.simps)

lemma demo_open_close: "\<exists>d1 d2. dir_open (\<lambda>no x. Some x) 8192 4096 2 demo_dirs = Some (1, d1) \<and> dir_close 1 d1 = Some d2"
proof -
  obtain c where c: "inode_open (\<lambda>no x. Some x) 4096 2 (icache_of demo_dirs) = Some (4096, c)" "inode_close 4096 c \<noteq> None"
    using demo_inode demo_inode_close by blast
  have f: "free_entry (dir_table demo_dirs) 0 = Some 0" by (simp add: demo_dirs_def MAX_OPEN_DIRS_def numeral_eq_Suc)
  have t: "length (dir_table demo_dirs) = 16" by (simp add: demo_dirs_def MAX_OPEN_DIRS_def)
  obtain d1 where d1: "dir_open (\<lambda>no x. Some x) 8192 4096 2 demo_dirs = Some (1, d1)" "icache_of d1 = c"
      "dir_table d1 = (dir_table demo_dirs)[0 := 8192]" "d_inode (dir_at d1 8192) = 4096"
    using c(1) f by (simp add: dir_open_def Let_def) (simp add: upd_dir_def)
  have "dir_handle_get 1 d1 = 8192" using d1(3) t by (simp add: dir_handle_get_def Let_def MAX_OPEN_DIRS_def)
  then have "\<exists>d2. dir_close 1 d1 = Some d2" using c(2) d1(2,4) by (auto simp: dir_close_def Let_def)
  then show ?thesis using d1(1) by blast
qed


end
