(* ===== verification/Kheap.thy ===== *)
theory Kheap
  imports Str
begin

text \<open>
  The kernel heap of \<open>src/kernel/mm/kheap.c\<close>: segregated free lists in two levels over areas of pages. Headers and free links
  lie in the same byte memory as the data of the callers. A pointer is an address (0 is null); sizes are 64-bit words.
  Every operation holds \<open>kheap_lock\<close> from its first access to the heap to its last, so it is one step. What
  \<open>get_kernel_pages\<close> answers is an argument: the address for the first and for the second request of an operation.
\<close>

section \<open>State\<close>

definition HEAP_ALIGN :: u64 where
  "HEAP_ALIGN = 16"

definition HEAP_SL_LOG2 :: nat where
  "HEAP_SL_LOG2 = 4"

definition HEAP_SL_COUNT :: nat where
  "HEAP_SL_COUNT = 16"

definition HEAP_FL_COUNT :: nat where
  "HEAP_FL_COUNT = 32"

definition HEAP_HDR :: u64 where
  "HEAP_HDR = 16"

definition HEAP_MIN_BLOCK :: u64 where
  "HEAP_MIN_BLOCK = 2 * HEAP_HDR"

definition HEAP_MAX_BYTES :: u64 where
  "HEAP_MAX_BYTES = push_bit 30 1"

definition HEAP_FREE :: u64 where
  "HEAP_FREE = 1"

definition HEAP_PREV_FREE :: u64 where
  "HEAP_PREV_FREE = 2"

definition HEAP_SIZE_MASK :: u64 where
  "HEAP_SIZE_MASK = NOT 3"

definition KHEAP_AREA_MIN_PAGES :: u32 where
  "KHEAP_AREA_MIN_PAGES = 16"

definition KHEAP_AREA_MAX_PAGES :: u32 where
  "KHEAP_AREA_MAX_PAGES = 256"

definition KHEAP_MAX_AREAS :: nat where
  "KHEAP_MAX_AREAS = 64"

record heap_area =
  area_mem :: nat
  area_bytes :: u64

record kheap =
  kmem :: mem
  fl_bitmap :: u32
  sl_bitmap :: "nat \<Rightarrow> u32"
  blocks :: "nat \<Rightarrow> nat \<Rightarrow> nat"
  kheap_areas :: "heap_area list"
  kheap_used_bytes :: u32
  kheap_peak_bytes :: u32
  kheap_alloc_count :: u32

section \<open>Blocks\<close>

text \<open>The fields of \<open>struct MM_HEAP_BLOCK\<close> and \<open>struct MM_HEAP_FREE_LINK\<close>, read and written in memory.\<close>

definition blk_prev :: "mem \<Rightarrow> nat \<Rightarrow> nat" where
  "blk_prev m b = unat (load64 m b)"

definition blk_size :: "mem \<Rightarrow> nat \<Rightarrow> u64" where
  "blk_size m b = load64 m (b + 8)"

definition set_prev :: "nat \<Rightarrow> nat \<Rightarrow> kheap \<Rightarrow> kheap" where
  "set_prev b p s = s\<lparr>kmem := store64 (kmem s) b (of_nat p)\<rparr>"

definition set_size :: "nat \<Rightarrow> u64 \<Rightarrow> kheap \<Rightarrow> kheap" where
  "set_size b v s = s\<lparr>kmem := store64 (kmem s) (b + 8) v\<rparr>"

definition block_total :: "mem \<Rightarrow> nat \<Rightarrow> u64" where
  "block_total m b = blk_size m b AND HEAP_SIZE_MASK"

definition block_next :: "mem \<Rightarrow> nat \<Rightarrow> nat" where
  "block_next m b = b + unat (block_total m b)"

definition block_user :: "nat \<Rightarrow> nat" where
  "block_user b = b + unat HEAP_HDR"

definition block_from :: "nat \<Rightarrow> nat" where
  "block_from ptr = ptr - unat HEAP_HDR"

definition free_link :: "nat \<Rightarrow> nat" where
  "free_link b = b + unat HEAP_HDR"

definition link_next :: "mem \<Rightarrow> nat \<Rightarrow> nat" where
  "link_next m b = unat (load64 m (free_link b))"

definition link_prev :: "mem \<Rightarrow> nat \<Rightarrow> nat" where
  "link_prev m b = unat (load64 m (free_link b + 8))"

definition set_link_next :: "nat \<Rightarrow> nat \<Rightarrow> kheap \<Rightarrow> kheap" where
  "set_link_next b p s = s\<lparr>kmem := store64 (kmem s) (free_link b) (of_nat p)\<rparr>"

definition set_link_prev :: "nat \<Rightarrow> nat \<Rightarrow> kheap \<Rightarrow> kheap" where
  "set_link_prev b p s = s\<lparr>kmem := store64 (kmem s) (free_link b + 8) (of_nat p)\<rparr>"

section \<open>Size classes\<close>

definition clzll :: "u64 \<Rightarrow> nat" where
  "clzll x = length (takeWhile (\<lambda>i. \<not> bit x (63 - i)) [0..<64])"

definition heap_fls :: "u64 \<Rightarrow> nat" where
  "heap_fls x = 63 - clzll x"

definition map_insert :: "u64 \<Rightarrow> nat \<times> nat" where
  "map_insert tot =
     (let f = heap_fls tot in (f, unat (drop_bit (f - HEAP_SL_LOG2) tot AND (of_nat HEAP_SL_COUNT - 1))))"

definition map_request :: "u64 \<Rightarrow> (nat \<times> nat) option" where
  "map_request tot = (if tot \<ge> HEAP_MAX_BYTES then None else Some (map_insert tot))"

section \<open>Free lists\<close>

definition freelist_push :: "nat \<Rightarrow> kheap \<Rightarrow> kheap" where
  "freelist_push b s =
     (let (fl, sl) = map_insert (block_total (kmem s) b);
          s = set_link_next b (blocks s fl sl) s;
          s = set_link_prev b 0 s;
          nx = link_next (kmem s) b;
          s = (if nx \<noteq> 0 then set_link_prev nx b s else s);
          s = s\<lparr>blocks := (blocks s)(fl := (blocks s fl)(sl := b))\<rparr>;
          s = s\<lparr>sl_bitmap := (sl_bitmap s)(fl := sl_bitmap s fl OR push_bit sl 1)\<rparr>
      in s\<lparr>fl_bitmap := fl_bitmap s OR push_bit fl 1\<rparr>)"

definition freelist_remove :: "nat \<Rightarrow> kheap \<Rightarrow> kheap" where
  "freelist_remove b s =
     (let (fl, sl) = map_insert (block_total (kmem s) b);
          s = (if link_prev (kmem s) b \<noteq> 0 then set_link_next (link_prev (kmem s) b) (link_next (kmem s) b) s
               else let s = s\<lparr>blocks := (blocks s)(fl := (blocks s fl)(sl := link_next (kmem s) b))\<rparr>
                    in if link_next (kmem s) b = 0 then
                         let s = s\<lparr>sl_bitmap := (sl_bitmap s)(fl := sl_bitmap s fl AND NOT (push_bit sl 1))\<rparr>
                         in if sl_bitmap s fl = 0 then s\<lparr>fl_bitmap := fl_bitmap s AND NOT (push_bit fl 1)\<rparr> else s
                       else s)
      in if link_next (kmem s) b \<noteq> 0 then set_link_prev (link_next (kmem s) b) (link_prev (kmem s) b) s else s)"

text \<open>The search of \<open>list_take\<close> in the list of the requested class; the chain of links bounds it.\<close>

partial_function (option) list_fit :: "mem \<Rightarrow> u64 \<Rightarrow> nat \<Rightarrow> nat option" where
  "list_fit m tot fit =
     (if fit = 0 then Some 0
      else if block_total m fit \<ge> tot then Some fit
      else list_fit m tot (link_next m fit))"

declare list_fit.simps [code]

text \<open>The loop over the bits of \<open>sl_map\<close>: \<open>None\<close> if the search does not end, else the block taken, if any.\<close>

function list_take_sl :: "nat \<Rightarrow> nat \<Rightarrow> u64 \<Rightarrow> nat \<Rightarrow> u32 \<Rightarrow> kheap \<Rightarrow> (kheap \<times> nat option) option" where
  "list_take_sl fl0 sl0 tot fl sl_map s =
     (if sl_map = 0 then Some (s, None)
      else let sl = ctz sl_map; b = blocks s fl sl
           in if fl = fl0 \<and> sl = sl0 then
                (case list_fit (kmem s) tot b of
                   None \<Rightarrow> None
                 | Some fit \<Rightarrow>
                     if fit = 0 then list_take_sl fl0 sl0 tot fl (sl_map AND NOT (push_bit sl 1)) s
                     else Some (freelist_remove fit s, Some fit))
              else Some (freelist_remove b s, Some b))"
  by pat_completeness auto

primrec list_take_fl :: "nat \<Rightarrow> u64 \<Rightarrow> nat list \<Rightarrow> nat \<Rightarrow> kheap \<Rightarrow> (kheap \<times> nat option) option" where
  "list_take_fl fl0 tot [] sl0 s = Some (s, None)"
| "list_take_fl fl0 tot (fl # fls) sl0 s =
     (case list_take_sl fl0 sl0 tot fl (sl_bitmap s fl AND push_bit sl0 (NOT 0)) s of
        None \<Rightarrow> None
      | Some (s, Some b) \<Rightarrow> Some (s, Some b)
      | Some (s, None) \<Rightarrow> list_take_fl fl0 tot fls 0 s)"

lemma clear_low_bit: "(w :: 'a::len word) \<noteq> 0 \<Longrightarrow> unat (w AND NOT (push_bit (ctz w) 1)) < unat w"
proof -
  assume w: "w \<noteq> 0"
  have "w AND NOT (push_bit (ctz w) 1) \<noteq> w"
  proof
    assume e: "w AND NOT (push_bit (ctz w) 1) = w"
    have "bit w (ctz w)" using w by (rule bit_ctz)
    then have "bit (w AND NOT (push_bit (ctz w) 1)) (ctz w)" using e by simp
    then show False by (auto simp: bit_simps)
  qed
  moreover have "w AND NOT (push_bit (ctz w) 1) \<le> w" by (rule word_and_le2)
  ultimately have "w AND NOT (push_bit (ctz w) 1) < w" by (simp only: order_less_le) blast
  then show ?thesis by (simp only: word_less_nat_alt)
qed

termination list_take_sl
  by (relation "measure (\<lambda>(fl0, sl0, tot, fl, sl_map, s). unat sl_map)") (auto intro: clear_low_bit simp del: push_bit_of_1)

declare list_take_sl.simps [simp del]

definition list_take :: "nat \<Rightarrow> nat \<Rightarrow> u64 \<Rightarrow> kheap \<Rightarrow> (kheap \<times> nat option) option" where
  "list_take fl0 sl0 tot s = list_take_fl fl0 tot [fl0..<HEAP_FL_COUNT] sl0 s"

section \<open>Splitting and merging\<close>

definition block_release :: "nat \<Rightarrow> kheap \<Rightarrow> kheap" where
  "block_release b s =
     (let s = set_size b (blk_size (kmem s) b OR HEAP_FREE) s;
          n = block_next (kmem s) b;
          s = set_size n (blk_size (kmem s) n OR HEAP_PREV_FREE) s;
          s = (if blk_size (kmem s) n AND HEAP_FREE \<noteq> 0 \<and> block_total (kmem s) n \<noteq> 0 then
                 let s = freelist_remove n s;
                     s = set_size b ((block_total (kmem s) b + block_total (kmem s) n) OR HEAP_FREE OR
                                     (blk_size (kmem s) b AND HEAP_PREV_FREE)) s;
                     m = block_next (kmem s) b
                 in set_prev m b s
               else s);
          (s, b) = (if blk_size (kmem s) b AND HEAP_PREV_FREE \<noteq> 0 then
                      let p = blk_prev (kmem s) b;
                          s = freelist_remove p s;
                          s = set_size p ((block_total (kmem s) p + block_total (kmem s) b) OR HEAP_FREE OR
                                          (blk_size (kmem s) p AND HEAP_PREV_FREE)) s;
                          m = block_next (kmem s) p
                      in (set_prev m p s, p)
                    else (s, b))
      in freelist_push b s)"

definition block_trim_used :: "nat \<Rightarrow> u64 \<Rightarrow> kheap \<Rightarrow> kheap" where
  "block_trim_used b need s =
     (if block_total (kmem s) b < HEAP_HDR + need + HEAP_MIN_BLOCK then s
      else let t = b + unat HEAP_HDR + unat need;
               s = set_size t (block_total (kmem s) b - HEAP_HDR - need) s;
               s = set_prev t b s;
               s = set_size b ((HEAP_HDR + need) OR (blk_size (kmem s) b AND HEAP_PREV_FREE)) s;
               m = block_next (kmem s) t;
               s = set_prev m t s
           in block_release t s)"

text \<open>The address of the data, or 0.\<close>

definition block_acquire :: "u64 \<Rightarrow> kheap \<Rightarrow> (kheap \<times> nat) option" where
  "block_acquire payload s =
     (let tot = payload + HEAP_HDR
      in case map_request tot of
           None \<Rightarrow> Some (s, 0)
         | Some (fl, sl) \<Rightarrow>
             (case list_take fl sl tot s of
                None \<Rightarrow> None
              | Some (s, None) \<Rightarrow> Some (s, 0)
              | Some (s, Some b) \<Rightarrow>
                  let s = set_size b (blk_size (kmem s) b AND NOT HEAP_FREE) s;
                      n = block_next (kmem s) b;
                      s = set_size n (blk_size (kmem s) n AND NOT HEAP_PREV_FREE) s
                  in Some (block_trim_used b payload s, block_user b)))"

section \<open>Areas\<close>

definition kheap_area_add :: "nat \<Rightarrow> u64 \<Rightarrow> kheap \<Rightarrow> kheap" where
  "kheap_area_add mem bytes s =
     (let bytes = bytes AND NOT (HEAP_ALIGN - 1);
          b = mem;
          s = set_size b (bytes - HEAP_HDR) s;
          s = set_prev b 0 s;
          e = block_next (kmem s) b;
          s = set_size e 0 s;
          s = set_prev e b s;
          s = s\<lparr>kheap_areas := kheap_areas s @ [\<lparr>area_mem = mem, area_bytes = bytes\<rparr>]\<rparr>
      in block_release b s)"

definition kheap_pages :: "u64 \<Rightarrow> u32" where
  "kheap_pages need =
     (let pages = ucast ((need + 3 * HEAP_HDR + 0x1000 - 1) div 0x1000)
      in if pages < KHEAP_AREA_MIN_PAGES then KHEAP_AREA_MIN_PAGES else pages)"

definition kheap_grow :: "nat \<Rightarrow> u64 \<Rightarrow> kheap \<Rightarrow> kheap \<times> bool" where
  "kheap_grow mem need s =
     (if length (kheap_areas s) \<ge> KHEAP_MAX_AREAS then (s, False)
      else let pages = kheap_pages need
           in if pages > KHEAP_AREA_MAX_PAGES then (s, False)
              else if mem = 0 then (s, False)
              else (kheap_area_add mem (ucast pages * 0x1000) s, True))"

definition block_own :: "nat \<Rightarrow> nat \<Rightarrow> kheap \<Rightarrow> bool" where
  "block_own ptr b s \<longleftrightarrow>
     of_nat ptr AND (HEAP_ALIGN - 1) = 0 \<and>
     (case find (\<lambda>a. \<not> (b < area_mem a \<or> b \<ge> area_mem a + unat (area_bytes a))) (kheap_areas s) of
        None \<Rightarrow> False
      | Some a \<Rightarrow>
          let tot = block_total (kmem s) b; hi = area_mem a + unat (area_bytes a)
          in tot \<ge> HEAP_MIN_BLOCK \<and> tot AND (HEAP_ALIGN - 1) = 0 \<and> block_next (kmem s) b \<le> hi)"

section \<open>Allocation\<close>

definition heap_round :: "u64 \<Rightarrow> u64" where
  "heap_round sz = (sz + HEAP_ALIGN - 1) AND NOT (HEAP_ALIGN - 1)"

text \<open>The loop that grows the heap and tries again, at most twice.\<close>

primrec heap_retry :: "nat list \<Rightarrow> u64 \<Rightarrow> kheap \<Rightarrow> nat \<Rightarrow> (kheap \<times> nat) option" where
  "heap_retry [] payload s p = Some (s, p)"
| "heap_retry (mem # mems) payload s p =
     (if p \<noteq> 0 then Some (s, p)
      else let (s, ok) = kheap_grow mem payload s
           in if \<not> ok then Some (s, p)
              else (case block_acquire payload s of
                      None \<Rightarrow> None
                    | Some (s, p) \<Rightarrow> heap_retry mems payload s p))"

definition heap_alloc :: "nat \<times> nat \<Rightarrow> u64 \<Rightarrow> kheap \<Rightarrow> (kheap \<times> nat) option" where
  "heap_alloc pg sz s =
     (let payload = heap_round sz
      in if sz = 0 \<or> payload \<ge> HEAP_MAX_BYTES then Some (s, 0)
         else case block_acquire payload s of
                None \<Rightarrow> None
              | Some (s, p) \<Rightarrow> heap_retry [fst pg, snd pg] payload s p)"

definition stats_peak :: "kheap \<Rightarrow> kheap" where
  "stats_peak s = (if kheap_used_bytes s > kheap_peak_bytes s then s\<lparr>kheap_peak_bytes := kheap_used_bytes s\<rparr> else s)"

definition stats_gain :: "nat \<Rightarrow> kheap \<Rightarrow> kheap" where
  "stats_gain b s =
     (let s = stats_peak (s\<lparr>kheap_used_bytes := kheap_used_bytes s + ucast (block_total (kmem s) b)\<rparr>)
      in s\<lparr>kheap_alloc_count := kheap_alloc_count s + 1\<rparr>)"

definition kmalloc :: "nat \<times> nat \<Rightarrow> u64 \<Rightarrow> kheap \<Rightarrow> (kheap \<times> nat) option" where
  "kmalloc pg sz s =
     (case heap_alloc pg sz s of
        None \<Rightarrow> None
      | Some (s, p) \<Rightarrow> Some (if p \<noteq> 0 then stats_gain (block_from p) s else s, p))"

definition kzalloc :: "nat \<times> nat \<Rightarrow> u64 \<Rightarrow> kheap \<Rightarrow> (kheap \<times> nat) option" where
  "kzalloc pg sz s =
     (case kmalloc pg sz s of
        None \<Rightarrow> None
      | Some (s, p) \<Rightarrow> Some (if p \<noteq> 0 then s\<lparr>kmem := memset (kmem s) p 0 (unat sz)\<rparr> else s, p))"

definition kcalloc :: "nat \<times> nat \<Rightarrow> u64 \<Rightarrow> u64 \<Rightarrow> kheap \<Rightarrow> (kheap \<times> nat) option" where
  "kcalloc pg nmemb sz s =
     (if nmemb \<noteq> 0 \<and> sz > HEAP_MAX_BYTES div nmemb then Some (s, 0) else kzalloc pg (nmemb * sz) s)"

text \<open>The part of \<open>kmalloc_aligned\<close> that cuts a block to its aligned position.\<close>

definition align_block :: "u64 \<Rightarrow> u64 \<Rightarrow> nat \<Rightarrow> kheap \<Rightarrow> kheap \<times> nat" where
  "align_block sz align p s =
     (let b = block_from p;
          a = unat ((of_nat p + align - 1) AND NOT (align - 1));
          gap = (of_nat (a - p) :: u64);
          (a, gap) = (if gap \<noteq> 0 \<and> gap < HEAP_MIN_BLOCK then (a + unat align, gap + align) else (a, gap));
          (s, b) = (if gap \<noteq> 0 then
                      let c = a - unat HEAP_HDR;
                          s = set_size c (block_total (kmem s) b - gap) s;
                          s = set_prev c b s;
                          m = block_next (kmem s) c;
                          s = set_prev m c s;
                          s = set_size b (gap OR (blk_size (kmem s) b AND HEAP_PREV_FREE)) s
                      in (block_release b s, c)
                    else (s, b))
      in (block_trim_used b (heap_round sz) s, a))"

definition kmalloc_aligned :: "nat \<times> nat \<Rightarrow> u64 \<Rightarrow> u64 \<Rightarrow> kheap \<Rightarrow> (kheap \<times> nat) option" where
  "kmalloc_aligned pg sz align s =
     (if sz = 0 then Some (s, 0)
      else let align = (if align < HEAP_ALIGN then HEAP_ALIGN else align)
           in if align AND (align - 1) \<noteq> 0 then Some (s, 0)
              else case heap_alloc pg (if align = HEAP_ALIGN then sz else sz + align + 2 * HEAP_HDR) s of
                     None \<Rightarrow> None
                   | Some (s, p) \<Rightarrow>
                       let (s, p) = (if p \<noteq> 0 \<and> align \<noteq> HEAP_ALIGN then align_block sz align p s else (s, p))
                       in Some (if p \<noteq> 0 then stats_gain (block_from p) s else s, p))"

section \<open>Release\<close>

datatype heap_error = Wild_pointer | Double_free | Invalid_block

text \<open>Each error stops the kernel at its assertion, or, without assertions, returns with the heap unchanged.\<close>

definition kfree :: "nat \<Rightarrow> kheap \<Rightarrow> heap_error + kheap" where
  "kfree ptr s =
     (if ptr = 0 then Inr s
      else let b = block_from ptr
           in if \<not> block_own ptr b s then Inl Wild_pointer
              else if blk_size (kmem s) b AND HEAP_FREE \<noteq> 0 then Inl Double_free
              else let s = s\<lparr>kheap_used_bytes := kheap_used_bytes s - ucast (block_total (kmem s) b)\<rparr>;
                       s = s\<lparr>kheap_alloc_count := kheap_alloc_count s - 1\<rparr>
                   in Inr (block_release b s))"

text \<open>Resizing a block that is in use: where it stands, into a free successor, or by a copy.\<close>

definition krealloc_block :: "nat \<times> nat \<Rightarrow> nat \<Rightarrow> u64 \<Rightarrow> kheap \<Rightarrow> (kheap \<times> nat) option" where
  "krealloc_block pg ptr sz s =
     (let b = block_from ptr;
          need = heap_round sz;
          old_total = block_total (kmem s) b
      in if need \<le> old_total - HEAP_HDR then Some (block_trim_used b need s, ptr)
         else let n = block_next (kmem s) b;
                  grown = old_total + block_total (kmem s) n
              in if blk_size (kmem s) n AND HEAP_FREE \<noteq> 0 \<and> grown - HEAP_HDR \<ge> need then
                   let s = freelist_remove n s;
                       s = set_size b (grown OR (blk_size (kmem s) b AND HEAP_PREV_FREE)) s;
                       m = block_next (kmem s) b;
                       s = set_prev m b s;
                       s = set_size m (blk_size (kmem s) m AND NOT HEAP_PREV_FREE) s
                   in Some (block_trim_used b need s, ptr)
                 else case heap_alloc pg sz s of
                        None \<Rightarrow> None
                      | Some (s, np) \<Rightarrow>
                          Some (if np \<noteq> 0 then
                                  let s = s\<lparr>kmem := memcpy (kmem s) np ptr
                                            (unat (if old_total - HEAP_HDR < sz then old_total - HEAP_HDR else sz))\<rparr>
                                  in block_release b s
                                else s, np))"

definition krealloc :: "nat \<times> nat \<Rightarrow> nat \<Rightarrow> u64 \<Rightarrow> kheap \<Rightarrow> (heap_error + kheap \<times> nat) option" where
  "krealloc pg ptr sz s =
     (if ptr = 0 then map_option Inr (kmalloc pg sz s)
      else if sz = 0 then Some (case kfree ptr s of Inl e \<Rightarrow> Inl e | Inr s \<Rightarrow> Inr (s, 0))
      else let b = block_from ptr
           in if \<not> block_own ptr b s \<or> blk_size (kmem s) b AND HEAP_FREE \<noteq> 0 then Some (Inl Invalid_block)
              else case krealloc_block pg ptr sz s of
                     None \<Rightarrow> None
                   | Some (s', np) \<Rightarrow>
                       Some (Inr (if np \<noteq> 0 then
                                    let now = ucast (block_total (kmem s') (block_from np))
                                    in stats_peak (s'\<lparr>kheap_used_bytes :=
                                         kheap_used_bytes s' + now - ucast (block_total (kmem s) b)\<rparr>)
                                  else s', np)))"

section \<open>Start, statistics and audit\<close>

record kheap_stat =
  st_area_count :: u32
  st_area_bytes :: u32
  st_used_bytes :: u32
  st_peak_bytes :: u32
  st_alloc_count :: u32

definition kheap_stats :: "kheap \<Rightarrow> kheap_stat" where
  "kheap_stats s =
     \<lparr>st_area_count = of_nat (length (kheap_areas s)),
      st_area_bytes = fold (\<lambda>a bytes. bytes + ucast (area_bytes a)) (kheap_areas s) 0,
      st_used_bytes = kheap_used_bytes s, st_peak_bytes = kheap_peak_bytes s, st_alloc_count = kheap_alloc_count s\<rparr>"

definition kheap_init :: "nat \<Rightarrow> kheap \<Rightarrow> kheap \<times> bool" where
  "kheap_init mem s =
     kheap_grow mem 0
       \<lparr>kmem = kmem s, fl_bitmap = 0, sl_bitmap = (\<lambda>_. 0), blocks = (\<lambda>_ _. 0), kheap_areas = [],
        kheap_used_bytes = 0, kheap_peak_bytes = 0, kheap_alloc_count = 0\<rparr>"

text \<open>\<open>kheap_audit\<close>: the search for a free block in its list gives \<open>None\<close> if it does not end, else whether the block was found
  and every link before it was right.\<close>

partial_function (option) audit_list :: "mem \<Rightarrow> nat \<Rightarrow> nat \<Rightarrow> bool option" where
  "audit_list m b it =
     (if it = 0 then Some False
      else if link_prev m it \<noteq> 0 \<and> link_next m (link_prev m it) \<noteq> it then Some False
      else if it = b then Some True
      else audit_list m b (link_next m it))"

declare audit_list.simps [code]

definition audit_head :: "mem \<Rightarrow> nat \<Rightarrow> nat \<Rightarrow> bool" where
  "audit_head m b prev \<longleftrightarrow>
     (if prev = 0 then \<not> (blk_prev m b \<noteq> 0 \<or> blk_size m b AND HEAP_PREV_FREE \<noteq> 0)
      else \<not> (blk_prev m b \<noteq> prev \<or> (blk_size m b AND HEAP_PREV_FREE \<noteq> 0) \<noteq> (blk_size m prev AND HEAP_FREE \<noteq> 0)))"

definition audit_size :: "u64 \<Rightarrow> bool" where
  "audit_size tot \<longleftrightarrow> \<not> (tot \<noteq> 0 \<and> (tot < HEAP_MIN_BLOCK \<or> tot AND (HEAP_ALIGN - 1) \<noteq> 0))"

definition audit_free :: "kheap \<Rightarrow> nat \<Rightarrow> bool option" where
  "audit_free s b =
     (if blk_size (kmem s) b AND HEAP_FREE \<noteq> 0 then
        let (fl, sl) = map_insert (block_total (kmem s) b) in audit_list (kmem s) b (blocks s fl sl)
      else Some True)"

text \<open>The walk over the blocks of an area: the last block and the sum, if no block is bad.\<close>

function audit_walk :: "kheap \<Rightarrow> nat \<Rightarrow> nat \<Rightarrow> nat \<Rightarrow> u64 \<Rightarrow> (nat \<times> u64) option option" where
  "audit_walk s hi b prev acc =
     (if \<not> b < hi then Some (Some (prev, acc))
      else let tot = block_total (kmem s) b
           in if \<not> audit_head (kmem s) b prev \<or> \<not> audit_size tot then Some None
              else case audit_free s b of
                     None \<Rightarrow> None
                   | Some False \<Rightarrow> Some None
                   | Some True \<Rightarrow>
                       if tot = 0 then Some (Some (b, acc + tot))
                       else audit_walk s hi (block_next (kmem s) b) b (acc + tot))"
  by pat_completeness auto

termination audit_walk
proof (relation "measure (\<lambda>(s, hi, b, prev, acc). hi - b)", goal_cases)
  case (2 s hi b prev acc tot)
  then have "unat (block_total (kmem s) b) \<noteq> 0" by (simp add: unat_eq_0)
  then show ?case using 2 by (simp add: block_next_def)
qed simp

declare audit_walk.simps [simp del]

definition audit_area :: "kheap \<Rightarrow> heap_area \<Rightarrow> bool option" where
  "audit_area s a =
     (let hi = area_mem a + unat (area_bytes a)
      in case audit_walk s hi (area_mem a) 0 0 of
           None \<Rightarrow> None
         | Some None \<Rightarrow> Some False
         | Some (Some (prev, acc)) \<Rightarrow>
             Some (\<not> (prev = 0 \<or> block_total (kmem s) prev \<noteq> 0 \<or> prev \<noteq> hi - unat HEAP_HDR) \<and>
                   \<not> acc \<noteq> area_bytes a - HEAP_HDR))"

primrec kheap_audit :: "kheap \<Rightarrow> heap_area list \<Rightarrow> int option" where
  "kheap_audit s [] = Some 0"
| "kheap_audit s (a # as) =
     (case audit_area s a of
        None \<Rightarrow> None
      | Some False \<Rightarrow> Some (- 1)
      | Some True \<Rightarrow> kheap_audit s as)"

end
