(* ===== verification/Kheap_Mem.thy ===== *)
theory Kheap_Mem
  imports Kheap Limbs
begin

text \<open>
  The memory of the heap in granules of 16 bytes. Headers and free links are pairs of words in one granule, so every access
  of \<open>src/kernel/mm/kheap.c\<close> to them is an access to one granule; header words as numbers; and the order of the size classes.
\<close>

section \<open>Granules\<close>

lemma load_store64_same: "load64 (store64 m a v) a = v"
proof -
  have "bit (load_le (map (\<lambda>i. ucast (drop_bit (8 * i) v) :: u8) [0..<8]) :: u64) n \<longleftrightarrow> bit v n" if "n < LENGTH(64)" for n
  proof -
    have "n div 8 < 8" using that by simp
    moreover have "8 * (n div 8) + n mod 8 = n" by simp
    ultimately show ?thesis using that by (simp add: bit_load_le bit_simps)
  qed
  moreover have "map (\<lambda>i. store64 m a v (a + i)) [0..<8] = map (\<lambda>i. ucast (drop_bit (8 * i) v)) [0..<8]" by (simp add: store64_def)
  ultimately show ?thesis unfolding load64_def by (intro bit_word_eqI) metis
qed

lemma load_store64_other: "a + 8 \<le> b \<or> b + 8 \<le> a \<Longrightarrow> load64 (store64 m a v) b = load64 m b"
proof -
  assume "a + 8 \<le> b \<or> b + 8 \<le> a"
  then have "map (\<lambda>i. store64 m a v (b + i)) [0..<8] = map (\<lambda>i. m (b + i)) [0..<8]"
    by (auto simp: store64_def)
  then show ?thesis unfolding load64_def by (rule arg_cong)
qed

definition gr :: "mem \<Rightarrow> nat \<Rightarrow> u64 \<times> u64" where
  "gr m i = (load64 m (16 * i), load64 m (16 * i + 8))"

lemma gr_store_lo [simp]: "gr (store64 m (16 * i) v) = (gr m)(i := (v, snd (gr m i)))"
proof
  fix j
  consider "i = j" | "i < j" | "j < i" by linarith
  then show "gr (store64 m (16 * i) v) j = ((gr m)(i := (v, snd (gr m i)))) j"
    by cases (simp_all add: gr_def load_store64_same load_store64_other)
qed

lemma gr_store_hi [simp]: "gr (store64 m (16 * i + 8) v) = (gr m)(i := (fst (gr m i), v))"
proof
  fix j
  consider "i = j" | "i < j" | "j < i" by linarith
  then show "gr (store64 m (16 * i + 8) v) j = ((gr m)(i := (fst (gr m i), v))) j"
    by cases (simp_all add: gr_def load_store64_same load_store64_other)
qed

lemma gr_bytes: "gr m' i = gr m i \<Longrightarrow> x div 16 = i \<Longrightarrow> m' x = m x"
proof -
  assume g: "gr m' i = gr m i" and x: "x div 16 = i"
  show ?thesis
  proof (cases "x mod 16 < 8")
    case True
    then have "x = 16 * i + x mod 16" using x by (metis mult_div_mod_eq)
    then show ?thesis using byte_load64 [OF True, of m "16 * i"] byte_load64 [OF True, of m' "16 * i"] g by (simp add: gr_def)
  next
    case False
    then have l: "x mod 16 - 8 < 8" using mod_less_divisor [of 16 x] by linarith
    have "x = 16 * i + 8 + (x mod 16 - 8)" using x False by (metis add.assoc le_add_diff_inverse mult_div_mod_eq not_less)
    then show ?thesis using byte_load64 [OF l, of m "16 * i + 8"] byte_load64 [OF l, of m' "16 * i + 8"] g by (simp add: gr_def)
  qed
qed

lemma gr_cong: "(\<And>x. 16 * i \<le> x \<Longrightarrow> x < 16 * i + 16 \<Longrightarrow> m' x = m x) \<Longrightarrow> gr m' i = gr m i"
  unfolding gr_def load64_def by (auto intro!: arg_cong [where f = load_le])

lemma hdr16 [simp]: "unat HEAP_HDR = 16"
  by (simp add: HEAP_HDR_def)

lemma blk_gr: "blk_prev m (16 * i) = unat (fst (gr m i))" "blk_size m (16 * i) = snd (gr m i)"
  by (simp_all add: blk_prev_def blk_size_def gr_def)

lemma free_link_gr: "free_link (16 * i) = 16 * Suc i"
  by (simp add: free_link_def)

lemma link_gr: "link_next m (16 * i) = unat (fst (gr m (Suc i)))" "link_prev m (16 * i) = unat (snd (gr m (Suc i)))"
  unfolding link_next_def link_prev_def free_link_gr by (simp_all only: gr_def fst_conv snd_conv)

lemma gr_set:
  "gr (kmem (set_prev (16 * i) p s)) = (gr (kmem s))(i := (of_nat p, snd (gr (kmem s) i)))"
  "gr (kmem (set_size (16 * i) v s)) = (gr (kmem s))(i := (fst (gr (kmem s) i), v))"
  "gr (kmem (set_link_next (16 * i) p s)) = (gr (kmem s))(Suc i := (of_nat p, snd (gr (kmem s) (Suc i))))"
  "gr (kmem (set_link_prev (16 * i) p s)) = (gr (kmem s))(Suc i := (fst (gr (kmem s) (Suc i)), of_nat p))"
  by (simp_all add: set_prev_def set_size_def set_link_next_def set_link_prev_def free_link_gr del: mult_Suc_right)

section \<open>Header words\<close>

definition hw :: "nat \<Rightarrow> bool \<Rightarrow> bool \<Rightarrow> u64" where
  "hw k f pf = of_nat (16 * k) OR (if f then 1 else 0) OR (if pf then 2 else 0)"

lemma bit_of_nat_16: "bit (of_nat (16 * k) :: u64) n \<Longrightarrow> 4 \<le> n"
proof -
  have "(of_nat (16 * k) :: u64) = push_bit 4 (of_nat k)" by (simp add: push_bit_eq_mult mult.commute)
  then show "bit (of_nat (16 * k) :: u64) n \<Longrightarrow> 4 \<le> n" by (simp only: bit_push_bit_iff)
qed

lemma bit_1_u64: "bit (1 :: u64) n \<longleftrightarrow> n = 0"
  by (simp add: bit_1_iff)

lemma bit_2_u64: "bit (2 :: u64) n \<longleftrightarrow> n = 1"
  using bit_exp_iff [of 1 n, where ?'a = "64 word"] by (auto simp: possible_bit_word)

lemma bit_3_u64: "bit (3 :: u64) n \<longleftrightarrow> n < 2"
proof -
  have e: "(3 :: u64) = mask 2" by (simp add: mask_eq_exp_minus_1)
  show ?thesis unfolding e bit_mask_iff possible_bit_word by auto
qed

lemma bit_hw: "bit (hw k f pf) n \<longleftrightarrow> bit (of_nat (16 * k) :: u64) n \<and> 4 \<le> n \<or> n = 0 \<and> f \<or> n = 1 \<and> pf"
  unfolding hw_def bit_or_iff using bit_of_nat_16 [of k n] bit_1_u64 [of n] bit_2_u64 [of n] by (cases f; cases pf) (simp_all del: of_nat_mult of_nat_numeral, blast+)

lemma hw_eqI: "(\<And>n. n < 64 \<Longrightarrow> bit v n = bit w n) \<Longrightarrow> v = w" for v w :: u64
  by (rule bit_word_eqI) simp

lemmas header_bits = bit_and_iff bit_or_iff bit_not_iff bit_1_u64 bit_2_u64 bit_3_u64 possible_bit_word bit_hw

lemma hw_total [simp]: "hw k f pf AND HEAP_SIZE_MASK = of_nat (16 * k)"
proof (rule hw_eqI)
  fix n :: nat assume "n < 64"
  then show "bit (hw k f pf AND HEAP_SIZE_MASK) n = bit (of_nat (16 * k) :: u64) n"
    unfolding HEAP_SIZE_MASK_def header_bits len_of_numeral_defs using bit_of_nat_16 [of k n] by (auto simp del: of_nat_mult of_nat_numeral)
qed

lemma hw_bits [simp]: "hw k f pf AND HEAP_FREE = (if f then 1 else 0)" "hw k f pf AND HEAP_PREV_FREE = (if pf then 2 else 0)"
proof -
  have "bit (hw k f pf AND HEAP_FREE) n = bit (if f then 1 else 0 :: u64) n" "bit (hw k f pf AND HEAP_PREV_FREE) n = bit (if pf then 2 else 0 :: u64) n" for n
    unfolding HEAP_FREE_def HEAP_PREV_FREE_def header_bits if_distrib [of "\<lambda>w. bit w n"] by auto
  then show "hw k f pf AND HEAP_FREE = (if f then 1 else 0)" "hw k f pf AND HEAP_PREV_FREE = (if pf then 2 else 0)" by (blast intro: hw_eqI)+
qed

lemma hw_set [simp]: "hw k f pf OR HEAP_FREE = hw k True pf" "hw k f pf OR HEAP_PREV_FREE = hw k f True"
proof -
  have "bit (hw k f pf OR HEAP_FREE) n = bit (hw k True pf) n" "bit (hw k f pf OR HEAP_PREV_FREE) n = bit (hw k f True) n" for n
    unfolding HEAP_FREE_def HEAP_PREV_FREE_def header_bits by blast+
  then show "hw k f pf OR HEAP_FREE = hw k True pf" "hw k f pf OR HEAP_PREV_FREE = hw k f True" by (blast intro: hw_eqI)+
qed

lemma hw_clear [simp]: "hw k f pf AND NOT HEAP_FREE = hw k False pf" "hw k f pf AND NOT HEAP_PREV_FREE = hw k f False"
proof -
  have "bit (hw k f pf AND NOT HEAP_FREE) n = bit (hw k False pf) n" "bit (hw k f pf AND NOT HEAP_PREV_FREE) n = bit (hw k f False) n" if "n < 64" for n
    using that unfolding HEAP_FREE_def HEAP_PREV_FREE_def header_bits by auto
  then show "hw k f pf AND NOT HEAP_FREE = hw k False pf" "hw k f pf AND NOT HEAP_PREV_FREE = hw k f False" by (blast intro: hw_eqI)+
qed

lemma hw_used: "of_nat (16 * k) OR (if pf then 2 else 0) = hw k False pf"
  by (simp add: hw_def)

lemma hw_merged: "of_nat (16 * k) OR HEAP_FREE OR (if pf then 2 else 0) = hw k True pf"
  by (simp add: hw_def HEAP_FREE_def or.assoc)

lemma hw_plain: "of_nat (16 * k) = hw k False False"
  by (simp add: hw_def)

section \<open>Size classes\<close>

lemma clzll_bits:
  assumes "x \<noteq> 0"
  shows "clzll x < 64" "bit x (63 - clzll x)" "\<And>n. 63 - clzll x < n \<Longrightarrow> \<not> bit x n"
proof -
  let ?P = "\<lambda>i. \<not> bit x (63 - i)"
  have "bit x (ctz x)" "ctz x < 64" using bit_ctz [OF assms] ctz_less [OF assms] by simp_all
  then obtain n where n: "n < 64" "bit x n" by blast
  then have e: "\<exists>i\<in>set [0..<64]. \<not> ?P i" by (intro bexI [of _ "63 - n"]) auto
  then have "length (takeWhile ?P [0..<64]) \<noteq> length [0..<64]" by (metis takeWhile_eq_take take_all_iff order_refl set_takeWhileD)
  then show l: "clzll x < 64" using length_takeWhile_le [of ?P "[0..<64]"] by (simp add: clzll_def)
  show "bit x (63 - clzll x)" using nth_length_takeWhile [of ?P "[0..<64]"] l unfolding clzll_def by simp
  fix n assume "63 - clzll x < n"
  show "\<not> bit x n"
  proof (cases "n < 64")
    case True
    then have "63 - n < clzll x" using \<open>63 - clzll x < n\<close> by linarith
    then have "\<not> bit x (63 - (63 - n))" unfolding clzll_def by (rule takeWhile_upt_nth)
    then show ?thesis using True by simp
  next
    case False
    then show ?thesis by (auto dest: bit_imp_le_length)
  qed
qed

lemma heap_fls_bounds:
  assumes "x \<noteq> 0"
  shows "2 ^ heap_fls x \<le> unat x" "unat x < 2 ^ Suc (heap_fls x)"
proof -
  define f where "f = 63 - clzll x"
  have b: "bit (unat x) f" "\<And>n. f < n \<Longrightarrow> \<not> bit (unat x) n" using clzll_bits [OF assms] unfolding f_def by (simp_all add: bit_unsigned_iff)
  then have "unat x div 2 ^ f \<noteq> 0" unfolding bit_iff_odd by (metis even_zero)
  then show "2 ^ heap_fls x \<le> unat x" unfolding heap_fls_def f_def [symmetric] by (simp add: div_eq_0_iff)
  have "take_bit (Suc f) (unat x) = unat x" using b(2) by (intro bit_eqI) (metis bit_take_bit_iff not_less_eq)
  then show "unat x < 2 ^ Suc (heap_fls x)" unfolding heap_fls_def f_def [symmetric] by (simp only: take_bit_nat_eq_self_iff)
qed

text \<open>The class of a block of \<open>k\<close> granules.\<close>

definition cls :: "nat \<Rightarrow> nat \<times> nat" where
  "cls k = map_insert (of_nat (16 * k))"

lemma unat_granules: "k < 2 ^ 60 \<Longrightarrow> unat (of_nat (16 * k) :: u64) = 16 * k"
  by (simp add: unat_of_nat del: of_nat_mult)

lemma cls_bounds:
  assumes "0 < k" "k < 2 ^ 28" "cls k = (f, l)"
  shows "f < HEAP_FL_COUNT" "4 \<le> f" "l < HEAP_SL_COUNT" "(16 + l) * 2 ^ (f - 4) \<le> 16 * k" "16 * k < (17 + l) * 2 ^ (f - 4)"
proof -
  define x where "x = (of_nat (16 * k) :: u64)"
  have u: "unat x = 16 * k" unfolding x_def using assms(2) by (intro unat_granules) simp
  then have "x \<noteq> 0" using assms(1) by (metis mult_is_0 unat_0 zero_neq_numeral less_numeral_extra(3))
  note b = heap_fls_bounds [OF this, unfolded u]
  have f: "f = heap_fls x" and l: "l = unat (drop_bit (f - 4) x AND 15)"
    using assms(3) unfolding cls_def map_insert_def x_def [symmetric] by (auto simp: Let_def HEAP_SL_LOG2_def HEAP_SL_COUNT_def)
  note b = b [folded f]
  have "(2 :: nat) ^ f < 2 ^ 32" by (rule order.strict_trans1 [OF b(1)]) (use assms(2) in simp)
  then show "f < HEAP_FL_COUNT" unfolding HEAP_FL_COUNT_def by (rule power_less_imp_less_exp [rotated]) simp
  have "(2 :: nat) ^ 4 < 2 ^ Suc f" by (rule order.strict_trans1 [OF _ b(2)]) (use assms(1) in simp)
  then have "4 < Suc f" by (rule power_less_imp_less_exp [rotated]) simp
  then show f4: "4 \<le> f" by simp
  define d where "d = 16 * k div 2 ^ (f - 4)"
  have p: "(2 :: nat) ^ f = 16 * 2 ^ (f - 4)" using f4 power_add [of "2 :: nat" 4 "f - 4"] by simp
  have d: "16 \<le> d" "d < 32" using b unfolding d_def power_Suc p by (simp_all add: div_nat_eqI less_eq_div_iff_mult_less_eq div_less_iff_less_mult mult.commute)
  have "(15 :: u64) = mask 4" by (simp add: mask_eq_exp_minus_1)
  then have "l = d mod 16" unfolding l by (simp only: unat_and_mask unat_drop u d_def) simp
  then have dl: "d = 16 + l" using d le_mod_geq [of 16 d] mod_less [of "d - 16" 16] by linarith
  then show "l < HEAP_SL_COUNT" using d unfolding HEAP_SL_COUNT_def by simp
  show "(16 + l) * 2 ^ (f - 4) \<le> 16 * k" unfolding dl [symmetric] d_def by (rule div_times_less_eq_dividend)
  have "16 * k < Suc d * 2 ^ (f - 4)" unfolding d_def using dividend_less_div_times [of "2 ^ (f - 4)" "16 * k"] by simp
  then show "16 * k < (17 + l) * 2 ^ (f - 4)" unfolding dl by simp
qed

text \<open>Blocks of a later class are larger.\<close>

lemma cls_mono:
  assumes "0 < k" "k < 2 ^ 28" "0 < k'" "k' < 2 ^ 28" "cls k = (f, l)" "cls k' = (f', l')" "f < f' \<or> f = f' \<and> l < l'"
  shows "k < k'"
proof -
  note a = cls_bounds [OF assms(1,2,5)] and b = cls_bounds [OF assms(3,4,6)]
  have "(17 + l) * 2 ^ (f - 4) \<le> (16 + l') * 2 ^ (f' - 4)"
  proof (cases "f < f'")
    case True
    then have "Suc (f - 4) \<le> f' - 4" using a(2) by linarith
    then have "(2 :: nat) ^ Suc (f - 4) \<le> 2 ^ (f' - 4)" by (rule power_increasing) simp
    then have "16 * 2 ^ Suc (f - 4) \<le> (16 + l') * 2 ^ (f' - 4)" by (intro mult_le_mono) simp_all
    moreover have "(17 + l) * 2 ^ (f - 4) \<le> 32 * 2 ^ (f - 4)" using a(3) unfolding HEAP_SL_COUNT_def by (intro mult_le_mono) simp_all
    ultimately show ?thesis by (simp only: power_Suc)
  next
    case False
    then show ?thesis using assms(7) by (intro mult_le_mono) auto
  qed
  then have "16 * k < 16 * k'" using a(5) b(4) by linarith
  then show ?thesis by simp
qed

end
