(* ===== verification/Kheap_Free.thy ===== *)
theory Kheap_Free
  imports Kheap_Mem
begin

text \<open>
  The free lists of \<open>src/kernel/mm/kheap.c\<close> against a finite map from free blocks to their sizes: every list is doubly linked
  through the granule behind the header, holds the free blocks of its class once, and the bitmaps mark the lists that are not
  empty. Insertion and removal keep this, and \<open>list_take\<close> finds a block whenever one is large enough.
\<close>

section \<open>Linked segments\<close>

definition nx :: "nat list \<Rightarrow> nat \<Rightarrow> nat" where
  "nx xs e = (case xs of [] \<Rightarrow> e | x # _ \<Rightarrow> 16 * x)"

definition lst :: "nat \<Rightarrow> nat list \<Rightarrow> nat" where
  "lst p xs = (if xs = [] then p else last xs)"

primrec seg :: "(nat \<Rightarrow> u64 \<times> u64) \<Rightarrow> nat \<Rightarrow> nat list \<Rightarrow> nat \<Rightarrow> bool" where
  "seg g p [] e \<longleftrightarrow> True"
| "seg g p (x # xs) e \<longleftrightarrow> 0 < x \<and> x < 2 ^ 60 \<and> g (Suc x) = (of_nat (nx xs e), of_nat (16 * p)) \<and> seg g x xs e"

lemma nx_simps [simp]: "nx [] e = e" "nx (x # xs) e = 16 * x"
  by (simp_all add: nx_def)

lemma lst_simps [simp]: "lst p [] = p" "lst p (x # xs) = lst x xs" "lst p (xs @ [x]) = x"
  by (simp_all add: lst_def)

lemma nx_append: "nx (xs @ ys) e = nx xs (nx ys e)"
  by (cases xs) simp_all

lemma seg_append: "seg g p (xs @ ys) e \<longleftrightarrow> seg g p xs (nx ys e) \<and> seg g (lst p xs) ys e"
  by (induction xs arbitrary: p) (auto simp: nx_append)

lemma seg_cong: "(\<And>x. x \<in> set xs \<Longrightarrow> g' (Suc x) = g (Suc x)) \<Longrightarrow> seg g' p xs e = seg g p xs e"
  by (induction xs arbitrary: p) auto

lemma seg_range: "seg g p xs e \<Longrightarrow> x \<in> set xs \<Longrightarrow> 0 < x \<and> x < 2 ^ 60"
  by (induction xs arbitrary: p) auto

lemma nx_small: "seg g p xs 0 \<Longrightarrow> nx xs 0 < 2 ^ 64 \<and> (nx xs 0 = 0 \<longleftrightarrow> xs = [])"
  by (cases xs) auto

section \<open>The invariant of the lists\<close>

definition fl_ok :: "kheap \<Rightarrow> (nat \<rightharpoonup> nat) \<Rightarrow> (nat \<Rightarrow> nat \<Rightarrow> nat list) \<Rightarrow> bool" where
  "fl_ok s FR FL \<longleftrightarrow>
     (\<forall>f l. seg (gr (kmem s)) 0 (FL f l) 0 \<and> distinct (FL f l) \<and> blocks s f l = nx (FL f l) 0 \<and>
        set (FL f l) = {i. \<exists>k. FR i = Some k \<and> cls k = (f, l)}) \<and>
     (\<forall>f l. bit (sl_bitmap s f) l \<longleftrightarrow> FL f l \<noteq> []) \<and>
     (\<forall>f. bit (fl_bitmap s) f \<longleftrightarrow> sl_bitmap s f \<noteq> 0) \<and>
     (\<forall>i k. FR i = Some k \<longrightarrow> 2 \<le> k \<and> k < 2 ^ 28)"

text \<open>The parts of a state that list operations keep.\<close>

definition same_rest :: "kheap \<Rightarrow> kheap \<Rightarrow> bool" where
  "same_rest s s' \<longleftrightarrow>
     kheap_areas s' = kheap_areas s \<and> kheap_used_bytes s' = kheap_used_bytes s \<and> kheap_peak_bytes s' = kheap_peak_bytes s \<and>
     kheap_alloc_count s' = kheap_alloc_count s"

lemma same_rest_refl [simp]: "same_rest s s"
  by (simp add: same_rest_def)

lemma same_rest_trans: "same_rest s s' \<Longrightarrow> same_rest s' s'' \<Longrightarrow> same_rest s s''"
  by (simp add: same_rest_def)

lemma same_rest_set [simp]: "same_rest s (set_prev b p s)" "same_rest s (set_size b v s)" "same_rest s (set_link_next b p s)" "same_rest s (set_link_prev b p s)"
  by (simp_all add: same_rest_def set_prev_def set_size_def set_link_next_def set_link_prev_def)

lemma set_lists [simp]:
  "blocks (set_prev b p s) = blocks s" "blocks (set_size b v s) = blocks s" "blocks (set_link_next b p s) = blocks s" "blocks (set_link_prev b p s) = blocks s"
  "sl_bitmap (set_prev b p s) = sl_bitmap s" "sl_bitmap (set_size b v s) = sl_bitmap s" "sl_bitmap (set_link_next b p s) = sl_bitmap s" "sl_bitmap (set_link_prev b p s) = sl_bitmap s"
  "fl_bitmap (set_prev b p s) = fl_bitmap s" "fl_bitmap (set_size b v s) = fl_bitmap s" "fl_bitmap (set_link_next b p s) = fl_bitmap s" "fl_bitmap (set_link_prev b p s) = fl_bitmap s"
  by (simp_all add: set_prev_def set_size_def set_link_next_def set_link_prev_def)

lemma fl_ok_cong:
  assumes "fl_ok s FR FL" "\<And>i. i \<in> dom FR \<Longrightarrow> gr (kmem s') (Suc i) = gr (kmem s) (Suc i)"
    and "blocks s' = blocks s" "sl_bitmap s' = sl_bitmap s" "fl_bitmap s' = fl_bitmap s"
  shows "fl_ok s' FR FL"
proof -
  have "seg (gr (kmem s')) 0 (FL f l) 0 = seg (gr (kmem s)) 0 (FL f l) 0" for f l
    using assms(1,2) unfolding fl_ok_def by (intro seg_cong) blast
  then show ?thesis using assms unfolding fl_ok_def by simp
qed

lemma fl_okD:
  assumes "fl_ok s FR FL"
  shows "seg (gr (kmem s)) 0 (FL f l) 0" "distinct (FL f l)" "blocks s f l = nx (FL f l) 0"
    "i \<in> set (FL f l) \<longleftrightarrow> (\<exists>k. FR i = Some k \<and> cls k = (f, l))" "bit (sl_bitmap s f) l \<longleftrightarrow> FL f l \<noteq> []" "bit (fl_bitmap s) f \<longleftrightarrow> sl_bitmap s f \<noteq> 0"
    "FR i = Some k \<Longrightarrow> 2 \<le> k \<and> k < 2 ^ 28"
  using assms unfolding fl_ok_def by blast+

lemma class_unique: "fl_ok s FR FL \<Longrightarrow> x \<in> set (FL f l) \<Longrightarrow> x \<in> set (FL f' l') \<Longrightarrow> (f', l') = (f, l)"
  using fl_okD(4) [of s FR FL x] by auto

lemma bit_push1: "bit (push_bit n 1 :: u32) k \<longleftrightarrow> k = n \<and> n < 32"
  unfolding bit_push_bit_iff bit_1_iff possible_bit_word by auto

section \<open>Insertion\<close>

lemma total_gr: "block_total m (16 * i) = snd (gr m i) AND HEAP_SIZE_MASK"
  by (simp only: block_total_def blk_gr)

lemma freelist_push_eq:
  fixes s i k
  assumes t: "block_total (kmem s) (16 * i) = of_nat (16 * k)" and c: "cls k = (f, l)" and x: "blocks s f l = nx xs 0" "seg (gr (kmem s)) 0 xs 0"
    and i: "i \<notin> set xs"
  defines "s' \<equiv> freelist_push (16 * i) s"
  shows "gr (kmem s') = (case xs of [] \<Rightarrow> (gr (kmem s))(Suc i := (0, 0))
      | y # _ \<Rightarrow> (gr (kmem s))(Suc i := (of_nat (16 * y), 0), Suc y := (fst (gr (kmem s) (Suc y)), of_nat (16 * i))))"
    and "blocks s' = (blocks s)(f := (blocks s f)(l := 16 * i))"
    and "sl_bitmap s' = (sl_bitmap s)(f := sl_bitmap s f OR push_bit l 1)" and "fl_bitmap s' = fl_bitmap s OR push_bit f 1"
    and "same_rest s s'"
proof -
  note n = nx_small [OF x(2)]
  have mi: "map_insert (block_total (kmem s) (16 * i)) = (f, l)" using c unfolding t cls_def .
  define s2 where "s2 = set_link_prev (16 * i) 0 (set_link_next (16 * i) (nx xs 0) s)"
  have g2: "gr (kmem s2) = (gr (kmem s))(Suc i := (of_nat (nx xs 0), 0))" unfolding s2_def gr_set by simp
  have l2: "link_next (kmem s2) (16 * i) = nx xs 0" unfolding link_gr g2 using n by (simp add: unat_of_nat)
  define s3 where "s3 = (if nx xs 0 \<noteq> 0 then set_link_prev (nx xs 0) (16 * i) s2 else s2)"
  have e: "s' = s3\<lparr>blocks := (blocks s)(f := (blocks s f)(l := 16 * i)), sl_bitmap := (sl_bitmap s)(f := sl_bitmap s f OR push_bit l 1),
      fl_bitmap := fl_bitmap s OR push_bit f 1\<rparr>"
    unfolding s'_def freelist_push_def mi Let_def prod.case x(1) s2_def [symmetric] l2 s3_def [symmetric]
    by (simp add: s3_def s2_def)
  show "gr (kmem s') = (case xs of [] \<Rightarrow> (gr (kmem s))(Suc i := (0, 0))
      | y # _ \<Rightarrow> (gr (kmem s))(Suc i := (of_nat (16 * y), 0), Suc y := (fst (gr (kmem s) (Suc y)), of_nat (16 * i))))"
    using x(2) i unfolding e s3_def by (cases xs) (simp_all add: g2 gr_set del: of_nat_mult)
  show "blocks s' = (blocks s)(f := (blocks s f)(l := 16 * i))" "sl_bitmap s' = (sl_bitmap s)(f := sl_bitmap s f OR push_bit l 1)"
    "fl_bitmap s' = fl_bitmap s OR push_bit f 1" unfolding e by simp_all
  show "same_rest s s'" unfolding e s3_def s2_def by (simp add: same_rest_def set_prev_def set_size_def set_link_next_def set_link_prev_def)
qed

lemma push_ok:
  assumes ok: "fl_ok s FR FL" and i: "FR i = None" "0 < i" "i < 2 ^ 60" and k: "2 \<le> k" "k < 2 ^ 28"
    and t: "block_total (kmem s) (16 * i) = of_nat (16 * k)" and c: "cls k = (f, l)"
  shows "fl_ok (freelist_push (16 * i) s) (FR(i \<mapsto> k)) (FL(f := (FL f)(l := i # FL f l)))"
    and "same_rest s (freelist_push (16 * i) s)"
    and "\<And>j. j \<notin> Suc ` insert i (dom FR) \<Longrightarrow> gr (kmem (freelist_push (16 * i) s)) j = gr (kmem s) j"
proof -
  define s' where "s' = freelist_push (16 * i) s"
  define FL' where "FL' = FL(f := (FL f)(l := i # FL f l))"
  note d = fl_okD [OF ok]
  have ni: "i \<notin> set (FL f' l')" for f' l' using d(4) [of i] i(1) by simp
  note p = freelist_push_eq [OF t c d(3) [of f l] d(1) [of f l] ni, folded s'_def]
  show "same_rest s (freelist_push (16 * i) s)" using p(5) unfolding s'_def .
  have hd: "FL f l = y # ys \<Longrightarrow> y \<in> dom FR" for y ys using d(4) [of y f l] by auto
  show fr: "gr (kmem (freelist_push (16 * i) s)) j = gr (kmem s) j" if "j \<notin> Suc ` insert i (dom FR)" for j
    unfolding s'_def [symmetric] p(1) using that hd by (cases "FL f l") auto
  have seg: "seg (gr (kmem s')) 0 (FL' f' l') 0" for f' l'
  proof (cases "(f', l') = (f, l)")
    case True
    note d' = d(1) [of f l] d(2) [of f l] ni [of f l]
    have "seg (gr (kmem s')) 0 (i # FL f l) 0"
    proof (cases "FL f l")
      case Nil
      then show ?thesis using i unfolding p(1) by simp
    next
      case (Cons y ys)
      have "seg (gr (kmem s')) y ys 0 = seg (gr (kmem s)) y ys 0"
        using d'(2,3) unfolding p(1) Cons by (intro seg_cong) auto
      then show ?thesis using i d' unfolding p(1) Cons by (auto simp del: of_nat_mult)
    qed
    then show ?thesis using True unfolding FL'_def by simp
  next
    case False
    then have "FL f l = y # ys \<Longrightarrow> y \<notin> set (FL f' l')" for y ys using class_unique [OF ok, of y f l f' l'] by auto
    then have "seg (gr (kmem s')) 0 (FL f' l') 0 = seg (gr (kmem s)) 0 (FL f' l') 0"
      using ni [of f' l'] unfolding p(1) by (intro seg_cong) (auto split: list.splits)
    then show ?thesis using d(1) [of f' l'] False unfolding FL'_def by auto
  qed
  have st: "set (FL' f' l') = {j. \<exists>k'. (FR(i \<mapsto> k)) j = Some k' \<and> cls k' = (f', l')}" for f' l'
    using d(4) [of _ f' l'] c i(1) unfolding FL'_def by (auto split: if_splits)
  have cb: "f < 32" "l < 16" using cls_bounds(1,3) [OF _ k(2) c] k(1) by (simp_all add: HEAP_FL_COUNT_def HEAP_SL_COUNT_def)
  have bsl: "bit (sl_bitmap s' f') l' \<longleftrightarrow> FL' f' l' \<noteq> []" for f' l'
    using d(5) [of f' l'] cb(2) unfolding p(3) FL'_def by (auto simp: bit_or_iff bit_push1 simp del: push_bit_of_1)
  have bfl: "bit (fl_bitmap s') f' \<longleftrightarrow> sl_bitmap s' f' \<noteq> 0" for f'
  proof (cases "f' = f")
    case True
    have "bit (sl_bitmap s' f) l" using bsl [of f l] unfolding FL'_def by simp
    then have "sl_bitmap s' f \<noteq> 0" by auto
    then show ?thesis using True cb(1) unfolding p(4) by (simp add: bit_or_iff bit_push1 del: push_bit_of_1)
  next
    case False
    then show ?thesis using d(6) [of f'] unfolding p(3,4) by (auto simp: bit_or_iff bit_push1 simp del: push_bit_of_1)
  qed
  have dist: "distinct (FL' f' l')" "blocks s' f' l' = nx (FL' f' l') 0" for f' l'
    using d(2,3) [of f' l'] ni unfolding FL'_def p(2) by auto
  show "fl_ok (freelist_push (16 * i) s) (FR(i \<mapsto> k)) (FL(f := (FL f)(l := i # FL f l)))"
    unfolding fl_ok_def s'_def [symmetric] FL'_def [symmetric] using seg st bsl bfl dist d(7) k by (auto split: if_splits)
qed

section \<open>Removal\<close>

text \<open>Removing \<open>i\<close> from a list \<open>xs @ i # ys\<close>: what becomes of memory, heads and bitmaps.\<close>

definition unlinked :: "(nat \<Rightarrow> u64 \<times> u64) \<Rightarrow> nat list \<Rightarrow> nat list \<Rightarrow> nat \<Rightarrow> u64 \<times> u64" where
  "unlinked g xs ys =
     (let g = (if xs = [] then g else g(Suc (last xs) := (of_nat (nx ys 0), snd (g (Suc (last xs))))))
      in if ys = [] then g else g(Suc (hd ys) := (fst (g (Suc (hd ys))), of_nat (16 * lst 0 xs))))"

lemma unat_16: "x < 2 ^ 60 \<Longrightarrow> unat (of_nat (16 * x) :: u64) = 16 * x"
  by (rule unat_granules)

lemma freelist_remove_eq:
  fixes s i k
  assumes t: "block_total (kmem s) (16 * i) = of_nat (16 * k)" and c: "cls k = (f, l)"
    and x: "seg (gr (kmem s)) 0 (xs @ i # ys) 0" "distinct (xs @ i # ys)"
  defines "s' \<equiv> freelist_remove (16 * i) s"
  shows "gr (kmem s') = unlinked (gr (kmem s)) xs ys"
    and "blocks s' = (if xs = [] then (blocks s)(f := (blocks s f)(l := nx ys 0)) else blocks s)"
    and "sl_bitmap s' = (if xs = [] \<and> ys = [] then (sl_bitmap s)(f := sl_bitmap s f AND NOT (push_bit l 1)) else sl_bitmap s)"
    and "fl_bitmap s' = (if xs = [] \<and> ys = [] \<and> sl_bitmap s f AND NOT (push_bit l 1) = 0 then fl_bitmap s AND NOT (push_bit f 1) else fl_bitmap s)"
    and "same_rest s s'"
proof -
  have mi: "map_insert (block_total (kmem s) (16 * i)) = (f, l)" using c unfolding t cls_def .
  have sg: "seg (gr (kmem s)) 0 xs (16 * i)" "gr (kmem s) (Suc i) = (of_nat (nx ys 0), of_nat (16 * lst 0 xs))" "seg (gr (kmem s)) i ys 0" "i < 2 ^ 60"
    using x(1) unfolding seg_append by simp_all
  note ny = nx_small [OF sg(3)]
  have ln: "lst 0 xs < 2 ^ 60" "lst 0 xs = 0 \<longleftrightarrow> xs = []" using seg_range [OF sg(1), of "last xs"] by (auto simp: lst_def)
  have un: "unat (of_nat (nx ys 0) :: u64) = nx ys 0" using ny by (simp add: unat_of_nat)
  have lp: "link_prev (kmem s) (16 * i) = 16 * lst 0 xs" and lx: "link_next (kmem s) (16 * i) = nx ys 0"
    unfolding link_gr sg(2) fst_conv snd_conv un unat_16 [OF ln(1)] by (rule refl)+
  define s1 where "s1 = (if xs \<noteq> [] then set_link_next (16 * last xs) (nx ys 0) s
      else let s = s\<lparr>blocks := (blocks s)(f := (blocks s f)(l := nx ys 0))\<rparr>
           in if ys = [] then let s = s\<lparr>sl_bitmap := (sl_bitmap s)(f := sl_bitmap s f AND NOT (push_bit l 1))\<rparr>
              in if sl_bitmap s f = 0 then s\<lparr>fl_bitmap := fl_bitmap s AND NOT (push_bit f 1)\<rparr> else s
              else s)"
  have g1: "gr (kmem s1) = (if xs = [] then gr (kmem s) else (gr (kmem s))(Suc (last xs) := (of_nat (nx ys 0), snd (gr (kmem s) (Suc (last xs))))))"
    unfolding s1_def by (simp add: gr_set Let_def)
  have ne: "xs \<noteq> [] \<Longrightarrow> last xs \<noteq> i" "ys \<noteq> [] \<Longrightarrow> hd ys \<noteq> i" using x(2) by auto
  have gi: "gr (kmem s1) (Suc i) = gr (kmem s) (Suc i)" unfolding g1 using ne(1) by auto
  have lp1: "link_prev (kmem s1) (16 * i) = 16 * lst 0 xs" and lx1: "link_next (kmem s1) (16 * i) = nx ys 0"
    unfolding link_gr gi sg(2) fst_conv snd_conv un unat_16 [OF ln(1)] by (rule refl)+
  have nl: "16 * lst 0 xs \<noteq> 0 \<longleftrightarrow> xs \<noteq> []" using ln(2) by simp
  have li: "xs \<noteq> [] \<Longrightarrow> 16 * lst 0 xs = 16 * last xs" by (simp add: lst_def)
  have e1: "(if link_prev (kmem s) (16 * i) \<noteq> 0 then set_link_next (link_prev (kmem s) (16 * i)) (link_next (kmem s) (16 * i)) s
      else let s = s\<lparr>blocks := (blocks s)(f := (blocks s f)(l := link_next (kmem s) (16 * i)))\<rparr>
           in if link_next (kmem s) (16 * i) = 0 then let s = s\<lparr>sl_bitmap := (sl_bitmap s)(f := sl_bitmap s f AND NOT (push_bit l 1))\<rparr>
              in if sl_bitmap s f = 0 then s\<lparr>fl_bitmap := fl_bitmap s AND NOT (push_bit f 1)\<rparr> else s
              else s) = s1"
    unfolding s1_def using ny li lx lp nl by (simp add: Let_def)
  have "s' = (if nx ys 0 \<noteq> 0 then set_link_prev (nx ys 0) (16 * lst 0 xs) s1 else s1)"
    unfolding s'_def freelist_remove_def mi Let_def prod.case e1 [unfolded Let_def] lp1 lx1 by (rule refl)
  then have e: "s' = (if ys \<noteq> [] then set_link_prev (16 * hd ys) (16 * lst 0 xs) s1 else s1)" using ny by (cases ys) simp_all
  show "gr (kmem s') = unlinked (gr (kmem s)) xs ys" unfolding e unlinked_def Let_def g1 [symmetric] by (simp add: gr_set)
  show "blocks s' = (if xs = [] then (blocks s)(f := (blocks s f)(l := nx ys 0)) else blocks s)"
    "sl_bitmap s' = (if xs = [] \<and> ys = [] then (sl_bitmap s)(f := sl_bitmap s f AND NOT (push_bit l 1)) else sl_bitmap s)"
    "fl_bitmap s' = (if xs = [] \<and> ys = [] \<and> sl_bitmap s f AND NOT (push_bit l 1) = 0 then fl_bitmap s AND NOT (push_bit f 1) else fl_bitmap s)"
    "same_rest s s'"
    unfolding e s1_def by (simp_all add: Let_def same_rest_def set_link_next_def set_link_prev_def)
qed

lemma unlinked_frame: "j \<notin> Suc ` set (xs @ ys) \<Longrightarrow> unlinked g xs ys j = g j"
  by (cases ys) (auto simp: unlinked_def Let_def)

lemma unlinked_back: "ys \<noteq> [] \<Longrightarrow> unlinked g xs ys (Suc (hd ys)) = (if xs \<noteq> [] \<and> last xs = hd ys then of_nat (nx ys 0) else fst (g (Suc (hd ys))), of_nat (16 * lst 0 xs))"
  by (simp add: unlinked_def)

lemma unlinked_front: "xs \<noteq> [] \<Longrightarrow> (ys \<noteq> [] \<Longrightarrow> hd ys \<noteq> last xs) \<Longrightarrow> unlinked g xs ys (Suc (last xs)) = (of_nat (nx ys 0), snd (g (Suc (last xs))))"
  by (auto simp: unlinked_def Let_def)

lemma unlinked_other: "(xs \<noteq> [] \<Longrightarrow> x \<noteq> last xs) \<Longrightarrow> (ys \<noteq> [] \<Longrightarrow> x \<noteq> hd ys) \<Longrightarrow> unlinked g xs ys (Suc x) = g (Suc x)"
  by (auto simp: unlinked_def)

lemma unlinked_seg:
  assumes "seg g 0 (xs @ i # ys) 0" "distinct (xs @ i # ys)"
  shows "seg (unlinked g xs ys) 0 (xs @ ys) 0"
proof -
  define g' where "g' = unlinked g xs ys"
  have g: "seg g 0 xs (16 * i)" "seg g i ys 0" using assms(1) unfolding seg_append by simp_all
  have dj: "ys \<noteq> [] \<Longrightarrow> hd ys \<notin> set xs" "xs \<noteq> [] \<Longrightarrow> last xs \<notin> set ys" using assms(2) hd_in_set [of ys] last_in_set [of xs] by (auto simp: disjoint_iff)
  have "seg g' 0 xs (nx ys 0)"
  proof (cases xs rule: rev_cases)
    case (snoc zs z)
    have "g' (Suc x) = g (Suc x)" if "x \<in> set zs" for x
      unfolding g'_def using that dj(1) assms(2) snoc by (intro unlinked_other) auto
    then have "seg g' 0 zs (16 * z)" using g(1) seg_cong [of zs g' g] unfolding snoc seg_append by simp
    moreover have "g' (Suc z) = (of_nat (nx ys 0), snd (g (Suc z)))"
      unfolding g'_def using unlinked_front [of xs ys g] dj(1) snoc by auto
    ultimately show ?thesis using g(1) unfolding snoc seg_append by simp
  qed simp
  moreover have "seg g' (lst 0 xs) ys 0"
  proof (cases ys)
    case (Cons y zs)
    have "g' (Suc x) = g (Suc x)" if "x \<in> set zs" for x
      unfolding g'_def using that dj(2) assms(2) Cons by (intro unlinked_other) auto
    then have "seg g' y zs 0" using g(2) seg_cong [of zs g' g] unfolding Cons by simp
    moreover have "xs \<noteq> [] \<Longrightarrow> last xs \<noteq> y" using dj(2) Cons by auto
    then have "g' (Suc y) = (fst (g (Suc y)), of_nat (16 * lst 0 xs))"
      unfolding g'_def using unlinked_back [of ys g xs] Cons by auto
    ultimately show ?thesis using g(2) unfolding Cons by simp
  qed simp
  ultimately show ?thesis unfolding seg_append g'_def by blast
qed

lemma remove_ok:
  assumes ok: "fl_ok s FR FL" and i: "FR i = Some k"
    and t: "block_total (kmem s) (16 * i) = of_nat (16 * k)"
  shows "\<exists>FL'. fl_ok (freelist_remove (16 * i) s) (FR(i := None)) FL'"
    and "same_rest s (freelist_remove (16 * i) s)"
    and "\<And>j. j \<notin> Suc ` (dom FR - {i}) \<Longrightarrow> gr (kmem (freelist_remove (16 * i) s)) j = gr (kmem s) j"
proof -
  define s' where "s' = freelist_remove (16 * i) s"
  obtain f l where c: "cls k = (f, l)" by (cases "cls k")
  note d = fl_okD [OF ok]
  have "i \<in> set (FL f l)" using d(4) [of i f l] i c by blast
  then obtain xs ys where xy: "FL f l = xs @ i # ys" by (meson split_list)
  note dl = d(1) [of f l, unfolded xy] d(2) [of f l, unfolded xy]
  note r = freelist_remove_eq [OF t c dl, folded s'_def]
  show "same_rest s (freelist_remove (16 * i) s)" using r(5) unfolding s'_def .
  have sub: "set (xs @ ys) \<subseteq> dom FR - {i}" using d(4) [of _ f l] dl(2) unfolding xy by auto
  show fr: "gr (kmem (freelist_remove (16 * i) s)) j = gr (kmem s) j" if "j \<notin> Suc ` (dom FR - {i})" for j
    unfolding s'_def [symmetric] r(1) using that sub by (intro unlinked_frame) blast
  define FL' where "FL' = FL(f := (FL f)(l := xs @ ys))"
  have seg: "seg (gr (kmem s')) 0 (FL' f' l') 0" for f' l'
  proof (cases "(f', l') = (f, l)")
    case True
    then show ?thesis using unlinked_seg [OF dl] unfolding r(1) FL'_def by simp
  next
    case False
    have "x \<notin> set (xs @ ys)" if "x \<in> set (FL f' l')" for x using class_unique [OF ok that, of f l] False unfolding xy by auto
    then have "seg (gr (kmem s')) 0 (FL f' l') 0 = seg (gr (kmem s)) 0 (FL f' l') 0"
      unfolding r(1) by (intro seg_cong unlinked_frame) blast
    then show ?thesis using d(1) [of f' l'] False unfolding FL'_def by auto
  qed
  have st: "set (FL' f' l') = {j. \<exists>k'. (FR(i := None)) j = Some k' \<and> cls k' = (f', l')}" for f' l'
  proof (cases "(f', l') = (f, l)")
    case True
    then show ?thesis using d(4) [of _ f l] dl(2) unfolding FL'_def xy by auto
  next
    case False
    then show ?thesis using d(4) [of _ f' l'] i c unfolding FL'_def by auto
  qed
  have cb: "f < 32" "l < 16" using cls_bounds(1,3) [OF _ _ c] d(7) [OF i] by (simp_all add: HEAP_FL_COUNT_def HEAP_SL_COUNT_def)
  have bsl: "bit (sl_bitmap s' f') l' \<longleftrightarrow> FL' f' l' \<noteq> []" for f' l'
    using d(5) [of f' l'] cb(2) xy unfolding r(3) FL'_def
    by (auto simp: bit_and_iff bit_not_iff bit_push1 possible_bit_word simp del: push_bit_of_1 dest: bit_imp_le_length)
  have bfl: "bit (fl_bitmap s') f' \<longleftrightarrow> sl_bitmap s' f' \<noteq> 0" for f'
  proof (cases "f' = f")
    case True
    have "bit (sl_bitmap s f) l" using d(5) [of f l] xy by simp
    then have "sl_bitmap s f \<noteq> 0" by auto
    then have "bit (fl_bitmap s) f" using d(6) [of f] by simp
    then show ?thesis using True cb(1) \<open>sl_bitmap s f \<noteq> 0\<close> unfolding r(3,4)
      by (auto simp: bit_and_iff bit_not_iff bit_push1 possible_bit_word simp del: push_bit_of_1)
  next
    case False
    then show ?thesis using d(6) [of f'] unfolding r(3,4)
      by (auto simp: bit_and_iff bit_not_iff bit_push1 possible_bit_word simp del: push_bit_of_1 dest: bit_imp_le_length)
  qed
  have dist: "distinct (FL' f' l')" "blocks s' f' l' = nx (FL' f' l') 0" for f' l'
    using d(2,3) [of f' l'] dl(2) xy unfolding FL'_def r(2) by (cases xs; auto simp: nx_append)+
  have "fl_ok s' (FR(i := None)) FL'"
    unfolding fl_ok_def using seg st bsl bfl dist d(7) by (auto split: if_splits)
  then show "\<exists>FL'. fl_ok (freelist_remove (16 * i) s) (FR(i := None)) FL'" unfolding s'_def by blast
qed

section \<open>Search\<close>

text \<open>The headers of the free blocks hold the sizes that the map gives them.\<close>

definition free_hdr :: "kheap \<Rightarrow> (nat \<rightharpoonup> nat) \<Rightarrow> bool" where
  "free_hdr s FR \<longleftrightarrow> (\<forall>i k. FR i = Some k \<longrightarrow> block_total (kmem s) (16 * i) = of_nat (16 * k))"

lemma list_fit_find:
  "seg (gr m) p xs 0 \<Longrightarrow> list_fit m tot (nx xs 0) = Some (case find (\<lambda>x. tot \<le> block_total m (16 * x)) xs of None \<Rightarrow> 0 | Some x \<Rightarrow> 16 * x)"
proof (induction xs arbitrary: p)
  case Nil
  then show ?case by (simp add: list_fit.simps)
next
  case (Cons x xs)
  have "unat (of_nat (nx xs 0) :: u64) = nx xs 0" using nx_small [of "gr m" x xs] Cons.prems by (simp add: unat_of_nat)
  then have "link_next m (16 * x) = nx xs 0" unfolding link_gr using Cons.prems by simp
  moreover have "seg (gr m) x xs 0" "0 < x" using Cons.prems by simp_all
  ultimately show ?case using Cons.IH [of x] by (simp add: list_fit.simps [of m tot "16 * x"])
qed

lemma granules_le: "a < 2 ^ 60 \<Longrightarrow> b < 2 ^ 60 \<Longrightarrow> (of_nat (16 * a) :: u64) \<le> of_nat (16 * b) \<longleftrightarrow> a \<le> b"
  unfolding word_le_nat_alt by (simp only: unat_granules) simp

text \<open>What a search promises: a block that is large enough is removed from its list, or every block looked at is too small.\<close>

definition take_result :: "kheap \<Rightarrow> (nat \<rightharpoonup> nat) \<Rightarrow> nat \<Rightarrow> (nat \<times> nat \<Rightarrow> bool) \<Rightarrow> (kheap \<times> nat option) option \<Rightarrow> bool" where
  "take_result s FR r C res \<longleftrightarrow>
     res = Some (s, None) \<and> (\<forall>i k. FR i = Some k \<longrightarrow> C (cls k) \<longrightarrow> k < r) \<or>
     (\<exists>i k. FR i = Some k \<and> r \<le> k \<and> res = Some (freelist_remove (16 * i) s, Some (16 * i)))"

lemma take_resultI:
  "FR i = Some k \<Longrightarrow> r \<le> k \<Longrightarrow> take_result s FR r C (Some (freelist_remove (16 * i) s, Some (16 * i)))"
  unfolding take_result_def by blast

lemma take_result_mono: "take_result s FR r C res \<Longrightarrow> (\<And>i k. FR i = Some k \<Longrightarrow> C' (cls k) \<Longrightarrow> k < r \<or> C (cls k)) \<Longrightarrow> take_result s FR r C' res"
  unfolding take_result_def by blast

lemma list_take_sl_ok:
  assumes ok: "fl_ok s FR FL" and h: "free_hdr s FR" and r: "1 \<le> r" "r < 2 ^ 28" "cls r = (f0, l0)"
    and fl: "f0 < fl \<or> f0 = fl \<and> sl0 = l0"
  shows "(\<And>n. bit sl_map n \<Longrightarrow> FL fl n \<noteq> [] \<and> (f0 = fl \<longrightarrow> l0 \<le> n)) \<Longrightarrow>
    take_result s FR r (\<lambda>c. fst c = fl \<and> bit sl_map (snd c)) (list_take_sl f0 sl0 (of_nat (16 * r)) fl sl_map s)"
proof (induction "unat sl_map" arbitrary: sl_map rule: less_induct)
  case less
  note d = fl_okD [OF ok]
  show ?case
  proof (cases "sl_map = 0")
    case True
    then show ?thesis by (simp add: list_take_sl.simps take_result_def)
  next
    case False
    define n where "n = ctz sl_map"
    have bn: "bit sl_map n" unfolding n_def by (rule bit_ctz [OF False])
    obtain x xs where x: "FL fl n = x # xs" using less.prems [OF bn] by (cases "FL fl n") auto
    have fb: "\<exists>k. FR y = Some k \<and> cls k = (fl, n) \<and> block_total (kmem s) (16 * y) = of_nat (16 * k) \<and> 2 \<le> k \<and> k < 2 ^ 28" if "y \<in> set (FL fl n)" for y
      using that d(4) [of y fl n] d(7) [of y] h unfolding free_hdr_def by blast
    show ?thesis
    proof (cases "fl = f0 \<and> n = sl0")
      case True
      note fit = list_fit_find [OF d(1) [of fl n], of "of_nat (16 * r)", folded d(3)]
      show ?thesis
      proof (cases "find (\<lambda>y. of_nat (16 * r) \<le> block_total (kmem s) (16 * y)) (FL fl n)")
        case None
        have small: "k < r" if "FR i = Some k" "cls k = (fl, n)" for i k
        proof -
          have "i \<in> set (FL fl n)" using d(4) [of i fl n] that by blast
          then have "\<not> of_nat (16 * r) \<le> block_total (kmem s) (16 * i)" using None by (simp only: find_None_iff) blast
          then have "\<not> (of_nat (16 * r) :: u64) \<le> of_nat (16 * k)" using fb [OF \<open>i \<in> _\<close>] that(1) by auto
          then show ?thesis using granules_le [of r k] r(2) d(7) [OF that(1)] by simp
        qed
        let ?m = "sl_map AND NOT (push_bit n 1)"
        have b: "bit ?m k \<longleftrightarrow> bit sl_map k \<and> k \<noteq> n" for k
          unfolding bit_and_iff bit_not_iff bit_push1 possible_bit_word using bn by (auto dest: bit_imp_le_length)
        have "unat ?m < unat sl_map" unfolding n_def by (rule clear_low_bit [OF False])
        then have "take_result s FR r (\<lambda>c. fst c = fl \<and> bit ?m (snd c)) (list_take_sl f0 sl0 (of_nat (16 * r)) fl ?m s)"
          by (rule less.hyps) (use b less.prems in blast)
        then have "take_result s FR r (\<lambda>c. fst c = fl \<and> bit sl_map (snd c)) (list_take_sl f0 sl0 (of_nat (16 * r)) fl ?m s)"
          by (rule take_result_mono) (metis b small prod.collapse)
        then show ?thesis
          using False True fit None unfolding list_take_sl.simps [of f0 sl0 _ fl sl_map] n_def [symmetric] by (simp add: Let_def del: push_bit_of_1)
      next
        case (Some y)
        then have y: "y \<in> set (FL fl n)" "of_nat (16 * r) \<le> block_total (kmem s) (16 * y)" by (auto simp: find_Some_iff)
        then obtain k where k: "FR y = Some k" "block_total (kmem s) (16 * y) = of_nat (16 * k)" "k < 2 ^ 28" using fb by blast
        then have "r \<le> k" using y(2) granules_le [of r k] r(2) by simp
        moreover have "y \<noteq> 0" using seg_range [OF d(1) y(1)] by simp
        ultimately show ?thesis
          using take_resultI [of FR y k r s] k(1) False True fit Some unfolding list_take_sl.simps [of f0 sl0 _ fl sl_map] n_def [symmetric]
          by (simp add: Let_def)
      qed
    next
      case other: False
      obtain k where k: "FR x = Some k" "cls k = (fl, n)" "2 \<le> k" "k < 2 ^ 28" using fb [of x] x by auto
      have "f0 < fl \<or> f0 = fl \<and> l0 < n" using less.prems [OF bn] fl other by auto
      then have "r < k" using cls_mono [of r k f0 l0 fl n] r k by simp
      moreover have "blocks s fl n = 16 * x" using d(3) [of fl n] x by simp
      ultimately show ?thesis
        using take_resultI [of FR x k r s] k(1) False other unfolding list_take_sl.simps [of f0 sl0 _ fl sl_map] n_def [symmetric]
        by (auto simp: Let_def)
    qed
  qed
qed

lemma take_result_cases:
  assumes "take_result s FR r C res"
  obtains "res = Some (s, None)" "\<And>i k. FR i = Some k \<Longrightarrow> C (cls k) \<Longrightarrow> k < r"
  | i k where "FR i = Some k" "r \<le> k" "res = Some (freelist_remove (16 * i) s, Some (16 * i))"
  using assms unfolding take_result_def by blast

lemma bit_from: "bit (w AND push_bit l (NOT 0) :: u32) n \<longleftrightarrow> bit w n \<and> l \<le> n"
  unfolding bit_and_iff bit_push_bit_iff bit_not_iff possible_bit_word by (auto dest: bit_imp_le_length)

lemma list_take_fl_ok:
  assumes ok: "fl_ok s FR FL" and h: "free_hdr s FR" and r: "1 \<le> r" "r < 2 ^ 28" "cls r = (f0, l0)"
  shows "(\<And>f. f \<in> set fls \<Longrightarrow> f0 < f) \<Longrightarrow> take_result s FR r (\<lambda>c. fst c \<in> set fls) (list_take_fl f0 (of_nat (16 * r)) fls 0 s)"
proof (induction fls)
  case Nil
  then show ?case by (simp add: take_result_def)
next
  case (Cons fl fls)
  let ?m = "sl_bitmap s fl AND push_bit 0 (NOT 0)"
  have "FL fl n \<noteq> [] \<and> (f0 = fl \<longrightarrow> l0 \<le> n)" if "bit ?m n" for n
    using that Cons.prems [of fl] fl_okD(5) [OF ok, of fl n] unfolding bit_from by simp
  then have t: "take_result s FR r (\<lambda>c. fst c = fl \<and> bit ?m (snd c)) (list_take_sl f0 0 (of_nat (16 * r)) fl ?m s)"
    using Cons.prems [of fl] by (intro list_take_sl_ok [OF ok h r]) simp_all
  then show ?case
  proof (cases rule: take_result_cases)
    case 1
    have "k < r" if "FR i = Some k" "fst (cls k) = fl" for i k
    proof -
      have "i \<in> set (FL fl (snd (cls k)))" using fl_okD(4) [OF ok, of i fl] that by (metis prod.collapse)
      then have "bit (sl_bitmap s fl) (snd (cls k))" using fl_okD(5) [OF ok, of fl] by force
      then have "bit ?m (snd (cls k))" unfolding bit_from by simp
      then show ?thesis using 1(2) [OF that(1)] that(2) by blast
    qed
    moreover have "take_result s FR r (\<lambda>c. fst c \<in> set fls) (list_take_fl f0 (of_nat (16 * r)) fls 0 s)" using Cons by simp
    ultimately have "take_result s FR r (\<lambda>c. fst c \<in> set (fl # fls)) (list_take_fl f0 (of_nat (16 * r)) fls 0 s)"
      by (elim take_result_mono) auto
    then show ?thesis using 1(1) by simp
  next
    case (2 i k)
    then show ?thesis using take_resultI [of FR i k r s] by simp
  qed
qed

lemma list_take_ok:
  assumes ok: "fl_ok s FR FL" and h: "free_hdr s FR" and r: "1 \<le> r" "r < 2 ^ 28" "cls r = (f0, l0)"
  shows "take_result s FR r (\<lambda>_. True) (list_take f0 l0 (of_nat (16 * r)) s)"
proof -
  let ?m = "sl_bitmap s f0 AND push_bit l0 (NOT 0)"
  note cb = cls_bounds(1) [OF _ r(2,3)]
  have u: "[f0..<HEAP_FL_COUNT] = f0 # [Suc f0..<HEAP_FL_COUNT]" using cb r(1) by (simp add: upt_conv_Cons)
  have "FL f0 n \<noteq> [] \<and> (f0 = f0 \<longrightarrow> l0 \<le> n)" if "bit ?m n" for n
    using that fl_okD(5) [OF ok, of f0 n] unfolding bit_from by simp
  then have "take_result s FR r (\<lambda>c. fst c = f0 \<and> bit ?m (snd c)) (list_take_sl f0 l0 (of_nat (16 * r)) f0 ?m s)"
    by (intro list_take_sl_ok [OF ok h r]) simp_all
  then show ?thesis
  proof (cases rule: take_result_cases)
    case 1
    have "k < r \<or> fst (cls k) \<in> set [Suc f0..<HEAP_FL_COUNT]" if i: "FR i = Some k" for i k
    proof -
      obtain f l where c: "cls k = (f, l)" by (cases "cls k")
      note k = fl_okD(7) [OF ok i]
      have k0: "0 < k" "k < 2 ^ 28" using k by simp_all
      consider "f < f0 \<or> f = f0 \<and> l < l0" | "f = f0" "l0 \<le> l" | "f0 < f" by linarith
      then show ?thesis
      proof cases
        case 1
        then show ?thesis using cls_mono [OF k0 _ r(2) c r(3)] r(1) by simp
      next
        case 2
        have "i \<in> set (FL f l)" using fl_okD(4) [OF ok, of i f l] i c by blast
        then have "bit (sl_bitmap s f) l" using fl_okD(5) [OF ok, of f l] by force
        then have "bit ?m l" using 2 by (simp only: bit_from)
        then show ?thesis using 1(2) [OF i] c 2 by simp
      next
        case 3
        then show ?thesis using cls_bounds(1) [OF k0 c] c by simp
      qed
    qed
    moreover have "take_result s FR r (\<lambda>c. fst c \<in> set [Suc f0..<HEAP_FL_COUNT]) (list_take_fl f0 (of_nat (16 * r)) [Suc f0..<HEAP_FL_COUNT] 0 s)"
      by (rule list_take_fl_ok [OF ok h r]) simp
    ultimately have "take_result s FR r (\<lambda>_. True) (list_take_fl f0 (of_nat (16 * r)) [Suc f0..<HEAP_FL_COUNT] 0 s)"
      by (elim take_result_mono) blast
    then show ?thesis using 1(1) unfolding list_take_def u by simp
  next
    case (2 i k)
    then show ?thesis using take_resultI [of FR i k r s] unfolding list_take_def u by simp
  qed
qed

end
