(* ===== verification/Kheap_Lay.thy ===== *)
theory Kheap_Lay
  imports Kheap_Free
begin

text \<open>
  Layouts of the kernel heap: each area is a row of blocks, used or free, that ends with a sentinel. \<open>winv\<close> says that the
  headers of \<open>src/kernel/mm/kheap.c\<close> in memory describe the layout and that the free lists hold its free blocks, with the
  exception of the blocks that an operation has in hand.
\<close>

section \<open>Rows of blocks\<close>

type_synonym row = "(nat \<times> bool) list"
type_synonym layout = "nat \<rightharpoonup> row"

definition ext :: "row \<Rightarrow> nat" where
  "ext xs = sum_list (map fst xs)"

lemma ext_simps [simp]: "ext [] = 0" "ext (b # xs) = fst b + ext xs" "ext (xs @ ys) = ext xs + ext ys"
  by (simp_all add: ext_def)

text \<open>Address and state of the last block of a row.\<close>

definition lp :: "nat \<Rightarrow> nat \<Rightarrow> row \<Rightarrow> nat" where
  "lp a p xs = (if xs = [] then p else a + ext (butlast xs))"

definition lf :: "bool \<Rightarrow> row \<Rightarrow> bool" where
  "lf pf xs = (if xs = [] then pf else snd (last xs))"

lemma lp_simps [simp]: "lp a p [] = p" "lp a p (xs @ [b]) = a + ext xs" "lp a p [b] = a"
  by (simp_all add: lp_def)

lemma lf_simps [simp]: "lf pf [] = pf" "lf pf (xs @ [b]) = snd b" "lf pf [b] = snd b"
  by (simp_all add: lf_def)

lemma lp_Cons: "lp a p (b # xs) = lp (a + fst b) a xs"
  by (cases xs rule: rev_cases) (simp_all add: lp_def)

lemma lf_Cons: "lf pf (b # xs) = lf (snd b) xs"
  by (simp add: lf_def)

primrec hd_seg :: "(nat \<Rightarrow> u64 \<times> u64) \<Rightarrow> nat \<Rightarrow> nat \<Rightarrow> bool \<Rightarrow> row \<Rightarrow> bool" where
  "hd_seg g a p pf [] \<longleftrightarrow> True"
| "hd_seg g a p pf (b # xs) \<longleftrightarrow> g a = (of_nat (16 * p), hw (fst b) (snd b) pf) \<and> hd_seg g (a + fst b) a (snd b) xs"

lemma hd_seg_append: "hd_seg g a p pf (xs @ ys) \<longleftrightarrow> hd_seg g a p pf xs \<and> hd_seg g (a + ext xs) (lp a p xs) (lf pf xs) ys"
  by (induction xs arbitrary: a p pf) (auto simp: lp_Cons lf_Cons add.assoc)

lemma hd_seg_cong: "(\<And>j. a \<le> j \<Longrightarrow> j \<le> a + ext xs \<Longrightarrow> g' j = g j) \<Longrightarrow> hd_seg g' a p pf xs = hd_seg g a p pf xs"
  by (induction xs arbitrary: a p pf) (auto simp: add.assoc)

definition sized :: "row \<Rightarrow> bool" where
  "sized xs \<longleftrightarrow> (\<forall>b \<in> set xs. 2 \<le> fst b)"

lemma sized_simps [simp]: "sized []" "sized (b # xs) \<longleftrightarrow> 2 \<le> fst b \<and> sized xs" "sized (xs @ ys) \<longleftrightarrow> sized xs \<and> sized ys"
  by (auto simp: sized_def)

lemma hd_seg_cong_below: "sized xs \<Longrightarrow> (\<And>j. a \<le> j \<Longrightarrow> j < a + ext xs \<Longrightarrow> g' j = g j) \<Longrightarrow> hd_seg g' a p pf xs = hd_seg g a p pf xs"
  by (induction xs arbitrary: a p pf) (auto simp: add.assoc)

primrec blks :: "nat \<Rightarrow> row \<Rightarrow> (nat \<times> nat \<times> bool) set" where
  "blks a [] = {}"
| "blks a (b # xs) = insert (a, b) (blks (a + fst b) xs)"

lemma blks_append: "blks a (xs @ ys) = blks a xs \<union> blks (a + ext xs) ys"
  by (induction xs arbitrary: a) (auto simp: add.assoc)

lemma blks_range: "(i, k, f) \<in> blks a xs \<Longrightarrow> a \<le> i \<and> i + k \<le> a + ext xs"
  by (induction xs arbitrary: a) (auto, fastforce+)

lemma blks_sized: "(i, k, f) \<in> blks a xs \<Longrightarrow> sized xs \<Longrightarrow> 2 \<le> k"
  by (induction xs arbitrary: a) auto

lemma blks_apart: "(i, k, f) \<in> blks a xs \<Longrightarrow> (i', k', f') \<in> blks a xs \<Longrightarrow> (i, k, f) = (i', k', f') \<or> i + k \<le> i' \<or> i' + k' \<le> i"
proof (induction xs arbitrary: a)
  case (Cons b xs)
  then show ?case using blks_range [of i k f "a + fst b" xs] blks_range [of i' k' f' "a + fst b" xs] by auto
qed simp

lemma blks_split: "(i, k, f) \<in> blks a xs \<Longrightarrow> \<exists>ys zs. xs = ys @ (k, f) # zs \<and> i = a + ext ys"
proof (induction xs arbitrary: a)
  case (Cons b xs)
  show ?case
  proof (cases "(i, k, f) = (a, b)")
    case True
    then show ?thesis by (intro exI [of _ "[]"] exI [of _ xs]) auto
  next
    case False
    then have "(i, k, f) \<in> blks (a + fst b) xs" using Cons.prems by auto
    then obtain ys zs where "xs = ys @ (k, f) # zs" "i = a + fst b + ext ys" using Cons.IH by blast
    then show ?thesis by (intro exI [of _ "b # ys"] exI [of _ zs]) auto
  qed
qed simp

section \<open>Layouts\<close>

text \<open>The end of a row is the address of its sentinel.\<close>

definition geo :: "layout \<Rightarrow> bool" where
  "geo lay \<longleftrightarrow>
     (\<forall>a xs. lay a = Some xs \<longrightarrow> 0 < a \<and> a + ext xs + 1 < 2 ^ 60 \<and> ext xs < 2 ^ 20 \<and> sized xs) \<and>
     (\<forall>a xs a' xs'. lay a = Some xs \<longrightarrow> lay a' = Some xs' \<longrightarrow> a = a' \<or> a + ext xs < a' \<or> a' + ext xs' < a)"

lemma geoD:
  assumes "geo lay" "lay a = Some xs"
  shows "0 < a" "a + ext xs + 1 < 2 ^ 60" "ext xs < 2 ^ 20" "sized xs" "lay a' = Some xs' \<Longrightarrow> a = a' \<or> a + ext xs < a' \<or> a' + ext xs' < a"
  using assms unfolding geo_def by blast+

lemma geo_upd:
  assumes "geo lay" "lay a = Some xs" "ext xs' = ext xs" "sized xs'"
  shows "geo (lay(a \<mapsto> xs'))"
proof -
  have *: "\<exists>zs. lay a' = Some zs \<and> ext zs = ext ys \<and> (sized zs \<longrightarrow> sized ys)" if "(lay(a \<mapsto> xs')) a' = Some ys" for a' ys
    using that assms by (auto split: if_splits)
  show ?thesis
    unfolding geo_def
  proof (intro conjI allI impI)
    fix a1 ys assume "(lay(a \<mapsto> xs')) a1 = Some ys"
    then obtain zs where z: "lay a1 = Some zs" "ext zs = ext ys" "sized zs \<longrightarrow> sized ys" using * by blast
    then show "0 < a1" "a1 + ext ys + 1 < 2 ^ 60" "ext ys < 2 ^ 20" "sized ys" using geoD(1-4) [OF assms(1) z(1)] by simp_all
    fix a2 ys' assume "(lay(a \<mapsto> xs')) a2 = Some ys'"
    then obtain zs' where z': "lay a2 = Some zs'" "ext zs' = ext ys'" using * by blast
    show "a1 = a2 \<or> a1 + ext ys < a2 \<or> a2 + ext ys' < a1" using geoD(5) [OF assms(1) z(1) z'(1)] z(2) z'(2) by simp
  qed
qed

definition Blks :: "layout \<Rightarrow> (nat \<times> nat \<times> bool) set" where
  "Blks lay = {b. \<exists>a xs. lay a = Some xs \<and> b \<in> blks a xs}"

lemma BlksI: "lay a = Some xs \<Longrightarrow> b \<in> blks a xs \<Longrightarrow> b \<in> Blks lay"
  unfolding Blks_def by blast

lemma Blks_apart:
  assumes "geo lay" "(i, k, f) \<in> Blks lay" "(i', k', f') \<in> Blks lay"
  shows "(i, k, f) = (i', k', f') \<or> i + k \<le> i' \<or> i' + k' \<le> i"
proof -
  obtain a xs a' xs' where a: "lay a = Some xs" "(i, k, f) \<in> blks a xs" "lay a' = Some xs'" "(i', k', f') \<in> blks a' xs'"
    using assms(2,3) unfolding Blks_def by blast
  show ?thesis
  proof (cases "a = a'")
    case True
    then show ?thesis using a blks_apart [of i k f a xs i' k' f'] by simp
  next
    case False
    then show ?thesis using geoD(5) [OF assms(1) a(1,3)] blks_range [OF a(2)] blks_range [OF a(4)] by auto
  qed
qed

lemma Blks_bounds:
  assumes "geo lay" "(i, k, f) \<in> Blks lay"
  shows "0 < i" "i + k < 2 ^ 60" "2 \<le> k" "k < 2 ^ 20"
proof -
  obtain a xs where a: "lay a = Some xs" "(i, k, f) \<in> blks a xs" using assms(2) unfolding Blks_def by blast
  note g = geoD(1-4) [OF assms(1) a(1)] and r = blks_range [OF a(2)]
  show "0 < i" "i + k < 2 ^ 60" "2 \<le> k" "k < 2 ^ 20" using g r blks_sized [OF a(2)] by simp_all
qed

lemma Blks_unique: "geo lay \<Longrightarrow> (i, k, f) \<in> Blks lay \<Longrightarrow> (i, k', f') \<in> Blks lay \<Longrightarrow> k' = k \<and> f' = f"
  using Blks_apart [of lay i k f i k' f'] Blks_bounds(3) [of lay i k f] Blks_bounds(3) [of lay i k' f'] by auto

text \<open>The blocks of a layout in which one row is replaced.\<close>

lemma Blks_upd:
  assumes "geo lay" "lay a = Some xs"
  shows "b \<in> Blks (lay(a \<mapsto> xs')) \<longleftrightarrow> b \<in> blks a xs' \<or> b \<in> Blks lay \<and> b \<notin> blks a xs"
proof -
  have "b \<notin> blks a xs" if "lay a' = Some ys" "a' \<noteq> a" "b \<in> blks a' ys" for a' ys
  proof
    assume h: "b \<in> blks a xs"
    obtain i k f where b: "b = (i, k, f)" by (cases b)
    show False using geoD(5) [OF assms that(1)] that blks_range [OF h [unfolded b]] blks_range [OF that(3) [unfolded b]] by auto
  qed
  note other = this
  show ?thesis
  proof
    assume "b \<in> Blks (lay(a \<mapsto> xs'))"
    then obtain a' ys where "(lay(a \<mapsto> xs')) a' = Some ys" "b \<in> blks a' ys" unfolding Blks_def by blast
    then show "b \<in> blks a xs' \<or> b \<in> Blks lay \<and> b \<notin> blks a xs" using other [of a' ys] BlksI [of lay a' ys b] by (auto split: if_splits)
  next
    assume "b \<in> blks a xs' \<or> b \<in> Blks lay \<and> b \<notin> blks a xs"
    then consider "b \<in> blks a xs'" | a' ys where "lay a' = Some ys" "b \<in> blks a' ys" "a' \<noteq> a"
      using assms(2) unfolding Blks_def mem_Collect_eq by (metis option.inject)
    then show "b \<in> Blks (lay(a \<mapsto> xs'))" by cases (auto intro: BlksI [of _ a xs'] BlksI)
  qed
qed

text \<open>Header addresses, sentinels included.\<close>

definition Hdrs :: "layout \<Rightarrow> nat set" where
  "Hdrs lay = fst ` Blks lay \<union> {a + ext xs | a xs. lay a = Some xs}"

text \<open>The granules behind a header, up to the end of its block, are no headers.\<close>

lemma inside_no_header:
  assumes g: "geo lay" and b: "(i, k, f) \<in> Blks lay" and j: "i < j" "j < i + k"
  shows "j \<notin> Hdrs lay"
proof
  assume "j \<in> Hdrs lay"
  then consider k' f' where "(j, k', f') \<in> Blks lay" | a xs where "lay a = Some xs" "j = a + ext xs"
    unfolding Hdrs_def by auto
  then show False
  proof cases
    case 1
    then show ?thesis using Blks_apart [OF g b 1] Blks_bounds(3) [OF g 1] j by auto
  next
    case 2
    obtain a' xs' where a': "lay a' = Some xs'" "(i, k, f) \<in> blks a' xs'" using b unfolding Blks_def by blast
    show ?thesis using geoD(5) [OF g 2(1) a'(1)] blks_range [OF a'(2)] j 2 a'(1) by auto
  qed
qed

lemma inside_unique:
  assumes g: "geo lay" and b: "(i, k, f) \<in> Blks lay" "(i', k', f') \<in> Blks lay" and j: "i < j" "j < i + k" "i' < j" "j < i' + k'"
  shows "i' = i \<and> k' = k \<and> f' = f"
  using Blks_apart [OF g b] j by auto

section \<open>Headers and lists in memory\<close>

definition hdrs_ok :: "(nat \<Rightarrow> u64 \<times> u64) \<Rightarrow> layout \<Rightarrow> bool" where
  "hdrs_ok g lay \<longleftrightarrow> (\<forall>a xs. lay a = Some xs \<longrightarrow> hd_seg g a 0 False (xs @ [(0, False)]))"

definition free_ok :: "kheap \<Rightarrow> layout \<Rightarrow> nat set \<Rightarrow> bool" where
  "free_ok s lay q \<longleftrightarrow> (\<exists>FR FL. fl_ok s FR FL \<and> (\<forall>i k. FR i = Some k \<longleftrightarrow> (i, k, True) \<in> Blks lay \<and> i \<notin> q))"

definition winv :: "kheap \<Rightarrow> layout \<Rightarrow> nat set \<Rightarrow> bool" where
  "winv s lay q \<longleftrightarrow> geo lay \<and> hdrs_ok (gr (kmem s)) lay \<and> free_ok s lay q"

lemma hdrs_ok_upd:
  assumes "geo lay" "hdrs_ok g lay" "lay a = Some xs"
    and "\<And>j. j < a \<or> a + ext xs < j \<Longrightarrow> g' j = g j" and "hd_seg g' a 0 False (xs' @ [(0, False)])"
  shows "hdrs_ok g' (lay(a \<mapsto> xs'))"
proof -
  have "hd_seg g' a' 0 False (ys @ [(0, False)])" if "lay a' = Some ys" "a' \<noteq> a" for a' ys
  proof -
    have "hd_seg g' a' 0 False (ys @ [(0, False)]) = hd_seg g a' 0 False (ys @ [(0, False)])"
      using geoD(5) [OF assms(1,3) that(1)] that(2) by (intro hd_seg_cong assms(4)) auto
    then show ?thesis using assms(2) that(1) unfolding hdrs_ok_def by blast
  qed
  then show ?thesis using assms(5) unfolding hdrs_ok_def by auto
qed

lemma hdrs_ok_cong:
  assumes "hdrs_ok g lay" "\<And>j. j \<in> Hdrs lay \<Longrightarrow> g' j = g j"
  shows "hdrs_ok g' lay"
proof -
  have c: "hd_seg g' a p pf ys = hd_seg g a p pf ys" if "\<And>j b. (j, b) \<in> blks a ys \<Longrightarrow> g' j = g j" for a p pf ys
    using that
  proof (induction ys arbitrary: a p pf)
    case (Cons b ys)
    have "g' a = g a" using Cons.prems [of a b] by simp
    moreover have "hd_seg g' (a + fst b) a (snd b) ys = hd_seg g (a + fst b) a (snd b) ys" using Cons.prems by (intro Cons.IH) auto
    ultimately show ?case by simp
  qed simp
  have "g' j = g j" if "lay a = Some xs" "(j, b) \<in> blks a (xs @ [(0, False)])" for a xs j b
  proof -
    have "j \<in> Hdrs lay" using that unfolding Hdrs_def Blks_def blks_append by force
    then show ?thesis by (rule assms(2))
  qed
  then show ?thesis using assms(1) c unfolding hdrs_ok_def by metis
qed

lemma header_of:
  assumes "hdrs_ok g lay" "(i, k, f) \<in> Blks lay"
  shows "snd (g i) AND HEAP_SIZE_MASK = of_nat (16 * k)" "snd (g i) AND HEAP_FREE \<noteq> 0 \<longleftrightarrow> f"
proof -
  obtain a xs where a: "lay a = Some xs" "(i, k, f) \<in> blks a xs" using assms(2) unfolding Blks_def by blast
  obtain ys zs where "xs = ys @ (k, f) # zs" "i = a + ext ys" using blks_split [OF a(2)] by blast
  moreover have "hd_seg g a 0 False (xs @ [(0, False)])" using assms(1) a(1) unfolding hdrs_ok_def by blast
  ultimately have "snd (g i) = hw k f (lf False ys)" by (simp add: hd_seg_append)
  then show "snd (g i) AND HEAP_SIZE_MASK = of_nat (16 * k)" "snd (g i) AND HEAP_FREE \<noteq> 0 \<longleftrightarrow> f" by simp_all
qed

lemma free_ok_hdr:
  assumes "hdrs_ok (gr (kmem s)) lay" "\<And>i k. FR i = Some k \<Longrightarrow> (i, k, True) \<in> Blks lay"
  shows "free_hdr s FR"
  unfolding free_hdr_def total_gr using header_of(1) [OF assms(1) assms(2)] by blast

text \<open>Header writes keep the lists as long as they spare the links of free blocks.\<close>

lemma free_ok_cong:
  assumes "free_ok s lay q" "\<And>i k. (i, k, True) \<in> Blks lay \<Longrightarrow> i \<notin> q \<Longrightarrow> gr (kmem s') (Suc i) = gr (kmem s) (Suc i)"
    and "blocks s' = blocks s" "sl_bitmap s' = sl_bitmap s" "fl_bitmap s' = fl_bitmap s"
    and "\<And>i k. (i, k, True) \<in> Blks lay' \<and> i \<notin> q' \<longleftrightarrow> (i, k, True) \<in> Blks lay \<and> i \<notin> q"
  shows "free_ok s' lay' q'"
proof -
  obtain FR FL where f: "fl_ok s FR FL" "\<And>i k. FR i = Some k \<longleftrightarrow> (i, k, True) \<in> Blks lay \<and> i \<notin> q"
    using assms(1) unfolding free_ok_def by blast
  have "fl_ok s' FR FL" using assms(2-5) f by (intro fl_ok_cong [OF f(1)]) auto
  then show ?thesis using f(2) assms(6) unfolding free_ok_def by blast
qed

section \<open>The steps of the operations\<close>

text \<open>The granules inside of used blocks: the data of the callers.\<close>

definition intr :: "layout \<Rightarrow> nat set" where
  "intr lay = {j. \<exists>i k. (i, k, False) \<in> Blks lay \<and> i < j \<and> j < i + k}"

definition keeps :: "kheap \<Rightarrow> kheap \<Rightarrow> nat set \<Rightarrow> bool" where
  "keeps s s' J \<longleftrightarrow> (\<forall>j \<in> J. gr (kmem s') j = gr (kmem s) j)"

lemma keeps_trans: "keeps s s' J \<Longrightarrow> keeps s' s'' J' \<Longrightarrow> J'' \<subseteq> J \<Longrightarrow> J'' \<subseteq> J' \<Longrightarrow> keeps s s'' J''"
  unfolding keeps_def by (metis subsetD)

lemma intr_no_header: "geo lay \<Longrightarrow> j \<in> intr lay \<Longrightarrow> j \<notin> Hdrs lay"
  unfolding intr_def using inside_no_header by blast

lemma intr_no_link: "geo lay \<Longrightarrow> (i, k, True) \<in> Blks lay \<Longrightarrow> Suc i \<notin> intr lay"
  using inside_unique [of lay i k True _ _ False "Suc i"] Blks_bounds(3) [of lay i k True] unfolding intr_def by fastforce

lemma link_no_header: "geo lay \<Longrightarrow> (i, k, f) \<in> Blks lay \<Longrightarrow> Suc i \<notin> Hdrs lay"
  using inside_no_header [of lay i k f "Suc i"] Blks_bounds(3) [of lay i k f] by simp

lemma winvD: "winv s lay q \<Longrightarrow> geo lay" "winv s lay q \<Longrightarrow> hdrs_ok (gr (kmem s)) lay" "winv s lay q \<Longrightarrow> free_ok s lay q"
  unfolding winv_def by blast+

text \<open>A block that has been taken from its list.\<close>

lemma step_remove:
  assumes w: "winv s lay q" and n: "(n, k, True) \<in> Blks lay" "n \<notin> q"
  defines "s' \<equiv> freelist_remove (16 * n) s"
  shows "winv s' lay (insert n q)" "same_rest s s'" "\<And>j. j \<notin> Suc ` {i. \<exists>k. (i, k, True) \<in> Blks lay} \<Longrightarrow> gr (kmem s') j = gr (kmem s) j"
proof -
  note g = winvD(1) [OF w] and h = winvD(2) [OF w]
  obtain FR FL where f: "fl_ok s FR FL" "\<And>i k. FR i = Some k \<longleftrightarrow> (i, k, True) \<in> Blks lay \<and> i \<notin> q"
    using winvD(3) [OF w] unfolding free_ok_def by blast
  have fn: "FR n = Some k" using f(2) n by blast
  have t: "block_total (kmem s) (16 * n) = of_nat (16 * k)" unfolding total_gr by (rule header_of(1) [OF h n(1)])
  note r = remove_ok [OF f(1) fn t, folded s'_def]
  show "same_rest s s'" by (rule r(2))
  have sub: "Suc ` (dom FR - {n}) \<subseteq> Suc ` {i. \<exists>k. (i, k, True) \<in> Blks lay}" using f(2) by blast
  then show fr: "gr (kmem s') j = gr (kmem s) j" if "j \<notin> Suc ` {i. \<exists>k. (i, k, True) \<in> Blks lay}" for j using that r(3) [of j] by blast
  have "gr (kmem s') j = gr (kmem s) j" if "j \<in> Hdrs lay" for j
    using fr [of j] that link_no_header [OF g] by blast
  then have h': "hdrs_ok (gr (kmem s')) lay" by (rule hdrs_ok_cong [OF h])
  obtain FL' where "fl_ok s' (FR(n := None)) FL'" using r(1) by blast
  then have "free_ok s' lay (insert n q)" unfolding free_ok_def using f(2) by (intro exI [of _ "FR(n := None)"] exI [of _ FL'] conjI) auto
  then show "winv s' lay (insert n q)" using g h' unfolding winv_def by blast
qed

text \<open>A free block that enters its list.\<close>

lemma step_push:
  assumes w: "winv s lay q" and b: "(b, k, True) \<in> Blks lay" "b \<in> q"
  defines "s' \<equiv> freelist_push (16 * b) s"
  shows "winv s' lay (q - {b})" "same_rest s s'" "\<And>j. j \<notin> Suc ` {i. \<exists>k. (i, k, True) \<in> Blks lay} \<Longrightarrow> gr (kmem s') j = gr (kmem s) j"
proof -
  note g = winvD(1) [OF w] and h = winvD(2) [OF w]
  obtain FR FL where f: "fl_ok s FR FL" "\<And>i k. FR i = Some k \<longleftrightarrow> (i, k, True) \<in> Blks lay \<and> i \<notin> q"
    using winvD(3) [OF w] unfolding free_ok_def by blast
  have fb: "FR b = None" using f(2) [of b] b(2) by (cases "FR b") auto
  have t: "block_total (kmem s) (16 * b) = of_nat (16 * k)" unfolding total_gr by (rule header_of(1) [OF h b(1)])
  note bb = Blks_bounds [OF g b(1)]
  obtain fl sl where c: "cls k = (fl, sl)" by (cases "cls k")
  have bi: "b < 2 ^ 60" "k < 2 ^ 28" using bb by simp_all
  note r = push_ok [OF f(1) fb bb(1) bi(1) bb(3) bi(2) t c, folded s'_def]
  show "same_rest s s'" by (rule r(2))
  have sub: "Suc ` insert b (dom FR) \<subseteq> Suc ` {i. \<exists>k. (i, k, True) \<in> Blks lay}" using f(2) b(1) by blast
  then show fr: "gr (kmem s') j = gr (kmem s) j" if "j \<notin> Suc ` {i. \<exists>k. (i, k, True) \<in> Blks lay}" for j using that r(3) [of j] by blast
  have "gr (kmem s') j = gr (kmem s) j" if "j \<in> Hdrs lay" for j
    using fr [of j] that link_no_header [OF g] by blast
  then have h': "hdrs_ok (gr (kmem s')) lay" by (rule hdrs_ok_cong [OF h])
  have "(FR(b \<mapsto> k)) i = Some k' \<longleftrightarrow> (i, k', True) \<in> Blks lay \<and> i \<notin> q - {b}" for i k'
    using f(2) [of i k'] b Blks_unique [OF g b(1), of k' True] by auto
  then have "free_ok s' lay (q - {b})" unfolding free_ok_def using r(1) by blast
  then show "winv s' lay (q - {b})" using g h' unfolding winv_def by blast
qed

end
