(* ===== verification/Kheap_Step.thy ===== *)
theory Kheap_Step
  imports Kheap_Lay
begin

text \<open>
  The header writes of \<open>src/kernel/mm/kheap.c\<close> as rewritings of a row: marking a block free or used, merging two blocks and
  splitting one. \<open>block_release\<close> and \<open>block_trim_used\<close> are sequences of such steps and list operations.
\<close>

lemma Blks_replace:
  assumes g: "geo lay" and a: "lay a = Some (ys @ R @ zs)" and N: "ext N = ext R"
  shows "Blks (lay(a \<mapsto> ys @ N @ zs)) = Blks lay - blks (a + ext ys) R \<union> blks (a + ext ys) N"
proof -
  have s: "sized (ys @ R @ zs)" using geoD(4) [OF g a] .
  have "b \<notin> blks a ys \<and> b \<notin> blks (a + ext ys + ext R) zs" if "b \<in> blks (a + ext ys) R" for b
  proof -
    obtain i k f where b: "b = (i, k, f)" by (cases b)
    have "2 \<le> k" using blks_sized that b s by simp
    then show ?thesis using blks_range [OF that [unfolded b]] blks_range [of i k f a ys] blks_range [of i k f _ zs] unfolding b by fastforce
  qed
  then show ?thesis using Blks_upd [OF g a, of _ "ys @ N @ zs"] BlksI [of lay a "ys @ R @ zs", OF a] N by (auto simp: blks_append add.assoc)
qed

lemma last_block: "ys \<noteq> [] \<Longrightarrow> lp a p ys = lp a p' ys \<and> lf f ys = lf f' ys"
  by (simp add: lp_def lf_def)

lemma end_cases: "\<exists>kz fz ws. zs @ [(0, False)] = (kz, fz) # ws"
  by (cases zs) auto

lemma row_mem:
  assumes "winv s lay q" "lay a = Some (ys @ R @ zs)" "zs @ [(0, False)] = (kz, fz) # ws"
  shows "hd_seg (gr (kmem s)) a 0 False ys" "hd_seg (gr (kmem s)) (a + ext ys) (lp a 0 ys) (lf False ys) R"
    "gr (kmem s) (a + ext ys + ext R) = (of_nat (16 * lp (a + ext ys) (lp a 0 ys) R), hw kz fz (lf (lf False ys) R))"
    "hd_seg (gr (kmem s)) (a + ext ys + ext R + kz) (a + ext ys + ext R) fz ws"
proof -
  have "hd_seg (gr (kmem s)) a 0 False ((ys @ R @ zs) @ [(0, False)])" using winvD(2) [OF assms(1)] assms(2) unfolding hdrs_ok_def by blast
  then have "hd_seg (gr (kmem s)) a 0 False (ys @ R @ (kz, fz) # ws)" using assms(3) by simp
  then show "hd_seg (gr (kmem s)) a 0 False ys" "hd_seg (gr (kmem s)) (a + ext ys) (lp a 0 ys) (lf False ys) R"
    "gr (kmem s) (a + ext ys + ext R) = (of_nat (16 * lp (a + ext ys) (lp a 0 ys) R), hw kz fz (lf (lf False ys) R))"
    "hd_seg (gr (kmem s)) (a + ext ys + ext R + kz) (a + ext ys + ext R) fz ws" by (simp_all add: hd_seg_append)
qed

text \<open>One rewriting of the middle part of a row.\<close>

lemma step_rows:
  assumes w: "winv s lay q" and a: "lay a = Some (ys @ R @ zs)" and N: "ext N = ext R" "sized N"
    and z: "zs @ [(0, False)] = (kz, fz) # ws"
    and X: "\<And>j. gr (kmem s') j \<noteq> gr (kmem s) j \<Longrightarrow> a + ext ys \<le> j \<and> j \<le> a + ext ys + ext R"
    and hN: "hd_seg (gr (kmem s')) (a + ext ys) (lp a 0 ys) (lf False ys) N"
    and he: "gr (kmem s') (a + ext ys + ext R) = (of_nat (16 * lp (a + ext ys) (lp a 0 ys) N), hw kz fz (lf (lf False ys) N))"
    and same: "blocks s' = blocks s" "sl_bitmap s' = sl_bitmap s" "fl_bitmap s' = fl_bitmap s"
    and hl: "\<And>i k. (i, k, True) \<in> Blks lay \<Longrightarrow> i \<notin> q \<Longrightarrow> gr (kmem s') (Suc i) = gr (kmem s) (Suc i)"
    and rel: "\<And>i k. ((i, k, True) \<in> Blks lay - blks (a + ext ys) R \<union> blks (a + ext ys) N \<and> i \<notin> q') = ((i, k, True) \<in> Blks lay \<and> i \<notin> q)"
  shows "winv s' (lay(a \<mapsto> ys @ N @ zs)) q'"
proof -
  note g = winvD(1) [OF w]
  note sz = geoD(4) [OF g a]
  have g': "geo (lay(a \<mapsto> ys @ N @ zs))" using N sz by (intro geo_upd [OF g a]) simp_all
  let ?g = "gr (kmem s)" and ?g' = "gr (kmem s')" and ?e = "a + ext ys + ext R"
  note m = row_mem [OF w a z]
  have "hd_seg ?g' a 0 False ys = hd_seg ?g a 0 False ys" using X sz by (intro hd_seg_cong_below) (simp, force)
  moreover have "hd_seg ?g' (?e + kz) ?e fz ws = hd_seg ?g (?e + kz) ?e fz ws"
  proof (cases "ws = []")
    case False
    then have "2 \<le> kz" using z sz by (cases zs) auto
    then show ?thesis using X by (intro hd_seg_cong) force
  qed simp
  ultimately have "hd_seg ?g' a 0 False (ys @ N @ (kz, fz) # ws)" using m(1,4) hN he N(1) by (simp add: hd_seg_append)
  then have "hd_seg ?g' a 0 False ((ys @ N @ zs) @ [(0, False)])" using z by simp
  then have h': "hdrs_ok ?g' (lay(a \<mapsto> ys @ N @ zs))" using X by (intro hdrs_ok_upd [OF g winvD(2) [OF w] a]) force+
  have "free_ok s' (lay(a \<mapsto> ys @ N @ zs)) q'"
    using rel unfolding Blks_replace [OF g a N(1), symmetric] by (intro free_ok_cong [OF winvD(3) [OF w] hl same]) simp_all
  then show ?thesis using g' h' unfolding winv_def by blast
qed

lemma header_no_link:
  assumes "winv s lay q" "\<And>j. gr (kmem s') j \<noteq> gr (kmem s) j \<Longrightarrow> j \<in> Hdrs lay" "(i, k, True) \<in> Blks lay"
  shows "gr (kmem s') (Suc i) = gr (kmem s) (Suc i)"
  using assms(2) [of "Suc i"] link_no_header [OF winvD(1) [OF assms(1)] assms(3)] by blast

lemma row_headers:
  assumes "lay a = Some (ys @ R @ zs)" "R \<noteq> []"
  shows "a + ext ys \<in> Hdrs lay" "a + ext ys + ext R \<in> Hdrs lay" "b \<in> blks (a + ext ys) R \<Longrightarrow> fst b \<in> Hdrs lay" "b \<in> blks (a + ext ys) R \<Longrightarrow> b \<in> Blks lay"
proof -
  have sub: "blks (a + ext ys) R \<subseteq> Blks lay" using BlksI [of lay a "ys @ R @ zs", OF assms(1)] by (auto simp: blks_append)
  then show "b \<in> blks (a + ext ys) R \<Longrightarrow> b \<in> Blks lay" "b \<in> blks (a + ext ys) R \<Longrightarrow> fst b \<in> Hdrs lay" unfolding Hdrs_def by blast+
  show "a + ext ys \<in> Hdrs lay" using assms(2) sub unfolding Hdrs_def by (cases R) force+
  show "a + ext ys + ext R \<in> Hdrs lay"
  proof (cases zs)
    case Nil
    then show ?thesis using assms(1) unfolding Hdrs_def by (auto simp: add.assoc)
  next
    case (Cons z zs')
    then have "(a + ext ys + ext R, z) \<in> Blks lay" using BlksI [of lay a "ys @ R @ zs", OF assms(1)] by (simp add: blks_append add.assoc)
    then show ?thesis unfolding Hdrs_def by force
  qed
qed

section \<open>Marking\<close>

definition mark_free :: "nat \<Rightarrow> nat \<Rightarrow> kheap \<Rightarrow> kheap" where
  "mark_free b n s =
     (let s = set_size (16 * b) (blk_size (kmem s) (16 * b) OR HEAP_FREE) s
      in set_size (16 * n) (blk_size (kmem s) (16 * n) OR HEAP_PREV_FREE) s)"

definition mark_used :: "nat \<Rightarrow> nat \<Rightarrow> kheap \<Rightarrow> kheap" where
  "mark_used b n s =
     (let s = set_size (16 * b) (blk_size (kmem s) (16 * b) AND NOT HEAP_FREE) s
      in set_size (16 * n) (blk_size (kmem s) (16 * n) AND NOT HEAP_PREV_FREE) s)"

lemma step_mark_free:
  assumes w: "winv s lay q" and a: "lay a = Some (ys @ (k, False) # zs)" and b: "b = a + ext ys"
  defines "s' \<equiv> mark_free b (b + k) s"
  shows "winv s' (lay(a \<mapsto> ys @ (k, True) # zs)) (insert b q)" "same_rest s s'" "\<And>j. j \<notin> Hdrs lay \<Longrightarrow> gr (kmem s') j = gr (kmem s) j"
proof -
  obtain kz fz ws where z: "zs @ [(0, False)] = (kz, fz) # ws" using end_cases by blast
  have a': "lay a = Some (ys @ [(k, False)] @ zs)" using a by simp
  note m = row_mem [OF w a' z, folded b]
  have k: "2 \<le> k" using geoD(4) [OF winvD(1) [OF w] a] by simp
  have gb: "gr (kmem s) b = (of_nat (16 * lp a 0 ys), hw k False (lf False ys))" "gr (kmem s) (b + k) = (of_nat (16 * b), hw kz fz False)"
    using m(2,3) by simp_all
  have g': "gr (kmem s') = (gr (kmem s))(b := (of_nat (16 * lp a 0 ys), hw k True (lf False ys)), b + k := (of_nat (16 * b), hw kz fz True))"
    unfolding s'_def mark_free_def Let_def gr_set blk_gr using gb k by simp
  have H: "gr (kmem s') j \<noteq> gr (kmem s) j \<Longrightarrow> j \<in> Hdrs lay" for j
    using row_headers(1,2) [of lay a ys "[(k, False)]" zs, OF a'] unfolding g' b by (auto split: if_splits)
  then show "\<And>j. j \<notin> Hdrs lay \<Longrightarrow> gr (kmem s') j = gr (kmem s) j" by blast
  show "same_rest s s'" unfolding s'_def mark_free_def Let_def by (simp add: same_rest_def set_size_def)
  have bl: "(b, k, False) \<in> Blks lay" using row_headers(4) [of lay a ys "[(k, False)]" zs, OF a'] b by simp
  have "winv s' (lay(a \<mapsto> ys @ [(k, True)] @ zs)) (insert b q)"
  proof (rule step_rows [OF w a' _ _ z])
    show "gr (kmem s') (Suc i) = gr (kmem s) (Suc i)" if "(i, k', True) \<in> Blks lay" for i k' by (rule header_no_link [OF w H that])
    show "((i, k', True) \<in> Blks lay - blks (a + ext ys) [(k, False)] \<union> blks (a + ext ys) [(k, True)] \<and> i \<notin> insert b q) = ((i, k', True) \<in> Blks lay \<and> i \<notin> q)" for i k'
      using Blks_unique [OF winvD(1) [OF w] bl, of k' True] b by auto
  qed (use k b g' in \<open>auto simp: s'_def mark_free_def Let_def split: if_splits\<close>)
  then show "winv s' (lay(a \<mapsto> ys @ (k, True) # zs)) (insert b q)" by simp
qed

lemma step_mark_used:
  assumes w: "winv s lay q" and a: "lay a = Some (ys @ (k, True) # zs)" and b: "b = a + ext ys" "b \<in> q"
  defines "s' \<equiv> mark_used b (b + k) s"
  shows "winv s' (lay(a \<mapsto> ys @ (k, False) # zs)) (q - {b})" "same_rest s s'" "\<And>j. j \<notin> Hdrs lay \<Longrightarrow> gr (kmem s') j = gr (kmem s) j"
proof -
  obtain kz fz ws where z: "zs @ [(0, False)] = (kz, fz) # ws" using end_cases by blast
  have a': "lay a = Some (ys @ [(k, True)] @ zs)" using a by simp
  note m = row_mem [OF w a' z, folded b(1)]
  have k: "2 \<le> k" using geoD(4) [OF winvD(1) [OF w] a] by simp
  have gb: "gr (kmem s) b = (of_nat (16 * lp a 0 ys), hw k True (lf False ys))" "gr (kmem s) (b + k) = (of_nat (16 * b), hw kz fz True)"
    using m(2,3) by simp_all
  have g': "gr (kmem s') = (gr (kmem s))(b := (of_nat (16 * lp a 0 ys), hw k False (lf False ys)), b + k := (of_nat (16 * b), hw kz fz False))"
    unfolding s'_def mark_used_def Let_def gr_set blk_gr using gb k by simp
  have H: "gr (kmem s') j \<noteq> gr (kmem s) j \<Longrightarrow> j \<in> Hdrs lay" for j
    using row_headers(1,2) [of lay a ys "[(k, True)]" zs, OF a'] unfolding g' b by (auto split: if_splits)
  then show "\<And>j. j \<notin> Hdrs lay \<Longrightarrow> gr (kmem s') j = gr (kmem s) j" by blast
  show "same_rest s s'" unfolding s'_def mark_used_def Let_def by (simp add: same_rest_def set_size_def)
  have bl: "(b, k, True) \<in> Blks lay" using row_headers(4) [of lay a ys "[(k, True)]" zs, OF a'] b by simp
  have "winv s' (lay(a \<mapsto> ys @ [(k, False)] @ zs)) (q - {b})"
  proof (rule step_rows [OF w a' _ _ z])
    show "gr (kmem s') (Suc i) = gr (kmem s) (Suc i)" if "(i, k', True) \<in> Blks lay" for i k' by (rule header_no_link [OF w H that])
    show "((i, k', True) \<in> Blks lay - blks (a + ext ys) [(k, True)] \<union> blks (a + ext ys) [(k, False)] \<and> i \<notin> q - {b}) = ((i, k', True) \<in> Blks lay \<and> i \<notin> q)" for i k'
      using Blks_unique [OF winvD(1) [OF w] bl, of k' True] b by auto
  qed (use k b g' in \<open>auto simp: s'_def mark_used_def Let_def split: if_splits\<close>)
  then show "winv s' (lay(a \<mapsto> ys @ (k, False) # zs)) (q - {b})" by simp
qed

section \<open>Merging and splitting\<close>

lemma next_gr: "snd (gr m b) = hw k f pf \<Longrightarrow> k < 2 ^ 60 \<Longrightarrow> block_next m (16 * b) = 16 * (b + k)"
  unfolding block_next_def total_gr by (simp only: hw_total unat_granules) simp

lemma total_hw: "snd (gr m b) = hw k f pf \<Longrightarrow> block_total m (16 * b) = of_nat (16 * k)"
  unfolding total_gr by simp

lemma of_nat_granules: "(of_nat (16 * a) :: u64) + of_nat (16 * b) = of_nat (16 * (a + b))"
  by (simp add: distrib_left)

text \<open>Merging a block with its successor, both free and out of their lists.\<close>

definition merge_free :: "nat \<Rightarrow> nat \<Rightarrow> kheap \<Rightarrow> kheap" where
  "merge_free b n s =
     (let s = set_size b ((block_total (kmem s) b + block_total (kmem s) n) OR HEAP_FREE OR (blk_size (kmem s) b AND HEAP_PREV_FREE)) s;
          m = block_next (kmem s) b
      in set_prev m b s)"

text \<open>Growing a used block into its free successor.\<close>

definition absorb :: "nat \<Rightarrow> u64 \<Rightarrow> kheap \<Rightarrow> kheap" where
  "absorb b grown s =
     (let s = set_size b (grown OR (blk_size (kmem s) b AND HEAP_PREV_FREE)) s;
          m = block_next (kmem s) b;
          s = set_prev m b s
      in set_size m (blk_size (kmem s) m AND NOT HEAP_PREV_FREE) s)"

lemma step_merge:
  assumes w: "winv s lay q" and a: "lay a = Some (ys @ (k, True) # (kn, True) # zs)" and b: "b = a + ext ys" "b \<in> q" "b + k \<in> q"
  defines "s' \<equiv> merge_free (16 * b) (16 * (b + k)) s"
  shows "winv s' (lay(a \<mapsto> ys @ (k + kn, True) # zs)) (q - {b + k})" "same_rest s s'" "\<And>j. j \<notin> Hdrs lay \<Longrightarrow> gr (kmem s') j = gr (kmem s) j"
proof -
  obtain kz fz ws where z: "zs @ [(0, False)] = (kz, fz) # ws" using end_cases by blast
  have a': "lay a = Some (ys @ [(k, True), (kn, True)] @ zs)" using a by simp
  note m = row_mem [OF w a' z, folded b(1)]
  have k: "2 \<le> k" "2 \<le> kn" "k + kn < 2 ^ 60" using geoD(2,4) [OF winvD(1) [OF w] a] by simp_all
  have gb: "gr (kmem s) b = (of_nat (16 * lp a 0 ys), hw k True (lf False ys))" "gr (kmem s) (b + k) = (of_nat (16 * b), hw kn True True)"
    "gr (kmem s) (b + (k + kn)) = (of_nat (16 * (b + k)), hw kz fz True)"
    using m(2,3) lp_simps(2) [of b "lp a 0 ys" "[(k, True)]" "(kn, True)"] lf_simps(2) [of "lf False ys" "[(k, True)]" "(kn, True)"] by simp_all
  define s1 where "s1 = set_size (16 * b) (hw (k + kn) True (lf False ys)) s"
  have e: "s' = set_prev (16 * (b + (k + kn))) (16 * b) s1"
  proof -
    have v: "(block_total (kmem s) (16 * b) + block_total (kmem s) (16 * (b + k))) OR HEAP_FREE OR (blk_size (kmem s) (16 * b) AND HEAP_PREV_FREE) = hw (k + kn) True (lf False ys)"
      unfolding total_hw [of _ b k True "lf False ys"] blk_gr gb snd_conv total_gr hw_total hw_bits of_nat_granules by (rule hw_merged)
    have "block_next (kmem s1) (16 * b) = 16 * (b + (k + kn))"
      unfolding s1_def by (rule next_gr [where f = True and pf = "lf False ys"]) (simp add: gr_set, rule k(3))
    then show ?thesis unfolding s'_def merge_free_def Let_def v s1_def [symmetric] by simp
  qed
  have g': "gr (kmem s') = (gr (kmem s))(b := (of_nat (16 * lp a 0 ys), hw (k + kn) True (lf False ys)), b + (k + kn) := (of_nat (16 * b), hw kz fz True))"
    unfolding e s1_def gr_set using gb k by simp
  have H: "gr (kmem s') j \<noteq> gr (kmem s) j \<Longrightarrow> j \<in> Hdrs lay" for j
    using row_headers(1,2) [of lay a ys "[(k, True), (kn, True)]" zs, OF a'] unfolding g' b by (auto simp: add.assoc split: if_splits)
  then show "\<And>j. j \<notin> Hdrs lay \<Longrightarrow> gr (kmem s') j = gr (kmem s) j" by blast
  show "same_rest s s'" unfolding e s1_def by (simp add: same_rest_def set_size_def set_prev_def)
  have bl: "(b, k, True) \<in> Blks lay" "(b + k, kn, True) \<in> Blks lay" using row_headers(4) [of lay a ys "[(k, True), (kn, True)]" zs, OF a'] b by simp_all
  have "winv s' (lay(a \<mapsto> ys @ [(k + kn, True)] @ zs)) (q - {b + k})"
  proof (rule step_rows [OF w a' _ _ z])
    show "gr (kmem s') (Suc i) = gr (kmem s) (Suc i)" if "(i, k', True) \<in> Blks lay" for i k' by (rule header_no_link [OF w H that])
    show "((i, k', True) \<in> Blks lay - blks (a + ext ys) [(k, True), (kn, True)] \<union> blks (a + ext ys) [(k + kn, True)] \<and> i \<notin> q - {b + k}) = ((i, k', True) \<in> Blks lay \<and> i \<notin> q)" for i k'
      using Blks_unique [OF winvD(1) [OF w] bl(1), of k' True] Blks_unique [OF winvD(1) [OF w] bl(2), of k' True] b k by auto
  qed (use k b g' in \<open>auto simp: e s1_def add.assoc split: if_splits\<close>)
  then show "winv s' (lay(a \<mapsto> ys @ (k + kn, True) # zs)) (q - {b + k})" by simp
qed

lemma step_absorb:
  assumes w: "winv s lay q" and a: "lay a = Some (ys @ (k, False) # (kn, True) # zs)" and b: "b = a + ext ys" "b + k \<in> q"
  defines "s' \<equiv> absorb (16 * b) (of_nat (16 * (k + kn))) s"
  shows "winv s' (lay(a \<mapsto> ys @ (k + kn, False) # zs)) (q - {b + k})" "same_rest s s'" "\<And>j. j \<notin> Hdrs lay \<Longrightarrow> gr (kmem s') j = gr (kmem s) j"
proof -
  obtain kz fz ws where z: "zs @ [(0, False)] = (kz, fz) # ws" using end_cases by blast
  have a': "lay a = Some (ys @ [(k, False), (kn, True)] @ zs)" using a by simp
  note m = row_mem [OF w a' z, folded b(1)]
  have k: "2 \<le> k" "2 \<le> kn" "k + kn < 2 ^ 60" using geoD(2,4) [OF winvD(1) [OF w] a] by simp_all
  have gb: "gr (kmem s) b = (of_nat (16 * lp a 0 ys), hw k False (lf False ys))" "gr (kmem s) (b + k) = (of_nat (16 * b), hw kn True False)"
    "gr (kmem s) (b + (k + kn)) = (of_nat (16 * (b + k)), hw kz fz True)"
    using m(2,3) lp_simps(2) [of b "lp a 0 ys" "[(k, False)]" "(kn, True)"] lf_simps(2) [of "lf False ys" "[(k, False)]" "(kn, True)"] by simp_all
  define s1 where "s1 = set_size (16 * b) (hw (k + kn) False (lf False ys)) s"
  define s2 where "s2 = set_prev (16 * (b + (k + kn))) (16 * b) s1"
  have g2: "gr (kmem s2) = (gr (kmem s))(b := (of_nat (16 * lp a 0 ys), hw (k + kn) False (lf False ys)), b + (k + kn) := (of_nat (16 * b), hw kz fz True))"
    unfolding s2_def s1_def gr_set using gb k by simp
  have e: "s' = set_size (16 * (b + (k + kn))) (hw kz fz False) s2"
  proof -
    have v: "of_nat (16 * (k + kn)) OR (blk_size (kmem s) (16 * b) AND HEAP_PREV_FREE) = hw (k + kn) False (lf False ys)"
      unfolding blk_gr gb snd_conv hw_bits by (rule hw_used)
    have n: "block_next (kmem s1) (16 * b) = 16 * (b + (k + kn))"
      unfolding s1_def by (rule next_gr [where f = False and pf = "lf False ys"]) (simp add: gr_set, rule k(3))
    have c: "blk_size (kmem s2) (16 * (b + (k + kn))) AND NOT HEAP_PREV_FREE = hw kz fz False" unfolding blk_gr g2 using k by simp
    show ?thesis unfolding s'_def absorb_def Let_def v s1_def [symmetric] n s2_def [symmetric] c ..
  qed
  have g': "gr (kmem s') = (gr (kmem s))(b := (of_nat (16 * lp a 0 ys), hw (k + kn) False (lf False ys)), b + (k + kn) := (of_nat (16 * b), hw kz fz False))"
    unfolding e gr_set g2 using k by simp
  have H: "gr (kmem s') j \<noteq> gr (kmem s) j \<Longrightarrow> j \<in> Hdrs lay" for j
    using row_headers(1,2) [of lay a ys "[(k, False), (kn, True)]" zs, OF a'] unfolding g' b by (auto simp: add.assoc split: if_splits)
  then show "\<And>j. j \<notin> Hdrs lay \<Longrightarrow> gr (kmem s') j = gr (kmem s) j" by blast
  show "same_rest s s'" unfolding e s2_def s1_def by (simp add: same_rest_def set_size_def set_prev_def)
  have bl: "(b, k, False) \<in> Blks lay" "(b + k, kn, True) \<in> Blks lay" using row_headers(4) [of lay a ys "[(k, False), (kn, True)]" zs, OF a'] b by simp_all
  have "winv s' (lay(a \<mapsto> ys @ [(k + kn, False)] @ zs)) (q - {b + k})"
  proof (rule step_rows [OF w a' _ _ z])
    show "gr (kmem s') (Suc i) = gr (kmem s) (Suc i)" if "(i, k', True) \<in> Blks lay" for i k' by (rule header_no_link [OF w H that])
    show "((i, k', True) \<in> Blks lay - blks (a + ext ys) [(k, False), (kn, True)] \<union> blks (a + ext ys) [(k + kn, False)] \<and> i \<notin> q - {b + k}) = ((i, k', True) \<in> Blks lay \<and> i \<notin> q)" for i k'
      using Blks_unique [OF winvD(1) [OF w] bl(1), of k' True] Blks_unique [OF winvD(1) [OF w] bl(2), of k' True] b k by auto
  qed (use k b g' in \<open>auto simp: e s2_def s1_def add.assoc split: if_splits\<close>)
  then show "winv s' (lay(a \<mapsto> ys @ (k + kn, False) # zs)) (q - {b + k})" by simp
qed

text \<open>Cutting a used block in two used blocks; the writes may come in any order.\<close>

lemma step_split:
  assumes w: "winv s lay q" and a: "lay a = Some (ys @ (k1 + k2, False) # zs)" and b: "b = a + ext ys" and k: "2 \<le> k1" "2 \<le> k2"
    and pv: "fst (gr (kmem s) (b + k1 + k2)) = of_nat (16 * b) \<Longrightarrow> gr (kmem s') = (gr (kmem s))
      (b := (fst (gr (kmem s) b), hw k1 False (lf False ys)), b + k1 := (of_nat (16 * b), hw k2 False False), b + k1 + k2 := (of_nat (16 * (b + k1)), snd (gr (kmem s) (b + k1 + k2))))"
    and same: "blocks s' = blocks s" "sl_bitmap s' = sl_bitmap s" "fl_bitmap s' = fl_bitmap s"
  shows "winv s' (lay(a \<mapsto> ys @ (k1, False) # (k2, False) # zs)) q" "\<And>j. j \<notin> Hdrs lay \<Longrightarrow> j \<noteq> b + k1 \<Longrightarrow> gr (kmem s') j = gr (kmem s) j"
proof -
  obtain kz fz ws where z: "zs @ [(0, False)] = (kz, fz) # ws" using end_cases by blast
  have a': "lay a = Some (ys @ [(k1 + k2, False)] @ zs)" using a by simp
  note m = row_mem [OF w a' z, folded b(1)]
  have gb: "gr (kmem s) b = (of_nat (16 * lp a 0 ys), hw (k1 + k2) False (lf False ys))" "gr (kmem s) (b + (k1 + k2)) = (of_nat (16 * b), hw kz fz False)"
    using m(2,3) by simp_all
  have g': "gr (kmem s') = (gr (kmem s))(b := (of_nat (16 * lp a 0 ys), hw k1 False (lf False ys)), b + k1 := (of_nat (16 * b), hw k2 False False),
      b + (k1 + k2) := (of_nat (16 * (b + k1)), hw kz fz False))"
    using pv gb by (simp add: add.assoc)
  have H: "gr (kmem s') j \<noteq> gr (kmem s) j \<Longrightarrow> j \<in> Hdrs lay \<or> j = b + k1" for j
    using row_headers(1,2) [of lay a ys "[(k1 + k2, False)]" zs, OF a'] unfolding g' b by (auto simp: add.assoc split: if_splits)
  then show "\<And>j. j \<notin> Hdrs lay \<Longrightarrow> j \<noteq> b + k1 \<Longrightarrow> gr (kmem s') j = gr (kmem s) j" by blast
  have bl: "(b, k1 + k2, False) \<in> Blks lay" using row_headers(4) [of lay a ys "[(k1 + k2, False)]" zs, OF a'] b by simp
  have "winv s' (lay(a \<mapsto> ys @ [(k1, False), (k2, False)] @ zs)) q"
  proof (rule step_rows [OF w a' _ _ z])
    show "gr (kmem s') (Suc i) = gr (kmem s) (Suc i)" if "(i, k', True) \<in> Blks lay" for i k'
    proof -
      have "Suc i \<notin> Hdrs lay" by (rule link_no_header [OF winvD(1) [OF w] that])
      moreover have "Suc i \<noteq> b + k1"
        using inside_unique [OF winvD(1) [OF w] that bl, of "b + k1"] Blks_bounds(3) [OF winvD(1) [OF w] that] k by auto
      ultimately show ?thesis using H by blast
    qed
    show "((i, k', True) \<in> Blks lay - blks (a + ext ys) [(k1 + k2, False)] \<union> blks (a + ext ys) [(k1, False), (k2, False)] \<and> i \<notin> q) = ((i, k', True) \<in> Blks lay \<and> i \<notin> q)" for i k'
      by auto
    show "hd_seg (gr (kmem s')) (a + ext ys) (lp a 0 ys) (lf False ys) [(k1, False), (k2, False)]"
      unfolding g' b [symmetric] using k by (simp del: of_nat_mult of_nat_add)
    show "gr (kmem s') (a + ext ys + ext [(k1 + k2, False)]) =
        (of_nat (16 * lp (a + ext ys) (lp a 0 ys) [(k1, False), (k2, False)]), hw kz fz (lf (lf False ys) [(k1, False), (k2, False)]))"
      unfolding g' b [symmetric] using lp_simps(2) [of b "lp a 0 ys" "[(k1, False)]" "(k2, False)"] by (simp add: lf_def del: of_nat_mult of_nat_add)
  qed (use k b g' same in \<open>auto simp: add.assoc split: if_splits\<close>)
  then show "winv s' (lay(a \<mapsto> ys @ (k1, False) # (k2, False) # zs)) q" by simp
qed

end
