(* ===== verification/Kheap_Release.thy ===== *)
theory Kheap_Release
  imports Kheap_Step
begin

text \<open>
  \<open>block_release\<close> and \<open>block_trim_used\<close> of \<open>src/kernel/mm/kheap.c\<close> on layouts: a released block is joined with its free
  neighbours, no two free blocks are ever neighbours, and the data of the other used blocks is untouched.
\<close>

primrec apart :: "bool \<Rightarrow> row \<Rightarrow> bool" where
  "apart pf [] \<longleftrightarrow> True"
| "apart pf (b # xs) \<longleftrightarrow> \<not> (pf \<and> snd b) \<and> apart (snd b) xs"

lemma apart_append: "apart pf (xs @ ys) \<longleftrightarrow> apart pf xs \<and> apart (lf pf xs) ys"
  by (induction xs arbitrary: pf) (auto simp: lf_Cons)

definition Used :: "layout \<Rightarrow> (nat \<times> nat) set" where
  "Used lay = {(i, k). (i, k, False) \<in> Blks lay}"

lemma intr_Used: "intr lay = {j. \<exists>i k. (i, k) \<in> Used lay \<and> i < j \<and> j < i + k}"
  by (simp add: intr_def Used_def)

lemma Used_replace:
  assumes "geo lay" "lay a = Some (ys @ R @ zs)" "ext N = ext R"
  shows "Used (lay(a \<mapsto> ys @ N @ zs)) =
    Used lay - {(i, k). (i, k, False) \<in> blks (a + ext ys) R} \<union> {(i, k). (i, k, False) \<in> blks (a + ext ys) N}"
  unfolding Used_def Blks_replace [OF assms] by auto

lemma keeps_headers: "winv s lay q \<Longrightarrow> (\<And>j. j \<notin> Hdrs lay \<Longrightarrow> gr (kmem s') j = gr (kmem s) j) \<Longrightarrow> keeps s s' (intr lay)"
  unfolding keeps_def using intr_no_header winvD(1) by blast

lemma keeps_links:
  "winv s lay q \<Longrightarrow> (\<And>j. j \<notin> Suc ` {i. \<exists>k. (i, k, True) \<in> Blks lay} \<Longrightarrow> gr (kmem s') j = gr (kmem s) j) \<Longrightarrow> keeps s s' (intr lay)"
  unfolding keeps_def
proof
  fix j assume w: "winv s lay q" and h: "\<And>j. j \<notin> Suc ` {i. \<exists>k. (i, k, True) \<in> Blks lay} \<Longrightarrow> gr (kmem s') j = gr (kmem s) j" and j: "j \<in> intr lay"
  have "j \<notin> Suc ` {i. \<exists>k. (i, k, True) \<in> Blks lay}" using j intr_no_link [OF winvD(1) [OF w]] by auto
  then show "gr (kmem s') j = gr (kmem s) j" by (rule h)
qed

section \<open>Release\<close>

definition join_next :: "nat \<Rightarrow> row \<Rightarrow> nat \<times> row" where
  "join_next k zs = (case zs of (kn, True) # zs' \<Rightarrow> (k + kn, zs') | _ \<Rightarrow> (k, zs))"

definition release_next :: "nat \<Rightarrow> nat \<Rightarrow> kheap \<Rightarrow> kheap" where
  "release_next b n s =
     (if blk_size (kmem s) n AND HEAP_FREE \<noteq> 0 \<and> block_total (kmem s) n \<noteq> 0 then merge_free b n (freelist_remove n s) else s)"

definition release_prev :: "nat \<Rightarrow> kheap \<Rightarrow> kheap \<times> nat" where
  "release_prev b s =
     (if blk_size (kmem s) b AND HEAP_PREV_FREE \<noteq> 0 then (merge_free (blk_prev (kmem s) b) b (freelist_remove (blk_prev (kmem s) b) s), blk_prev (kmem s) b)
      else (s, b))"

text \<open>What a step of a release keeps: the invariant with one free block in hand, all used blocks, and their data.\<close>

definition rel_step :: "kheap \<Rightarrow> layout \<Rightarrow> kheap \<Rightarrow> layout \<Rightarrow> nat set \<Rightarrow> bool" where
  "rel_step s lay s' lay' q \<longleftrightarrow> winv s' lay' q \<and> same_rest s s' \<and> Used lay' = Used lay \<and> keeps s s' (intr lay)"

lemma rel_step_trans:
  assumes "rel_step s lay s' lay' q" "rel_step s' lay' s'' lay'' q'"
  shows "rel_step s lay s'' lay'' q'"
proof -
  have "intr lay' = intr lay" using assms(1) unfolding rel_step_def intr_Used by simp
  then have "keeps s s'' (intr lay)" using assms keeps_trans [of s s' "intr lay" s'' "intr lay'" "intr lay"] unfolding rel_step_def by simp
  then show ?thesis using assms same_rest_trans [of s s' s''] unfolding rel_step_def by simp
qed

lemma rel_remove: "winv s lay q \<Longrightarrow> (n, k, True) \<in> Blks lay \<Longrightarrow> n \<notin> q \<Longrightarrow> rel_step s lay (freelist_remove (16 * n) s) lay (insert n q)"
  unfolding rel_step_def using step_remove [of s lay q n k] keeps_links [of s lay q] by blast

lemma rel_push: "winv s lay q \<Longrightarrow> (n, k, True) \<in> Blks lay \<Longrightarrow> n \<in> q \<Longrightarrow> rel_step s lay (freelist_push (16 * n) s) lay (q - {n})"
  unfolding rel_step_def using step_push [of s lay q n k] keeps_links [of s lay q] by blast

lemma rel_merge:
  assumes "winv s lay q" "lay a = Some (ys @ (k, True) # (kn, True) # zs)" "b = a + ext ys" "b \<in> q" "b + k \<in> q"
  shows "rel_step s lay (merge_free (16 * b) (16 * (b + k)) s) (lay(a \<mapsto> ys @ (k + kn, True) # zs)) (q - {b + k})"
proof -
  have "Used (lay(a \<mapsto> ys @ [(k + kn, True)] @ zs)) = Used lay"
    using assms(2) by (subst Used_replace [OF winvD(1) [OF assms(1)], of a ys "[(k, True), (kn, True)]" zs]) auto
  then show ?thesis unfolding rel_step_def using step_merge [OF assms] keeps_headers [OF assms(1)] by auto
qed

lemma Blks_mid: "lay a = Some (ys @ (k, f) # zs) \<Longrightarrow> (a + ext ys, k, f) \<in> Blks lay"
  by (rule BlksI [of lay a "ys @ (k, f) # zs"]) (simp_all add: blks_append)

lemma upd_again: "lay(a \<mapsto> x, a \<mapsto> y) = lay(a \<mapsto> y)" for lay :: layout
  by simp

lemma release_next_ok:
  assumes w: "winv s lay {b}" and a: "lay a = Some (ys @ (k, True) # zs)" and b: "b = a + ext ys"
  defines "J \<equiv> join_next k zs"
  shows "rel_step s lay (release_next (16 * b) (16 * (b + k)) s) (lay(a \<mapsto> ys @ (fst J, True) # snd J)) {b}"
proof -
  obtain kz fz ws where z: "zs @ [(0, False)] = (kz, fz) # ws" using end_cases by blast
  note m = row_mem(3) [OF w, of a ys "[(k, True)]" zs, OF _ z, folded b]
  have n: "snd (gr (kmem s) (b + k)) = hw kz fz True" using m a by simp
  have sz: "sized zs" "2 \<le> k" using geoD(4) [OF winvD(1) [OF w] a] by simp_all
  have id: "lay = lay(a \<mapsto> ys @ (k, True) # zs)" using a by auto
  show ?thesis
  proof (cases fz)
    case True
    then obtain zs' where zs: "zs = (kz, True) # zs'" using z by (cases zs) auto
    have kz: "2 \<le> kz" using sz zs by simp
    have a2: "lay a = Some ((ys @ [(k, True)]) @ (kz, True) # zs')" using a zs by simp
    have bn: "(b + k, kz, True) \<in> Blks lay" using Blks_mid [of lay a "ys @ [(k, True)]" kz True zs', OF a2] b by (simp add: add.assoc)
    have kz60: "kz < 2 ^ 60" using Blks_bounds(4) [OF winvD(1) [OF w] bn] by simp
    have "unat (of_nat (16 * kz) :: u64) \<noteq> 0" unfolding unat_granules [OF kz60] using kz by simp
    then have t: "block_total (kmem s) (16 * (b + k)) \<noteq> 0" unfolding total_hw [OF n] by (metis unat_0)
    have e: "release_next (16 * b) (16 * (b + k)) s = merge_free (16 * b) (16 * (b + k)) (freelist_remove (16 * (b + k)) s)"
      unfolding release_next_def blk_gr n hw_bits using t True by (simp only: if_True) simp
    have "b + k \<notin> {b}" using sz by simp
    note r = rel_remove [OF w bn this]
    then have w2: "winv (freelist_remove (16 * (b + k)) s) lay {b + k, b}" unfolding rel_step_def by simp
    have a3: "lay a = Some (ys @ (k, True) # (kz, True) # zs')" using a zs by simp
    have "rel_step s lay (release_next (16 * b) (16 * (b + k)) s) (lay(a \<mapsto> ys @ (k + kz, True) # zs')) ({b + k, b} - {b + k})"
      unfolding e by (rule rel_step_trans [OF r rel_merge [OF w2 a3 b]]) simp_all
    moreover have "{b + k, b} - {b + k} = {b}" using sz by auto
    ultimately show ?thesis unfolding J_def join_next_def zs by simp
  next
    case False
    then have "release_next (16 * b) (16 * (b + k)) s = s" unfolding release_next_def blk_gr n hw_bits by simp
    moreover have "J = (k, zs)" unfolding J_def join_next_def using z False by (cases zs) (auto split: bool.splits)
    ultimately show ?thesis using w id unfolding rel_step_def keeps_def by simp
  qed
qed

definition join_prev :: "row \<Rightarrow> nat \<Rightarrow> row \<times> nat" where
  "join_prev ys k = (if ys \<noteq> [] \<and> snd (last ys) then (butlast ys, fst (last ys) + k) else (ys, k))"

lemma release_prev_ok:
  assumes w: "winv s lay {b}" and a: "lay a = Some (ys @ (k, True) # zs)" and b: "b = a + ext ys"
  defines "J \<equiv> join_prev ys k"
  shows "\<exists>s'. release_prev (16 * b) s = (s', 16 * (a + ext (fst J))) \<and> rel_step s lay s' (lay(a \<mapsto> fst J @ (snd J, True) # zs)) {a + ext (fst J)}"
proof -
  obtain kz fz ws where z: "zs @ [(0, False)] = (kz, fz) # ws" using end_cases by blast
  note m = row_mem(2) [OF w, of a ys "[(k, True)]" zs, OF _ z, folded b]
  have n: "gr (kmem s) b = (of_nat (16 * lp a 0 ys), hw k True (lf False ys))" using m a by simp
  have id: "lay = lay(a \<mapsto> ys @ (k, True) # zs)" using a by auto
  show ?thesis
  proof (cases "ys \<noteq> [] \<and> snd (last ys)")
    case True
    then obtain ys' kp where ys: "ys = ys' @ [(kp, True)]" by (cases ys rule: rev_cases) auto
    define p where "p = a + ext ys'"
    have bp: "b = p + kp" using b unfolding ys p_def by simp
    have a2: "lay a = Some (ys' @ (kp, True) # (k, True) # zs)" using a ys by simp
    have pl: "(p, kp, True) \<in> Blks lay" unfolding p_def by (rule Blks_mid [of lay a ys' kp True "(k, True) # zs", OF a2])
    note pb = Blks_bounds [OF winvD(1) [OF w] pl]
    have p60: "p < 2 ^ 60" using pb by simp
    have pv: "blk_prev (kmem s) (16 * b) = 16 * p" unfolding blk_gr n ys fst_conv lp_simps p_def [symmetric] by (rule unat_granules [OF p60])
    have e: "release_prev (16 * b) s = (merge_free (16 * p) (16 * (p + kp)) (freelist_remove (16 * p) s), 16 * p)"
    proof -
      have "blk_size (kmem s) (16 * b) AND HEAP_PREV_FREE \<noteq> 0" unfolding blk_gr n snd_conv hw_bits ys lf_simps by simp
      then show ?thesis unfolding release_prev_def pv bp [symmetric] by (simp only: if_True not_False_eq_True)
    qed
    have "p \<notin> {b}" using bp pb by simp
    note r = rel_remove [OF w pl this]
    then have w2: "winv (freelist_remove (16 * p) s) lay {p, b}" unfolding rel_step_def by simp
    have "rel_step s lay (merge_free (16 * p) (16 * (p + kp)) (freelist_remove (16 * p) s)) (lay(a \<mapsto> ys' @ (kp + k, True) # zs)) ({p, b} - {p + kp})"
      by (rule rel_step_trans [OF r rel_merge [OF w2 a2 p_def]]) (simp_all add: bp)
    moreover have "{p, b} - {p + kp} = {p}" using bp pb by auto
    ultimately show ?thesis unfolding J_def join_prev_def ys using e by (simp add: p_def)
  next
    case False
    then have "\<not> lf False ys" unfolding lf_def by auto
    then have "release_prev (16 * b) s = (s, 16 * b)" unfolding release_prev_def using n by (simp add: blk_gr(2))
    moreover have "J = (ys, k)" unfolding J_def join_prev_def using False by auto
    ultimately show ?thesis using w id b unfolding rel_step_def keeps_def by simp
  qed
qed

lemma block_release_alt:
  assumes "snd (gr (kmem s) b) = hw k f pf" "k < 2 ^ 60" "0 < k"
  shows "block_release (16 * b) s = (let (s, b) = release_prev (16 * b) (release_next (16 * b) (16 * (b + k)) (mark_free b (b + k) s)) in freelist_push b s)"
proof -
  have "snd (gr (kmem (set_size (16 * b) (blk_size (kmem s) (16 * b) OR HEAP_FREE) s)) b) = hw k True pf" using assms(1) by (simp add: gr_set blk_gr)
  then have "block_next (kmem (set_size (16 * b) (blk_size (kmem s) (16 * b) OR HEAP_FREE) s)) (16 * b) = 16 * (b + k)" by (rule next_gr [OF _ assms(2)])
  note n = this
  show ?thesis unfolding block_release_def mark_free_def release_next_def release_prev_def merge_free_def Let_def n by (rule refl)
qed

text \<open>The row after the release of a block of \<open>k\<close> granules between \<open>ys\<close> and \<open>zs\<close>.\<close>

definition released :: "row \<Rightarrow> nat \<Rightarrow> row \<Rightarrow> row" where
  "released ys k zs = (let (k, zs) = join_next k zs; (ys, k) = join_prev ys k in ys @ (k, True) # zs)"

lemma released_props:
  assumes "apart False (ys @ (k, False) # zs)"
  shows "apart False (released ys k zs)" "ext (released ys k zs) = ext (ys @ (k, False) # zs)"
proof -
  have y: "apart False ys" "apart False zs" using assms by (simp_all add: apart_append)
  obtain k' zs' where j: "join_next k zs = (k', zs')" by (cases "join_next k zs")
  then have z: "apart True zs'" "k' + ext zs' = k + ext zs" using y(2) unfolding join_next_def by (auto split: list.splits bool.splits)
  have "apart False (fst (join_prev ys k') @ (snd (join_prev ys k'), True) # zs')" "ext (fst (join_prev ys k')) + snd (join_prev ys k') = ext ys + k'"
    using y z by (cases ys rule: rev_cases; auto simp: join_prev_def apart_append)+
  then show "apart False (released ys k zs)" "ext (released ys k zs) = ext (ys @ (k, False) # zs)"
    using z(2) unfolding released_def j by (simp_all add: split_beta)
qed

lemma release_ok:
  assumes w: "winv s lay {}" and a: "lay a = Some (ys @ (k, False) # zs)" and b: "b = a + ext ys"
  defines "s' \<equiv> block_release (16 * b) s" and "lay' \<equiv> lay(a \<mapsto> released ys k zs)"
  shows "winv s' lay' {}" "same_rest s s'" "Used lay' = Used lay - {(b, k)}" "keeps s s' (intr lay')"
proof -
  have bl: "(b, k, False) \<in> Blks lay" using Blks_mid [of lay a ys k False zs, OF a] b by simp
  note bb = Blks_bounds [OF winvD(1) [OF w] bl]
  have k60: "k < 2 ^ 60" "0 < k" using bb by simp_all
  obtain kz fz ws where z: "zs @ [(0, False)] = (kz, fz) # ws" using end_cases by blast
  have hb: "snd (gr (kmem s) b) = hw k False (lf False ys)" using row_mem(2) [OF w, of a ys "[(k, False)]" zs, OF _ z, folded b] a by simp
  define s0 where "s0 = mark_free b (b + k) s"
  define lay0 where "lay0 = lay(a \<mapsto> ys @ (k, True) # zs)"
  note mf = step_mark_free [OF w a b, folded s0_def lay0_def]
  have U0: "Used lay0 = Used lay - {(b, k)}"
    using Used_replace [OF winvD(1) [OF w], of a ys "[(k, False)]" zs "[(k, True)]"] a b unfolding lay0_def by auto
  have k0: "keeps s s0 (intr lay)" by (rule keeps_headers [OF w mf(3)])
  have a0: "lay0 a = Some (ys @ (k, True) # zs)" unfolding lay0_def by simp
  obtain k1 zs1 where j: "join_next k zs = (k1, zs1)" by (cases "join_next k zs")
  define s1 where "s1 = release_next (16 * b) (16 * (b + k)) s0"
  define lay1 where "lay1 = lay(a \<mapsto> ys @ (k1, True) # zs1)"
  have r1: "rel_step s0 lay0 s1 lay1 {b}" using release_next_ok [OF mf(1) a0 b] unfolding j fst_conv snd_conv s1_def [symmetric] lay0_def upd_again lay1_def [symmetric] .
  have w1: "winv s1 lay1 {b}" using r1 unfolding rel_step_def by blast
  have a1: "lay1 a = Some (ys @ (k1, True) # zs1)" unfolding lay1_def by simp
  obtain ys2 k2 where jp: "join_prev ys k1 = (ys2, k2)" by (cases "join_prev ys k1")
  obtain s2 where e2: "release_prev (16 * b) s1 = (s2, 16 * (a + ext ys2))" and r2: "rel_step s1 lay1 s2 (lay1(a \<mapsto> ys2 @ (k2, True) # zs1)) {a + ext ys2}"
    using release_prev_ok [OF w1 a1 b] unfolding jp by auto
  have l2: "lay1(a \<mapsto> ys2 @ (k2, True) # zs1) = lay'" unfolding lay1_def lay'_def released_def j by (simp add: jp)
  have a2: "lay' a = Some (ys2 @ (k2, True) # zs1)" unfolding l2 [symmetric] by simp
  have e: "s' = freelist_push (16 * (a + ext ys2)) s2"
    unfolding s'_def block_release_alt [OF hb k60] s0_def [symmetric] s1_def [symmetric] e2 Let_def prod.case ..
  have w2: "winv s2 lay' {a + ext ys2}" using r2 unfolding l2 rel_step_def by blast
  have "rel_step s2 lay' s' lay' ({a + ext ys2} - {a + ext ys2})" unfolding e by (rule rel_push [OF w2 Blks_mid [of lay' a ys2 k2 True zs1, OF a2]]) simp
  then have r: "rel_step s0 lay0 s' lay' {}" using rel_step_trans [OF r1 rel_step_trans [OF r2 [unfolded l2]]] by simp
  then show "winv s' lay' {}" unfolding rel_step_def by blast
  show "same_rest s s'" using mf(2) r unfolding rel_step_def by (blast intro: same_rest_trans)
  show U: "Used lay' = Used lay - {(b, k)}" using r U0 unfolding rel_step_def by blast
  have "intr lay' = intr lay0" "intr lay0 \<subseteq> intr lay" using r U0 unfolding rel_step_def intr_Used by auto
  then show "keeps s s' (intr lay')" using keeps_trans [OF k0, of s' "intr lay0" "intr lay'"] r unfolding rel_step_def by blast
qed

end
