(* ===== verification/Kheap_Alloc.thy ===== *)
theory Kheap_Alloc
  imports Kheap_Release
begin

text \<open>
  Allocation of \<open>src/kernel/mm/kheap.c\<close> on layouts: cutting, taking a block from the lists, adding an area, and the loop that
  grows the heap. A failed allocation leaves the heap as it was.
\<close>

section \<open>The invariant\<close>

definition areas_ok :: "kheap \<Rightarrow> layout \<Rightarrow> bool" where
  "areas_ok s lay \<longleftrightarrow> (\<exists>as. distinct as \<and> set as = dom lay \<and>
     kheap_areas s = map (\<lambda>a. \<lparr>area_mem = 16 * a, area_bytes = of_nat (16 * (ext (the (lay a)) + 1))\<rparr>) as)"

definition heap_inv :: "kheap \<Rightarrow> layout \<Rightarrow> bool" where
  "heap_inv s lay \<longleftrightarrow> winv s lay {} \<and> (\<forall>a xs. lay a = Some xs \<longrightarrow> apart False xs) \<and> areas_ok s lay"

lemma heap_invD:
  "heap_inv s lay \<Longrightarrow> winv s lay {}" "heap_inv s lay \<Longrightarrow> lay a = Some xs \<Longrightarrow> apart False xs" "heap_inv s lay \<Longrightarrow> areas_ok s lay" "heap_inv s lay \<Longrightarrow> geo lay"
  unfolding heap_inv_def winv_def by blast+

lemma heap_inv_upd:
  assumes "heap_inv s lay" "lay a = Some xs" "winv s' (lay(a \<mapsto> xs')) {}" "apart False xs'" "ext xs' = ext xs" "same_rest s s'"
  shows "heap_inv s' (lay(a \<mapsto> xs'))"
proof -
  obtain as where as: "distinct as" "set as = dom lay"
    "kheap_areas s = map (\<lambda>a. \<lparr>area_mem = 16 * a, area_bytes = of_nat (16 * (ext (the (lay a)) + 1))\<rparr>) as"
    using heap_invD(3) [OF assms(1)] unfolding areas_ok_def by blast
  have "map (\<lambda>a. \<lparr>area_mem = 16 * a, area_bytes = of_nat (16 * (ext (the (lay a)) + 1)) :: u64\<rparr>) as =
      map (\<lambda>b. \<lparr>area_mem = 16 * b, area_bytes = of_nat (16 * (ext (the ((lay(a \<mapsto> xs')) b)) + 1))\<rparr>) as"
    using assms(2,5) by (intro map_cong) auto
  moreover have "set as = dom (lay(a \<mapsto> xs'))" using as(2) assms(2) by auto
  ultimately have "areas_ok s' (lay(a \<mapsto> xs'))"
    using as assms(6) unfolding areas_ok_def same_rest_def by (intro exI [of _ as]) simp
  moreover have "\<forall>a' ys. (lay(a \<mapsto> xs')) a' = Some ys \<longrightarrow> apart False ys" using heap_invD(2) [OF assms(1)] assms(4) by auto
  ultimately show ?thesis using assms(3) unfolding heap_inv_def by blast
qed

lemma heap_block:
  assumes "heap_inv s lay" "(b, k, f) \<in> Blks lay"
  obtains a ys zs where "lay a = Some (ys @ (k, f) # zs)" "b = a + ext ys"
proof -
  obtain a xs where "lay a = Some xs" "(b, k, f) \<in> blks a xs" using assms(2) unfolding Blks_def by blast
  then show ?thesis using that blks_split by metis
qed

lemma release_inv:
  assumes h: "heap_inv s lay" and b: "(b, k) \<in> Used lay"
  shows "\<exists>lay'. heap_inv (block_release (16 * b) s) lay' \<and> same_rest s (block_release (16 * b) s) \<and> Used lay' = Used lay - {(b, k)} \<and>
    keeps s (block_release (16 * b) s) (intr lay')"
proof -
  have "(b, k, False) \<in> Blks lay" using b unfolding Used_def by simp
  then obtain a ys zs where a: "lay a = Some (ys @ (k, False) # zs)" "b = a + ext ys" using heap_block [OF h] by blast
  note r = release_ok [OF heap_invD(1) [OF h] a]
  note p = released_props [OF heap_invD(2) [OF h a(1)]]
  show ?thesis using heap_inv_upd [OF h a(1) r(1) p r(2)] r(2-4) by blast
qed

section \<open>Cutting\<close>

lemma granules_less: "a < 2 ^ 60 \<Longrightarrow> b < 2 ^ 60 \<Longrightarrow> (of_nat (16 * a) :: u64) < of_nat (16 * b) \<longleftrightarrow> a < b"
  using granules_le [of b a] by (simp add: not_le [symmetric])

lemma hdr_word: "HEAP_HDR + of_nat (16 * r) = of_nat (16 * (r + 1))" "of_nat (16 * r) + HEAP_HDR = of_nat (16 * (r + 1))"
  by (simp_all add: HEAP_HDR_def)

lemma sub_granules: "b \<le> a \<Longrightarrow> (of_nat (16 * a) :: u64) - of_nat (16 * b) = of_nat (16 * (a - b))"
  by (simp add: of_nat_diff right_diff_distrib)

text \<open>Splitting a used block: both operations that do it write the same headers.\<close>

lemma split_inv:
  assumes h: "heap_inv s lay" and b: "(b, k1 + k2) \<in> Used lay" and k: "2 \<le> k1" "2 \<le> k2"
    and g: "\<And>pf. snd (gr (kmem s) b) = hw (k1 + k2) False pf \<Longrightarrow> gr (kmem s') = (gr (kmem s))
      (b := (fst (gr (kmem s) b), hw k1 False pf), b + k1 := (of_nat (16 * b), hw k2 False False),
       b + k1 + k2 := (of_nat (16 * (b + k1)), snd (gr (kmem s) (b + k1 + k2))))"
    and same: "blocks s' = blocks s" "sl_bitmap s' = sl_bitmap s" "fl_bitmap s' = fl_bitmap s" "same_rest s s'"
  shows "\<exists>lay'. heap_inv s' lay' \<and> Used lay' = Used lay - {(b, k1 + k2)} \<union> {(b, k1), (b + k1, k2)} \<and> keeps s s' (intr lay')"
proof -
  have bl: "(b, k1 + k2, False) \<in> Blks lay" using b unfolding Used_def by simp
  then obtain a ys zs where a: "lay a = Some (ys @ (k1 + k2, False) # zs)" "b = a + ext ys" using heap_block [OF h] by blast
  note w = heap_invD(1) [OF h]
  obtain kz fz ws where z: "zs @ [(0, False)] = (kz, fz) # ws" using end_cases by blast
  have hb: "snd (gr (kmem s) b) = hw (k1 + k2) False (lf False ys)"
    using row_mem(2) [OF w, of a ys "[(k1 + k2, False)]" zs, OF _ z, folded a(2)] a(1) by simp
  define lay' where "lay' = lay(a \<mapsto> ys @ (k1, False) # (k2, False) # zs)"
  note st = step_split [OF w a k g [OF hb] same(1-3), folded lay'_def]
  have ap: "apart False (ys @ (k1, False) # (k2, False) # zs)" using heap_invD(2) [OF h a(1)] by (simp add: apart_append)
  have i: "heap_inv s' lay'" unfolding lay'_def by (rule heap_inv_upd [OF h a(1) st(1) [unfolded lay'_def] ap _ same(4)]) simp
  have U: "Used lay' = Used lay - {(b, k1 + k2)} \<union> {(b, k1), (b + k1, k2)}"
    using Used_replace [OF winvD(1) [OF w], of a ys "[(k1 + k2, False)]" zs "[(k1, False), (k2, False)]"] a unfolding lay'_def by auto
  have sub: "intr lay' \<subseteq> intr lay" unfolding intr_Used U using b k by fastforce
  have "(b + k1, k2, False) \<in> Blks lay'" using U unfolding Used_def by auto
  then have "b + k1 \<notin> intr lay'" using intr_no_header [OF heap_invD(4) [OF i], of "b + k1"] unfolding Hdrs_def by force
  then have "keeps s s' (intr lay')" unfolding keeps_def using st(2) intr_no_header [OF winvD(1) [OF w]] sub by (metis subsetD)
  then show ?thesis using i U by blast
qed

lemma used_bounds: "heap_inv s lay \<Longrightarrow> (b, k) \<in> Used lay \<Longrightarrow> 0 < b \<and> b + k < 2 ^ 60 \<and> 2 \<le> k \<and> k < 2 ^ 20"
  using Blks_bounds [of lay b k False] heap_invD(4) unfolding Used_def by blast

lemma used_header: "heap_inv s lay \<Longrightarrow> (b, k) \<in> Used lay \<Longrightarrow> \<exists>pf. snd (gr (kmem s) b) = hw k False pf"
proof -
  assume h: "heap_inv s lay" and b: "(b, k) \<in> Used lay"
  then have "(b, k, False) \<in> Blks lay" unfolding Used_def by simp
  then obtain a ys zs where a: "lay a = Some (ys @ (k, False) # zs)" "b = a + ext ys" using heap_block [OF h] by blast
  obtain kz fz ws where z: "zs @ [(0, False)] = (kz, fz) # ws" using end_cases by blast
  show ?thesis using row_mem(2) [OF heap_invD(1) [OF h], of a ys "[(k, False)]" zs, OF _ z, folded a(2)] a(1) by auto
qed

text \<open>\<open>block_trim_used\<close>: the block keeps what it needs, with at most two granules of waste.\<close>

definition trimmed :: "nat \<Rightarrow> nat \<Rightarrow> nat" where
  "trimmed k r = (if k < r + 3 then k else r + 1)"

lemma trim_inv:
  assumes h: "heap_inv s lay" and b: "(b, k) \<in> Used lay" and r: "1 \<le> r" "r < 2 ^ 59"
  defines "s' \<equiv> block_trim_used (16 * b) (of_nat (16 * r)) s"
  shows "\<exists>lay'. heap_inv s' lay' \<and> same_rest s s' \<and> Used lay' = Used lay - {(b, k)} \<union> {(b, trimmed k r)} \<and> keeps s s' (intr lay')"
proof -
  obtain pf where hb: "snd (gr (kmem s) b) = hw k False pf" using used_header [OF h b] by blast
  note bb = used_bounds [OF h b]
  have mb: "HEAP_HDR + of_nat (16 * r) + HEAP_MIN_BLOCK = of_nat (16 * (r + 3))" by (simp add: HEAP_HDR_def HEAP_MIN_BLOCK_def)
  have c: "block_total (kmem s) (16 * b) < HEAP_HDR + of_nat (16 * r) + HEAP_MIN_BLOCK \<longleftrightarrow> k < r + 3"
    unfolding total_hw [OF hb] mb using bb r by (intro granules_less) simp_all
  show ?thesis
  proof (cases "k < r + 3")
    case True
    then have "s' = s" unfolding s'_def block_trim_used_def using c by simp
    moreover have "Used lay = Used lay - {(b, k)} \<union> {(b, trimmed k r)}" using b True by (auto simp: trimmed_def)
    ultimately show ?thesis using h by (intro exI [of _ lay]) (simp add: keeps_def)
  next
    case False
    define k1 where "k1 = r + 1"
    define k2 where "k2 = k - k1"
    have k: "k = k1 + k2" "2 \<le> k1" "2 \<le> k2" "k2 < 2 ^ 60" using False r bb unfolding k1_def k2_def by (simp_all, linarith)
    have t: "16 * b + unat HEAP_HDR + unat (of_nat (16 * r) :: u64) = 16 * (b + k1)"
      unfolding hdr16 k1_def using unat_granules [of r] r by simp
    define s1 where "s1 = set_size (16 * (b + k1)) (of_nat (16 * k2)) s"
    define s2 where "s2 = set_prev (16 * (b + k1)) (16 * b) s1"
    define s3 where "s3 = set_size (16 * b) (hw k1 False pf) s2"
    define s4 where "s4 = set_prev (16 * (b + k1 + k2)) (16 * (b + k1)) s3"
    have v1: "block_total (kmem s) (16 * b) - HEAP_HDR - of_nat (16 * r) = of_nat (16 * k2)"
      unfolding total_hw [OF hb] diff_diff_eq hdr_word k1_def [symmetric] using k(1) sub_granules [of k1 k] by simp
    have hb2: "snd (gr (kmem s2) b) = hw k False pf" unfolding s2_def s1_def gr_set using hb k(2) by simp
    have v2: "(HEAP_HDR + of_nat (16 * r)) OR (blk_size (kmem s2) (16 * b) AND HEAP_PREV_FREE) = hw k1 False pf"
      unfolding hdr_word k1_def [symmetric] blk_gr hb2 hw_bits by (rule hw_used)
    have n: "block_next (kmem s3) (16 * (b + k1)) = 16 * (b + k1 + k2)"
    proof (rule next_gr [OF _ k(4)])
      show "snd (gr (kmem s3) (b + k1)) = hw k2 False False" unfolding s3_def s2_def s1_def gr_set hw_plain using k(2) by simp
    qed
    have e: "s' = block_release (16 * (b + k1)) s4"
      unfolding s'_def block_trim_used_def t Let_def v1 s1_def [symmetric] s2_def [symmetric] v2 s3_def [symmetric] n s4_def [symmetric]
      using c False by simp
    have lists: "blocks s4 = blocks s" "sl_bitmap s4 = sl_bitmap s" "fl_bitmap s4 = fl_bitmap s" unfolding s4_def s3_def s2_def s1_def by simp_all
    have sr: "same_rest s s4" unfolding s4_def s3_def s2_def s1_def by (simp add: same_rest_def set_size_def set_prev_def)
    have g: "gr (kmem s4) = (gr (kmem s))(b := (fst (gr (kmem s) b), hw k1 False pf'), b + k1 := (of_nat (16 * b), hw k2 False False),
        b + k1 + k2 := (of_nat (16 * (b + k1)), snd (gr (kmem s) (b + k1 + k2))))" if "snd (gr (kmem s) b) = hw (k1 + k2) False pf'" for pf'
    proof -
      have "(hw k False pf AND HEAP_PREV_FREE) = (hw k False pf' AND HEAP_PREV_FREE)" using that hb k(1) by simp
      then have "pf' = pf" by (cases pf; cases pf') simp_all
      then show ?thesis unfolding s4_def s3_def s2_def s1_def gr_set using k(2,3) by (auto simp: fun_eq_iff hw_plain simp del: of_nat_mult)
    qed
    obtain lay1 where l1: "heap_inv s4 lay1" "Used lay1 = Used lay - {(b, k1 + k2)} \<union> {(b, k1), (b + k1, k2)}" "keeps s s4 (intr lay1)"
      using split_inv [OF h b [unfolded k(1)] k(2,3) g lists sr] by blast
    have "(b + k1, k2) \<in> Used lay1" unfolding l1(2) by simp
    then obtain lay' where l2: "heap_inv s' lay'" "same_rest s4 s'" "Used lay' = Used lay1 - {(b + k1, k2)}" "keeps s4 s' (intr lay')"
      using release_inv [OF l1(1)] unfolding e by blast
    have nb: "(b + k1, k2) \<notin> Used lay" using inside_no_header [OF heap_invD(4) [OF h], of b k False "b + k1"] b k unfolding Used_def Hdrs_def by force
    have "Used lay' = Used lay - {(b, k)} \<union> {(b, trimmed k r)}"
      unfolding l2(3) l1(2) using False nb k(1-3) by (auto simp: trimmed_def k1_def)
    moreover have "keeps s s' (intr lay')" by (rule keeps_trans [OF l1(3) l2(4)]) (auto simp: intr_Used l2(3))
    ultimately show ?thesis using l2(1) same_rest_trans [OF sr l2(2)] by blast
  qed
qed

section \<open>Taking a block\<close>

lemma free_block_used:
  assumes h: "heap_inv s lay" and i: "(i, k, True) \<in> Blks lay"
  defines "s' \<equiv> mark_used i (i + k) (freelist_remove (16 * i) s)"
  shows "\<exists>lay'. heap_inv s' lay' \<and> same_rest s s' \<and> Used lay' = insert (i, k) (Used lay) \<and> keeps s s' (intr lay)"
proof -
  obtain a ys zs where a: "lay a = Some (ys @ (k, True) # zs)" "i = a + ext ys" using heap_block [OF h i] by blast
  note w = heap_invD(1) [OF h]
  have r: "rel_step s lay (freelist_remove (16 * i) s) lay {i}" using rel_remove [OF w i] by simp
  then have w1: "winv (freelist_remove (16 * i) s) lay {i}" unfolding rel_step_def by blast
  define lay' where "lay' = lay(a \<mapsto> ys @ (k, False) # zs)"
  note m = step_mark_used [OF w1 a, simplified, folded s'_def lay'_def]
  have sr: "same_rest s s'" using r m(2) same_rest_trans unfolding rel_step_def by blast
  have "apart False zs" using heap_invD(2) [OF h a(1)] by (cases zs) (auto simp: apart_append)
  then have ap: "apart False (ys @ (k, False) # zs)" using heap_invD(2) [OF h a(1)] by (simp add: apart_append)
  have "heap_inv s' lay'" unfolding lay'_def by (rule heap_inv_upd [OF h a(1) m(1) [unfolded lay'_def] ap _ sr]) simp
  moreover have "Used lay' = insert (i, k) (Used lay)"
    using Used_replace [OF winvD(1) [OF w], of a ys "[(k, True)]" zs "[(k, False)]"] a unfolding lay'_def by auto
  moreover have "keeps s s' (intr lay)"
    using keeps_trans [of s _ "intr lay" s' "intr lay" "intr lay"] keeps_headers [OF w1 m(3)] r unfolding rel_step_def by blast
  ultimately show ?thesis using sr by blast
qed

text \<open>What an allocation promises: a new used block of the wanted size and all others with their data, or nothing changed.\<close>

definition alloc_ok :: "kheap \<Rightarrow> layout \<Rightarrow> nat \<Rightarrow> kheap \<Rightarrow> nat \<Rightarrow> bool" where
  "alloc_ok s lay r s' p \<longleftrightarrow>
     (\<exists>lay' i k. p = 16 * (i + 1) \<and> heap_inv s' lay' \<and> (i, k) \<notin> Used lay \<and> Used lay' = insert (i, k) (Used lay) \<and> r + 1 \<le> k \<and> k \<le> r + 2 \<and>
        keeps s s' (intr lay) \<and> kheap_used_bytes s' = kheap_used_bytes s \<and> kheap_peak_bytes s' = kheap_peak_bytes s \<and> kheap_alloc_count s' = kheap_alloc_count s)"

lemma block_acquire_alt:
  "block_acquire (of_nat (16 * r)) s =
     (if r + 1 \<ge> 2 ^ 26 then Some (s, 0)
      else case list_take (fst (cls (r + 1))) (snd (cls (r + 1))) (of_nat (16 * (r + 1))) s of
        None \<Rightarrow> None
      | Some (s, None) \<Rightarrow> Some (s, 0)
      | Some (s, Some b) \<Rightarrow>
          let s = set_size b (blk_size (kmem s) b AND NOT HEAP_FREE) s;
              n = block_next (kmem s) b;
              s = set_size n (blk_size (kmem s) n AND NOT HEAP_PREV_FREE) s
          in Some (block_trim_used b (of_nat (16 * r)) s, block_user b))" if "r < 2 ^ 59"
proof -
  have m: "HEAP_MAX_BYTES = of_nat (16 * 2 ^ 26)" by (simp add: HEAP_MAX_BYTES_def)
  have "of_nat (16 * (r + 1)) \<ge> HEAP_MAX_BYTES \<longleftrightarrow> r + 1 \<ge> 2 ^ 26"
    unfolding m using that by (intro granules_le) simp_all
  then have "map_request (of_nat (16 * (r + 1))) = (if r + 1 \<ge> 2 ^ 26 then None else Some (cls (r + 1)))"
    unfolding map_request_def cls_def by (simp only:)
  then show ?thesis unfolding block_acquire_def hdr_word Let_def by (simp split: prod.split)
qed

lemma acquire_ok:
  assumes h: "heap_inv s lay" and r: "1 \<le> r" "r < 2 ^ 59"
  shows "\<exists>s' p. block_acquire (of_nat (16 * r)) s = Some (s', p) \<and>
    (p = 0 \<and> s' = s \<and> (r + 1 < 2 ^ 26 \<longrightarrow> (\<forall>i k. (i, k, True) \<in> Blks lay \<longrightarrow> k < r + 1)) \<or> p \<noteq> 0 \<and> alloc_ok s lay r s' p)"
proof (cases "r + 1 \<ge> 2 ^ 26")
  case True
  then show ?thesis unfolding block_acquire_alt [OF r(2)] by simp
next
  case False
  note w = heap_invD(1) [OF h]
  obtain FR FL where f: "fl_ok s FR FL" "\<And>i k. FR i = Some k \<longleftrightarrow> (i, k, True) \<in> Blks lay"
    using winvD(3) [OF w] unfolding free_ok_def by auto
  have fh: "free_hdr s FR" using free_ok_hdr [OF winvD(2) [OF w]] f(2) by blast
  obtain f0 l0 where c: "cls (r + 1) = (f0, l0)" by (cases "cls (r + 1)")
  have "take_result s FR (r + 1) (\<lambda>_. True) (list_take f0 l0 (of_nat (16 * (r + 1))) s)"
    using False by (intro list_take_ok [OF f(1) fh _ _ c]) simp_all
  then show ?thesis
  proof (cases rule: take_result_cases)
    case 1
    then show ?thesis unfolding block_acquire_alt [OF r(2)] using False c f(2) by simp
  next
    case (2 i k)
    have i: "(i, k, True) \<in> Blks lay" using 2(1) f(2) by blast
    define s1 where "s1 = mark_used i (i + k) (freelist_remove (16 * i) s)"
    obtain lay1 where l1: "heap_inv s1 lay1" "same_rest s s1" "Used lay1 = insert (i, k) (Used lay)" "keeps s s1 (intr lay)"
      using free_block_used [OF h i] unfolding s1_def by blast
    define s' where "s' = block_trim_used (16 * i) (of_nat (16 * r)) s1"
    have ik: "(i, k) \<in> Used lay1" unfolding l1(3) by simp
    obtain lay' where l2: "heap_inv s' lay'" "same_rest s1 s'" "Used lay' = Used lay1 - {(i, k)} \<union> {(i, trimmed k r)}" "keeps s1 s' (intr lay')"
      using trim_inv [OF l1(1) ik r] unfolding s'_def by blast
    have ni: "(i, k') \<notin> Used lay" for k' using Blks_unique [OF winvD(1) [OF w] i, of k' False] unfolding Used_def by auto
    have U: "Used lay' = insert (i, trimmed k r) (Used lay)" unfolding l2(3) l1(3) using ni by auto
    have kk: "keeps s s' (intr lay)" by (rule keeps_trans [OF l1(4) l2(4)]) (auto simp: intr_Used U)
    have sr: "same_rest s s'" by (rule same_rest_trans [OF l1(2) l2(2)])
    obtain pf where hb: "snd (gr (kmem (freelist_remove (16 * i) s)) i) = hw k True pf"
    proof -
      have w1: "winv (freelist_remove (16 * i) s) lay {i}" using rel_remove [OF w i] unfolding rel_step_def by simp
      obtain a ys zs where a: "lay a = Some (ys @ (k, True) # zs)" "i = a + ext ys" using heap_block [OF h i] by blast
      obtain kz fz ws where z: "zs @ [(0, False)] = (kz, fz) # ws" using end_cases by blast
      show ?thesis using that row_mem(2) [OF w1, of a ys "[(k, True)]" zs, OF _ z, folded a(2)] a(1) by auto
    qed
    have "k < 2 ^ 60" using Blks_bounds(4) [OF winvD(1) [OF w] i] by simp
    then have n: "block_next (kmem (set_size (16 * i) (blk_size (kmem (freelist_remove (16 * i) s)) (16 * i) AND NOT HEAP_FREE) (freelist_remove (16 * i) s))) (16 * i) = 16 * (i + k)"
      by (intro next_gr [where f = False and pf = pf]) (simp_all add: gr_set blk_gr hb)
    have e: "block_acquire (of_nat (16 * r)) s = Some (s', 16 * (i + 1))"
      unfolding block_acquire_alt [OF r(2)] c fst_conv snd_conv 2(3) option.case prod.case Let_def n
      using False by (simp add: s'_def s1_def mark_used_def Let_def block_user_def)
    have "r + 1 \<le> trimmed k r" "trimmed k r \<le> r + 2" using 2(2) by (simp_all add: trimmed_def)
    then have "alloc_ok s lay r s' (16 * (i + 1))"
      using l2(1) ni U kk sr unfolding alloc_ok_def same_rest_def by blast
    then show ?thesis using e by (intro exI [of _ s'] exI [of _ "16 * (i + 1)"]) simp
  qed
qed

end
