(* ===== verification/Kheap_Grow.thy ===== *)
theory Kheap_Grow
  imports Kheap_Alloc
begin

text \<open>
  New areas of the kernel heap of \<open>src/kernel/mm/kheap.c\<close>, and \<open>heap_alloc\<close> as a whole: it returns, it fails only for a reason,
  and then changes nothing; one new area is always enough, so the second round of its loop never runs.
\<close>

section \<open>A new area\<close>

text \<open>Pages from the page allocator: aligned, below the end of the address space, and outside of every area.\<close>

definition fresh_pages :: "kheap \<Rightarrow> nat \<Rightarrow> u64 \<Rightarrow> bool" where
  "fresh_pages s mem need \<longleftrightarrow>
     mem = 0 \<or>
     (let bytes = unat (kheap_pages need) * 4096
      in 4096 dvd mem \<and> mem + bytes < 2 ^ 64 \<and>
         (\<forall>a \<in> set (kheap_areas s). mem + bytes \<le> area_mem a \<or> area_mem a + unat (area_bytes a) \<le> mem))"

definition fresh_row :: "layout \<Rightarrow> nat \<Rightarrow> nat \<Rightarrow> bool" where
  "fresh_row lay a n \<longleftrightarrow> 0 < a \<and> a + n + 1 < 2 ^ 60 \<and> 2 \<le> n \<and> n < 2 ^ 20 \<and> (\<forall>a' xs. lay a' = Some xs \<longrightarrow> a + n < a' \<or> a' + ext xs < a)"

lemma fresh_geo:
  assumes "geo lay" "fresh_row lay a n"
  shows "lay a = None" "geo (lay(a \<mapsto> [(n, False)]))" "Blks (lay(a \<mapsto> [(n, False)])) = insert (a, n, False) (Blks lay)"
proof -
  have F: "a + n < a' \<or> a' + ext ys < a" if "lay a' = Some ys" for a' ys using assms(2) that unfolding fresh_row_def by blast
  show l: "lay a = None" using F [of a] by (cases "lay a") auto
  have "b \<in> Blks (lay(a \<mapsto> [(n, False)])) \<longleftrightarrow> b = (a, n, False) \<or> b \<in> Blks lay" for b
  proof
    assume "b \<in> Blks (lay(a \<mapsto> [(n, False)]))"
    then show "b = (a, n, False) \<or> b \<in> Blks lay" unfolding Blks_def by (auto split: if_splits)
  next
    assume "b = (a, n, False) \<or> b \<in> Blks lay"
    then consider "b = (a, n, False)" | a' ys where "lay a' = Some ys" "b \<in> blks a' ys" unfolding Blks_def by blast
    then show "b \<in> Blks (lay(a \<mapsto> [(n, False)]))"
    proof cases
      case 1
      then show ?thesis by (intro BlksI [of _ a "[(n, False)]"]) simp_all
    next
      case 2
      then show ?thesis using l by (intro BlksI [of _ a' ys]) auto
    qed
  qed
  then show "Blks (lay(a \<mapsto> [(n, False)])) = insert (a, n, False) (Blks lay)" by blast
  show "geo (lay(a \<mapsto> [(n, False)]))"
    unfolding geo_def
  proof (intro conjI allI impI)
    fix a1 xs assume x: "(lay(a \<mapsto> [(n, False)])) a1 = Some xs"
    show "0 < a1" "a1 + ext xs + 1 < 2 ^ 60" "ext xs < 2 ^ 20" "sized xs"
      using x geoD(1-4) [OF assms(1), of a1 xs] assms(2) unfolding fresh_row_def by (auto split: if_splits)
    fix a2 xs' assume x': "(lay(a \<mapsto> [(n, False)])) a2 = Some xs'"
    show "a1 = a2 \<or> a1 + ext xs < a2 \<or> a2 + ext xs' < a1"
    proof (cases "a1 = a \<or> a2 = a")
      case True
      then show ?thesis using x x' F [of a1 xs] F [of a2 xs'] by (auto split: if_splits)
    next
      case False
      then show ?thesis using x x' geoD(5) [OF assms(1), of a1 xs a2 xs'] by auto
    qed
  qed
qed

lemma hdrs_range: "geo lay \<Longrightarrow> j \<in> Hdrs lay \<Longrightarrow> \<exists>a xs. lay a = Some xs \<and> a \<le> j \<and> j \<le> a + ext xs"
  unfolding Hdrs_def Blks_def using blks_range by fastforce

text \<open>The headers of the new area, before its block is released.\<close>

definition area_start :: "nat \<Rightarrow> nat \<Rightarrow> kheap \<Rightarrow> kheap" where
  "area_start a n s =
     (let s = set_size (16 * a) (of_nat (16 * n)) s;
          s = set_prev (16 * a) 0 s;
          s = set_size (16 * (a + n)) 0 s;
          s = set_prev (16 * (a + n)) (16 * a) s
      in s\<lparr>kheap_areas := kheap_areas s @ [\<lparr>area_mem = 16 * a, area_bytes = of_nat (16 * (n + 1))\<rparr>]\<rparr>)"

lemma area_start_inv:
  assumes h: "heap_inv s lay" and f: "fresh_row lay a n"
  shows "heap_inv (area_start a n s) (lay(a \<mapsto> [(n, False)]))" "Used (lay(a \<mapsto> [(n, False)])) = insert (a, n) (Used lay)"
    "(a, n) \<notin> Used lay" "keeps s (area_start a n s) (intr lay)"
proof -
  note w = heap_invD(1) [OF h]
  note g = winvD(1) [OF w]
  have n: "2 \<le> n" "0 < a" using f unfolding fresh_row_def by simp_all
  define s' where "s' = area_start a n s"
  define lay' where "lay' = lay(a \<mapsto> [(n, False)])"
  note fg = fresh_geo [OF g f, folded lay'_def]
  show "Used (lay(a \<mapsto> [(n, False)])) = insert (a, n) (Used lay)" unfolding lay'_def [symmetric] Used_def fg(3) by auto
  have out: "j < a \<or> a + n < j" if "lay a' = Some xs" "a' \<le> j" "j \<le> a' + ext xs" for a' xs j
    using f that unfolding fresh_row_def by fastforce
  have bout: "i + k \<le> a \<or> a + n < i" if bi: "(i, k, b) \<in> Blks lay" for i k :: nat and b :: bool
  proof -
    obtain a' xs where x: "lay a' = Some xs" "(i, k, b) \<in> blks a' xs" using bi unfolding Blks_def by blast
    have "a + n < a' \<or> a' + ext xs < a" using f x(1) unfolding fresh_row_def by blast
    then show ?thesis using blks_range [OF x(2)] by auto
  qed
  show "(a, n) \<notin> Used lay" using bout [of a "n" False] Blks_bounds(3) [OF g, of a "n" False] n unfolding Used_def by auto
  have g': "gr (kmem s') = (gr (kmem s))(a := (0, of_nat (16 * n)), a + n := (of_nat (16 * a), 0))"
  proof -
    define t where "t = set_prev (16 * (a + n)) (16 * a) (set_size (16 * (a + n)) 0 (set_prev (16 * a) 0 (set_size (16 * a) (of_nat (16 * n)) s)))"
    have "kmem s' = kmem t" unfolding s'_def area_start_def Let_def t_def [symmetric] by simp
    moreover have "gr (kmem t) = (gr (kmem s))(a := (0, of_nat (16 * n)), a + n := (of_nat (16 * a), 0))"
      unfolding t_def gr_set using n by (auto simp: fun_eq_iff simp del: of_nat_mult)
    ultimately show ?thesis by simp
  qed
  have un: "gr (kmem s') j = gr (kmem s) j" if "j < a \<or> a + n < j" for j unfolding g' using that n by auto
  have kp: "gr (kmem s') j = gr (kmem s) j" if "(i, k, b) \<in> Blks lay" "i \<le> j" "j < i + k" for i k b j
    using un [of j] bout [OF that(1)] that(2,3) by auto
  then show "keeps s (area_start a n s) (intr lay)" unfolding s'_def [symmetric] keeps_def intr_def by auto
  have "hdrs_ok (gr (kmem s')) lay" using un hdrs_range [OF g] out by (intro hdrs_ok_cong [OF winvD(2) [OF w]]) blast
  moreover have "hd_seg (gr (kmem s')) a 0 False ([(n, False)] @ [(0, False)])"
    unfolding g' using n by (simp add: hw_plain [symmetric] hw_def)
  ultimately have hd: "hdrs_ok (gr (kmem s')) lay'" unfolding hdrs_ok_def lay'_def by auto
  have "free_ok s' lay' {}"
  proof (rule free_ok_cong [OF winvD(3) [OF w]])
    show "gr (kmem s') (Suc i) = gr (kmem s) (Suc i)" if "(i, k, True) \<in> Blks lay" for i k
      using kp [OF that, of "Suc i"] Blks_bounds(3) [OF g that] by simp
  qed (simp_all add: s'_def area_start_def Let_def fg(3))
  then have w': "winv s' lay' {}" using fg(2) hd unfolding winv_def by blast
  obtain as where as: "distinct as" "set as = dom lay"
    "kheap_areas s = map (\<lambda>a. \<lparr>area_mem = 16 * a, area_bytes = of_nat (16 * (ext (the (lay a)) + 1))\<rparr>) as"
    using heap_invD(3) [OF h] unfolding areas_ok_def by blast
  have "a \<notin> set as" using as(2) fg(1) by auto
  then have "map (\<lambda>b. \<lparr>area_mem = 16 * b, area_bytes = of_nat (16 * (ext (the (lay' b)) + 1)) :: u64\<rparr>) (as @ [a]) =
      kheap_areas s @ [\<lparr>area_mem = 16 * a, area_bytes = of_nat (16 * (n + 1))\<rparr>]"
    unfolding as(3) lay'_def using n by (auto simp del: of_nat_mult)
  moreover have "kheap_areas s' = kheap_areas s @ [\<lparr>area_mem = 16 * a, area_bytes = of_nat (16 * (n + 1))\<rparr>]"
    unfolding s'_def area_start_def Let_def by (simp add: set_size_def set_prev_def)
  moreover have "distinct (as @ [a])" "set (as @ [a]) = dom lay'" using as(1,2) \<open>a \<notin> set as\<close> unfolding lay'_def by auto
  ultimately have "areas_ok s' lay'" unfolding areas_ok_def by (intro exI [of _ "as @ [a]"]) simp
  moreover have "\<forall>a' xs. lay' a' = Some xs \<longrightarrow> apart False xs" using heap_invD(2) [OF h] unfolding lay'_def by auto
  ultimately show "heap_inv (area_start a n s) (lay(a \<mapsto> [(n, False)]))" using w' unfolding heap_inv_def s'_def lay'_def by blast
qed

lemma mask16: "of_nat (16 * n) AND NOT (HEAP_ALIGN - 1) = (of_nat (16 * n) :: u64)"
proof (rule hw_eqI)
  fix j :: nat assume j: "j < 64"
  have e: "HEAP_ALIGN - 1 = (mask 4 :: u64)" by (simp add: HEAP_ALIGN_def mask_eq_exp_minus_1)
  show "bit (of_nat (16 * n) AND NOT (HEAP_ALIGN - 1) :: u64) j = bit (of_nat (16 * n) :: u64) j"
    unfolding e bit_and_iff bit_not_iff bit_mask_iff possible_bit_word using j bit_of_nat_16 [of n j] by auto
qed

lemma area_add_inv:
  assumes h: "heap_inv s lay" and f: "fresh_row lay a n"
  defines "s' \<equiv> kheap_area_add (16 * a) (of_nat (16 * (n + 1))) s"
  shows "\<exists>lay'. heap_inv s' lay' \<and> Used lay' = Used lay \<and> keeps s s' (intr lay) \<and> (a, n, True) \<in> Blks lay' \<and>
    kheap_used_bytes s' = kheap_used_bytes s \<and> kheap_peak_bytes s' = kheap_peak_bytes s \<and> kheap_alloc_count s' = kheap_alloc_count s"
proof -
  note st = area_start_inv [OF h f]
  define s1 where "s1 = area_start a n s"
  define lay1 where "lay1 = lay(a \<mapsto> [(n, False)])"
  have n: "2 \<le> n" "n < 2 ^ 20" using f unfolding fresh_row_def by simp_all
  have sub: "of_nat (16 * (n + 1)) - HEAP_HDR = (of_nat (16 * n) :: u64)" by (simp add: HEAP_HDR_def)
  define s0 where "s0 = set_prev (16 * a) 0 (set_size (16 * a) (of_nat (16 * n)) s)"
  have nx: "block_next (kmem s0) (16 * a) = 16 * (a + n)"
    by (rule next_gr [where f = False and pf = False]) (use n in \<open>simp_all add: s0_def gr_set hw_plain [symmetric] del: of_nat_mult\<close>)
  have e: "s' = block_release (16 * a) s1"
    unfolding s'_def kheap_area_add_def mask16 sub Let_def s0_def [symmetric] nx
    unfolding s1_def area_start_def Let_def s0_def [symmetric] ..
  have a: "lay1 a = Some ([] @ (n, False) # [])" unfolding lay1_def by simp
  have h1: "heap_inv s1 lay1" using st(1) unfolding s1_def lay1_def .
  note r = release_ok [OF heap_invD(1) [OF h1] a refl, simplified, folded e]
  have rl: "released [] n [] = [(n, True)]" by (simp add: released_def join_next_def join_prev_def)
  note r = r [unfolded rl]
  define lay' where "lay' = lay1(a \<mapsto> [(n, True)])"
  have ax: "lay1 a = Some [(n, False)]" using a by simp
  have "heap_inv s' lay'" unfolding lay'_def by (rule heap_inv_upd [OF h1 ax r(1) _ _ r(2)]) simp_all
  moreover have U: "Used lay' = Used lay" unfolding lay'_def r(3) using st(2,3) unfolding lay1_def by auto
  moreover have "keeps s s' (intr lay)"
    by (rule keeps_trans [OF st(4) [folded s1_def] r(4) [folded lay'_def]]) (simp_all add: intr_Used U)
  moreover have "(a, n, True) \<in> Blks lay'" unfolding lay'_def by (rule BlksI [of _ a "[(n, True)]"]) simp_all
  moreover have "kheap_used_bytes s1 = kheap_used_bytes s \<and> kheap_peak_bytes s1 = kheap_peak_bytes s \<and> kheap_alloc_count s1 = kheap_alloc_count s"
    unfolding s1_def area_start_def Let_def by (simp add: set_size_def set_prev_def)
  ultimately show ?thesis using r(2) unfolding same_rest_def by (intro exI [of _ lay']) simp
qed

section \<open>Growing\<close>

definition page_count :: "nat \<Rightarrow> nat" where
  "page_count r = max 16 ((16 * r + 4143) div 4096)"

lemma kheap_pages_value:
  assumes "r < 2 ^ 26"
  shows "unat (kheap_pages (of_nat (16 * r))) = page_count r" "r + 3 \<le> page_count r * 256" "page_count r < 2 ^ 20"
proof -
  have u: "unat (of_nat (16 * r) :: u64) = 16 * r" using assms by (intro unat_granules) simp
  define q where "q = (16 * r + 4143) div 4096"
  have qb: "q < 2 ^ 20" unfolding q_def using assms by (intro less_mult_imp_div_less) simp
  have "unat (of_nat (16 * r) + 3 * HEAP_HDR + 0x1000 - 1 :: u64) = 16 * r + 4143"
  proof -
    have "(of_nat (16 * r) + 3 * HEAP_HDR + 0x1000 - 1 :: u64) = of_nat (16 * r + 4143)" by (simp add: HEAP_HDR_def)
    then show ?thesis using assms by (simp add: unat_of_nat del: of_nat_add of_nat_mult)
  qed
  then have "unat ((of_nat (16 * r) + 3 * HEAP_HDR + 0x1000 - 1 :: u64) div 0x1000) = q" unfolding q_def by (simp only: unat_div) simp
  then have p: "unat (ucast ((of_nat (16 * r) + 3 * HEAP_HDR + 0x1000 - 1 :: u64) div 0x1000) :: u32) = q"
    using qb by (simp only: unat_ucast_mod) simp
  show "unat (kheap_pages (of_nat (16 * r))) = page_count r"
    unfolding kheap_pages_def Let_def page_count_def q_def [symmetric] word_less_nat_alt KHEAP_AREA_MIN_PAGES_def p if_distrib [of unat] by (simp add: max_def)
  have "16 * r + 4143 < (q + 1) * 4096" unfolding q_def using dividend_less_div_times [of 4096 "16 * r + 4143"] by simp
  then have "r + 3 \<le> q * 256" by simp
  then show "r + 3 \<le> page_count r * 256" "page_count r < 2 ^ 20" unfolding page_count_def q_def [symmetric] using qb by (simp_all add: max_def)
qed

lemma area_entry:
  assumes "heap_inv s lay" "lay a = Some xs"
  shows "\<lparr>area_mem = 16 * a, area_bytes = of_nat (16 * (ext xs + 1))\<rparr> \<in> set (kheap_areas s)" "unat (of_nat (16 * (ext xs + 1)) :: u64) = 16 * (ext xs + 1)"
proof -
  obtain as where as: "set as = dom lay" "kheap_areas s = map (\<lambda>a. \<lparr>area_mem = 16 * a, area_bytes = of_nat (16 * (ext (the (lay a)) + 1))\<rparr>) as"
    using heap_invD(3) [OF assms(1)] unfolding areas_ok_def by blast
  have "a \<in> set as" using as(1) assms(2) by blast
  then show "\<lparr>area_mem = 16 * a, area_bytes = of_nat (16 * (ext xs + 1))\<rparr> \<in> set (kheap_areas s)" unfolding as(2) using assms(2) by force
  show "unat (of_nat (16 * (ext xs + 1)) :: u64) = 16 * (ext xs + 1)" using geoD(3) [OF heap_invD(4) [OF assms(1)] assms(2)] by (intro unat_granules) simp
qed

lemma fresh_pages_row:
  assumes h: "heap_inv s lay" and f: "fresh_pages s mem (of_nat (16 * r))" "mem \<noteq> 0" and r: "r < 2 ^ 26" and p: "page_count r \<le> 256"
  shows "\<exists>a. mem = 16 * a \<and> fresh_row lay a (page_count r * 256 - 1)"
proof -
  note P = kheap_pages_value [OF r]
  have f': "4096 dvd mem" "mem + page_count r * 4096 < 2 ^ 64"
    "\<And>a. a \<in> set (kheap_areas s) \<Longrightarrow> mem + page_count r * 4096 \<le> area_mem a \<or> area_mem a + unat (area_bytes a) \<le> mem"
    using f unfolding fresh_pages_def Let_def P(1) by blast+
  have "16 dvd mem" using f'(1) by (rule dvd_trans [rotated]) simp
  then obtain a where a: "mem = 16 * a" by (elim dvdE)
  have p16: "16 \<le> page_count r" by (simp add: page_count_def)
  have "a + (page_count r * 256 - 1) < a' \<or> a' + ext xs < a" if "lay a' = Some xs" for a' xs
    using f'(3) [OF area_entry(1) [OF h that]] area_entry(2) [OF h that] p16 unfolding a by auto
  then have "fresh_row lay a (page_count r * 256 - 1)" unfolding fresh_row_def using f'(2) f(2) p16 p a by auto
  then show ?thesis using a by blast
qed

lemma grow_ok:
  assumes h: "heap_inv s lay" and r: "r < 2 ^ 26" and f: "fresh_pages s mem (of_nat (16 * r))"
  shows "kheap_grow mem (of_nat (16 * r)) s = (s, False) \<and> (length (kheap_areas s) \<ge> KHEAP_MAX_AREAS \<or> page_count r > 256 \<or> mem = 0) \<or>
    (\<exists>s' lay' i k. kheap_grow mem (of_nat (16 * r)) s = (s', True) \<and> heap_inv s' lay' \<and> Used lay' = Used lay \<and> keeps s s' (intr lay) \<and>
       (i, k, True) \<in> Blks lay' \<and> r + 1 \<le> k \<and> r + 3 < 2 ^ 17 \<and>
       kheap_used_bytes s' = kheap_used_bytes s \<and> kheap_peak_bytes s' = kheap_peak_bytes s \<and> kheap_alloc_count s' = kheap_alloc_count s)"
proof -
  note P = kheap_pages_value [OF r]
  have gt: "kheap_pages (of_nat (16 * r)) > KHEAP_AREA_MAX_PAGES \<longleftrightarrow> page_count r > 256"
    unfolding word_less_nat_alt P(1) by (simp add: KHEAP_AREA_MAX_PAGES_def)
  show ?thesis
  proof (cases "length (kheap_areas s) \<ge> KHEAP_MAX_AREAS \<or> page_count r > 256 \<or> mem = 0")
    case True
    then show ?thesis unfolding kheap_grow_def Let_def gt by auto
  next
    case False
    then have p: "page_count r \<le> 256" "mem \<noteq> 0" by simp_all
    obtain a where a: "mem = 16 * a" "fresh_row lay a (page_count r * 256 - 1)" using fresh_pages_row [OF h f p(2) r p(1)] by blast
    have p1: "1 \<le> page_count r" by (simp add: page_count_def)
    have "(ucast (kheap_pages (of_nat (16 * r))) :: u64) = of_nat (page_count r)" unfolding P(1) [symmetric] by simp
    moreover have "page_count r * 4096 = 16 * ((page_count r * 256 - 1) + 1)" using p1 by simp
    ultimately have b: "ucast (kheap_pages (of_nat (16 * r))) * 0x1000 = (of_nat (16 * ((page_count r * 256 - 1) + 1)) :: u64)"
      by (metis of_nat_mult of_nat_numeral)
    have e: "kheap_grow mem (of_nat (16 * r)) s = (kheap_area_add (16 * a) (of_nat (16 * ((page_count r * 256 - 1) + 1))) s, True)"
      unfolding kheap_grow_def Let_def gt b a(1) using False a(1) by simp
    have k: "r + 1 \<le> page_count r * 256 - 1" "r + 3 < 2 ^ 17" using P(2) p by simp_all
    show ?thesis using area_add_inv [OF h a(2)] e k by blast
  qed
qed

section \<open>Allocation\<close>

lemma and_not_mask: "x AND NOT (mask n) = push_bit n (drop_bit n x)" for x :: "'a::len word"
  by (rule bit_word_eqI) (auto simp: bit_simps)

definition granules :: "u64 \<Rightarrow> nat" where
  "granules sz = (unat sz + 15) div 16"

lemma heap_round_value: "unat sz + 15 < 2 ^ 64 \<Longrightarrow> heap_round sz = of_nat (16 * granules sz)"
proof -
  assume b: "unat sz + 15 < 2 ^ 64"
  have e: "HEAP_ALIGN - 1 = (mask 4 :: u64)" "sz + HEAP_ALIGN - 1 = sz + 15" by (simp_all add: HEAP_ALIGN_def mask_eq_exp_minus_1)
  have u: "unat (sz + 15) = unat sz + 15" using b by (subst unat_add_ok) simp_all
  have "(unat sz + 15) div 16 * 16 < 2 ^ 64" by (rule order.strict_trans1 [OF div_times_less_eq_dividend b])
  then have "unat (heap_round sz) = 16 * granules sz"
    unfolding heap_round_def e and_not_mask unat_push unat_drop u granules_def by simp
  then show ?thesis by (metis of_nat_unat ucast_id)
qed

lemma granules_props: "sz \<noteq> 0 \<Longrightarrow> 1 \<le> granules sz" "unat sz \<le> 16 * granules sz" "unat sz + 15 < 2 ^ 64 \<Longrightarrow> granules sz < 2 ^ 60"
proof -
  show "sz \<noteq> 0 \<Longrightarrow> 1 \<le> granules sz" unfolding granules_def by (simp add: unat_eq_0 Suc_le_eq div_greater_zero_iff) (metis Suc_leI unat_gt_0 add_le_mono1 plus_nat.simps(2) add_0)
  show "unat sz \<le> 16 * granules sz" unfolding granules_def by linarith
  show "unat sz + 15 < 2 ^ 64 \<Longrightarrow> granules sz < 2 ^ 60" unfolding granules_def by (intro less_mult_imp_div_less) simp
qed

text \<open>The reasons for which an allocation may fail.\<close>

definition no_memory :: "kheap \<Rightarrow> layout \<Rightarrow> nat \<Rightarrow> nat \<Rightarrow> bool" where
  "no_memory s lay mem r \<longleftrightarrow>
     (\<forall>i k. (i, k, True) \<in> Blks lay \<longrightarrow> k < r + 1) \<and> (length (kheap_areas s) \<ge> KHEAP_MAX_AREAS \<or> page_count r > 256 \<or> mem = 0)"

lemma retry_done: "p \<noteq> 0 \<Longrightarrow> heap_retry [a, b] pl s p = Some (s, p)"
  by simp

lemma alloc_ok_grown:
  assumes "alloc_ok s1 lay1 r s' p" "Used lay1 = Used lay" "keeps s s1 (intr lay)"
    "kheap_used_bytes s1 = kheap_used_bytes s" "kheap_peak_bytes s1 = kheap_peak_bytes s" "kheap_alloc_count s1 = kheap_alloc_count s"
  shows "alloc_ok s lay r s' p"
proof -
  have "intr lay1 = intr lay" using assms(2) by (simp add: intr_Used)
  then have "keeps s1 s' (intr lay) \<Longrightarrow> keeps s s' (intr lay)" using keeps_trans [OF assms(3)] by blast
  then show ?thesis using assms \<open>intr lay1 = intr lay\<close> unfolding alloc_ok_def by metis
qed

lemma heap_alloc_ok:
  assumes h: "heap_inv s lay" and sz: "unat sz + 15 < 2 ^ 64" and f: "fresh_pages s (fst pg) (heap_round sz)"
  shows "\<exists>s' p. heap_alloc pg sz s = Some (s', p) \<and>
    (p = 0 \<and> s' = s \<and> (sz = 0 \<or> granules sz \<ge> 2 ^ 26 \<or> no_memory s lay (fst pg) (granules sz)) \<or> p \<noteq> 0 \<and> alloc_ok s lay (granules sz) s' p)"
proof -
  define r where "r = granules sz"
  note R = heap_round_value [OF sz, folded r_def]
  have r60: "r < 2 ^ 60" using granules_props(3) [OF sz] unfolding r_def .
  have m: "HEAP_MAX_BYTES = of_nat (16 * 2 ^ 26)" by (simp add: HEAP_MAX_BYTES_def)
  have mx: "(of_nat (16 * r) \<ge> HEAP_MAX_BYTES) = (r \<ge> 2 ^ 26)" unfolding m using r60 by (intro granules_le) simp_all
  show ?thesis
  proof (cases "sz = 0 \<or> r \<ge> 2 ^ 26")
    case True
    then have "heap_alloc pg sz s = Some (s, 0)" unfolding heap_alloc_def R Let_def mx by simp
    then show ?thesis using True unfolding r_def by blast
  next
    case False
    have r1: "1 \<le> r" "r < 2 ^ 59" "r < 2 ^ 26" using False granules_props(1) [of sz] unfolding r_def by simp_all
    have e: "heap_alloc pg sz s = (case block_acquire (of_nat (16 * r)) s of None \<Rightarrow> None | Some (s, p) \<Rightarrow> heap_retry [fst pg, snd pg] (of_nat (16 * r)) s p)"
      unfolding heap_alloc_def R Let_def mx using False by simp
    obtain s1 p1 where a: "block_acquire (of_nat (16 * r)) s = Some (s1, p1)"
      "p1 = 0 \<and> s1 = s \<and> (r + 1 < 2 ^ 26 \<longrightarrow> (\<forall>i k. (i, k, True) \<in> Blks lay \<longrightarrow> k < r + 1)) \<or> p1 \<noteq> 0 \<and> alloc_ok s lay r s1 p1"
      using acquire_ok [OF h r1(1,2)] by blast
    show ?thesis
    proof (cases "p1 = 0")
      case False
      then show ?thesis using a retry_done [of p1] unfolding e r_def [symmetric] by auto
    next
      case True
      then have s1: "s1 = s" "r + 1 < 2 ^ 26 \<Longrightarrow> (\<forall>i k. (i, k, True) \<in> Blks lay \<longrightarrow> k < r + 1)" using a(2) by auto
      have small: "k < r + 1" if "(i, k, True) \<in> Blks lay" for i k
        using s1(2) that Blks_bounds(4) [OF heap_invD(4) [OF h] that] r1(3) by (cases "r + 1 < 2 ^ 26") auto
      have fr: "fresh_pages s (fst pg) (of_nat (16 * r))" using f unfolding R .
      show ?thesis
      proof (rule disjE [OF grow_ok [OF h r1(3) fr]], goal_cases)
        case 1
        then have "no_memory s lay (fst pg) r" unfolding no_memory_def by (intro conjI allI impI, elim small) (rule conjunct2)
        then show ?case using 1 a(1) True s1(1) unfolding e r_def [symmetric] by simp
      next
        case G: 2
        obtain s2 lay2 i k where 2: "kheap_grow (fst pg) (of_nat (16 * r)) s = (s2, True)" "heap_inv s2 lay2" "Used lay2 = Used lay" "keeps s s2 (intr lay)"
          "(i, k, True) \<in> Blks lay2" "r + 1 \<le> k" "r + 3 < 2 ^ 17"
          "kheap_used_bytes s2 = kheap_used_bytes s" "kheap_peak_bytes s2 = kheap_peak_bytes s" "kheap_alloc_count s2 = kheap_alloc_count s"
          using G by (elim exE conjE) (rule that)
        obtain s3 p3 where b: "block_acquire (of_nat (16 * r)) s2 = Some (s3, p3)"
          "p3 = 0 \<and> s3 = s2 \<and> (r + 1 < 2 ^ 26 \<longrightarrow> (\<forall>i k. (i, k, True) \<in> Blks lay2 \<longrightarrow> k < r + 1)) \<or> p3 \<noteq> 0 \<and> alloc_ok s2 lay2 r s3 p3"
          using acquire_ok [OF 2(2) r1(1,2)] by blast
        have "p3 \<noteq> 0" using b(2) 2(5-7) by fastforce
        then have al: "alloc_ok s lay r s3 p3" using b(2) alloc_ok_grown [OF _ 2(3,4,8,9,10)] by blast
        have "heap_alloc pg sz s = Some (s3, p3)" unfolding e using a(1) True s1(1) 2(1) b(1) \<open>p3 \<noteq> 0\<close> by simp
        then show ?case using al \<open>p3 \<noteq> 0\<close> unfolding r_def [symmetric] by blast
      qed
    qed
  qed
qed

end
