(* ===== verification/Kheap_Own.thy ===== *)
theory Kheap_Own
  imports Kheap_Grow
begin

text \<open>
  The callers' view of the kernel heap of \<open>src/kernel/mm/kheap.c\<close>: a map from the pointers they hold to the bytes stored
  there. \<open>owned\<close> relates it to a layout: every used block is held once, and the bytes are in memory. The counters of the heap
  are the number and the total size of the used blocks.
\<close>

section \<open>Counters\<close>

definition used_sum :: "(nat \<times> nat) set \<Rightarrow> nat" where
  "used_sum U = (\<Sum>(i, k) \<in> U. 16 * k)"

definition stats_ok :: "kheap \<Rightarrow> layout \<Rightarrow> bool" where
  "stats_ok s lay \<longleftrightarrow> kheap_used_bytes s = of_nat (used_sum (Used lay)) \<and> kheap_alloc_count s = of_nat (card (Used lay))"

lemma finite_blks [simp]: "finite (blks a xs)"
  by (induction xs arbitrary: a) auto

lemma finite_Blks:
  assumes "finite (dom lay)"
  shows "finite (Blks lay)"
proof -
  have "Blks lay = (\<Union>a \<in> dom lay. blks a (the (lay a)))" unfolding Blks_def by force
  then show ?thesis using assms by simp
qed

lemma finite_Used: "heap_inv s lay \<Longrightarrow> finite (Used lay)"
proof -
  assume "heap_inv s lay"
  then have "areas_ok s lay" by (rule heap_invD(3))
  then have "finite (dom lay)" unfolding areas_ok_def by (metis List.finite_set)
  then have "finite (Blks lay)" by (rule finite_Blks)
  then have "finite ((\<lambda>b. (fst b, fst (snd b))) ` Blks lay)" by (rule finite_imageI)
  then show ?thesis by (rule rev_finite_subset) (force simp: Used_def)
qed

lemma sum_insert: "finite U \<Longrightarrow> (i, k) \<notin> U \<Longrightarrow> used_sum (insert (i, k) U) = 16 * k + used_sum U"
  by (simp add: used_sum_def)

lemma sum_remove: "finite U \<Longrightarrow> (i, k) \<in> U \<Longrightarrow> used_sum U = 16 * k + used_sum (U - {(i, k)})"
  using sum.remove [of U "(i, k)" "\<lambda>(i, k). 16 * k"] by (simp add: used_sum_def)

lemma ucast_total: "k < 2 ^ 60 \<Longrightarrow> (ucast (of_nat (16 * k) :: u64) :: u32) = of_nat (16 * k)"
proof -
  assume "k < 2 ^ 60"
  then have "(ucast (of_nat (16 * k) :: u64) :: u32) = of_nat (unat (of_nat (16 * k) :: u64))" by simp
  then show ?thesis by (simp only: unat_granules [OF \<open>k < 2 ^ 60\<close>])
qed

section \<open>Data\<close>

definition bytes_at :: "mem \<Rightarrow> nat \<Rightarrow> nat \<Rightarrow> u8 list" where
  "bytes_at m p n = map (\<lambda>i. m (p + i)) [0..<n]"

definition owned :: "kheap \<Rightarrow> layout \<Rightarrow> (nat \<rightharpoonup> u8 list) \<Rightarrow> bool" where
  "owned s lay own \<longleftrightarrow>
     (\<forall>p bs. own p = Some bs \<longrightarrow> (\<exists>i k. p = 16 * (i + 1) \<and> (i, k) \<in> Used lay \<and> length bs \<le> 16 * (k - 1) \<and> bytes_at (kmem s) p (length bs) = bs)) \<and>
     (\<forall>i k. (i, k) \<in> Used lay \<longrightarrow> own (16 * (i + 1)) \<noteq> None)"

lemma bytes_keep:
  assumes "keeps s s' J" "\<And>j. i < j \<Longrightarrow> j < i + k \<Longrightarrow> j \<in> J" "n \<le> 16 * (k - 1)"
  shows "bytes_at (kmem s') (16 * (i + 1)) n = bytes_at (kmem s) (16 * (i + 1)) n"
proof -
  have "kmem s' (16 * (i + 1) + x) = kmem s (16 * (i + 1) + x)" if "x < n" for x
  proof -
    define j where "j = (16 * (i + 1) + x) div 16"
    have "j = i + 1 + x div 16" unfolding j_def by simp
    moreover have "x div 16 < k - 1" using that assms(3) by (simp add: less_mult_imp_div_less mult.commute)
    ultimately have "gr (kmem s') j = gr (kmem s) j" using assms(1,2) unfolding keeps_def by auto
    then show ?thesis by (rule gr_bytes) (simp add: j_def)
  qed
  then show ?thesis unfolding bytes_at_def by simp
qed

lemma Used_intr: "(i, k) \<in> Used lay \<Longrightarrow> i < j \<Longrightarrow> j < i + k \<Longrightarrow> j \<in> intr lay"
  unfolding intr_Used by blast

lemma Used_unique: "heap_inv s lay \<Longrightarrow> (i, k) \<in> Used lay \<Longrightarrow> (i, k') \<in> Used lay \<Longrightarrow> k' = k"
  using Blks_unique [of lay i k False k' False] heap_invD(4) unfolding Used_def by blast

lemma Used_apart:
  "heap_inv s lay \<Longrightarrow> (i, k) \<in> Used lay \<Longrightarrow> (i', k') \<in> Used lay \<Longrightarrow> i \<noteq> i' \<Longrightarrow> i + k \<le> i' \<or> i' + k' \<le> i"
  using Blks_apart [of lay i k False i' k' False] heap_invD(4) unfolding Used_def by blast

lemma ownedD:
  assumes "owned s lay own" "own p = Some bs"
  obtains i k where "p = 16 * (i + 1)" "(i, k) \<in> Used lay" "length bs \<le> 16 * (k - 1)" "bytes_at (kmem s) p (length bs) = bs"
  using assms unfolding owned_def by blast

text \<open>A new block, a block given back, a block of another size.\<close>

lemma owned_add:
  assumes o: "owned s lay own" and h: "heap_inv s' lay'" and k: "keeps s s' (intr lay)" and U: "Used lay' = insert (i, k) (Used lay)" "(i, k) \<notin> Used lay"
    and bs: "length bs \<le> 16 * (k - 1)" "bytes_at (kmem s') (16 * (i + 1)) (length bs) = bs"
  shows "owned s' lay' (own(16 * (i + 1) \<mapsto> bs))" "own (16 * (i + 1)) = None"
proof -
  have ik: "(i, k) \<in> Used lay'" using U by simp
  have ni: "i' \<noteq> i" if "(i', k') \<in> Used lay" for i' k'
    using that Used_unique [OF h ik, of k'] U by auto
  show "own (16 * (i + 1)) = None"
  proof (rule ccontr)
    assume "own (16 * (i + 1)) \<noteq> None"
    then obtain cs where "own (16 * (i + 1)) = Some cs" by blast
    then obtain i' k' where "16 * (i + 1) = 16 * (i' + 1)" "(i', k') \<in> Used lay" using ownedD [OF o] by metis
    then show False using ni [of i' k'] by simp
  qed
  have "\<exists>i' k'. p = 16 * (i' + 1) \<and> (i', k') \<in> Used lay' \<and> length cs \<le> 16 * (k' - 1) \<and> bytes_at (kmem s') p (length cs) = cs"
    if p: "(own(16 * (i + 1) \<mapsto> bs)) p = Some cs" for p cs
  proof (cases "p = 16 * (i + 1)")
    case True
    then show ?thesis using p bs ik by auto
  next
    case False
    then have "own p = Some cs" using p by simp
    then obtain i' k' where i': "p = 16 * (i' + 1)" "(i', k') \<in> Used lay" "length cs \<le> 16 * (k' - 1)" "bytes_at (kmem s) p (length cs) = cs" by (rule ownedD [OF o])
    have "bytes_at (kmem s') (16 * (i' + 1)) (length cs) = bytes_at (kmem s) (16 * (i' + 1)) (length cs)"
      by (rule bytes_keep [OF k _ i'(3)]) (rule Used_intr [OF i'(2)])
    then show ?thesis using i' U by auto
  qed
  moreover have "(own(16 * (i + 1) \<mapsto> bs)) (16 * (i' + 1)) \<noteq> None" if "(i', k') \<in> Used lay'" for i' k'
    using that U o unfolding owned_def by auto
  ultimately show "owned s' lay' (own(16 * (i + 1) \<mapsto> bs))" unfolding owned_def by blast
qed

lemma owned_del:
  assumes o: "owned s lay own" and h: "heap_inv s lay" and k: "keeps s s' (intr lay')" and U: "Used lay' = Used lay - {(b, k)}" "(b, k) \<in> Used lay"
  shows "owned s' lay' (own(16 * (b + 1) := None))"
proof -
  have "\<exists>i' k'. p = 16 * (i' + 1) \<and> (i', k') \<in> Used lay' \<and> length cs \<le> 16 * (k' - 1) \<and> bytes_at (kmem s') p (length cs) = cs"
    if p: "(own(16 * (b + 1) := None)) p = Some cs" for p cs
  proof -
    have "own p = Some cs" "p \<noteq> 16 * (b + 1)" using p by (auto split: if_splits)
    then obtain i' k' where i': "p = 16 * (i' + 1)" "(i', k') \<in> Used lay" "length cs \<le> 16 * (k' - 1)" "bytes_at (kmem s) p (length cs) = cs" using ownedD [OF o] by metis
    then have u: "(i', k') \<in> Used lay'" using U \<open>p \<noteq> _\<close> by auto
    have "bytes_at (kmem s') (16 * (i' + 1)) (length cs) = bytes_at (kmem s) (16 * (i' + 1)) (length cs)"
      by (rule bytes_keep [OF k _ i'(3)]) (rule Used_intr [OF u])
    then show ?thesis using i' u by auto
  qed
  moreover have "(own(16 * (b + 1) := None)) (16 * (i' + 1)) \<noteq> None" if "(i', k') \<in> Used lay'" for i' k'
    using that U o Used_unique [OF h U(2), of k'] unfolding owned_def by auto
  ultimately show ?thesis unfolding owned_def by blast
qed

lemma owned_resize:
  assumes o: "owned s lay own" and h: "heap_inv s lay" and k: "keeps s s' (intr lay \<inter> intr lay')" and U: "Used lay' = Used lay - {(b, k)} \<union> {(b, k')}" "(b, k) \<in> Used lay"
    and bs: "length bs \<le> 16 * (k' - 1)" "bytes_at (kmem s') (16 * (b + 1)) (length bs) = bs"
  shows "owned s' lay' (own(16 * (b + 1) \<mapsto> bs))"
proof -
  have bk: "(b, k') \<in> Used lay'" using U by simp
  have "\<exists>i' k'. p = 16 * (i' + 1) \<and> (i', k') \<in> Used lay' \<and> length cs \<le> 16 * (k' - 1) \<and> bytes_at (kmem s') p (length cs) = cs"
    if p: "(own(16 * (b + 1) \<mapsto> bs)) p = Some cs" for p cs
  proof (cases "p = 16 * (b + 1)")
    case True
    then show ?thesis using p bs bk by auto
  next
    case False
    then have "own p = Some cs" using p by simp
    then obtain i' l where i': "p = 16 * (i' + 1)" "(i', l) \<in> Used lay" "length cs \<le> 16 * (l - 1)" "bytes_at (kmem s) p (length cs) = cs" by (rule ownedD [OF o])
    then have u: "(i', l) \<in> Used lay'" using U False by auto
    have "bytes_at (kmem s') (16 * (i' + 1)) (length cs) = bytes_at (kmem s) (16 * (i' + 1)) (length cs)"
      by (rule bytes_keep [OF k _ i'(3)]) (use Used_intr [OF u] Used_intr [OF i'(2)] in blast)
    then show ?thesis using i' u by auto
  qed
  moreover have "(own(16 * (b + 1) \<mapsto> bs)) (16 * (i' + 1)) \<noteq> None" if "(i', l) \<in> Used lay'" for i' l
    using that U o unfolding owned_def by auto
  ultimately show ?thesis unfolding owned_def by blast
qed

text \<open>Writes into used blocks leave headers and lists alone.\<close>

lemma heap_inv_write:
  assumes h: "heap_inv s lay" and m: "\<And>j. j \<notin> intr lay \<Longrightarrow> gr m' j = gr (kmem s) j"
  shows "heap_inv (s\<lparr>kmem := m'\<rparr>) lay"
proof -
  note w = heap_invD(1) [OF h]
  have "hdrs_ok (gr m') lay" using m intr_no_header [OF winvD(1) [OF w]] by (intro hdrs_ok_cong [OF winvD(2) [OF w]]) blast
  moreover have "free_ok (s\<lparr>kmem := m'\<rparr>) lay {}"
    using m intr_no_link [OF winvD(1) [OF w]] by (intro free_ok_cong [OF winvD(3) [OF w]]) simp_all
  ultimately show ?thesis using h unfolding heap_inv_def winv_def areas_ok_def by simp
qed

lemma write_granules:
  assumes u: "(i, k) \<in> Used lay" and m: "\<And>x. x < 16 * (i + 1) \<or> 16 * (i + 1) + n \<le> x \<Longrightarrow> m' x = m x" and n: "n \<le> 16 * (k - 1)"
  shows "j \<notin> intr lay \<Longrightarrow> gr m' j = gr m j" and "\<not> (i < j \<and> j < i + k) \<Longrightarrow> gr m' j = gr m j"
proof -
  show *: "gr m' j = gr m j" if "\<not> (i < j \<and> j < i + k)"
  proof (rule gr_cong)
    fix x assume "16 * j \<le> x" "x < 16 * j + 16"
    then show "m' x = m x" using that n by (intro m) (cases "k = 0"; auto)
  qed
  show "j \<notin> intr lay \<Longrightarrow> gr m' j = gr m j" using * Used_intr [OF u] by blast
qed

end
