(* ===== verification/Kheap_Ops.thy ===== *)
theory Kheap_Ops
  imports Kheap_Own
begin

text \<open>
  The calls of \<open>src/kernel/mm/kheap.c\<close> on the callers' view: \<open>kmalloc\<close>, \<open>kzalloc\<close>, \<open>kcalloc\<close>, \<open>kfree\<close> and the three ways of
  \<open>krealloc\<close>. Each is total on a consistent heap and leads to one.
\<close>

definition heap_state :: "kheap \<Rightarrow> (nat \<rightharpoonup> u8 list) \<Rightarrow> bool" where
  "heap_state s own \<longleftrightarrow> (\<exists>lay. heap_inv s lay \<and> stats_ok s lay \<and> owned s lay own)"

lemma stats_peak_simps [simp]:
  "kmem (stats_peak s) = kmem s" "kheap_areas (stats_peak s) = kheap_areas s" "blocks (stats_peak s) = blocks s"
  "sl_bitmap (stats_peak s) = sl_bitmap s" "fl_bitmap (stats_peak s) = fl_bitmap s"
  "kheap_used_bytes (stats_peak s) = kheap_used_bytes s" "kheap_alloc_count (stats_peak s) = kheap_alloc_count s"
  by (simp_all add: stats_peak_def)

lemma heap_inv_frame:
  assumes "heap_inv s lay" "kmem s' = kmem s" "blocks s' = blocks s" "sl_bitmap s' = sl_bitmap s" "fl_bitmap s' = fl_bitmap s" "kheap_areas s' = kheap_areas s"
  shows "heap_inv s' lay"
proof -
  note w = heap_invD(1) [OF assms(1)]
  have "free_ok s' lay {}" by (rule free_ok_cong [OF winvD(3) [OF w]]) (simp_all add: assms(2-5))
  then have "winv s' lay {}" using winvD(1,2) [OF w] unfolding winv_def assms(2) by blast
  moreover have "areas_ok s' lay" using heap_invD(3) [OF assms(1)] unfolding areas_ok_def assms(6) .
  ultimately show ?thesis using assms(1) unfolding heap_inv_def by blast
qed

lemma owned_frame: "owned s lay own \<Longrightarrow> kmem s' = kmem s \<Longrightarrow> owned s' lay own"
  unfolding owned_def by simp

lemma keeps_frame: "keeps s s' J \<Longrightarrow> kmem s'' = kmem s' \<Longrightarrow> keeps s s'' J"
  unfolding keeps_def by simp

lemma length_bytes_at [simp]: "length (bytes_at m p n) = n"
  by (simp add: bytes_at_def)

lemma used_total: "heap_inv s lay \<Longrightarrow> (b, k) \<in> Used lay \<Longrightarrow> block_total (kmem s) (16 * b) = of_nat (16 * k)"
  using used_header total_hw by metis

lemma from_user [simp]: "block_from (16 * (i + 1)) = 16 * i" "block_user (16 * i) = 16 * (i + 1)"
  by (simp_all add: block_from_def block_user_def)

section \<open>Allocation\<close>

lemma gain_ok:
  assumes h: "heap_inv s lay" and st: "stats_ok s lay" and o: "owned s lay own"
    and h': "heap_inv s' lay'" and U: "Used lay' = insert (i, k) (Used lay)" "(i, k) \<notin> Used lay" and k: "keeps s s' (intr lay)"
    and c: "kheap_used_bytes s' = kheap_used_bytes s" "kheap_alloc_count s' = kheap_alloc_count s" and n: "n \<le> 16 * (k - 1)"
  defines "t \<equiv> stats_gain (16 * i) s'"
  shows "heap_inv t lay'" "stats_ok t lay'" "owned t lay' (own(16 * (i + 1) \<mapsto> bytes_at (kmem t) (16 * (i + 1)) n))" "own (16 * (i + 1)) = None"
proof -
  have ik: "(i, k) \<in> Used lay'" using U by simp
  have km: "kmem t = kmem s'" unfolding t_def stats_gain_def by (simp add: Let_def)
  show h2: "heap_inv t lay'" by (rule heap_inv_frame [OF h']) (simp_all add: t_def stats_gain_def Let_def)
  have "k < 2 ^ 60" using used_bounds [OF h' ik] by simp
  then have "kheap_used_bytes t = kheap_used_bytes s + of_nat (16 * k)"
    unfolding t_def stats_gain_def Let_def using c(1) by (simp add: used_total [OF h' ik] ucast_total del: of_nat_mult)
  moreover have "kheap_alloc_count t = kheap_alloc_count s + 1" unfolding t_def stats_gain_def Let_def using c(2) by simp
  ultimately show "stats_ok t lay'"
    using st unfolding stats_ok_def U(1) by (simp add: sum_insert [OF finite_Used [OF h] U(2)] finite_Used [OF h] U(2))
  show "owned t lay' (own(16 * (i + 1) \<mapsto> bytes_at (kmem t) (16 * (i + 1)) n))" "own (16 * (i + 1)) = None"
    using owned_add [OF o h2 keeps_frame [OF k km] U, of "bytes_at (kmem t) (16 * (i + 1)) n"] n by simp_all
qed

text \<open>What every allocating call does: fail and leave the heap as it was, or hand out a new block.\<close>

definition handed :: "kheap \<Rightarrow> (nat \<rightharpoonup> u8 list) \<Rightarrow> kheap \<Rightarrow> nat \<Rightarrow> nat \<Rightarrow> bool" where
  "handed s own s' p n \<longleftrightarrow> p \<noteq> 0 \<and> own p = None \<and> heap_state s' (own(p \<mapsto> bytes_at (kmem s') p n))"

lemma kmalloc_ok:
  assumes h: "heap_inv s lay" "stats_ok s lay" "owned s lay own" and sz: "unat sz + 15 < 2 ^ 64" and f: "fresh_pages s (fst pg) (heap_round sz)"
  shows "\<exists>s' p. kmalloc pg sz s = Some (s', p) \<and>
    (p = 0 \<and> s' = s \<and> (sz = 0 \<or> granules sz \<ge> 2 ^ 26 \<or> no_memory s lay (fst pg) (granules sz)) \<or> handed s own s' p (unat sz))"
proof -
  obtain s1 p where a: "heap_alloc pg sz s = Some (s1, p)"
    "p = 0 \<and> s1 = s \<and> (sz = 0 \<or> granules sz \<ge> 2 ^ 26 \<or> no_memory s lay (fst pg) (granules sz)) \<or> p \<noteq> 0 \<and> alloc_ok s lay (granules sz) s1 p"
    using heap_alloc_ok [OF h(1) sz f] by blast
  show ?thesis
  proof (cases "p = 0")
    case True
    then show ?thesis using a unfolding kmalloc_def by simp
  next
    case False
    then obtain lay' i k where l: "p = 16 * (i + 1)" "heap_inv s1 lay'" "(i, k) \<notin> Used lay" "Used lay' = insert (i, k) (Used lay)" "granules sz + 1 \<le> k"
      "keeps s s1 (intr lay)" "kheap_used_bytes s1 = kheap_used_bytes s" "kheap_alloc_count s1 = kheap_alloc_count s"
      using a(2) unfolding alloc_ok_def by blast
    have n: "unat sz \<le> 16 * (k - 1)" using granules_props(2) [of sz] l(5) by linarith
    note g = gain_ok [OF h l(2,4,3,6,7,8) n]
    have "kmalloc pg sz s = Some (stats_gain (16 * i) s1, p)" unfolding kmalloc_def a(1) using False from_user(1) [of i] l(1) by simp
    moreover have "handed s own (stats_gain (16 * i) s1) p (unat sz)" unfolding handed_def heap_state_def using False g l(1) by blast
    ultimately show ?thesis by blast
  qed
qed

text \<open>Callers write into what they hold.\<close>

lemma owned_write:
  assumes h: "heap_inv s lay" and o: "owned s lay own" and p: "own p = Some bs" and l: "length bs' = length bs"
    and m: "\<And>x. x < p \<or> p + length bs \<le> x \<Longrightarrow> m' x = kmem s x" and b: "bytes_at m' p (length bs) = bs'"
  shows "heap_inv (s\<lparr>kmem := m'\<rparr>) lay" "owned (s\<lparr>kmem := m'\<rparr>) lay (own(p \<mapsto> bs'))"
proof -
  obtain i k where i: "p = 16 * (i + 1)" "(i, k) \<in> Used lay" "length bs \<le> 16 * (k - 1)" using ownedD [OF o p] by metis
  note g = write_granules [OF i(2) m [unfolded i(1)] i(3)]
  show "heap_inv (s\<lparr>kmem := m'\<rparr>) lay" by (rule heap_inv_write [OF h]) (rule g(1))
  have kp: "keeps s (s\<lparr>kmem := m'\<rparr>) {j. \<not> (i < j \<and> j < i + k)}" unfolding keeps_def using g(2) by simp
  have "\<exists>i' k'. q = 16 * (i' + 1) \<and> (i', k') \<in> Used lay \<and> length cs \<le> 16 * (k' - 1) \<and> bytes_at (kmem (s\<lparr>kmem := m'\<rparr>)) q (length cs) = cs"
    if q: "(own(p \<mapsto> bs')) q = Some cs" for q cs
  proof (cases "q = p")
    case True
    then show ?thesis using q b l i by auto
  next
    case False
    then have "own q = Some cs" using q by simp
    then obtain i' k' where i': "q = 16 * (i' + 1)" "(i', k') \<in> Used lay" "length cs \<le> 16 * (k' - 1)" "bytes_at (kmem s) q (length cs) = cs" by (rule ownedD [OF o])
    have "i + k \<le> i' \<or> i' + k' \<le> i" using Used_apart [OF h i(2) i'(2)] False i(1) i'(1) by auto
    then have "bytes_at (kmem (s\<lparr>kmem := m'\<rparr>)) (16 * (i' + 1)) (length cs) = bytes_at (kmem s) (16 * (i' + 1)) (length cs)"
      by (intro bytes_keep [OF kp _ i'(3)]) auto
    then show ?thesis using i' by auto
  qed
  moreover have "(own(p \<mapsto> bs')) (16 * (i' + 1)) \<noteq> None" if "(i', k') \<in> Used lay" for i' k'
    using that o unfolding owned_def by auto
  ultimately show "owned (s\<lparr>kmem := m'\<rparr>) lay (own(p \<mapsto> bs'))" unfolding owned_def by blast
qed

lemma state_write:
  assumes "heap_state s own" "own p = Some bs" "length bs' = length bs"
    and "\<And>x. x < p \<or> p + length bs \<le> x \<Longrightarrow> m' x = kmem s x" "bytes_at m' p (length bs) = bs'"
  shows "heap_state (s\<lparr>kmem := m'\<rparr>) (own(p \<mapsto> bs'))"
proof -
  obtain lay where l: "heap_inv s lay" "stats_ok s lay" "owned s lay own" using assms(1) unfolding heap_state_def by blast
  have "stats_ok (s\<lparr>kmem := m'\<rparr>) lay" using l(2) unfolding stats_ok_def by simp
  then show ?thesis using owned_write [OF l(1,3) assms(2-5)] unfolding heap_state_def by blast
qed

lemma kzalloc_ok:
  assumes h: "heap_inv s lay" "stats_ok s lay" "owned s lay own" and sz: "unat sz + 15 < 2 ^ 64" and f: "fresh_pages s (fst pg) (heap_round sz)"
  shows "\<exists>s' p. kzalloc pg sz s = Some (s', p) \<and>
    (p = 0 \<and> s' = s \<or> p \<noteq> 0 \<and> own p = None \<and> heap_state s' (own(p \<mapsto> replicate (unat sz) 0)))"
proof -
  obtain s1 p where a: "kmalloc pg sz s = Some (s1, p)" "p = 0 \<and> s1 = s \<or> handed s own s1 p (unat sz)" using kmalloc_ok [OF assms] by blast
  show ?thesis
  proof (cases "p = 0")
    case True
    then show ?thesis using a unfolding kzalloc_def handed_def by simp
  next
    case False
    then have d: "own p = None" "heap_state s1 (own(p \<mapsto> bytes_at (kmem s1) p (unat sz)))" using a(2) unfolding handed_def by simp_all
    define m' where "m' = memset (kmem s1) p 0 (unat sz)"
    have "heap_state (s1\<lparr>kmem := m'\<rparr>) ((own(p \<mapsto> bytes_at (kmem s1) p (unat sz)))(p \<mapsto> replicate (unat sz) 0))"
    proof (rule state_write [OF d(2)])
      show "bytes_at m' p (length (bytes_at (kmem s1) p (unat sz))) = replicate (unat sz) 0"
        unfolding bytes_at_def m'_def memset_filled filled_def by (simp add: map_replicate_trivial list_eq_iff_nth_eq)
    qed (auto simp: m'_def memset_filled filled_def)
    moreover have "kzalloc pg sz s = Some (s1\<lparr>kmem := m'\<rparr>, p)" unfolding kzalloc_def a(1) m'_def using False by simp
    ultimately show ?thesis using False d(1) by simp
  qed
qed

text \<open>\<open>kcalloc\<close> refuses a product that would not fit, so the product is exact.\<close>

lemma calloc_product:
  assumes "\<not> (n \<noteq> 0 \<and> sz > HEAP_MAX_BYTES div n)"
  shows "unat (n * sz) = unat n * unat sz" "unat n * unat sz \<le> 2 ^ 30"
proof -
  show b: "unat n * unat sz \<le> 2 ^ 30"
  proof (cases "n = 0")
    case False
    then have "unat sz \<le> unat (HEAP_MAX_BYTES div n)" using assms by (simp add: word_le_nat_alt not_less)
    then have "unat sz \<le> 2 ^ 30 div unat n" unfolding unat_div by (simp add: HEAP_MAX_BYTES_def)
    then show ?thesis by (metis div_times_less_eq_dividend mult.commute mult_le_mono1 order_trans)
  qed simp
  then show "unat (n * sz) = unat n * unat sz" by (simp add: unat_word_ariths)
qed

section \<open>Release\<close>

lemma in_row: "heap_inv s lay \<Longrightarrow> (b, k) \<in> Used lay \<Longrightarrow> \<exists>a xs. lay a = Some xs \<and> a \<le> b \<and> b + k \<le> a + ext xs"
proof -
  assume h: "heap_inv s lay" and b: "(b, k) \<in> Used lay"
  then have "(b, k, False) \<in> Blks lay" unfolding Used_def by simp
  then obtain a ys zs where a: "lay a = Some (ys @ (k, False) # zs)" "b = a + ext ys" by (rule heap_block [OF h])
  then show ?thesis by (intro exI [of _ a] exI [of _ "ys @ (k, False) # zs"]) simp
qed

lemma find_unique:
  assumes "x \<in> set xs" "P x" "\<And>y. y \<in> set xs \<Longrightarrow> P y \<Longrightarrow> y = x"
  shows "find P xs = Some x"
  using assms
proof (induction xs)
  case (Cons z xs)
  show ?case
  proof (cases "P z")
    case True
    then have "z = x" by (intro Cons.prems(3)) simp_all
    then show ?thesis using True by simp
  next
    case False
    then have "x \<in> set xs" using Cons.prems(1,2) by auto
    then have "find P xs = Some x" 
    proof (rule Cons.IH)
      show "P x" by (rule Cons.prems(2))
      show "y = x" if "y \<in> set xs" "P y" for y by (rule Cons.prems(3)) (simp_all add: that)
    qed
    then show ?thesis using False by simp
  qed
qed simp

lemma align_bits: "of_nat (16 * n) AND (HEAP_ALIGN - 1) = (0 :: u64)"
proof -
  have e: "HEAP_ALIGN - 1 = (mask 4 :: u64)" by (simp add: HEAP_ALIGN_def mask_eq_exp_minus_1)
  show ?thesis unfolding e by (rule bit_word_eqI) (use bit_of_nat_16 [of n] in \<open>fastforce simp: bit_and_iff bit_mask_iff simp del: of_nat_mult\<close>)
qed

lemma block_own_used:
  assumes h: "heap_inv s lay" and b: "(b, k) \<in> Used lay"
  shows "block_own (16 * (b + 1)) (16 * b) s" "blk_size (kmem s) (16 * b) AND HEAP_FREE = 0"
proof -
  obtain pf where hb: "snd (gr (kmem s) b) = hw k False pf" using used_header [OF h b] by blast
  show "blk_size (kmem s) (16 * b) AND HEAP_FREE = 0" unfolding blk_gr hb hw_bits by simp
  obtain a xs where a: "lay a = Some xs" "a \<le> b" "b + k \<le> a + ext xs" using in_row [OF h b] by blast
  note bb = used_bounds [OF h b]
  define e where "e = \<lparr>area_mem = 16 * a, area_bytes = of_nat (16 * (ext xs + 1)) :: u64\<rparr>"
  let ?P = "\<lambda>a. \<not> (16 * b < area_mem a \<or> 16 * b \<ge> area_mem a + unat (area_bytes a))"
  have E: "area_mem e = 16 * a" "unat (area_bytes e) = 16 * (ext xs + 1)" unfolding e_def using area_entry(2) [OF h a(1)] by simp_all
  have "find ?P (kheap_areas s) = Some e"
  proof (rule find_unique)
    show "e \<in> set (kheap_areas s)" unfolding e_def by (rule area_entry(1) [OF h a(1)])
    show "?P e" unfolding E using a bb by simp
    fix y assume y: "y \<in> set (kheap_areas s)" "?P y"
    then obtain a' xs' where a': "lay a' = Some xs'" "y = \<lparr>area_mem = 16 * a', area_bytes = of_nat (16 * (ext xs' + 1))\<rparr>"
      using heap_invD(3) [OF h] unfolding areas_ok_def by auto
    have "a' \<le> b" "b < a' + ext xs' + 1" using y(2) area_entry(2) [OF h a'(1)] unfolding a'(2) by simp_all
    then have "a' = a" using geoD(5) [OF heap_invD(4) [OF h] a(1) a'(1)] a(2,3) bb by auto
    then show "y = e" using a' a(1) unfolding e_def by simp
  qed
  moreover have "HEAP_MIN_BLOCK \<le> of_nat (16 * k)" 
  proof -
    have "HEAP_MIN_BLOCK = of_nat (16 * 2)" by (simp add: HEAP_MIN_BLOCK_def HEAP_HDR_def)
    then show ?thesis using granules_le [of 2 k] bb by simp
  qed
  moreover note align_bits [of "b + 1"] align_bits [of k]
  moreover have "block_next (kmem s) (16 * b) \<le> area_mem e + unat (area_bytes e)"
    unfolding E using next_gr [OF hb] bb a(3) by simp
  ultimately show "block_own (16 * (b + 1)) (16 * b) s" unfolding block_own_def Let_def total_hw [OF hb] by simp
qed

lemma release_stats:
  assumes h: "heap_inv s lay" and b: "(b, k) \<in> Used lay"
  shows "of_nat (used_sum (Used lay)) - (of_nat (16 * k) :: u32) = of_nat (used_sum (Used lay - {(b, k)}))"
    "of_nat (card (Used lay)) - (1 :: u32) = of_nat (card (Used lay - {(b, k)}))"
proof -
  have f: "finite (Used lay)" by (rule finite_Used [OF h])
  show "of_nat (used_sum (Used lay)) - (of_nat (16 * k) :: u32) = of_nat (used_sum (Used lay - {(b, k)}))"
    unfolding sum_remove [OF f b] by simp
  have "card (Used lay) = Suc (card (Used lay - {(b, k)}))" using card.remove [OF f b] .
  then show "of_nat (card (Used lay)) - (1 :: u32) = of_nat (card (Used lay - {(b, k)}))" by simp
qed

lemma kfree_ok:
  assumes h: "heap_inv s lay" "stats_ok s lay" "owned s lay own" and p: "own p = Some bs"
  shows "\<exists>s'. kfree p s = Inr s' \<and> heap_state s' (own(p := None))"
proof -
  obtain b k where b: "p = 16 * (b + 1)" "(b, k) \<in> Used lay" using ownedD [OF h(3) p] by metis
  have "k < 2 ^ 60" using used_bounds [OF h(1) b(2)] by simp
  then have t: "(ucast (block_total (kmem s) (16 * b)) :: u32) = of_nat (16 * k)" unfolding used_total [OF h(1) b(2)] by (rule ucast_total)
  define s1 where "s1 = s\<lparr>kheap_used_bytes := kheap_used_bytes s - of_nat (16 * k), kheap_alloc_count := kheap_alloc_count s - 1\<rparr>"
  have e: "kfree p s = Inr (block_release (16 * b) s1)"
    unfolding kfree_def b(1) from_user Let_def t s1_def using block_own_used [OF h(1) b(2)] by simp
  have h1: "heap_inv s1 lay" by (rule heap_inv_frame [OF h(1)]) (simp_all add: s1_def)
  obtain lay' where l: "heap_inv (block_release (16 * b) s1) lay'" "same_rest s1 (block_release (16 * b) s1)" "Used lay' = Used lay - {(b, k)}"
    "keeps s1 (block_release (16 * b) s1) (intr lay')"
    using release_inv [OF h1 b(2)] by blast
  have "stats_ok (block_release (16 * b) s1) lay'"
    using h(2) l(2) release_stats [OF h(1) b(2)] unfolding stats_ok_def l(3) same_rest_def s1_def by (simp del: of_nat_mult)
  moreover have "owned s1 lay own" by (rule owned_frame [OF h(3)]) (simp add: s1_def)
  then have "owned (block_release (16 * b) s1) lay' (own(p := None))" unfolding b(1) by (rule owned_del [OF _ h1 l(4,3) b(2)])
  ultimately show ?thesis using e l(1) unfolding heap_state_def by blast
qed

end
