(* ===== verification/Kheap_Resize.thy ===== *)
theory Kheap_Resize
  imports Kheap_Ops
begin

text \<open>
  \<open>krealloc\<close> of \<open>src/kernel/mm/kheap.c\<close>: cutting a block where it stands, growing it into a free successor, and the copy into a new
  block.
\<close>

text \<open>What the caller gets: the old bytes as far as they fit, then whatever the block held.\<close>

definition resized :: "u8 list \<Rightarrow> mem \<Rightarrow> nat \<Rightarrow> nat \<Rightarrow> u8 list" where
  "resized bs m p n = take n bs @ drop (length bs) (bytes_at m p n)"

lemma bytes_at_nth: "i < n \<Longrightarrow> bytes_at m p n ! i = m (p + i)"
  by (simp add: bytes_at_def)

lemma length_resized [simp]: "length (resized bs m p n) = n"
  by (simp add: resized_def)

lemma resized_bytes:
  assumes "\<And>i. i < length bs \<Longrightarrow> i < n \<Longrightarrow> m (p + i) = bs ! i"
  shows "bytes_at m p n = resized bs m p n"
proof (rule nth_equalityI)
  fix i assume "i < length (bytes_at m p n)"
  then show "bytes_at m p n ! i = resized bs m p n ! i"
    using assms [of i] by (cases "i < length bs") (simp_all add: resized_def nth_append bytes_at_nth min_def)
qed simp

lemma resized_again:
  assumes "bytes_at m' p n = resized bs m p n"
  shows "resized bs m p n = resized bs m' p n"
proof -
  have "m' (p + i) = bs ! i" if "i < length bs" "i < n" for i
  proof -
    have "m' (p + i) = resized bs m p n ! i" using assms bytes_at_nth [OF that(2)] by metis
    then show ?thesis using that by (simp add: resized_def nth_append)
  qed
  then show ?thesis using resized_bytes [of bs n m' p] assms by simp
qed

lemma bytes_atD: "bytes_at m p (length bs) = bs \<Longrightarrow> i < length bs \<Longrightarrow> m (p + i) = bs ! i"
  by (metis bytes_at_nth)

text \<open>A block that keeps its place.\<close>

lemma resize_in_place:
  assumes h: "heap_inv s lay" "stats_ok s lay" "owned s lay own" and b: "(b, k) \<in> Used lay" "own (16 * (b + 1)) = Some bs"
    and h': "heap_inv s' lay'" "same_rest s s'" and U: "Used lay' = Used lay - {(b, k)} \<union> {(b, k')}" and kp: "keeps s s' (intr lay \<inter> intr lay')"
    and n: "n \<le> 16 * (k' - 1)"
  defines "t \<equiv> stats_peak (s'\<lparr>kheap_used_bytes := kheap_used_bytes s' + ucast (block_total (kmem s') (16 * b)) - ucast (block_total (kmem s) (16 * b))\<rparr>)"
  shows "heap_state t (own(16 * (b + 1) \<mapsto> resized bs (kmem t) (16 * (b + 1)) n))"
proof -
  have b': "(b, k') \<in> Used lay'" unfolding U by simp
  have nb: "(b, k') \<notin> Used lay - {(b, k)}" using Used_unique [OF h(1) b(1), of k'] by auto
  have k60: "k < 2 ^ 60" "k' < 2 ^ 60" using used_bounds [OF h(1) b(1)] used_bounds [OF h'(1) b'] by simp_all
  have h2: "heap_inv t lay'" by (rule heap_inv_frame [OF h'(1)]) (simp_all add: t_def)
  have f: "finite (Used lay)" by (rule finite_Used [OF h(1)])
  have u: "used_sum (Used lay') + 16 * k = used_sum (Used lay) + 16 * k'"
    using sum_remove [OF f b(1)] sum_insert [of "Used lay - {(b, k)}" b k'] f nb unfolding U by simp
  have c: "card (Used lay') = card (Used lay)" using f nb card.remove [OF f b(1)] unfolding U by simp
  have "kheap_used_bytes t + of_nat (16 * k) = kheap_used_bytes s + of_nat (16 * k')"
    unfolding t_def using h'(2) k60 by (simp add: used_total [OF h(1) b(1)] used_total [OF h'(1) b'] ucast_total same_rest_def del: of_nat_mult)
  also have "\<dots> = of_nat (used_sum (Used lay)) + of_nat (16 * k')" using h(2) unfolding stats_ok_def by simp
  also have "\<dots> = of_nat (used_sum (Used lay')) + of_nat (16 * k)" using u by (metis of_nat_add)
  finally have "kheap_used_bytes t = of_nat (used_sum (Used lay'))" by simp
  then have st: "stats_ok t lay'" using h(2) h'(2) c unfolding stats_ok_def same_rest_def by (simp add: t_def)
  obtain l: "length bs \<le> 16 * (k - 1)" "bytes_at (kmem s) (16 * (b + 1)) (length bs) = bs"
    using ownedD [OF h(3) b(2)] Used_unique [OF h(1) b(1)] by (metis add_right_cancel mult_left_cancel zero_neq_numeral)
  have kt: "keeps s t (intr lay \<inter> intr lay')" by (rule keeps_frame [OF kp]) (simp add: t_def)
  have "bytes_at (kmem t) (16 * (b + 1)) (min n (length bs)) = bytes_at (kmem s) (16 * (b + 1)) (min n (length bs))"
    by (rule bytes_keep [where k = "min k k'", OF kt]) (use n l(1) Used_intr [OF b(1)] Used_intr [OF b'] in auto)
  then have "kmem t (16 * (b + 1) + i) = bs ! i" if "i < length bs" "i < n" for i
    using that bytes_atD [OF l(2) that(1)] by (metis bytes_at_nth min_less_iff_conj)
  then have "bytes_at (kmem t) (16 * (b + 1)) n = resized bs (kmem t) (16 * (b + 1)) n" by (rule resized_bytes)
  then have "owned t lay' (own(16 * (b + 1) \<mapsto> resized bs (kmem t) (16 * (b + 1)) n))"
    using n by (intro owned_resize [OF h(3,1) kt U b(1)]) simp_all
  then show ?thesis using h2 st unfolding heap_state_def by blast
qed

text \<open>Growing into a free successor.\<close>

lemma absorb_inv:
  assumes h: "heap_inv s lay" and b: "(b, k) \<in> Used lay" and n: "blk_size (kmem s) (16 * (b + k)) AND HEAP_FREE \<noteq> 0"
  shows "\<exists>kn lay'. block_total (kmem s) (16 * (b + k)) = of_nat (16 * kn) \<and> kn < 2 ^ 20 \<and>
    (let s' = absorb (16 * b) (of_nat (16 * (k + kn))) (freelist_remove (16 * (b + k)) s)
     in heap_inv s' lay' \<and> same_rest s s' \<and> Used lay' = Used lay - {(b, k)} \<union> {(b, k + kn)} \<and> keeps s s' (intr lay))"
proof -
  have "(b, k, False) \<in> Blks lay" using b unfolding Used_def by simp
  then obtain a ys zs where a: "lay a = Some (ys @ (k, False) # zs)" "b = a + ext ys" by (rule heap_block [OF h])
  note w = heap_invD(1) [OF h] and g = heap_invD(4) [OF h]
  obtain kz fz ws where z: "zs @ [(0, False)] = (kz, fz) # ws" using end_cases by blast
  have hn: "snd (gr (kmem s) (b + k)) = hw kz fz False" using row_mem(3) [OF w, of a ys "[(k, False)]" zs, OF _ z, folded a(2)] a(1) by simp
  have "fz" using n unfolding blk_gr hn hw_bits by (auto split: if_splits)
  then obtain zs' where zs: "zs = (kz, True) # zs'" using z by (cases zs) auto
  have a': "lay a = Some (ys @ (k, False) # (kz, True) # zs')" using a(1) unfolding zs .
  have n: "(b + k, kz, True) \<in> Blks lay" using BlksI [of lay a "ys @ (k, False) # (kz, True) # zs'" "(b + k, kz, True)", OF a'] by (simp add: blks_append a(2))
  define s1 where "s1 = freelist_remove (16 * (b + k)) s"
  have r: "rel_step s lay s1 lay {b + k}" using rel_remove [OF w n] unfolding s1_def by simp
  then have w1: "winv s1 lay {b + k}" unfolding rel_step_def by blast
  define s' where "s' = absorb (16 * b) (of_nat (16 * (k + kz))) s1"
  define lay' where "lay' = lay(a \<mapsto> ys @ (k + kz, False) # zs')"
  note ab = step_absorb [OF w1 a' a(2), folded s'_def lay'_def, simplified]
  have kz: "kz < 2 ^ 20" using Blks_bounds [OF g n] by simp
  have sr: "same_rest s s'" using r ab(2) same_rest_trans unfolding rel_step_def by blast
  have "apart False zs'" using heap_invD(2) [OF h a'] by (cases zs') (auto simp: apart_append)
  then have ap: "apart False (ys @ (k + kz, False) # zs')" using heap_invD(2) [OF h a'] by (simp add: apart_append)
  have "heap_inv s' lay'" unfolding lay'_def by (rule heap_inv_upd [OF h a' ab(1) [unfolded lay'_def] ap _ sr]) simp
  moreover have "Used lay' = Used lay - {(b, k)} \<union> {(b, k + kz)}"
    using Used_replace [OF g, of a ys "[(k, False), (kz, True)]" zs' "[(k + kz, False)]"] a' a(2) unfolding lay'_def by auto
  moreover have "keeps s s' (intr lay)"
    using keeps_trans [of s _ "intr lay" s' "intr lay" "intr lay"] keeps_headers [OF w1 ab(3)] r unfolding rel_step_def by blast
  moreover have "block_total (kmem s) (16 * (b + k)) = of_nat (16 * kz)" by (rule total_hw [OF hn])
  ultimately show ?thesis unfolding Let_def s1_def [symmetric] s'_def [symmetric] using sr kz by (intro exI [of _ kz] exI [of _ lay']) (simp only: s'_def [symmetric] simp_thms)
qed

text \<open>The copy into a new block.\<close>

lemma move_owned:
  assumes h: "heap_inv s lay" "owned s lay own" and b: "(b, k) \<in> Used lay" "own (16 * (b + 1)) = Some bs"
    and l: "heap_inv s1 lay1" "(i, k2) \<notin> Used lay" "Used lay1 = insert (i, k2) (Used lay)" "keeps s s1 (intr lay)"
    and n: "n \<le> 16 * (k2 - 1)" "16 * (k - 1) \<le> n"
  defines "s2 \<equiv> s1\<lparr>kmem := memcpy (kmem s1) (16 * (i + 1)) (16 * (b + 1)) (16 * (k - 1))\<rparr>"
  shows "heap_inv s2 lay1" "owned s2 lay1 (own(16 * (i + 1) \<mapsto> resized bs (kmem s2) (16 * (i + 1)) n))" "own (16 * (i + 1)) = None" "i \<noteq> b"
proof -
  define np where "np = 16 * (i + 1)"
  define own1 where "own1 = own(np \<mapsto> bytes_at (kmem s1) np n)"
  have o1: "owned s1 lay1 own1" and new: "own np = None"
    using owned_add [OF h(2) l(1,4,3,2), of "bytes_at (kmem s1) np n"] n(1) unfolding own1_def np_def by simp_all
  show "own (16 * (i + 1)) = None" using new unfolding np_def .
  show ib: "i \<noteq> b" using new b(2) unfolding np_def by auto
  have b1: "(b, k) \<in> Used lay1" "(i, k2) \<in> Used lay1" using b(1) l(3) by simp_all
  have "own1 (16 * (b + 1)) = Some bs" using b(2) ib unfolding own1_def np_def by simp
  then obtain bs1: "length bs \<le> 16 * (k - 1)" "bytes_at (kmem s1) (16 * (b + 1)) (length bs) = bs"
    using ownedD [OF o1, of "16 * (b + 1)" bs] Used_unique [OF l(1) b1(1)] by (metis add_right_cancel mult_left_cancel zero_neq_numeral)
  have k: "2 \<le> k" "2 \<le> k2" using used_bounds [OF l(1) b1(1)] used_bounds [OF l(1) b1(2)] by simp_all
  have "i + k2 \<le> b \<or> b + k \<le> i" using Used_apart [OF l(1) b1(2,1) ib] .
  then have "np \<le> 16 * (b + 1) \<or> 16 * (b + 1) + 16 * (k - 1) \<le> np" using k unfolding np_def by auto
  then have m: "kmem s2 = copied (kmem s1) np (16 * (b + 1)) (16 * (k - 1))" unfolding s2_def np_def [symmetric] by (simp add: memcpy_copied)
  have "kmem s2 (np + j) = bs ! j" if "j < length bs" "j < n" for j
    using that bs1(1) bytes_atD [OF bs1(2) that(1)] unfolding m copied_def by simp
  then have r: "bytes_at (kmem s2) np n = resized bs (kmem s2) np n" by (rule resized_bytes)
  have p1: "own1 np = Some (bytes_at (kmem s1) np n)" unfolding own1_def by simp
  have out: "kmem s2 x = kmem s1 x" if "x < np \<or> np + length (bytes_at (kmem s1) np n) \<le> x" for x
    using that n(2) unfolding m copied_def by auto
  have s2: "s2 = s1\<lparr>kmem := kmem s2\<rparr>" unfolding s2_def by simp
  have "length (resized bs (kmem s2) np n) = length (bytes_at (kmem s1) np n)" by simp
  note w = owned_write [OF l(1) o1 p1 this out, folded s2, simplified, OF r]
  show "heap_inv s2 lay1" by (rule w(1))
  show "owned s2 lay1 (own(16 * (i + 1) \<mapsto> resized bs (kmem s2) (16 * (i + 1)) n))" using w(2) unfolding own1_def np_def by simp
qed

lemma moved_stats:
  assumes "finite U" "(b, k) \<in> U" "(i, k2) \<notin> U"
  shows "used_sum (insert (i, k2) U - {(b, k)}) + 16 * k = used_sum U + 16 * k2" "card (insert (i, k2) U - {(b, k)}) = card U"
proof -
  have e: "insert (i, k2) U - {(b, k)} = insert (i, k2) (U - {(b, k)})" using assms by auto
  show "used_sum (insert (i, k2) U - {(b, k)}) + 16 * k = used_sum U + 16 * k2"
    unfolding e using assms sum_remove [OF assms(1,2)] by (simp add: sum_insert)
  show "card (insert (i, k2) U - {(b, k)}) = card U" unfolding e using assms card.remove [OF assms(1,2)] by simp
qed

lemma move_ok:
  assumes h: "heap_inv s lay" "stats_ok s lay" "owned s lay own" and b: "(b, k) \<in> Used lay" "own (16 * (b + 1)) = Some bs"
    and a: "alloc_ok s lay r s1 np" and n: "n \<le> 16 * r" "16 * (k - 1) \<le> n"
  defines "s3 \<equiv> block_release (16 * b) (s1\<lparr>kmem := memcpy (kmem s1) np (16 * (b + 1)) (16 * (k - 1))\<rparr>)"
  defines "t \<equiv> stats_peak (s3\<lparr>kheap_used_bytes := kheap_used_bytes s3 + ucast (block_total (kmem s3) (block_from np)) - ucast (block_total (kmem s) (16 * b))\<rparr>)"
  shows "np \<noteq> 0 \<and> own np = None \<and> heap_state t ((own(16 * (b + 1) := None))(np \<mapsto> resized bs (kmem t) np n))"
proof -
  obtain lay1 i k2 where l: "np = 16 * (i + 1)" "heap_inv s1 lay1" "(i, k2) \<notin> Used lay" "Used lay1 = insert (i, k2) (Used lay)" "r + 1 \<le> k2"
    "keeps s s1 (intr lay)" "kheap_used_bytes s1 = kheap_used_bytes s" "kheap_alloc_count s1 = kheap_alloc_count s"
    using a unfolding alloc_ok_def by blast
  define s2 where "s2 = s1\<lparr>kmem := memcpy (kmem s1) np (16 * (b + 1)) (16 * (k - 1))\<rparr>"
  have n2: "n \<le> 16 * (k2 - 1)" using n(1) l(5) by linarith
  note mv = move_owned [OF h(1,3) b l(2,3,4,6) n2 n(2), folded l(1), folded s2_def]
  have b1: "(b, k) \<in> Used lay1" unfolding l(4) using b(1) by simp
  obtain lay3 where l3: "heap_inv s3 lay3" "same_rest s2 s3" "Used lay3 = Used lay1 - {(b, k)}" "keeps s2 s3 (intr lay3)"
    using release_inv [OF mv(1) b1] unfolding s3_def s2_def [symmetric] by blast
  have ik: "(i, k2) \<in> Used lay3" unfolding l3(3) l(4) using mv(4) by simp
  have h3: "heap_inv t lay3" by (rule heap_inv_frame [OF l3(1)]) (simp_all add: t_def)
  have k60: "k < 2 ^ 60" "k2 < 2 ^ 60" using used_bounds [OF h(1) b(1)] used_bounds [OF l3(1) ik] by simp_all
  note ms = moved_stats [OF finite_Used [OF h(1)] b(1) l(3), folded l(4), folded l3(3)]
  have "kheap_used_bytes t + of_nat (16 * k) = kheap_used_bytes s3 + of_nat (16 * k2)"
    unfolding t_def l(1) from_user using k60 by (simp add: used_total [OF h(1) b(1)] used_total [OF l3(1) ik] ucast_total del: of_nat_mult)
  also have "\<dots> = of_nat (used_sum (Used lay)) + of_nat (16 * k2)" using h(2) l(7) l3(2) unfolding stats_ok_def same_rest_def s2_def by simp
  also have "\<dots> = of_nat (used_sum (Used lay3)) + of_nat (16 * k)" using ms(1) by (metis of_nat_add)
  finally have "kheap_used_bytes t = of_nat (used_sum (Used lay3))" by simp
  then have st: "stats_ok t lay3" using h(2) l(8) l3(2) ms(2) unfolding stats_ok_def same_rest_def s2_def by (simp add: t_def)
  define w where "w = resized bs (kmem s2) np n"
  have kt: "keeps s2 t (intr lay3)" by (rule keeps_frame [OF l3(4)]) (simp add: t_def)
  have "owned t lay3 ((own(np \<mapsto> w))(16 * (b + 1) := None))" unfolding w_def by (rule owned_del [OF mv(2,1) kt l3(3) b1])
  moreover have "(own(np \<mapsto> w))(16 * (b + 1) := None) = (own(16 * (b + 1) := None))(np \<mapsto> w)" using mv(4) l(1) by (auto simp: fun_eq_iff)
  ultimately have o: "owned t lay3 ((own(16 * (b + 1) := None))(np \<mapsto> w))" by simp
  then have "bytes_at (kmem t) np n = w" using ownedD [OF o, of np w] unfolding w_def by (metis fun_upd_same length_resized)
  then have "w = resized bs (kmem t) np n" unfolding w_def by (rule resized_again)
  then show ?thesis using h3 st o mv(3) l(1) unfolding heap_state_def by auto
qed

section \<open>\<open>krealloc\<close>\<close>

definition realloc_ok :: "(nat \<rightharpoonup> u8 list) \<Rightarrow> nat \<Rightarrow> u8 list \<Rightarrow> nat \<Rightarrow> kheap \<Rightarrow> kheap \<Rightarrow> nat \<Rightarrow> bool" where
  "realloc_ok own p bs n s s' q \<longleftrightarrow>
     (if q = 0 then s' = s else (q = p \<or> own q = None) \<and> heap_state s' ((own(p := None))(q \<mapsto> resized bs (kmem s') q n)))"

text \<open>The statistics at the end of \<open>krealloc\<close>.\<close>

definition realloc_stats :: "nat \<Rightarrow> kheap \<Rightarrow> nat \<Rightarrow> kheap \<Rightarrow> kheap" where
  "realloc_stats b s np s' =
     stats_peak (s'\<lparr>kheap_used_bytes := kheap_used_bytes s' + ucast (block_total (kmem s') (block_from np)) - ucast (block_total (kmem s) b)\<rparr>)"

lemma krealloc_alt:
  assumes h: "heap_inv s lay" and b: "(b, k) \<in> Used lay" and sz: "sz \<noteq> 0"
  shows "krealloc pg (16 * (b + 1)) sz s = map_option (\<lambda>(s', np). Inr (if np \<noteq> 0 then realloc_stats (16 * b) s np s' else s', np)) (krealloc_block pg (16 * (b + 1)) sz s)"
  unfolding krealloc_def from_user Let_def realloc_stats_def using block_own_used [OF h b] sz by (auto split: option.split)

lemma payload_word: "1 \<le> k \<Longrightarrow> of_nat (16 * k) - HEAP_HDR = (of_nat (16 * (k - 1)) :: u64)"
  by (cases k) (simp_all add: HEAP_HDR_def)

lemma trim_place:
  assumes h: "heap_inv s lay" "stats_ok s lay" "owned s lay own" and b: "(b, k) \<in> Used lay" "own (16 * (b + 1)) = Some bs"
    and s1: "heap_inv s1 lay1" "same_rest s s1" "Used lay1 = Used lay - {(b, k)} \<union> {(b, k1)}" "keeps s s1 (intr lay)"
    and n: "n \<le> 16 * r" "1 \<le> r" "r + 1 \<le> k1"
  defines "s2 \<equiv> block_trim_used (16 * b) (of_nat (16 * r)) s1"
  shows "realloc_ok own (16 * (b + 1)) bs n s (realloc_stats (16 * b) s (16 * (b + 1)) s2) (16 * (b + 1))"
proof -
  have b1: "(b, k1) \<in> Used lay1" unfolding s1(3) by simp
  have r: "r < 2 ^ 59" using used_bounds [OF s1(1) b1] n(3) by simp
  obtain lay2 where l2: "heap_inv s2 lay2" "same_rest s1 s2" "Used lay2 = Used lay1 - {(b, k1)} \<union> {(b, trimmed k1 r)}" "keeps s1 s2 (intr lay2)"
    using trim_inv [OF s1(1) b1 n(2) r] unfolding s2_def by blast
  have "(b, k1) \<notin> Used lay - {(b, k)}" using Used_unique [OF h(1) b(1), of k1] by auto
  then have U: "Used lay2 = Used lay - {(b, k)} \<union> {(b, trimmed k1 r)}" unfolding l2(3) s1(3) by blast
  have kp: "keeps s s2 (intr lay \<inter> intr lay2)" using s1(4) l2(4) unfolding keeps_def by simp
  have n': "n \<le> 16 * (trimmed k1 r - 1)" using n unfolding trimmed_def by auto
  show ?thesis
    using resize_in_place [OF h b l2(1) same_rest_trans [OF s1(2) l2(2)] U kp n']
    unfolding realloc_ok_def realloc_stats_def from_user by simp
qed

lemma krealloc_block_alt:
  assumes "heap_inv s lay" "(b, k) \<in> Used lay" "heap_round sz = of_nat (16 * r)" "r < 2 ^ 60"
  shows "krealloc_block pg (16 * (b + 1)) sz s =
    (if r \<le> k - 1 then Some (block_trim_used (16 * b) (of_nat (16 * r)) s, 16 * (b + 1))
     else let n = 16 * (b + k); grown = of_nat (16 * k) + block_total (kmem s) n
       in if blk_size (kmem s) n AND HEAP_FREE \<noteq> 0 \<and> grown - HEAP_HDR \<ge> of_nat (16 * r)
          then Some (block_trim_used (16 * b) (of_nat (16 * r)) (absorb (16 * b) grown (freelist_remove n s)), 16 * (b + 1))
          else case heap_alloc pg sz s of None \<Rightarrow> None
            | Some (s, np) \<Rightarrow> Some (if np \<noteq> 0 then block_release (16 * b) (s\<lparr>kmem := memcpy (kmem s) np (16 * (b + 1))
                (unat (if of_nat (16 * (k - 1)) < sz then of_nat (16 * (k - 1)) else sz))\<rparr>) else s, np))"
proof -
  note bb = used_bounds [OF assms(1,2)]
  obtain pf where hb: "snd (gr (kmem s) b) = hw k False pf" using used_header [OF assms(1,2)] by blast
  have k60: "k < 2 ^ 60" "k - 1 < 2 ^ 60" using bb by linarith+
  have nx: "block_next (kmem s) (16 * b) = 16 * (b + k)" by (rule next_gr [OF hb k60(1)])
  have pw: "of_nat (16 * k) - HEAP_HDR = (of_nat (16 * (k - 1)) :: u64)" by (rule payload_word) (use bb in linarith)
  have c: "of_nat (16 * r) \<le> (of_nat (16 * (k - 1)) :: u64) \<longleftrightarrow> r \<le> k - 1" by (rule granules_le [OF assms(4) k60(2)])
  show ?thesis unfolding krealloc_block_def from_user assms(3) Let_def used_total [OF assms(1,2)] nx pw c absorb_def by (rule refl)
qed

lemma granules_large: "k \<le> granules sz \<Longrightarrow> 1 \<le> k \<Longrightarrow> 16 * (k - 1) < unat sz"
  unfolding granules_def by (cases k) auto

lemma krealloc_ok:
  assumes h: "heap_inv s lay" "stats_ok s lay" "owned s lay own" and p: "own p = Some bs"
    and sz: "sz \<noteq> 0" "unat sz + 15 < 2 ^ 64" and f: "fresh_pages s (fst pg) (heap_round sz)"
  shows "\<exists>s' q. krealloc pg p sz s = Some (Inr (s', q)) \<and> realloc_ok own p bs (unat sz) s s' q"
proof -
  obtain b k where b: "p = 16 * (b + 1)" "(b, k) \<in> Used lay" using ownedD [OF h(3) p] by metis
  note pb = p [unfolded b(1)]
  define r where "r = granules sz"
  note gp = granules_props(1) [OF sz(1), folded r_def] granules_props(2) [of sz, folded r_def] granules_props(3) [OF sz(2), folded r_def]
  note bb = used_bounds [OF h(1) b(2)]
  have R: "heap_round sz = of_nat (16 * r)" unfolding r_def by (rule heap_round_value [OF sz(2)])
  note e = krealloc_alt [OF h(1) b(2) sz(1), of pg, folded b(1)]
  note eb = krealloc_block_alt [OF h(1) b(2) R gp(3), of pg, folded b(1)]
  let ?n = "16 * (b + k)" and ?g = "of_nat (16 * k) + block_total (kmem s) (16 * (b + k))"
  have p0: "p \<noteq> 0" unfolding b(1) by simp
  consider (trim) "r \<le> k - 1" | (grow) "\<not> r \<le> k - 1" "blk_size (kmem s) ?n AND HEAP_FREE \<noteq> 0" "?g - HEAP_HDR \<ge> of_nat (16 * r)"
    | (move) "\<not> r \<le> k - 1" "\<not> (blk_size (kmem s) ?n AND HEAP_FREE \<noteq> 0 \<and> ?g - HEAP_HDR \<ge> of_nat (16 * r))" by blast
  then show ?thesis
  proof cases
    case trim
    then have "r + 1 \<le> k" using bb by linarith
    moreover have "Used lay = Used lay - {(b, k)} \<union> {(b, k)}" using b(2) by blast
    ultimately have "realloc_ok own p bs (unat sz) s (realloc_stats (16 * b) s p (block_trim_used (16 * b) (of_nat (16 * r)) s)) p"
      using trim_place [OF h b(2) pb h(1), of k, OF _ _ _ gp(2,1)] unfolding b(1) by (simp add: keeps_def)
    then show ?thesis using e eb trim p0 by simp
  next
    case grow
    define s1 where "s1 = absorb (16 * b) ?g (freelist_remove ?n s)"
    obtain kn lay1 where kn: "block_total (kmem s) ?n = of_nat (16 * kn)" "kn < 2 ^ 20" and l1: "heap_inv s1 lay1" "same_rest s s1"
      "Used lay1 = Used lay - {(b, k)} \<union> {(b, k + kn)}" "keeps s s1 (intr lay)"
      using absorb_inv [OF h(1) b(2) grow(2)] unfolding Let_def s1_def by (metis of_nat_granules)
    have g: "?g - HEAP_HDR = of_nat (16 * (k + kn - 1))" unfolding kn(1) of_nat_granules by (rule payload_word) (use bb in linarith)
    have "k + kn - 1 < 2 ^ 60" using bb kn(2) by auto
    then have "r \<le> k + kn - 1" using grow(3) granules_le [OF gp(3), of "k + kn - 1"] unfolding g by blast
    then have "r + 1 \<le> k + kn" using bb by linarith
    then have "realloc_ok own p bs (unat sz) s (realloc_stats (16 * b) s p (block_trim_used (16 * b) (of_nat (16 * r)) s1)) p"
      unfolding b(1) by (rule trim_place [OF h b(2) pb l1 gp(2,1)])
    then show ?thesis using e eb grow p0 unfolding Let_def s1_def [symmetric] by simp
  next
    case move
    have big: "16 * (k - 1) < unat sz" by (rule granules_large) (use move(1) bb in \<open>simp_all add: r_def\<close>)
    have u: "unat (of_nat (16 * (k - 1)) :: u64) = 16 * (k - 1)" by (rule unat_granules) (use bb in linarith)
    then have cnt: "unat (if of_nat (16 * (k - 1)) < sz then of_nat (16 * (k - 1)) else sz) = 16 * (k - 1)" using big by (simp add: word_less_nat_alt)
    obtain s1 np where a: "heap_alloc pg sz s = Some (s1, np)" "np = 0 \<and> s1 = s \<or> np \<noteq> 0 \<and> alloc_ok s lay r s1 np"
      using heap_alloc_ok [OF h(1) sz(2) f] unfolding r_def by blast
    note eb' = eb [unfolded Let_def if_not_P [OF move(1)] if_not_P [OF move(2)] a(1) cnt option.case prod.case]
    show ?thesis
    proof (cases "np = 0")
      case True
      then show ?thesis using e eb' a(2) unfolding realloc_ok_def by simp
    next
      case False
      then have al: "alloc_ok s lay r s1 np" using a(2) by blast
      note m = move_ok [OF h b(2) pb al gp(2) less_imp_le [OF big], folded b(1)]
      show ?thesis using e eb' m False unfolding realloc_ok_def realloc_stats_def by simp
    qed
  qed
qed

end
