(* ===== verification/Kheap_Align.thy ===== *)
theory Kheap_Align
  imports Kheap_Resize
begin

text \<open>
  \<open>kmalloc_aligned\<close> of \<open>src/kernel/mm/kheap.c\<close>: a larger block is taken, its front is cut off up to the first aligned position that
  leaves room for a block, and the rest is trimmed.
\<close>

section \<open>Rounding up to a power of two\<close>

lemma unat_and_not_mask: "unat (x AND NOT (mask n)) = unat x div 2 ^ n * 2 ^ n" for x :: u64
proof -
  have "unat x div 2 ^ n * 2 ^ n < 2 ^ LENGTH(64)" by (rule order.strict_trans1 [OF div_times_less_eq_dividend unsigned_less])
  then show ?thesis unfolding and_not_mask unat_push unat_drop by simp
qed

lemma top_bit: "2 ^ f \<le> unat x \<Longrightarrow> unat x < 2 ^ Suc f \<Longrightarrow> bit x f" for x :: u64
proof -
  assume b: "2 ^ f \<le> unat x" "unat x < 2 ^ Suc f"
  have "unat x div 2 ^ f = 1" using b by (intro div_nat_eqI) simp_all
  then have "bit (unat x) f" by (simp add: bit_iff_odd)
  then show "bit x f" by (simp add: bit_unsigned_iff)
qed

lemma power_mask: "align AND (align - 1) = 0 \<Longrightarrow> align \<noteq> 0 \<Longrightarrow> \<exists>f. unat align = 2 ^ f" for align :: u64
proof -
  assume a: "align AND (align - 1) = 0" "align \<noteq> 0"
  define f where "f = heap_fls align"
  have b: "2 ^ f \<le> unat align" "unat align < 2 ^ Suc f" using heap_fls_bounds [OF a(2)] unfolding f_def by blast+
  have u: "unat (align - 1) = unat align - 1" using a(2) by (simp add: unat_minus_one)
  have "unat align = 2 ^ f"
  proof (rule ccontr)
    assume "unat align \<noteq> 2 ^ f"
    then have "bit (align - 1) f" using b u by (intro top_bit) simp_all
    then have "bit (align AND (align - 1)) f" using top_bit [OF b] by (simp add: bit_and_iff)
    then show False using a(1) by simp
  qed
  then show ?thesis by blast
qed

lemma round_up_value:
  fixes align :: u64
  assumes "unat align = 2 ^ f" "p + unat align < 2 ^ 64"
  shows "unat ((of_nat p + align - 1) AND NOT (align - 1)) = (p + 2 ^ f - 1) div 2 ^ f * 2 ^ f"
proof -
  have "align = of_nat (unat align)" by simp
  then have al: "align = 2 ^ f" unfolding assms(1) by simp
  then have m: "align - 1 = mask f" by (simp add: mask_eq_exp_minus_1)
  have "of_nat p + align - 1 = (of_nat (p + 2 ^ f - 1) :: u64)"
    using al of_nat_diff [of 1 "p + 2 ^ f", where ?'a = u64] by (simp add: Suc_le_eq)
  moreover have "unat (of_nat (p + 2 ^ f - 1) :: u64) = p + 2 ^ f - 1" using assms by (simp add: unat_of_nat)
  ultimately show ?thesis unfolding m unat_and_not_mask by simp
qed

lemma round_up_bounds:
  fixes p m :: nat
  assumes "0 < m"
  shows "p \<le> (p + m - 1) div m * m" "(p + m - 1) div m * m < p + m"
proof -
  have "(p + m - 1) div m * m + (p + m - 1) mod m = p + m - 1" "(p + m - 1) mod m < m" using assms by simp_all
  then show "p \<le> (p + m - 1) div m * m" "(p + m - 1) div m * m < p + m" using assms by linarith+
qed

text \<open>The aligned position, in granules: it leaves no gap or one that is a block.\<close>

lemma align_position:
  fixes align :: u64
  assumes al: "unat align = 16 * A" "2 \<le> A" "align AND (align - 1) = 0" and p: "16 * (i + 1) + unat align < 2 ^ 64"
  shows "\<exists>g. (let a = unat ((of_nat (16 * (i + 1)) + align - 1) AND NOT (align - 1)); gap = (of_nat (a - 16 * (i + 1)) :: u64)
      in if gap \<noteq> 0 \<and> gap < HEAP_MIN_BLOCK then (a + unat align, gap + align) else (a, gap)) = (16 * (i + 1 + g), of_nat (16 * g)) \<and>
    (g = 0 \<or> 2 \<le> g) \<and> g \<le> A + 1 \<and> unat align dvd 16 * (i + 1 + g)"
proof -
  have "align \<noteq> 0" using al(1,2) by auto
  then obtain f where f: "unat align = 2 ^ f" using power_mask [OF al(3)] by blast
  define a where "a = unat ((of_nat (16 * (i + 1)) + align - 1) AND NOT (align - 1))"
  define c where "c = (16 * (i + 1) + 2 ^ f - 1) div 2 ^ f"
  have a: "a = c * unat align" unfolding a_def c_def round_up_value [OF f p] f by simp
  have ab: "16 * (i + 1) \<le> a" "a < 16 * (i + 1) + unat align"
    using round_up_bounds [of "2 ^ f" "16 * (i + 1)"] unfolding a c_def f by simp_all
  define g where "g = c * A - (i + 1)"
  have g: "a = 16 * (i + 1 + g)" "g < A" using ab unfolding g_def a al(1) by simp_all
  have gap: "(of_nat (a - 16 * (i + 1)) :: u64) = of_nat (16 * g)" unfolding g(1) by simp
  have g60: "g < 2 ^ 60" using g(2) p al(1) by simp
  have z: "(of_nat (16 * g) :: u64) \<noteq> 0 \<and> of_nat (16 * g) < HEAP_MIN_BLOCK \<longleftrightarrow> g = 1"
  proof -
    have "(of_nat (16 * g) :: u64) = 0 \<longleftrightarrow> g = 0" using unat_granules [OF g60] by (metis mult_eq_0_iff of_nat_0 unat_0 zero_neq_numeral)
    moreover have "HEAP_MIN_BLOCK = of_nat (16 * 2)" by (simp add: HEAP_MIN_BLOCK_def HEAP_HDR_def)
    ultimately show ?thesis using granules_less [OF g60, of 2] by auto
  qed
  have dv: "unat align dvd a" unfolding a by simp
  have ag: "align = of_nat (16 * A)" using al(1) by (metis of_nat_unat ucast_id)
  show ?thesis
  proof (cases "g = 1")
    case True
    have "of_nat (16 * g) + align = of_nat (16 * (g + A))" unfolding ag by (rule of_nat_granules)
    moreover have "a + unat align = 16 * (i + 1 + (g + A))" unfolding g(1) al(1) by simp
    moreover have "unat align dvd a + unat align" using dv by simp
    ultimately show ?thesis unfolding a_def [symmetric] Let_def gap z using True al(2) by (intro exI [of _ "g + A"]) simp
  next
    case False
    then show ?thesis unfolding a_def [symmetric] Let_def gap z using g dv by (intro exI [of _ g]) auto
  qed
qed

section \<open>Cutting off the front\<close>

definition cut_front :: "nat \<Rightarrow> nat \<Rightarrow> u64 \<Rightarrow> kheap \<Rightarrow> kheap" where
  "cut_front b c gap s =
     (let s = set_size c (block_total (kmem s) b - gap) s;
          s = set_prev c b s;
          m = block_next (kmem s) c;
          s = set_prev m c s;
          s = set_size b (gap OR (blk_size (kmem s) b AND HEAP_PREV_FREE)) s
      in block_release b s)"

lemma cut_inv:
  assumes h: "heap_inv s lay" and b: "(i, k) \<in> Used lay" and g: "2 \<le> g" "g + 2 \<le> k"
  defines "s' \<equiv> cut_front (16 * i) (16 * (i + g)) (of_nat (16 * g)) s"
  shows "\<exists>lay'. heap_inv s' lay' \<and> same_rest s s' \<and> Used lay' = Used lay - {(i, k)} \<union> {(i + g, k - g)} \<and> keeps s s' (intr lay')"
proof -
  obtain pf where hb: "snd (gr (kmem s) i) = hw k False pf" using used_header [OF h b] by blast
  note bb = used_bounds [OF h b]
  define k2 where "k2 = k - g"
  have k: "k = g + k2" "2 \<le> k2" using g unfolding k2_def by simp_all
  have k60: "k2 < 2 ^ 60" using bb unfolding k by linarith
  define s1 where "s1 = set_size (16 * (i + g)) (of_nat (16 * k2)) s"
  define s2 where "s2 = set_prev (16 * (i + g)) (16 * i) s1"
  define s3 where "s3 = set_prev (16 * (i + g + k2)) (16 * (i + g)) s2"
  define s4 where "s4 = set_size (16 * i) (hw g False pf) s3"
  have v1: "block_total (kmem s) (16 * i) - of_nat (16 * g) = of_nat (16 * k2)"
    unfolding total_hw [OF hb] k2_def using k(1) by (intro sub_granules) simp
  have n: "block_next (kmem s2) (16 * (i + g)) = 16 * (i + g + k2)"
  proof (rule next_gr [OF _ k60])
    show "snd (gr (kmem s2) (i + g)) = hw k2 False False" unfolding s2_def s1_def gr_set hw_plain by simp
  qed
  have hb3: "snd (gr (kmem s3) i) = hw k False pf" unfolding s3_def s2_def s1_def gr_set using hb g(1) by simp
  have v2: "of_nat (16 * g) OR (blk_size (kmem s3) (16 * i) AND HEAP_PREV_FREE) = hw g False pf" unfolding blk_gr hb3 hw_bits by (rule hw_used)
  have e: "s' = block_release (16 * i) s4"
    unfolding s'_def cut_front_def Let_def v1 s1_def [symmetric] s2_def [symmetric] n s3_def [symmetric] v2 s4_def [symmetric] by (rule refl)
  have lists: "blocks s4 = blocks s" "sl_bitmap s4 = sl_bitmap s" "fl_bitmap s4 = fl_bitmap s" unfolding s4_def s3_def s2_def s1_def by simp_all
  have sr: "same_rest s s4" unfolding s4_def s3_def s2_def s1_def by (simp add: same_rest_def set_size_def set_prev_def)
  have gr4: "gr (kmem s4) = (gr (kmem s))(i := (fst (gr (kmem s) i), hw g False pf'), i + g := (of_nat (16 * i), hw k2 False False),
      i + g + k2 := (of_nat (16 * (i + g)), snd (gr (kmem s) (i + g + k2))))" if "snd (gr (kmem s) i) = hw (g + k2) False pf'" for pf'
  proof -
    have "(hw k False pf AND HEAP_PREV_FREE) = (hw k False pf' AND HEAP_PREV_FREE)" using that hb k(1) by simp
    then have "pf' = pf" by (cases pf; cases pf') simp_all
    then show ?thesis unfolding s4_def s3_def s2_def s1_def gr_set using k(2) g(1) by (auto simp: fun_eq_iff hw_plain simp del: of_nat_mult)
  qed
  obtain lay1 where l1: "heap_inv s4 lay1" "Used lay1 = Used lay - {(i, g + k2)} \<union> {(i, g), (i + g, k2)}" "keeps s s4 (intr lay1)"
    using split_inv [OF h b [unfolded k(1)] g(1) k(2) gr4 lists sr] by blast
  have "(i, g) \<in> Used lay1" unfolding l1(2) by simp
  then obtain lay' where l2: "heap_inv s' lay'" "same_rest s4 s'" "Used lay' = Used lay1 - {(i, g)}" "keeps s4 s' (intr lay')"
    using release_inv [OF l1(1)] unfolding e by blast
  have "(i, g) \<notin> Used lay" using Used_unique [OF h b, of g] k by auto
  then have "Used lay' = Used lay - {(i, k)} \<union> {(i + g, k - g)}" unfolding l2(3) l1(2) using k g by auto
  moreover have "keeps s s' (intr lay')" by (rule keeps_trans [OF l1(3) l2(4)]) (auto simp: intr_Used l2(3))
  ultimately show ?thesis using l2(1) same_rest_trans [OF sr l2(2)] by blast
qed

section \<open>\<open>kmalloc_aligned\<close>\<close>

definition eff_align :: "u64 \<Rightarrow> u64" where
  "eff_align al = (if al < HEAP_ALIGN then HEAP_ALIGN else al)"

definition aligned_want :: "u64 \<Rightarrow> u64 \<Rightarrow> u64" where
  "aligned_want sz al = (if eff_align al = HEAP_ALIGN then sz else sz + eff_align al + 2 * HEAP_HDR)"

lemma align_block_alt:
  "align_block sz align p s =
     (let b = block_from p;
          (a, gap) = (let a = unat ((of_nat p + align - 1) AND NOT (align - 1)); gap = (of_nat (a - p) :: u64)
                      in if gap \<noteq> 0 \<and> gap < HEAP_MIN_BLOCK then (a + unat align, gap + align) else (a, gap));
          (s, b) = (if gap \<noteq> 0 then (cut_front b (a - unat HEAP_HDR) gap s, a - unat HEAP_HDR) else (s, b))
      in (block_trim_used b (heap_round sz) s, a))"
  unfolding align_block_def cut_front_def Let_def by (rule refl)

lemma align_place:
  assumes h: "heap_inv s lay" and b: "(i, k) \<in> Used lay" and g: "g = 0 \<or> 2 \<le> g" "g + r + 1 \<le> k" "1 \<le> r"
  defines "s' \<equiv> block_trim_used (16 * (i + g)) (of_nat (16 * r)) (if g \<noteq> 0 then cut_front (16 * i) (16 * (i + g)) (of_nat (16 * g)) s else s)"
  shows "\<exists>lay' k'. heap_inv s' lay' \<and> same_rest s s' \<and> Used lay' = Used lay - {(i, k)} \<union> {(i + g, k')} \<and> r + 1 \<le> k' \<and> keeps s s' (intr (lay') \<inter> intr lay)"
proof -
  define s1 where "s1 = (if g \<noteq> 0 then cut_front (16 * i) (16 * (i + g)) (of_nat (16 * g)) s else s)"
  have "\<exists>lay'. heap_inv s1 lay' \<and> same_rest s s1 \<and> Used lay' = Used lay - {(i, k)} \<union> {(i + g, k - g)} \<and> keeps s s1 (intr lay')"
  proof (cases "g = 0")
    case True
    then show ?thesis using h b unfolding s1_def by (intro exI [of _ lay]) (auto simp: keeps_def)
  next
    case False
    then have "2 \<le> g" "g + 2 \<le> k" using g by auto
    then show ?thesis using cut_inv [OF h b] False unfolding s1_def by simp
  qed
  then obtain lay1 where l1: "heap_inv s1 lay1" "same_rest s s1" "Used lay1 = Used lay - {(i, k)} \<union> {(i + g, k - g)}" "keeps s s1 (intr lay1)" by blast
  have b1: "(i + g, k - g) \<in> Used lay1" unfolding l1(3) by simp
  have r: "r < 2 ^ 59" using used_bounds [OF h b] g(2) by simp
  obtain lay2 where l2: "heap_inv s' lay2" "same_rest s1 s'" "Used lay2 = Used lay1 - {(i + g, k - g)} \<union> {(i + g, trimmed (k - g) r)}" "keeps s1 s' (intr lay2)"
    using trim_inv [OF l1(1) b1 g(3) r] unfolding s'_def s1_def by blast
  have "(i + g, k - g) \<notin> Used lay - {(i, k)}"
  proof (cases "g = 0")
    case False
    then show ?thesis using Used_apart [OF h b, of "i + g" "k - g"] g(2,3) by auto
  qed simp
  then have U: "Used lay2 = Used lay - {(i, k)} \<union> {(i + g, trimmed (k - g) r)}" unfolding l2(3) l1(3) by blast
  have "intr lay2 \<subseteq> intr lay1"
  proof
    fix j assume "j \<in> intr lay2"
    then obtain i' k' where i': "(i', k') \<in> Used lay2" "i' < j" "j < i' + k'" unfolding intr_Used by blast
    show "j \<in> intr lay1"
    proof (cases "(i', k') \<in> Used lay1")
      case False
      then have "i' = i + g" "k' \<le> k - g" using i'(1) g(2) unfolding l2(3) trimmed_def by auto
      then show ?thesis using b1 i' unfolding intr_Used by force
    qed (use i' in \<open>auto simp: intr_Used\<close>)
  qed
  then have "keeps s s' (intr lay2 \<inter> intr lay)" using l1(4) l2(4) unfolding keeps_def by auto
  moreover have "r + 1 \<le> trimmed (k - g) r" using g(2) unfolding trimmed_def by auto
  ultimately show ?thesis using l2(1) same_rest_trans [OF l1(2) l2(2)] U by blast
qed

lemma align_new:
  assumes h: "heap_inv s lay" and a: "heap_inv s1 lay1" "(i, k) \<notin> Used lay" "Used lay1 = insert (i, k) (Used lay)" "keeps s s1 (intr lay)"
    and g: "g = 0 \<or> 2 \<le> g" "g + r + 1 \<le> k" "1 \<le> r"
  defines "s2 \<equiv> block_trim_used (16 * (i + g)) (of_nat (16 * r)) (if g \<noteq> 0 then cut_front (16 * i) (16 * (i + g)) (of_nat (16 * g)) s1 else s1)"
  shows "\<exists>lay2 k'. heap_inv s2 lay2 \<and> same_rest s1 s2 \<and> Used lay2 = insert (i + g, k') (Used lay) \<and> (i + g, k') \<notin> Used lay \<and> r + 1 \<le> k' \<and> keeps s s2 (intr lay)"
proof -
  have b: "(i, k) \<in> Used lay1" unfolding a(3) by simp
  obtain lay2 k' where l2: "heap_inv s2 lay2" "same_rest s1 s2" "Used lay2 = Used lay1 - {(i, k)} \<union> {(i + g, k')}" "r + 1 \<le> k'" "keeps s1 s2 (intr lay2 \<inter> intr lay1)"
    using align_place [OF a(1) b g] unfolding s2_def by blast
  have U: "Used lay2 = insert (i + g, k') (Used lay)" unfolding l2(3) a(3) using a(2) by auto
  have "(i + g, k') \<notin> Used lay"
  proof
    assume n: "(i + g, k') \<in> Used lay"
    then have n1: "(i + g, k') \<in> Used lay1" unfolding a(3) by simp
    show False
    proof (cases "g = 0")
      case True
      then show False using Used_unique [OF a(1) b, of k'] n n1 a(2) by simp
    next
      case False
      then show False using Used_apart [OF a(1) b n1] g(2,3) by auto
    qed
  qed
  moreover have "intr lay \<subseteq> intr lay2" "intr lay \<subseteq> intr lay1" unfolding intr_Used U a(3) by auto
  then have "keeps s s2 (intr lay)" using a(4) l2(5) unfolding keeps_def by (metis IntI subsetD)
  ultimately show ?thesis using l2(1,2,4) U by blast
qed

lemma aligned_sizes:
  assumes "unat sz + unat align + 47 < 2 ^ 64" "unat align = 16 * A"
  shows "unat (sz + align + 2 * HEAP_HDR) = unat sz + 16 * A + 32" "granules (sz + align + 2 * HEAP_HDR) = granules sz + A + 2"
proof -
  have "sz + align + 2 * HEAP_HDR = sz + align + 32" by (simp add: HEAP_HDR_def)
  moreover have "unat (sz + align) = unat sz + 16 * A" using assms by (subst unat_add_ok) simp_all
  ultimately show u: "unat (sz + align + 2 * HEAP_HDR) = unat sz + 16 * A + 32" using assms by (simp add: unat_add_ok)
  show "granules (sz + align + 2 * HEAP_HDR) = granules sz + A + 2" unfolding granules_def u by simp
qed

lemma align_block_ok:
  assumes h: "heap_inv s lay" "stats_ok s lay" "owned s lay own"
    and sz: "sz \<noteq> 0" "unat sz + unat align + 47 < 2 ^ 64" and al: "unat align = 16 * A" "2 \<le> A" "align AND (align - 1) = 0"
    and a: "alloc_ok s lay (granules (sz + align + 2 * HEAP_HDR)) s1 p"
  shows "\<exists>s2 q. align_block sz align p s1 = (s2, q) \<and> handed s own (stats_gain (block_from q) s2) q (unat sz) \<and> unat align dvd q"
proof -
  define r where "r = granules sz"
  obtain lay1 i k where l: "p = 16 * (i + 1)" "heap_inv s1 lay1" "(i, k) \<notin> Used lay" "Used lay1 = insert (i, k) (Used lay)" "r + A + 3 \<le> k"
    "keeps s s1 (intr lay)" "kheap_used_bytes s1 = kheap_used_bytes s" "kheap_alloc_count s1 = kheap_alloc_count s"
    using a unfolding alloc_ok_def aligned_sizes(2) [OF sz(2) al(1)] r_def by auto
  have ik: "(i, k) \<in> Used lay1" unfolding l(4) by simp
  have "i + k < 2 ^ 60" using used_bounds [OF l(2) ik] by blast
  then have "16 * (i + 1) + unat align < 2 ^ 64" using l(5) al(1) by simp
  then obtain g where g: "(let a = unat ((of_nat p + align - 1) AND NOT (align - 1)); gap = (of_nat (a - p) :: u64)
      in if gap \<noteq> 0 \<and> gap < HEAP_MIN_BLOCK then (a + unat align, gap + align) else (a, gap)) = (16 * (i + 1 + g), of_nat (16 * g))"
    "g = 0 \<or> 2 \<le> g" "g \<le> A + 1" "unat align dvd 16 * (i + 1 + g)"
    using align_position [OF al, of i] unfolding l(1) by blast
  define s2 where "s2 = block_trim_used (16 * (i + g)) (of_nat (16 * r)) (if g \<noteq> 0 then cut_front (16 * i) (16 * (i + g)) (of_nat (16 * g)) s1 else s1)"
  have R: "heap_round sz = of_nat (16 * r)" unfolding r_def by (rule heap_round_value) (use sz(2) in simp)
  have g60: "g < 2 ^ 60" using g(3) l(5) \<open>i + k < 2 ^ 60\<close> by linarith
  have gz: "(of_nat (16 * g) :: u64) \<noteq> 0 \<longleftrightarrow> g \<noteq> 0" using unat_granules [OF g60] by (metis mult_eq_0_iff of_nat_0 unat_0 zero_neq_numeral)
  have c: "16 * (i + 1 + g) - unat HEAP_HDR = 16 * (i + g)" by simp
  have e: "align_block sz align p s1 = (s2, 16 * (i + g + 1))"
    unfolding align_block_alt g(1) unfolding Let_def prod.case gz c R s2_def l(1) from_user by (cases "g = 0") simp_all
  have "1 \<le> r" "g + r + 1 \<le> k" using granules_props(1) [OF sz(1)] g(3) l(5) unfolding r_def by simp_all
  then obtain lay2 k' where l2: "heap_inv s2 lay2" "same_rest s1 s2" "Used lay2 = insert (i + g, k') (Used lay)" "(i + g, k') \<notin> Used lay" "r + 1 \<le> k'" "keeps s s2 (intr lay)"
    using align_new [OF h(1) l(2,3,4,6) g(2)] unfolding s2_def by blast
  have n: "unat sz \<le> 16 * (k' - 1)" using granules_props(2) [of sz] l2(5) unfolding r_def by linarith
  have c2: "kheap_used_bytes s2 = kheap_used_bytes s" "kheap_alloc_count s2 = kheap_alloc_count s" using l2(2) l(7,8) unfolding same_rest_def by simp_all
  note gn = gain_ok [OF h l2(1,3,4,6) c2 n]
  have "handed s own (stats_gain (16 * (i + g)) s2) (16 * (i + g + 1)) (unat sz)" unfolding handed_def heap_state_def using gn by auto
  moreover have "unat align dvd 16 * (i + g + 1)" using g(4) by (simp add: add.commute add.left_commute)
  ultimately show ?thesis unfolding e using from_user(1) [of "i + g"] by auto
qed

lemma eff_align_cases:
  assumes "eff_align al AND (eff_align al - 1) = 0" "eff_align al \<noteq> HEAP_ALIGN"
  shows "\<exists>A \<ge> 2. unat (eff_align al) = 16 * A"
proof -
  have g: "unat (eff_align al) \<ge> 16" "unat (eff_align al) \<noteq> 16"
    using assms(2) unfolding eff_align_def HEAP_ALIGN_def by (auto simp: word_less_nat_alt word_unat_eq_iff split: if_splits)
  then have "eff_align al \<noteq> 0" by auto
  then obtain f where f: "unat (eff_align al) = 2 ^ f" using power_mask [OF assms(1)] by blast
  have "4 < f"
  proof (rule ccontr)
    assume "\<not> 4 < f"
    then have "(2 :: nat) ^ f \<le> 2 ^ 4" by (intro power_increasing) simp_all
    then show False using g f by simp
  qed
  then obtain e where "f = 5 + e" by (metis Suc_leI less_iff_Suc_add add_Suc add_Suc_right numeral_eq_Suc pred_numeral_simps)
  then show ?thesis using f by (intro exI [of _ "2 * 2 ^ e"]) (simp add: power_add)
qed

text \<open>The reasons for which the call may fail.\<close>

definition aligned_fails :: "kheap \<Rightarrow> layout \<Rightarrow> nat \<Rightarrow> u64 \<Rightarrow> u64 \<Rightarrow> bool" where
  "aligned_fails s lay mem sz al \<longleftrightarrow>
     sz = 0 \<or> eff_align al AND (eff_align al - 1) \<noteq> 0 \<or> granules (aligned_want sz al) \<ge> 2 ^ 26 \<or> no_memory s lay mem (granules (aligned_want sz al))"

lemma kmalloc_aligned_ok:
  assumes h: "heap_inv s lay" "stats_ok s lay" "owned s lay own" and sz: "unat sz + unat (eff_align al) + 47 < 2 ^ 64"
    and f: "fresh_pages s (fst pg) (heap_round (aligned_want sz al))"
  shows "\<exists>s' p. kmalloc_aligned pg sz al s = Some (s', p) \<and> (p = 0 \<and> s' = s \<and> aligned_fails s lay (fst pg) sz al \<or> handed s own s' p (unat sz) \<and> unat (eff_align al) dvd p)"
proof (cases "sz = 0 \<or> eff_align al AND (eff_align al - 1) \<noteq> 0")
  case True
  then show ?thesis unfolding kmalloc_aligned_def eff_align_def [symmetric] Let_def aligned_fails_def by auto
next
  case False
  then have sz0: "sz \<noteq> 0" and pw: "eff_align al AND (eff_align al - 1) = 0" by simp_all
  have e: "kmalloc_aligned pg sz al s = (case heap_alloc pg (aligned_want sz al) s of None \<Rightarrow> None
      | Some (s, p) \<Rightarrow> let (s, p) = (if p \<noteq> 0 \<and> eff_align al \<noteq> HEAP_ALIGN then align_block sz (eff_align al) p s else (s, p))
                       in Some (if p \<noteq> 0 then stats_gain (block_from p) s else s, p))"
    unfolding kmalloc_aligned_def eff_align_def [symmetric] aligned_want_def using False by (simp add: Let_def)
  show ?thesis
  proof (cases "eff_align al = HEAP_ALIGN")
    case True
    have "kmalloc_aligned pg sz al s = kmalloc pg sz s" unfolding e kmalloc_def aligned_want_def using True by (auto simp: Let_def split: option.split)
    moreover obtain s' p where k: "kmalloc pg sz s = Some (s', p)" "p = 0 \<and> s' = s \<and> aligned_fails s lay (fst pg) sz al \<or> handed s own s' p (unat sz)"
      using kmalloc_ok [OF h, of sz pg] sz f True unfolding aligned_fails_def aligned_want_def by auto
    moreover have "unat (eff_align al) dvd p" if d: "handed s own s' p (unat sz)"
    proof -
      obtain lay' where "owned s' lay' (own(p \<mapsto> bytes_at (kmem s') p (unat sz)))" using d unfolding handed_def heap_state_def by blast
      then obtain i where "p = 16 * (i + 1)" using ownedD [of s' lay' _ p] by (metis fun_upd_same)
      then show ?thesis unfolding True HEAP_ALIGN_def by simp
    qed
    ultimately show ?thesis by auto
  next
    case al: False
    obtain A where A: "2 \<le> A" "unat (eff_align al) = 16 * A" using eff_align_cases [OF pw al] by blast
    have w: "aligned_want sz al = sz + eff_align al + 2 * HEAP_HDR" unfolding aligned_want_def using al by simp
    have "unat (aligned_want sz al) \<noteq> 0" unfolding w aligned_sizes(1) [OF sz A(2)] by simp
    then have nz: "aligned_want sz al \<noteq> 0" by auto
    have "unat (aligned_want sz al) + 15 < 2 ^ 64" unfolding w aligned_sizes(1) [OF sz A(2)] using sz A(2) by simp
    then obtain s1 p where a: "heap_alloc pg (aligned_want sz al) s = Some (s1, p)" "p = 0 \<and> s1 = s \<and> aligned_fails s lay (fst pg) sz al \<or> p \<noteq> 0 \<and> alloc_ok s lay (granules (aligned_want sz al)) s1 p"
      using heap_alloc_ok [OF h(1) _ f] nz unfolding aligned_fails_def by blast
    show ?thesis
    proof (cases "p = 0")
      case True
      then show ?thesis using a unfolding e by simp
    next
      case False
      then have "alloc_ok s lay (granules (sz + eff_align al + 2 * HEAP_HDR)) s1 p" using a(2) unfolding w by blast
      then obtain s2 q where q: "align_block sz (eff_align al) p s1 = (s2, q)" "handed s own (stats_gain (block_from q) s2) q (unat sz)" "unat (eff_align al) dvd q"
        using align_block_ok [OF h sz0 sz A(2,1) pw] by blast
      then have "q \<noteq> 0" unfolding handed_def by blast
      then show ?thesis unfolding e a(1) using q False al by simp
    qed
  qed
qed

end
