(* ===== verification/Kheap_Audit.thy ===== *)
theory Kheap_Audit
  imports Kheap_Align
begin

text \<open>
  \<open>kheap_audit\<close> of \<open>src/kernel/mm/kheap.c\<close>: on a heap that describes a layout its walks end and find nothing wrong.
\<close>

lemma audit_list_found:
  "seg (gr m) p xs 0 \<Longrightarrow> p < 2 ^ 60 \<Longrightarrow> (p \<noteq> 0 \<Longrightarrow> link_next m (16 * p) = nx xs 0) \<Longrightarrow> b \<in> set xs \<Longrightarrow> audit_list m (16 * b) (nx xs 0) = Some True"
proof (induction xs arbitrary: p)
  case (Cons x xs)
  have x: "0 < x" "x < 2 ^ 60" "gr m (Suc x) = (of_nat (nx xs 0), of_nat (16 * p))" "seg (gr m) x xs 0" using Cons.prems(1) by simp_all
  have "unat (of_nat (nx xs 0) :: u64) = nx xs 0" using nx_small [OF x(4)] by (simp add: unat_of_nat)
  then have n: "link_next m (16 * x) = nx xs 0" unfolding link_gr x(3) by simp
  have l: "link_prev m (16 * x) = 16 * p" unfolding link_gr x(3) snd_conv by (rule unat_granules [OF Cons.prems(2)])
  have ok: "\<not> (link_prev m (16 * x) \<noteq> 0 \<and> link_next m (link_prev m (16 * x)) \<noteq> 16 * x)" unfolding l using Cons.prems(3) by auto
  show ?case
  proof (cases "x = b")
    case True
    then show ?thesis using x(1) unfolding nx_simps audit_list.simps [of m "16 * b" "16 * x"] if_not_P [OF ok] by simp
  next
    case False
    then have "audit_list m (16 * b) (nx xs 0) = Some True" using Cons.prems(4) by (intro Cons.IH [OF x(4,2) n]) simp
    then show ?thesis using x(1) False n unfolding nx_simps audit_list.simps [of m "16 * b" "16 * x"] if_not_P [OF ok] by simp
  qed
qed simp

lemma audit_free_ok:
  assumes h: "heap_inv s lay" and b: "(i, k, f) \<in> Blks lay"
  shows "audit_free s (16 * i) = Some True"
proof -
  note w = heap_invD(1) [OF h]
  have hd: "blk_size (kmem s) (16 * i) AND HEAP_FREE \<noteq> 0 \<longleftrightarrow> f" "block_total (kmem s) (16 * i) = of_nat (16 * k)"
    using header_of [OF winvD(2) [OF w] b] unfolding blk_gr total_gr by blast+
  show ?thesis
  proof (cases f)
    case False
    then show ?thesis unfolding audit_free_def using hd(1) by simp
  next
    case True
    obtain FR FL where f: "fl_ok s FR FL" "FR i = Some k" 
    proof -
      obtain FR FL where fr: "fl_ok s FR FL" "\<And>i k. FR i = Some k \<longleftrightarrow> (i, k, True) \<in> Blks lay" using winvD(3) [OF w] unfolding free_ok_def by auto
      then show ?thesis using b True that [OF fr(1)] by simp
    qed
    obtain fl sl where c: "cls k = (fl, sl)" by (cases "cls k")
    have l: "seg (gr (kmem s)) 0 (FL fl sl) 0" "blocks s fl sl = nx (FL fl sl) 0" "i \<in> set (FL fl sl)" using f c unfolding fl_ok_def by auto
    have "audit_list (kmem s) (16 * i) (nx (FL fl sl) 0) = Some True" using l(3) by (intro audit_list_found [OF l(1)]) simp_all
    moreover have "map_insert (of_nat (16 * k)) = (fl, sl)" using c unfolding cls_def .
    ultimately show ?thesis unfolding audit_free_def hd l(2) [symmetric] using True by (simp del: of_nat_mult)
  qed
qed

lemma audit_size_ok: "k = 0 \<or> 2 \<le> k \<Longrightarrow> k < 2 ^ 60 \<Longrightarrow> audit_size (of_nat (16 * k))"
proof -
  assume k: "k = 0 \<or> 2 \<le> k" "k < 2 ^ 60"
  have "HEAP_MIN_BLOCK = of_nat (16 * 2)" by (simp add: HEAP_MIN_BLOCK_def HEAP_HDR_def)
  then have "k \<noteq> 0 \<Longrightarrow> \<not> of_nat (16 * k) < HEAP_MIN_BLOCK" using granules_less [OF k(2), of 2] k(1) by simp
  then show ?thesis unfolding audit_size_def using align_bits [of k] by (cases "k = 0") simp_all
qed

text \<open>The walk from a block on, with the state of the block before it.\<close>

lemma audit_walk_ok:
  assumes "hd_seg (gr (kmem s)) a p pf (xs @ [(0, False)])" "sized xs" "a + ext xs + 1 < 2 ^ 60" "0 < a" "p < 2 ^ 60"
    and "if p = 0 then \<not> pf else \<exists>k pf'. snd (gr (kmem s) p) = hw k pf pf'"
    and "\<And>i k f. (i, k, f) \<in> blks a xs \<Longrightarrow> audit_free s (16 * i) = Some True"
    and "hi = 16 * (a + ext xs + 1)"
  shows "audit_walk s hi (16 * a) (16 * p) acc = Some (Some (16 * (a + ext xs), acc + of_nat (16 * ext xs)))"
  using assms
proof (induction xs arbitrary: a p pf acc)
  case Nil
  then have g: "gr (kmem s) a = (of_nat (16 * p), hw 0 False pf)" by simp
  have t: "block_total (kmem s) (16 * a) = of_nat (16 * 0)" by (rule total_hw [of _ _ _ False pf]) (simp add: g)
  have hd: "audit_head (kmem s) (16 * a) (16 * p)"
    using Nil.prems(5,6) unfolding audit_head_def blk_gr g fst_conv snd_conv hw_bits unat_granules [OF Nil.prems(5)] by (auto split: if_splits)
  have "audit_free s (16 * a) = Some True" unfolding audit_free_def blk_gr g snd_conv hw_bits by simp
  then show ?case using hd t Nil.prems(8) unfolding audit_walk.simps [of s hi "16 * a"] by (simp add: audit_size_def)
next
  case (Cons b xs)
  obtain k f where kf: "b = (k, f)" by (cases b)
  have g: "gr (kmem s) a = (of_nat (16 * p), hw k f pf)" and seg: "hd_seg (gr (kmem s)) (a + k) a f (xs @ [(0, False)])" using Cons.prems(1) unfolding kf by simp_all
  have k: "2 \<le> k" "k < 2 ^ 60" "k + (a + ext xs) + 1 < 2 ^ 60" using Cons.prems(2,3) unfolding kf by simp_all
  have t: "block_total (kmem s) (16 * a) = of_nat (16 * k)" by (rule total_hw [of _ _ _ f pf]) (simp add: g)
  have nx: "block_next (kmem s) (16 * a) = 16 * (a + k)" by (rule next_gr [of _ _ _ f pf]) (simp_all only: g snd_conv k)
  have hd: "audit_head (kmem s) (16 * a) (16 * p)"
    using Cons.prems(6) unfolding audit_head_def blk_gr g fst_conv snd_conv hw_bits unat_granules [OF Cons.prems(5)] by (auto split: if_splits)
  have fr: "audit_free s (16 * a) = Some True" by (rule Cons.prems(7) [of a k f]) (simp add: kf)
  have z: "(of_nat (16 * k) :: u64) \<noteq> 0" using unat_granules [OF k(2)] k(1) by (metis mult_eq_0_iff not_numeral_le_zero unat_0 zero_neq_numeral)
  have sz: "audit_size (of_nat (16 * k))" using k by (intro audit_size_ok) simp_all
  have lt: "16 * a < hi" unfolding Cons.prems(8) by simp
  have "audit_walk s hi (16 * (a + k)) (16 * a) (acc + of_nat (16 * k)) = Some (Some (16 * (a + k + ext xs), acc + of_nat (16 * k) + of_nat (16 * ext xs)))"
  proof (rule Cons.IH [OF seg])
    show "if a = 0 then \<not> f else \<exists>k pf'. snd (gr (kmem s) a) = hw k f pf'" using Cons.prems(4) g by auto
    show "(i, k', f') \<in> blks (a + k) xs \<Longrightarrow> audit_free s (16 * i) = Some True" for i k' f' by (rule Cons.prems(7) [of i k' f']) (simp add: kf)
  qed (use Cons.prems kf in \<open>simp_all add: add.assoc\<close>)
  moreover have "audit_walk s hi (16 * a) (16 * p) acc = audit_walk s hi (16 * (a + k)) (16 * a) (acc + of_nat (16 * k))"
    unfolding audit_walk.simps [of s hi "16 * a"] Let_def t nx using hd fr z sz lt by (simp del: of_nat_mult)
  ultimately show ?case unfolding kf by (simp add: algebra_simps)
qed

lemma audit_area_ok:
  assumes h: "heap_inv s lay" and a: "lay a = Some xs"
  shows "audit_area s \<lparr>area_mem = 16 * a, area_bytes = of_nat (16 * (ext xs + 1))\<rparr> = Some True"
proof -
  note w = heap_invD(1) [OF h] and g = geoD [OF heap_invD(4) [OF h] a]
  have seg: "hd_seg (gr (kmem s)) a 0 False (xs @ [(0, False)])" using winvD(2) [OF w] a unfolding hdrs_ok_def by blast
  have u: "unat (of_nat (16 * (ext xs + 1)) :: u64) = 16 * (ext xs + 1)" by (rule area_entry(2) [OF h a])
  have wk: "audit_walk s (16 * a + 16 * (ext xs + 1)) (16 * a) (16 * 0) 0 = Some (Some (16 * (a + ext xs), 0 + of_nat (16 * ext xs)))"
  proof (rule audit_walk_ok [OF seg g(4,2,1)])
    show "audit_free s (16 * i) = Some True" if "(i, k, f) \<in> blks a xs" for i k f using audit_free_ok [OF h] BlksI [of lay a xs, OF a that] by blast
  qed simp_all
  have "gr (kmem s) (a + ext xs) = (of_nat (16 * lp a 0 xs), hw 0 False (lf False xs))" using seg unfolding hd_seg_append by simp
  then have t: "block_total (kmem s) (16 * (a + ext xs)) = of_nat (16 * 0)" by (intro total_hw) simp
  have "of_nat (16 * (ext xs + 1)) - HEAP_HDR = (of_nat (16 * ext xs) :: u64)" using payload_word [of "ext xs + 1"] by simp
  then show ?thesis unfolding audit_area_def Let_def heap_area.simps u using wk t g(1) by (simp del: of_nat_mult of_nat_Suc of_nat_add)
qed

lemma audit_ok:
  assumes h: "heap_inv s lay"
  shows "kheap_audit s (kheap_areas s) = Some 0"
proof -
  obtain as where as: "set as = dom lay" "kheap_areas s = map (\<lambda>a. \<lparr>area_mem = 16 * a, area_bytes = of_nat (16 * (ext (the (lay a)) + 1))\<rparr>) as"
    using heap_invD(3) [OF h] unfolding areas_ok_def by blast
  have "audit_area s a = Some True" if "a \<in> set (kheap_areas s)" for a using that audit_area_ok [OF h] as by auto
  moreover have "(\<And>a. a \<in> set l \<Longrightarrow> audit_area s a = Some True) \<Longrightarrow> kheap_audit s l = Some 0" for l by (induction l) simp_all
  ultimately show ?thesis by blast
qed

end
