(* ===== verification/Kheap_Props.thy ===== *)
theory Kheap_Props
  imports Kheap_Audit
begin

text \<open>
  Runs of the kernel heap of \<open>src/kernel/mm/kheap.c\<close> and what holds in them. A run starts with \<open>kheap_init\<close> and goes on with
  calls of the allocator and with writes of the callers into what they hold; \<open>own\<close> records the pointers handed out and the bytes
  the callers expect there. The page allocator is a parameter: each call gets its answers, and the pages it hands out must not
  overlap an area (\<open>fresh_pages\<close>).
\<close>

section \<open>Runs\<close>

inductive heap_run :: "kheap \<Rightarrow> (nat \<rightharpoonup> u8 list) \<Rightarrow> bool" where
  init: "fresh_pages (s\<lparr>kheap_areas := []\<rparr>) mem 0 \<Longrightarrow> heap_run (fst (kheap_init mem s)) Map.empty"
| malloc: "heap_run s own \<Longrightarrow> unat sz + 15 < 2 ^ 64 \<Longrightarrow> fresh_pages s (fst pg) (heap_round sz) \<Longrightarrow> kmalloc pg sz s = Some (s', p) \<Longrightarrow>
    heap_run s' (if p = 0 then own else own(p \<mapsto> bytes_at (kmem s') p (unat sz)))"
| calloc: "heap_run s own \<Longrightarrow> fresh_pages s (fst pg) (heap_round (n * sz)) \<Longrightarrow> kcalloc pg n sz s = Some (s', p) \<Longrightarrow>
    heap_run s' (if p = 0 then own else own(p \<mapsto> replicate (unat n * unat sz) 0))"
| aligned: "heap_run s own \<Longrightarrow> unat sz + unat (eff_align al) + 47 < 2 ^ 64 \<Longrightarrow> fresh_pages s (fst pg) (heap_round (aligned_want sz al)) \<Longrightarrow>
    kmalloc_aligned pg sz al s = Some (s', p) \<Longrightarrow> heap_run s' (if p = 0 then own else own(p \<mapsto> bytes_at (kmem s') p (unat sz)))"
| realloc: "heap_run s own \<Longrightarrow> own p = Some bs \<Longrightarrow> sz \<noteq> 0 \<Longrightarrow> unat sz + 15 < 2 ^ 64 \<Longrightarrow> fresh_pages s (fst pg) (heap_round sz) \<Longrightarrow>
    krealloc pg p sz s = Some (Inr (s', q)) \<Longrightarrow>
    heap_run s' (if q = 0 then own else (own(p := None))(q \<mapsto> resized bs (kmem s') q (unat sz)))"
| free: "heap_run s own \<Longrightarrow> own p = Some bs \<Longrightarrow> kfree p s = Inr s' \<Longrightarrow> heap_run s' (own(p := None))"
| store: "heap_run s own \<Longrightarrow> own p = Some bs \<Longrightarrow> length bs' = length bs \<Longrightarrow>
    heap_run (s\<lparr>kmem := (\<lambda>x. if p \<le> x \<and> x < p + length bs then bs' ! (x - p) else kmem s x)\<rparr>) (own(p \<mapsto> bs'))"

lemma heap_state_empty:
  "heap_inv \<lparr>kmem = m, fl_bitmap = 0, sl_bitmap = (\<lambda>_. 0), blocks = (\<lambda>_ _. 0), kheap_areas = [],
     kheap_used_bytes = 0, kheap_peak_bytes = 0, kheap_alloc_count = 0\<rparr> Map.empty" (is "heap_inv ?s _")
proof -
  have b: "Blks Map.empty = {}" unfolding Blks_def by simp
  have "fl_ok ?s Map.empty (\<lambda>_ _. [])" unfolding fl_ok_def by simp
  then have "free_ok ?s Map.empty {}" unfolding free_ok_def b by (intro exI [of _ Map.empty] exI [of _ "\<lambda>_ _. []"]) simp
  then have "winv ?s Map.empty {}" unfolding winv_def geo_def hdrs_ok_def by simp
  then show ?thesis unfolding heap_inv_def areas_ok_def by simp
qed

lemma init_ok:
  assumes f: "fresh_pages (s\<lparr>kheap_areas := []\<rparr>) mem 0"
  shows "heap_state (fst (kheap_init mem s)) Map.empty"
    and "mem \<noteq> 0 \<Longrightarrow> \<exists>lay i k. heap_inv (fst (kheap_init mem s)) lay \<and> (i, k, True) \<in> Blks lay \<and> snd (kheap_init mem s)"
proof -
  let ?e = "\<lparr>kmem = kmem s, fl_bitmap = 0, sl_bitmap = (\<lambda>_. 0), blocks = (\<lambda>_ _. 0), kheap_areas = [],
     kheap_used_bytes = 0, kheap_peak_bytes = 0, kheap_alloc_count = 0\<rparr> :: kheap"
  have U: "Used Map.empty = {}" unfolding Used_def Blks_def by simp
  have e: "kheap_init mem s = kheap_grow mem (of_nat (16 * 0)) ?e" unfolding kheap_init_def by simp
  have fr: "fresh_pages ?e mem (of_nat (16 * 0))" using f unfolding fresh_pages_def by simp
  have st: "heap_state s' Map.empty" if "heap_inv s' lay" "Used lay = {}" "kheap_used_bytes s' = 0" "kheap_alloc_count s' = 0" for s' lay
    using that unfolding heap_state_def stats_ok_def owned_def used_sum_def by auto
  note g = grow_ok [OF heap_state_empty [of "kmem s"], of 0 mem, OF _ fr]
  consider (fail) "kheap_grow mem (of_nat (16 * 0)) ?e = (?e, False)" "length (kheap_areas ?e) \<ge> KHEAP_MAX_AREAS \<or> page_count 0 > 256 \<or> mem = 0"
    | (ok) s' lay' i k where "kheap_grow mem (of_nat (16 * 0)) ?e = (s', True)" "heap_inv s' lay'" "Used lay' = {}" "(i, k, True) \<in> Blks lay'"
        "kheap_used_bytes s' = 0" "kheap_alloc_count s' = 0"
    using g unfolding U by auto
  then have "heap_state (fst (kheap_init mem s)) Map.empty \<and>
    (mem \<noteq> 0 \<longrightarrow> (\<exists>lay i k. heap_inv (fst (kheap_init mem s)) lay \<and> (i, k, True) \<in> Blks lay \<and> snd (kheap_init mem s)))"
  proof cases
    case fail
    then have "mem = 0" by (simp add: KHEAP_MAX_AREAS_def page_count_def)
    then show ?thesis using st [OF heap_state_empty U] fail(1) unfolding e by simp
  next
    case ok
    then show ?thesis using st [OF ok(2,3,5,6)] unfolding e by auto
  qed
  then show "heap_state (fst (kheap_init mem s)) Map.empty"
    and "mem \<noteq> 0 \<Longrightarrow> \<exists>lay i k. heap_inv (fst (kheap_init mem s)) lay \<and> (i, k, True) \<in> Blks lay \<and> snd (kheap_init mem s)" by blast+
qed

lemma calloc_step:
  assumes h: "heap_state s own" and f: "fresh_pages s (fst pg) (heap_round (n * sz))"
  shows "\<exists>s' p. kcalloc pg n sz s = Some (s', p) \<and> (if p = 0 then s' = s else heap_state s' (own(p \<mapsto> replicate (unat n * unat sz) 0)))"
proof (cases "n \<noteq> 0 \<and> sz > HEAP_MAX_BYTES div n")
  case True
  then show ?thesis unfolding kcalloc_def by simp
next
  case False
  note c = calloc_product [OF False]
  have sz: "unat (n * sz) + 15 < 2 ^ 64" using c by simp
  obtain lay where l: "heap_inv s lay" "stats_ok s lay" "owned s lay own" using h unfolding heap_state_def by blast
  have "kcalloc pg n sz s = kzalloc pg (n * sz) s" unfolding kcalloc_def using False by auto
  then obtain s' p where "kcalloc pg n sz s = Some (s', p)" "p = 0 \<and> s' = s \<or> p \<noteq> 0 \<and> heap_state s' (own(p \<mapsto> replicate (unat n * unat sz) 0))"
    using kzalloc_ok [OF l sz f] unfolding c(1) by metis
  then show ?thesis by (intro exI [of _ s'] exI [of _ p]) auto
qed

lemma heap_run_state: "heap_run s own \<Longrightarrow> heap_state s own"
proof (induction rule: heap_run.induct)
  case (init s mem)
  then show ?case by (rule init_ok(1))
next
  case (malloc s own sz pg s' p)
  then obtain lay where l: "heap_inv s lay" "stats_ok s lay" "owned s lay own" unfolding heap_state_def by blast
  show ?case using kmalloc_ok [OF l malloc(2,3)] malloc unfolding handed_def by auto
next
  case (calloc s own pg n sz s' p)
  then show ?case using calloc_step [OF calloc(4) calloc(2)] by (auto split: if_splits)
next
  case (aligned s own sz al pg s' p)
  then obtain lay where l: "heap_inv s lay" "stats_ok s lay" "owned s lay own" unfolding heap_state_def by blast
  show ?case using kmalloc_aligned_ok [OF l aligned(2,3)] aligned unfolding handed_def by auto
next
  case (realloc s own p bs sz pg s' q)
  then obtain lay where l: "heap_inv s lay" "stats_ok s lay" "owned s lay own" unfolding heap_state_def by blast
  show ?case using krealloc_ok [OF l realloc(2-5)] realloc unfolding realloc_ok_def by (auto split: if_splits)
next
  case (free s own p bs s')
  then obtain lay where l: "heap_inv s lay" "stats_ok s lay" "owned s lay own" unfolding heap_state_def by blast
  obtain t where "kfree p s = Inr t" "heap_state t (own(p := None))" using kfree_ok [OF l free(2)] by blast
  then show ?case using free(3) by (metis sum.inject(2))
next
  case (store s own p bs bs')
  show ?case by (rule state_write [OF store(4,2,3)]) (auto simp: bytes_at_def store(3) intro: nth_equalityI)
qed

lemma heap_runD:
  assumes "heap_run s own"
  obtains lay where "heap_inv s lay" "stats_ok s lay" "owned s lay own"
  using heap_run_state [OF assms] unfolding heap_state_def by blast

text \<open>A first heap of one area at address 4096, and its first block.\<close>

definition heap_first :: kheap where
  "heap_first = fst (kheap_init 4096 \<lparr>kmem = (\<lambda>_. 0), fl_bitmap = 0, sl_bitmap = (\<lambda>_. 0), blocks = (\<lambda>_ _. 0), kheap_areas = [],
     kheap_used_bytes = 0, kheap_peak_bytes = 0, kheap_alloc_count = 0\<rparr>)"

definition heap_second :: "kheap \<times> nat" where
  "heap_second = the (kmalloc (0, 0) 10 heap_first)"

lemma fresh_zero: "fresh_pages s 0 need"
  by (simp add: fresh_pages_def)

lemma heap_first_run: "heap_run heap_first Map.empty" "\<exists>lay i k. heap_inv heap_first lay \<and> (i, k, True) \<in> Blks lay"
proof -
  let ?z = "\<lparr>kmem = (\<lambda>_. 0), fl_bitmap = 0, sl_bitmap = (\<lambda>_. 0), blocks = (\<lambda>_ _. 0), kheap_areas = [],
     kheap_used_bytes = 0, kheap_peak_bytes = 0, kheap_alloc_count = 0\<rparr> :: kheap"
  have "unat (kheap_pages (of_nat (16 * 0))) \<le> 256" using kheap_pages_value [of 0] by (simp add: page_count_def)
  then have f: "fresh_pages (?z\<lparr>kheap_areas := []\<rparr>) 4096 0" unfolding fresh_pages_def Let_def by simp
  show "heap_run heap_first Map.empty" unfolding heap_first_def by (rule heap_run.init [OF f])
  show "\<exists>lay i k. heap_inv heap_first lay \<and> (i, k, True) \<in> Blks lay" using init_ok(2) [OF f] unfolding heap_first_def by auto
qed

lemma heap_second_run:
  "kmalloc (0, 0) 10 heap_first = Some (fst heap_second, snd heap_second)" "snd heap_second \<noteq> 0"
  "heap_run (fst heap_second) [snd heap_second \<mapsto> bytes_at (kmem (fst heap_second)) (snd heap_second) 10]"
proof -
  obtain lay i k where l: "heap_inv heap_first lay" "(i, k, True) \<in> Blks lay" using heap_first_run(2) by blast
  have k: "2 \<le> k" using Blks_bounds(3) [OF heap_invD(4) [OF l(1)] l(2)] .
  have g: "granules 10 = 1" by (simp add: granules_def)
  obtain s1 p where a: "heap_alloc (0, 0) 10 heap_first = Some (s1, p)"
    "p = 0 \<and> ((10 :: u64) = 0 \<or> granules 10 \<ge> 2 ^ 26 \<or> no_memory heap_first lay 0 (granules 10)) \<or> p \<noteq> 0"
    using heap_alloc_ok [OF l(1), of 10 "(0, 0)"] fresh_zero by auto
  have p: "p \<noteq> 0"
  proof
    assume "p = 0"
    then have "no_memory heap_first lay 0 1" using a(2) unfolding g by simp
    then show False using l(2) k unfolding no_memory_def by force
  qed
  then have e: "kmalloc (0, 0) 10 heap_first = Some (stats_gain (block_from p) s1, p)" unfolding kmalloc_def a(1) by simp
  then show k: "kmalloc (0, 0) 10 heap_first = Some (fst heap_second, snd heap_second)" "snd heap_second \<noteq> 0" unfolding heap_second_def using p by simp_all
  show "heap_run (fst heap_second) [snd heap_second \<mapsto> bytes_at (kmem (fst heap_second)) (snd heap_second) 10]"
    using heap_run.malloc [OF heap_first_run(1) _ _ k(1)] fresh_zero k(2) by simp
qed

section \<open>Properties\<close>

lemma owned_place:
  assumes h: "heap_inv s lay" "owned s lay own" and p: "own p = Some bs"
  shows "16 dvd p" "bytes_at (kmem s) p (length bs) = bs"
    "\<exists>a \<in> set (kheap_areas s). area_mem a + 16 \<le> p \<and> p + length bs + 16 \<le> area_mem a + unat (area_bytes a)"
    "own q = Some cs \<Longrightarrow> q \<noteq> p \<Longrightarrow> p + length bs + 16 \<le> q \<or> q + length cs + 16 \<le> p"
proof -
  obtain i k where i: "p = 16 * (i + 1)" "(i, k) \<in> Used lay" "length bs \<le> 16 * (k - 1)" "bytes_at (kmem s) p (length bs) = bs" by (rule ownedD [OF h(2) p])
  have k: "2 \<le> k" using used_bounds [OF h(1) i(2)] by blast
  show "16 dvd p" unfolding i(1) by simp
  show "bytes_at (kmem s) p (length bs) = bs" by (rule i(4))
  obtain a xs where a: "lay a = Some xs" "a \<le> i" "i + k \<le> a + ext xs" using in_row [OF h(1) i(2)] by blast
  note e = area_entry [OF h(1) a(1)]
  show "\<exists>a \<in> set (kheap_areas s). area_mem a + 16 \<le> p \<and> p + length bs + 16 \<le> area_mem a + unat (area_bytes a)"
    by (rule bexI [OF _ e(1)]) (unfold heap_area.simps e(2) i(1), use a i(3) k in auto)
  assume q: "own q = Some cs" "q \<noteq> p"
  obtain j l where j: "q = 16 * (j + 1)" "(j, l) \<in> Used lay" "length cs \<le> 16 * (l - 1)" using ownedD [OF h(2) q(1)] by metis
  have "2 \<le> l" using used_bounds [OF h(1) j(2)] by blast
  moreover have "i + k \<le> j \<or> j + l \<le> i" using Used_apart [OF h(1) i(2) j(2)] q(2) i(1) j(1) by auto
  ultimately show "p + length bs + 16 \<le> q \<or> q + length cs + 16 \<le> p" using k i(1,3) j(1,3) by auto
qed

lemma state_count:
  assumes "heap_state s own"
  shows "finite (dom own)" "kheap_alloc_count s = of_nat (card (dom own))"
proof -
  obtain lay where l: "heap_inv s lay" "stats_ok s lay" "owned s lay own" using assms unfolding heap_state_def by blast
  have d: "dom own = (\<lambda>b. 16 * (fst b + 1)) ` Used lay"
  proof (intro set_eqI iffI)
    fix p assume "p \<in> dom own"
    then obtain bs where "own p = Some bs" by blast
    then obtain i k where "p = 16 * (i + 1)" "(i, k) \<in> Used lay" using ownedD [OF l(3)] by metis
    then show "p \<in> (\<lambda>b. 16 * (fst b + 1)) ` Used lay" by force
  next
    fix p assume "p \<in> (\<lambda>b. 16 * (fst b + 1)) ` Used lay"
    then obtain i k where "p = 16 * (i + 1)" "(i, k) \<in> Used lay" by auto
    then show "p \<in> dom own" using l(3) unfolding owned_def dom_def by blast
  qed
  have "inj_on (\<lambda>b. 16 * (fst b + 1)) (Used lay)" by (rule inj_onI) (use Used_unique [OF l(1)] in auto)
  then have "card (dom own) = card (Used lay)" unfolding d by (rule card_image)
  then show "finite (dom own)" "kheap_alloc_count s = of_nat (card (dom own))"
    using l(2) finite_Used [OF l(1)] unfolding d stats_ok_def by simp_all
qed

text \<open>
  C4. The kernel heap keeps what callers store: in every run of \<open>kheap_init\<close>, \<open>kmalloc\<close>, \<open>kcalloc\<close>, \<open>kmalloc_aligned\<close>,
  \<open>krealloc\<close>, \<open>kfree\<close> and writes into held blocks, each held block is 16-byte aligned, lies inside one area behind a header,
  still holds the bytes its owner put there (for \<open>kcalloc\<close> zeroes, after \<open>krealloc\<close> the old bytes as far as they fit), and any
  two held blocks are apart by at least the 16 bytes of a header.
\<close>
theorem heap_safe:
  assumes "heap_run s own" "own p = Some bs"
  shows "16 dvd p \<and> bytes_at (kmem s) p (length bs) = bs \<and>
    (\<exists>a \<in> set (kheap_areas s). area_mem a + 16 \<le> p \<and> p + length bs + 16 \<le> area_mem a + unat (area_bytes a)) \<and>
    (\<forall>q cs. own q = Some cs \<longrightarrow> q \<noteq> p \<longrightarrow> p + length bs + 16 \<le> q \<or> q + length cs + 16 \<le> p)"
proof -
  obtain lay where l: "heap_inv s lay" "stats_ok s lay" "owned s lay own" by (rule heap_runD [OF assms(1)])
  note o = owned_place [OF l(1,3) assms(2)]
  show ?thesis using o(1-3) o(4) by blast
qed

theorem heap_safe_witness:
  "heap_run (fst heap_second) [snd heap_second \<mapsto> bytes_at (kmem (fst heap_second)) (snd heap_second) 10] \<and> 16 dvd snd heap_second \<and>
   (\<exists>a \<in> set (kheap_areas (fst heap_second)). area_mem a + 16 \<le> snd heap_second \<and> 26 + snd heap_second \<le> area_mem a + unat (area_bytes a))"
  using heap_safe [OF heap_second_run(3), of "snd heap_second"] heap_second_run(3) by simp

text \<open>
  C5. The heap stays consistent: in every run \<open>kheap_audit\<close> ends and reports no error, the count of the statistics is the number
  of held blocks, and \<open>kfree\<close> takes back every held block, without the wild pointer and double free errors.
\<close>
theorem heap_consistent:
  assumes "heap_run s own"
  shows "kheap_audit s (kheap_areas s) = Some 0 \<and> finite (dom own) \<and> st_alloc_count (kheap_stats s) = of_nat (card (dom own)) \<and>
    (\<forall>p \<in> dom own. \<exists>s'. kfree p s = Inr s' \<and> st_alloc_count (kheap_stats s') = of_nat (card (dom own) - 1))"
proof -
  obtain lay where l: "heap_inv s lay" "stats_ok s lay" "owned s lay own" by (rule heap_runD [OF assms])
  note c = state_count [OF heap_run_state [OF assms]]
  have "\<exists>s'. kfree p s = Inr s' \<and> st_alloc_count (kheap_stats s') = of_nat (card (dom own) - 1)" if p: "p \<in> dom own" for p
  proof -
    obtain bs where "own p = Some bs" using p by blast
    then obtain s' where s': "kfree p s = Inr s'" "heap_state s' (own(p := None))" using kfree_ok [OF l] by blast
    have "dom (own(p := None)) = dom own - {p}" by auto
    then have "kheap_alloc_count s' = of_nat (card (dom own) - 1)" using state_count(2) [OF s'(2)] p c(1) by simp
    then show ?thesis using s'(1) by (simp add: kheap_stats_def)
  qed
  then show ?thesis using c audit_ok [OF l(1)] by (simp add: kheap_stats_def)
qed

theorem heap_consistent_witness:
  "kheap_audit (fst heap_second) (kheap_areas (fst heap_second)) = Some 0 \<and> st_alloc_count (kheap_stats (fst heap_second)) = 1 \<and>
   (\<exists>s'. kfree (snd heap_second) (fst heap_second) = Inr s' \<and> st_alloc_count (kheap_stats s') = 0)"
  using heap_consistent [OF heap_second_run(3)] by simp





section \<open>A size that wraps\<close>

text \<open>
  \<open>heap_alloc\<close> rounds the size up without a check: a size above \<open>2 ^ 64 - 16\<close> becomes a payload of zero bytes. Whenever a request
  of 16 bytes can be served without a new area, such a request gets a block too, although the bytes asked for would not fit into the
  address space.
\<close>

lemma acquire_found:
  assumes h: "heap_inv s lay" and r: "r + 1 < 2 ^ 26"
  shows "if \<exists>i k. (i, k, True) \<in> Blks lay \<and> r + 1 \<le> k then \<exists>s' p. block_acquire (of_nat (16 * r)) s = Some (s', p) \<and> 16 \<le> p
    else block_acquire (of_nat (16 * r)) s = Some (s, 0)"
proof -
  note w = heap_invD(1) [OF h]
  obtain FR FL where f: "fl_ok s FR FL" "\<And>i k. FR i = Some k \<longleftrightarrow> (i, k, True) \<in> Blks lay"
    using winvD(3) [OF w] unfolding free_ok_def by auto
  have fh: "free_hdr s FR" using free_ok_hdr [OF winvD(2) [OF w]] f(2) by blast
  obtain f0 l0 where c: "cls (r + 1) = (f0, l0)" by (cases "cls (r + 1)")
  have r59: "r < 2 ^ 59" using r by simp
  have "take_result s FR (r + 1) (\<lambda>_. True) (list_take f0 l0 (of_nat (16 * (r + 1))) s)"
    using r by (intro list_take_ok [OF f(1) fh _ _ c]) simp_all
  then show ?thesis
  proof (cases rule: take_result_cases)
    case 1
    then have "block_acquire (of_nat (16 * r)) s = Some (s, 0)" unfolding block_acquire_alt [OF r59] using r c by simp
    moreover have "\<not> (\<exists>i k. (i, k, True) \<in> Blks lay \<and> r + 1 \<le> k)" using 1(2) f(2) by (meson not_less)
    ultimately show ?thesis using if_not_P by simp
  next
    case (2 i k)
    then have "\<exists>i k. (i, k, True) \<in> Blks lay \<and> r + 1 \<le> k" using f(2) by blast
    moreover have "\<exists>s' p. block_acquire (of_nat (16 * r)) s = Some (s', p) \<and> 16 \<le> p"
      unfolding block_acquire_alt [OF r59] using r c 2(3) by (simp add: Let_def)
    ultimately show ?thesis by (simp only: if_True simp_thms)
  qed
qed

lemma grow_none: "kheap_grow 0 need s = (s, False)"
  unfolding kheap_grow_def by (simp add: Let_def)

lemma kmalloc_no_pages:
  "kmalloc (0, 0) sz s = (if sz = 0 \<or> heap_round sz \<ge> HEAP_MAX_BYTES then Some (s, 0)
     else map_option (\<lambda>(s, p). (if p \<noteq> 0 then stats_gain (block_from p) s else s, p)) (block_acquire (heap_round sz) s))"
  unfolding kmalloc_def heap_alloc_def Let_def by (auto simp: grow_none split: option.split)

lemma kmalloc_wraps:
  assumes "heap_run s own" "kmalloc (0, 0) 16 s = Some (s1, p1)" "p1 \<noteq> 0" "2 ^ 64 \<le> unat sz + 15"
  shows "\<exists>s' p. kmalloc (0, 0) sz s = Some (s', p) \<and> p \<noteq> 0 \<and> 2 ^ 64 \<le> p + unat sz"
proof -
  obtain lay where h: "heap_inv s lay" by (rule heap_runD [OF assms(1)])
  have "heap_round 16 = of_nat (16 * 1)" using heap_round_value [of 16] by (simp add: granules_def)
  then have "block_acquire (of_nat (16 * 1)) s \<noteq> Some (s, 0)" using assms(2,3) unfolding kmalloc_no_pages by (auto split: if_splits)
  then obtain i k where ik: "(i, k, True) \<in> Blks lay" "2 \<le> k" using acquire_found [OF h, of 1] by (auto split: if_splits)
  then have "\<exists>i k. (i, k, True) \<in> Blks lay \<and> 0 + 1 \<le> k" by (intro exI [of _ i] exI [of _ k]) simp
  then obtain s' p where p: "block_acquire (of_nat (16 * 0)) s = Some (s', p)" "16 \<le> p" using acquire_found [OF h, of 0] by (auto split: if_splits)
  have "unat sz < 2 ^ 64" using unsigned_less [of sz] by simp
  then have "(unat sz + 15) mod 2 ^ 64 = unat sz + 15 - 2 ^ 64" using assms(4) by (simp add: le_mod_geq)
  then have "unat (sz + 15) = unat sz + 15 - 2 ^ 64" by (simp add: unat_word_ariths)
  then have u: "unat (sz + 15) < 16" using \<open>unat sz < 2 ^ 64\<close> by linarith
  have m: "HEAP_ALIGN - 1 = (mask 4 :: u64)" "sz + HEAP_ALIGN - 1 = sz + 15" by (simp_all add: HEAP_ALIGN_def mask_eq_exp_minus_1)
  have "unat (heap_round sz) = 0" unfolding heap_round_def m unat_and_not_mask using u by simp
  then have r: "heap_round sz = 0" by (simp add: unat_eq_0)
  have "sz \<noteq> 0" using assms(4) by auto
  then have "kmalloc (0, 0) sz s = Some (stats_gain (block_from p) s', p)" unfolding kmalloc_no_pages r using p by (simp add: HEAP_MAX_BYTES_def)
  then show ?thesis using assms(4) p(2) by simp
qed

end
