(* ===== verification/Spec2Isabelle.thy ===== *)
theory Spec2Isabelle
  imports Bitmap_Scan Str Klist FileSlots Pipe Locks Sha256 Pbcache_Props Aead Sched_Life Futex Rand X25519_Ladder Net_Arp Net_Dns Dir Kheap_Props
begin

text \<open>
  Verification development of the CoreZ OS kernel (sources under \<open>src/\<close>), an x86 kernel in C with a
  preemptive scheduler for four processors, a heap, a Unix-like file layer and a network stack.

  \<^bold>\<open>How the parts fit.\<close> Tasks are run by the scheduler. They sleep on semaphores and locks, on the ring
  buffers of terminals and pipes, or on futexes; each of these queues tasks and hands them back to the
  scheduler. Open files are entries of one table, reached through the descriptors of a task; pipes are two
  such entries over one ring buffer. Open inodes are shared through a red-black tree, by number. The file systems
  reach the disk through the block cache. Frames from the
  network cards go through Ethernet, ARP and IP to ICMP and UDP, and the DNS client sits above UDP. The
  cryptographic routines serve TLS and the random number generator. The heap takes its areas from the page
  allocator.

  \<^bold>\<open>Conventions.\<close> Machine integers are words of their width wherever they can wrap; an index bounded by the
  size of an array is \<open>nat\<close>. Pointers are addresses (0 is null) where aliasing matters, and names (slots,
  indices, options) elsewhere. Static variables are fields of a record that operations take and return.
  A section of code under a lock, or one atomic access where there is no lock, is one step; the operations
  with several sections are split where the lock is released, and step relations interleave them. Sequential
  consistency is assumed between steps. Loops are structural recursion over the list of their indices,
  \<open>function\<close> with a measure, or, where no test bounds them, \<open>partial_function (option)\<close> together with a proof
  that they return; no fuel is used. Uninitialised locals, hardware answers, the page allocator, the block
  driver, the transmit function of the card and TCP input are arguments.

  \<^bold>\<open>Theories.\<close>
  \<^item> \<open>CZ_Prelude\<close>: names of integer types, compiler builtins, shared lemmas. \<open>Limbs\<close>: words read as numbers.
    \<open>Fifo_Spec\<close>, \<open>Obj_Spec\<close> and \<open>Keyed_Spec\<close>: the contracts of a queue, of an object that refines a specification
    and of an index by key, as locales; \<open>Klist\<close> and \<open>Ioqueue\<close> interpret the first, \<open>Pbcache_Spec\<close> the second,
    \<open>Rbtree_Props\<close> the third.
  \<^item> \<open>Bitmap\<close>, \<open>Bitmap_Scan\<close> (\<open>kernel/mm/bitmap/bitmap.c\<close>): a returned run is free and inside the map; which
    runs are found, and a free map in which none is.
  \<^item> \<open>Str\<close> (\<open>lib/str/str.c\<close>): the word-wise routines on a flat memory equal their byte-wise definitions.
  \<^item> \<open>Klist\<close> (\<open>lib/list/list.c\<close>), \<open>Ioqueue\<close> (\<open>drivers/char/ioqueue.c\<close>): both are queues.
  \<^item> \<open>Task\<close> (\<open>struct TASK\<close>), \<open>FileTable\<close>, \<open>FileSlots\<close> (\<open>kernel/fs/file.c\<close>): slots and descriptors one at a
    time, then the lock-free slot bitmap under any interleaving.
  \<^item> \<open>Pipe\<close> (\<open>kernel/shell/pipe.c\<close>): creation on every error path, and delivery of the bytes in order.
  \<^item> \<open>Sync\<close>, \<open>Locks\<close> (\<open>kernel/sched/sync.c\<close>): mutual exclusion and no lost wake-up for any number of tasks.
  \<^item> \<open>Sched\<close>, \<open>Sched_Pick\<close>, \<open>Sched_Safe\<close>, \<open>Sched_Life\<close> (\<open>kernel/sched/thread.c\<close>): the choice of the next
    task, and that no two processors run on one stack in any reachable state.
  \<^item> \<open>Futex\<close> (\<open>kernel/syscall/futex.c\<close>): timeouts, the order of wake-ups, and no lost wake-up.
  \<^item> \<open>Pbcache\<close>, \<open>Pbcache_Spec\<close>, \<open>Pbcache_Props\<close> (\<open>kernel/fs/pbcache.c\<close>): used by one task at a time, the cache
    is the disk; the window between two lock sections in which a second task reads stale data.
  \<^item> \<open>Rbtree\<close>, \<open>Rbtree_Shape\<close>, \<open>Rbtree_Ins\<close>, \<open>Rbtree_Del\<close>, \<open>Rbtree_Props\<close> (\<open>lib/rbtree/rbtree.c\<close>): the pointer
    code on a heap of nodes against trees seen from a subtree with its path to the root; every loop returns, the
    colour invariants hold after every operation, and the tree is an index by key of logarithmic depth.
  \<^item> \<open>Inode\<close> (\<open>kernel/fs/inode.c\<close>), \<open>Dir\<close> (\<open>kernel/fs/dir.c\<close>): reference counts and pages of the open inodes under
    any interleaving of the sections on one processor, over the red-black tree; the table of open directories.
  \<^item> \<open>Kheap\<close> (\<open>kernel/mm/kheap.c\<close>): the heap on the byte memory that holds headers, free links and data.
    \<open>Kheap_Mem\<close> reads that memory in units of 16 bytes, \<open>Kheap_Free\<close> has the free lists, \<open>Kheap_Lay\<close> describes areas as rows
    of blocks, \<open>Kheap_Step\<close>, \<open>Kheap_Release\<close>, \<open>Kheap_Alloc\<close> and \<open>Kheap_Grow\<close> follow the operations on them, \<open>Kheap_Own\<close>,
    \<open>Kheap_Ops\<close>, \<open>Kheap_Resize\<close> and \<open>Kheap_Align\<close> take the view of the callers, \<open>Kheap_Audit\<close> has the audit, and \<open>Kheap_Props\<close>
    shows for every run that data are kept, the audit finds nothing, and allocations fail only for a reason.
  \<^item> \<open>Sha256\<close>, \<open>Chacha20\<close>, \<open>Poly1305\<close>, \<open>Aead\<close> (\<open>lib/crypto\<close>), \<open>Rand\<close> (\<open>lib/rand/rand.c\<close>): against the block
    definitions of the hash, RFC 5869 and RFC 8439, for every input and every split into updates.
  \<^item> \<open>X25519\<close>, \<open>X25519_Fe\<close>, \<open>X25519_Bytes\<close>, \<open>X25519_Ladder\<close> (\<open>lib/crypto/x25519.c\<close>): field arithmetic in five limbs,
    the byte strings, and the ladder against RFC 7748; the one way in which the output differs from it.
  \<^item> \<open>Net_Wire\<close>, \<open>Net_Stack\<close>, \<open>Net_Udp\<close>, \<open>Net_Props\<close>, \<open>Net_Arp\<close>, \<open>Net_Dns\<close> (\<open>drivers/net\<close>): delivery of a
    datagram from host to host, the ARP exchange, the DNS client, and the defects of the echo reply and of
    the UDP ring.

  \<^bold>\<open>Limits of what is modelled.\<close> The table \<open>sha256_k\<close> is an argument, so its values are not checked. File
  reads and writes that dispatch to the file systems and devices are outside of \<open>FileTable\<close>. The network
  model does not interleave the sections under \<open>net_lock\<close>. The runs of the heap exclude sizes near \<open>2 ^ 64\<close>, which wrap
  (\<open>kmalloc_wraps\<close>), and take the pages handed out as disjoint from the areas; its self-test is left out.
  The sections of the inode cache only disable interrupts; two processors inside them at once are outside of
  the model, and the code does not exclude them.

  \<^bold>\<open>Not modelled.\<close> Assembly, boot, interrupts and device drivers work on registers, ports and DMA memory.
  Page tables, process creation and program loading work on raw physical memory. The graphical interface,
  the decoders of images and fonts, the Windows layer and the user programs lie above the kernel's contracts.
  The file systems, TCP and sockets, terminals, signals, AES-GCM, RSA, P-256 and
  TLS could be modelled in the same style and are not yet.
\<close>

end
